(* ===== verification/Prelude.thy ===== *)
theory Prelude
  imports Main "HOL-Library.Signed_Division" "HOL-Library.Word" "HOL-Library.Multiset"
begin

text \<open>
  Shared vocabulary of the development: C arrays as index functions, counted loops as folds over
  an index range, mixed-radix numerals (the arithmetic behind every offset computation and every
  nested parallel loop of the library), and the facts about truncating division on non-negative
  operands.
\<close>

named_theorems loop_simps \<open>unfolding of counted loops\<close>
named_theorems cdiv_simps \<open>truncating division on non-negative operands\<close>

section \<open>C arrays and counted loops\<close>

text \<open>
  A C array is its index function. A read or write outside the array's bounds is not caught by
  this representation; where it matters the model has an explicit guard.
\<close>

type_synonym 'a carray = "nat \<Rightarrow> 'a"

text \<open>An aggregate initialiser fills the named entries and zeroes the others.\<close>

definition arr :: "'a::zero list \<Rightarrow> 'a carray" where
  "arr xs = (\<lambda>i. if i < length xs then xs ! i else 0)"

text \<open>\<open>for (i = lo; i < hi; ++i) body\<close> as a fold of the body over the indices.\<close>

definition for_range :: "nat \<Rightarrow> nat \<Rightarrow> (nat \<Rightarrow> 's \<Rightarrow> 's) \<Rightarrow> 's \<Rightarrow> 's" where
  "for_range lo hi body s = fold body [lo..<hi] s"

abbreviation for_upto :: "nat \<Rightarrow> (nat \<Rightarrow> 's \<Rightarrow> 's) \<Rightarrow> 's \<Rightarrow> 's" where
  "for_upto n body s \<equiv> for_range 0 n body s"

text \<open>\<open>for (i = n - 1; i >= 0; --i) body\<close>.\<close>

definition for_down :: "nat \<Rightarrow> (nat \<Rightarrow> 's \<Rightarrow> 's) \<Rightarrow> 's \<Rightarrow> 's" where
  "for_down n body s = fold body (rev [0..<n]) s"

text \<open>A loop that returns false at the first index whose test fails.\<close>

definition all_upto :: "nat \<Rightarrow> (nat \<Rightarrow> bool) \<Rightarrow> bool" where
  "all_upto n p = list_all p [0..<n]"

lemma all_upto_iff [simp]: "all_upto n p \<longleftrightarrow> (\<forall>i<n. p i)"
  by (auto simp: all_upto_def list_all_iff)

lemma arr_nth [simp]: "i < length xs \<Longrightarrow> arr xs i = xs ! i"
  by (simp add: arr_def)

lemma for_range_empty [simp, loop_simps]: "hi \<le> lo \<Longrightarrow> for_range lo hi body s = s"
  by (simp add: for_range_def)

lemma for_range_Suc [loop_simps]:
  "lo \<le> hi \<Longrightarrow> for_range lo (Suc hi) body s = body hi (for_range lo hi body s)"
  by (simp add: for_range_def)

lemma for_range_first: "lo < hi \<Longrightarrow> for_range lo hi body s = for_range (Suc lo) hi body (body lo s)"
  by (simp add: for_range_def upt_conv_Cons)

lemma for_range_split:
  "lo \<le> mid \<Longrightarrow> mid \<le> hi \<Longrightarrow>
    for_range lo hi body s = for_range mid hi body (for_range lo mid body s)"
proof -
  assume "lo \<le> mid" "mid \<le> hi"
  then have "[lo..<hi] = [lo..<mid] @ [mid..<hi]"
    by (metis le_iff_add upt_add_eq_append)
  then show ?thesis by (simp add: for_range_def)
qed

lemma for_range_inv:
  assumes "I lo s" "lo \<le> hi" "\<And>i s. lo \<le> i \<Longrightarrow> i < hi \<Longrightarrow> I i s \<Longrightarrow> I (Suc i) (body i s)"
  shows "I hi (for_range lo hi body s)"
  using assms(2,3)
proof (induction hi rule: dec_induct)
  case base
  show ?case using assms(1) by simp
next
  case (step n)
  then have "I n (for_range lo n body s)" by auto
  with step show ?case by (auto simp: for_range_Suc)
qed

lemma for_range_cong:
  assumes "\<And>i s. lo \<le> i \<Longrightarrow> i < hi \<Longrightarrow> f i s = g i s"
  shows "for_range lo hi f s = for_range lo hi g s"
  unfolding for_range_def by (rule fold_cong) (auto simp: assms)

text \<open>Loops that write one array entry per index.\<close>

lemma for_range_write:
  "for_range lo hi (\<lambda>i f. f(i := g i)) f = (\<lambda>i. if lo \<le> i \<and> i < hi then g i else f i)"
proof (cases "lo \<le> hi")
  case True
  then show ?thesis
    by (induction hi rule: dec_induct) (auto simp: for_range_Suc fun_eq_iff)
qed (auto simp: fun_eq_iff)

lemma for_down_0 [simp, loop_simps]: "for_down 0 body s = s"
  by (simp add: for_down_def)

lemma for_down_Suc [loop_simps]: "for_down (Suc n) body s = for_down n body (body n s)"
  by (simp add: for_down_def)

lemma for_down_cong:
  assumes "\<And>i s. i < n \<Longrightarrow> f i s = g i s"
  shows "for_down n f s = for_down n g s"
  unfolding for_down_def by (rule fold_cong) (auto simp: assms)

section \<open>Truncating division\<close>

lemma sdiv_nonneg [cdiv_simps]: "0 \<le> a \<Longrightarrow> 0 \<le> b \<Longrightarrow> a sdiv b = a div (b::int)"
  by (cases "a = 0"; cases "b = 0") (auto simp: signed_divide_int_def)

lemma smod_nonneg [cdiv_simps]: "0 \<le> a \<Longrightarrow> 0 \<le> b \<Longrightarrow> a smod b = a mod (b::int)"
  by (cases "a = 0") (auto simp: signed_modulo_int_def)

lemma int_div_less: "a < k * b \<Longrightarrow> 0 < b \<Longrightarrow> a div b < (k::int)"
proof -
  assume a: "a < k * b" and b: "0 < b"
  have "a div b * b \<le> a" using b by (simp add: pos_mod_sign minus_mod_eq_div_mult [symmetric])
  with a have "a div b * b < k * b" by simp
  with b show ?thesis by simp
qed

section \<open>Products of lists\<close>

lemma prod_list_rev [simp]: "prod_list (rev xs) = prod_list (xs :: 'a::comm_monoid_mult list)"
  by (induction xs) (simp_all add: mult.commute)

lemma int_prod_list: "int (prod_list xs) = prod_list (map int xs)"
  by (induction xs) simp_all

section \<open>Mixed-radix numerals\<close>

text \<open>
  \<open>radix_val rs xs\<close> is the number whose digits \<open>xs\<close> (most significant first) are written with
  the radices \<open>rs\<close>; \<open>radix_digits rs n\<close> writes \<open>n\<close> that way, dropping the overflow.
\<close>

fun radix_val :: "nat list \<Rightarrow> nat list \<Rightarrow> nat" where
  "radix_val (r # rs) (x # xs) = x * prod_list rs + radix_val rs xs"
| "radix_val _ _ = 0"

fun radix_digits :: "nat list \<Rightarrow> nat \<Rightarrow> nat list" where
  "radix_digits [] n = []"
| "radix_digits (r # rs) n = (n div prod_list rs) mod r # radix_digits rs n"

definition in_box :: "nat list \<Rightarrow> nat list \<Rightarrow> bool" where
  "in_box rs xs \<longleftrightarrow> list_all2 (\<lambda>r x. x < r) rs xs"

lemma in_box_Nil [simp]: "in_box [] xs \<longleftrightarrow> xs = []" "in_box rs [] \<longleftrightarrow> rs = []"
  by (auto simp: in_box_def)

lemma in_box_Cons [simp]: "in_box (r # rs) (x # xs) \<longleftrightarrow> x < r \<and> in_box rs xs"
  by (simp add: in_box_def)

lemma in_box_length: "in_box rs xs \<Longrightarrow> length xs = length rs"
  by (simp add: in_box_def list_all2_lengthD)

lemma radix_val_less: "in_box rs xs \<Longrightarrow> radix_val rs xs < prod_list rs"
proof (induction rs arbitrary: xs)
  case Nil
  then show ?case by simp
next
  case (Cons r rs)
  then obtain y ys where xs: "xs = y # ys" "y < r" "in_box rs ys"
    by (cases xs) auto
  then have "radix_val rs ys < prod_list rs" using Cons.IH by simp
  moreover have "Suc y * prod_list rs \<le> r * prod_list rs"
    using xs(2) by (intro mult_le_mono1) simp
  ultimately show ?case using xs(1) by simp
qed

lemma length_radix_digits [simp]: "length (radix_digits rs n) = length rs"
  by (induction rs) auto

lemma radix_digits_in_box: "0 < prod_list rs \<Longrightarrow> in_box rs (radix_digits rs n)"
  by (induction rs) auto

lemma mod_mult_div: "n mod (r * m) div m mod r = n div m mod (r::nat)"
proof (cases "m = 0")
  case False
  have "n mod (m * r) = m * (n div m mod r) + n mod m" by (rule mod_mult2_eq)
  with False show ?thesis by (simp add: mult.commute)
qed simp

lemma radix_digits_mod: "radix_digits rs (n mod prod_list rs) = radix_digits rs n"
proof (induction rs arbitrary: n)
  case (Cons r rs)
  have "radix_digits rs (n mod (r * prod_list rs)) = radix_digits rs n"
    by (metis Cons.IH mod_mod_cancel dvd_triv_right)
  then show ?case by (simp add: mod_mult_div)
qed simp

lemma radix_val_digits: "radix_val rs (radix_digits rs n) = n mod prod_list rs"
proof (induction rs arbitrary: n)
  case (Cons r rs)
  then show ?case
    by (simp add: mult.commute [of r] mod_mult2_eq)
qed simp

lemma radix_digits_val: "in_box rs xs \<Longrightarrow> radix_digits rs (radix_val rs xs) = xs"
proof (induction rs arbitrary: xs)
  case (Cons r rs)
  then obtain y ys where xs: "xs = y # ys" "y < r" "in_box rs ys"
    by (cases xs) auto
  from xs(3) have less: "radix_val rs ys < prod_list rs" by (rule radix_val_less)
  have "radix_digits rs (y * prod_list rs + radix_val rs ys) = radix_digits rs (radix_val rs ys)"
    by (metis radix_digits_mod mod_mult_self3 add.commute mult.commute mod_mult_self1)
  with Cons.IH[OF xs(3)] less xs show ?case by simp
qed simp

lemma radix_val_inj: "in_box rs xs \<Longrightarrow> in_box rs ys \<Longrightarrow> radix_val rs xs = radix_val rs ys \<Longrightarrow> xs = ys"
  by (metis radix_digits_val)

end
