(* ===== verification/Utils.thy ===== *)
theory Utils
  imports Prelude
begin

unbundle bit_operations_syntax

text \<open>
  The helper functions of \<open>src/src/common/utils.hpp\<close>, \<open>nstl.hpp\<close> and the integer part of
  \<open>math_utils.hpp\<close>. Templates are modelled at the type the library uses them at: extents and
  counters as \<open>nat\<close>, \<open>dim_t\<close> values as \<open>int\<close> with C's truncating division, pointers and
  \<open>size_t\<close> as 64-bit words where the wrap-around is visible.
\<close>

type_synonym dim_t = int
type_synonym u32 = "32 word"
type_synonym u64 = "64 word"

section \<open>Arrays\<close>

definition array_copy :: "'a carray \<Rightarrow> 'a carray \<Rightarrow> nat \<Rightarrow> 'a carray" where
  "array_copy dst src n = for_upto n (\<lambda>i d. d(i := src i)) dst"

definition array_cmp :: "'a carray \<Rightarrow> 'a carray \<Rightarrow> nat \<Rightarrow> bool" where
  "array_cmp a1 a2 n = all_upto n (\<lambda>i. \<not> a1 i \<noteq> a2 i)"

definition array_set :: "'a carray \<Rightarrow> 'a \<Rightarrow> nat \<Rightarrow> 'a carray" where
  "array_set a v n = for_upto n (\<lambda>i d. d(i := v)) a"

definition array_product :: "dim_t carray \<Rightarrow> nat \<Rightarrow> dim_t" where
  "array_product a n = for_upto n (\<lambda>i p. p * a i) 1"

lemma array_copy_eq: "array_copy dst src n = (\<lambda>i. if i < n then src i else dst i)"
  by (simp add: array_copy_def for_range_write)

lemma array_set_eq: "array_set a v n = (\<lambda>i. if i < n then v else a i)"
  by (simp add: array_set_def for_range_write)

lemma array_cmp_iff: "array_cmp a1 a2 n \<longleftrightarrow> (\<forall>i<n. a1 i = a2 i)"
  by (simp add: array_cmp_def)

lemma array_product_0 [simp]: "array_product a 0 = 1"
  by (simp add: array_product_def)

lemma array_product_Suc [simp]: "array_product a (Suc n) = array_product a n * a n"
  by (simp add: array_product_def for_range_Suc)

lemma array_product_eq: "array_product a n = (\<Prod>i<n. a i)"
  by (induction n) auto

lemma array_product_pos: "(\<And>i. i < n \<Longrightarrow> 0 < a i) \<Longrightarrow> 0 < array_product a n"
  by (induction n) auto

lemma array_product_cong: "(\<And>i. i < n \<Longrightarrow> a i = b i) \<Longrightarrow> array_product a n = array_product b n"
  by (induction n) auto

section \<open>Rounding\<close>

definition div_up :: "dim_t \<Rightarrow> dim_t \<Rightarrow> dim_t" where
  "div_up a b = (a + b - 1) sdiv b"

definition rnd_up :: "dim_t \<Rightarrow> dim_t \<Rightarrow> dim_t" where
  "rnd_up a b = div_up a b * b"

definition rnd_dn :: "dim_t \<Rightarrow> dim_t \<Rightarrow> dim_t" where
  "rnd_dn a b = (a sdiv b) * b"

text \<open>The same templates at \<open>size_t\<close>, where a sum past \<open>2\<^sup>6\<^sup>4\<close> wraps.\<close>

definition div_up_u64 :: "u64 \<Rightarrow> u64 \<Rightarrow> u64" where
  "div_up_u64 a b = (a + b - 1) div b"

definition rnd_up_u64 :: "u64 \<Rightarrow> u64 \<Rightarrow> u64" where
  "rnd_up_u64 a b = div_up_u64 a b * b"

lemma div_up_nonneg: "0 \<le> a \<Longrightarrow> 0 < b \<Longrightarrow> 0 \<le> div_up a b"
  by (simp add: div_up_def cdiv_simps pos_imp_zdiv_nonneg_iff)

lemma rnd_up_dvd: "b dvd rnd_up a b"
  by (simp add: rnd_up_def)

lemma rnd_up_bounds:
  assumes "0 \<le> a" "0 < b"
  shows "a \<le> rnd_up a b" "rnd_up a b < a + b"
proof -
  have e: "rnd_up a b = (a + b - 1) - (a + b - 1) mod b"
    using assms by (simp add: rnd_up_def div_up_def cdiv_simps minus_mod_eq_div_mult)
  have "0 \<le> (a + b - 1) mod b" "(a + b - 1) mod b < b" using assms by auto
  then show "a \<le> rnd_up a b" "rnd_up a b < a + b" unfolding e by linarith+
qed

lemma rnd_up_least:
  assumes "0 \<le> a" "0 < b" "b dvd m" "a \<le> m"
  shows "rnd_up a b \<le> m"
proof -
  obtain k where m: "m = b * k" using assms(3) by (rule dvdE)
  obtain j where j: "rnd_up a b = b * j" using rnd_up_dvd by (rule dvdE)
  have "b * j < b * (k + 1)"
    using rnd_up_bounds(2)[OF assms(1,2)] assms(4) m j by (simp add: algebra_simps)
  then have "j \<le> k" using assms(2) by simp
  then show ?thesis using assms(2) m j by (simp add: mult_left_mono)
qed

lemma rnd_up_0 [simp]: "0 < b \<Longrightarrow> rnd_up 0 b = 0"
  by (simp add: rnd_up_def div_up_def cdiv_simps)

lemma rnd_up_nonneg: "0 \<le> a \<Longrightarrow> 0 < b \<Longrightarrow> 0 \<le> rnd_up a b"
  using rnd_up_bounds(1) order_trans by blast

lemma rnd_up_pos: "0 < a \<Longrightarrow> 0 < b \<Longrightarrow> 0 < rnd_up a b"
  using rnd_up_bounds(1)[of a b] by simp

text \<open>\<open>max_div\<close> counts down to the first divisor; the loop's own exit is \<open>div \<le> 1\<close>.\<close>

function max_div_loop :: "dim_t \<Rightarrow> dim_t \<Rightarrow> dim_t" where
  "max_div_loop a d = (if d > 1 then (if a smod d = 0 then d else max_div_loop a (d - 1)) else d)"
  by pat_completeness auto
termination
  by (relation "measure (\<lambda>(a, d). nat d)") auto

declare max_div_loop.simps [simp del]

definition max_div :: "dim_t \<Rightarrow> dim_t \<Rightarrow> dim_t" where
  "max_div a b = max_div_loop a b"

lemma max_div_greatest:
  assumes "0 \<le> a" "1 \<le> b"
  shows "max_div a b dvd a \<and> 1 \<le> max_div a b \<and> max_div a b \<le> b \<and>
    (\<forall>d. d dvd a \<and> 1 \<le> d \<and> d \<le> b \<longrightarrow> d \<le> max_div a b)"
proof -
  have "0 \<le> a \<Longrightarrow> 1 \<le> d \<Longrightarrow> max_div_loop a d dvd a \<and> 1 \<le> max_div_loop a d \<and> max_div_loop a d \<le> d \<and>
    (\<forall>e. e dvd a \<and> 1 \<le> e \<and> e \<le> d \<longrightarrow> e \<le> max_div_loop a d)" for d
  proof (induction a d rule: max_div_loop.induct)
    case (1 a d)
    show ?case
    proof (cases "d > 1 \<and> \<not> a smod d = 0")
      case True
      then have s: "max_div_loop a d = max_div_loop a (d - 1)"
        by (subst max_div_loop.simps) simp
      have nd: "\<not> d dvd a" using True 1(2) smod_nonneg [of a d] by (simp add: dvd_eq_mod_eq_0)
      have IH: "max_div_loop a (d - 1) dvd a \<and> 1 \<le> max_div_loop a (d - 1) \<and>
          max_div_loop a (d - 1) \<le> d - 1 \<and>
          (\<forall>e. e dvd a \<and> 1 \<le> e \<and> e \<le> d - 1 \<longrightarrow> e \<le> max_div_loop a (d - 1))"
        using True 1 by auto
      have "e \<le> d - 1" if "e dvd a" "e \<le> d" for e
        using that nd by (cases "e = d") auto
      with IH show ?thesis unfolding s by auto
    next
      case False
      then have "max_div_loop a d = d" using 1(3) by (subst max_div_loop.simps) auto
      then show ?thesis using False 1(2,3)
        by (auto simp: cdiv_simps dvd_eq_mod_eq_0)
    qed
  qed
  then show ?thesis unfolding max_div_def using assms .
qed

definition this_block_size :: "dim_t \<Rightarrow> dim_t \<Rightarrow> dim_t \<Rightarrow> dim_t" where
  "this_block_size offset max' block_size =
    (let block_boundary = offset + block_size
     in if block_boundary > max' then max' - offset else block_size)"

text \<open>
  \<open>align_ptr\<close> clears the low bits of \<open>ptr + alignment - 1\<close>.
\<close>

definition align_ptr :: "u64 \<Rightarrow> u64 \<Rightarrow> u64" where
  "align_ptr ptr alignment = (ptr + alignment - 1) AND NOT (alignment - 1)"

lemma unat_add_noov: "unat (a::'a::len word) + unat b < 2 ^ LENGTH('a) \<Longrightarrow> unat (a + b) = unat a + unat b"
  by (metis unat_add_lem)

lemma unat_and_not_mask: "unat (x AND NOT (mask k) :: u64) = unat x div 2 ^ k * 2 ^ k"
proof -
  have "x AND NOT (mask k) = push_bit k (drop_bit k x)"
    by (rule bit_word_eqI) (auto simp: bit_simps)
  moreover have "unat (drop_bit k x) = unat x div 2 ^ k"
    by (simp only: unat_drop_bit_eq) (simp only: drop_bit_eq_div)
  then have "unat (push_bit k (drop_bit k x)) = take_bit 64 (unat x div 2 ^ k * 2 ^ k)"
    by (simp only: unsigned_push_bit_eq) (simp add: push_bit_eq_mult)
  moreover have "unat x div 2 ^ k * 2 ^ k < 2 ^ 64"
    using unsigned_less [of x] by (auto intro: le_less_trans [OF div_times_less_eq_dividend])
  ultimately show ?thesis by (simp add: take_bit_eq_mod)
qed

lemma unat_pow2: "k < 64 \<Longrightarrow> unat ((2::u64) ^ k) = 2 ^ k"
proof -
  assume "k < 64"
  then have "(2::nat) ^ k < 2 ^ 64" by (rule power_strict_increasing) simp
  then have "unat (word_of_nat (2 ^ k) :: u64) = 2 ^ k" by (subst unat_of_nat) simp
  then show ?thesis by simp
qed

lemma mask_word_eq: "(2::u64) ^ k - 1 = mask k"
  by (simp add: mask_eq_exp_minus_1)

text \<open>
  On a power of two, and when the addition does not wrap, the bit trick is rounding up: the
  result is aligned, not below the pointer and less than one alignment above it.
\<close>

lemma align_ptr_pow2:
  assumes "k < 64" "unat p + 2 ^ k \<le> 2 ^ 64"
  shows "unat (align_ptr p (2 ^ k)) = (unat p + 2 ^ k - 1) div 2 ^ k * 2 ^ k"
proof -
  have m: "unat (mask k :: u64) = 2 ^ k - 1"
  proof -
    have "(2::u64) ^ k \<noteq> 0" using unat_pow2[OF assms(1)] by (metis power_not_zero unat_0 zero_neq_numeral)
    then have "unat ((2::u64) ^ k - 1) = unat ((2::u64) ^ k) - 1" by (rule unat_minus_one)
    then show ?thesis by (simp add: mask_word_eq unat_pow2[OF assms(1)])
  qed
  have "unat (p + mask k) = unat p + unat (mask k :: u64)"
    by (rule unat_add_noov) (use assms(2) m in simp)
  moreover have "p + 2 ^ k - 1 = p + mask k" by (simp only: mask_word_eq add_diff_eq[symmetric])
  then have "align_ptr p (2 ^ k) = (p + mask k) AND NOT (mask k)"
    by (simp only: align_ptr_def mask_word_eq)
  ultimately show ?thesis
    using m by (simp add: unat_and_not_mask)
qed

lemma align_ptr_bounds:
  assumes "k < 64" "unat p + 2 ^ k \<le> 2 ^ 64"
  shows "2 ^ k dvd unat (align_ptr p (2 ^ k))"
    and "unat p \<le> unat (align_ptr p (2 ^ k))"
    and "unat (align_ptr p (2 ^ k)) < unat p + 2 ^ k"
proof -
  let ?n = "unat p" and ?a = "(2::nat) ^ k"
  note e = align_ptr_pow2[OF assms]
  show "?a dvd unat (align_ptr p (2 ^ k))" by (simp add: e)
  have eq: "(?n + ?a - 1) div ?a * ?a = (?n + ?a - 1) - (?n + ?a - 1) mod ?a"
    by (simp add: minus_mod_eq_div_mult)
  have "(?n + ?a - 1) mod ?a < ?a" by simp
  then show "?n \<le> unat (align_ptr p (2 ^ k))" "unat (align_ptr p (2 ^ k)) < ?n + ?a"
    unfolding e eq by linarith+
qed

section \<open>Multi-dimensional iterators\<close>

text \<open>
  The variadic templates take pairs of a counter reference and its extent, outermost first. Here
  the counters are a list, returned updated.
\<close>

fun nd_iterator_init :: "nat \<Rightarrow> nat list \<Rightarrow> nat \<times> nat list" where
  "nd_iterator_init start [] = (start, [])"
| "nd_iterator_init start (X # Xs) =
     (let (start, xs) = nd_iterator_init start Xs in (start div X, (start mod X) # xs))"

fun nd_iterator_step :: "nat list \<Rightarrow> nat list \<Rightarrow> bool \<times> nat list" where
  "nd_iterator_step (x # xs) (X # Xs) =
     (let (carry, xs) = nd_iterator_step xs Xs
      in if carry then (let x = (x + 1) mod X in (x = 0, x # xs)) else (False, x # xs))"
| "nd_iterator_step _ _ = (True, [])"

fun nd_iterator_jump :: "nat \<Rightarrow> nat \<Rightarrow> nat list \<Rightarrow> nat list \<Rightarrow> bool \<times> nat \<times> nat list" where
  "nd_iterator_jump cur end' [x] [X] =
     (let max_jump = end' - cur; dim_jump = X - x
      in if dim_jump \<le> max_jump then (True, cur + dim_jump, [0])
         else (False, cur + max_jump, [x + max_jump]))"
| "nd_iterator_jump cur end' (x # xs) (X # Xs) =
     (let (carry, cur, xs) = nd_iterator_jump cur end' xs Xs
      in if carry then (let x = (x + 1) mod X in (x = 0, cur, x # xs)) else (False, cur, x # xs))"
| "nd_iterator_jump cur end' _ _ = (True, cur, [])"

lemma nd_iterator_init_eq:
  "nd_iterator_init start Xs = (start div prod_list Xs, radix_digits Xs start)"
  by (induction Xs) (simp_all add: Let_def div_mult2_eq [symmetric] mult.commute)

lemma radix_val_last: "in_box (r # rs) (x # xs) \<Longrightarrow> Suc (radix_val rs xs) = prod_list rs \<Longrightarrow>
    radix_val (r # rs) (x # xs) + 1 = (x + 1) * prod_list rs"
  by simp

lemma nd_iterator_step_eq:
  "in_box Xs xs \<Longrightarrow> nd_iterator_step xs Xs =
    (radix_val Xs xs + 1 = prod_list Xs, radix_digits Xs (radix_val Xs xs + 1))"
proof (induction xs Xs rule: nd_iterator_step.induct)
  case (1 x xs X Xs)
  then have box: "x < X" "in_box Xs xs" by auto
  note IH = 1(1)[OF box(2)]
  have lt: "radix_val Xs xs < prod_list Xs" using box(2) by (rule radix_val_less)
  show ?case
  proof (cases "radix_val Xs xs + 1 = prod_list Xs")
    case True
    have e: "radix_val (X # Xs) (x # xs) + 1 = (x + 1) * prod_list Xs" using True by simp
    have "(x + 1) mod X = 0 \<longleftrightarrow> (x + 1) = X"
      using box(1) by (metis Suc_eq_plus1 Suc_lessI mod_less mod_self nat.distinct(1))
    moreover have "(x + 1) * prod_list Xs = X * prod_list Xs \<longleftrightarrow> x + 1 = X"
      using lt by (subst mult_cancel2) auto
    moreover have "radix_digits Xs ((x + 1) * prod_list Xs) = radix_digits Xs (radix_val Xs xs + 1)"
      by (metis True mod_mult_self2_is_0 mod_self radix_digits_mod)
    ultimately show ?thesis using IH True lt unfolding e
      by (simp add: Let_def)
  next
    case False
    with lt have lt': "radix_val Xs xs + 1 < prod_list Xs" by simp
    have e: "radix_val (X # Xs) (x # xs) + 1 = x * prod_list Xs + (radix_val Xs xs + 1)" by simp
    have "x * prod_list Xs + (radix_val Xs xs + 1) \<noteq> X * prod_list Xs"
    proof
      assume "x * prod_list Xs + (radix_val Xs xs + 1) = X * prod_list Xs"
      then have "(radix_val Xs xs + 1) mod prod_list Xs = 0"
        by (metis mod_mult_self2_is_0 mod_mult_self3)
      with lt' show False by simp
    qed
    moreover have "radix_digits Xs (x * prod_list Xs + (radix_val Xs xs + 1)) =
        radix_digits Xs (radix_val Xs xs + 1)"
      by (metis mod_mult_self3 radix_digits_mod)
    moreover have "(x * prod_list Xs + (radix_val Xs xs + 1)) div prod_list Xs = x"
      using lt' by (subst div_mult_self3) simp_all
    ultimately show ?thesis using IH False box(1) unfolding e by (simp add: Let_def)
  qed
qed auto

text \<open>One outer digit on top of an inner jump that moved the inner counters by \<open>k\<close>.\<close>

lemma jump_Cons_aux:
  assumes "Ys \<noteq> []" "ys \<noteq> []" "x < X" "in_box Ys ys"
    and le: "radix_val Ys ys + k \<le> prod_list Ys"
    and IH: "nd_iterator_jump cur end' ys Ys =
      (radix_val Ys ys + k = prod_list Ys, cur + k, radix_digits Ys (radix_val Ys ys + k))"
  shows "radix_val (X # Ys) (x # ys) + k \<le> prod_list (X # Ys) \<and>
    nd_iterator_jump cur end' (x # ys) (X # Ys) =
    (radix_val (X # Ys) (x # ys) + k = prod_list (X # Ys), cur + k,
     radix_digits (X # Ys) (radix_val (X # Ys) (x # ys) + k))"
proof -
  define P v where "P = prod_list Ys" and "v = radix_val Ys ys"
  have P: "0 < P" using radix_val_less[OF assms(4)] unfolding P_def by linarith
  have leX: "Suc x * P \<le> X * P" using assms(3) by (intro mult_le_mono1) simp
  have dig: "radix_digits Ys (x * P + n) = radix_digits Ys n" for n x
    by (metis mod_mult_self3 radix_digits_mod P_def)
  have step: "nd_iterator_jump cur end' (x # ys) (X # Ys) =
    (if v + k = P then ((x + 1) mod X = 0, cur + k, (x + 1) mod X # radix_digits Ys (v + k))
     else (False, cur + k, x # radix_digits Ys (v + k)))"
    using assms(1,2) IH by (cases Ys; cases ys) (auto simp: P_def v_def Let_def)
  show ?thesis
  proof (cases "v + k = P")
    case True
    have "(x + 1) mod X = 0 \<longleftrightarrow> x + 1 = X"
      using assms(3) by (metis Suc_eq_plus1 Suc_lessI mod_less mod_self nat.distinct(1))
    moreover have e: "x * P + v + k = (x + 1) * P" using True by simp
    moreover have "(x + 1) * P = X * P \<longleftrightarrow> x + 1 = X" using P by (subst mult_cancel2) auto
    moreover have "radix_digits Ys ((x + 1) * P) = radix_digits Ys (v + k)"
      using dig[of "x + 1" 0] dig[of 1 0] True by simp
    moreover have "(x + 1) * P div P = x + 1" using P by simp
    ultimately show ?thesis using leX
      by (simp only: step True if_True radix_val.simps radix_digits.simps prod_list.Cons
          flip: P_def v_def) simp
  next
    case False
    with le have lt: "v + k < P" unfolding P_def v_def by simp
    have "(x * P + v + k) div P = x" using lt P by (simp add: add.assoc)
    moreover have "x * P + v + k < X * P" using lt leX by simp
    ultimately show ?thesis using False assms(3) dig[of x "v + k"]
      by (simp only: step if_False radix_val.simps radix_digits.simps prod_list.Cons add.assoc
          flip: P_def v_def) simp
  qed
qed

lemma nd_iterator_jump_eq:
  assumes "in_box Xs xs" "Xs \<noteq> []" "cur \<le> end'"
  defines "k \<equiv> min (last Xs - last xs) (end' - cur)"
  shows "nd_iterator_jump cur end' xs Xs =
    (radix_val Xs xs + k = prod_list Xs, cur + k, radix_digits Xs (radix_val Xs xs + k))"
proof -
  have "in_box Xs xs \<Longrightarrow> Xs \<noteq> [] \<Longrightarrow>
    k = min (last Xs - last xs) (end' - cur) \<Longrightarrow>
    radix_val Xs xs + k \<le> prod_list Xs \<and>
    nd_iterator_jump cur end' xs Xs =
    (radix_val Xs xs + k = prod_list Xs, cur + k, radix_digits Xs (radix_val Xs xs + k))" for k
  proof (induction Xs arbitrary: xs)
    case Nil
    then show ?case by simp
  next
    case (Cons X Ys)
    from Cons.prems(1) obtain x ys where xs: "xs = x # ys" and box: "x < X" "in_box Ys ys"
      by (cases xs) auto
    show ?case
    proof (cases "Ys = []")
      case True
      then show ?thesis using box xs Cons.prems(3) assms(3) by (auto simp: Let_def min_def)
    next
      case False
      then have ne: "ys \<noteq> []" using box(2) by auto
      have IH: "radix_val Ys ys + k \<le> prod_list Ys \<and> nd_iterator_jump cur end' ys Ys =
        (radix_val Ys ys + k = prod_list Ys, cur + k, radix_digits Ys (radix_val Ys ys + k))"
        using Cons.IH[OF box(2) False] Cons.prems(3) xs False ne by simp
      show ?thesis unfolding xs
        by (rule jump_Cons_aux[OF False ne box]) (use IH in auto)
    qed
  qed
  then show ?thesis using assms by blast
qed

section \<open>Sorting values with their keys\<close>

text \<open>
  A bubble sort with an early exit. The state of the inner loop is the values, the keys (when
  the caller passed any) and the \<open>swapped\<close> flag.
\<close>

type_synonym ('v, 'k) sort_state = "'v carray \<times> 'k carray option"

definition swap_at :: "nat \<Rightarrow> 'a carray \<Rightarrow> 'a carray" where
  "swap_at j a = a(j := a (Suc j), Suc j := a j)"

fun sort_step :: "('v \<Rightarrow> 'v \<Rightarrow> int) \<Rightarrow> nat \<Rightarrow> ('v, 'k) sort_state \<times> bool \<Rightarrow> ('v, 'k) sort_state \<times> bool" where
  "sort_step cmp j ((vals, keys), swapped) =
     (if cmp (vals j) (vals (Suc j)) > 0
      then ((swap_at j vals, map_option (swap_at j) keys), True)
      else ((vals, keys), swapped))"

definition sort_pass :: "('v \<Rightarrow> 'v \<Rightarrow> int) \<Rightarrow> nat \<Rightarrow> ('v, 'k) sort_state \<Rightarrow> ('v, 'k) sort_state \<times> bool" where
  "sort_pass cmp m st = for_upto m (sort_step cmp) (st, False)"

function sort_loop :: "('v \<Rightarrow> 'v \<Rightarrow> int) \<Rightarrow> nat \<Rightarrow> nat \<Rightarrow> ('v, 'k) sort_state \<Rightarrow> ('v, 'k) sort_state" where
  "sort_loop cmp n i st =
     (if i < n - 1
      then (let (st, swapped) = sort_pass cmp (n - i - 1) st
            in if \<not> swapped then st else sort_loop cmp n (Suc i) st)
      else st)"
  by pat_completeness auto
termination
  by (relation "measure (\<lambda>(cmp, n, i, st). n - i)") auto

declare sort_loop.simps [simp del]

definition simultaneous_sort :: "('v \<Rightarrow> 'v \<Rightarrow> int) \<Rightarrow> 'v carray \<Rightarrow> 'k carray option \<Rightarrow> nat \<Rightarrow> ('v, 'k) sort_state" where
  "simultaneous_sort cmp vals keys n = (if n = 0 then (vals, keys) else sort_loop cmp n 0 (vals, keys))"

text \<open>
  The result is one permutation of the first \<open>n\<close> positions applied to values and keys alike.
\<close>

definition rearranges :: "nat \<Rightarrow> ('v, 'k) sort_state \<Rightarrow> ('v, 'k) sort_state \<Rightarrow> bool" where
  "rearranges n st st' \<longleftrightarrow> (\<exists>\<pi>. bij \<pi> \<and> (\<forall>i\<ge>n. \<pi> i = i) \<and>
     fst st' = fst st \<circ> \<pi> \<and> snd st' = map_option (\<lambda>k. k \<circ> \<pi>) (snd st))"

definition flip_at :: "nat \<Rightarrow> nat \<Rightarrow> nat" where
  "flip_at j i = (if i = j then Suc j else if i = Suc j then j else i)"

lemma flip_at_invol [simp]: "flip_at j (flip_at j i) = i"
  by (auto simp: flip_at_def)

lemma bij_flip_at: "bij (flip_at j)"
  by (rule involuntory_imp_bij) simp

lemma swap_at_flip: "swap_at j a = a \<circ> flip_at j"
  by (auto simp: swap_at_def flip_at_def fun_eq_iff)

lemma rearranges_refl [simp]: "rearranges n st st"
  by (auto simp: rearranges_def option.map_ident intro!: exI [of _ id])

lemma rearranges_trans:
  assumes "rearranges n a b" "rearranges n b c"
  shows "rearranges n a c"
proof -
  from assms obtain p q where "bij p" "\<forall>i\<ge>n. p i = i" "fst b = fst a \<circ> p"
    "snd b = map_option (\<lambda>k. k \<circ> p) (snd a)" "bij q" "\<forall>i\<ge>n. q i = i" "fst c = fst b \<circ> q"
    "snd c = map_option (\<lambda>k. k \<circ> q) (snd b)"
    unfolding rearranges_def by blast
  moreover have "bij (p \<circ> q)" using \<open>bij q\<close> \<open>bij p\<close> by (rule bij_comp)
  ultimately show ?thesis unfolding rearranges_def
    by (intro exI [of _ "p \<circ> q"]) (auto simp: o_assoc option.map_comp comp_def)
qed

lemma sort_step_rearranges:
  assumes "Suc j < n"
  shows "rearranges n (fst s) (fst (sort_step cmp j s))"
proof -
  obtain vals keys sw where s: "s = ((vals, keys), sw)" by (cases s) auto
  have "rearranges n (vals, keys) (swap_at j vals, map_option (swap_at j) keys)"
    unfolding rearranges_def
    by (rule exI [of _ "flip_at j"], cases keys)
      (use assms bij_flip_at in \<open>auto simp: swap_at_flip flip_at_def fun_eq_iff\<close>)
  then show ?thesis unfolding s by auto
qed

lemma sort_pass_rearranges:
  assumes "m < n"
  shows "rearranges n st (fst (sort_pass cmp m st))"
  unfolding sort_pass_def
proof (rule for_range_inv [where I = "\<lambda>i s. rearranges n st (fst s)"])
  fix j and s :: "((nat \<Rightarrow> 'a) \<times> (nat \<Rightarrow> 'b) option) \<times> bool"
  assume "j < m" "rearranges n st (fst s)"
  then show "rearranges n st (fst (sort_step cmp j s))"
    using assms by (intro rearranges_trans [OF _ sort_step_rearranges]) auto
qed simp_all

lemma sort_loop_rearranges: "rearranges n st (sort_loop cmp n i st)"
proof (induction cmp n i st rule: sort_loop.induct)
  case (1 cmp n i st)
  obtain st' sw where p: "sort_pass cmp (n - i - 1) st = (st', sw)" by (cases "sort_pass cmp (n - i - 1) st")
  show ?case
  proof (cases "i < n - 1")
    case True
    then have "rearranges n st st'" using sort_pass_rearranges [of "n - i - 1" n st cmp] p by simp
    moreover have "sw \<Longrightarrow> rearranges n st' (sort_loop cmp n (Suc i) st')"
      using 1 [OF True p [symmetric] refl] by simp
    ultimately show ?thesis using p True
      by (subst sort_loop.simps) (auto simp: Let_def intro: rearranges_trans)
  next
    case False
    then show ?thesis by (subst sort_loop.simps) simp
  qed
qed

lemma simultaneous_sort_rearranges: "rearranges n (vals, keys) (simultaneous_sort cmp vals keys n)"
  by (simp add: simultaneous_sort_def sort_loop_rearranges)

text \<open>
  Sortedness needs a comparator that is total and transitive. That is the interface the callers
  of the sort rely on.
\<close>

locale comparator =
  fixes cmp :: "'v \<Rightarrow> 'v \<Rightarrow> int"
  assumes cmp_total: "cmp a b > 0 \<Longrightarrow> cmp b a \<le> 0"
    and cmp_trans: "cmp a b \<le> 0 \<Longrightarrow> cmp b c \<le> 0 \<Longrightarrow> cmp a c \<le> 0"
begin

text \<open>Entries from position \<open>n - i\<close> on are in place: not below any earlier one.\<close>

definition placed :: "nat \<Rightarrow> nat \<Rightarrow> 'v carray \<Rightarrow> bool" where
  "placed n i v \<longleftrightarrow> (\<forall>a b. a < b \<longrightarrow> b < n \<longrightarrow> n - i \<le> b \<longrightarrow> cmp (v a) (v b) \<le> 0)"

lemma adjacent_sorted:
  assumes "\<forall>a<m. cmp (v a) (v (Suc a)) \<le> 0" "a < b" "b \<le> m"
  shows "cmp (v a) (v b) \<le> 0"
proof -
  have "Suc a \<le> b \<Longrightarrow> b \<le> m \<Longrightarrow> cmp (v a) (v b) \<le> 0"
  proof (induction b rule: dec_induct)
    case base
    then show ?case using assms(1) by simp
  next
    case (step b)
    then have "cmp (v a) (v b) \<le> 0" "cmp (v b) (v (Suc b)) \<le> 0" using assms(1) by auto
    then show ?case by (rule cmp_trans)
  qed
  then show ?thesis using assms by simp
qed

lemma sort_pass_places:
  assumes "placed n i (fst st)" "i < n - 1" "sort_pass cmp (n - i - 1) st = (st', sw)"
  shows "placed n (Suc i) (fst st') \<and>
    (\<not> sw \<longrightarrow> (\<forall>a<n - i - 1. cmp (fst st' a) (fst st' (Suc a)) \<le> 0))"
proof -
  let ?m = "n - i - 1"
  let ?I = "\<lambda>j s. (\<forall>a<j. cmp (fst (fst s) a) (fst (fst s) j) \<le> 0) \<and> placed n i (fst (fst s)) \<and>
      (\<not> snd s \<longrightarrow> (\<forall>a<j. cmp (fst (fst s) a) (fst (fst s) (Suc a)) \<le> 0))"
  have "?I ?m (sort_pass cmp ?m st)"
    unfolding sort_pass_def
  proof (rule for_range_inv [where I = ?I])
    show "?I 0 (st, False)" using assms(1) by simp
  next
    fix j and s :: "('v, 'b) sort_state \<times> bool"
    assume j: "j < ?m" and I: "?I j s"
    obtain v k w where s: "s = ((v, k), w)" by (cases s) auto
    show "?I (Suc j) (sort_step cmp j s)"
    proof (cases "cmp (v j) (v (Suc j)) > 0")
      case True
      then have "cmp (v (Suc j)) (v j) \<le> 0" by (rule cmp_total)
      moreover have "placed n i (swap_at j v)"
        using I j unfolding placed_def s
        by (auto simp: swap_at_def)
      ultimately show ?thesis using I True s by (auto simp: swap_at_def less_Suc_eq)
    next
      case False
      then have le: "cmp (v j) (v (Suc j)) \<le> 0" by simp
      then have "\<forall>a<Suc j. cmp (v a) (v (Suc j)) \<le> 0"
        using I s cmp_trans by (auto simp: less_Suc_eq)
      then show ?thesis using I False le s by (auto simp: less_Suc_eq)
    qed
  qed simp
  then have I: "?I ?m (st', sw)" using assms(3) by simp
  have "placed n (Suc i) (fst st')"
    unfolding placed_def
  proof (intro allI impI)
    fix a b assume b: "a < b" "b < n" "n - Suc i \<le> b"
    show "cmp (fst st' a) (fst st' b) \<le> 0"
    proof (cases "n - i \<le> b")
      case True
      then show ?thesis using I b by (auto simp: placed_def)
    next
      case False
      then have "b = ?m" using b assms(2) by simp
      then show ?thesis using I b by auto
    qed
  qed
  with I show ?thesis by auto
qed

lemma sort_loop_sorts:
  assumes "placed n i (fst st)" "a < b" "b < n"
  shows "cmp (fst (sort_loop cmp n i st) a) (fst (sort_loop cmp n i st) b) \<le> 0"
  using assms
proof (induction "n - i" arbitrary: i st rule: less_induct)
  case (less i st)
  show ?case
  proof (cases "i < n - 1")
    case True
    obtain st' sw where p: "sort_pass cmp (n - i - 1) st = (st', sw)"
      by (cases "sort_pass cmp (n - i - 1) st")
    note pl = sort_pass_places [OF less(2) True p]
    show ?thesis
    proof (cases sw)
      case True': True
      have "sort_loop cmp n i st = sort_loop cmp n (Suc i) st'"
        using True True' p by (subst sort_loop.simps) simp
      then show ?thesis using less(1) [of "Suc i" st'] True pl less(3,4) by simp
    next
      case False
      have "sort_loop cmp n i st = st'" using True False p by (subst sort_loop.simps) simp
      moreover have "cmp (fst st' a) (fst st' b) \<le> 0"
      proof (cases "b \<le> n - i - 1")
        case True
        then show ?thesis using pl False less(3) by (intro adjacent_sorted) auto
      next
        case False
        then show ?thesis using pl less(3,4) by (auto simp: placed_def)
      qed
      ultimately show ?thesis by simp
    qed
  next
    case False
    then have "sort_loop cmp n i st = st" by (subst sort_loop.simps) simp
    then show ?thesis using less(2,3,4) False by (auto simp: placed_def)
  qed
qed

lemma simultaneous_sort_sorts:
  "a < b \<Longrightarrow> b < n \<Longrightarrow>
    cmp (fst (simultaneous_sort cmp vals keys n) a) (fst (simultaneous_sort cmp vals keys n) b) \<le> 0"
  using sort_loop_sorts [of n 0 "(vals, keys)" a b]
  by (auto simp: simultaneous_sort_def placed_def)

end

text \<open>The comparator \<open>memory_desc_init_by_blocking_desc\<close> passes: larger strides first.\<close>

definition stride_cmp :: "dim_t \<Rightarrow> dim_t \<Rightarrow> dim_t" where
  "stride_cmp a b = b - a"

interpretation stride_order: comparator stride_cmp
  by unfold_locales (auto simp: stride_cmp_def)

section \<open>Row-major offsets\<close>

text \<open>
  \<open>array_offset_calculator\<close>: a base pointer with the extents \<open>dims\<close>; \<open>operator()\<close> folds the
  indices from the left. The first extent is never read.
\<close>

fun array_offset :: "nat carray \<Rightarrow> nat \<Rightarrow> nat \<Rightarrow> nat list \<Rightarrow> nat" where
  "array_offset dms dimension theta [] = theta"
| "array_offset dms dimension theta (element # rest) =
     array_offset dms (dimension + 1) (element + dms dimension * theta) rest"

definition array_offset_calculator :: "nat carray \<Rightarrow> nat list \<Rightarrow> nat" where
  "array_offset_calculator dms idx = array_offset dms 1 (hd idx) (tl idx)"

lemma array_offset_eq:
  "length xs = length rs \<Longrightarrow> (\<And>i. i < length rs \<Longrightarrow> dms (d + i) = rs ! i) \<Longrightarrow>
    array_offset dms d t xs = t * prod_list rs + radix_val rs xs"
proof (induction xs arbitrary: rs d t)
  case (Cons x xs)
  then obtain r rs' where rs: "rs = r # rs'" by (cases rs) auto
  have "dms (Suc d + i) = rs' ! i" if "i < length rs'" for i
    using Cons.prems(2) [of "Suc i"] that rs by simp
  moreover have "dms d = r" using Cons.prems(2) [of 0] rs by simp
  ultimately show ?case using Cons rs by (simp add: algebra_simps)
qed simp

lemma array_offset_calculator_eq:
  assumes "length xs = length rs" "rs \<noteq> []" "\<And>i. i < length rs \<Longrightarrow> dms i = rs ! i"
  shows "array_offset_calculator dms xs = radix_val rs xs"
proof -
  obtain r rs' where rs: "rs = r # rs'" using assms(2) by (cases rs) auto
  obtain x xs' where xs: "xs = x # xs'" using assms(1) rs by (cases xs) auto
  have "array_offset dms 1 x xs' = x * prod_list rs' + radix_val rs' xs'"
    by (rule array_offset_eq) (use assms(1,3) rs xs in \<open>auto simp: nth_Cons split: nat.splits\<close>)
  then show ?thesis by (simp add: array_offset_calculator_def rs xs)
qed

fun pick :: "nat \<Rightarrow> 'a \<Rightarrow> 'a list \<Rightarrow> 'a" where
  "pick i x0 [] = x0"
| "pick i x0 (x1 # xs) = (if i = 0 then x0 else pick (i - 1) x1 xs)"

lemma pick_eq: "pick i x0 xs = (x0 # xs) ! min i (length xs)"
proof (induction xs arbitrary: i x0)
  case (Cons x1 xs)
  then show ?case by (cases i) auto
qed simp

section \<open>Integer mathematics\<close>

function gcd_loop :: "int \<Rightarrow> int \<Rightarrow> int" where
  "gcd_loop a b = (if b \<le> 0 then b else (let r = a mod b in if r \<noteq> 0 then gcd_loop b r else b))"
  by pat_completeness auto
termination
  by (relation "measure (\<lambda>(a, b). nat b)") (auto simp: pos_mod_bound)

declare gcd_loop.simps [simp del]

text \<open>
  \<open>math::gcd\<close>: both operands are made non-negative first, so the loop's \<open>%\<close> is a plain
  remainder, and it is entered with \<open>b > 0\<close> only.
\<close>

definition math_gcd :: "int \<Rightarrow> int \<Rightarrow> int" where
  "math_gcd a b =
     (let a = (if a \<ge> 0 then a else - a); b = (if b \<ge> 0 then b else - b);
          (a, b) = (if a < b then (b, a) else (a, b))
      in if b = 0 then a else gcd_loop a b)"

lemma gcd_loop_eq: "0 < b \<Longrightarrow> gcd_loop a b = gcd a b"
proof (induction a b rule: gcd_loop.induct)
  case (1 a b)
  show ?case
  proof (cases "a mod b = 0")
    case True
    then have "b dvd a" by (simp add: dvd_eq_mod_eq_0)
    then have "gcd a b = b" using 1(2) by (simp add: gcd_proj2_iff)
    moreover have "gcd_loop a b = b" using True by (subst gcd_loop.simps) simp
    ultimately show ?thesis by simp
  next
    case False
    then have "0 < a mod b" using 1(2) by (simp add: order.not_eq_order_implies_strict)
    then have "gcd_loop b (a mod b) = gcd b (a mod b)" using 1 False by simp
    then show ?thesis using False 1(2)
      by (subst gcd_loop.simps) (simp add: gcd_red_int [of a b] gcd.commute)
  qed
qed

lemma math_gcd_eq: "math_gcd a b = gcd a b"
proof -
  have g: "(if y = 0 then x else gcd_loop x y) = gcd x y" if "0 \<le> x" "0 \<le> y" for x y :: int
    using that by (cases "y = 0") (simp_all add: gcd_loop_eq)
  have "math_gcd a b = (if \<bar>a\<bar> < \<bar>b\<bar> then gcd \<bar>b\<bar> \<bar>a\<bar> else gcd \<bar>a\<bar> \<bar>b\<bar>)"
    by (auto simp: math_gcd_def g [symmetric] abs_if)
  then show ?thesis by (simp add: gcd.commute)
qed

definition ilog2q_step :: "nat \<Rightarrow> nat \<times> int \<Rightarrow> nat \<times> int" where
  "ilog2q_step pw = (\<lambda>(v, p). if v \<ge> 2 ^ pw then (v div 2 ^ pw, p + int pw) else (v, p))"

definition ilog2q :: "nat \<Rightarrow> int" where
  "ilog2q v = (if v = 0 then -1 else snd (fold ilog2q_step [32, 16, 8, 4, 2, 1] (v, 0)))"

text \<open>Each step keeps \<open>v\<close> the leading bits of the argument and halves its possible width.\<close>

lemma ilog2q_step_inv:
  assumes "v0 div 2 ^ p = v" "0 < v" "v < 2 ^ (2 * pw)" "ilog2q_step pw (v, int p) = (v', p')"
  shows "\<exists>q. p' = int q \<and> v0 div 2 ^ q = v' \<and> 0 < v' \<and> v' < 2 ^ pw"
proof (cases "v \<ge> 2 ^ pw")
  case True
  then have e: "v' = v div 2 ^ pw" "p' = int (p + pw)" using assms(4) by (auto simp: ilog2q_step_def)
  have "v0 div 2 ^ (p + pw) = v'" using assms(1) e by (simp add: power_add div_mult2_eq)
  moreover have "0 < v'" using True e by (simp add: div_greater_zero_iff)
  moreover have "v' < 2 ^ pw" using assms(3) e
    by (simp add: less_mult_imp_div_less power_add mult_2)
  ultimately show ?thesis using e(2) by blast
next
  case False
  then show ?thesis using assms by (auto simp: ilog2q_step_def intro: exI [of _ p])
qed

lemma ilog2q_bounds:
  assumes "0 < v" "v < 2 ^ 64"
  obtains p where "ilog2q v = int p" "2 ^ p \<le> v" "v < 2 ^ (p + 1)"
proof -
  note st = ilog2q_step_inv [of v]
  obtain v1 p1 where 1: "ilog2q_step 32 (v, int 0) = (v1, p1)" by force
  from st [OF _ assms(1) _ 1] assms(2) obtain q1 where
    q1: "p1 = int q1" "v div 2 ^ q1 = v1" "0 < v1" "v1 < 2 ^ (2 * 16)" by auto
  obtain v2 p2 where 2: "ilog2q_step 16 (v1, int q1) = (v2, p2)" by force
  from st [OF q1(2,3,4) 2] obtain q2 where
    q2: "p2 = int q2" "v div 2 ^ q2 = v2" "0 < v2" "v2 < 2 ^ (2 * 8)" by auto
  obtain v3 p3 where 3: "ilog2q_step 8 (v2, int q2) = (v3, p3)" by force
  from st [OF q2(2,3,4) 3] obtain q3 where
    q3: "p3 = int q3" "v div 2 ^ q3 = v3" "0 < v3" "v3 < 2 ^ (2 * 4)" by auto
  obtain v4 p4 where 4: "ilog2q_step 4 (v3, int q3) = (v4, p4)" by force
  from st [OF q3(2,3,4) 4] obtain q4 where
    q4: "p4 = int q4" "v div 2 ^ q4 = v4" "0 < v4" "v4 < 2 ^ (2 * 2)" by auto
  obtain v5 p5 where 5: "ilog2q_step 2 (v4, int q4) = (v5, p5)" by force
  from st [OF q4(2,3,4) 5] obtain q5 where
    q5: "p5 = int q5" "v div 2 ^ q5 = v5" "0 < v5" "v5 < 2 ^ (2 * 1)" by auto
  obtain v6 p6 where 6: "ilog2q_step 1 (v5, int q5) = (v6, p6)" by force
  from st [OF q5(2,3,4) 6] obtain q6 where
    q6: "p6 = int q6" "v div 2 ^ q6 = v6" "0 < v6" "v6 < 2 ^ 1" by auto
  have "ilog2q v = int q6"
    using assms(1) 1 2 3 4 5 6 q1(1) q2(1) q3(1) q4(1) q5(1) q6(1) by (simp add: ilog2q_def)
  moreover have one: "v div 2 ^ q6 = 1" using q6 by simp
  have "2 ^ q6 \<le> v" using one by (metis div_less less_one linorder_not_less zero_neq_one)
  moreover have "v < 2 ^ (q6 + 1)"
    using one by (metis add.commute div_less_iff_less_mult lessI numeral_2_eq_2 power_Suc plus_1_eq_Suc zero_less_numeral zero_less_power one_add_one)
  ultimately show thesis by (rule that)
qed

text \<open>
  \<open>saturate\<close> to an integral type with the limits \<open>lowest\<close> and \<open>max\<close>, and the two
  specialisations between the 8-bit types.
\<close>

definition saturate :: "int \<Rightarrow> int \<Rightarrow> int \<Rightarrow> int" where
  "saturate lowest max' x =
     (let v = x; v = (if v < lowest then lowest else v); v = (if v > max' then max' else v) in v)"

definition saturate_s8_u8 :: "int \<Rightarrow> int" where
  "saturate_s8_u8 x = (if x \<le> 127 then x else 127)"

definition saturate_u8_s8 :: "int \<Rightarrow> int" where
  "saturate_u8_s8 x = (if x \<ge> 0 then x else 0)"

lemma saturate_clamp: "lo \<le> hi \<Longrightarrow> saturate lo hi x = max lo (min hi x)"
  by (auto simp: saturate_def Let_def)

lemma saturate_specialisations:
  "0 \<le> x \<Longrightarrow> x \<le> 255 \<Longrightarrow> saturate_s8_u8 x = saturate (-128) 127 x"
  "-128 \<le> y \<Longrightarrow> y \<le> 127 \<Longrightarrow> saturate_u8_s8 y = saturate 0 255 y"
  by (auto simp: saturate_s8_u8_def saturate_u8_s8_def saturate_def Let_def)

section \<open>Properties\<close>

text \<open>
  Sorting strides with their dimension numbers applies one permutation of the first \<open>n\<close>
  positions to both arrays, leaves the rest alone, and puts the larger strides first.
\<close>

theorem sort_strides_with_keys:
  assumes "simultaneous_sort stride_cmp vals (Some keys) n = (v, k)"
  shows "\<exists>\<pi>. bij \<pi> \<and> (\<forall>i\<ge>n. \<pi> i = i) \<and> v = vals \<circ> \<pi> \<and> k = Some (keys \<circ> \<pi>) \<and>
    (\<forall>a b. a < b \<and> b < n \<longrightarrow> v b \<le> v a)"
proof -
  have "rearranges n (vals, Some keys) (v, k)"
    using simultaneous_sort_rearranges [of n vals "Some keys" stride_cmp] assms by simp
  then obtain \<pi> where "bij \<pi>" "\<forall>i\<ge>n. \<pi> i = i" "v = vals \<circ> \<pi>" "k = Some (keys \<circ> \<pi>)"
    by (auto simp: rearranges_def)
  moreover have "v b \<le> v a" if "a < b" "b < n" for a b
    using stride_order.simultaneous_sort_sorts [OF that, of vals "Some keys"] assms
    by (simp add: stride_cmp_def)
  ultimately show ?thesis by blast
qed

theorem sort_strides_with_keys_witness:
  "\<exists>\<pi>. bij \<pi> \<and> (\<forall>i\<ge>3. \<pi> i = i) \<and>
    fst (simultaneous_sort stride_cmp (arr [1, 12, 4]) (Some id) 3) = arr [1, 12, 4] \<circ> \<pi>"
proof -
  obtain v k where e: "simultaneous_sort stride_cmp (arr [1, 12, 4]) (Some id) 3 = (v, k)" by force
  from sort_strides_with_keys [OF e] show ?thesis unfolding e fst_conv by blast
qed

text \<open>
  \<open>nd_iterator_jump\<close> advances the iterator as far as the innermost extent and the given
  bound allow, and says whether it has wrapped around the whole box.
\<close>

theorem nd_iterator_jump_advances:
  assumes "in_box Xs xs" "Xs \<noteq> []" "cur \<le> end'"
  shows "nd_iterator_jump cur end' xs Xs =
    (let k = min (last Xs - last xs) (end' - cur)
     in (radix_val Xs xs + k = prod_list Xs, cur + k, radix_digits Xs (radix_val Xs xs + k)))"
  by (simp only: nd_iterator_jump_eq [OF assms] Let_def)

theorem nd_iterator_jump_advances_witness:
  "nd_iterator_jump 7 20 [1, 2] [3, 5] = (False, 10, [2, 0])"
  using nd_iterator_jump_advances [of "[3, 5]" "[1, 2]" 7 20] by (simp add: Let_def)

end
