(* ===== verification/Types.thy ===== *)
theory Types
  imports Utils
begin

text \<open>
  The C API's data model (\<open>src/include/dnnl_types.h\<close>): the enumerations, the memory
  descriptor with its three format descriptions, and the functions of
  \<open>src/src/common/type_helpers.hpp\<close> on them. Enumerators keep their names, with the
  enumeration's initials in front where the bare name would clash. The union \<open>format_desc\<close> is
  three fields, of which \<open>format_kind\<close> selects one. A \<open>float\<close> is its IEEE bit pattern.
\<close>

section \<open>Enumerations\<close>

datatype status = success | out_of_memory | invalid_arguments | unimplemented | iterator_ends
  | runtime_error | not_required

datatype data_type = dt_undef | f16 | bf16 | f32 | s32 | s8 | u8

datatype format_kind = fk_undef | fk_any | fk_blocked | fk_wino | fk_rnn_packed

text \<open>
  \<open>dnnl_format_tag_t\<close> has 129 layouts and many aliases of them. A layout is its enumerator's
  name without the \<open>dnnl_\<close> prefix.
\<close>

datatype format_tag = ft_undef | ft_any | ft_last | Tag string

datatype prop_kind = prop_kind_undef | forward_training | forward_inference
  | backward | backward_data | backward_weights | backward_bias

datatype alg_kind = alg_kind_undef | convolution_direct | convolution_winograd | convolution_auto
  | deconvolution_direct | deconvolution_winograd
  | eltwise_relu | eltwise_tanh | eltwise_elu | eltwise_square | eltwise_abs | eltwise_sqrt
  | eltwise_linear | eltwise_bounded_relu | eltwise_soft_relu | eltwise_logistic | eltwise_exp
  | eltwise_gelu | eltwise_swish
  | pooling_max | pooling_avg_include_padding | pooling_avg_exclude_padding
  | lrn_across_channels | lrn_within_channel
  | vanilla_rnn | vanilla_lstm | vanilla_gru | lbr_gru

datatype primitive_kind = pk_undef | pk_reorder | pk_shuffle | pk_concat | pk_sum | pk_convolution
  | pk_deconvolution | pk_eltwise | pk_softmax | pk_pooling | pk_lrn | pk_batch_normalization
  | pk_layer_normalization | pk_inner_product | pk_rnn | pk_gemm

text \<open>The enumerators' values, where the code computes with them.\<close>

fun data_type_val :: "data_type \<Rightarrow> nat" where
  "data_type_val dt_undef = 0"
| "data_type_val f16 = 1"
| "data_type_val bf16 = 2"
| "data_type_val f32 = 3"
| "data_type_val s32 = 4"
| "data_type_val s8 = 5"
| "data_type_val u8 = 6"

fun prop_kind_val :: "prop_kind \<Rightarrow> u32" where
  "prop_kind_val prop_kind_undef = 0"
| "prop_kind_val forward_training = 64"
| "prop_kind_val forward_inference = 96"
| "prop_kind_val backward = 128"
| "prop_kind_val backward_data = 160"
| "prop_kind_val backward_weights = 192"
| "prop_kind_val backward_bias = 193"

instantiation data_type :: linorder
begin

definition less_eq_data_type :: "data_type \<Rightarrow> data_type \<Rightarrow> bool" where
  "less_eq_data_type a b \<longleftrightarrow> data_type_val a \<le> data_type_val b"

definition less_data_type :: "data_type \<Rightarrow> data_type \<Rightarrow> bool" where
  "less_data_type a b \<longleftrightarrow> data_type_val a < data_type_val b"

instance
proof
  fix x y z :: data_type
  show "x < y \<longleftrightarrow> x \<le> y \<and> \<not> y \<le> x" by (auto simp: less_eq_data_type_def less_data_type_def)
  show "x \<le> x" by (simp add: less_eq_data_type_def)
  show "x \<le> y \<Longrightarrow> y \<le> z \<Longrightarrow> x \<le> z" by (simp add: less_eq_data_type_def)
  show "x \<le> y \<Longrightarrow> y \<le> x \<Longrightarrow> x = y"
    by (cases x; cases y) (simp_all add: less_eq_data_type_def)
  show "x \<le> y \<or> y \<le> x" by (auto simp: less_eq_data_type_def)
qed

end

section \<open>Single precision values\<close>

type_synonym float_bits = "32 word"

definition f32_is_nan :: "float_bits \<Rightarrow> bool" where
  "f32_is_nan x \<longleftrightarrow> x AND 0x7f800000 = 0x7f800000 \<and> x AND 0x007fffff \<noteq> 0"

text \<open>The C comparison \<open>==\<close> on \<open>float\<close>: false on NaN, and the two zeros are equal.\<close>

definition f32_eq :: "float_bits \<Rightarrow> float_bits \<Rightarrow> bool" where
  "f32_eq x y \<longleftrightarrow> \<not> f32_is_nan x \<and> \<not> f32_is_nan y \<and>
     (x = y \<or> (x AND 0x7fffffff = 0 \<and> y AND 0x7fffffff = 0))"

lemma f32_eq_sym: "f32_eq x y \<Longrightarrow> f32_eq y x"
  by (auto simp: f32_eq_def)

lemma f32_eq_trans: "f32_eq x y \<Longrightarrow> f32_eq y z \<Longrightarrow> f32_eq x z"
  by (auto simp: f32_eq_def)

lemma f32_eq_refl: "f32_eq x x \<longleftrightarrow> \<not> f32_is_nan x"
  by (simp add: f32_eq_def)

section \<open>Memory descriptors\<close>

abbreviation DNNL_MAX_NDIMS :: nat where
  "DNNL_MAX_NDIMS \<equiv> 12"

record blocking_desc =
  blk_strides :: "dim_t carray"
  inner_nblks :: nat
  inner_blks :: "dim_t carray"
  inner_idxs :: "nat carray"

datatype wino_memory_format = wino_undef | wino_wei_aaOIoi | wino_wei_aaOio | wino_wei_aaOBiOo
  | wino_wei_OBaaIBOIio

record wino_desc =
  wino_format :: wino_memory_format
  wino_r :: int
  wino_alpha :: int
  wino_ic :: int
  wino_oc :: int
  wino_ic_block :: int
  wino_oc_block :: int
  wino_ic2_block :: int
  wino_oc2_block :: int
  wino_adj_scale :: float_bits
  wino_size :: u64

datatype rnn_packed_memory_format = packed_format_undef | ldigo_p | ldgoi_p

record rnn_packed_desc =
  rp_format :: rnn_packed_memory_format
  rp_n_parts :: nat
  rp_n :: int
  rp_ldb :: int
  rp_parts :: "int carray"
  rp_part_pack_size :: "u64 carray"
  rp_pack_part :: "u32 carray"
  rp_offset_compensation :: u64
  rp_size :: u64

text \<open>Flag values of \<open>dnnl_memory_extra_flags_t\<close>.\<close>

definition compensation_conv_s8s8 :: u64 where
  "compensation_conv_s8s8 = 1"

definition flag_scale_adjust :: u64 where
  "flag_scale_adjust = 2"

record memory_extra_desc =
  extra_flags :: u64
  compensation_mask :: u32
  scale_adjust :: float_bits

record memory_desc =
  md_ndims :: int
  md_dims :: "dim_t carray"
  md_data_type :: data_type
  padded_dims :: "dim_t carray"
  padded_offsets :: "dim_t carray"
  offset0 :: dim_t
  md_format_kind :: format_kind
  blocking :: blocking_desc
  wino :: wino_desc
  rnn_packed :: rnn_packed_desc
  extra :: memory_extra_desc

definition zero_blocking_desc :: blocking_desc where
  "zero_blocking_desc = \<lparr>blk_strides = (\<lambda>_. 0), inner_nblks = 0, inner_blks = (\<lambda>_. 0),
     inner_idxs = (\<lambda>_. 0)\<rparr>"

definition zero_wino_desc :: wino_desc where
  "zero_wino_desc = \<lparr>wino_format = wino_undef, wino_r = 0, wino_alpha = 0, wino_ic = 0, wino_oc = 0,
     wino_ic_block = 0, wino_oc_block = 0, wino_ic2_block = 0, wino_oc2_block = 0,
     wino_adj_scale = 0, wino_size = 0\<rparr>"

definition zero_rnn_packed_desc :: rnn_packed_desc where
  "zero_rnn_packed_desc = \<lparr>rp_format = packed_format_undef, rp_n_parts = 0, rp_n = 0, rp_ldb = 0,
     rp_parts = (\<lambda>_. 0), rp_part_pack_size = (\<lambda>_. 0), rp_pack_part = (\<lambda>_. 0),
     rp_offset_compensation = 0, rp_size = 0\<rparr>"

text \<open>\<open>memory_desc_t()\<close> zeroes every field.\<close>

definition zero_md :: memory_desc where
  "zero_md = \<lparr>md_ndims = 0, md_dims = (\<lambda>_. 0), md_data_type = dt_undef, padded_dims = (\<lambda>_. 0),
     padded_offsets = (\<lambda>_. 0), offset0 = 0, md_format_kind = fk_undef,
     blocking = zero_blocking_desc, wino = zero_wino_desc, rnn_packed = zero_rnn_packed_desc,
     extra = \<lparr>extra_flags = 0, compensation_mask = 0, scale_adjust = 0\<rparr>\<rparr>"

section \<open>Helpers on types and descriptors\<close>

fun data_type_size :: "data_type \<Rightarrow> nat" where
  "data_type_size f16 = 2"
| "data_type_size bf16 = 2"
| "data_type_size f32 = 4"
| "data_type_size s32 = 4"
| "data_type_size s8 = 1"
| "data_type_size u8 = 1"
| "data_type_size dt_undef = 0"

fun format_tag_to_kind :: "format_tag \<Rightarrow> format_kind" where
  "format_tag_to_kind ft_undef = fk_undef"
| "format_tag_to_kind ft_any = fk_any"
| "format_tag_to_kind ft_last = fk_undef"
| "format_tag_to_kind (Tag _) = fk_blocked"

definition memory_extra_desc_is_equal :: "memory_extra_desc \<Rightarrow> memory_extra_desc \<Rightarrow> bool" where
  "memory_extra_desc_is_equal lhs rhs \<longleftrightarrow>
     extra_flags lhs = extra_flags rhs \<and>
     (extra_flags lhs AND compensation_conv_s8s8 \<noteq> 0 \<longrightarrow> compensation_mask lhs = compensation_mask rhs) \<and>
     (extra_flags lhs AND flag_scale_adjust \<noteq> 0 \<longrightarrow> f32_eq (scale_adjust lhs) (scale_adjust rhs))"

definition blocking_desc_is_equal :: "blocking_desc \<Rightarrow> blocking_desc \<Rightarrow> nat \<Rightarrow> bool" where
  "blocking_desc_is_equal lhs rhs nd \<longleftrightarrow>
     inner_nblks lhs = inner_nblks rhs \<and>
     array_cmp (blk_strides lhs) (blk_strides rhs) nd \<and>
     array_cmp (inner_blks lhs) (inner_blks rhs) (inner_nblks lhs) \<and>
     array_cmp (inner_idxs lhs) (inner_idxs rhs) (inner_nblks lhs)"

definition wino_desc_is_equal :: "wino_desc \<Rightarrow> wino_desc \<Rightarrow> bool" where
  "wino_desc_is_equal lhs rhs \<longleftrightarrow>
     wino_format lhs = wino_format rhs \<and> wino_alpha lhs = wino_alpha rhs \<and>
     wino_ic lhs = wino_ic rhs \<and> wino_oc lhs = wino_oc rhs \<and>
     wino_ic_block lhs = wino_ic_block rhs \<and> wino_oc_block lhs = wino_oc_block rhs \<and>
     wino_ic2_block lhs = wino_ic2_block rhs \<and> wino_oc2_block lhs = wino_oc2_block rhs \<and>
     wino_r lhs = wino_r rhs"

definition rnn_packed_desc_is_equal :: "rnn_packed_desc \<Rightarrow> rnn_packed_desc \<Rightarrow> bool" where
  "rnn_packed_desc_is_equal lhs rhs =
     (let ok = rp_format lhs = rp_format rhs \<and> rp_ldb lhs = rp_ldb rhs \<and>
            rp_n_parts lhs = rp_n_parts rhs \<and>
            rp_offset_compensation lhs = rp_offset_compensation rhs \<and>
            rp_size lhs = rp_size rhs \<and> rp_n lhs = rp_n rhs
      in if \<not> ok then False
         else
           let ok = for_upto (rp_n_parts rhs) (\<lambda>i ok. ok \<and> rp_parts lhs i = rp_parts rhs i) ok;
               ok = for_upto (rp_n_parts rhs)
                      (\<lambda>i ok. ok \<and> rp_part_pack_size lhs i = rp_part_pack_size rhs i) ok
           in ok)"

definition memory_desc_base_equal :: "memory_desc \<Rightarrow> memory_desc \<Rightarrow> bool" where
  "memory_desc_base_equal lhs rhs \<longleftrightarrow>
     md_ndims lhs = md_ndims rhs \<and>
     array_cmp (md_dims lhs) (md_dims rhs) (nat (md_ndims lhs)) \<and>
     md_data_type lhs = md_data_type rhs \<and>
     array_cmp (padded_dims lhs) (padded_dims rhs) (nat (md_ndims lhs)) \<and>
     array_cmp (padded_offsets lhs) (padded_offsets rhs) (nat (md_ndims lhs)) \<and>
     offset0 lhs = offset0 rhs \<and> md_format_kind lhs = md_format_kind rhs"

definition format_desc_is_equal :: "memory_desc \<Rightarrow> memory_desc \<Rightarrow> bool" where
  "format_desc_is_equal lhs rhs =
     (if md_format_kind lhs = fk_blocked
        then blocking_desc_is_equal (blocking lhs) (blocking rhs) (nat (md_ndims lhs))
      else if md_format_kind lhs = fk_wino then wino_desc_is_equal (wino lhs) (wino rhs)
      else if md_format_kind lhs = fk_rnn_packed
        then rnn_packed_desc_is_equal (rnn_packed lhs) (rnn_packed rhs)
      else True)"

definition memory_desc_eq :: "memory_desc \<Rightarrow> memory_desc \<Rightarrow> bool" where
  "memory_desc_eq lhs rhs =
     (if md_ndims lhs = 0 \<and> md_ndims rhs = 0 then True
      else if \<not> memory_desc_base_equal lhs rhs then False
      else if \<not> memory_extra_desc_is_equal (extra lhs) (extra rhs) then False
      else format_desc_is_equal lhs rhs)"

definition is_zero_md :: "memory_desc option \<Rightarrow> bool" where
  "is_zero_md md = (case md of None \<Rightarrow> True | Some md \<Rightarrow> memory_desc_eq md zero_md)"

text \<open>
  The two overloads of \<open>default_accum_data_type\<close>. The combination that runs into the
  \<open>assert\<close> returns the destination type, as the release build does.
\<close>

definition default_accum_data_type2 :: "data_type \<Rightarrow> data_type \<Rightarrow> data_type" where
  "default_accum_data_type2 src_dt dst_dt =
     (if src_dt = f16 \<or> dst_dt = f16 then f16
      else if src_dt = bf16 \<or> dst_dt = bf16 then f32
      else if src_dt = f32 \<or> dst_dt = f32 then f32
      else if src_dt = s32 \<or> dst_dt = s32 then s32
      else if src_dt = s8 \<or> dst_dt = s8 \<or> src_dt = u8 \<or> dst_dt = u8 then s32
      else dst_dt)"

definition default_accum_data_type ::
  "data_type \<Rightarrow> data_type \<Rightarrow> data_type \<Rightarrow> prop_kind \<Rightarrow> data_type" where
  "default_accum_data_type src_dt wei_dt dst_dt prop =
     (if src_dt = f16 \<and> wei_dt = f16 \<and> dst_dt = f16 then f16
      else if src_dt = bf16 \<or> wei_dt = bf16 \<or> dst_dt = bf16 then f32
      else if src_dt = f32 \<and> wei_dt = f32 \<and> dst_dt = f32 then f32
      else if prop \<in> {forward_training, forward_inference}
        then (if (src_dt = u8 \<or> src_dt = s8) \<and> wei_dt = s8 \<and> dst_dt \<in> {f32, s32, s8, u8}
              then s32 else dst_dt)
      else if prop = backward_data
        then (if src_dt \<in> {f32, s32, s8, u8} \<and> wei_dt = s8 \<and> dst_dt \<in> {s8, u8}
              then s32 else dst_dt)
      else dst_dt)"

section \<open>Equality of descriptors\<close>

lemma for_upto_conj: "for_upto n (\<lambda>i ok. ok \<and> p i) ok \<longleftrightarrow> ok \<and> (\<forall>i<n. p i)"
  by (induction n) (auto simp: for_range_Suc less_Suc_eq)

lemma rnn_packed_desc_is_equal_iff:
  "rnn_packed_desc_is_equal lhs rhs \<longleftrightarrow>
     rp_format lhs = rp_format rhs \<and> rp_ldb lhs = rp_ldb rhs \<and> rp_n_parts lhs = rp_n_parts rhs \<and>
     rp_offset_compensation lhs = rp_offset_compensation rhs \<and> rp_size lhs = rp_size rhs \<and>
     rp_n lhs = rp_n rhs \<and>
     (\<forall>i<rp_n_parts rhs. rp_parts lhs i = rp_parts rhs i \<and>
        rp_part_pack_size lhs i = rp_part_pack_size rhs i)"
  by (auto simp: rnn_packed_desc_is_equal_def for_upto_conj Let_def)

lemmas desc_equal_defs = memory_extra_desc_is_equal_def blocking_desc_is_equal_def
  wino_desc_is_equal_def rnn_packed_desc_is_equal_iff array_cmp_iff

lemma base_equal_sym: "memory_desc_base_equal a b \<Longrightarrow> memory_desc_base_equal b a"
  by (simp add: memory_desc_base_equal_def array_cmp_iff)

lemma base_equal_trans:
  "memory_desc_base_equal a b \<Longrightarrow> memory_desc_base_equal b c \<Longrightarrow> memory_desc_base_equal a c"
  by (simp add: memory_desc_base_equal_def array_cmp_iff)

lemma extra_eq_sym: "memory_extra_desc_is_equal a b \<Longrightarrow> memory_extra_desc_is_equal b a"
  by (auto simp: memory_extra_desc_is_equal_def intro: f32_eq_sym)

lemma extra_eq_trans:
  "memory_extra_desc_is_equal a b \<Longrightarrow> memory_extra_desc_is_equal b c \<Longrightarrow> memory_extra_desc_is_equal a c"
  by (auto simp: memory_extra_desc_is_equal_def intro: f32_eq_trans)

lemma format_desc_eq_sym:
  "memory_desc_base_equal a b \<Longrightarrow> format_desc_is_equal a b \<Longrightarrow> format_desc_is_equal b a"
  by (simp add: format_desc_is_equal_def memory_desc_base_equal_def blocking_desc_is_equal_def
      wino_desc_is_equal_def rnn_packed_desc_is_equal_iff array_cmp_iff split: if_splits)

lemma format_desc_eq_trans:
  "memory_desc_base_equal a b \<Longrightarrow> memory_desc_base_equal b c \<Longrightarrow>
    format_desc_is_equal a b \<Longrightarrow> format_desc_is_equal b c \<Longrightarrow> format_desc_is_equal a c"
  by (simp add: format_desc_is_equal_def memory_desc_base_equal_def blocking_desc_is_equal_def
      wino_desc_is_equal_def rnn_packed_desc_is_equal_iff array_cmp_iff split: if_splits)

lemma memory_desc_eq_iff:
  "memory_desc_eq a b \<longleftrightarrow> md_ndims a = 0 \<and> md_ndims b = 0 \<or>
    memory_desc_base_equal a b \<and> memory_extra_desc_is_equal (extra a) (extra b) \<and>
    format_desc_is_equal a b"
  by (auto simp: memory_desc_eq_def)

lemma memory_desc_eq_sym: "memory_desc_eq a b \<Longrightarrow> memory_desc_eq b a"
  unfolding memory_desc_eq_iff
  using base_equal_sym extra_eq_sym format_desc_eq_sym by blast

lemma memory_desc_eq_ndims: "memory_desc_eq a b \<Longrightarrow> md_ndims a = md_ndims b"
  by (auto simp: memory_desc_eq_iff memory_desc_base_equal_def)

lemma memory_desc_eq_trans:
  assumes "memory_desc_eq a b" "memory_desc_eq b c"
  shows "memory_desc_eq a c"
proof (cases "md_ndims a = 0")
  case True
  then show ?thesis
    using memory_desc_eq_ndims [OF assms(1)] memory_desc_eq_ndims [OF assms(2)]
    by (simp add: memory_desc_eq_def)
next
  case False
  then have "md_ndims b \<noteq> 0" using memory_desc_eq_ndims [OF assms(1)] by simp
  with False show ?thesis
    using assms base_equal_trans extra_eq_trans format_desc_eq_trans
    unfolding memory_desc_eq_iff by blast
qed

lemma memory_desc_eq_refl:
  "memory_desc_eq a a \<longleftrightarrow>
    md_ndims a = 0 \<or> \<not> (extra_flags (extra a) AND flag_scale_adjust \<noteq> 0 \<and> f32_is_nan (scale_adjust (extra a)))"
  by (auto simp: memory_desc_eq_iff memory_desc_base_equal_def format_desc_is_equal_def
      desc_equal_defs f32_eq_refl)

text \<open>
  C34: \<open>operator==\<close> on memory descriptors is symmetric and transitive, and reflexive on every
  descriptor but those that carry a NaN scale adjustment.
\<close>

theorem memory_desc_eq_equivalence:
  "(memory_desc_eq a b \<longleftrightarrow> memory_desc_eq b a) \<and>
   (memory_desc_eq a b \<longrightarrow> memory_desc_eq b c \<longrightarrow> memory_desc_eq a c) \<and>
   (memory_desc_eq a a \<longleftrightarrow> md_ndims a = 0 \<or>
      extra_flags (extra a) AND flag_scale_adjust = 0 \<or> \<not> f32_is_nan (scale_adjust (extra a)))"
  using memory_desc_eq_sym memory_desc_eq_trans memory_desc_eq_refl by blast

theorem memory_desc_eq_equivalence_witness:
  "memory_desc_eq zero_md (zero_md\<lparr>offset0 := 1\<rparr>) \<and> memory_desc_eq (zero_md\<lparr>offset0 := 1\<rparr>) (zero_md\<lparr>offset0 := 2\<rparr>)
    \<and> memory_desc_eq zero_md (zero_md\<lparr>offset0 := 2\<rparr>)"
proof -
  have "memory_desc_eq zero_md (zero_md\<lparr>offset0 := 1\<rparr>)"
    "memory_desc_eq (zero_md\<lparr>offset0 := 1\<rparr>) (zero_md\<lparr>offset0 := 2\<rparr>)"
    by (simp_all add: memory_desc_eq_def zero_md_def)
  then show ?thesis
    using memory_desc_eq_equivalence [of zero_md "zero_md\<lparr>offset0 := 1\<rparr>" "zero_md\<lparr>offset0 := 2\<rparr>"]
    by blast
qed

end
