(* ===== verification/Memory_Desc.thy ===== *)
theory Memory_Desc
  imports Types
begin

text \<open>
  \<open>src/src/common/memory_desc_wrapper.{hpp,cpp}\<close>: what a memory descriptor means. A blocked
  descriptor sends a logical position to a physical offset (\<open>off_v\<close>, \<open>off_l\<close>,
  \<open>blk_off\<close>); \<open>compute_blocking\<close> fills the blocking structure of a format tag; the
  rest are the queries the primitives ask. The member functions take the descriptor itself.
  Sizes are \<open>size_t\<close>: they are reduced modulo \<open>2\<^sup>6\<^sup>4\<close> where the code converts.
\<close>

section \<open>Queries\<close>

definition ndims :: "memory_desc \<Rightarrow> nat" where
  "ndims md = nat (md_ndims md)"

definition is_blocking_desc :: "memory_desc \<Rightarrow> bool" where
  "is_blocking_desc md \<longleftrightarrow> md_format_kind md = fk_blocked"

definition is_wino_desc :: "memory_desc \<Rightarrow> bool" where
  "is_wino_desc md \<longleftrightarrow> md_format_kind md = fk_wino"

definition is_rnn_packed_desc :: "memory_desc \<Rightarrow> bool" where
  "is_rnn_packed_desc md \<longleftrightarrow> md_format_kind md = fk_rnn_packed"

definition is_zero :: "memory_desc \<Rightarrow> bool" where
  "is_zero md \<longleftrightarrow> md_ndims md = 0"

definition nelems :: "memory_desc \<Rightarrow> bool \<Rightarrow> dim_t" where
  "nelems md with_padding =
     (if is_zero md then 0
      else array_product (if with_padding then padded_dims md else md_dims md) (ndims md))"

definition has_zero_dim :: "memory_desc \<Rightarrow> bool" where
  "has_zero_dim md \<longleftrightarrow> nelems md False = 0"

definition is_additional_buffer :: "memory_desc \<Rightarrow> bool" where
  "is_additional_buffer md \<longleftrightarrow> extra_flags (extra md) AND compensation_conv_s8s8 \<noteq> 0"

definition additional_buffer_data_size :: "memory_desc \<Rightarrow> nat" where
  "additional_buffer_data_size md =
     (if extra_flags (extra md) AND compensation_conv_s8s8 \<noteq> 0 then 4 else 0)"

definition size_t :: "int \<Rightarrow> int" where
  "size_t x = x mod 2 ^ 64"

definition additional_buffer_size :: "memory_desc \<Rightarrow> int" where
  "additional_buffer_size md =
     (if extra_flags (extra md) AND compensation_conv_s8s8 \<noteq> 0
      then
        let cmask = compensation_mask (extra md);
            prod = for_upto (ndims md)
              (\<lambda>d prod. if bit cmask d then prod * padded_dims md d else prod) 1
        in size_t (prod * int (additional_buffer_data_size md))
      else 0)"

definition compute_blocks :: "memory_desc \<Rightarrow> dim_t carray \<Rightarrow> dim_t carray" where
  "compute_blocks md blocks =
     (if \<not> is_blocking_desc md then array_set blocks 0 (ndims md)
      else
        let blocks = array_set blocks 1 (ndims md);
            bd = blocking md
        in for_upto (inner_nblks bd)
             (\<lambda>iblk blocks. blocks(inner_idxs bd iblk := blocks (inner_idxs bd iblk) * inner_blks bd iblk))
             blocks)"

definition md_size :: "memory_desc \<Rightarrow> int" where
  "md_size md =
     (if is_zero md \<or> has_zero_dim md \<or> md_format_kind md = fk_any then 0
      else if md_format_kind md = fk_wino then uint (wino_size (wino md))
      else if md_format_kind md = fk_rnn_packed then uint (rp_size (rnn_packed md))
      else if offset0 md \<noteq> 0 then 0
      else
        let blocks = compute_blocks md (\<lambda>_. 0);
            bd = blocking md;
            max_size = for_upto (ndims md)
              (\<lambda>d max_size. max max_size (size_t (padded_dims md d sdiv blocks d * blk_strides bd d))) 0;
            max_size = (if max_size = 1 \<and> inner_nblks bd \<noteq> 0
                        then size_t (array_product (inner_blks bd) (inner_nblks bd)) else max_size)
        in size_t (max_size * int (data_type_size (md_data_type md)) + additional_buffer_size md))"

definition is_dense :: "memory_desc \<Rightarrow> bool \<Rightarrow> bool" where
  "is_dense md with_padding =
     (if md_format_kind md \<in> {fk_undef, fk_any} then False
      else size_t (nelems md with_padding * int (data_type_size (md_data_type md))) = md_size md)"

definition is_defined :: "memory_desc \<Rightarrow> bool" where
  "is_defined md \<longleftrightarrow> md_format_kind md \<noteq> fk_any"

definition only_padded_dim :: "memory_desc \<Rightarrow> nat \<Rightarrow> bool" where
  "only_padded_dim md dim =
     all_upto (ndims md) (\<lambda>d. \<not> (d \<noteq> dim \<and> md_dims md d \<noteq> padded_dims md d))"

definition is_plain :: "memory_desc \<Rightarrow> bool" where
  "is_plain md = (if \<not> is_blocking_desc md then False else inner_nblks (blocking md) = 0)"

text \<open>Pointer arithmetic on an array: \<open>dims() + ds\<close>.\<close>

definition from_index :: "nat \<Rightarrow> 'a carray \<Rightarrow> 'a carray" where
  "from_index ds a = (\<lambda>i. a (ds + i))"

definition similar_to :: "memory_desc \<Rightarrow> memory_desc \<Rightarrow> bool \<Rightarrow> bool \<Rightarrow> nat \<Rightarrow> bool" where
  "similar_to md rhs with_padding with_data_type dim_start =
     (if md_format_kind md \<in> {fk_undef, fk_any} then False
      else if is_wino_desc md \<or> is_rnn_packed_desc md then False
      else
        let ds = dim_start; blk = blocking md; r_blk = blocking rhs; n = ndims md - ds
        in md_ndims md = md_ndims rhs \<and> int dim_start \<le> md_ndims md \<and>
           md_format_kind md = md_format_kind rhs \<and>
           (with_data_type \<longrightarrow> md_data_type md = md_data_type rhs) \<and>
           array_cmp (from_index ds (md_dims md)) (from_index ds (md_dims rhs)) n \<and>
           array_cmp (from_index ds (blk_strides blk)) (from_index ds (blk_strides r_blk)) n \<and>
           inner_nblks blk = inner_nblks r_blk \<and>
           array_cmp (inner_blks blk) (inner_blks r_blk) (inner_nblks blk) \<and>
           array_cmp (inner_idxs blk) (inner_idxs r_blk) (inner_nblks blk) \<and>
           (with_padding \<longrightarrow>
              array_cmp (from_index ds (padded_dims md)) (from_index ds (padded_dims rhs)) n \<and>
              array_cmp (from_index ds (padded_offsets md)) (from_index ds (padded_offsets rhs)) n))"

definition consistent_with :: "memory_desc \<Rightarrow> memory_desc \<Rightarrow> bool" where
  "consistent_with md rhs =
     (if md_ndims md = md_ndims rhs
      then all_upto (ndims md) (\<lambda>d. \<not> md_dims md d \<noteq> md_dims rhs d)
      else False)"

section \<open>Offsets\<close>

definition int32_cast :: "int \<Rightarrow> int" where
  "int32_cast x = signed_take_bit 31 x"

abbreviation INT32_MAX :: int where
  "INT32_MAX \<equiv> 2147483647"

text \<open>
  One turn of the loop over the inner blocks of \<open>off_v\<close>; the state is the position, the offset
  accumulated so far and the stride of the current block.
\<close>

definition off_v_block :: "blocking_desc \<Rightarrow> nat \<Rightarrow> dim_t carray \<times> dim_t \<times> dim_t \<Rightarrow>
    dim_t carray \<times> dim_t \<times> dim_t" where
  "off_v_block blk iblk = (\<lambda>(pos, phys_offset, blk_stride).
     let d = inner_idxs blk iblk;
         (p, pos) =
           (if pos d \<le> INT32_MAX
            then (int32_cast (pos d) smod int32_cast (inner_blks blk iblk),
                  pos(d := int32_cast (pos d) sdiv int32_cast (inner_blks blk iblk)))
            else (pos d smod inner_blks blk iblk, pos(d := pos d sdiv inner_blks blk iblk)))
     in (pos, phys_offset + p * blk_stride, blk_stride * inner_blks blk iblk))"

definition off_v :: "memory_desc \<Rightarrow> dim_t carray \<Rightarrow> bool \<Rightarrow> dim_t" where
  "off_v md pos is_pos_padded =
     (let blk = blocking md;
          pos_copy = for_upto (ndims md)
            (\<lambda>d c. c(d := pos d + (if is_pos_padded then 0 else padded_offsets md d))) (\<lambda>_. 0);
          phys_offset = offset0 md;
          (pos_copy, phys_offset, _) =
            (if inner_nblks blk > 0
             then for_down (inner_nblks blk) (off_v_block blk) (pos_copy, phys_offset, 1)
             else (pos_copy, phys_offset, 1))
      in for_upto (ndims md) (\<lambda>d off. off + pos_copy d * blk_strides blk d) phys_offset)"

definition off_l_step :: "memory_desc \<Rightarrow> bool \<Rightarrow> nat \<Rightarrow> dim_t \<times> dim_t carray \<Rightarrow> dim_t \<times> dim_t carray" where
  "off_l_step md is_pos_padded rd = (\<lambda>(l_offset, pos).
     let d = ndims md - 1 - rd;
         cur_dim = (if is_pos_padded then padded_dims md d else md_dims md d)
     in if l_offset \<le> INT32_MAX \<and> cur_dim \<le> INT32_MAX
        then (int32_cast l_offset sdiv int32_cast cur_dim,
              pos(d := int32_cast l_offset smod int32_cast cur_dim))
        else (l_offset sdiv cur_dim, pos(d := l_offset smod cur_dim)))"

definition off_l_pos :: "memory_desc \<Rightarrow> dim_t \<Rightarrow> bool \<Rightarrow> dim_t carray" where
  "off_l_pos md l_offset is_pos_padded =
     snd (for_upto (ndims md) (off_l_step md is_pos_padded) (l_offset, \<lambda>_. 0))"

definition off_l :: "memory_desc \<Rightarrow> dim_t \<Rightarrow> bool \<Rightarrow> dim_t" where
  "off_l md l_offset is_pos_padded = off_v md (off_l_pos md l_offset is_pos_padded) is_pos_padded"

definition off :: "memory_desc \<Rightarrow> int list \<Rightarrow> dim_t" where
  "off md args = off_v md (arr args) False"

definition off_padding :: "memory_desc \<Rightarrow> int list \<Rightarrow> dim_t" where
  "off_padding md args = off_v md (arr args) True"

text \<open>\<open>_blk_off\<close> with the template's original argument count gone into the index \<open>dc\<close>.\<close>

fun blk_off_from :: "memory_desc \<Rightarrow> nat \<Rightarrow> int list \<Rightarrow> dim_t" where
  "blk_off_from md dc [] = offset0 md"
| "blk_off_from md dc (xc # args) = xc * blk_strides (blocking md) dc + blk_off_from md (dc + 1) args"

definition blk_off :: "memory_desc \<Rightarrow> int list \<Rightarrow> dim_t" where
  "blk_off md args = blk_off_from md 0 args"

definition blk_off_skip :: "bool \<Rightarrow> memory_desc \<Rightarrow> int list \<Rightarrow> dim_t" where
  "blk_off_skip skip_first md args = (if skip_first then blk_off md (tl args) else blk_off md args)"

section \<open>Strides for the 0.x API\<close>

definition compat_seen :: "blocking_desc \<Rightarrow> nat \<Rightarrow> nat \<times> nat carray \<times> bool carray \<Rightarrow>
    nat \<times> nat carray \<times> bool carray" where
  "compat_seen blk i = (\<lambda>(perm_idx, inner_perm, seen).
     let blk_idx = inner_idxs blk i
     in if seen blk_idx then (perm_idx, inner_perm, seen)
        else (perm_idx + 1, inner_perm(perm_idx := blk_idx), seen(blk_idx := True)))"

definition compat_unseen :: "nat \<Rightarrow> nat \<times> nat carray \<times> bool carray \<Rightarrow> nat \<times> nat carray \<times> bool carray" where
  "compat_unseen i = (\<lambda>(perm_idx, inner_perm, seen).
     if \<not> seen i then (perm_idx + 1, inner_perm(perm_idx := i), seen) else (perm_idx, inner_perm, seen))"

definition compat_inner_perm :: "memory_desc \<Rightarrow> nat carray" where
  "compat_inner_perm md =
     (let st = for_upto (inner_nblks (blocking md)) (compat_seen (blocking md)) (0, \<lambda>_. 0, \<lambda>_. False);
          (_, inner_perm, _) = for_upto (ndims md) compat_unseen st
      in inner_perm)"

definition compat_inner_strides :: "memory_desc \<Rightarrow> dim_t carray \<Rightarrow> nat carray \<Rightarrow> dim_t carray" where
  "compat_inner_strides md blocks inner_perm =
     for_range 1 (ndims md)
       (\<lambda>d inner_strides.
          let prev_idx = inner_perm (ndims md - d);
              curr_idx = inner_perm (ndims md - 1 - d)
          in inner_strides(curr_idx :=
               if blocks curr_idx = 0 then 1 else inner_strides prev_idx * max 1 (blocks prev_idx)))
       ((\<lambda>_. 0)(inner_perm (ndims md - 1) := 1))"

definition compute_strides_compat ::
  "memory_desc \<Rightarrow> dim_t carray \<times> dim_t carray \<Rightarrow> dim_t carray \<times> dim_t carray" where
  "compute_strides_compat md strides_compat =
     (if md_ndims md = 0 then strides_compat
      else
        let blocks = compute_blocks md (\<lambda>_. 0);
            inner_perm = compat_inner_perm md;
            inner_strides = compat_inner_strides md blocks inner_perm
        in (array_copy (fst strides_compat) (blk_strides (blocking md)) (ndims md),
            array_copy (snd strides_compat) inner_strides (ndims md)))"

section \<open>Format tags\<close>

text \<open>
  \<open>fill_blocked\<close>: the strides follow the permutation from the outermost dimension in. The
  arguments are the initializer lists; a stored block is at most four deep.
\<close>

definition fill_blocks :: "nat list \<Rightarrow> nat list \<Rightarrow> nat \<Rightarrow> dim_t carray" where
  "fill_blocks ixs blks nd =
     fold (\<lambda>(dim, b) blocks. blocks(dim := blocks dim * int b)) (zip ixs blks) (array_set (\<lambda>_. 0) 1 nd)"

definition fill_stride :: "dim_t carray \<Rightarrow> dim_t carray \<Rightarrow> nat \<Rightarrow>
    dim_t \<times> dim_t carray \<Rightarrow> dim_t \<times> dim_t carray" where
  "fill_stride padded blocks d = (\<lambda>(stride, strides).
     if padded d = 0 then (stride, strides(d := 1))
     else
       let stride = stride sdiv (padded d sdiv blocks d)
       in (stride, strides(d := stride)))"

definition fill_blocked ::
  "memory_desc \<Rightarrow> nat list \<Rightarrow> nat list \<Rightarrow> nat list \<Rightarrow> status \<times> memory_desc" where
  "fill_blocked md perm blks ixs =
     (if \<not> (int (length perm) = md_ndims md \<and> length blks = length ixs) then (invalid_arguments, md)
      else
        let blk = blocking md;
            block_size = int (prod_list blks);
            blocks = fill_blocks ixs blks (ndims md);
            padded = for_upto (ndims md) (\<lambda>d pd. pd(d := rnd_up (md_dims md d) (blocks d))) (padded_dims md);
            stride = for_upto (ndims md)
              (\<lambda>d s. s * (if padded d = 0 then 1 else padded d sdiv blocks d)) block_size;
            (_, strides) = fold (fill_stride padded blocks) perm (stride, blk_strides blk)
        in (success,
            md\<lparr>offset0 := 0,
               padded_offsets := array_set (padded_offsets md) 0 (ndims md),
               padded_dims := padded,
               blocking := \<lparr>blk_strides = strides,
                 inner_nblks = length blks,
                 inner_blks = array_copy (inner_blks blk) (int \<circ> (!) blks) (length blks),
                 inner_idxs = array_copy (inner_idxs blk) ((!) ixs) (length ixs)\<rparr>\<rparr>))"

text \<open>The cases of \<open>compute_blocking\<close>: tag, permutation, inner blocks and their dimensions.\<close>

definition blocking_table :: "(string \<times> nat list \<times> nat list \<times> nat list) list" where
  "blocking_table =
  [(''a'', [0], [], []),
   (''ab'', [0,1], [], []),
   (''abc'', [0,1,2], [], []),
   (''abcd'', [0,1,2,3], [], []),
   (''abcde'', [0,1,2,3,4], [], []),
   (''abcdef'', [0,1,2,3,4,5], [], []),
   (''abdec'', [0,1,3,4,2], [], []),
   (''acb'', [0,2,1], [], []),
   (''acbde'', [0,2,1,3,4], [], []),
   (''acdb'', [0,2,3,1], [], []),
   (''acdeb'', [0,2,3,4,1], [], []),
   (''ba'', [1,0], [], []),
   (''bac'', [1,0,2], [], []),
   (''bacd'', [1,0,2,3], [], []),
   (''bca'', [1,2,0], [], []),
   (''bcda'', [1,2,3,0], [], []),
   (''bcdea'', [1,2,3,4,0], [], []),
   (''cba'', [2,1,0], [], []),
   (''cdba'', [2,3,1,0], [], []),
   (''cdeba'', [2,3,4,1,0], [], []),
   (''decab'', [3,4,2,0,1], [], []),
   (''Abc4a'', [0,1,2], [4], [0]),
   (''aBc4b'', [0,1,2], [4], [1]),
   (''ABc4b16a4b'', [0,1,2], [4,16,4], [1,0,1]),
   (''ABc4b4a'', [0,1,2], [4,4], [1,0]),
   (''Abcd4a'', [0,1,2,3], [4], [0]),
   (''aBcd4b'', [0,1,2,3], [4], [1]),
   (''ABcd4b4a'', [0,1,2,3], [4,4], [1,0]),
   (''aBCd4c16b4c'', [0,1,2,3], [4,16,4], [2,1,2]),
   (''aBCd4c4b'', [0,1,2,3], [4,4], [2,1]),
   (''Abcde4a'', [0,1,2,3,4], [4], [0]),
   (''aBcde4b'', [0,1,2,3,4], [4], [1]),
   (''ABcde4b4a'', [0,1,2,3,4], [4,4], [1,0]),
   (''aBCde4c4b'', [0,1,2,3,4], [4,4], [2,1]),
   (''aBcdef4b'', [0,1,2,3,4,5], [4], [1]),
   (''aBCdef4c4b'', [0,1,2,3,4,5], [4,4], [2,1]),
   (''aBdc4b'', [0,1,3,2], [4], [1]),
   (''aBdec4b'', [0,1,3,4,2], [4], [1]),
   (''aBdefc4b'', [0,1,3,4,5,2], [4], [1]),
   (''Acb4a'', [0,2,1], [4], [0]),
   (''Acdb4a'', [0,2,3,1], [4], [0]),
   (''Acdeb4a'', [0,2,3,4,1], [4], [0]),
   (''Abc16a'', [0,1,2], [16], [0]),
   (''ABc16a16b'', [0,1,2], [16,16], [0,1]),
   (''aBc16b'', [0,1,2], [16], [1]),
   (''ABc16b16a'', [0,1,2], [16,16], [1,0]),
   (''ABc8a16b2a'', [0,1,2], [8,16,2], [0,1,0]),
   (''BAc8a16b2a'', [1,0,2], [8,16,2], [0,1,0]),
   (''ABc8a8b'', [0,1,2], [8,8], [0,1]),
   (''aBc8b'', [0,1,2], [8], [1]),
   (''ABc8b16a2b'', [0,1,2], [8,16,2], [1,0,1]),
   (''ABc8b8a'', [0,1,2], [8,8], [1,0]),
   (''Abcd16a'', [0,1,2,3], [16], [0]),
   (''ABcd16a16b'', [0,1,2,3], [16,16], [0,1]),
   (''aBcd16b'', [0,1,2,3], [16], [1]),
   (''ABcd16b16a'', [0,1,2,3], [16,16], [1,0]),
   (''aBCd16b16c'', [0,1,2,3], [16,16], [1,2]),
   (''aBCd16c16b'', [0,1,2,3], [16,16], [2,1]),
   (''ABcd4b16a4b'', [0,1,2,3], [4,16,4], [1,0,1]),
   (''ABcd8a16b2a'', [0,1,2,3], [8,16,2], [0,1,0]),
   (''BAcd8a16b2a'', [1,0,2,3], [8,16,2], [0,1,0]),
   (''ABcd8a8b'', [0,1,2,3], [8,8], [0,1]),
   (''aBcd8b'', [0,1,2,3], [8], [1]),
   (''ABcd8b16a2b'', [0,1,2,3], [8,16,2], [1,0,1]),
   (''aBCd8b16c2b'', [0,1,2,3], [8,16,2], [1,2,1]),
   (''aCBd8b16c2b'', [0,2,1,3], [8,16,2], [1,2,1]),
   (''ABcd8b8a'', [0,1,2,3], [8,8], [1,0]),
   (''aBCd8b8c'', [0,1,2,3], [8,8], [1,2]),
   (''aBCd8c16b2c'', [0,1,2,3], [8,16,2], [2,1,2]),
   (''aBCd8c8b'', [0,1,2,3], [8,8], [2,1]),
   (''Abcde16a'', [0,1,2,3,4], [16], [0]),
   (''ABcde16a16b'', [0,1,2,3,4], [16,16], [0,1]),
   (''aBcde16b'', [0,1,2,3,4], [16], [1]),
   (''ABcde16b16a'', [0,1,2,3,4], [16,16], [1,0]),
   (''aBCde16b16c'', [0,1,2,3,4], [16,16], [1,2]),
   (''aBCde16c16b'', [0,1,2,3,4], [16,16], [2,1]),
   (''aBCde2c8b4c'', [0,1,2,3,4], [2,8,4], [2,1,2]),
   (''aBCde4b4c'', [0,1,2,3,4], [4,4], [1,2]),
   (''aBCde4c16b4c'', [0,1,2,3,4], [4,16,4], [2,1,2]),
   (''Abcde8a'', [0,1,2,3,4], [8], [0]),
   (''ABcde8a8b'', [0,1,2,3,4], [8,8], [0,1]),
   (''aBcde8b'', [0,1,2,3,4], [8], [1]),
   (''ABcde8a16b2a'', [0,1,2,3,4], [8,16,2], [0,1,0]),
   (''ABcde8b16a2b'', [0,1,2,3,4], [8,16,2], [1,0,1]),
   (''BAcde8a16b2a'', [1,0,2,3,4], [8,16,2], [0,1,0]),
   (''aBCde8b16c2b'', [0,1,2,3,4], [8,16,2], [1,2,1]),
   (''aCBde8b16c2b'', [0,2,1,3,4], [8,16,2], [1,2,1]),
   (''ABcde8b8a'', [0,1,2,3,4], [8,8], [1,0]),
   (''aBCde8b8c'', [0,1,2,3,4], [8,8], [1,2]),
   (''aBCde8c16b2c'', [0,1,2,3,4], [8,16,2], [2,1,2]),
   (''aBCde8c8b'', [0,1,2,3,4], [8,8], [2,1]),
   (''aBcdef16b'', [0,1,2,3,4,5], [16], [1]),
   (''aBCdef16b16c'', [0,1,2,3,4,5], [16,16], [1,2]),
   (''aBCdef16c16b'', [0,1,2,3,4,5], [16,16], [2,1]),
   (''aBCdef8b8c'', [0,1,2,3,4,5], [8,8], [1,2]),
   (''aBCdef8b16c2b'', [0,1,2,3,4,5], [8,16,2], [1,2,1]),
   (''aBCdef8c16b2c'', [0,1,2,3,4,5], [8,16,2], [2,1,2]),
   (''aCBdef8b16c2b'', [0,2,1,3,4,5], [8,16,2], [1,2,1]),
   (''aBCdef8c8b'', [0,1,2,3,4,5], [8,8], [2,1]),
   (''aBdc16b'', [0,1,3,2], [16], [1]),
   (''aBdc8b'', [0,1,3,2], [8], [1]),
   (''aBdec16b'', [0,1,3,4,2], [16], [1]),
   (''aBdec8b'', [0,1,3,4,2], [8], [1]),
   (''aBdefc16b'', [0,1,3,4,5,2], [16], [1]),
   (''aBdefc8b'', [0,1,3,4,5,2], [8], [1]),
   (''Acb16a'', [0,2,1], [16], [0]),
   (''Acb8a'', [0,2,1], [8], [0]),
   (''aCBd16b16c'', [0,2,1,3], [16,16], [1,2]),
   (''aCBde16b16c'', [0,2,1,3,4], [16,16], [1,2]),
   (''Acdb16a'', [0,2,3,1], [16], [0]),
   (''Acdb8a'', [0,2,3,1], [8], [0]),
   (''Acdeb16a'', [0,2,3,4,1], [16], [0]),
   (''Acdeb8a'', [0,2,3,4,1], [8], [0]),
   (''BAc16a16b'', [1,0,2], [16,16], [0,1]),
   (''BAcd16a16b'', [1,0,2,3], [16,16], [0,1]),
   (''ABcd32a32b'', [0,1,2,3], [32,32], [0,1]),
   (''BAcde16b16a'', [1,0,2,3,4], [16,16], [1,0]),
   (''ABcd4a8b8a4b'', [0,1,2,3], [4,8,8,4], [0,1,0,1]),
   (''ABcd2a8b8a2b'', [0,1,2,3], [2,8,8,2], [0,1,0,1]),
   (''aBCde4b8c8b4c'', [0,1,2,3,4], [4,8,8,4], [1,2,1,2]),
   (''aBCde2b8c8b2c'', [0,1,2,3,4], [2,8,8,2], [1,2,1,2]),
   (''aBdec32b'', [0,1,3,4,2], [32], [1]),
   (''aCBdef16c16b'', [0,2,1,3,4,5], [16,16], [2,1]),
   (''Abcdef16a'', [0,1,2,3,4,5], [16], [0]),
   (''aCBd16c16b'', [0,2,1,3], [16,16], [2,1]),
   (''aCBde16c16b'', [0,2,1,3,4], [16,16], [2,1]),
   (''Acdb32a'', [0,2,3,1], [32], [0]),
   (''BAcd16b16a'', [1,0,2,3], [16,16], [1,0]),
   (''BAc16b16a'', [1,0,2], [16,16], [1,0])]"

definition compute_blocking :: "memory_desc \<Rightarrow> format_tag \<Rightarrow> status \<times> memory_desc" where
  "compute_blocking md tag =
     (if md_ndims md = 0 then (invalid_arguments, md)
      else case tag of
          Tag name \<Rightarrow>
            (case map_of blocking_table name of
               Some (perm, blks, ixs) \<Rightarrow> fill_blocked md perm blks ixs
             | None \<Rightarrow> (invalid_arguments, md))
        | _ \<Rightarrow> (invalid_arguments, md))"

end
