(* ===== verification/Layout.thy ===== *)
theory Layout
  imports Memory_Desc
begin

text \<open>
  Blocked layouts are bijections. The lemmas here relate the loops of \<open>off_v\<close> and
  \<open>fill_blocked\<close> to two recursive functions (the inner blocks and the outer dimensions), show
  that every format tag of \<open>compute_blocking\<close> yields a dense layout, and that a dense layout
  sends the padded box one to one onto a contiguous range of offsets. The locale
  \<open>tensor_layout\<close> is the interface the data movement code relies on.
\<close>

section \<open>The inner blocks\<close>

fun inner_fold :: "(nat \<times> int) list \<Rightarrow> dim_t carray \<Rightarrow> dim_t carray \<times> dim_t" where
  "inner_fold [] pos = (pos, 0)"
| "inner_fold ((d, b) # rest) pos =
     (let (pos', v) = inner_fold rest (pos(d := pos d div b)) in (pos', pos d mod b + b * v))"

definition inner_list :: "blocking_desc \<Rightarrow> nat \<Rightarrow> (nat \<times> int) list" where
  "inner_list blk n = rev (map (\<lambda>i. (inner_idxs blk i, inner_blks blk i)) [0..<n])"

definition dim_blocks :: "(nat \<times> int) list \<Rightarrow> nat \<Rightarrow> int" where
  "dim_blocks L d = prod_list (map snd (filter (\<lambda>x. fst x = d) L))"

definition blocks_ok :: "nat \<Rightarrow> (nat \<times> int) list \<Rightarrow> bool" where
  "blocks_ok nd L \<longleftrightarrow> (\<forall>x\<in>set L. fst x < nd \<and> 0 < snd x \<and> snd x \<le> INT32_MAX)"

lemma dim_blocks_simps [simp]:
  "dim_blocks [] d = 1"
  "dim_blocks ((e, b) # L) d = (if e = d then b * dim_blocks L d else dim_blocks L d)"
  by (auto simp: dim_blocks_def)

lemma blocks_ok_simps [simp]:
  "blocks_ok nd []"
  "blocks_ok nd ((e, b) # L) \<longleftrightarrow> e < nd \<and> 0 < b \<and> b \<le> INT32_MAX \<and> blocks_ok nd L"
  by (auto simp: blocks_ok_def)

lemma dim_blocks_pos: "blocks_ok nd L \<Longrightarrow> 0 < dim_blocks L d"
  by (induction L) auto

lemma blocks_prod_pos: "blocks_ok nd L \<Longrightarrow> 0 < prod_list (map snd L)"
  by (induction L) auto

lemma int32_cast_id: "0 \<le> x \<Longrightarrow> x \<le> INT32_MAX \<Longrightarrow> int32_cast x = x"
  by (simp add: int32_cast_def signed_take_bit_int_eq_self)

lemma off_v_block_eq:
  assumes "0 \<le> pos (inner_idxs blk i)" "0 < inner_blks blk i" "inner_blks blk i \<le> INT32_MAX"
  shows "off_v_block blk i (pos, phys, s) =
    (pos(inner_idxs blk i := pos (inner_idxs blk i) div inner_blks blk i),
     phys + pos (inner_idxs blk i) mod inner_blks blk i * s, s * inner_blks blk i)"
  using assms by (simp add: off_v_block_def Let_def int32_cast_id cdiv_simps)

lemma inner_list_Suc: "inner_list blk (Suc n) = (inner_idxs blk n, inner_blks blk n) # inner_list blk n"
  by (simp add: inner_list_def)

lemma inner_loop_eq:
  assumes "blocks_ok nd (inner_list blk n)" "\<And>d. 0 \<le> pos d"
  shows "for_down n (off_v_block blk) (pos, phys, s) =
    (fst (inner_fold (inner_list blk n) pos), phys + s * snd (inner_fold (inner_list blk n) pos),
     s * prod_list (map snd (inner_list blk n)))"
  using assms
proof (induction n arbitrary: pos phys s)
  case 0
  then show ?case by (simp add: inner_list_def)
next
  case (Suc n)
  let ?d = "inner_idxs blk n" and ?b = "inner_blks blk n"
  have ok: "0 < ?b" "?b \<le> INT32_MAX" "blocks_ok nd (inner_list blk n)"
    using Suc.prems(1) by (auto simp: inner_list_Suc)
  have nn: "0 \<le> (pos(?d := pos ?d div ?b)) e" for e
    using Suc.prems(2) ok(1) by (simp add: pos_imp_zdiv_nonneg_iff)
  note IH = Suc.IH [of "pos(?d := pos ?d div ?b)", OF ok(3) nn]
  show ?case
    by (simp add: for_down_Suc off_v_block_eq Suc.prems(2) ok IH inner_list_Suc split_beta Let_def
        algebra_simps del: fun_upd_apply)
qed

lemma inner_fold_pos:
  "blocks_ok nd L \<Longrightarrow> fst (inner_fold L pos) d = pos d div dim_blocks L d"
proof (induction L arbitrary: pos)
  case (Cons x L)
  obtain e b where x: "x = (e, b)" by (cases x)
  show ?case using Cons x dim_blocks_pos [of nd L]
    by (auto simp: split_beta Let_def zdiv_zmult2_eq less_imp_le)
qed simp

lemma inner_fold_bounds:
  "blocks_ok nd L \<Longrightarrow> 0 \<le> snd (inner_fold L pos) \<and> snd (inner_fold L pos) < prod_list (map snd L)"
proof (induction L arbitrary: pos)
  case (Cons x L)
  obtain e b where x: "x = (e, b)" by (cases x)
  then have b: "0 < b" and ok: "blocks_ok nd L" using Cons.prems by auto
  let ?v = "snd (inner_fold L (pos(e := pos e div b)))"
  have v: "0 \<le> ?v" "?v + 1 \<le> prod_list (map snd L)"
    using Cons.IH [OF ok, of "pos(e := pos e div b)"] by (simp_all del: fun_upd_apply)
  have m: "0 \<le> pos e mod b" "pos e mod b < b" using b by auto
  have "pos e mod b + b * ?v < b * (?v + 1)" using m by (simp add: algebra_simps)
  also have "\<dots> \<le> b * prod_list (map snd L)" using v(2) b by (intro mult_left_mono) auto
  finally show ?case using x m v b by (simp add: split_beta Let_def del: fun_upd_apply)
qed simp

lemma div_mod_unique:
  "0 \<le> v \<Longrightarrow> v < P \<Longrightarrow> 0 \<le> w \<Longrightarrow> w < P \<Longrightarrow> v + P * a = w + P * (c::int) \<Longrightarrow> v = w \<and> a = c"
proof -
  assume "0 \<le> v" "v < P" "0 \<le> w" "w < P" "v + P * a = w + P * c"
  then have "(v + P * a) mod P = (w + P * c) mod P" "(v + P * a) div P = (w + P * c) div P" by simp_all
  with \<open>0 \<le> v\<close> \<open>v < P\<close> \<open>0 \<le> w\<close> \<open>w < P\<close> show ?thesis by simp
qed

lemma inner_fold_inj:
  "blocks_ok nd L \<Longrightarrow> inner_fold L pos = inner_fold L pos' \<Longrightarrow> pos = pos'"
proof (induction L arbitrary: pos pos')
  case (Cons x L)
  obtain e b where x: "x = (e, b)" by (cases x)
  then have b: "0 < b" and ok: "blocks_ok nd L" using Cons.prems by auto
  let ?p = "pos(e := pos e div b)" and ?p' = "pos'(e := pos' e div b)"
  from Cons.prems(2) x have f: "fst (inner_fold L ?p) = fst (inner_fold L ?p')"
    and s: "pos e mod b + b * snd (inner_fold L ?p) = pos' e mod b + b * snd (inner_fold L ?p')"
    by (auto simp: split_beta Let_def)
  have "pos e mod b = pos' e mod b \<and> snd (inner_fold L ?p) = snd (inner_fold L ?p')"
    by (rule div_mod_unique [of _ b]) (use b s in auto)
  then have m: "pos e mod b = pos' e mod b" and "inner_fold L ?p = inner_fold L ?p'"
    using f by (auto intro: prod_eqI)
  then have eq: "?p = ?p'" using Cons.IH [OF ok] by blast
  then have "pos e div b = pos' e div b" by (metis fun_upd_same)
  then have "pos e = pos' e" using m by (metis div_mult_mod_eq)
  moreover have "pos d = pos' d" if "d \<noteq> e" for d using eq that by (metis fun_upd_other)
  ultimately show ?case by (metis ext)
qed simp

section \<open>The outer dimensions\<close>

fun outer_val :: "(nat \<Rightarrow> int) \<Rightarrow> (nat \<Rightarrow> int) \<Rightarrow> nat list \<Rightarrow> int" where
  "outer_val N q [] = 0"
| "outer_val N q (p # ps) = q p * prod_list (map N ps) + outer_val N q ps"

fun dense_strides :: "int \<Rightarrow> (nat \<Rightarrow> int) \<Rightarrow> (nat \<Rightarrow> int) \<Rightarrow> nat list \<Rightarrow> bool" where
  "dense_strides bs N st [] \<longleftrightarrow> True"
| "dense_strides bs N st (p # ps) \<longleftrightarrow> st p = bs * prod_list (map N ps) \<and> dense_strides bs N st ps"

lemma dense_strides_cong:
  "(\<And>d. d \<in> set ps \<Longrightarrow> N d = N' d \<and> st d = st' d) \<Longrightarrow> dense_strides bs N st ps \<longleftrightarrow> dense_strides bs N' st' ps"
proof (induction ps)
  case (Cons p ps)
  then have "map N ps = map N' ps" by simp
  then have "prod_list (map N ps) = prod_list (map N' ps)" by (rule arg_cong)
  then show ?case using Cons by simp
qed simp

lemma dense_stride_at: "dense_strides bs N st (xs @ d # ys) \<Longrightarrow> st d = bs * prod_list (map N ys)"
  by (induction xs) auto

lemma outer_sum: "dense_strides bs N st ps \<Longrightarrow> (\<Sum>d\<leftarrow>ps. q d * st d) = bs * outer_val N q ps"
  by (induction ps) (simp_all add: algebra_simps)

lemma outer_prod_pos: "\<forall>d\<in>set ps. 0 \<le> q d \<and> q d < N d \<Longrightarrow> 0 < prod_list (map N ps)"
  for q N :: "nat \<Rightarrow> int"
  by (induction ps) (auto intro: mult_pos_pos)

lemma outer_val_bounds:
  "\<forall>d\<in>set ps. 0 \<le> q d \<and> q d < N d \<Longrightarrow>
    0 \<le> outer_val N q ps \<and> outer_val N q ps < prod_list (map N ps)"
proof (induction ps)
  case (Cons p ps)
  then have IH: "0 \<le> outer_val N q ps" "outer_val N q ps < prod_list (map N ps)" and q: "0 \<le> q p" "q p + 1 \<le> N p"
    by auto
  have "outer_val N q (p # ps) < (q p + 1) * prod_list (map N ps)" using IH by (simp add: algebra_simps)
  also have "\<dots> \<le> N p * prod_list (map N ps)" using q IH by (intro mult_right_mono) auto
  finally show ?case using IH q by simp
qed simp

lemma outer_val_inj:
  "\<forall>d\<in>set ps. 0 \<le> q d \<and> q d < N d \<Longrightarrow> \<forall>d\<in>set ps. 0 \<le> r d \<and> r d < N d \<Longrightarrow>
    outer_val N q ps = outer_val N r ps \<Longrightarrow> d \<in> set ps \<Longrightarrow> q d = r d"
proof (induction ps)
  case (Cons p ps)
  have b: "0 \<le> outer_val N q ps" "outer_val N q ps < prod_list (map N ps)"
    "0 \<le> outer_val N r ps" "outer_val N r ps < prod_list (map N ps)"
    using outer_val_bounds [of ps q N] outer_val_bounds [of ps r N] Cons.prems by auto
  have "outer_val N q ps = outer_val N r ps \<and> q p = r p"
    by (rule div_mod_unique [OF b]) (use Cons.prems(3) in \<open>simp add: algebra_simps\<close>)
  then show ?case using Cons by auto
qed simp

lemma for_upto_sum: "for_upto n (\<lambda>d off. off + f d) a = a + (\<Sum>d<n. f d)" for f :: "nat \<Rightarrow> int"
  by (induction n) (simp_all add: for_range_Suc)

lemma sum_list_perm: "distinct ps \<Longrightarrow> set ps = {..<n} \<Longrightarrow> (\<Sum>d<n. f d) = (\<Sum>d\<leftarrow>ps. f d)"
  for f :: "nat \<Rightarrow> int"
  by (simp add: sum_list_distinct_conv_sum_set)

lemma prod_list_perm: "distinct ps \<Longrightarrow> set ps = {..<n} \<Longrightarrow> (\<Prod>d<n. f d) = prod_list (map f ps)"
  for f :: "nat \<Rightarrow> int"
  by (metis prod.distinct_set_conv_list)

section \<open>Dense layouts\<close>

definition inner_blocks :: "memory_desc \<Rightarrow> (nat \<times> int) list" where
  "inner_blocks md = inner_list (blocking md) (inner_nblks (blocking md))"

definition outer_extent :: "memory_desc \<Rightarrow> nat \<Rightarrow> int" where
  "outer_extent md d = padded_dims md d div dim_blocks (inner_blocks md) d"

definition block_size :: "memory_desc \<Rightarrow> int" where
  "block_size md = prod_list (map snd (inner_blocks md))"

text \<open>
  A dense layout with the outer dimensions in the order \<open>perm\<close>: every block factor divides
  its padded dimension, and the strides leave no holes.
\<close>

definition dense_layout :: "memory_desc \<Rightarrow> nat list \<Rightarrow> bool" where
  "dense_layout md perm \<longleftrightarrow>
     md_ndims md = int (length perm) \<and> perm \<noteq> [] \<and> distinct perm \<and> set perm = {..<length perm} \<and>
     md_format_kind md = fk_blocked \<and>
     blocks_ok (length perm) (inner_blocks md) \<and>
     (\<forall>d<length perm. 0 < padded_dims md d \<and> dim_blocks (inner_blocks md) d dvd padded_dims md d) \<and>
     dense_strides (block_size md) (outer_extent md) (blk_strides (blocking md)) perm"

definition in_padded :: "memory_desc \<Rightarrow> dim_t carray \<Rightarrow> bool" where
  "in_padded md pos \<longleftrightarrow> (\<forall>d. if d < ndims md then 0 \<le> pos d \<and> pos d < padded_dims md d else pos d = 0)"

lemma dense_layout_ndims: "dense_layout md perm \<Longrightarrow> ndims md = length perm"
  by (simp add: dense_layout_def ndims_def)

text \<open>\<open>off_v\<close> without its loops, for any blocked descriptor and non-negative position.\<close>

lemma off_v_eq:
  assumes ok: "blocks_ok nd (inner_blocks md)" and pos: "\<And>d. d < ndims md \<Longrightarrow> 0 \<le> pos d"
    and out: "\<And>d. \<not> d < ndims md \<Longrightarrow> pos d = 0"
  shows "off_v md pos True = offset0 md + snd (inner_fold (inner_blocks md) pos) +
    (\<Sum>d<ndims md. fst (inner_fold (inner_blocks md) pos) d * blk_strides (blocking md) d)"
proof -
  have nn: "0 \<le> pos d" for d using pos out by (cases "d < ndims md") auto
  have c: "for_upto (ndims md) (\<lambda>d c. c(d := pos d + (if True then 0 else padded_offsets md d))) (\<lambda>_. 0) = pos"
    using out by (auto simp: for_range_write fun_eq_iff)
  let ?n = "inner_nblks (blocking md)" and ?L = "inner_blocks md"
  have loop: "(if ?n > 0 then for_down ?n (off_v_block (blocking md)) (pos, offset0 md, 1)
      else (pos, offset0 md, 1)) =
      (fst (inner_fold ?L pos), offset0 md + snd (inner_fold ?L pos), prod_list (map snd ?L))"
    using inner_loop_eq [OF ok [unfolded inner_blocks_def], of pos "offset0 md" 1] nn
    by (auto simp: inner_blocks_def inner_list_def)
  show ?thesis unfolding off_v_def Let_def c loop by (simp add: for_upto_sum)
qed

lemma off_v_dense:
  assumes dl: "dense_layout md perm" and pos: "in_padded md pos"
  shows "off_v md pos True = offset0 md + snd (inner_fold (inner_blocks md) pos) +
    block_size md * outer_val (outer_extent md) (fst (inner_fold (inner_blocks md) pos)) perm"
proof -
  let ?L = "inner_blocks md"
  have "off_v md pos True = offset0 md + snd (inner_fold ?L pos) +
      (\<Sum>d<ndims md. fst (inner_fold ?L pos) d * blk_strides (blocking md) d)"
    by (rule off_v_eq [of "length perm"])
      (use dl pos in \<open>auto simp: dense_layout_def in_padded_def split: if_splits\<close>)
  also have "(\<Sum>d<ndims md. fst (inner_fold ?L pos) d * blk_strides (blocking md) d) =
      (\<Sum>d\<leftarrow>perm. fst (inner_fold ?L pos) d * blk_strides (blocking md) d)"
    using dl by (intro sum_list_perm) (auto simp: dense_layout_def ndims_def)
  also have "\<dots> = block_size md * outer_val (outer_extent md) (fst (inner_fold ?L pos)) perm"
    using dl by (intro outer_sum) (simp add: dense_layout_def)
  finally show ?thesis .
qed

text \<open>Moving by whole blocks moves only the outer position.\<close>

lemma inner_fold_shift:
  "blocks_ok nd L \<Longrightarrow> (\<And>d. dim_blocks L d dvd sh d) \<Longrightarrow>
    snd (inner_fold L (\<lambda>d. pos d + sh d)) = snd (inner_fold L pos)"
proof (induction L arbitrary: pos sh)
  case (Cons x L)
  obtain e b where x: "x = (e, b)" by (cases x)
  then have b: "0 < b" and ok: "blocks_ok nd L" using Cons.prems by auto
  have dv: "b * dim_blocks L e dvd sh e" "\<And>d. d \<noteq> e \<Longrightarrow> dim_blocks L d dvd sh d"
    using Cons.prems(2) x by (metis dim_blocks_simps(2))+
  have bd: "b dvd sh e" using dv(1) by (rule dvd_mult_left)
  have md: "(pos e + sh e) mod b = pos e mod b" "(pos e + sh e) div b = pos e div b + sh e div b"
    using bd by (auto simp: div_plus_div_distrib_dvd_right elim!: dvdE)
  let ?sh = "sh(e := sh e div b)" and ?p = "pos(e := pos e div b)"
  have "dim_blocks L d dvd ?sh d" for d
    using dv b by (cases "d = e") (auto elim!: dvdE simp: mult.assoc)
  note IH = Cons.IH [OF ok this, of ?p]
  have "(\<lambda>d. pos d + sh d)(e := (pos e + sh e) div b) = (\<lambda>d. ?p d + ?sh d)"
    using md(2) by (simp add: fun_eq_iff)
  then show ?case using x md IH by (simp add: split_beta Let_def del: fun_upd_apply)
qed simp

lemma outer_in_extent:
  assumes dl: "dense_layout md perm" and pos: "in_padded md pos"
  shows "\<forall>d\<in>set perm. 0 \<le> fst (inner_fold (inner_blocks md) pos) d \<and>
    fst (inner_fold (inner_blocks md) pos) d < outer_extent md d"
proof
  fix d assume "d \<in> set perm"
  then have d: "d < length perm" using dl by (auto simp: dense_layout_def)
  have ok: "blocks_ok (length perm) (inner_blocks md)" using dl by (simp add: dense_layout_def)
  let ?B = "dim_blocks (inner_blocks md) d"
  have B: "0 < ?B" "?B dvd padded_dims md d" using dl d dim_blocks_pos [OF ok] by (auto simp: dense_layout_def)
  have p: "0 \<le> pos d" "pos d < padded_dims md d"
    using pos d dense_layout_ndims [OF dl] by (auto simp: in_padded_def split: if_splits)
  obtain k where k: "padded_dims md d = ?B * k" using B(2) by (rule dvdE)
  have "pos d div ?B < k" using p(2) k B(1) by (intro int_div_less) (simp_all add: mult.commute)
  then show "0 \<le> fst (inner_fold (inner_blocks md) pos) d \<and>
      fst (inner_fold (inner_blocks md) pos) d < outer_extent md d"
    using p B k by (simp add: inner_fold_pos [OF ok] outer_extent_def pos_imp_zdiv_nonneg_iff)
qed

lemma dim_blocks_all: "blocks_ok nd L \<Longrightarrow> (\<Prod>d<nd. dim_blocks L d) = prod_list (map snd L)"
proof (induction L)
  case (Cons x L)
  obtain e b where x: "x = (e, b)" by (cases x)
  have e: "e < nd" using Cons.prems x by simp
  have "(\<Prod>d<nd. dim_blocks (x # L) d) = (\<Prod>d<nd. (if e = d then b else 1) * dim_blocks L d)"
    using x by (intro prod.cong) auto
  also have "\<dots> = (\<Prod>d<nd. if e = d then b else 1) * (\<Prod>d<nd. dim_blocks L d)" by (rule prod.distrib)
  also have "(\<Prod>d<nd. if e = d then b else 1) = b" using e by (subst prod.delta') auto
  finally show ?case using Cons x by simp
qed simp

lemma dense_nelems:
  assumes dl: "dense_layout md perm"
  shows "nelems md True = block_size md * prod_list (map (outer_extent md) perm)"
proof -
  have ok: "blocks_ok (length perm) (inner_blocks md)" using dl by (simp add: dense_layout_def)
  have "nelems md True = (\<Prod>d<length perm. padded_dims md d)"
    using dl by (auto simp: nelems_def is_zero_def dense_layout_def ndims_def array_product_eq)
  also have "\<dots> = (\<Prod>d<length perm. dim_blocks (inner_blocks md) d * outer_extent md d)"
    using dl by (intro prod.cong) (auto simp: dense_layout_def outer_extent_def)
  also have "\<dots> = block_size md * (\<Prod>d<length perm. outer_extent md d)"
    by (simp add: prod.distrib dim_blocks_all [OF ok] block_size_def)
  also have "(\<Prod>d<length perm. outer_extent md d) = prod_list (map (outer_extent md) perm)"
    using dl by (intro prod_list_perm) (auto simp: dense_layout_def)
  finally show ?thesis .
qed

lemma off_v_dense_bounds:
  assumes dl: "dense_layout md perm" and pos: "in_padded md pos"
  shows "offset0 md \<le> off_v md pos True" "off_v md pos True < offset0 md + nelems md True"
proof -
  have ok: "blocks_ok (length perm) (inner_blocks md)" using dl by (simp add: dense_layout_def)
  let ?v = "snd (inner_fold (inner_blocks md) pos)"
  let ?o = "outer_val (outer_extent md) (fst (inner_fold (inner_blocks md) pos)) perm"
  let ?P = "prod_list (map (outer_extent md) perm)"
  have v: "0 \<le> ?v" "?v < block_size md" using inner_fold_bounds [OF ok, of pos] by (simp_all add: block_size_def)
  have o: "0 \<le> ?o" "?o + 1 \<le> ?P" using outer_val_bounds [OF outer_in_extent [OF dl pos]] by auto
  have "?v + block_size md * ?o < block_size md * (?o + 1)" using v by (simp add: algebra_simps)
  also have "\<dots> \<le> block_size md * ?P" using v o by (intro mult_left_mono) auto
  finally show "offset0 md \<le> off_v md pos True" "off_v md pos True < offset0 md + nelems md True"
    using v o by (simp_all add: off_v_dense [OF dl pos] dense_nelems [OF dl])
qed

lemma off_v_dense_inj:
  assumes dl: "dense_layout md perm" and p: "in_padded md p" and q: "in_padded md q"
    and e: "off_v md p True = off_v md q True"
  shows "p = q"
proof -
  have ok: "blocks_ok (length perm) (inner_blocks md)" using dl by (simp add: dense_layout_def)
  let ?i = "inner_fold (inner_blocks md)" and ?o = "\<lambda>r. outer_val (outer_extent md) r perm"
  have "snd (?i p) = snd (?i q) \<and> ?o (fst (?i p)) = ?o (fst (?i q))"
    by (rule div_mod_unique [of _ "block_size md"])
      (use inner_fold_bounds [OF ok] e in \<open>auto simp: block_size_def off_v_dense [OF dl p] off_v_dense [OF dl q]\<close>)
  then have s: "snd (?i p) = snd (?i q)" and o: "?o (fst (?i p)) = ?o (fst (?i q))" by auto
  have "fst (?i p) d = fst (?i q) d" for d
  proof (cases "d \<in> set perm")
    case True
    show ?thesis by (rule outer_val_inj [OF outer_in_extent [OF dl p] outer_in_extent [OF dl q] o True])
  next
    case False
    then have "p d = 0" "q d = 0" using p q dl by (auto simp: in_padded_def dense_layout_def ndims_def)
    then show ?thesis by (simp add: inner_fold_pos [OF ok])
  qed
  then have "?i p = ?i q" using s by (simp add: prod_eq_iff fun_eq_iff)
  then show ?thesis by (rule inner_fold_inj [OF ok])
qed

section \<open>Format tags give dense layouts\<close>

definition tag_row_ok :: "nat list \<Rightarrow> nat list \<Rightarrow> nat list \<Rightarrow> bool" where
  "tag_row_ok perm blks ixs \<longleftrightarrow>
     perm \<noteq> [] \<and> distinct perm \<and> list_all (\<lambda>d. d < length perm) perm \<and> length blks = length ixs \<and>
     list_all (\<lambda>b. 0 < b \<and> b \<le> 64) blks \<and> list_all (\<lambda>d. d < length perm) ixs"

lemma blocking_table_ok: "list_all (\<lambda>(_, perm, blks, ixs). tag_row_ok perm blks ixs) blocking_table"
  by (simp add: blocking_table_def tag_row_ok_def)

lemma tag_row:
  "map_of blocking_table name = Some (perm, blks, ixs) \<Longrightarrow> tag_row_ok perm blks ixs"
  using blocking_table_ok by (auto dest!: map_of_SomeD simp: list_all_iff)

lemma tag_row_perm: "tag_row_ok perm blks ixs \<Longrightarrow> set perm = {..<length perm}"
  by (rule card_subset_eq) (auto simp: tag_row_ok_def list_all_iff distinct_card)

lemma fill_blocks_eq:
  assumes "d < nd"
  shows "fill_blocks ixs blks nd d = dim_blocks (zip ixs (map int blks)) d"
proof -
  have "fold (\<lambda>(dim, b) bl. bl(dim := bl dim * int b)) (zip ixs blks) f d =
      f d * dim_blocks (zip ixs (map int blks)) d" for f :: "dim_t carray"
    by (induction ixs blks arbitrary: f rule: list_induct2') auto
  then show ?thesis using assms by (simp add: fill_blocks_def array_set_eq)
qed

lemma dim_blocks_rev: "dim_blocks (rev L) d = dim_blocks L d"
  by (simp add: dim_blocks_def rev_filter [symmetric] rev_map [symmetric])

lemma inner_list_zip:
  assumes "length blks = length ixs" "\<And>i. i < length ixs \<Longrightarrow> inner_idxs blk i = ixs ! i"
    "\<And>i. i < length ixs \<Longrightarrow> inner_blks blk i = int (blks ! i)"
  shows "inner_list blk (length blks) = rev (zip ixs (map int blks))"
proof -
  have "map (\<lambda>i. (inner_idxs blk i, inner_blks blk i)) [0..<length blks] = zip ixs (map int blks)"
    by (rule nth_equalityI) (use assms in auto)
  then show ?thesis by (simp add: inner_list_def)
qed

lemma fill_strides_dense:
  assumes "distinct ps" "\<And>d. d \<in> set ps \<Longrightarrow> padded d \<noteq> 0 \<and> padded d sdiv blocks d = N d \<and> 0 < N d"
    and "0 \<le> bs"
  shows "\<exists>st'. fold (fill_stride padded blocks) ps (bs * prod_list (map N ps), st) = (bs, st') \<and>
    dense_strides bs N st' ps \<and> (\<forall>d. d \<notin> set ps \<longrightarrow> st' d = st d)"
  using assms
proof (induction ps arbitrary: st)
  case (Cons p ps)
  have N: "0 < N p" "padded p \<noteq> 0" "padded p sdiv blocks p = N p" using Cons.prems(2) [of p] by auto
  have P: "0 \<le> prod_list (map N ps)"
    by (rule prod_list_nonneg) (use Cons.prems(2) in \<open>auto intro: less_imp_le\<close>)
  let ?s = "bs * prod_list (map N ps)"
  have "bs * (N p * prod_list (map N ps)) sdiv N p = ?s"
    using N P Cons.prems(3) by (simp add: cdiv_simps)
  then have step: "fill_stride padded blocks p (bs * prod_list (map N (p # ps)), st) = (?s, st(p := ?s))"
    using N by (simp add: fill_stride_def Let_def)
  obtain st' where st': "fold (fill_stride padded blocks) ps (?s, st(p := ?s)) = (bs, st')"
    "dense_strides bs N st' ps" "\<forall>d. d \<notin> set ps \<longrightarrow> st' d = (st(p := ?s)) d"
    using Cons.IH [of "st(p := ?s)"] Cons.prems by (auto simp del: fun_upd_apply)
  then show ?case using step Cons.prems(1) by auto
qed simp

lemma fill_blocked_dense:
  assumes row: "tag_row_ok perm blks ixs" and nd: "md_ndims md = int (length perm)"
    and kind: "md_format_kind md = fk_blocked" and dims: "\<And>d. d < length perm \<Longrightarrow> 0 < md_dims md d"
    and res: "fill_blocked md perm blks ixs = (st, md')"
  shows "st = success" "dense_layout md' perm" "offset0 md' = 0" "md_dims md' = md_dims md"
    "\<And>d. d < length perm \<Longrightarrow>
      padded_dims md' d = rnd_up (md_dims md d) (dim_blocks (inner_blocks md') d)"
    "\<And>d. d < length perm \<Longrightarrow> padded_offsets md' d = 0"
    "inner_blocks md' = rev (zip ixs (map int blks))"
proof -
  let ?n = "length perm" and ?L = "zip ixs (map int blks)"
  let ?blocks = "fill_blocks ixs blks ?n"
  let ?padded = "for_upto ?n (\<lambda>d pd. pd(d := rnd_up (md_dims md d) (?blocks d))) (padded_dims md)"
  let ?bs = "int (prod_list blks)"
  have len: "length blks = length ixs" using row by (simp add: tag_row_ok_def)
  have nd': "ndims md = ?n" using nd by (simp add: ndims_def)
  have okL: "blocks_ok ?n ?L" unfolding blocks_ok_def
  proof
    fix x assume x: "x \<in> set ?L"
    then have i: "fst x \<in> set ixs" and "snd x \<in> set (map int blks)"
      by (metis prod.collapse set_zip_leftD, metis prod.collapse set_zip_rightD)
    then obtain b where b: "b \<in> set blks" "snd x = int b" by auto
    have "0 < b \<and> b \<le> 64" "fst x < ?n" using row i b(1) unfolding tag_row_ok_def list_all_iff by blast+
    then show "fst x < ?n \<and> 0 < snd x \<and> snd x \<le> INT32_MAX" using b(2) by simp
  qed
  have padded: "?padded d = rnd_up (md_dims md d) (dim_blocks ?L d)" if "d < ?n" for d
    using that by (simp add: for_range_write fill_blocks_eq)
  have B: "0 < dim_blocks ?L d" for d using dim_blocks_pos [OF okL] .
  define N where "N d = ?padded d div dim_blocks ?L d" for d
  have N: "?padded d \<noteq> 0 \<and> ?padded d sdiv ?blocks d = N d \<and> 0 < N d \<and> 0 < ?padded d \<and>
      dim_blocks ?L d dvd ?padded d" if "d < ?n" for d
  proof -
    have p: "0 < ?padded d" using padded [OF that] rnd_up_pos [OF dims [OF that] B [of d]] by simp
    moreover have "dim_blocks ?L d dvd ?padded d" using padded [OF that] by (simp add: rnd_up_dvd)
    ultimately have "0 < N d" using B [of d] zdvd_imp_le unfolding N_def
      by (simp add: pos_imp_zdiv_pos_iff)
    then show ?thesis using p B [of d] \<open>dim_blocks ?L d dvd ?padded d\<close>
      by (simp add: N_def fill_blocks_eq that cdiv_simps less_imp_le)
  qed
  have perm: "distinct perm" "set perm = {..<?n}" "perm \<noteq> []"
    using row tag_row_perm [OF row] by (auto simp: tag_row_ok_def)
  have bs: "?bs = prod_list (map snd ?L)"
    by (simp add: len int_prod_list)
  have stride: "for_upto ?n (\<lambda>d s. s * (if ?padded d = 0 then 1 else ?padded d sdiv ?blocks d)) ?bs =
      ?bs * prod_list (map N perm)"
  proof -
    have "for_upto m (\<lambda>d s. s * (if ?padded d = 0 then 1 else ?padded d sdiv ?blocks d)) ?bs =
        ?bs * (\<Prod>d<m. N d)" if "m \<le> ?n" for m
      using that by (induction m) (simp_all add: for_range_Suc N)
    then show ?thesis using prod_list_perm [OF perm(1,2), of N] by simp
  qed
  obtain st' where st': "fold (fill_stride ?padded ?blocks) perm
      (?bs * prod_list (map N perm), blk_strides (blocking md)) = (?bs, st')" "dense_strides ?bs N st' perm"
    using fill_strides_dense [OF perm(1), of ?padded ?blocks N ?bs "blk_strides (blocking md)"] N perm(2)
    by auto
  have r: "st = success" "md' = md\<lparr>offset0 := 0,
               padded_offsets := array_set (padded_offsets md) 0 ?n,
               padded_dims := ?padded,
               blocking := \<lparr>blk_strides = st',
                 inner_nblks = length blks,
                 inner_blks = array_copy (inner_blks (blocking md)) (int \<circ> (!) blks) (length blks),
                 inner_idxs = array_copy (inner_idxs (blocking md)) ((!) ixs) (length ixs)\<rparr>\<rparr>"
    using res unfolding fill_blocked_def Let_def nd' stride st'(1) by (auto simp: nd len)
  have L: "inner_blocks md' = rev ?L"
    unfolding inner_blocks_def r(2) by (simp, rule inner_list_zip) (auto simp: len array_copy_eq)
  have dbL: "dim_blocks (inner_blocks md') = dim_blocks ?L" by (simp add: fun_eq_iff L dim_blocks_rev)
  have pd: "padded_dims md' = ?padded" by (simp add: r(2))
  have oe: "outer_extent md' = N" by (simp only: fun_eq_iff outer_extent_def dbL N_def pd) simp
  have bsz: "block_size md' = ?bs"
    by (simp add: block_size_def L bs rev_map [symmetric])
  have "blocks_ok ?n (inner_blocks md')" using okL by (simp add: blocks_ok_def L)
  moreover have "dense_strides (block_size md') (outer_extent md') (blk_strides (blocking md')) perm"
    unfolding oe bsz using st'(2) r(2) by simp
  ultimately show "dense_layout md' perm"
    using perm N nd kind unfolding dense_layout_def dbL by (simp add: r(2))
  show "inner_blocks md' = rev ?L" by (rule L)
  show "st = success" "offset0 md' = 0" "md_dims md' = md_dims md" using r by simp_all
  show "padded_dims md' d = rnd_up (md_dims md d) (dim_blocks (inner_blocks md') d)" if "d < ?n" for d
    unfolding dbL using padded [OF that] by (simp add: r(2))
  show "padded_offsets md' d = 0" if "d < ?n" for d
    using that by (simp add: r(2) array_set_eq)
qed

section \<open>Linear logical offsets\<close>

definition extents :: "memory_desc \<Rightarrow> bool \<Rightarrow> nat list" where
  "extents md padded = map (\<lambda>d. nat (if padded then padded_dims md d else md_dims md d)) [0..<ndims md]"

definition pos_of :: "nat list \<Rightarrow> dim_t carray" where
  "pos_of xs = (\<lambda>d. int (arr xs d))"

lemma radix_digits_nth:
  "d < length rs \<Longrightarrow> radix_digits rs n ! d = n div prod_list (drop (Suc d) rs) mod rs ! d"
proof (induction rs arbitrary: d)
  case (Cons r rs)
  then show ?case by (cases d) auto
qed simp

lemma off_l_step_eq:
  fixes l :: nat
  assumes rd: "rd < ndims md"
    and D: "\<And>d. d < ndims md \<Longrightarrow> 0 < (if b then padded_dims md d else md_dims md d)"
    and d_def: "d = ndims md - Suc rd"
  shows "off_l_step md b rd (int l, pos) =
    (int (l div extents md b ! d), pos(d := int (l mod extents md b ! d)))"
proof -
  have d: "d < ndims md" using rd by (auto simp: d_def)
  let ?D = "if b then padded_dims md d else md_dims md d"
  have D': "0 < ?D" using D [OF d] .
  then have e: "int (extents md b ! d) = ?D" using d by (cases b) (auto simp: extents_def)
  have "int l div ?D = int (l div extents md b ! d)" "int l mod ?D = int (l mod extents md b ! d)"
    using e by (simp_all add: zdiv_int zmod_int)
  then show ?thesis using D'
    unfolding off_l_step_def diff_Suc_eq_diff_pred [symmetric] diff_diff_left plus_1_eq_Suc
      d_def [symmetric] Let_def split_conv
    by (cases "int l \<le> INT32_MAX \<and> ?D \<le> INT32_MAX") (simp_all add: int32_cast_id cdiv_simps del: int_ops)
qed

lemma off_l_pos_eq:
  assumes "\<And>d. d < ndims md \<Longrightarrow> 0 < (if b then padded_dims md d else md_dims md d)"
  shows "off_l_pos md (int l) b = pos_of (radix_digits (extents md b) l)"
proof -
  let ?Ds = "extents md b" and ?nd = "ndims md"
  let ?dg = "\<lambda>d. l div prod_list (drop (Suc d) ?Ds) mod ?Ds ! d"
  let ?I = "\<lambda>k st. st = (int (l div prod_list (drop (?nd - k) ?Ds)),
    \<lambda>d. if ?nd - k \<le> d \<and> d < ?nd then int (?dg d) else 0)"
  have len: "length ?Ds = ?nd" by (simp add: extents_def)
  have "?I ?nd (for_upto ?nd (off_l_step md b) (int l, \<lambda>_. 0))"
  proof (rule for_range_inv [where I = ?I])
    show "?I 0 (int l, \<lambda>_. 0)" by (auto simp: len)
  next
    fix k st assume k: "k < ?nd" and I: "?I k st"
    define d where "d = ?nd - Suc k"
    have d: "d < ?nd" "?nd - k = Suc d" "?nd - Suc k = d" using k by (auto simp: d_def)
    have dr: "drop d ?Ds = ?Ds ! d # drop (Suc d) ?Ds" using d len by (simp add: Cons_nth_drop_Suc)
    show "?I (Suc k) (off_l_step md b k st)"
      using I d(1) unfolding d(2,3)
      by (auto simp: off_l_step_eq [OF k assms d_def] dr div_mult2_eq fun_eq_iff
          mult.commute [of "?Ds ! d"] not_less_eq_eq le_Suc_eq simp del: of_nat_div of_nat_mod)
  qed simp
  then show ?thesis
    by (auto simp: off_l_pos_def pos_of_def fun_eq_iff arr_def len radix_digits_nth)
qed

lemma pos_of_in_padded:
  assumes "in_box (extents md True) xs"
  shows "in_padded md (pos_of xs)"
proof -
  have len: "length xs = ndims md" using in_box_length [OF assms] by (simp add: extents_def)
  have "xs ! d < nat (padded_dims md d)" if "d < ndims md" for d
    using assms that unfolding in_box_def list_all2_conv_all_nth by (auto simp: extents_def)
  then show ?thesis using len by (fastforce simp: in_padded_def pos_of_def arr_def)
qed

lemma pos_of_inj: "length xs = length ys \<Longrightarrow> pos_of xs = pos_of ys \<Longrightarrow> xs = ys"
proof (rule nth_equalityI)
  fix i assume "length xs = length ys" "pos_of xs = pos_of ys" "i < length xs"
  then have "pos_of xs i = pos_of ys i" by simp
  with \<open>i < length xs\<close> \<open>length xs = length ys\<close> show "xs ! i = ys ! i" by (simp add: pos_of_def)
qed simp

text \<open>
  A logical position of an unpadded tensor becomes a position of the padded area by adding the
  padded offsets.
\<close>

definition inside_padding :: "memory_desc \<Rightarrow> bool" where
  "inside_padding md \<longleftrightarrow>
     (\<forall>d<ndims md. 0 < md_dims md d \<and> 0 \<le> padded_offsets md d \<and>
        padded_offsets md d + md_dims md d \<le> padded_dims md d)"

definition shift_pos :: "memory_desc \<Rightarrow> dim_t carray \<Rightarrow> dim_t carray" where
  "shift_pos md pos = (\<lambda>d. if d < ndims md then pos d + padded_offsets md d else 0)"

lemma off_v_shift: "off_v md pos False = off_v md (shift_pos md pos) True"
proof -
  have "for_upto (ndims md) (\<lambda>d c. c(d := pos d + (if False then 0 else padded_offsets md d))) (\<lambda>_. 0) =
      for_upto (ndims md) (\<lambda>d c. c(d := shift_pos md pos d + (if True then 0 else padded_offsets md d))) (\<lambda>_. 0)"
    by (simp add: for_range_write shift_pos_def fun_eq_iff)
  then show ?thesis by (simp only: off_v_def)
qed

lemma shift_pos_in_padded:
  assumes "inside_padding md" "in_box (extents md False) xs"
  shows "in_padded md (shift_pos md (pos_of xs))"
proof -
  have len: "length xs = ndims md" using in_box_length [OF assms(2)] by (simp add: extents_def)
  have "xs ! d < nat (md_dims md d)" if "d < ndims md" for d
    using assms(2) that unfolding in_box_def list_all2_conv_all_nth by (auto simp: extents_def)
  then show ?thesis using len assms(1)
    by (fastforce simp: in_padded_def shift_pos_def pos_of_def arr_def inside_padding_def)
qed

lemma shift_pos_inj:
  "length xs = ndims md \<Longrightarrow> length ys = ndims md \<Longrightarrow>
    shift_pos md (pos_of xs) = shift_pos md (pos_of ys) \<Longrightarrow> xs = ys"
proof (rule nth_equalityI)
  fix i
  assume a: "length xs = ndims md" "length ys = ndims md" "i < length xs"
    and "shift_pos md (pos_of xs) = shift_pos md (pos_of ys)"
  then have "shift_pos md (pos_of xs) i = shift_pos md (pos_of ys) i" by simp
  with a show "xs ! i = ys ! i" by (simp add: shift_pos_def pos_of_def)
qed simp

section \<open>The interface of a layout\<close>

text \<open>
  What code that moves elements by their logical number relies on: distinct numbers have
  distinct addresses. \<open>addr m e\<close> is the address of element number \<open>e\<close>.
\<close>

definition move_elems :: "(nat \<Rightarrow> int) \<Rightarrow> (nat \<Rightarrow> int) \<Rightarrow> ('a \<Rightarrow> 'b \<Rightarrow> 'b) \<Rightarrow> nat \<Rightarrow>
    (int \<Rightarrow> 'a) \<Rightarrow> (int \<Rightarrow> 'b) \<Rightarrow> int \<Rightarrow> 'b" where
  "move_elems src_addr dst_addr f n src dst =
     for_upto n (\<lambda>e dst. dst(dst_addr e := f (src (src_addr e)) (dst (dst_addr e)))) dst"

locale tensor_layout =
  fixes wf :: "'m \<Rightarrow> bool"
    and count :: "'m \<Rightarrow> nat"
    and addr :: "'m \<Rightarrow> nat \<Rightarrow> int"
  assumes addr_inj: "wf m \<Longrightarrow> e < count m \<Longrightarrow> e' < count m \<Longrightarrow> addr m e = addr m e' \<Longrightarrow> e = e'"
begin

lemma move_elems_prefix:
  assumes "wf m" "n \<le> count m"
  shows "(\<forall>e<n. move_elems sa (addr m) f n src dst (addr m e) = f (src (sa e)) (dst (addr m e))) \<and>
    (\<forall>a. a \<notin> addr m ` {..<n} \<longrightarrow> move_elems sa (addr m) f n src dst a = dst a)"
  using assms(2)
proof (induction n)
  case 0
  then show ?case by (simp add: move_elems_def)
next
  case (Suc n)
  let ?d = "move_elems sa (addr m) f n src dst"
  have IH: "\<And>e. e < n \<Longrightarrow> ?d (addr m e) = f (src (sa e)) (dst (addr m e))"
    "\<And>a. a \<notin> addr m ` {..<n} \<Longrightarrow> ?d a = dst a" using Suc by auto
  have fresh: "addr m n \<notin> addr m ` {..<n}"
    using addr_inj [OF assms(1)] Suc.prems by (metis (no_types, lifting) Suc_le_lessD imageE lessThan_iff less_irrefl less_trans)
  have s: "move_elems sa (addr m) f (Suc n) src dst = ?d(addr m n := f (src (sa n)) (?d (addr m n)))"
    by (simp add: move_elems_def for_range_Suc)
  have "addr m e \<noteq> addr m n" if "e < n" for e using fresh that by (metis imageI lessThan_iff)
  then show ?case using IH fresh by (auto simp: s less_Suc_eq lessThan_Suc)
qed

lemma move_elems_read:
  "wf m \<Longrightarrow> e < count m \<Longrightarrow>
    move_elems sa (addr m) f (count m) src dst (addr m e) = f (src (sa e)) (dst (addr m e))"
  using move_elems_prefix [of m "count m"] by blast

lemma move_elems_frame:
  "wf m \<Longrightarrow> a \<notin> addr m ` {..<count m} \<Longrightarrow> move_elems sa (addr m) f (count m) src dst a = dst a"
  using move_elems_prefix [of m "count m"] by blast

text \<open>Moving the elements of one layout to another and back restores them.\<close>

lemma move_elems_back:
  assumes "wf m" "wf m'" "count m = count m'" "e < count m" "\<And>x y z. g (f x y) z = x"
  shows "move_elems (addr m') (addr m) g (count m)
      (move_elems (addr m) (addr m') f (count m') src tmp) dst (addr m e) = src (addr m e)"
proof -
  have "move_elems (addr m) (addr m') f (count m') src tmp (addr m' e) = f (src (addr m e)) (tmp (addr m' e))"
    using move_elems_read [OF assms(2), of e "addr m"] assms(3,4) by simp
  then show ?thesis using move_elems_read [OF assms(1,4), of "addr m'" g] assms(5) by simp
qed

end

text \<open>A layout without holes: the addresses of the elements are an interval.\<close>

locale packed_layout = tensor_layout +
  fixes base :: "'a \<Rightarrow> int"
  assumes addr_range: "wf m \<Longrightarrow> e < count m \<Longrightarrow> base m \<le> addr m e \<and> addr m e < base m + int (count m)"
begin

lemma addr_bij:
  assumes "wf m"
  shows "bij_betw (addr m) {..<count m} {base m..<base m + int (count m)}"
  unfolding bij_betw_def
proof
  show inj: "inj_on (addr m) {..<count m}" using addr_inj [OF assms] by (auto simp: inj_on_def)
  show "addr m ` {..<count m} = {base m..<base m + int (count m)}"
    by (rule card_subset_eq) (use addr_range [OF assms] card_image [OF inj] in auto)
qed

end

section \<open>Blocked descriptors are layouts\<close>

definition wf_padded :: "memory_desc \<Rightarrow> bool" where
  "wf_padded md \<longleftrightarrow> (\<exists>perm. dense_layout md perm)"

definition wf_logical :: "memory_desc \<Rightarrow> bool" where
  "wf_logical md \<longleftrightarrow> wf_padded md \<and> inside_padding md"

definition count_padded :: "memory_desc \<Rightarrow> nat" where
  "count_padded md = nat (nelems md True)"

definition count_logical :: "memory_desc \<Rightarrow> nat" where
  "count_logical md = nat (nelems md False)"

definition addr_padded :: "memory_desc \<Rightarrow> nat \<Rightarrow> int" where
  "addr_padded md e = off_l md (int e) True"

definition addr_logical :: "memory_desc \<Rightarrow> nat \<Rightarrow> int" where
  "addr_logical md e = off_l md (int e) False"

lemma nelems_extents:
  assumes "md_ndims md > 0" "\<And>d. d < ndims md \<Longrightarrow> 0 < (if b then padded_dims md d else md_dims md d)"
  shows "nat (nelems md b) = prod_list (extents md b)"
proof -
  have "array_product a n = int (prod_list (map (\<lambda>d. nat (a d)) [0..<n]))"
    if "\<And>d. d < n \<Longrightarrow> 0 < a d" for n and a :: "dim_t carray"
    using that
  proof (induction n)
    case (Suc n)
    then have "array_product a n = int (prod_list (map (\<lambda>d. nat (a d)) [0..<n]))" "0 < a n" by auto
    then show ?case by simp
  qed simp
  from this [of "ndims md" "if b then padded_dims md else md_dims md"] assms show ?thesis
    by (auto simp: nelems_def is_zero_def extents_def comp_def)
qed

lemma wf_padded_pos: "wf_padded md \<Longrightarrow> 0 < md_ndims md \<and> (\<forall>d<ndims md. 0 < padded_dims md d)"
  by (auto simp: wf_padded_def dense_layout_def ndims_def)

lemma count_padded_eq: "wf_padded md \<Longrightarrow> count_padded md = prod_list (extents md True)"
  using wf_padded_pos [of md] nelems_extents [of md True] by (simp add: count_padded_def)

lemma count_logical_eq: "wf_logical md \<Longrightarrow> count_logical md = prod_list (extents md False)"
  using wf_padded_pos [of md] nelems_extents [of md False]
  by (simp add: count_logical_def wf_logical_def inside_padding_def)

lemma addr_padded_eq:
  "wf_padded md \<Longrightarrow> addr_padded md e = off_v md (pos_of (radix_digits (extents md True) e)) True"
  using wf_padded_pos [of md] by (simp add: addr_padded_def off_l_def off_l_pos_eq)

lemma addr_logical_eq:
  "wf_logical md \<Longrightarrow> addr_logical md e =
    off_v md (shift_pos md (pos_of (radix_digits (extents md False) e))) True"
  by (simp add: addr_logical_def off_l_def off_l_pos_eq off_v_shift wf_logical_def inside_padding_def)

lemma digits_in_box: "e < prod_list rs \<Longrightarrow> in_box rs (radix_digits rs e)"
  by (rule radix_digits_in_box) simp

lemma digits_inj:
  "e < prod_list rs \<Longrightarrow> e' < prod_list rs \<Longrightarrow> radix_digits rs e = radix_digits rs e' \<Longrightarrow> e = e'"
  by (metis mod_less radix_val_digits)

interpretation padded: packed_layout wf_padded count_padded addr_padded offset0
proof
  fix m e e'
  assume wf: "wf_padded m" and e: "e < count_padded m"
  obtain perm where dl: "dense_layout m perm" using wf by (auto simp: wf_padded_def)
  note e = e [unfolded count_padded_eq [OF wf]]
  note box = digits_in_box [OF e]
  show "offset0 m \<le> addr_padded m e \<and> addr_padded m e < offset0 m + int (count_padded m)"
    using off_v_dense_bounds [OF dl pos_of_in_padded [OF box]]
    by (simp add: addr_padded_eq [OF wf] count_padded_def)
  assume e': "e' < count_padded m" and eq: "addr_padded m e = addr_padded m e'"
  note e' = e' [unfolded count_padded_eq [OF wf]]
  have "pos_of (radix_digits (extents m True) e) = pos_of (radix_digits (extents m True) e')"
    by (rule off_v_dense_inj [OF dl pos_of_in_padded [OF box] pos_of_in_padded [OF digits_in_box [OF e']]])
      (use eq in \<open>simp add: addr_padded_eq [OF wf]\<close>)
  then have "radix_digits (extents m True) e = radix_digits (extents m True) e'"
    by (rule pos_of_inj [rotated]) simp
  then show "e = e'" using e e' digits_inj by blast
qed

interpretation logical: tensor_layout wf_logical count_logical addr_logical
proof
  fix m e e'
  assume wf: "wf_logical m" and e: "e < count_logical m"
    and e': "e' < count_logical m" and eq: "addr_logical m e = addr_logical m e'"
  have ins: "inside_padding m" using wf by (simp add: wf_logical_def)
  obtain perm where dl: "dense_layout m perm" using wf by (auto simp: wf_padded_def wf_logical_def)
  let ?dg = "radix_digits (extents m False)"
  note e = e [unfolded count_logical_eq [OF wf]] and e' = e' [unfolded count_logical_eq [OF wf]]
  have "shift_pos m (pos_of (?dg e)) = shift_pos m (pos_of (?dg e'))"
    by (rule off_v_dense_inj [OF dl shift_pos_in_padded [OF ins digits_in_box [OF e]]
          shift_pos_in_padded [OF ins digits_in_box [OF e']]])
      (use eq in \<open>simp add: addr_logical_eq [OF wf]\<close>)
  then have "?dg e = ?dg e'" by (rule shift_pos_inj [rotated 2]) (simp_all add: extents_def)
  then show "e = e'" using e e' digits_inj by blast
qed

end
