(* ===== verification/Memory_Api.thy ===== *)
theory Memory_Api
  imports Layout
begin

text \<open>
  The memory descriptor entry points of the C API, \<open>src/src/common/memory.cpp\<close>, and the
  descriptor builders of \<open>src/src/common/type_helpers.hpp\<close>. A pointer argument that the code
  checks for null is an option; an output parameter is an option of its new contents (None where
  the call leaves it alone), next to the returned status.
\<close>

section \<open>Creating descriptors\<close>

text \<open>A descriptor's \<open>dims\<close> are read up to \<open>ndims\<close>, which the check bounds by the array size.\<close>

definition memory_desc_sanity_check ::
  "int \<Rightarrow> dim_t carray option \<Rightarrow> data_type \<Rightarrow> format_kind \<Rightarrow> bool" where
  "memory_desc_sanity_check nd dims dt fk =
     (if nd = 0 then True
      else case dims of
          None \<Rightarrow> False
        | Some dims \<Rightarrow>
            (if \<not> (0 < nd \<and> nd \<le> int DNNL_MAX_NDIMS \<and> dt \<in> {f16, bf16, f32, s32, s8, u8} \<and> fk \<noteq> fk_undef)
             then False else all_upto (nat nd) (\<lambda>d. \<not> dims d < 0)))"

definition memory_desc_sanity_check_md :: "memory_desc option \<Rightarrow> bool" where
  "memory_desc_sanity_check_md md =
     (case md of None \<Rightarrow> False
      | Some md \<Rightarrow> memory_desc_sanity_check (md_ndims md) (Some (md_dims md)) (md_data_type md) fk_any)"

definition fresh_md :: "int \<Rightarrow> dim_t carray \<Rightarrow> data_type \<Rightarrow> format_kind \<Rightarrow> memory_desc" where
  "fresh_md nd dims dt fk =
     zero_md\<lparr>md_ndims := nd,
       md_dims := array_copy (\<lambda>_. 0) dims (nat nd),
       md_data_type := dt,
       padded_dims := array_copy (\<lambda>_. 0) dims (nat nd),
       md_format_kind := fk\<rparr>"

definition dnnl_memory_desc_init_by_tag ::
  "int \<Rightarrow> dim_t carray option \<Rightarrow> data_type \<Rightarrow> format_tag \<Rightarrow> status \<times> memory_desc option" where
  "dnnl_memory_desc_init_by_tag nd dims dt tag =
     (if nd = 0 \<or> tag = ft_undef then (success, Some zero_md)
      else
        let fk = format_tag_to_kind tag
        in if \<not> memory_desc_sanity_check nd dims dt fk then (invalid_arguments, None)
           else
             let md = fresh_md nd (the dims) dt fk;
                 (st, md) =
                   (if tag = ft_undef then (invalid_arguments, md)
                    else if tag = ft_any then (success, md)
                    else if fk = fk_blocked then compute_blocking md tag
                    else (invalid_arguments, md))
             in (st, if st = success then Some md else None))"

definition default_strides :: "memory_desc \<Rightarrow> dim_t carray" where
  "default_strides md =
     for_down (ndims md - 1) (\<lambda>d s. s(d := s (d + 1) * padded_dims md (d + 1)))
       ((\<lambda>_. 0)(ndims md - 1 := 1))"

definition dnnl_memory_desc_init_by_strides ::
  "int \<Rightarrow> dim_t carray option \<Rightarrow> data_type \<Rightarrow> dim_t carray option \<Rightarrow> status \<times> memory_desc option" where
  "dnnl_memory_desc_init_by_strides nd dims dt strides =
     (if nd = 0 then (success, Some zero_md)
      else if \<not> memory_desc_sanity_check nd dims dt fk_any then (invalid_arguments, None)
      else
        let md = fresh_md nd (the dims) dt fk_blocked;
            strides = (case strides of None \<Rightarrow> default_strides md | Some s \<Rightarrow> s)
        in (success, Some (md\<lparr>blocking := (blocking md)\<lparr>blk_strides :=
              array_copy (blk_strides (blocking md)) strides (ndims md)\<rparr>\<rparr>)))"

section \<open>Submemory\<close>

text \<open>
  The loop stops with \<open>unimplemented\<close> at the first dimension that fails, so its state is an
  option.
\<close>

definition submemory_step ::
  "memory_desc \<Rightarrow> dim_t carray \<Rightarrow> dim_t carray \<Rightarrow> dim_t carray \<Rightarrow> nat \<Rightarrow> memory_desc option \<Rightarrow> memory_desc option" where
  "submemory_step src dims offsets blocks d dst =
     (case dst of None \<Rightarrow> None
      | Some dst \<Rightarrow>
          (if \<not> (offsets d smod blocks d = 0 \<and> padded_offsets src d = 0 \<and>
                 (dims d smod blocks d = 0 \<or> dims d < blocks d))
           then None
           else
             let is_right_border = offsets d + dims d = md_dims src d;
                 dst = dst\<lparr>md_dims := (md_dims dst)(d := dims d)\<rparr>;
                 dst = dst\<lparr>padded_dims := (padded_dims dst)(d :=
                   if is_right_border then padded_dims src d - offsets d else md_dims dst d)\<rparr>;
                 dst = dst\<lparr>padded_offsets := (padded_offsets dst)(d := padded_offsets src d)\<rparr>
             in Some (dst\<lparr>offset0 := offset0 dst + offsets d sdiv blocks d * blk_strides (blocking dst) d\<rparr>)))"

definition dnnl_memory_desc_init_submemory ::
  "memory_desc option \<Rightarrow> dim_t carray \<Rightarrow> dim_t carray \<Rightarrow> status \<times> memory_desc option" where
  "dnnl_memory_desc_init_submemory parent_md dims offsets =
     (if parent_md = None \<or> \<not> memory_desc_sanity_check_md parent_md then (invalid_arguments, None)
      else
        let src = the parent_md
        in if \<not> all_upto (ndims src)
               (\<lambda>d. \<not> (dims d < 0 \<or> offsets d < 0 \<or> offsets d + dims d > md_dims src d))
           then (invalid_arguments, None)
           else if md_format_kind src \<noteq> fk_blocked then (unimplemented, None)
           else
             let blocks = compute_blocks src (\<lambda>_. 0)
             in case for_upto (ndims src) (submemory_step src dims offsets blocks) (Some src) of
                  None \<Rightarrow> (unimplemented, None)
                | Some dst \<Rightarrow> (success, Some dst))"

section \<open>Queries\<close>

text \<open>The pointer comparison \<open>lhs == rhs\<close> of the caller's arguments is a parameter.\<close>

definition dnnl_memory_desc_equal :: "bool \<Rightarrow> memory_desc option \<Rightarrow> memory_desc option \<Rightarrow> bool" where
  "dnnl_memory_desc_equal same_ptr lhs rhs =
     (if same_ptr then True
      else case (lhs, rhs) of
          (Some lhs, Some rhs) \<Rightarrow> memory_desc_eq lhs rhs
        | _ \<Rightarrow> False)"

definition dnnl_memory_desc_get_size :: "memory_desc option \<Rightarrow> int" where
  "dnnl_memory_desc_get_size md = (case md of None \<Rightarrow> 0 | Some md \<Rightarrow> md_size md)"

section \<open>Descriptor helpers\<close>

text \<open>\<open>md\<close> is a reference here: the descriptor is both read and written.\<close>

definition memory_desc_init_by_strides :: "memory_desc \<Rightarrow> dim_t carray option \<Rightarrow> status \<times> memory_desc" where
  "memory_desc_init_by_strides md strides =
     (let (st, r) = dnnl_memory_desc_init_by_strides (md_ndims md) (Some (md_dims md)) (md_data_type md) strides
      in (st, case r of None \<Rightarrow> md | Some md' \<Rightarrow> md'))"

definition memory_desc_init_by_tag ::
  "memory_desc \<Rightarrow> format_tag \<Rightarrow> dim_t carray option \<Rightarrow> status \<times> memory_desc" where
  "memory_desc_init_by_tag md tag strides =
     (let (st, r) = dnnl_memory_desc_init_by_tag (md_ndims md) (Some (md_dims md)) (md_data_type md) tag;
          md = (case r of None \<Rightarrow> md | Some md' \<Rightarrow> md')
      in case strides of
           None \<Rightarrow> (st, md)
         | Some strides \<Rightarrow>
             if st \<noteq> success then (st, md)
             else (success, md\<lparr>blocking := (blocking md)\<lparr>blk_strides :=
               for_upto (ndims md) (\<lambda>d s. s(d := strides d)) (blk_strides (blocking md))\<rparr>\<rparr>))"

text \<open>
  \<open>blk.strides\<close> give only the order of the dimensions. \<open>blocking_desc_blocks\<close> is the loop that
  collects the block factors and their product.
\<close>

definition blocking_desc_blocks :: "blocking_desc \<Rightarrow> nat \<Rightarrow> dim_t carray \<times> dim_t" where
  "blocking_desc_blocks blk nd =
     for_upto (inner_nblks blk)
       (\<lambda>iblk (blocks, block_size).
          (blocks(inner_idxs blk iblk := blocks (inner_idxs blk iblk) * inner_blks blk iblk),
           block_size * inner_blks blk iblk))
       (array_set (\<lambda>_. 0) 1 nd, 1)"

definition blocking_desc_strides ::
  "nat carray \<Rightarrow> dim_t carray \<Rightarrow> dim_t carray \<Rightarrow> nat \<Rightarrow> dim_t \<times> dim_t carray \<Rightarrow> dim_t \<times> dim_t carray" where
  "blocking_desc_strides perm padded blocks nd =
     for_down nd
       (\<lambda>k (stride, strides).
          let d = perm k in (stride * (padded d sdiv blocks d), strides(d := stride)))"

definition memory_desc_init_by_blocking_desc :: "memory_desc \<Rightarrow> blocking_desc \<Rightarrow> status \<times> memory_desc" where
  "memory_desc_init_by_blocking_desc md blk =
     (let (blocks, block_size) = blocking_desc_blocks blk (ndims md);
          padded = for_upto (ndims md) (\<lambda>d pd. pd(d := rnd_up (md_dims md d) (blocks d))) (padded_dims md);
          offs = for_upto (ndims md) (\<lambda>d po. po(d := 0)) (padded_offsets md);
          nd = nat (min (int DNNL_MAX_NDIMS) (md_ndims md));
          mstrides = array_copy (blk_strides blk) (blk_strides blk) nd;
          (sorted, perm) = simultaneous_sort stride_cmp mstrides (Some (\<lambda>d. d)) nd;
          (_, strides) = blocking_desc_strides (the perm) padded blocks nd (block_size, sorted)
      in (success,
          md\<lparr>padded_dims := padded, padded_offsets := offs, offset0 := 0,
             md_format_kind := fk_blocked,
             blocking := blk\<lparr>blk_strides := strides\<rparr>,
             extra := \<lparr>extra_flags = 0, compensation_mask = 0, scale_adjust = 0\<rparr>\<rparr>))"

definition memory_desc_matches_tag :: "memory_desc \<Rightarrow> format_tag \<Rightarrow> dim_t carray option \<Rightarrow> bool" where
  "memory_desc_matches_tag md tag strides =
     (if md_format_kind md \<noteq> format_tag_to_kind tag then False
      else case dnnl_memory_desc_init_by_tag (md_ndims md) (Some (md_dims md)) (md_data_type md) tag of
          (success, Some md_gold) \<Rightarrow>
            if md_format_kind md \<noteq> fk_blocked then False
            else
              let blk = blocking md; blk_gold = blocking md_gold;
                  same_blocks = inner_nblks blk = inner_nblks blk_gold \<and>
                    array_cmp (inner_blks blk) (inner_blks blk_gold) (inner_nblks blk) \<and>
                    array_cmp (inner_idxs blk) (inner_idxs blk_gold) (inner_nblks blk)
              in if \<not> same_blocks then False
                 else (case strides of
                     None \<Rightarrow> array_cmp (blk_strides blk) (blk_strides blk_gold) (ndims md)
                   | Some strides \<Rightarrow>
                       all_upto (ndims md)
                         (\<lambda>d. strides d = -1 \<or>
                            (let stride = (if strides d = 0 then blk_strides blk_gold d else strides d)
                             in \<not> blk_strides blk d \<noteq> stride)))
        | _ \<Rightarrow> False)"

definition memory_desc_matches_one_of_tag :: "memory_desc \<Rightarrow> format_tag list \<Rightarrow> format_tag" where
  "memory_desc_matches_one_of_tag md tags =
     (case find (\<lambda>tag. memory_desc_matches_tag md tag None) tags of
        Some tag \<Rightarrow> tag
      | None \<Rightarrow> ft_undef)"

section \<open>Descriptors made from a tag\<close>

lemma init_by_tag_cases:
  assumes "dnnl_memory_desc_init_by_tag nd dims dt (Tag name) = (success, Some md)" "nd \<noteq> 0"
  obtains perm blks ixs ds where "dims = Some ds" "0 < nd" "nd \<le> 12" "\<forall>d<nat nd. 0 \<le> ds d"
    "dt \<in> {f16, bf16, f32, s32, s8, u8}"
    "map_of blocking_table name = Some (perm, blks, ixs)"
    "fill_blocked (fresh_md nd ds dt fk_blocked) perm blks ixs = (success, md)" "nd = int (length perm)"
proof -
  have sc: "memory_desc_sanity_check nd dims dt fk_blocked"
    using assms by (auto simp: dnnl_memory_desc_init_by_tag_def split: if_splits)
  then obtain ds where ds: "dims = Some ds" "0 < nd" "nd \<le> 12" "\<forall>d<nat nd. 0 \<le> ds d"
    "dt \<in> {f16, bf16, f32, s32, s8, u8}"
    using assms(2) by (auto simp: memory_desc_sanity_check_def not_less split: option.splits if_splits)
  have "compute_blocking (fresh_md nd ds dt fk_blocked) (Tag name) = (success, md)"
    using assms sc ds(1)
    by (auto simp: dnnl_memory_desc_init_by_tag_def split: prod.splits if_splits)
  moreover have n: "md_ndims (fresh_md nd ds dt fk_blocked) = nd" by (simp add: fresh_md_def)
  ultimately obtain perm blks ixs where t: "map_of blocking_table name = Some (perm, blks, ixs)"
    "fill_blocked (fresh_md nd ds dt fk_blocked) perm blks ixs = (success, md)"
    using assms(2) by (auto simp: compute_blocking_def split: option.splits)
  moreover from t(2) n have "nd = int (length perm)" by (auto simp: fill_blocked_def split: if_splits)
  ultimately show thesis using that ds by blast
qed

lemma fill_blocked_keeps:
  "fill_blocked md perm blks ixs = (st, md') \<Longrightarrow>
    extra md' = extra md \<and> md_data_type md' = md_data_type md \<and> md_dims md' = md_dims md \<and>
    md_ndims md' = md_ndims md \<and> md_format_kind md' = md_format_kind md"
  by (auto simp: fill_blocked_def Let_def split: prod.splits if_splits)

lemma init_by_tag_dense:
  assumes "dnnl_memory_desc_init_by_tag nd (Some dims) dt (Tag name) = (success, Some md)" "nd \<noteq> 0"
    and "\<And>d. d < nat nd \<Longrightarrow> 0 < dims d"
  shows "wf_padded md" "wf_logical md" "offset0 md = 0" "md_ndims md = nd"
    "\<And>d. d < nat nd \<Longrightarrow> md_dims md d = dims d"
    "extra md = \<lparr>extra_flags = 0, compensation_mask = 0, scale_adjust = 0\<rparr>" "md_data_type md = dt"
proof -
  obtain perm blks ixs ds where ds: "Some dims = Some ds"
    and nd: "0 < nd" and t: "map_of blocking_table name = Some (perm, blks, ixs)"
    and f: "fill_blocked (fresh_md nd ds dt fk_blocked) perm blks ixs = (success, md)"
    and len: "nd = int (length perm)"
    by (rule init_by_tag_cases [OF assms(1,2)])
  from ds have [simp]: "ds = dims" by simp
  note f = f [simplified]
  note row = tag_row [OF t]
  have md0: "md_dims (fresh_md nd dims dt fk_blocked) d = dims d" if "d < nat nd" for d
    using that by (simp add: fresh_md_def array_copy_eq)
  note fb = fill_blocked_dense [OF row _ _ _ f]
  have dl: "dense_layout md perm"
    by (rule fb(2)) (use len md0 assms(3) in \<open>auto simp: fresh_md_def\<close>)
  then show wf: "wf_padded md" by (auto simp: wf_padded_def)
  show "offset0 md = 0" by (rule fb(3)) (use len md0 assms(3) in \<open>auto simp: fresh_md_def\<close>)
  show "md_ndims md = nd" using dl len by (simp add: dense_layout_def)
  have dims: "md_dims md = md_dims (fresh_md nd dims dt fk_blocked)"
    by (rule fb(4)) (use len md0 assms(3) in \<open>auto simp: fresh_md_def\<close>)
  then show d: "md_dims md d = dims d" if "d < nat nd" for d using md0 that by simp
  have "inside_padding md"
    unfolding inside_padding_def
  proof (intro allI impI)
    fix d assume "d < ndims md"
    then have d': "d < length perm" using dense_layout_ndims [OF dl] by simp
    have "padded_dims md d = rnd_up (md_dims (fresh_md nd dims dt fk_blocked) d) (dim_blocks (inner_blocks md) d)"
      by (rule fb(5)) (use len md0 assms(3) d' in \<open>auto simp: fresh_md_def\<close>)
    moreover have "padded_offsets md d = 0"
      by (rule fb(6)) (use len md0 assms(3) d' in \<open>auto simp: fresh_md_def\<close>)
    moreover have "0 < dim_blocks (inner_blocks md) d"
      using dl by (intro dim_blocks_pos [of "length perm"]) (simp add: dense_layout_def)
    moreover have "0 < dims d" using assms(3) d' len by simp
    ultimately show "0 < md_dims md d \<and> 0 \<le> padded_offsets md d \<and>
        padded_offsets md d + md_dims md d \<le> padded_dims md d"
      using rnd_up_bounds(1) [of "dims d"] d' len md0 [of d] dims by simp
  qed
  with wf show "wf_logical md" by (simp add: wf_logical_def)
  show "extra md = \<lparr>extra_flags = 0, compensation_mask = 0, scale_adjust = 0\<rparr>" "md_data_type md = dt"
    using fill_blocked_keeps [OF f] by (simp_all add: fresh_md_def zero_md_def)
qed

section \<open>Sizes\<close>

lemma compute_blocks_eq:
  assumes "is_blocking_desc md" "d < ndims md"
  shows "compute_blocks md b d = dim_blocks (inner_blocks md) d"
proof -
  let ?blk = "blocking md"
  have "for_upto n (\<lambda>iblk blocks. blocks(inner_idxs ?blk iblk :=
      blocks (inner_idxs ?blk iblk) * inner_blks ?blk iblk)) f e = f e * dim_blocks (inner_list ?blk n) e"
    for n f e
    by (induction n) (auto simp: for_range_Suc inner_list_Suc, simp add: inner_list_def)
  then show ?thesis using assms by (simp add: compute_blocks_def array_set_eq inner_blocks_def Let_def)
qed

lemma dense_stride:
  assumes "dense_strides bs N st ps" "d \<in> set ps" "\<And>d. d \<in> set ps \<Longrightarrow> 1 \<le> N d" "0 \<le> bs"
  shows "0 \<le> N d * st d \<and> N d * st d \<le> bs * prod_list (map N ps)"
  using assms
proof (induction ps)
  case (Cons p ps)
  have P: "1 \<le> prod_list (map N qs)" if "\<And>d. d \<in> set qs \<Longrightarrow> 1 \<le> N d" for qs
    using that
  proof (induction qs)
    case (Cons q qs)
    then have "1 \<le> N q" "1 \<le> prod_list (map N qs)" by auto
    then have "1 * 1 \<le> N q * prod_list (map N qs)" by (intro mult_mono) auto
    then show ?case by simp
  qed simp
  have P1: "1 \<le> prod_list (map N ps)" by (rule P) (use Cons.prems in auto)
  have "1 \<le> N p" using Cons.prems by auto
  then have Np: "0 \<le> N p" by simp
  show ?case
  proof (cases "d = p")
    case True
    then show ?thesis using Cons.prems P1 Np by (auto simp: algebra_simps intro!: mult_nonneg_nonneg)
  next
    case False
    then have "0 \<le> N d * st d \<and> N d * st d \<le> bs * prod_list (map N ps)"
      using Cons by auto
    moreover have "bs * prod_list (map N ps) * 1 \<le> bs * prod_list (map N ps) * N p"
      using Cons.prems P1 by (intro mult_left_mono) auto
    ultimately show ?thesis by (simp add: algebra_simps)
  qed
qed simp

lemma for_upto_max:
  fixes f :: "nat \<Rightarrow> int"
  assumes "\<And>d. d < n \<Longrightarrow> 0 \<le> f d \<and> f d \<le> m" "k < n" "f k = m"
  shows "for_upto n (\<lambda>d ms. max ms (f d)) 0 = m"
proof -
  have "for_upto j (\<lambda>d ms. max ms (f d)) 0 = (if k < j then m else for_upto j (\<lambda>d ms. max ms (f d)) 0) \<and>
      for_upto j (\<lambda>d ms. max ms (f d)) 0 \<le> m" if "j \<le> n" for j
    using that
  proof (induction j)
    case 0
    then show ?case using assms(1) [OF assms(2)] by simp
  next
    case (Suc j)
    then have IH: "k < j \<Longrightarrow> for_upto j (\<lambda>d ms. max ms (f d)) 0 = m"
      "for_upto j (\<lambda>d ms. max ms (f d)) 0 \<le> m" "0 \<le> f j" "f j \<le> m" using assms(1) [of j] by (auto split: if_splits)
    then show ?case using assms(3) by (auto simp: for_range_Suc less_Suc_eq max_def)
  qed
  from this [of n] assms(2) show ?thesis by simp
qed

lemma outer_extent_pos:
  "dense_layout md perm \<Longrightarrow> d < length perm \<Longrightarrow> 1 \<le> outer_extent md d"
proof -
  assume dl: "dense_layout md perm" and d: "d < length perm"
  have ok: "blocks_ok (length perm) (inner_blocks md)" using dl by (simp add: dense_layout_def)
  have "0 < padded_dims md d" "dim_blocks (inner_blocks md) d dvd padded_dims md d"
    using dl d by (auto simp: dense_layout_def)
  with dim_blocks_pos [OF ok, of d] have "0 < outer_extent md d"
    using zdvd_imp_le by (simp add: outer_extent_def pos_imp_zdiv_pos_iff)
  then show ?thesis by simp
qed

lemma dense_size:
  assumes dl: "dense_layout md perm" and off: "offset0 md = 0"
    and dims: "\<And>d. d < ndims md \<Longrightarrow> 0 < md_dims md d"
    and ext: "extra_flags (extra md) AND compensation_conv_s8s8 = 0"
    and fits: "nelems md True * int (data_type_size (md_data_type md)) < 2 ^ 64"
    and dt: "md_data_type md \<noteq> dt_undef"
  shows "md_size md = nelems md True * int (data_type_size (md_data_type md))"
proof -
  let ?N = "outer_extent md" and ?bs = "block_size md" and ?bd = "blocking md"
  let ?M = "nelems md True"
  have nd: "ndims md = length perm" using dl by (rule dense_layout_ndims)
  have blk: "is_blocking_desc md" using dl by (simp add: dense_layout_def is_blocking_desc_def)
  have ok: "blocks_ok (length perm) (inner_blocks md)" using dl by (simp add: dense_layout_def)
  have bs: "0 < ?bs" using blocks_prod_pos [OF ok] by (simp add: block_size_def)
  have N: "1 \<le> ?N d" if "d \<in> set perm" for d
    using outer_extent_pos [OF dl, of d] dl that by (auto simp: dense_layout_def)
  have perm: "set perm = {..<length perm}" "perm \<noteq> []" using dl by (auto simp: dense_layout_def)
  have M: "?M = ?bs * prod_list (map ?N perm)" by (rule dense_nelems [OF dl])
  have st: "dense_strides ?bs ?N (blk_strides ?bd) perm" using dl by (simp add: dense_layout_def)
  have term_eq: "padded_dims md d sdiv compute_blocks md (\<lambda>_. 0) d * blk_strides ?bd d = ?N d * blk_strides ?bd d"
    if "d < length perm" for d
    using that nd dim_blocks_pos [OF ok, of d] dl
    by (auto simp: compute_blocks_eq [OF blk] outer_extent_def cdiv_simps dense_layout_def less_imp_le)
  have bnd: "0 \<le> ?N d * blk_strides ?bd d \<and> ?N d * blk_strides ?bd d \<le> ?M" if "d < length perm" for d
    using dense_stride [OF st, of d] that N bs perm(1) unfolding M by auto
  have hd_eq: "?N (hd perm) * blk_strides ?bd (hd perm) = ?M"
    using st perm(2) unfolding M by (cases perm) (auto simp: algebra_simps)
  have dts: "1 \<le> int (data_type_size (md_data_type md))" using dt by (cases "md_data_type md") auto
  have M0: "0 \<le> ?M" using bnd [of "hd perm"] hd_eq perm by (metis hd_in_set lessThan_iff)
  have Mlt: "?M < 2 ^ 64"
  proof -
    have "?M * 1 \<le> ?M * int (data_type_size (md_data_type md))" using M0 dts by (intro mult_left_mono) auto
    then show ?thesis using fits by simp
  qed
  have size_id: "size_t x = x" if "0 \<le> x" "x \<le> ?M" for x using that Mlt by (simp add: size_t_def)
  have a: "for_upto (ndims md) (\<lambda>d ms. max ms (size_t (padded_dims md d sdiv compute_blocks md (\<lambda>_. 0) d * blk_strides ?bd d))) 0 = ?M"
  proof (rule for_upto_max)
    show "0 \<le> size_t (padded_dims md d sdiv compute_blocks md (\<lambda>_. 0) d * blk_strides ?bd d) \<and>
        size_t (padded_dims md d sdiv compute_blocks md (\<lambda>_. 0) d * blk_strides ?bd d) \<le> ?M"
      if "d < ndims md" for d
      using that bnd [of d] size_id by (simp add: nd term_eq)
    show h: "hd perm < ndims md" using perm nd by (metis hd_in_set lessThan_iff)
    show "size_t (padded_dims md (hd perm) sdiv compute_blocks md (\<lambda>_. 0) (hd perm) * blk_strides ?bd (hd perm)) = ?M"
      using h by (simp add: nd term_eq hd_eq size_id [OF M0])
  qed
  have b: "(if ?M = 1 \<and> inner_nblks ?bd \<noteq> 0 then size_t (array_product (inner_blks ?bd) (inner_nblks ?bd)) else ?M) = ?M"
  proof (cases "?M = 1")
    case True
    have "array_product (inner_blks ?bd) n = prod_list (map snd (inner_list ?bd n))" for n
      by (induction n) (simp_all add: inner_list_Suc, simp add: inner_list_def)
    then have "array_product (inner_blks ?bd) (inner_nblks ?bd) = ?bs" by (simp add: block_size_def inner_blocks_def)
    moreover have "?bs = 1"
      using True bs unfolding M by (simp add: pos_zmult_eq_1_iff)
    ultimately show ?thesis using True by (simp add: size_t_def)
  qed simp
  have "\<not> has_zero_dim md"
    using array_product_pos [of "ndims md" "md_dims md"] dims perm(2) dl
    by (auto simp: has_zero_dim_def nelems_def is_zero_def dense_layout_def)
  moreover have "size_t (?M * int (data_type_size (md_data_type md))) = ?M * int (data_type_size (md_data_type md))"
    using fits M0 by (simp add: size_t_def)
  ultimately show ?thesis
    using dl off ext perm(2) unfolding md_size_def Let_def a b
    by (simp add: is_zero_def dense_layout_def additional_buffer_size_def)
qed

section \<open>Submemory\<close>

lemma submemory_step_None [simp]: "submemory_step src dims offsets blocks d None = None"
  by (simp add: submemory_step_def)

lemma submemory_loop:
  assumes "for_upto n (submemory_step src dims offsets blocks) (Some src) = Some dst"
  shows "md_ndims dst = md_ndims src \<and> blocking dst = blocking src \<and>
    offset0 dst = offset0 src + (\<Sum>d<n. offsets d sdiv blocks d * blk_strides (blocking src) d) \<and>
    (\<forall>d<n. offsets d smod blocks d = 0 \<and> padded_offsets src d = 0 \<and> padded_offsets dst d = 0 \<and>
       md_dims dst d = dims d \<and>
       padded_dims dst d = (if offsets d + dims d = md_dims src d then padded_dims src d - offsets d else dims d))"
  using assms
proof (induction n arbitrary: dst)
  case (Suc n)
  from Suc.prems obtain d0 where d0: "for_upto n (submemory_step src dims offsets blocks) (Some src) = Some d0"
    and st: "submemory_step src dims offsets blocks n (Some d0) = Some dst"
    by (cases "for_upto n (submemory_step src dims offsets blocks) (Some src)")
      (simp_all add: for_range_Suc)
  from st have c: "offsets n smod blocks n = 0" "padded_offsets src n = 0"
    "dst = d0\<lparr>md_dims := (md_dims d0)(n := dims n),
       padded_dims := (padded_dims d0)(n := if offsets n + dims n = md_dims src n then padded_dims src n - offsets n else dims n),
       padded_offsets := (padded_offsets d0)(n := padded_offsets src n),
       offset0 := offset0 d0 + offsets n sdiv blocks n * blk_strides (blocking d0) n\<rparr>"
    by (auto simp: submemory_step_def Let_def split: if_splits)
  note IH = Suc.IH [OF d0]
  then have "offset0 dst = offset0 src + (\<Sum>d<Suc n. offsets d sdiv blocks d * blk_strides (blocking src) d)"
    "md_ndims dst = md_ndims src" "blocking dst = blocking src"
    by (simp_all add: c(3))
  moreover have "offsets d smod blocks d = 0 \<and> padded_offsets src d = 0 \<and> padded_offsets dst d = 0 \<and>
       md_dims dst d = dims d \<and>
       padded_dims dst d = (if offsets d + dims d = md_dims src d then padded_dims src d - offsets d else dims d)"
    if "d < Suc n" for d
  proof (cases "d = n")
    case True
    then show ?thesis using c(1,2) by (simp add: c(3))
  next
    case False
    then show ?thesis using IH that by (simp add: c(3))
  qed
  ultimately show ?case by blast
qed simp

lemma submemory_offsets:
  assumes sub: "dnnl_memory_desc_init_submemory (Some src) dims offsets = (success, Some dst)"
    and ok: "blocks_ok (ndims src) (inner_blocks src)" and pos: "\<And>d. d < ndims src \<Longrightarrow> 0 \<le> pos d"
  shows "off_v dst pos False = off_v src (\<lambda>d. pos d + offsets d) False"
proof -
  let ?B = "compute_blocks src (\<lambda>_. 0)" and ?nd = "ndims src" and ?L = "inner_blocks src"
  have kind: "is_blocking_desc src" and off: "\<And>d. d < ?nd \<Longrightarrow> 0 \<le> offsets d"
    and loop: "for_upto ?nd (submemory_step src dims offsets ?B) (Some src) = Some dst"
    using sub unfolding dnnl_memory_desc_init_submemory_def Let_def option.sel
    by (simp_all add: is_blocking_desc_def not_less split: if_splits option.splits)
      (metis linorder_not_le)
  note L = submemory_loop [OF loop]
  have nd: "ndims dst = ?nd" and bl: "inner_blocks dst = ?L"
    using L by (auto simp: ndims_def inner_blocks_def)
  define q where "q d = (if d < ?nd then pos d else 0)" for d
  define sh where "sh d = (if d < ?nd then offsets d else 0)" for d
  have B: "?B d = dim_blocks ?L d" if "d < ?nd" for d using compute_blocks_eq [OF kind that] .
  have Bpos: "0 < dim_blocks ?L d" for d using dim_blocks_pos [OF ok] .
  have dv: "dim_blocks ?L d dvd sh d" for d
    using L off [of d] Bpos [of d] by (auto simp: sh_def B cdiv_simps less_imp_le mod_0_imp_dvd)
  have s1: "shift_pos dst pos = q" using L nd by (auto simp: shift_pos_def q_def fun_eq_iff)
  have s2: "shift_pos src (\<lambda>d. pos d + offsets d) = (\<lambda>d. q d + sh d)"
    using L by (auto simp: shift_pos_def q_def sh_def fun_eq_iff)
  have "off_v dst q True = offset0 dst + snd (inner_fold ?L q) +
      (\<Sum>d<?nd. fst (inner_fold ?L q) d * blk_strides (blocking dst) d)"
    using off_v_eq [of ?nd dst q] ok pos nd bl by (auto simp: q_def)
  also have "\<dots> = offset0 src + snd (inner_fold ?L q) +
      (\<Sum>d<?nd. (q d div dim_blocks ?L d + sh d div dim_blocks ?L d) * blk_strides (blocking src) d)"
  proof -
    have "(\<Sum>d<?nd. offsets d sdiv ?B d * blk_strides (blocking src) d) =
        (\<Sum>d<?nd. sh d div dim_blocks ?L d * blk_strides (blocking src) d)"
      using off Bpos by (intro sum.cong) (auto simp: B sh_def cdiv_simps less_imp_le)
    then show ?thesis using L
      by (simp add: inner_fold_pos [OF ok] distrib_right sum.distrib)
  qed
  also have "\<dots> = off_v src (\<lambda>d. q d + sh d) True"
  proof -
    have "off_v src (\<lambda>d. q d + sh d) True = offset0 src + snd (inner_fold ?L (\<lambda>d. q d + sh d)) +
        (\<Sum>d<?nd. fst (inner_fold ?L (\<lambda>d. q d + sh d)) d * blk_strides (blocking src) d)"
      by (rule off_v_eq [OF ok]) (use pos off in \<open>auto simp: q_def sh_def\<close>)
    also have "snd (inner_fold ?L (\<lambda>d. q d + sh d)) = snd (inner_fold ?L q)"
      by (rule inner_fold_shift [OF ok dv])
    also have "(\<Sum>d<?nd. fst (inner_fold ?L (\<lambda>d. q d + sh d)) d * blk_strides (blocking src) d) =
        (\<Sum>d<?nd. (q d div dim_blocks ?L d + sh d div dim_blocks ?L d) * blk_strides (blocking src) d)"
      by (simp add: inner_fold_pos [OF ok] div_plus_div_distrib_dvd_right [OF dv])
    finally show ?thesis by simp
  qed
  finally show ?thesis unfolding off_v_shift s1 s2 .
qed

section \<open>Blocking given by a descriptor\<close>

lemma blocking_desc_blocks_eq:
  "blocking_desc_blocks blk nd = (blocks, bs) \<Longrightarrow>
    (\<forall>d<nd. blocks d = dim_blocks (inner_list blk (inner_nblks blk)) d) \<and>
    bs = prod_list (map snd (inner_list blk (inner_nblks blk)))"
proof -
  let ?st = "\<lambda>n f. for_upto n (\<lambda>iblk (blocks, block_size).
          (blocks(inner_idxs blk iblk := blocks (inner_idxs blk iblk) * inner_blks blk iblk),
           block_size * inner_blks blk iblk)) (f, 1)"
  have "snd (?st n f) = prod_list (map snd (inner_list blk n)) \<and>
      fst (?st n f) d = f d * dim_blocks (inner_list blk n) d" for n f d
    by (induction n) (auto simp: for_range_Suc inner_list_Suc split_beta, simp_all add: inner_list_def)
  note st = this [of "inner_nblks blk" "array_set (\<lambda>_. 0) 1 nd"]
  assume "blocking_desc_blocks blk nd = (blocks, bs)"
  then have "?st (inner_nblks blk) (array_set (\<lambda>_. 0) 1 nd) = (blocks, bs)"
    by (simp only: blocking_desc_blocks_def)
  with st show ?thesis by (simp add: array_set_eq)
qed

lemma blocking_desc_strides_dense:
  assumes "inj_on perm {..<n}" "\<And>k. k < n \<Longrightarrow> padded (perm k) sdiv blocks (perm k) = N (perm k)"
  shows "\<exists>s st'. blocking_desc_strides perm padded blocks n (bs * prod_list (map N ps), st) = (s, st') \<and>
    (\<forall>d. d \<notin> perm ` {..<n} \<longrightarrow> st' d = st d) \<and>
    (dense_strides bs N st ps \<and> set ps \<inter> perm ` {..<n} = {} \<longrightarrow>
       dense_strides bs N st' (map perm [0..<n] @ ps))"
  using assms
proof (induction n arbitrary: ps st)
  case 0
  then show ?case by (simp add: blocking_desc_strides_def)
next
  case (Suc n)
  let ?s = "bs * prod_list (map N ps)"
  have inj: "inj_on perm {..<n}" using Suc.prems(1) by (rule inj_on_subset) auto
  have fresh: "perm n \<notin> perm ` {..<n}" by (auto dest: inj_onD [OF Suc.prems(1)])
  have step: "blocking_desc_strides perm padded blocks (Suc n) (?s, st) =
      blocking_desc_strides perm padded blocks n (bs * prod_list (map N (perm n # ps)), st(perm n := ?s))"
    using Suc.prems(2) [of n] by (simp add: blocking_desc_strides_def for_down_Suc Let_def algebra_simps)
  let ?st = "st(perm n := ?s)"
  have "\<exists>s st'. blocking_desc_strides perm padded blocks n (bs * prod_list (map N (perm n # ps)), ?st) = (s, st') \<and>
    (\<forall>d. d \<notin> perm ` {..<n} \<longrightarrow> st' d = ?st d) \<and>
    (dense_strides bs N ?st (perm n # ps) \<and> set (perm n # ps) \<inter> perm ` {..<n} = {} \<longrightarrow>
       dense_strides bs N st' (map perm [0..<n] @ perm n # ps))"
    by (rule Suc.IH [OF inj]) (use Suc.prems(2) in auto)
  then obtain s st' where IH: "blocking_desc_strides perm padded blocks n
        (bs * prod_list (map N (perm n # ps)), ?st) = (s, st')"
    "\<forall>d. d \<notin> perm ` {..<n} \<longrightarrow> st' d = ?st d"
    "dense_strides bs N ?st (perm n # ps) \<and> set (perm n # ps) \<inter> perm ` {..<n} = {} \<longrightarrow>
       dense_strides bs N st' (map perm [0..<n] @ perm n # ps)"
    by blast
  have cong: "dense_strides bs N (st(perm n := v)) ps" if "dense_strides bs N st ps" "perm n \<notin> set ps" for v ps
    using that by (induction ps) auto
  show ?case
    unfolding step IH(1)
    using IH(2,3) cong fresh by (auto simp: lessThan_Suc)
qed

lemma sorted_perm:
  assumes "simultaneous_sort stride_cmp vals (Some (\<lambda>d. d)) n = (v, Some perm)"
  shows "inj_on perm {..<n}" "perm ` {..<n} = {..<n}"
    "\<And>a b. a < b \<Longrightarrow> b < n \<Longrightarrow> vals (perm b) \<le> vals (perm a)"
proof -
  have "rearranges n (vals, Some (\<lambda>d. d)) (v, Some perm)"
    using simultaneous_sort_rearranges [of n vals "Some (\<lambda>d. d)" stride_cmp] assms by simp
  then obtain \<pi> where b: "bij \<pi>" "\<forall>i\<ge>n. \<pi> i = i" "v = vals \<circ> \<pi>" "perm = \<pi>"
    by (auto simp: rearranges_def comp_def)
  show "inj_on perm {..<n}" using b(1,4) by (auto simp: bij_def intro: inj_on_subset)
  show "perm ` {..<n} = {..<n}"
  proof (rule card_subset_eq)
    show "perm ` {..<n} \<subseteq> {..<n}"
    proof
      fix y assume "y \<in> perm ` {..<n}"
      then obtain x where x: "x < n" "y = \<pi> x" using b(4) by auto
      show "y \<in> {..<n}"
      proof (rule ccontr)
        assume "y \<notin> {..<n}"
        then have "\<pi> y = \<pi> x" using b(2) x(2) by auto
        then have "y = x" using b(1) by (auto simp: bij_def inj_on_def)
        with x(1) \<open>y \<notin> {..<n}\<close> show False by simp
      qed
    qed
    show "card (perm ` {..<n}) = card {..<n}"
      using \<open>inj_on perm {..<n}\<close> by (rule card_image)
  qed simp
  show "vals (perm b) \<le> vals (perm a)" if "a < b" "b < n" for a b
    using stride_order.simultaneous_sort_sorts [OF that, of vals "Some (\<lambda>d. d)"] assms b(3,4)
    by (simp add: stride_cmp_def)
qed

lemma init_by_blocking_desc_dense:
  assumes nd: "0 < md_ndims md" "md_ndims md \<le> 12"
    and ok: "blocks_ok (ndims md) (inner_list blk (inner_nblks blk))"
    and dims: "\<And>d. d < ndims md \<Longrightarrow> 0 < md_dims md d"
    and res: "memory_desc_init_by_blocking_desc md blk = (st, md')"
  shows "\<exists>perm. dense_layout md' perm \<and> inside_padding md' \<and> offset0 md' = 0 \<and>
    (\<forall>a b. a < b \<and> b < ndims md \<longrightarrow> blk_strides blk (perm ! b) \<le> blk_strides blk (perm ! a))"
proof -
  let ?nd = "ndims md" and ?L = "inner_list blk (inner_nblks blk)"
  obtain blocks bs where bb: "blocking_desc_blocks blk ?nd = (blocks, bs)" by force
  have B: "\<And>d. d < ?nd \<Longrightarrow> blocks d = dim_blocks ?L d" and bs: "bs = prod_list (map snd ?L)"
    using blocking_desc_blocks_eq [OF bb] by auto
  have n12: "nat (min (int DNNL_MAX_NDIMS) (md_ndims md)) = ?nd" using nd by (simp add: ndims_def)
  let ?ms = "array_copy (blk_strides blk) (blk_strides blk) ?nd"
  have ms: "?ms = blk_strides blk" by (auto simp: array_copy_eq)
  obtain v k where srt0: "simultaneous_sort stride_cmp (blk_strides blk) (Some (\<lambda>d. d)) ?nd = (v, k)" by force
  then obtain perm where srt: "simultaneous_sort stride_cmp (blk_strides blk) (Some (\<lambda>d. d)) ?nd = (v, Some perm)"
    using simultaneous_sort_rearranges [of ?nd "blk_strides blk" "Some (\<lambda>d. d)" stride_cmp]
    by (auto simp: rearranges_def)
  note sp = sorted_perm [OF srt]
  let ?padded = "for_upto ?nd (\<lambda>d pd. pd(d := rnd_up (md_dims md d) (blocks d))) (padded_dims md)"
  define N where "N d = ?padded d div dim_blocks ?L d" for d
  have Bpos: "0 < dim_blocks ?L d" for d using dim_blocks_pos [OF ok] .
  have pd: "?padded d = rnd_up (md_dims md d) (dim_blocks ?L d)" if "d < ?nd" for d
    using that by (simp add: for_range_write B)
  have pos: "0 < ?padded d" "dim_blocks ?L d dvd ?padded d" "md_dims md d \<le> ?padded d" if "d < ?nd" for d
    using pd [OF that] rnd_up_pos [OF dims [OF that] Bpos [of d]] rnd_up_dvd
      rnd_up_bounds(1) [OF less_imp_le [OF dims [OF that]] Bpos [of d]] by simp_all
  have div_eq: "?padded (perm k) sdiv blocks (perm k) = N (perm k)" if "k < ?nd" for k
  proof -
    have "perm k < ?nd" using sp(2) that by auto
    then show ?thesis using pos(1) [of "perm k"] Bpos [of "perm k"] by (simp add: N_def B cdiv_simps less_imp_le)
  qed
  obtain s st' where S: "blocking_desc_strides perm ?padded blocks ?nd (bs, v) = (s, st')"
    "dense_strides bs N st' (map perm [0..<?nd])"
    using blocking_desc_strides_dense [of perm ?nd ?padded blocks N bs "[]" v, OF sp(1) div_eq] by auto
  have md': "md' = md\<lparr>padded_dims := ?padded, padded_offsets := for_upto ?nd (\<lambda>d po. po(d := 0)) (padded_offsets md),
      offset0 := 0, md_format_kind := fk_blocked, blocking := blk\<lparr>blk_strides := st'\<rparr>,
      extra := \<lparr>extra_flags = 0, compensation_mask = 0, scale_adjust = 0\<rparr>\<rparr>"
    using res unfolding memory_desc_init_by_blocking_desc_def bb Let_def split_conv n12 ms srt option.sel S(1) by simp
  have L': "inner_blocks md' = ?L" by (simp add: md' inner_blocks_def inner_list_def)
  have oe: "outer_extent md' = N" by (simp only: fun_eq_iff outer_extent_def L' N_def) (simp add: md')
  have bsz: "block_size md' = bs" by (simp add: block_size_def L' bs)
  let ?perm = "map perm [0..<?nd]"
  have "dense_layout md' ?perm"
    unfolding dense_layout_def L' oe bsz
  proof (intro conjI)
    show "distinct ?perm" using sp(1) by (simp add: distinct_map atLeast0LessThan)
    show "set ?perm = {..<length ?perm}" using sp(2) by (simp add: atLeast0LessThan)
    show "\<forall>d<length ?perm. 0 < padded_dims md' d \<and> dim_blocks ?L d dvd padded_dims md' d"
      using pos(1,2) by (simp add: md')
    show "dense_strides bs N (blk_strides (blocking md')) ?perm" using S(2) by (simp add: md')
  qed (use nd ok in \<open>auto simp: md' ndims_def\<close>)
  moreover have "inside_padding md'"
    using dims pos(3) by (auto simp: inside_padding_def md' ndims_def for_range_write)
  moreover have "blk_strides blk (?perm ! b) \<le> blk_strides blk (?perm ! a)" if "a < b" "b < ?nd" for a b
    using sp(3) [OF that] that by simp
  ultimately show ?thesis by (intro exI [of _ ?perm]) (auto simp: md')
qed

section \<open>Equal descriptors\<close>

lemma off_v_cong:
  assumes "ndims a = ndims b" "offset0 a = offset0 b"
    "blocking_desc_is_equal (blocking a) (blocking b) (ndims a)"
    "\<And>d. d < ndims a \<Longrightarrow> padded_offsets a d = padded_offsets b d"
  shows "off_v a pos pd = off_v b pos pd"
proof -
  have e: "inner_nblks (blocking a) = inner_nblks (blocking b)"
    "\<And>i. i < inner_nblks (blocking b) \<Longrightarrow> inner_blks (blocking a) i = inner_blks (blocking b) i"
    "\<And>i. i < inner_nblks (blocking b) \<Longrightarrow> inner_idxs (blocking a) i = inner_idxs (blocking b) i"
    "\<And>d. d < ndims a \<Longrightarrow> blk_strides (blocking a) d = blk_strides (blocking b) d"
    using assms(3) by (auto simp: blocking_desc_is_equal_def array_cmp_iff)
  have 1: "for_upto (ndims a) (\<lambda>d c. c(d := pos d + (if pd then 0 else padded_offsets a d))) (\<lambda>_. 0) =
      for_upto (ndims b) (\<lambda>d c. c(d := pos d + (if pd then 0 else padded_offsets b d))) (\<lambda>_. 0)"
    using assms(4) by (auto simp: for_range_write assms(1) fun_eq_iff)
  have 2: "for_down (inner_nblks (blocking b)) (off_v_block (blocking a)) x =
      for_down (inner_nblks (blocking b)) (off_v_block (blocking b)) x" for x
  proof (rule for_down_cong)
    fix i s assume i: "i < inner_nblks (blocking b)"
    show "off_v_block (blocking a) i s = off_v_block (blocking b) i s"
      unfolding off_v_block_def e(2) [OF i] e(3) [OF i] ..
  qed
  have 3: "for_upto (ndims a) (\<lambda>d off. off + q d * blk_strides (blocking a) d) x =
      for_upto (ndims b) (\<lambda>d off. off + q d * blk_strides (blocking b) d) x" for q x
    using e(4) by (simp add: for_upto_sum assms(1))
  show ?thesis unfolding off_v_def Let_def 1 2 3 e(1) assms(2) ..
qed

lemma compute_blocks_cong:
  assumes "ndims a = ndims b" "md_format_kind a = md_format_kind b"
    "blocking_desc_is_equal (blocking a) (blocking b) n"
  shows "compute_blocks a f = compute_blocks b f"
proof -
  have e: "inner_nblks (blocking a) = inner_nblks (blocking b)"
    "\<And>i. i < inner_nblks (blocking b) \<Longrightarrow> inner_blks (blocking a) i = inner_blks (blocking b) i"
    "\<And>i. i < inner_nblks (blocking b) \<Longrightarrow> inner_idxs (blocking a) i = inner_idxs (blocking b) i"
    using assms(3) by (auto simp: blocking_desc_is_equal_def array_cmp_iff)
  show ?thesis
    unfolding compute_blocks_def Let_def is_blocking_desc_def assms(1,2) e(1)
    by (intro if_cong refl for_range_cong) (simp add: e(2,3))
qed

lemma nelems_cong:
  "md_ndims a = md_ndims b \<Longrightarrow> (\<And>d. d < ndims a \<Longrightarrow> md_dims a d = md_dims b d) \<Longrightarrow>
    (\<And>d. d < ndims a \<Longrightarrow> padded_dims a d = padded_dims b d) \<Longrightarrow> nelems a p = nelems b p"
  by (auto simp: nelems_def is_zero_def ndims_def intro!: array_product_cong)

lemma additional_buffer_size_cong:
  assumes "memory_desc_base_equal a b" "memory_extra_desc_is_equal (extra a) (extra b)"
  shows "additional_buffer_size a = additional_buffer_size b"
proof -
  have nd: "ndims a = ndims b" and pd: "\<And>d. d < ndims b \<Longrightarrow> padded_dims a d = padded_dims b d"
    using assms(1) by (auto simp: memory_desc_base_equal_def array_cmp_iff ndims_def)
  have fl: "extra_flags (extra a) = extra_flags (extra b)"
    and m: "extra_flags (extra b) AND compensation_conv_s8s8 \<noteq> 0 \<Longrightarrow>
      compensation_mask (extra a) = compensation_mask (extra b)"
    using assms(2) by (auto simp: memory_extra_desc_is_equal_def)
  have "for_upto (ndims b) (\<lambda>d prod. if bit cm d then prod * padded_dims a d else prod) 1 =
      for_upto (ndims b) (\<lambda>d prod. if bit cm d then prod * padded_dims b d else prod) (1::int)" for cm :: u32
    by (rule for_range_cong) (simp add: pd)
  then show ?thesis
    using m by (simp add: additional_buffer_size_def additional_buffer_data_size_def fl nd Let_def)
qed

lemma blocked_size_cong:
  assumes eq: "memory_desc_eq a b" and nd: "md_ndims a \<noteq> 0" and kind: "md_format_kind a = fk_blocked"
  shows "md_size a = md_size b"
proof -
  have base: "memory_desc_base_equal a b" and ex: "memory_extra_desc_is_equal (extra a) (extra b)"
    and fd: "blocking_desc_is_equal (blocking a) (blocking b) (ndims a)"
    using eq nd kind by (auto simp: memory_desc_eq_iff format_desc_is_equal_def ndims_def)
  have b: "md_ndims a = md_ndims b" "md_data_type a = md_data_type b" "offset0 a = offset0 b"
    "md_format_kind a = md_format_kind b" "ndims a = ndims b"
    "\<And>d. d < ndims b \<Longrightarrow> md_dims a d = md_dims b d" "\<And>d. d < ndims b \<Longrightarrow> padded_dims a d = padded_dims b d"
    using base by (auto simp: memory_desc_base_equal_def array_cmp_iff ndims_def)
  have e: "inner_nblks (blocking a) = inner_nblks (blocking b)"
    "\<And>i. i < inner_nblks (blocking b) \<Longrightarrow> inner_blks (blocking a) i = inner_blks (blocking b) i"
    "\<And>d. d < ndims b \<Longrightarrow> blk_strides (blocking a) d = blk_strides (blocking b) d"
    using fd b(5) by (auto simp: blocking_desc_is_equal_def array_cmp_iff)
  have cb: "compute_blocks a f = compute_blocks b f" for f by (rule compute_blocks_cong [OF b(5,4) fd])
  have ne: "nelems a p = nelems b p" for p using b by (intro nelems_cong) auto
  have mx: "for_upto (ndims b) (\<lambda>d ms. max ms (size_t (padded_dims a d sdiv compute_blocks b f d * blk_strides (blocking a) d))) 0 =
      for_upto (ndims b) (\<lambda>d ms. max ms (size_t (padded_dims b d sdiv compute_blocks b f d * blk_strides (blocking b) d))) 0" for f
    by (rule for_range_cong) (simp add: b(7) e(3))
  have ap: "array_product (inner_blks (blocking a)) (inner_nblks (blocking b)) =
      array_product (inner_blks (blocking b)) (inner_nblks (blocking b))"
    by (rule array_product_cong) (rule e(2))
  show ?thesis
    unfolding md_size_def Let_def is_zero_def has_zero_dim_def ne cb b(1,2,3,4,5) e(1) mx ap
      additional_buffer_size_cong [OF base ex]
    using kind b(4) by simp
qed

lemma md_size_nonneg: "0 \<le> md_size md"
  by (simp add: md_size_def Let_def size_t_def)

lemma init_by_tag_iff:
  assumes "nd \<noteq> 0"
  shows "fst (dnnl_memory_desc_init_by_tag nd dims dt (Tag name)) = success \<longleftrightarrow>
    (\<exists>ds perm blks ixs. dims = Some ds \<and> 0 < nd \<and> nd \<le> 12 \<and> dt \<noteq> dt_undef \<and>
       (\<forall>d<nat nd. 0 \<le> ds d) \<and> map_of blocking_table name = Some (perm, blks, ixs) \<and>
       nd = int (length perm))"
    (is "?l \<longleftrightarrow> ?r")
proof
  assume ?l
  then obtain r where r: "dnnl_memory_desc_init_by_tag nd dims dt (Tag name) = (success, r)" by (metis prod.collapse)
  then obtain md where "r = Some md"
    using assms by (auto simp: dnnl_memory_desc_init_by_tag_def Let_def split: if_splits prod.splits)
  with r have "dnnl_memory_desc_init_by_tag nd dims dt (Tag name) = (success, Some md)" by simp
  then show ?r by (rule init_by_tag_cases [OF _ assms]) auto
next
  assume ?r
  then obtain ds perm blks ixs where a: "dims = Some ds" "0 < nd" "nd \<le> 12" "dt \<noteq> dt_undef"
    "\<forall>d<nat nd. 0 \<le> ds d" "map_of blocking_table name = Some (perm, blks, ixs)" "nd = int (length perm)"
    by blast
  have sc: "memory_desc_sanity_check nd (Some ds) dt fk_blocked"
    using a(2-5) by (cases dt) (auto simp: memory_desc_sanity_check_def not_less)
  have "fst (fill_blocked (fresh_md nd ds dt fk_blocked) perm blks ixs) = success"
    using tag_row [OF a(6)] a(7)
    by (auto simp: fill_blocked_def fresh_md_def tag_row_ok_def Let_def split: prod.splits)
  moreover have "md_ndims (fresh_md nd ds dt fk_blocked) \<noteq> 0" using assms by (simp add: fresh_md_def)
  ultimately have "fst (compute_blocking (fresh_md nd ds dt fk_blocked) (Tag name)) = success"
    using a(6) by (simp add: compute_blocking_def)
  then show ?l using assms sc a(1)
    by (auto simp: dnnl_memory_desc_init_by_tag_def Let_def split: prod.splits)
qed

lemma init_by_tag_some:
  assumes "nd \<noteq> 0" "fst (dnnl_memory_desc_init_by_tag nd dims dt (Tag name)) = success"
  obtains md where "dnnl_memory_desc_init_by_tag nd dims dt (Tag name) = (success, Some md)"
  using assms by (auto simp: dnnl_memory_desc_init_by_tag_def Let_def split: if_splits prod.splits)

text \<open>The descriptor the witnesses below use: 2 x 17 x 3 x 5 in blocks of 16 channels.\<close>

lemma nChw16c_example:
  obtains md where "dnnl_memory_desc_init_by_tag 4 (Some (arr [2, 17, 3, 5])) f32 (Tag ''aBcd16b'') = (success, Some md)"
    "ndims md = 4" "padded_dims md 1 = 32" "nelems md True = 960"
proof -
  have row: "map_of blocking_table ''aBcd16b'' = Some ([0, 1, 2, 3], [16], [1])"
    by (simp add: blocking_table_def)
  have "\<forall>d<nat 4. 0 \<le> arr [2, 17, 3, 5::int] d" by (auto simp: less_Suc_eq numeral_eq_Suc)
  then have "fst (dnnl_memory_desc_init_by_tag 4 (Some (arr [2, 17, 3, 5])) f32 (Tag ''aBcd16b'')) = success"
    using row by (subst init_by_tag_iff) auto
  then obtain md where md: "dnnl_memory_desc_init_by_tag 4 (Some (arr [2, 17, 3, 5])) f32 (Tag ''aBcd16b'') = (success, Some md)"
    by (rule init_by_tag_some [rotated]) simp_all
  obtain ds perm blks ixs where c: "Some (arr [2, 17, 3, 5::int]) = Some ds"
    "map_of blocking_table ''aBcd16b'' = Some (perm, blks, ixs)"
    and f: "fill_blocked (fresh_md 4 ds f32 fk_blocked) perm blks ixs = (success, md)"
    by (rule init_by_tag_cases [OF md]) simp_all
  have fb: "fill_blocked (fresh_md 4 (arr [2, 17, 3, 5]) f32 fk_blocked) [0, 1, 2, 3] [16] [1] = (success, md)"
    using c f unfolding row option.inject prod.inject by blast
  have nd: "md_ndims md = 4" using fill_blocked_keeps [OF fb] by (simp add: fresh_md_def)
  then have nd': "ndims md = 4" by (simp add: ndims_def)
  have p: "padded_dims md d = rnd_up (arr [2, 17, 3, 5] d) (if d = 1 then 16 else 1)" if "d < 4" for d
    using fb that by (auto simp: fill_blocked_def fresh_md_def ndims_def Let_def fill_blocks_def array_set_eq
        array_copy_eq for_range_write split: prod.splits if_splits)
  have p': "padded_dims md 0 = 2" "padded_dims md (Suc 0) = 32" "padded_dims md 2 = 3" "padded_dims md 3 = 5"
    using p [of 0] p [of 1] p [of 2] p [of 3] by (simp_all add: rnd_up_def div_up_def cdiv_simps)
  have "nelems md True = 960"
    by (simp add: nelems_def is_zero_def nd nd' array_product_eq p' numeral_eq_Suc)
      (use p' in \<open>simp add: numeral_eq_Suc\<close>)
  then show thesis using that md nd' p'(2) by simp
qed

lemma nChw16c_pos: "d < nat 4 \<Longrightarrow> 0 < arr [2, 17, 3, 5::int] d"
  by (auto simp: less_Suc_eq numeral_eq_Suc)

section \<open>Properties\<close>

text \<open>
  C1: a descriptor made from any of the format tags, for a tensor without empty dimensions,
  numbers the padded elements one to one with the offsets \<open>0, 1, \<dots>, nelems(true) - 1\<close>.
\<close>

theorem init_by_tag_bijective:
  assumes "dnnl_memory_desc_init_by_tag nd (Some dims) dt (Tag name) = (success, Some md)"
    and "nd \<noteq> 0" and "\<And>d. d < nat nd \<Longrightarrow> 0 < dims d"
  shows "bij_betw (\<lambda>e. off_l md (int e) True) {..<nat (nelems md True)} {0..<int (nat (nelems md True))}"
  using padded.addr_bij [of md] init_by_tag_dense(1,3) [OF assms]
  by (simp add: addr_padded_def [abs_def] count_padded_def)

theorem init_by_tag_bijective_witness:
  "\<exists>md. dnnl_memory_desc_init_by_tag 4 (Some (arr [2, 17, 3, 5])) f32 (Tag ''aBcd16b'') = (success, Some md) \<and>
     bij_betw (\<lambda>e. off_l md (int e) True) {..<nat (nelems md True)} {0..<int (nat (nelems md True))}"
proof -
  obtain md where md: "dnnl_memory_desc_init_by_tag 4 (Some (arr [2, 17, 3, 5])) f32 (Tag ''aBcd16b'') = (success, Some md)"
    by (rule nChw16c_example)
  then show ?thesis using init_by_tag_bijective [OF md _ nChw16c_pos] by auto
qed

text \<open>
  C31: the size such a descriptor reports is the number of padded elements times the size of
  an element, as long as that number fits \<open>size_t\<close>; hence it is dense with padding.
\<close>

theorem init_by_tag_size:
  assumes "dnnl_memory_desc_init_by_tag nd (Some dims) dt (Tag name) = (success, Some md)"
    and "nd \<noteq> 0" and "\<And>d. d < nat nd \<Longrightarrow> 0 < dims d"
    and "nelems md True * int (data_type_size dt) < 2 ^ 64"
  shows "dnnl_memory_desc_get_size (Some md) = nelems md True * int (data_type_size dt) \<and>
    is_dense md True"
proof -
  note d = init_by_tag_dense [OF assms(1-3)]
  obtain perm where dl: "dense_layout md perm" using d(1) by (auto simp: wf_padded_def)
  have dt: "dt \<noteq> dt_undef" by (rule init_by_tag_cases [OF assms(1,2)]) auto
  have s: "md_size md = nelems md True * int (data_type_size (md_data_type md))"
    by (rule dense_size [OF dl d(3)])
      (use d(4,5,6,7) assms(3,4) dt in \<open>auto simp: ndims_def\<close>)
  have "0 \<le> md_size md" by (rule md_size_nonneg)
  moreover have "md_size md < 2 ^ 64" using s assms(4) d(7) by simp
  ultimately have "is_dense md True"
    using dl s by (simp add: is_dense_def dense_layout_def size_t_def)
  then show ?thesis using s d(7) by (simp add: dnnl_memory_desc_get_size_def)
qed

theorem init_by_tag_size_witness:
  "\<exists>md. dnnl_memory_desc_init_by_tag 4 (Some (arr [2, 17, 3, 5])) f32 (Tag ''aBcd16b'') = (success, Some md) \<and>
     dnnl_memory_desc_get_size (Some md) = 3840 \<and> is_dense md True"
proof -
  obtain md where md: "dnnl_memory_desc_init_by_tag 4 (Some (arr [2, 17, 3, 5])) f32 (Tag ''aBcd16b'') = (success, Some md)"
    "nelems md True = 960"
    by (rule nChw16c_example)
  then show ?thesis using init_by_tag_size [OF md(1) _ nChw16c_pos] by auto
qed

text \<open>
  C32: \<open>dnnl_memory_desc_init_by_tag\<close> accepts a layout tag exactly when the dimensions are given
  and not negative, their number is between 1 and 12 and is the number the tag has, and the data
  type is defined. Every other call reports \<open>invalid_arguments\<close> and leaves the output alone.
\<close>

theorem init_by_tag_accepts:
  assumes "nd \<noteq> 0"
  shows "(fst (dnnl_memory_desc_init_by_tag nd dims dt (Tag name)) = success \<longleftrightarrow>
      (\<exists>ds perm blks ixs. dims = Some ds \<and> 0 < nd \<and> nd \<le> 12 \<and> dt \<noteq> dt_undef \<and>
        (\<forall>d<nat nd. 0 \<le> ds d) \<and> map_of blocking_table name = Some (perm, blks, ixs) \<and>
        nd = int (length perm))) \<and>
    (fst (dnnl_memory_desc_init_by_tag nd dims dt (Tag name)) \<noteq> success \<longrightarrow>
      dnnl_memory_desc_init_by_tag nd dims dt (Tag name) = (invalid_arguments, None))"
proof -
  have c: "fst (compute_blocking md (Tag name)) \<noteq> success \<Longrightarrow> fst (compute_blocking md (Tag name)) = invalid_arguments" for md
    by (auto simp: compute_blocking_def fill_blocked_def Let_def split: option.splits prod.splits if_splits)
  have "dnnl_memory_desc_init_by_tag nd dims dt (Tag name) =
      (if \<not> memory_desc_sanity_check nd dims dt fk_blocked then (invalid_arguments, None)
       else let (st, md) = compute_blocking (fresh_md nd (the dims) dt fk_blocked) (Tag name)
            in (st, if st = success then Some md else None))"
    using assms by (simp add: dnnl_memory_desc_init_by_tag_def Let_def)
  then have "fst (dnnl_memory_desc_init_by_tag nd dims dt (Tag name)) \<noteq> success \<Longrightarrow>
      dnnl_memory_desc_init_by_tag nd dims dt (Tag name) = (invalid_arguments, None)"
    using c [of "fresh_md nd (the dims) dt fk_blocked"] by (simp add: split_beta split: if_splits)
  then show ?thesis using init_by_tag_iff [OF assms] by blast
qed

theorem init_by_tag_accepts_witness:
  "dnnl_memory_desc_init_by_tag 3 None f32 (Tag ''abc'') = (invalid_arguments, None)"
  using init_by_tag_accepts [of 3 None f32 "''abc''"] by auto

text \<open>
  C17: a descriptor of a submemory addresses the elements of its parent: position \<open>pos\<close> of the
  part is position \<open>pos + offsets\<close> of the whole.
\<close>

theorem submemory_is_a_view:
  assumes "dnnl_memory_desc_init_submemory (Some src) dims offsets = (success, Some dst)"
    and "blocks_ok (ndims src) (inner_blocks src)" and "\<And>d. d < ndims src \<Longrightarrow> 0 \<le> pos d"
  shows "off_v dst pos False = off_v src (\<lambda>d. pos d + offsets d) False \<and>
    (\<forall>d<ndims src. md_dims dst d = dims d \<and> 0 \<le> dims d \<and> 0 \<le> offsets d \<and>
       offsets d + dims d \<le> md_dims src d)"
proof -
  have loop: "for_upto (ndims src) (submemory_step src dims offsets (compute_blocks src (\<lambda>_. 0))) (Some src) = Some dst"
    and bnd: "\<forall>d<ndims src. 0 \<le> dims d \<and> 0 \<le> offsets d \<and> offsets d + dims d \<le> md_dims src d"
    using assms(1) unfolding dnnl_memory_desc_init_submemory_def Let_def option.sel
    by (simp_all add: not_less split: if_splits option.splits) (metis linorder_not_le)
  show ?thesis using submemory_offsets [OF assms] submemory_loop [OF loop] bnd by simp
qed

definition plain_example :: memory_desc where
  "plain_example = zero_md\<lparr>md_ndims := 2, md_dims := arr [4, 6], md_data_type := f32, padded_dims := arr [4, 6],
     md_format_kind := fk_blocked, blocking := zero_blocking_desc\<lparr>blk_strides := arr [6, 1]\<rparr>\<rparr>"

lemma plain_example_layout:
  "md_ndims plain_example = 2" "ndims plain_example = 2" "md_dims plain_example = arr [4, 6]"
  "padded_dims plain_example = arr [4, 6]" "padded_offsets plain_example = (\<lambda>_. 0)"
  "inner_blocks plain_example = []" "offset0 plain_example = 0" "dense_layout plain_example [0, 1]"
proof -
  show fld: "md_ndims plain_example = 2" "ndims plain_example = 2" "md_dims plain_example = arr [4, 6]"
    "padded_dims plain_example = arr [4, 6]" "padded_offsets plain_example = (\<lambda>_. 0)"
    "inner_blocks plain_example = []" "offset0 plain_example = 0"
    by (simp_all add: plain_example_def ndims_def zero_md_def inner_blocks_def inner_list_def zero_blocking_desc_def)
  moreover have "md_format_kind plain_example = fk_blocked" "blk_strides (blocking plain_example) = arr [6, 1]"
    by (simp_all add: plain_example_def)
  ultimately show "dense_layout plain_example [0, 1]"
    by (auto simp: dense_layout_def block_size_def outer_extent_def less_Suc_eq)
qed

theorem submemory_is_a_view_witness:
  "\<exists>dst. dnnl_memory_desc_init_submemory (Some plain_example) (arr [2, 3]) (arr [1, 2]) = (success, Some dst) \<and>
     off_v dst (\<lambda>_. 1) False = off_v plain_example (\<lambda>d. 1 + arr [1, 2] d) False"
proof -
  have nd: "ndims plain_example = 2" by (simp add: plain_example_def ndims_def)
  have fld: "md_ndims plain_example = 2" "md_dims plain_example = arr [4, 6]" "md_data_type plain_example = f32"
    "padded_offsets plain_example = (\<lambda>_. 0)" "md_format_kind plain_example = fk_blocked"
    by (simp_all add: plain_example_def zero_md_def)
  have two: "for_upto 2 f s = f 1 (f 0 s)" for f :: "nat \<Rightarrow> 's \<Rightarrow> 's" and s
    by (simp add: for_range_def upt_rec numeral_2_eq_2)
  have cb: "compute_blocks plain_example f d = 1" if "d < 2" for f d
    using that by (simp add: compute_blocks_def plain_example_def is_blocking_desc_def zero_blocking_desc_def
        array_set_eq ndims_def Let_def)
  have "\<exists>dst. dnnl_memory_desc_init_submemory (Some plain_example) (arr [2, 3]) (arr [1, 2]) = (success, Some dst)"
    unfolding dnnl_memory_desc_init_submemory_def Let_def option.sel nd two
    by (auto simp: submemory_step_def cb nd memory_desc_sanity_check_md_def memory_desc_sanity_check_def
        fld less_2_cases_iff cdiv_simps)
  then obtain dst where dst: "dnnl_memory_desc_init_submemory (Some plain_example) (arr [2, 3]) (arr [1, 2]) = (success, Some dst)"
    by blast
  have "blocks_ok (ndims plain_example) (inner_blocks plain_example)"
    by (simp add: plain_example_def inner_blocks_def inner_list_def zero_blocking_desc_def)
  then show ?thesis using submemory_is_a_view [OF dst, of "\<lambda>_. 1"] dst by auto
qed



text \<open>
  C26: a blocking descriptor whose strides give only the order of the dimensions becomes a dense
  layout in that order.
\<close>

theorem init_by_blocking_desc_dense_in_order:
  assumes "0 < md_ndims md" "md_ndims md \<le> 12"
    and "blocks_ok (ndims md) (inner_list blk (inner_nblks blk))"
    and "\<And>d. d < ndims md \<Longrightarrow> 0 < md_dims md d"
    and "memory_desc_init_by_blocking_desc md blk = (st, md')"
  shows "\<exists>perm. dense_layout md' perm \<and> inside_padding md' \<and>
    (\<forall>a b. a < b \<and> b < ndims md \<longrightarrow> blk_strides blk (perm ! b) \<le> blk_strides blk (perm ! a)) \<and>
    bij_betw (\<lambda>e. off_l md' (int e) True) {..<nat (nelems md' True)} {0..<int (nat (nelems md' True))}"
proof -
  obtain perm where p: "dense_layout md' perm" "inside_padding md'" "offset0 md' = 0"
    "\<forall>a b. a < b \<and> b < ndims md \<longrightarrow> blk_strides blk (perm ! b) \<le> blk_strides blk (perm ! a)"
    using init_by_blocking_desc_dense [OF assms] by blast
  then have "wf_padded md'" by (auto simp: wf_padded_def)
  from padded.addr_bij [OF this] p(3)
  have "bij_betw (\<lambda>e. off_l md' (int e) True) {..<nat (nelems md' True)} {0..<int (nat (nelems md' True))}"
    by (simp only: addr_padded_def [abs_def] count_padded_def add_0)
  with p show ?thesis by blast
qed

theorem init_by_blocking_desc_dense_in_order_witness:
  "\<exists>perm. dense_layout (snd (memory_desc_init_by_blocking_desc plain_example
      (zero_blocking_desc\<lparr>blk_strides := arr [1, 2]\<rparr>))) perm"
proof -
  let ?blk = "zero_blocking_desc\<lparr>blk_strides := arr [1, 2]\<rparr>"
  have "\<And>d. d < ndims plain_example \<Longrightarrow> 0 < md_dims plain_example d"
    by (auto simp: plain_example_def ndims_def less_Suc_eq numeral_2_eq_2)
  moreover have "blocks_ok (ndims plain_example) (inner_list ?blk (inner_nblks ?blk))"
    by (simp add: zero_blocking_desc_def inner_list_def)
  moreover have "0 < md_ndims plain_example" "md_ndims plain_example \<le> 12" by (simp_all add: plain_example_def)
  ultimately show ?thesis
    using init_by_blocking_desc_dense_in_order [of plain_example ?blk
      "fst (memory_desc_init_by_blocking_desc plain_example ?blk)"
      "snd (memory_desc_init_by_blocking_desc plain_example ?blk)"] by auto
qed

text \<open>
  C33: blocked descriptors that compare equal address every position alike and have the same
  size.
\<close>

theorem equal_descriptors_same_memory:
  assumes "dnnl_memory_desc_equal False (Some a) (Some b)" "md_ndims a \<noteq> 0" "md_format_kind a = fk_blocked"
  shows "off_v a pos pd = off_v b pos pd \<and>
    dnnl_memory_desc_get_size (Some a) = dnnl_memory_desc_get_size (Some b)"
proof -
  have eq: "memory_desc_eq a b" using assms(1) by (simp add: dnnl_memory_desc_equal_def)
  then have "off_v a pos pd = off_v b pos pd" using assms(2,3)
    by (intro off_v_cong)
      (auto simp: memory_desc_eq_iff memory_desc_base_equal_def format_desc_is_equal_def ndims_def array_cmp_iff)
  then show ?thesis using blocked_size_cong [OF eq assms(2,3)] by (simp add: dnnl_memory_desc_get_size_def)
qed

theorem equal_descriptors_same_memory_witness:
  "off_v plain_example (arr [3, 5]) False = off_v (plain_example\<lparr>md_dims := arr [4, 6, 9]\<rparr>) (arr [3, 5]) False"
proof -
  have "arr [4, 6] d = arr [4, 6, 9 :: int] d" if "d < 2" for d
    using that by (auto simp: less_Suc_eq numeral_2_eq_2)
  then have "dnnl_memory_desc_equal False (Some plain_example) (Some (plain_example\<lparr>md_dims := arr [4, 6, 9]\<rparr>))"
    by (simp add: dnnl_memory_desc_equal_def memory_desc_eq_def memory_desc_base_equal_def
        memory_extra_desc_is_equal_def format_desc_is_equal_def blocking_desc_is_equal_def
        plain_example_def zero_md_def zero_blocking_desc_def array_cmp_iff)
  then show ?thesis
    using equal_descriptors_same_memory [of plain_example "plain_example\<lparr>md_dims := arr [4, 6, 9]\<rparr>" "arr [3, 5]" False]
    by (simp add: plain_example_def)
qed

text \<open>Winograd descriptors that compare equal may still differ in size.\<close>

lemma equal_wino_different_size:
  "\<exists>a b. dnnl_memory_desc_equal False (Some a) (Some b) \<and>
     dnnl_memory_desc_get_size (Some a) \<noteq> dnnl_memory_desc_get_size (Some b)"
proof -
  let ?a = "zero_md\<lparr>md_ndims := 1, md_dims := (\<lambda>_. 1), md_format_kind := fk_wino\<rparr>"
  let ?b = "?a\<lparr>wino := zero_wino_desc\<lparr>wino_size := 1\<rparr>\<rparr>"
  have "dnnl_memory_desc_equal False (Some ?a) (Some ?b)"
    by (simp add: dnnl_memory_desc_equal_def memory_desc_eq_def memory_desc_base_equal_def
        memory_extra_desc_is_equal_def format_desc_is_equal_def wino_desc_is_equal_def
        zero_md_def zero_wino_desc_def array_cmp_iff)
  moreover have "dnnl_memory_desc_get_size (Some ?a) \<noteq> dnnl_memory_desc_get_size (Some ?b)"
    by (simp add: dnnl_memory_desc_get_size_def md_size_def is_zero_def has_zero_dim_def nelems_def
        zero_md_def zero_wino_desc_def ndims_def array_product_eq)
  ultimately show ?thesis by blast
qed

end
