(* ===== verification/Threading.thy ===== *)
theory Threading
  imports Utils
begin

text \<open>
  Work sharing between threads: \<open>src/src/common/dnnl_thread.hpp\<close> (\<open>balance211\<close>,
  \<open>balance2D\<close>) and \<open>src/src/common/dnnl_thread_parallel_nd.hpp\<close> (\<open>for_nd\<close>,
  \<open>parallel_nd\<close>). A thread is its id; what a loop does is a state transformer, and the
  interleavings of several threads are an inductive relation on their traces. The threading
  runtime is a parameter: the number of threads it grants.
\<close>

section \<open>Splitting a range between workers\<close>

definition balance211 :: "int \<Rightarrow> int \<Rightarrow> int \<Rightarrow> int \<times> int" where
  "balance211 n team tid =
     (if team \<le> 1 \<or> n = 0 then (0, n + 0)
      else
        let n1 = div_up n team;
            n2 = n1 - 1;
            T1 = n - n2 * team;
            n_my = (if tid < T1 then n1 else n2);
            n_start = (if tid \<le> T1 then tid * n1 else T1 * n1 + (tid - T1) * n2)
        in (n_start, n_my + n_start))"

text \<open>
  The contract of a work splitting: the parts are consecutive intervals that start at 0 and end
  at the amount of work, and no part is longer than any other by more than one.
\<close>

locale work_split =
  fixes lo hi :: "nat \<Rightarrow> nat \<Rightarrow> nat \<Rightarrow> nat"
  assumes lo_0: "0 < team \<Longrightarrow> lo n team 0 = 0"
    and hi_lo: "Suc t < team \<Longrightarrow> hi n team t = lo n team (Suc t)"
    and hi_last: "0 < team \<Longrightarrow> hi n team (team - 1) = n"
    and lo_le_hi: "t < team \<Longrightarrow> lo n team t \<le> hi n team t"
    and even_parts: "t < team \<Longrightarrow> u < team \<Longrightarrow>
      hi n team t - lo n team t \<le> Suc (hi n team u - lo n team u)"
begin

lemma lo_mono: "t \<le> u \<Longrightarrow> u < team \<Longrightarrow> lo n team t \<le> lo n team u"
proof (induction u rule: dec_induct)
  case (step u)
  then have "lo n team t \<le> lo n team u" by simp
  also have "\<dots> \<le> lo n team (Suc u)" using lo_le_hi [of u team n] hi_lo [of u team n] step by simp
  finally show ?case .
qed simp

lemma hi_le: "t < team \<Longrightarrow> hi n team t \<le> n"
proof (cases "Suc t < team")
  case True
  then have "lo n team (Suc t) \<le> lo n team (team - 1)" by (intro lo_mono) auto
  also have "\<dots> \<le> n" using lo_le_hi [of "team - 1" team n] hi_last [of team n] True by simp
  finally show ?thesis using hi_lo True by simp
next
  case False
  assume "t < team"
  with False have "t = team - 1" by simp
  then show ?thesis using hi_last [of team n] \<open>t < team\<close> by simp
qed

lemma parts_upto: "k < team \<Longrightarrow>
    concat (map (\<lambda>t. [lo n team t..<hi n team t]) [0..<Suc k]) = [0..<hi n team k]"
proof (induction k)
  case 0
  then show ?case by (simp add: lo_0)
next
  case (Suc k)
  then have "concat (map (\<lambda>t. [lo n team t..<hi n team t]) [0..<Suc k]) = [0..<hi n team k]" by simp
  then have "concat (map (\<lambda>t. [lo n team t..<hi n team t]) [0..<Suc (Suc k)]) =
      [0..<lo n team (Suc k)] @ [lo n team (Suc k)..<hi n team (Suc k)]"
    using Suc.prems by (simp add: hi_lo)
  also have "\<dots> = [0..<hi n team (Suc k)]"
    using lo_le_hi [OF Suc.prems, of n] by (metis le_add_diff_inverse upt_add_eq_append zero_le)
  finally show ?case .
qed

text \<open>Put one after another, the parts are the whole range in order.\<close>

lemma parts_cover: "0 < team \<Longrightarrow>
    concat (map (\<lambda>t. [lo n team t..<hi n team t]) [0..<team]) = [0..<n]"
  using parts_upto [of "team - 1" team n] hi_last [of team n] by simp

lemma part_exists: "0 < team \<Longrightarrow> w < n \<Longrightarrow> \<exists>t<team. lo n team t \<le> w \<and> w < hi n team t"
proof -
  assume "0 < team" "w < n"
  then have "w \<in> set (concat (map (\<lambda>t. [lo n team t..<hi n team t]) [0..<team]))"
    using parts_cover [of team n] by simp
  then show ?thesis by auto
qed

lemma parts_ordered: "t < u \<Longrightarrow> u < team \<Longrightarrow> hi n team t \<le> lo n team u"
  using hi_lo [of t team n] lo_mono [of "Suc t" u team n] by simp

lemma part_unique:
  assumes "0 < team" "w < n"
  shows "\<exists>!t. t < team \<and> lo n team t \<le> w \<and> w < hi n team t"
proof (rule ex_ex1I)
  show "\<exists>t. t < team \<and> lo n team t \<le> w \<and> w < hi n team t" using part_exists [OF assms] by blast
next
  fix t u
  assume t: "t < team \<and> lo n team t \<le> w \<and> w < hi n team t"
    and u: "u < team \<and> lo n team u \<le> w \<and> w < hi n team u"
  show "t = u"
    using parts_ordered [of t u team n] parts_ordered [of u t team n] t u by (cases t u rule: linorder_cases) auto
qed

end

text \<open>Both ends of a \<open>balance211\<close> part lie on the same staircase.\<close>

definition staircase :: "int \<Rightarrow> int \<Rightarrow> int \<Rightarrow> int" where
  "staircase n team t =
     (let n2 = (n + team - 1) div team - 1 in t * n2 + min t (n - n2 * team))"

lemma balance211_eq:
  assumes "0 < n" "1 < team" "0 \<le> t"
  shows "balance211 n team t = (staircase n team t, staircase n team (t + 1))"
proof -
  define n2 where "n2 = (n + team - 1) div team - 1"
  have d: "div_up n team = n2 + 1" using assms by (simp add: div_up_def cdiv_simps n2_def)
  show ?thesis
    unfolding balance211_def staircase_def d n2_def [symmetric] Let_def
    using assms by (auto simp: algebra_simps min_def)
qed

lemma staircase_bounds:
  assumes "0 < n" "1 < (team::int)"
  defines "n2 \<equiv> (n + team - 1) div team - 1"
  shows "0 \<le> n2" "1 \<le> n - n2 * team" "n - n2 * team \<le> team"
proof -
  have e: "(n + team - 1) div team * team = (n + team - 1) - (n + team - 1) mod team"
    by (simp add: minus_mod_eq_div_mult)
  have m: "0 \<le> (n + team - 1) mod team" "(n + team - 1) mod team < team" using assms(2) by auto
  have "1 \<le> (n + team - 1) div team"
    using assms by (simp add: zdiv_mono1 [of team "n + team - 1" team, simplified])
  then show "0 \<le> n2" by (simp add: n2_def)
  have "n2 * team = (n + team - 1) - (n + team - 1) mod team - team"
    by (simp only: n2_def left_diff_distrib e)
  then show "1 \<le> n - n2 * team" "n - n2 * team \<le> team" using m by linarith+
qed

lemma staircase_0 [simp]: "0 < n \<Longrightarrow> 1 < team \<Longrightarrow> staircase n team 0 = 0"
  using staircase_bounds(2) [of n team] by (simp add: staircase_def Let_def)

lemma staircase_team [simp]: "0 < n \<Longrightarrow> 1 < team \<Longrightarrow> staircase n team team = n"
  using staircase_bounds(3) [of n team] by (simp add: staircase_def Let_def algebra_simps)

lemma staircase_step:
  assumes "0 < n" "1 < team"
  shows "staircase n team t \<le> staircase n team (t + 1)"
    and "staircase n team (t + 1) - staircase n team t \<in>
      {(n + team - 1) div team - 1, (n + team - 1) div team}"
  using staircase_bounds(1) [OF assms] by (auto simp: staircase_def Let_def algebra_simps min_def)

lemma staircase_mono: "0 < n \<Longrightarrow> 1 < team \<Longrightarrow> t \<le> u \<Longrightarrow> staircase n team t \<le> staircase n team u"
  using staircase_bounds(1) [of n team]
  by (auto simp: staircase_def Let_def intro!: add_mono mult_right_mono)

definition split_lo :: "nat \<Rightarrow> nat \<Rightarrow> nat \<Rightarrow> nat" where
  "split_lo n team tid = nat (fst (balance211 (int n) (int team) (int tid)))"

definition split_hi :: "nat \<Rightarrow> nat \<Rightarrow> nat \<Rightarrow> nat" where
  "split_hi n team tid = nat (snd (balance211 (int n) (int team) (int tid)))"

lemma split_trivial:
  "team \<le> 1 \<or> n = 0 \<Longrightarrow> split_lo n team t = 0 \<and> split_hi n team t = n"
  by (auto simp: split_lo_def split_hi_def balance211_def)

lemma split_staircase:
  assumes "0 < n" "1 < team"
  shows "split_lo n team t = nat (staircase (int n) (int team) (int t))"
    "split_hi n team t = nat (staircase (int n) (int team) (int (Suc t)))"
  using assms by (simp_all add: split_lo_def split_hi_def balance211_eq add.commute)

interpretation balance: work_split split_lo split_hi
proof
  fix n team t u :: nat
  show "split_lo n team 0 = 0" if "0 < team"
    using that by (cases "team \<le> 1 \<or> n = 0") (simp_all add: split_trivial split_staircase)
  show "split_hi n team t = split_lo n team (Suc t)" if "Suc t < team"
    using that by (cases "n = 0") (simp_all add: split_trivial split_staircase)
  show "split_hi n team (team - 1) = n" if "0 < team"
    using that by (cases "team \<le> 1 \<or> n = 0") (simp_all add: split_trivial split_staircase)
  show "split_lo n team t \<le> split_hi n team t" if "t < team"
    using that by (cases "team \<le> 1 \<or> n = 0")
      (auto simp: split_trivial split_staircase intro!: nat_mono staircase_mono)
  show "split_hi n team t - split_lo n team t \<le> Suc (split_hi n team u - split_lo n team u)"
    if "t < team" "u < team"
  proof (cases "team \<le> 1 \<or> n = 0")
    case True
    then show ?thesis by (simp add: split_trivial)
  next
    case False
    then have n: "0 < int n" "1 < int team" by auto
    have nn: "0 \<le> staircase (int n) (int team) (int v)" for v
      using staircase_mono [OF n, of 0 "int v"] n by simp
    have st: "int (split_hi n team v - split_lo n team v) =
        staircase (int n) (int team) (int v + 1) - staircase (int n) (int team) (int v)" for v
      using False staircase_step(1) [OF n, of "int v"] nn [of v] nn [of "Suc v"]
      by (simp add: split_staircase nat_diff_distrib' of_nat_diff add.commute)
    show ?thesis
      using st [of t] st [of u] staircase_step(2) [OF n, of "int t"] staircase_step(2) [OF n, of "int u"]
      by auto
  qed
qed

lemma balance211_nat: "balance211 (int n) (int team) (int t) = (int (split_lo n team t), int (split_hi n team t))"
  if "t < team" for n team t
proof (cases "team \<le> 1 \<or> n = 0")
  case True
  then show ?thesis by (auto simp: split_lo_def split_hi_def balance211_def)
next
  case False
  then have n: "0 < int n" "1 < int team" by auto
  have "0 \<le> staircase (int n) (int team) (int v)" for v
    using staircase_mono [OF n, of 0 "int v"] n by simp
  from this [of t] this [of "Suc t"] show ?thesis using False n
    by (simp add: balance211_eq split_staircase add.commute)
qed

section \<open>Splitting a plane between groups of workers\<close>

text \<open>
  \<open>balance2D\<close> returns \<open>(ny_start, ny_end, nx_start, nx_end)\<close>. \<open>balance2D_group\<close> is its
  first half: the thread's group, its number within the group and the size of that group.
\<close>

definition balance2D_group :: "int \<Rightarrow> int \<Rightarrow> int \<Rightarrow> int \<times> int \<times> int" where
  "balance2D_group nthr ithr nx_divider =
     (let grp_count = min nx_divider nthr;
          grp_size_big = nthr sdiv grp_count + 1;
          grp_size_small = nthr sdiv grp_count;
          n_grp_big = nthr smod grp_count;
          threads_in_big_groups = n_grp_big * grp_size_big;
          ithr_bound_distance = ithr - threads_in_big_groups
      in if ithr_bound_distance < 0
         then (ithr sdiv grp_size_big, ithr smod grp_size_big, grp_size_big)
         else (n_grp_big + ithr_bound_distance sdiv grp_size_small,
               ithr_bound_distance smod grp_size_small, grp_size_small))"

definition balance2D :: "int \<Rightarrow> int \<Rightarrow> int \<Rightarrow> int \<Rightarrow> int \<Rightarrow> int \<times> int \<times> int \<times> int" where
  "balance2D nthr ithr ny nx nx_divider =
     (let grp_count = min nx_divider nthr;
          (grp, grp_ithr, grp_nthr) = balance2D_group nthr ithr nx_divider;
          (nx_start, nx_end) = balance211 nx grp_count grp;
          (ny_start, ny_end) = balance211 ny grp_nthr grp_ithr
      in (ny_start, ny_end, nx_start, nx_end))"

text \<open>The sizes of the groups and the first thread of each.\<close>

definition group_size :: "nat \<Rightarrow> nat \<Rightarrow> nat \<Rightarrow> nat" where
  "group_size nthr grp_count grp = nthr div grp_count + (if grp < nthr mod grp_count then 1 else 0)"

definition group_first :: "nat \<Rightarrow> nat \<Rightarrow> nat \<Rightarrow> nat" where
  "group_first nthr grp_count grp = nthr div grp_count * grp + min grp (nthr mod grp_count)"

lemma balance2D_group_eq:
  fixes nthr d g j :: nat
  defines "c \<equiv> min d nthr"
  assumes "0 < d" "0 < nthr" "g < c" "j < group_size nthr c g"
  shows "balance2D_group (int nthr) (int (group_first nthr c g + j)) (int d) =
    (int g, int j, int (group_size nthr c g))"
proof -
  define q r where "q = nthr div c" and "r = nthr mod c"
  have c: "0 < c" using assms by simp
  have q: "0 < q" using assms by (simp add: q_def c_def div_greater_zero_iff)
  have ci: "min (int d) (int nthr) = int c" by (simp add: c_def)
  have dv: "int nthr sdiv int c = int q" "int nthr smod int c = int r"
    by (simp_all add: cdiv_simps q_def r_def zdiv_int zmod_int)
  show ?thesis
  proof (cases "g < r")
    case True
    then have i: "group_first nthr c g + j = g * (q + 1) + j" and s: "group_size nthr c g = q + 1"
      by (simp_all add: group_first_def group_size_def q_def r_def)
    have j: "j < q + 1" using assms(5) s by simp
    have "g * (q + 1) + j < (g + 1) * (q + 1)" using j by simp
    also have "\<dots> \<le> r * (q + 1)" using True by (intro mult_le_mono1) simp
    finally have lt: "int (g * (q + 1) + j) - int r * (int q + 1) < 0"
      by (simp only: of_nat_less_iff [symmetric, where ?'a = int]) (simp add: algebra_simps)
    have dm: "int (g * (q + 1) + j) sdiv (int q + 1) = int g" "int (g * (q + 1) + j) smod (int q + 1) = int j"
    proof -
      have "(g * (q + 1) + j) div (q + 1) = g" "(g * (q + 1) + j) mod (q + 1) = j"
        using j by (simp_all del: mult_Suc_right add_Suc_right One_nat_def add: div_mult_self3)
      then show "int (g * (q + 1) + j) sdiv (int q + 1) = int g" "int (g * (q + 1) + j) smod (int q + 1) = int j"
        using zdiv_int [of "g * (q + 1) + j" "q + 1"] zmod_int [of "g * (q + 1) + j" "q + 1"]
        by (simp_all add: cdiv_simps add.commute)
    qed
    show ?thesis
      unfolding balance2D_group_def Let_def ci dv i s if_P [OF lt] dm by simp
  next
    case False
    then obtain e where e: "g = r + e" by (metis le_Suc_ex not_less)
    then have i: "group_first nthr c g + j = r * (q + 1) + ((g - r) * q + j)"
      by (simp add: group_first_def q_def [symmetric] r_def [symmetric] algebra_simps)
    have s: "group_size nthr c g = q" using False by (simp add: group_size_def q_def r_def)
    have j: "j < q" using assms(5) s by simp
    have nn: "\<not> int (r * (q + 1) + ((g - r) * q + j)) - int r * (int q + 1) < 0"
      by (simp add: algebra_simps)
    have b: "int (r * (q + 1) + ((g - r) * q + j)) - int r * (int q + 1) = int ((g - r) * q + j)"
      by (simp add: algebra_simps)
    have dm: "int ((g - r) * q + j) sdiv int q = int (g - r)" "int ((g - r) * q + j) smod int q = int j"
    proof -
      have "((g - r) * q + j) div q = g - r" "((g - r) * q + j) mod q = j"
        using j by (simp_all add: div_mult_self3)
      then show "int ((g - r) * q + j) sdiv int q = int (g - r)" "int ((g - r) * q + j) smod int q = int j"
        using zdiv_int [of "(g - r) * q + j" "q"] zmod_int [of "(g - r) * q + j" "q"]
        by (simp_all add: cdiv_simps)
    qed
    show ?thesis
      unfolding balance2D_group_def Let_def ci dv i s if_not_P [OF nn] unfolding b dm
      using False by (simp add: of_nat_diff)
  qed
qed

text \<open>Every thread is a member of exactly one group.\<close>

lemma group_first_Suc: "group_first nthr c (Suc g) = group_first nthr c g + group_size nthr c g"
  by (simp add: group_first_def group_size_def)

lemma group_first_all: "0 < c \<Longrightarrow> group_first nthr c c = nthr"
  by (simp add: group_first_def min_def) (metis div_mult_mod_eq mod_le_divisor le_antisym mult.commute add.commute)

lemma thread_in_group:
  "i < group_first nthr c k \<Longrightarrow> \<exists>g<k. \<exists>j<group_size nthr c g. i = group_first nthr c g + j"
proof (induction k)
  case 0
  then show ?case by (simp add: group_first_def)
next
  case (Suc k)
  show ?case
  proof (cases "i < group_first nthr c k")
    case True
    then show ?thesis using Suc.IH less_SucI by blast
  next
    case False
    then have "i - group_first nthr c k < group_size nthr c k"
      "i = group_first nthr c k + (i - group_first nthr c k)"
      using Suc.prems by (auto simp: group_first_Suc)
    then show ?thesis by blast
  qed
qed

lemma group_first_mono: "g \<le> h \<Longrightarrow> group_first nthr c g \<le> group_first nthr c h"
  by (simp add: group_first_def add_mono)

lemma group_of_thread_unique:
  assumes "group_first nthr c g + j = group_first nthr c h + k"
    "j < group_size nthr c g" "k < group_size nthr c h"
  shows "g = h \<and> j = k"
proof -
  have "\<not> a < b" if "group_first nthr c a + i = group_first nthr c b + l" "i < group_size nthr c a"
    for a b i l
  proof
    assume "a < b"
    then have "group_first nthr c (Suc a) \<le> group_first nthr c b" by (intro group_first_mono) simp
    with that show False by (simp add: group_first_Suc)
  qed
  from this [of g j h k] this [of h k g j] assms show ?thesis by (cases g h rule: linorder_cases) auto
qed

lemma balance2D_eq:
  fixes nthr d g j :: nat
  defines "c \<equiv> min d nthr"
  assumes "0 < d" "0 < nthr" "g < c" "j < group_size nthr c g"
  shows "balance2D (int nthr) (int (group_first nthr c g + j)) (int ny) (int nx) (int d) =
    (int (split_lo ny (group_size nthr c g) j), int (split_hi ny (group_size nthr c g) j),
     int (split_lo nx c g), int (split_hi nx c g))"
proof -
  have c: "min (int d) (int nthr) = int c" by (simp add: c_def)
  show ?thesis
    using balance2D_group_eq [OF assms(2,3) assms(4,5) [unfolded c_def]]
    unfolding balance2D_def Let_def c c_def [symmetric]
    by (simp add: balance211_nat assms(4,5))
qed

section \<open>Nested parallel loops\<close>

text \<open>
  \<open>for_nd\<close> runs the body \<open>f\<close> on the part of the iteration space that belongs to thread
  \<open>ithr\<close>. The overloads differ in the number of extents; the one-dimensional one has no
  iterator and no early return.
\<close>

fun get_work_amount :: "nat list \<Rightarrow> nat" where
  "get_work_amount [] = 1"
| "get_work_amount (D # Ds) = D * get_work_amount Ds"

definition for_nd_body :: "nat list \<Rightarrow> (nat list \<Rightarrow> 's \<Rightarrow> 's) \<Rightarrow> nat \<Rightarrow> nat list \<times> 's \<Rightarrow> nat list \<times> 's" where
  "for_nd_body Ds f iwork = (\<lambda>(ds, s). (snd (nd_iterator_step ds Ds), f ds s))"

definition for_nd :: "nat \<Rightarrow> nat \<Rightarrow> nat list \<Rightarrow> (nat list \<Rightarrow> 's \<Rightarrow> 's) \<Rightarrow> 's \<Rightarrow> 's" where
  "for_nd ithr nthr Ds f s =
     (case Ds of
        [D0] \<Rightarrow>
          let (start, end') = balance211 (int D0) (int nthr) (int ithr)
          in for_range (nat start) (nat end') (\<lambda>d0 s. f [d0] s) s
      | _ \<Rightarrow>
          let work_amount = get_work_amount Ds
          in if work_amount = 0 then s
             else
               let (start, end') = balance211 (int work_amount) (int nthr) (int ithr);
                   (_, ds) = nd_iterator_init (nat start) Ds
               in snd (for_range (nat start) (nat end') (for_nd_body Ds f) (ds, s)))"

lemma get_work_amount_eq: "get_work_amount Ds = prod_list Ds"
  by (induction Ds) auto

text \<open>The iteration space in row-major order, and the part of it a thread visits.\<close>

definition nd_indices :: "nat list \<Rightarrow> nat \<Rightarrow> nat \<Rightarrow> nat list list" where
  "nd_indices Ds lo hi = map (radix_digits Ds) [lo..<hi]"

lemma for_nd_loop:
  assumes "lo \<le> hi" "hi \<le> prod_list Ds"
  shows "for_range lo hi (for_nd_body Ds f) (radix_digits Ds lo, s) =
    (radix_digits Ds hi, fold f (nd_indices Ds lo hi) s)"
  using assms
proof (induction hi rule: dec_induct)
  case base
  then show ?case by (simp add: nd_indices_def)
next
  case (step n)
  have pos: "0 < prod_list Ds" using step by simp
  have "nd_iterator_step (radix_digits Ds n) Ds =
      (n + 1 = prod_list Ds, radix_digits Ds (n + 1))"
    using nd_iterator_step_eq [OF radix_digits_in_box [OF pos, of n]] step
    by (simp add: radix_val_digits)
  with step show ?case by (simp add: for_range_Suc for_nd_body_def nd_indices_def)
qed

lemma radix_digits_single: "d < D \<Longrightarrow> radix_digits [D] d = [d]"
  by simp

lemma for_nd_eq:
  assumes "ithr < nthr"
  shows "for_nd ithr nthr Ds f s =
    fold f (nd_indices Ds (split_lo (prod_list Ds) nthr ithr) (split_hi (prod_list Ds) nthr ithr)) s"
proof -
  let ?lo = "split_lo (prod_list Ds) nthr ithr" and ?hi = "split_hi (prod_list Ds) nthr ithr"
  have le: "?lo \<le> ?hi" "?hi \<le> prod_list Ds"
    using balance.lo_le_hi [OF assms] balance.hi_le [OF assms] by auto
  have gen: "(if prod_list Ds = 0 then s
      else snd (for_range ?lo ?hi (for_nd_body Ds f) (radix_digits Ds ?lo, s))) =
      fold f (nd_indices Ds ?lo ?hi) s"
    using le by (auto simp: for_nd_loop nd_indices_def split_trivial)
  show ?thesis
  proof (cases "\<exists>D0. Ds = [D0]")
    case True
    then obtain D0 where D: "Ds = [D0]" by blast
    have "nd_indices [D0] ?lo ?hi = map (\<lambda>d. [d]) [?lo..<?hi]"
      using le D by (auto simp: nd_indices_def intro!: radix_digits_single)
    then show ?thesis using D
      by (simp add: for_nd_def balance211_nat [OF assms] for_range_def fold_map comp_def)
  next
    case False
    then have "for_nd ithr nthr Ds f s =
       (let work_amount = get_work_amount Ds
          in if work_amount = 0 then s
             else
               let (start, end') = balance211 (int work_amount) (int nthr) (int ithr);
                   (_, ds) = nd_iterator_init (nat start) Ds
               in snd (for_range (nat start) (nat end') (for_nd_body Ds f) (ds, s)))"
      by (auto simp: for_nd_def split: list.splits)
    then show ?thesis using gen
      by (simp only: get_work_amount_eq balance211_nat [OF assms] nd_iterator_init_eq Let_def
        split_conv nat_int)
  qed
qed

text \<open>
  \<open>parallel_nd\<close> under OpenMP: the runtime grants \<open>nthr\<close> threads, and each calls
  \<open>for_nd\<close>. The trace of a thread lists the indices its body is called with.
\<close>

definition for_nd_trace :: "nat \<Rightarrow> nat \<Rightarrow> nat list \<Rightarrow> nat list list" where
  "for_nd_trace ithr nthr Ds = rev (for_nd ithr nthr Ds (#) [])"

definition parallel_nd :: "nat \<Rightarrow> nat list \<Rightarrow> nat list list list" where
  "parallel_nd nthr Ds =
     (let do_parallel = get_work_amount Ds > 1;
          nthr = (if \<not> do_parallel then 1 else nthr)
      in map (\<lambda>ithr. for_nd_trace (if \<not> do_parallel then 0 else ithr) nthr Ds) [0..<nthr])"

definition parallel_nd_in_omp :: "nat \<Rightarrow> nat list \<Rightarrow> nat list list list" where
  "parallel_nd_in_omp nthr Ds = map (\<lambda>ithr. for_nd_trace ithr nthr Ds) [0..<nthr]"

lemma fold_Cons_rev: "fold (#) xs ys = rev xs @ ys"
  by (induction xs arbitrary: ys) auto

lemma for_nd_trace_eq:
  "ithr < nthr \<Longrightarrow> for_nd_trace ithr nthr Ds =
    nd_indices Ds (split_lo (prod_list Ds) nthr ithr) (split_hi (prod_list Ds) nthr ithr)"
  by (simp add: for_nd_trace_def for_nd_eq fold_Cons_rev)

lemma traces_cover:
  assumes "0 < nthr"
  shows "concat (map (\<lambda>ithr. for_nd_trace ithr nthr Ds) [0..<nthr]) = nd_indices Ds 0 (prod_list Ds)"
proof -
  have "concat (map (\<lambda>ithr. for_nd_trace ithr nthr Ds) [0..<nthr]) =
      concat (map (map (radix_digits Ds))
        (map (\<lambda>t. [split_lo (prod_list Ds) nthr t..<split_hi (prod_list Ds) nthr t]) [0..<nthr]))"
    by (auto simp: for_nd_trace_eq nd_indices_def comp_def intro!: arg_cong [where f = concat])
  also have "\<dots> = map (radix_digits Ds) [0..<prod_list Ds]"
    by (simp only: map_concat [symmetric] balance.parts_cover [OF assms])
  finally show ?thesis by (simp add: nd_indices_def)
qed

lemma parallel_nd_traces:
  assumes "0 < nthr"
  shows "concat (parallel_nd nthr Ds) = nd_indices Ds 0 (prod_list Ds)"
    and "concat (parallel_nd_in_omp nthr Ds) = nd_indices Ds 0 (prod_list Ds)"
  using traces_cover [OF assms, of Ds] traces_cover [of 1 Ds]
  by (auto simp: parallel_nd_def parallel_nd_in_omp_def Let_def)

lemma nd_indices_all:
  "distinct (nd_indices Ds 0 (prod_list Ds))" "set (nd_indices Ds 0 (prod_list Ds)) = {ds. in_box Ds ds}"
proof -
  show "distinct (nd_indices Ds 0 (prod_list Ds))"
    unfolding nd_indices_def distinct_map
    by (auto simp: inj_on_def) (metis mod_less radix_val_digits)
  show "set (nd_indices Ds 0 (prod_list Ds)) = {ds. in_box Ds ds}"
  proof (intro equalityI subsetI)
    fix ds assume "ds \<in> set (nd_indices Ds 0 (prod_list Ds))"
    then show "ds \<in> {ds. in_box Ds ds}"
      by (auto simp: nd_indices_def intro!: radix_digits_in_box)
  next
    fix ds assume "ds \<in> {ds. in_box Ds ds}"
    then have "radix_digits Ds (radix_val Ds ds) = ds" "radix_val Ds ds < prod_list Ds"
      by (auto simp: radix_digits_val radix_val_less)
    then show "ds \<in> set (nd_indices Ds 0 (prod_list Ds))" unfolding nd_indices_def by force
  qed
qed

text \<open>
  The schedules of a parallel section: at each step some thread that has iterations left runs
  its next one.
\<close>

inductive runs :: "('i \<Rightarrow> 's \<Rightarrow> 's) \<Rightarrow> 'i list list \<Rightarrow> 's \<Rightarrow> 's \<Rightarrow> bool" for f where
  runs_done: "concat ts = [] \<Longrightarrow> runs f ts s s"
| runs_step: "t < length ts \<Longrightarrow> ts ! t = x # xs \<Longrightarrow> runs f (ts[t := xs]) (f x s) s' \<Longrightarrow> runs f ts s s'"

lemma mset_concat_update:
  "t < length ts \<Longrightarrow> ts ! t = x # xs \<Longrightarrow>
    mset (concat ts) = add_mset x (mset (concat (ts[t := xs])))"
proof (induction ts arbitrary: t)
  case (Cons a ts)
  then show ?case by (cases t) auto
qed simp

lemma runs_commuting:
  assumes "runs f ts s s'"
    and "\<And>x y. x \<in> set (concat ts) \<Longrightarrow> y \<in> set (concat ts) \<Longrightarrow> f x \<circ> f y = f y \<circ> f x"
  shows "s' = fold f (concat ts) s"
  using assms
proof (induction rule: runs.induct)
  case (runs_done ts s)
  then show ?case by (simp only: fold_simps id_apply)
next
  case (runs_step t ts x xs s s')
  note m = mset_concat_update [OF runs_step(1,2)]
  then have set_eq: "set (concat ts) = insert x (set (concat (ts[t := xs])))"
    by (metis set_mset_add_mset_insert set_mset_mset)
  have "s' = fold f (concat (ts[t := xs])) (f x s)"
    by (rule runs_step.IH) (simp only: runs_step.prems set_eq insert_iff simp_thms)
  also have "\<dots> = fold f (x # concat (ts[t := xs])) s" by simp
  also have "fold f (x # concat (ts[t := xs])) = fold f (concat ts)"
  proof (rule fold_multiset_equiv)
    show "mset (x # concat (ts[t := xs])) = mset (concat ts)" using m by simp
    show "f a \<circ> f b = f b \<circ> f a"
      if "a \<in> set (x # concat (ts[t := xs]))" "b \<in> set (x # concat (ts[t := xs]))" for a b
      by (rule runs_step.prems) (use that set_eq in \<open>simp_all only: list.simps\<close>)
  qed
  finally show ?case .
qed

lemma runs_sequential: "runs f ts s (fold f (concat ts) s)"
proof (induction "length (concat ts)" arbitrary: ts s)
  case 0
  then have "concat ts = []" by simp
  moreover from this have "runs f ts s s" by (rule runs_done)
  ultimately show ?case by (simp del: concat_eq_Nil_conv)
next
  case (Suc n)
  define t where "t = length (takeWhile (\<lambda>xs. xs = []) ts)"
  have t: "t < length ts"
  proof (rule ccontr)
    assume "\<not> t < length ts"
    then have "takeWhile (\<lambda>xs. xs = []) ts = ts"
      by (metis t_def length_takeWhile_le linorder_not_le nat_less_le takeWhile_eq_take take_all_iff)
    then have "concat ts = []" by (metis (full_types) concat_eq_Nil_conv set_takeWhileD)
    with Suc.hyps(2) show False by simp
  qed
  then have "ts ! t \<noteq> []" unfolding t_def by (rule nth_length_takeWhile)
  then obtain x xs where x: "ts ! t = x # xs" by (cases "ts ! t") auto
  have pre: "concat (take t ts) = []"
    using set_takeWhileD [of _ "\<lambda>xs. xs = []" ts] by (auto simp: t_def takeWhile_eq_take [symmetric])
  have "ts = take t ts @ (x # xs) # drop (Suc t) ts" using t x by (metis id_take_nth_drop)
  then have c: "concat ts = x # xs @ concat (drop (Suc t) ts)" using pre
    by (metis append_Cons append_Nil concat.simps(2) concat_append)
  have c': "concat (ts[t := xs]) = xs @ concat (drop (Suc t) ts)"
    using t pre by (simp add: upd_conv_take_nth_drop)
  have "runs f (ts[t := xs]) (f x s) (fold f (concat (ts[t := xs])) (f x s))"
    by (rule Suc.hyps(1)) (use Suc.hyps(2) c c' in simp)
  then have "runs f ts s (fold f (concat (ts[t := xs])) (f x s))" by (rule runs_step [of t, OF t x])
  then show ?case by (simp add: c c')
qed

section \<open>Properties\<close>

text \<open>
  C2: \<open>parallel_nd\<close> under every schedule of its threads computes what the sequential nested
  loop computes, and some schedule exists, whenever the bodies of distinct iterations commute
  (the absence of races the callers rely on).
\<close>

theorem parallel_nd_any_schedule:
  assumes "0 < nthr"
    and "\<And>x y. in_box Ds x \<Longrightarrow> in_box Ds y \<Longrightarrow> x \<noteq> y \<Longrightarrow> f x \<circ> f y = f y \<circ> f x"
  shows "runs f (parallel_nd nthr Ds) s s' \<longleftrightarrow> s' = fold f (nd_indices Ds 0 (prod_list Ds)) s"
proof
  have comm: "f x \<circ> f y = f y \<circ> f x"
    if "x \<in> set (concat (parallel_nd nthr Ds))" "y \<in> set (concat (parallel_nd nthr Ds))" for x y
    using that assms(2) [of x y] unfolding parallel_nd_traces(1) [OF assms(1)] nd_indices_all(2)
    by (cases "x = y") auto
  show "s' = fold f (nd_indices Ds 0 (prod_list Ds)) s" if "runs f (parallel_nd nthr Ds) s s'"
    using runs_commuting [OF that comm] by (simp add: parallel_nd_traces(1) [OF assms(1)])
  show "runs f (parallel_nd nthr Ds) s s'" if "s' = fold f (nd_indices Ds 0 (prod_list Ds)) s"
    using runs_sequential [of f "parallel_nd nthr Ds" s] that
    by (simp add: parallel_nd_traces(1) [OF assms(1)])
qed

theorem parallel_nd_any_schedule_witness:
  "\<forall>s s'. runs add_mset (parallel_nd 3 [2, 2]) s s' \<longleftrightarrow>
     s' = {#[0, 0], [0, 1], [1, 0], [1, 1]#} + s"
proof -
  have comm: "add_mset x \<circ> add_mset y = add_mset y \<circ> add_mset x" for x y :: "nat list"
    by (simp add: fun_eq_iff add_mset_commute)
  have "fold add_mset (nd_indices [2, 2] 0 (prod_list [2, 2])) s =
      {#[0, 0], [0, 1], [1, 0], [1, 1]#} + s" for s
    by (simp add: nd_indices_def upt_rec add_mset_commute)
  moreover have "0 < (3::nat)" by simp
  ultimately show ?thesis by (simp only: parallel_nd_any_schedule [OF _ comm] simp_thms)
qed

text \<open>
  C27: the nested loops of the threads, one thread after the other, visit every index of the
  iteration space exactly once and in row-major order.
\<close>

theorem parallel_nd_each_index_once:
  assumes "0 < nthr"
  shows "concat (parallel_nd nthr Ds) = map (radix_digits Ds) [0..<prod_list Ds] \<and>
    distinct (concat (parallel_nd nthr Ds)) \<and>
    set (concat (parallel_nd nthr Ds)) = {ds. in_box Ds ds}"
  using nd_indices_all [of Ds] by (simp add: parallel_nd_traces(1) [OF assms] nd_indices_def)

theorem parallel_nd_each_index_once_witness:
  "distinct (concat (parallel_nd 4 [3, 5])) \<and>
   set (concat (parallel_nd 4 [3, 5])) = {ds. in_box [3, 5] ds}"
  using parallel_nd_each_index_once [of 4 "[3, 5]", OF zero_less_numeral] by blast

text \<open>
  \<open>balance2D\<close> hands every point of the plane to exactly one thread.
\<close>

theorem balance2D_partition:
  fixes nthr ny nx d y x :: nat
  assumes "0 < nthr" "0 < d" "y < ny" "x < nx"
  shows "\<exists>!ithr. ithr < nthr \<and>
    (case balance2D (int nthr) (int ithr) (int ny) (int nx) (int d) of
       (ny_start, ny_end, nx_start, nx_end) \<Rightarrow>
         ny_start \<le> int y \<and> int y < ny_end \<and> nx_start \<le> int x \<and> int x < nx_end)"
proof -
  define c where "c = min d nthr"
  have c: "0 < c" "c \<le> nthr" using assms by (auto simp: c_def)
  have sz: "0 < group_size nthr c g" for g
    using c by (simp add: group_size_def div_greater_zero_iff)
  obtain g where g: "g < c" "split_lo nx c g \<le> x" "x < split_hi nx c g"
    and g1: "\<And>h. h < c \<Longrightarrow> split_lo nx c h \<le> x \<Longrightarrow> x < split_hi nx c h \<Longrightarrow> h = g"
    using balance.part_unique [OF c(1) assms(4)] by blast
  obtain j where j: "j < group_size nthr c g" "split_lo ny (group_size nthr c g) j \<le> y"
      "y < split_hi ny (group_size nthr c g) j"
    and j1: "\<And>k. k < group_size nthr c g \<Longrightarrow> split_lo ny (group_size nthr c g) k \<le> y \<Longrightarrow>
      y < split_hi ny (group_size nthr c g) k \<Longrightarrow> k = j"
    using balance.part_unique [OF sz assms(3)] by blast
  note eq = balance2D_eq [OF assms(2,1), folded c_def]
  show ?thesis
  proof (rule ex1I [of _ "group_first nthr c g + j"])
    have "group_first nthr c g + j < group_first nthr c (Suc g)" using j(1) by (simp add: group_first_Suc)
    also have "\<dots> \<le> nthr" using group_first_mono [of "Suc g" c nthr c] g(1) group_first_all [OF c(1), of nthr] by simp
    finally show "group_first nthr c g + j < nthr \<and>
      (case balance2D (int nthr) (int (group_first nthr c g + j)) (int ny) (int nx) (int d) of
       (ny_start, ny_end, nx_start, nx_end) \<Rightarrow>
         ny_start \<le> int y \<and> int y < ny_end \<and> nx_start \<le> int x \<and> int x < nx_end)"
      using eq [OF g(1) j(1), of ny nx] g j by (simp del: of_nat_add)
  next
    fix i
    assume i: "i < nthr \<and> (case balance2D (int nthr) (int i) (int ny) (int nx) (int d) of
       (ny_start, ny_end, nx_start, nx_end) \<Rightarrow>
         ny_start \<le> int y \<and> int y < ny_end \<and> nx_start \<le> int x \<and> int x < nx_end)"
    then have "i < group_first nthr c c" using group_first_all [OF c(1), of nthr] by simp
    then obtain h k where h: "h < c" "k < group_size nthr c h" and ih: "i = group_first nthr c h + k"
      using thread_in_group by blast
    then have b: "split_lo ny (group_size nthr c h) k \<le> y" "y < split_hi ny (group_size nthr c h) k"
        "split_lo nx c h \<le> x" "x < split_hi nx c h"
      using i eq [OF h, of ny nx] by (simp_all del: of_nat_add)
    have "h = g" using g1 [OF h(1) b(3,4)] .
    then show "i = group_first nthr c g + j" using j1 [of k] h(2) b ih by simp
  qed
qed

theorem balance2D_partition_witness:
  "\<exists>!ithr. ithr < (5::nat) \<and>
    (case balance2D (int 5) (int ithr) (int 7) (int 4) (int 2) of
       (ny_start, ny_end, nx_start, nx_end) \<Rightarrow>
         ny_start \<le> int 3 \<and> int 3 < ny_end \<and> nx_start \<le> int 1 \<and> int 1 < nx_end)"
  using balance2D_partition [of 5 2 3 7 1 4] by simp

end
