(* ===== verification/Zero_Pad.thy ===== *)
theory Zero_Pad
  imports Memory_Api Threading
begin

text \<open>
  Zeroing the padding of a blocked memory, \<open>src/src/common/memory_zero_pad.cpp\<close>. The data is
  an index function over element offsets. \<open>parallel_nd\<close> loops run in row-major order here; the
  iterations write different elements, so any schedule gives the same result
  (\<open>parallel_nd_any_schedule\<close>).
\<close>

definition par_for :: "nat list \<Rightarrow> (nat list \<Rightarrow> 's \<Rightarrow> 's) \<Rightarrow> 's \<Rightarrow> 's" where
  "par_for Ds f s = fold f (concat (parallel_nd 1 Ds)) s"

section \<open>The generic routine\<close>

text \<open>
  The scan over the trailing dimensions without padding: the product of their extents and the
  first dimension from the right that has padding.
\<close>

fun zero_pad_scan :: "dim_t carray \<Rightarrow> dim_t carray \<Rightarrow> nat \<Rightarrow> int \<Rightarrow> int \<times> nat option" where
  "zero_pad_scan dims pdims 0 step = (step, None)"
| "zero_pad_scan dims pdims (Suc d) step =
     (if dims d \<noteq> pdims d then (step, Some d) else zero_pad_scan dims pdims d (step * dims d))"

text \<open>\<open>need_zero_from k\<close> is the loop from \<open>d = k - 1\<close> down to 0.\<close>

fun need_zero_from :: "dim_t carray \<Rightarrow> dim_t carray \<Rightarrow> nat \<Rightarrow> int \<Rightarrow> bool" where
  "need_zero_from dims pdims 0 idx = False"
| "need_zero_from dims pdims (Suc d) idx =
     (if idx smod pdims d \<ge> dims d then True else need_zero_from dims pdims d (idx sdiv pdims d))"

definition typed_zero_pad_generic_blocked :: "memory_desc \<Rightarrow> (int \<Rightarrow> 'a::zero) \<Rightarrow> int \<Rightarrow> 'a" where
  "typed_zero_pad_generic_blocked md data =
     (let (step, step_dim) = zero_pad_scan (md_dims md) (padded_dims md) (ndims md) 1
      in case step_dim of
           None \<Rightarrow> data
         | Some k \<Rightarrow>
             for_upto (nat (nelems md True sdiv step))
               (\<lambda>e1 data.
                  if need_zero_from (md_dims md) (padded_dims md) (Suc k) (int e1)
                  then for_upto (nat step)
                         (\<lambda>e0 data. data(off_l md (int e1 * step + int e0) True := 0)) data
                  else data)
               data)"

section \<open>The routines for one and two blocked dimensions\<close>

datatype blk_kind = blk_a | blk_b | blk_c | blk_ab | blk_ba | blk_bc | blk_cb

definition dim_is_blocked :: "blocking_desc \<Rightarrow> nat \<Rightarrow> bool" where
  "dim_is_blocked blk dim = list_ex (\<lambda>i. inner_idxs blk i = dim) [0..<inner_nblks blk]"

definition zeroize_tail :: "nat \<Rightarrow> int \<Rightarrow> nat \<Rightarrow> (int \<Rightarrow> 'a::zero) \<Rightarrow> int \<Rightarrow> 'a" where
  "zeroize_tail blksize x tail_s data = for_range tail_s blksize (\<lambda>b d. d(x + int b := 0)) data"

definition tail_index :: "nat \<Rightarrow> nat \<Rightarrow> nat \<Rightarrow> nat \<Rightarrow> int" where
  "tail_index blksize inner_blk b1 b2 =
     int ((b1 div inner_blk) * blksize * inner_blk + inner_blk * b2 + b1 mod inner_blk)"

definition zeroize_tail_inner :: "nat \<Rightarrow> nat \<Rightarrow> int \<Rightarrow> nat \<Rightarrow> (int \<Rightarrow> 'a::zero) \<Rightarrow> int \<Rightarrow> 'a" where
  "zeroize_tail_inner blksize inner_blk x tail_s data =
     for_upto blksize (\<lambda>b1. for_range tail_s blksize
       (\<lambda>b2 d. d(x + tail_index blksize inner_blk b1 b2 := 0))) data"

definition zeroize_tail_outer :: "nat \<Rightarrow> nat \<Rightarrow> int \<Rightarrow> nat \<Rightarrow> (int \<Rightarrow> 'a::zero) \<Rightarrow> int \<Rightarrow> 'a" where
  "zeroize_tail_outer blksize inner_blk x tail_s data =
     for_range tail_s blksize (\<lambda>b1. for_upto blksize
       (\<lambda>b2 d. d(x + tail_index blksize inner_blk b1 b2 := 0))) data"

definition typed_zero_pad_blk :: "blk_kind \<Rightarrow> nat \<Rightarrow> memory_desc \<Rightarrow> (int \<Rightarrow> 'a::zero) \<Rightarrow> int \<Rightarrow> 'a" where
  "typed_zero_pad_blk kind blksize md data =
     (let dims = md_dims md; pdims = padded_dims md; blk = blocking md;
          A_blocked = dim_is_blocked blk 0; B_blocked = dim_is_blocked blk 1; C_blocked = dim_is_blocked blk 2;
          a_tail_s = (if A_blocked then nat (dims 0 smod int blksize) else 0);
          b_tail_s = (if B_blocked then nat (dims 1 smod int blksize) else 0);
          c_tail_s = (if C_blocked then nat (dims 2 smod int blksize) else 0);
          A = nat (if A_blocked then pdims 0 sdiv int blksize else dims 0);
          B = nat (if B_blocked then pdims 1 sdiv int blksize else dims 1);
          C = nat (if C_blocked then pdims 2 sdiv int blksize else dims 2);
          D = (if ndims md > 3 then nat (dims 3) else 1);
          E = (if ndims md > 4 then nat (dims 4) else 1);
          F = (if ndims md > 5 then nat (dims 5) else 1);
          inner_blk = (if inner_nblks blk = 3 then nat (inner_blks blk 2) else 1);
          tail = zeroize_tail blksize;
          inner = zeroize_tail_inner blksize inner_blk;
          outer = zeroize_tail_outer blksize inner_blk;
          data = (if c_tail_s \<noteq> 0
            then par_for [A, B, D, E, F]
              (\<lambda>ix. let x = blk_off md [int (ix ! 0), int (ix ! 1), int C - 1, int (ix ! 2), int (ix ! 3), int (ix ! 4)]
                    in if kind = blk_c then tail x c_tail_s
                       else if kind = blk_bc then inner x c_tail_s
                       else if kind = blk_cb then outer x c_tail_s else id) data
            else data);
          data = (if b_tail_s \<noteq> 0
            then par_for [A, C, D, E, F]
              (\<lambda>ix. let x = blk_off md [int (ix ! 0), int B - 1, int (ix ! 1), int (ix ! 2), int (ix ! 3), int (ix ! 4)]
                    in if kind = blk_b then tail x b_tail_s
                       else if kind \<in> {blk_ab, blk_cb} then inner x b_tail_s
                       else if kind \<in> {blk_ba, blk_bc} then outer x b_tail_s else id) data
            else data);
          data = (if a_tail_s \<noteq> 0
            then par_for [B, C, D, E, F]
              (\<lambda>ix. let x = blk_off md [int A - 1, int (ix ! 0), int (ix ! 1), int (ix ! 2), int (ix ! 3), int (ix ! 4)]
                    in if kind = blk_a then tail x a_tail_s
                       else if kind = blk_ba then inner x a_tail_s
                       else if kind = blk_ab then outer x a_tail_s else id) data
            else data)
      in data)"

section \<open>Choosing the routine\<close>

definition get_blksize :: "blocking_desc \<Rightarrow> nat \<Rightarrow> int" where
  "get_blksize blk ind =
     for_upto (inner_nblks blk) (\<lambda>i b. if inner_idxs blk i = ind then b * inner_blks blk i else b) 1"

text \<open>The kind the switch selects from the number of inner blocks and their dimensions.\<close>

definition zero_pad_kind :: "blocking_desc \<Rightarrow> blk_kind option" where
  "zero_pad_kind blk =
     (let i0 = inner_idxs blk 0; i1 = inner_idxs blk 1
      in if inner_nblks blk = 1
         then (if i0 = 0 then Some blk_a else if i0 = 1 then Some blk_b else None)
         else if inner_nblks blk = 2 \<or> inner_nblks blk = 3
         then (if \<not> (inner_nblks blk = 3 \<longrightarrow> i0 = inner_idxs blk 2) then None
               else if i0 = 0 \<and> i1 = 1 then Some blk_ab
               else if i0 = 1 \<and> i1 = 0 then Some blk_ba
               else if i0 = 1 \<and> i1 = 2 then Some blk_bc
               else if i0 = 2 \<and> i1 = 1 then Some blk_cb
               else None)
         else None)"

definition typed_zero_pad :: "memory_desc \<Rightarrow> (int \<Rightarrow> 'a::zero) \<Rightarrow> status \<times> (int \<Rightarrow> 'a)" where
  "typed_zero_pad md data =
     (if md_format_kind md \<noteq> fk_blocked then (unimplemented, data)
      else if nelems md False = nelems md True then (success, data)
      else
        let blk = blocking md; blksize = get_blksize blk (inner_idxs blk 0)
        in case zero_pad_kind blk of
             Some kind \<Rightarrow>
               if blksize \<in> {4, 8, 16}
               then (success, typed_zero_pad_blk kind (nat blksize) md data)
               else (success, typed_zero_pad_generic_blocked md data)
           | None \<Rightarrow> (success, typed_zero_pad_generic_blocked md data))"

definition zero_pad :: "bool \<Rightarrow> memory_desc \<Rightarrow> (int \<Rightarrow> 'a::zero) \<Rightarrow> status \<times> (int \<Rightarrow> 'a)" where
  "zero_pad storage_is_null md data =
     (if storage_is_null \<or> is_zero md \<or> \<not> is_blocking_desc md then (success, data)
      else if md_data_type md \<in> {f16, bf16, f32, s32, s8, u8} then typed_zero_pad md data
      else (unimplemented, data))"

section \<open>The generic routine zeroes exactly the padding\<close>

definition is_padding :: "memory_desc \<Rightarrow> nat \<Rightarrow> bool" where
  "is_padding md e \<longleftrightarrow> (\<exists>d<ndims md. md_dims md d \<le> int (radix_digits (extents md True) e ! d))"

lemma zero_pad_scan_eq:
  assumes "zero_pad_scan dims pdims n s = (step, k)"
  shows "(case k of None \<Rightarrow> (\<forall>d<n. dims d = pdims d)
     | Some k \<Rightarrow> k < n \<and> dims k \<noteq> pdims k \<and> (\<forall>d. k < d \<and> d < n \<longrightarrow> dims d = pdims d) \<and>
         step = s * (\<Prod>d\<in>{Suc k..<n}. pdims d))"
  using assms
proof (induction n arbitrary: s)
  case (Suc n)
  show ?case
  proof (cases "dims n = pdims n")
    case False
    then show ?thesis using Suc.prems by auto
  next
    case True
    then have "zero_pad_scan dims pdims n (s * dims n) = (step, k)" using Suc.prems by simp
    from Suc.IH [OF this] show ?thesis
      using True by (auto simp: less_Suc_eq prod.atLeastLessThan_Suc split: option.splits)
  qed
qed simp

lemma need_zero_from_eq:
  assumes "\<And>d. d < k \<Longrightarrow> 0 < pdims d"
  shows "need_zero_from dims pdims k (int idx) \<longleftrightarrow>
    (\<exists>d<k. dims d \<le> int (idx div (\<Prod>j\<in>{Suc d..<k}. nat (pdims j)) mod nat (pdims d)))"
  using assms
proof (induction k arbitrary: idx)
  case (Suc k)
  let ?p = "nat (pdims k)"
  have p: "0 < pdims k" using Suc.prems by simp
  have m: "int idx smod pdims k = int (idx mod ?p)" "int idx sdiv pdims k = int (idx div ?p)"
    using p by (simp_all add: cdiv_simps zmod_int zdiv_int)
  have pr: "idx div (\<Prod>j\<in>{Suc d..<Suc k}. nat (pdims j)) = idx div ?p div (\<Prod>j\<in>{Suc d..<k}. nat (pdims j))"
    if "d < k" for d
    using that by (simp add: prod.atLeastLessThan_Suc div_mult2_eq mult.commute [of _ ?p])
  have IH: "need_zero_from dims pdims k (int (idx div ?p)) \<longleftrightarrow>
    (\<exists>d<k. dims d \<le> int (idx div ?p div (\<Prod>j\<in>{Suc d..<k}. nat (pdims j)) mod nat (pdims d)))"
    by (rule Suc.IH) (use Suc.prems in simp)
  have ex: "(\<exists>d<Suc k. P d) \<longleftrightarrow> P k \<or> (\<exists>d<k. P d)" for P by (metis less_Suc_eq)
  show ?case
    unfolding ex need_zero_from.simps m IH using pr by (simp cong: conj_cong)
qed simp

lemma prod_list_drop_extents:
  assumes "k \<le> ndims md"
  shows "prod_list (drop k (extents md True)) = (\<Prod>j\<in>{k..<ndims md}. nat (padded_dims md j))"
  using assms
  by (simp add: extents_def drop_map)
    (metis (no_types) distinct_upt prod.distinct_set_conv_list set_upt)

lemma blocks_loop:
  fixes addr :: "nat \<Rightarrow> int" and need :: "nat \<Rightarrow> bool" and data :: "int \<Rightarrow> 'a::zero"
  assumes inj: "\<And>e e'. e < n \<Longrightarrow> e' < n \<Longrightarrow> addr e = addr e' \<Longrightarrow> e = e'" and K: "K * step \<le> n"
  defines "body \<equiv> \<lambda>e1 data. if need e1 then for_upto step (\<lambda>e0 data. data(addr (e1 * step + e0) := 0)) data else data"
  shows "(\<forall>e<n. for_upto K body data (addr e) =
      (if e < K * step \<and> need (e div step) then 0 else data (addr e))) \<and>
    (\<forall>a. a \<notin> addr ` {..<n} \<longrightarrow> for_upto K body data a = data a)"
  using K
proof (induction K)
  case (Suc K)
  let ?D = "for_upto K body data"
  have IH: "\<And>e. e < n \<Longrightarrow> ?D (addr e) = (if e < K * step \<and> need (e div step) then 0 else data (addr e))"
    "\<And>a. a \<notin> addr ` {..<n} \<Longrightarrow> ?D a = data a" using Suc by auto
  have inner: "for_upto m (\<lambda>e0 data. data(addr (K * step + e0) := 0)) f a =
      (if \<exists>e0<m. a = addr (K * step + e0) then 0 else f a)" for m f a
    by (induction m) (auto simp: for_range_Suc less_Suc_eq)
  have step: "for_upto (Suc K) body data a =
      (if need K \<and> (\<exists>e0 < step. a = addr (K * step + e0)) then 0 else ?D a)" for a
    by (auto simp: for_range_Suc body_def inner)
  have lt: "K * step + e0 < n" if "e0 < step" for e0 using that Suc.prems by simp
  have mem: "(\<exists>e0 < step. addr e = addr (K * step + e0)) \<longleftrightarrow> K * step \<le> e \<and> e < Suc K * step" if "e < n" for e
  proof
    assume "\<exists>e0 < step. addr e = addr (K * step + e0)"
    then obtain e0 where "e0 < step" "addr e = addr (K * step + e0)" by blast
    then have "e = K * step + e0" using inj [OF that lt] by blast
    then show "K * step \<le> e \<and> e < Suc K * step" using \<open>e0 < step\<close> by simp
  next
    assume "K * step \<le> e \<and> e < Suc K * step"
    then show "\<exists>e0 < step. addr e = addr (K * step + e0)" by (intro exI [of _ "e - K * step"]) auto
  qed
  show ?case
  proof (intro conjI allI impI)
    fix e assume e: "e < n"
    have "e div step = K" if "K * step \<le> e" "e < Suc K * step"
      using that by (metis div_nat_eqI mult.commute)
    then show "for_upto (Suc K) body data (addr e) =
        (if e < Suc K * step \<and> need (e div step) then 0 else data (addr e))"
      unfolding step mem [OF e] IH(1) [OF e] by (auto simp: not_less)
  next
    fix a assume "a \<notin> addr ` {..<n}"
    moreover from this have "\<not> (\<exists>e0 < step. a = addr (K * step + e0))" using lt by blast
    ultimately show "for_upto (Suc K) body data a = data a" using IH(2) by (auto simp: step)
  qed
qed simp

lemma is_padding_div:
  assumes pos: "\<And>d. d < ndims md \<Longrightarrow> 0 < padded_dims md d" and k: "k < ndims md"
    and same: "\<And>d. k < d \<Longrightarrow> d < ndims md \<Longrightarrow> md_dims md d = padded_dims md d"
    and e: "e < prod_list (extents md True)"
  shows "is_padding md e \<longleftrightarrow> need_zero_from (md_dims md) (padded_dims md) (Suc k)
    (int (e div prod_list (drop (Suc k) (extents md True))))"
proof -
  let ?Ds = "extents md True" and ?p = "\<lambda>j. nat (padded_dims md j)"
  have len: "length ?Ds = ndims md" by (simp add: extents_def)
  have nth: "?Ds ! d = ?p d" if "d < ndims md" for d using that by (simp add: extents_def)
  have dg: "radix_digits ?Ds e ! d = e div (\<Prod>j\<in>{Suc d..<ndims md}. ?p j) mod ?p d" if "d < ndims md" for d
    using that by (simp add: radix_digits_nth len nth prod_list_drop_extents Suc_leI)
  have "\<not> md_dims md d \<le> int (radix_digits ?Ds e ! d)" if "k < d" "d < ndims md" for d
  proof -
    have "x mod ?p d < ?p d" for x using pos [OF that(2)] by simp
    then have "int (x mod ?p d) < padded_dims md d" for x
      using pos [OF that(2)] by (metis int_nat_eq less_imp_le of_nat_less_iff)
    then show ?thesis using same [OF that] by (simp add: dg that not_le)
  qed
  then have 1: "is_padding md e \<longleftrightarrow> (\<exists>d<Suc k. md_dims md d \<le> int (radix_digits ?Ds e ! d))"
    using k unfolding is_padding_def by (metis less_Suc_eq_le not_less order.strict_trans1)
  have 2: "e div (\<Prod>j\<in>{Suc d..<ndims md}. ?p j) =
      e div prod_list (drop (Suc k) ?Ds) div (\<Prod>j\<in>{Suc d..<Suc k}. ?p j)" if "d < Suc k" for d
  proof -
    have "(\<Prod>j\<in>{Suc d..<ndims md}. ?p j) = (\<Prod>j\<in>{Suc k..<ndims md}. ?p j) * (\<Prod>j\<in>{Suc d..<Suc k}. ?p j)"
      using that k by (subst mult.commute, subst prod.atLeastLessThan_concat) auto
    then show ?thesis using k by (simp add: div_mult2_eq prod_list_drop_extents Suc_leI)
  qed
  show ?thesis
    unfolding 1 using need_zero_from_eq [of "Suc k" "padded_dims md" "md_dims md"] pos k
    by (simp add: dg 2 cong: conj_cong)
qed

lemma generic_zero_pad:
  assumes dl: "wf_padded md" and diff: "\<exists>d<ndims md. md_dims md d \<noteq> padded_dims md d"
  shows "(\<forall>e<count_padded md. typed_zero_pad_generic_blocked md data (addr_padded md e) =
      (if is_padding md e then 0 else data (addr_padded md e))) \<and>
    (\<forall>a. a \<notin> addr_padded md ` {..<count_padded md} \<longrightarrow> typed_zero_pad_generic_blocked md data a = data a)"
proof -
  have pos: "\<And>d. d < ndims md \<Longrightarrow> 0 < padded_dims md d" using wf_padded_pos [OF dl] by blast
  obtain step ko where sc: "zero_pad_scan (md_dims md) (padded_dims md) (ndims md) 1 = (step, ko)" by force
  from zero_pad_scan_eq [OF sc] diff obtain k where k: "ko = Some k" "k < ndims md"
    "\<And>d. k < d \<Longrightarrow> d < ndims md \<Longrightarrow> md_dims md d = padded_dims md d"
    and st: "step = (\<Prod>d\<in>{Suc k..<ndims md}. padded_dims md d)"
    by (auto split: option.splits)
  let ?Ds = "extents md True" and ?S = "prod_list (drop (Suc k) (extents md True))"
  have "step = (\<Prod>d\<in>{Suc k..<ndims md}. int (nat (padded_dims md d)))"
    unfolding st by (rule prod.cong) (use pos in \<open>auto simp: less_imp_le\<close>)
  then have stS: "step = int ?S" using k(2) by (simp add: prod_list_drop_extents Suc_leI)
  have split: "prod_list ?Ds = prod_list (take (Suc k) ?Ds) * ?S"
    by (metis append_take_drop_id prod_list.append)
  have cnt: "count_padded md = prod_list ?Ds" by (rule count_padded_eq [OF dl])
  have S0: "0 < ?S"
    using pos k(2) by (simp add: prod_list_drop_extents Suc_leI prod_pos)
  define K where "K = prod_list (take (Suc k) ?Ds)"
  have ne: "nelems md True = int (prod_list ?Ds)"
  proof -
    have "0 \<le> nelems md True"
      using wf_padded_pos [OF dl] array_product_pos [of "ndims md" "padded_dims md"]
      by (simp add: nelems_def is_zero_def less_imp_le)
    then show ?thesis using cnt by (simp add: count_padded_def)
  qed
  have Kq: "nat (nelems md True sdiv step) = K"
    using S0 by (simp add: ne stS split K_def cdiv_simps zdiv_int [symmetric])
  let ?need = "\<lambda>e1. need_zero_from (md_dims md) (padded_dims md) (Suc k) (int e1)"
  have nK: "count_padded md = K * ?S" using cnt split K_def by simp
  have eq: "typed_zero_pad_generic_blocked md data =
      for_upto K (\<lambda>e1 data. if ?need e1
        then for_upto ?S (\<lambda>e0 data. data(addr_padded md (e1 * ?S + e0) := 0)) data else data) data"
    unfolding typed_zero_pad_generic_blocked_def sc k(1) Let_def split_conv option.case Kq
    unfolding stS addr_padded_def nat_int of_nat_mult of_nat_add ..
  have bl: "(\<forall>e<count_padded md. typed_zero_pad_generic_blocked md data (addr_padded md e) =
      (if e < K * ?S \<and> ?need (e div ?S) then 0 else data (addr_padded md e))) \<and>
    (\<forall>a. a \<notin> addr_padded md ` {..<count_padded md} \<longrightarrow> typed_zero_pad_generic_blocked md data a = data a)"
    unfolding eq by (rule blocks_loop [OF padded.addr_inj [OF dl]]) (simp_all add: nK)
  have "is_padding md e \<longleftrightarrow> ?need (e div ?S)" if "e < count_padded md" for e
    using is_padding_div [OF pos k(2,3), of e] that cnt by simp
  then show ?thesis using bl nK by auto
qed

section \<open>Properties\<close>

text \<open>
  C16: on a descriptor made from a tag, the generic routine zeroes the elements of the padded
  area that lie outside the tensor, and changes nothing else in memory.
\<close>

theorem generic_zero_pad_exact:
  assumes "dnnl_memory_desc_init_by_tag nd (Some dims) dt (Tag name) = (success, Some md)"
    and "nd \<noteq> 0" and "\<And>d. d < nat nd \<Longrightarrow> 0 < dims d"
    and "\<exists>d<ndims md. md_dims md d \<noteq> padded_dims md d"
  shows "(\<forall>e<nat (nelems md True). typed_zero_pad_generic_blocked md data (off_l md (int e) True) =
      (if is_padding md e then 0 else data (off_l md (int e) True))) \<and>
    (\<forall>a. a < 0 \<or> nelems md True \<le> a \<longrightarrow> typed_zero_pad_generic_blocked md data a = data a)"
proof -
  have wf: "wf_padded md" and off: "offset0 md = 0"
    using init_by_tag_dense [OF assms(1,2)] assms(3) by blast+
  note g = generic_zero_pad [OF wf assms(4), of data]
  have "a \<notin> addr_padded md ` {..<count_padded md}" if a: "a < 0 \<or> nelems md True \<le> a" for a
  proof
    assume "a \<in> addr_padded md ` {..<count_padded md}"
    then obtain e where "e < count_padded md" "a = addr_padded md e" by blast
    then have "0 \<le> a \<and> a < int (count_padded md)"
      using padded.addr_range [OF wf] off by simp
    with a show False by (auto simp: count_padded_def split: if_splits)
  qed
  then show ?thesis using g unfolding addr_padded_def count_padded_def by blast
qed

theorem generic_zero_pad_exact_witness:
  "\<exists>md. dnnl_memory_desc_init_by_tag 4 (Some (arr [2, 17, 3, 5])) f32 (Tag ''aBcd16b'') = (success, Some md) \<and>
     (typed_zero_pad_generic_blocked md (\<lambda>_. 7::int) (-1) = 7)"
proof -
  obtain md where md: "dnnl_memory_desc_init_by_tag 4 (Some (arr [2, 17, 3, 5])) f32 (Tag ''aBcd16b'') = (success, Some md)"
    and "ndims md = 4" "padded_dims md 1 = 32" "nelems md True = 960"
    by (rule nChw16c_example)
  moreover have "md_dims md 1 = 17" using init_by_tag_dense(5) [OF md _ nChw16c_pos, of 1] by simp
  ultimately have "\<exists>d<ndims md. md_dims md d \<noteq> padded_dims md d" by (intro exI [of _ 1]) simp
  then show ?thesis using generic_zero_pad_exact [OF md _ nChw16c_pos, of "\<lambda>_. 7::int"] md by auto
qed

end
