(* ===== verification/Simple_Reorder.thy ===== *)
theory Simple_Reorder
  imports Zero_Pad
begin

text \<open>
  The reference reorder of \<open>src/src/cpu/simple_reorder.hpp\<close>
  (\<open>simple_reorder_impl<..., spec::reference>\<close>): it moves every element from its offset in the
  source layout to its offset in the destination layout. The element conversion \<open>_qz\<close> is the
  template argument \<open>qz scale beta i o\<close>.
\<close>

section \<open>The scale mask\<close>

function skip_zeros :: "int \<Rightarrow> nat \<Rightarrow> int \<times> nat" where
  "skip_zeros smask n = (if smask > 0 \<and> even smask then skip_zeros (smask div 2) (n + 1) else (smask, n))"
  by pat_completeness auto
termination by (relation "measure (\<lambda>(m, n). nat m)") auto

function skip_ones :: "int \<Rightarrow> nat \<Rightarrow> int \<times> nat" where
  "skip_ones smask n = (if smask > 0 \<and> odd smask then skip_ones (smask div 2) (n + 1) else (smask, n))"
  by pat_completeness auto
termination by (relation "measure (\<lambda>(m, n). nat m)") auto

declare skip_zeros.simps [simp del] skip_ones.simps [simp del]

definition simple_reorder_is_applicable :: "memory_desc \<Rightarrow> memory_desc \<Rightarrow> int \<Rightarrow> bool" where
  "simple_reorder_is_applicable input_d output_d omask =
     (let smask = fst (skip_ones (fst (skip_zeros omask 0)) 0)
      in is_blocking_desc input_d \<and> is_blocking_desc output_d \<and>
         \<not> is_additional_buffer output_d \<and> \<not> is_additional_buffer input_d \<and> smask = 0)"

definition simple_reorder_split :: "memory_desc \<Rightarrow> int \<Rightarrow> int \<times> int \<times> int" where
  "simple_reorder_split input_d omask =
     (let (smask, ndims_start) = skip_zeros omask 0;
          (_, ndims_mask) = skip_ones smask 0;
          D_start = array_product (md_dims input_d) ndims_start;
          D_mask = array_product (from_index ndims_start (md_dims input_d)) ndims_mask;
          D_rest = nelems input_d False sdiv D_start sdiv D_mask
      in (D_start, D_mask, D_rest))"

definition simple_reorder_execute ::
  "('s \<Rightarrow> 's \<Rightarrow> 'i \<Rightarrow> 'o \<Rightarrow> 'o) \<Rightarrow> memory_desc \<Rightarrow> memory_desc \<Rightarrow> int \<Rightarrow> (nat \<Rightarrow> 's) \<Rightarrow> 's \<Rightarrow>
    (int \<Rightarrow> 'i) \<Rightarrow> (int \<Rightarrow> 'o) \<Rightarrow> int \<Rightarrow> 'o" where
  "simple_reorder_execute qz input_d output_d omask scales beta inp outp =
     (let (D_start, D_mask, D_rest) = simple_reorder_split input_d omask
      in par_for [nat D_start, nat D_mask, nat D_rest]
           (\<lambda>ix outp.
              let ds = ix ! 0; dm = ix ! 1; dr = ix ! 2;
                  scale = scales dm;
                  e = (int ds * D_mask + int dm) * D_rest + int dr;
                  i = inp (off_l input_d e False);
                  o_at = off_l output_d e False
              in outp(o_at := qz scale beta i (outp o_at)))
           outp)"

section \<open>What it computes\<close>

lemma par_for_eq: "par_for Ds f s = for_upto (prod_list Ds) (\<lambda>n. f (radix_digits Ds n)) s"
  by (simp add: par_for_def parallel_nd_traces nd_indices_def for_range_def fold_map comp_def)

lemma array_product_split:
  "array_product a (m + n) = array_product a m * array_product (from_index m a) n"
  by (induction n) (simp_all add: from_index_def algebra_simps)

text \<open>The mask says which scale an element takes: the middle digit of its number.\<close>

definition scale_index :: "memory_desc \<Rightarrow> int \<Rightarrow> nat \<Rightarrow> nat" where
  "scale_index input_d omask e =
     (let (D_start, D_mask, D_rest) = simple_reorder_split input_d omask in e div nat D_rest mod nat D_mask)"

lemma simple_reorder_moves:
  assumes sp: "simple_reorder_split input_d omask = (D_start, D_mask, D_rest)"
    and pos: "0 < D_start" "0 < D_mask" "0 < D_rest"
    and n: "nat (nelems input_d False) = nat D_start * nat D_mask * nat D_rest"
  shows "simple_reorder_execute qz input_d output_d omask scales beta inp outp =
    for_upto (nat (nelems input_d False))
      (\<lambda>e outp. outp(addr_logical output_d e :=
         qz (scales (scale_index input_d omask e)) beta (inp (addr_logical input_d e))
           (outp (addr_logical output_d e)))) outp"
proof -
  let ?Ds = "[nat D_start, nat D_mask, nat D_rest]"
  have e: "(int (radix_digits ?Ds e ! 0) * D_mask + int (radix_digits ?Ds e ! 1)) * D_rest +
      int (radix_digits ?Ds e ! 2) = int e" if "e < prod_list ?Ds" for e
  proof -
    have "radix_val ?Ds (radix_digits ?Ds e) = e" using that by (simp only: radix_val_digits mod_less)
    moreover have "D_mask = int (nat D_mask)" "D_rest = int (nat D_rest)" using pos by simp_all
    ultimately show ?thesis
      by (simp add: algebra_simps numeral_2_eq_2 del: int_nat_eq)
        (metis (no_types, lifting) add.assoc mult.assoc mult.commute of_nat_add of_nat_mult)
  qed
  have sc: "radix_digits ?Ds e ! 1 = scale_index input_d omask e" for e
    by (simp add: scale_index_def sp)
  have n': "nat (nelems input_d False) = prod_list ?Ds" using n by (simp add: mult.assoc)
  show ?thesis
    unfolding simple_reorder_execute_def sp Let_def split_conv par_for_eq n' addr_logical_def
    by (rule for_range_cong) (simp only: e [unfolded sc] sc)
qed

lemma simple_reorder_split_exact:
  assumes sp: "simple_reorder_split input_d omask = (D_start, D_mask, D_rest)"
    and within: "snd (skip_zeros omask 0) + snd (skip_ones (fst (skip_zeros omask 0)) 0) \<le> ndims input_d"
    and dims: "\<And>d. d < ndims input_d \<Longrightarrow> 0 < md_dims input_d d" and nd: "md_ndims input_d \<noteq> 0"
  shows "0 < D_start" "0 < D_mask" "0 < D_rest"
    "nat (nelems input_d False) = nat D_start * nat D_mask * nat D_rest"
proof -
  define m n where "m = snd (skip_zeros omask 0)" and "n = snd (skip_ones (fst (skip_zeros omask 0)) 0)"
  let ?a = "md_dims input_d"
  have mn: "m + n \<le> ndims input_d" using within by (simp add: m_def n_def)
  then obtain k where k: "ndims input_d = m + n + k" by (metis le_iff_add)
  let ?R = "array_product (from_index (m + n) ?a) k"
  have D: "D_start = array_product ?a m" "D_mask = array_product (from_index m ?a) n"
    "D_rest = nelems input_d False sdiv D_start sdiv D_mask"
    using sp by (auto simp: simple_reorder_split_def m_def n_def split_beta Let_def)
  have p: "0 < D_start" "0 < D_mask" "0 < ?R"
    unfolding D by (auto intro!: array_product_pos dims simp: from_index_def k)
  have ne: "nelems input_d False = D_start * D_mask * ?R"
    using nd by (simp add: nelems_def is_zero_def k array_product_split D)
  then have r: "D_rest = ?R" using p by (simp add: D(3) cdiv_simps mult.assoc)
  show "0 < D_start" "0 < D_mask" "0 < D_rest" using p r by auto
  show "nat (nelems input_d False) = nat D_start * nat D_mask * nat D_rest"
    using p by (simp add: ne r nat_mult_distrib)
qed

text \<open>All the reorder needs of its destination: distinct positions have distinct addresses.\<close>

definition injective_layout :: "memory_desc \<Rightarrow> bool" where
  "injective_layout md \<longleftrightarrow> inj_on (addr_logical md) {..<count_logical md}"

interpretation injective: tensor_layout injective_layout count_logical addr_logical
  by unfold_locales (auto simp: injective_layout_def inj_on_def)

lemma wf_logical_injective: "wf_logical md \<Longrightarrow> injective_layout md"
  unfolding injective_layout_def by (rule inj_onI) (use logical.addr_inj in auto)

lemma simple_reorder_moves_every_element_aux:
  assumes "injective_layout output_d" "consistent_with input_d output_d" "md_ndims input_d \<noteq> 0"
    and "\<And>d. d < ndims input_d \<Longrightarrow> 0 < md_dims input_d d"
    and "snd (skip_zeros omask 0) + snd (skip_ones (fst (skip_zeros omask 0)) 0) \<le> ndims input_d"
  shows "(\<forall>e<nat (nelems input_d False).
      simple_reorder_execute qz input_d output_d omask scales beta inp outp (off_l output_d (int e) False) =
      qz (scales (scale_index input_d omask e)) beta (inp (off_l input_d (int e) False))
        (outp (off_l output_d (int e) False))) \<and>
    (\<forall>a. a \<notin> addr_logical output_d ` {..<nat (nelems input_d False)} \<longrightarrow>
      simple_reorder_execute qz input_d output_d omask scales beta inp outp a = outp a)"
proof -
  obtain D_start D_mask D_rest where sp: "simple_reorder_split input_d omask = (D_start, D_mask, D_rest)"
    by (metis prod_cases3)
  have mv: "simple_reorder_execute qz input_d output_d omask scales beta inp outp =
    for_upto (nat (nelems input_d False))
      (\<lambda>e outp. outp(addr_logical output_d e :=
         qz (scales (scale_index input_d omask e)) beta (inp (addr_logical input_d e))
           (outp (addr_logical output_d e)))) outp"
    by (rule simple_reorder_moves [OF sp simple_reorder_split_exact [OF sp assms(5,4,3)]])
  have cnt: "nat (nelems input_d False) = count_logical output_d"
    using assms(2) by (auto simp: count_logical_def consistent_with_def nelems_def is_zero_def ndims_def
        split: if_splits intro!: arg_cong [where f = nat] array_product_cong)
  let ?f = "\<lambda>(i, s) o'. qz s beta i o'"
  have eq: "simple_reorder_execute qz input_d output_d omask scales beta inp outp =
      move_elems (\<lambda>e. int e) (addr_logical output_d) ?f (count_logical output_d)
        (\<lambda>a. (inp (addr_logical input_d (nat a)), scales (scale_index input_d omask (nat a)))) outp"
    unfolding mv cnt move_elems_def by simp
  show ?thesis
    unfolding eq cnt addr_logical_def [symmetric]
    by (simp add: injective.move_elems_read [OF assms(1)] injective.move_elems_frame [OF assms(1)])
qed

text \<open>The witnesses reorder a 2 x 3 matrix between the row-major and the column-major layout.\<close>

lemma matrix_example:
  assumes "map_of blocking_table name = Some (perm, [], [])" "length perm = 2"
  obtains md where "dnnl_memory_desc_init_by_tag 2 (Some (arr [2, 3])) f32 (Tag name) = (success, Some md)"
    "wf_logical md" "md_ndims md = 2" "md_dims md 0 = 2" "md_dims md 1 = 3"
proof -
  have pos: "0 < arr [2, 3::int] d" if "d < nat 2" for d using that by (auto simp: less_Suc_eq numeral_2_eq_2)
  have "fst (dnnl_memory_desc_init_by_tag 2 (Some (arr [2, 3])) f32 (Tag name)) = success"
    using assms pos by (subst init_by_tag_iff) (auto simp: less_imp_le)
  then obtain md where md: "dnnl_memory_desc_init_by_tag 2 (Some (arr [2, 3])) f32 (Tag name) = (success, Some md)"
    by (rule init_by_tag_some [rotated]) simp_all
  have "wf_logical md" "md_ndims md = 2" "md_dims md 0 = 2" "md_dims md 1 = 3"
    using init_by_tag_dense [OF md] pos by simp_all
  then show thesis using that md by blast
qed

lemma matrix_examples:
  obtains a b where "dnnl_memory_desc_init_by_tag 2 (Some (arr [2, 3])) f32 (Tag ''ab'') = (success, Some a)"
    "dnnl_memory_desc_init_by_tag 2 (Some (arr [2, 3])) f32 (Tag ''ba'') = (success, Some b)"
    "wf_logical a" "wf_logical b" "consistent_with a b" "nat (nelems a False) = 6"
    "md_ndims a \<noteq> 0" "\<And>d. d < ndims a \<Longrightarrow> 0 < md_dims a d" "ndims a = 2"
proof -
  obtain a where a: "dnnl_memory_desc_init_by_tag 2 (Some (arr [2, 3])) f32 (Tag ''ab'') = (success, Some a)"
    "wf_logical a" "md_ndims a = 2" "md_dims a 0 = 2" "md_dims a 1 = 3"
    by (rule matrix_example [of "''ab''" "[0, 1]"]) (simp_all add: blocking_table_def)
  obtain b where b: "dnnl_memory_desc_init_by_tag 2 (Some (arr [2, 3])) f32 (Tag ''ba'') = (success, Some b)"
    "wf_logical b" "md_ndims b = 2" "md_dims b 0 = 2" "md_dims b 1 = 3"
    by (rule matrix_example [of "''ba''" "[1, 0]"]) (simp_all add: blocking_table_def)
  have "consistent_with a b" using a b
    by (auto simp: consistent_with_def ndims_def less_Suc_eq numeral_2_eq_2)
  moreover have "nat (nelems a False) = 6" using a
    by (simp add: nelems_def is_zero_def ndims_def array_product_eq numeral_2_eq_2)
  moreover have "0 < md_dims a d" if "d < ndims a" for d
    using that a by (auto simp: ndims_def less_Suc_eq numeral_2_eq_2)
  ultimately show thesis using that a b by (simp add: ndims_def)
qed

section \<open>Properties\<close>

text \<open>
  C15: the reference reorder writes, for every element of the tensor, the converted source
  element at the element's place in the destination layout, with the scale the mask selects, and
  writes nowhere else.
\<close>

theorem simple_reorder_moves_every_element:
  assumes "wf_logical output_d" "consistent_with input_d output_d" "md_ndims input_d \<noteq> 0"
    and "\<And>d. d < ndims input_d \<Longrightarrow> 0 < md_dims input_d d"
    and "snd (skip_zeros omask 0) + snd (skip_ones (fst (skip_zeros omask 0)) 0) \<le> ndims input_d"
  shows "(\<forall>e<nat (nelems input_d False).
      simple_reorder_execute qz input_d output_d omask scales beta inp outp (off_l output_d (int e) False) =
      qz (scales (scale_index input_d omask e)) beta (inp (off_l input_d (int e) False))
        (outp (off_l output_d (int e) False))) \<and>
    (\<forall>a. a \<notin> addr_logical output_d ` {..<nat (nelems input_d False)} \<longrightarrow>
      simple_reorder_execute qz input_d output_d omask scales beta inp outp a = outp a)"
  by (rule simple_reorder_moves_every_element_aux [OF wf_logical_injective [OF assms(1)] assms(2-)])

theorem simple_reorder_moves_every_element_witness:
  "\<exists>a b. dnnl_memory_desc_init_by_tag 2 (Some (arr [2, 3])) f32 (Tag ''ab'') = (success, Some a) \<and>
     dnnl_memory_desc_init_by_tag 2 (Some (arr [2, 3])) f32 (Tag ''ba'') = (success, Some b) \<and>
     simple_reorder_execute (\<lambda>s _ i _. s * i) a b 0 (\<lambda>_. 1::int) 0 (\<lambda>x. 3 * x) (\<lambda>_. 7) (off_l b 4 False) =
       3 * off_l a 4 False"
proof -
  obtain a b where ab: "dnnl_memory_desc_init_by_tag 2 (Some (arr [2, 3])) f32 (Tag ''ab'') = (success, Some a)"
    "dnnl_memory_desc_init_by_tag 2 (Some (arr [2, 3])) f32 (Tag ''ba'') = (success, Some b)"
    "wf_logical a" "wf_logical b" "consistent_with a b" "nat (nelems a False) = 6"
    "md_ndims a \<noteq> 0" "\<And>d. d < ndims a \<Longrightarrow> 0 < md_dims a d" "ndims a = 2"
    using matrix_examples by blast
  have z: "snd (skip_zeros 0 0) + snd (skip_ones (fst (skip_zeros 0 0)) 0) \<le> ndims a"
    by (subst skip_zeros.simps, subst skip_zeros.simps, subst skip_ones.simps) simp
  have "\<forall>e<6. simple_reorder_execute (\<lambda>s _ i _. s * i) a b 0 (\<lambda>_. 1::int) 0 (\<lambda>x. 3 * x) (\<lambda>_. 7) (off_l b (int e) False) =
       3 * off_l a (int e) False"
    using simple_reorder_moves_every_element [where qz = "\<lambda>s _ i _. s * i" and scales = "\<lambda>_. 1" and beta = 0
      and inp = "\<lambda>x. 3 * x" and outp = "\<lambda>_. 7", OF ab(4,5,7,8) z] ab(6)
    by simp
  from this [rule_format, of 4] show ?thesis using ab(1,2) by auto
qed



end
