(* ===== verification/Memory_Tracking.thy ===== *)
theory Memory_Tracking
  imports Utils
begin

text \<open>
  Scratchpad bookkeeping, \<open>src/src/common/memory_tracking.hpp\<close>: a primitive books memory under
  keys while it is created (\<open>registry_t\<close>, \<open>registrar_t\<close>) and asks for the addresses when it runs
  (\<open>grantor_t\<close>). Keys are \<open>uint32_t\<close>, sizes and addresses are 64-bit words; the null pointer
  is 0. \<open>src/src/common/scratchpad.cpp\<close> owns the memory itself.
\<close>

section \<open>Keys and prefixes\<close>

definition MAX_KEY :: u32 where
  "MAX_KEY = 1024"

definition MAX_PREFIX :: u32 where
  "MAX_PREFIX = 128"

definition make_key :: "u32 \<Rightarrow> u32 \<Rightarrow> u32" where
  "make_key prefix key = prefix + key"

definition make_prefix :: "u32 \<Rightarrow> u32 \<Rightarrow> u32" where
  "make_prefix parent_prefix prefix = MAX_PREFIX * parent_prefix + MAX_KEY * prefix"

text \<open>The prefix of a registrar or grantor nested under the given local prefixes.\<close>

definition nested_prefix :: "u32 list \<Rightarrow> u32" where
  "nested_prefix ps = fold (\<lambda>p parent. make_prefix parent p) ps 0"

section \<open>The registry\<close>

record entry =
  entry_offset :: u64
  entry_size :: u64
  entry_alignment :: u64

record registry =
  offset_map :: "u32 \<Rightarrow> entry option"
  reg_size :: u64

definition minimal_alignment :: u64 where
  "minimal_alignment = 64"

definition empty_registry :: registry where
  "empty_registry = \<lparr>offset_map = (\<lambda>_. None), reg_size = 0\<rparr>"

definition book :: "u32 \<Rightarrow> u64 \<Rightarrow> u64 \<Rightarrow> registry \<Rightarrow> registry" where
  "book key sz alignment r =
     (if sz = 0 then r
      else
        let sz = rnd_up_u64 sz minimal_alignment;
            alignment = max alignment minimal_alignment
        in r\<lparr>offset_map := (offset_map r)(key \<mapsto>
               \<lparr>entry_offset = reg_size r, entry_size = sz, entry_alignment = alignment\<rparr>),
             reg_size := reg_size r + (sz + alignment - minimal_alignment)\<rparr>)"

definition reg_get :: "registry \<Rightarrow> u32 \<Rightarrow> u64 \<Rightarrow> u64" where
  "reg_get r key base_ptr =
     (if base_ptr = 0 then 0
      else case offset_map r key of
          None \<Rightarrow> 0
        | Some e \<Rightarrow>
            let base_ptr = align_ptr base_ptr minimal_alignment;
                ptr = base_ptr + entry_offset e
            in align_ptr ptr (entry_alignment e))"

definition registry_size :: "registry \<Rightarrow> u64" where
  "registry_size r = (if reg_size r > 0 then reg_size r + minimal_alignment - 1 else 0)"

text \<open>A registrar is its registry and prefix; a grantor has the base pointer too.\<close>

definition registrar_book :: "u32 \<Rightarrow> u32 \<Rightarrow> u64 \<Rightarrow> u64 \<Rightarrow> registry \<Rightarrow> registry" where
  "registrar_book prefix key sz alignment r = book (make_key prefix key) sz alignment r"

definition grantor_get :: "registry \<Rightarrow> u32 \<Rightarrow> u64 \<Rightarrow> u32 \<Rightarrow> u64" where
  "grantor_get r prefix base_ptr key = reg_get r (make_key prefix key) base_ptr"

section \<open>Nested keys do not collide\<close>

lemma nested_prefix_simps [simp]:
  "nested_prefix [] = 0" "nested_prefix (ps @ [p]) = make_prefix (nested_prefix ps) p"
  by (simp_all add: nested_prefix_def)

text \<open>The number a prefix list stands for: base 128 digits above the ten bits of the key.\<close>

definition prefix_num :: "u32 list \<Rightarrow> nat" where
  "prefix_num ps = fold (\<lambda>p n. 128 * n + unat p) ps 0"

definition valid_prefixes :: "u32 list \<Rightarrow> bool" where
  "valid_prefixes ps \<longleftrightarrow> length ps \<le> 3 \<and> (\<forall>p\<in>set ps. 0 < p \<and> p < MAX_PREFIX)"

lemma prefix_num_snoc [simp]: "prefix_num (ps @ [p]) = 128 * prefix_num ps + unat p"
  by (simp add: prefix_num_def)

lemma prefix_num_Nil [simp]: "prefix_num [] = 0"
  by (simp add: prefix_num_def)

lemma prefix_num_bound: "\<forall>p\<in>set ps. p < MAX_PREFIX \<Longrightarrow> prefix_num ps < 128 ^ length ps"
proof (induction ps rule: rev_induct)
  case (snoc p ps)
  then have "prefix_num ps < 128 ^ length ps" and "unat p < 128"
    by (simp_all add: MAX_PREFIX_def word_less_nat_alt)
  then show ?case by simp
qed simp

lemma nested_prefix_num:
  "\<forall>p\<in>set ps. p < MAX_PREFIX \<Longrightarrow> length ps \<le> 3 \<Longrightarrow> unat (nested_prefix ps) = 1024 * prefix_num ps"
proof (induction ps rule: rev_induct)
  case (snoc p ps)
  then have IH: "unat (nested_prefix ps) = 1024 * prefix_num ps" and p: "unat p < 128"
    by (simp_all add: MAX_PREFIX_def word_less_nat_alt)
  have "prefix_num ps < 128 ^ length ps" using snoc.prems by (intro prefix_num_bound) simp
  also have "(128::nat) ^ length ps \<le> 128 ^ 2" using snoc.prems(2) by (intro power_increasing) simp_all
  finally have b: "prefix_num ps < 16384" by simp
  have "unat (MAX_PREFIX * nested_prefix ps) = 128 * unat (nested_prefix ps)"
    using b IH by (simp add: unat_mult_lem [THEN iffD1] MAX_PREFIX_def)
  moreover have "unat (MAX_KEY * p) = 1024 * unat p"
    using p by (simp add: unat_mult_lem [THEN iffD1] MAX_KEY_def)
  moreover have "128 * (1024 * prefix_num ps) + 1024 * unat p < 2 ^ 32" using b p by simp
  ultimately have "unat (make_prefix (nested_prefix ps) p) = 128 * (1024 * prefix_num ps) + 1024 * unat p"
    unfolding make_prefix_def using IH by (subst unat_add_noov) simp_all
  then show ?case by simp
qed simp

lemma prefix_num_inj:
  "valid_prefixes ps \<Longrightarrow> valid_prefixes qs \<Longrightarrow> prefix_num ps = prefix_num qs \<Longrightarrow> ps = qs"
proof (induction ps arbitrary: qs rule: rev_induct)
  case Nil
  then show ?case
    by (cases qs rule: rev_cases) (auto simp: valid_prefixes_def word_less_nat_alt)
next
  case (snoc p ps)
  show ?case
  proof (cases qs rule: rev_cases)
    case Nil
    then show ?thesis using snoc.prems by (auto simp: valid_prefixes_def word_less_nat_alt)
  next
    case (snoc rs r)
    have l: "unat p < 128" "unat r < 128"
      using snoc.prems snoc by (auto simp: valid_prefixes_def MAX_PREFIX_def word_less_nat_alt)
    have e: "128 * prefix_num ps + unat p = 128 * prefix_num rs + unat r" using snoc.prems(3) snoc by simp
    then have "(128 * prefix_num ps + unat p) mod 128 = (128 * prefix_num rs + unat r) mod 128"
      "(128 * prefix_num ps + unat p) div 128 = (128 * prefix_num rs + unat r) div 128" by simp_all
    then have "unat p = unat r" "prefix_num ps = prefix_num rs" using l by simp_all
    then have "p = r" "ps = rs"
      using snoc.IH [of rs] snoc.prems(1,2) snoc
      by (auto simp: valid_prefixes_def word_unat_eq_iff)
    then show ?thesis using snoc by simp
  qed
qed

section \<open>Segments\<close>

text \<open>
  What is reserved for an entry: its size and the slack its alignment may cost, measured from
  the aligned base. All three numbers are multiples of the minimal alignment.
\<close>

definition reserved :: "entry \<Rightarrow> nat" where
  "reserved e = unat (entry_size e) + unat (entry_alignment e) - 64"

definition seg :: "entry \<Rightarrow> nat set" where
  "seg e = {unat (entry_offset e)..<unat (entry_offset e) + reserved e}"

definition entry_ok :: "registry \<Rightarrow> entry \<Rightarrow> bool" where
  "entry_ok r e \<longleftrightarrow> 64 dvd unat (entry_offset e) \<and>
     (\<exists>k. 6 \<le> k \<and> k < 63 \<and> entry_alignment e = 2 ^ k) \<and>
     unat (entry_offset e) + reserved e \<le> unat (reg_size r)"

definition registry_ok :: "registry \<Rightarrow> bool" where
  "registry_ok r \<longleftrightarrow> 64 dvd unat (reg_size r) \<and>
     (\<forall>key e. offset_map r key = Some e \<longrightarrow> entry_ok r e) \<and>
     (\<forall>key key' e e'. offset_map r key = Some e \<longrightarrow> offset_map r key' = Some e' \<longrightarrow> key \<noteq> key' \<longrightarrow>
        seg e \<inter> seg e' = {})"

lemma registry_ok_empty: "registry_ok empty_registry"
  by (simp add: registry_ok_def empty_registry_def)

text \<open>How much one booking adds to the size, if no addition wraps.\<close>

definition booked :: "u64 \<Rightarrow> u64 \<Rightarrow> nat" where
  "booked sz alignment =
     (unat sz + 63) div 64 * 64 + unat (max alignment minimal_alignment) - 64"

lemma rnd_up_64:
  assumes "unat sz + 63 < 2 ^ 64"
  shows "unat (rnd_up_u64 sz minimal_alignment) = (unat sz + 63) div 64 * 64"
proof -
  have e: "sz + minimal_alignment - 1 = sz + 63" by (simp add: minimal_alignment_def)
  have u: "unat (sz + 63) = unat sz + 63" using assms by (subst unat_add_noov) simp_all
  have "unat (div_up_u64 sz minimal_alignment) = unat (sz + 63) div unat minimal_alignment"
    by (simp only: div_up_u64_def unat_div e)
  then have d: "unat (div_up_u64 sz minimal_alignment) = (unat sz + 63) div 64"
    unfolding u by (simp add: minimal_alignment_def)
  have "(unat sz + 63) div 64 * 64 \<le> unat sz + 63" by simp
  then have "(unat sz + 63) div 64 * 64 < 2 ^ 64" using assms by linarith
  then show ?thesis
    using d by (simp add: rnd_up_u64_def unat_mult_lem [THEN iffD1] minimal_alignment_def)
qed

lemma pow2_max:
  assumes "k < 63"
  shows "\<exists>j. 6 \<le> j \<and> j < 63 \<and> max ((2::u64) ^ k) minimal_alignment = 2 ^ j"
proof (cases "6 \<le> k")
  case True
  have "(2::nat) ^ 6 \<le> 2 ^ k" using True by (intro power_increasing) simp_all
  then have "unat minimal_alignment \<le> unat ((2::u64) ^ k)"
    using unat_pow2 [of k] assms by (simp add: minimal_alignment_def)
  then have "max ((2::u64) ^ k) minimal_alignment = 2 ^ k" by (simp add: word_le_nat_alt max_def word_unat_eq_iff)
  then show ?thesis using True assms by blast
next
  case False
  have "(2::nat) ^ k \<le> 2 ^ 6" using False by (intro power_increasing) simp_all
  then have "unat ((2::u64) ^ k) \<le> unat minimal_alignment"
    using unat_pow2 [of k] assms by (simp add: minimal_alignment_def)
  then have "max ((2::u64) ^ k) minimal_alignment = 2 ^ 6"
    by (auto simp: word_le_nat_alt max_def word_unat_eq_iff minimal_alignment_def)
  then show ?thesis by (intro exI [of _ 6]) simp
qed

lemma pow2_64_dvd: "6 \<le> k \<Longrightarrow> k < 63 \<Longrightarrow> 64 dvd unat ((2::u64) ^ k)"
proof -
  assume k: "6 \<le> k" "k < 63"
  have "(2::nat) ^ 6 dvd 2 ^ k" using k(1) by (rule le_imp_power_dvd)
  then show ?thesis using unat_pow2 [of k] k by simp
qed

lemma dvd_gap_64:
  assumes "64 dvd x" "64 dvd y" "x < (y::nat)"
  shows "x + 64 \<le> y"
proof -
  obtain a b where "x = 64 * a" "y = 64 * b" using assms(1,2) by (elim dvdE)
  then show ?thesis using assms(3) by simp
qed

lemma round_64:
  fixes n :: nat
  defines "u \<equiv> (n + 63) div 64 * 64"
  shows "n \<le> u" "n + 63 < u + 64" "64 dvd u"
proof -
  have "n + 63 = u + (n + 63) mod 64" unfolding u_def by simp
  moreover have "(n + 63) mod 64 < 64" by simp
  ultimately show "n \<le> u" "n + 63 < u + 64" by linarith+
  show "64 dvd u" by (simp add: u_def)
qed

lemma booked_entry:
  assumes "sz \<noteq> 0" "k < 63" "unat (reg_size r) + booked sz (2 ^ k) < 2 ^ 64"
    and ok: "registry_ok r" and fresh: "offset_map r key = None"
  defines "r' \<equiv> book key sz (2 ^ k) r"
  shows "registry_ok r'" "unat (reg_size r') = unat (reg_size r) + booked sz (2 ^ k)"
    and "\<exists>e. offset_map r' = (offset_map r)(key \<mapsto> e) \<and> unat sz \<le> unat (entry_size e) \<and>
      2 ^ k dvd unat (entry_alignment e) \<and> entry_alignment e = max (2 ^ k) minimal_alignment"
proof -
  obtain j where j: "6 \<le> j" "j < 63" "max ((2::u64) ^ k) minimal_alignment = 2 ^ j"
    using pow2_max [OF assms(2)] by blast
  let ?A = "2 ^ j :: u64" and ?s = "rnd_up_u64 sz minimal_alignment"
  have A: "unat ?A = 2 ^ j" using j(2) by (intro unat_pow2) simp
  have A64: "64 \<le> unat ?A"
  proof -
    have "(2::nat) ^ 6 \<le> 2 ^ j" using j(1) by (intro power_increasing) simp_all
    then show ?thesis using A by simp
  qed
  have bk: "booked sz (2 ^ k) = (unat sz + 63) div 64 * 64 + unat ?A - 64" by (simp add: booked_def j(3))
  define u where "u = (unat sz + 63) div 64 * 64"
  have u: "unat sz \<le> u" "unat sz + 63 < u + 64" "64 dvd u"
    using round_64 [of "unat sz"] by (simp_all add: u_def)
  have "u < 2 ^ 64" using assms(3) A64 unfolding bk u_def [symmetric] by linarith
  moreover have "64 dvd (2::nat) ^ 64" by simp
  ultimately have "u + 64 \<le> 2 ^ 64" using u(3) by (intro dvd_gap_64)
  then have fit: "unat sz + 63 < 2 ^ 64" using u(2) by linarith
  have s: "unat ?s = u" unfolding u_def by (rule rnd_up_64 [OF fit])
  have szle: "unat sz \<le> unat ?s" unfolding s by (rule u(1))
  have bk: "booked sz (2 ^ k) = u + unat ?A - 64" using bk by (simp only: u_def)
  have add: "unat (?s + ?A - minimal_alignment) = unat ?s + unat ?A - 64"
  proof -
    have e1: "?s + ?A - minimal_alignment = ?s + (?A - minimal_alignment)" by simp
    have a1: "unat (?A - minimal_alignment) = unat ?A - 64"
      using A64 by (simp add: unat_sub word_le_nat_alt minimal_alignment_def)
    have "unat ?s + unat (?A - minimal_alignment) < 2 ^ 64" using A64 assms(3) bk s a1 by linarith
    then have "unat (?s + (?A - minimal_alignment)) = unat ?s + unat (?A - minimal_alignment)"
      by (intro unat_add_noov) simp
    then show ?thesis using A64 a1 unfolding e1 by linarith
  qed
  define e where "e = \<lparr>entry_offset = reg_size r, entry_size = ?s, entry_alignment = ?A\<rparr>"
  have r': "offset_map r' = (offset_map r)(key \<mapsto> e)" "reg_size r' = reg_size r + (?s + ?A - minimal_alignment)"
    using assms(1) j(3) by (simp_all add: r'_def book_def e_def Let_def)
  show sz': "unat (reg_size r') = unat (reg_size r) + booked sz (2 ^ k)"
    unfolding r'(2) using assms(3) add bk s by (subst unat_add_noov) simp_all
  have res: "reserved e = booked sz (2 ^ k)" by (simp add: reserved_def e_def bk s)
  have d64: "64 dvd booked sz (2 ^ k)"
    unfolding bk by (intro dvd_diff_nat dvd_add u(3) pow2_64_dvd j) simp
  have old: "entry_ok r' e'" "\<forall>x\<in>seg e'. x < unat (reg_size r)" if "offset_map r k' = Some e'" for k' e'
  proof -
    have "entry_ok r e'" using ok that by (simp add: registry_ok_def)
    then show "entry_ok r' e'" "\<forall>x\<in>seg e'. x < unat (reg_size r)"
      using sz' by (auto simp: entry_ok_def seg_def)
  qed
  have new: "entry_ok r' e"
    unfolding entry_ok_def res using ok j sz' by (auto simp: registry_ok_def e_def)
  have segn: "\<forall>x\<in>seg e. unat (reg_size r) \<le> x" by (simp add: seg_def e_def)
  show "registry_ok r'"
    unfolding registry_ok_def
  proof (intro conjI allI impI)
    show "64 dvd unat (reg_size r')" using ok d64 sz' by (simp add: registry_ok_def)
    fix k1 e1 assume "offset_map r' k1 = Some e1"
    then show "entry_ok r' e1" using new old by (auto simp: r'(1) split: if_splits)
  next
    fix k1 k2 e1 e2 assume "offset_map r' k1 = Some e1" "offset_map r' k2 = Some e2" "k1 \<noteq> k2"
    then show "seg e1 \<inter> seg e2 = {}"
      using ok old(2) segn by (fastforce simp: r'(1) registry_ok_def split: if_splits)
  qed
  have "2 ^ k dvd unat ?A"
  proof -
    have "unat ((2::u64) ^ k) \<le> unat ?A" using j(3) by (metis max.cobounded1 word_le_nat_alt)
    then have "(2::nat) ^ k \<le> 2 ^ j" using unat_pow2 [of k] A assms(2) by simp
    then have "k \<le> j" by simp
    then show ?thesis using A by (simp add: le_imp_power_dvd)
  qed
  then show "\<exists>e. offset_map r' = (offset_map r)(key \<mapsto> e) \<and> unat sz \<le> unat (entry_size e) \<and>
      2 ^ k dvd unat (entry_alignment e) \<and> entry_alignment e = max (2 ^ k) minimal_alignment"
    using szle j(3) by (intro exI [of _ e]) (simp add: r'(1), simp add: e_def)
qed

text \<open>An address handed out lies in its entry's segment of the buffer.\<close>

definition buffer_base :: "u64 \<Rightarrow> nat" where
  "buffer_base base = unat (align_ptr base minimal_alignment)"

lemma reg_get_in_segment:
  assumes ok: "registry_ok r" and e: "offset_map r key = Some e" and base: "base \<noteq> 0"
    and fits: "unat base + unat (reg_size r) + 64 + unat (entry_alignment e) \<le> 2 ^ 64"
  shows "unat (entry_alignment e) dvd unat (reg_get r key base)"
    and "buffer_base base + unat (entry_offset e) \<le> unat (reg_get r key base)"
    and "unat (reg_get r key base) + unat (entry_size e) \<le> buffer_base base + unat (entry_offset e) + reserved e"
    and "unat base \<le> buffer_base base" "buffer_base base < unat base + 64"
proof -
  obtain k where k: "6 \<le> k" "k < 63" "entry_alignment e = 2 ^ k"
    and off: "64 dvd unat (entry_offset e)" "unat (entry_offset e) + reserved e \<le> unat (reg_size r)"
  proof -
    have "entry_ok r e" using ok e unfolding registry_ok_def by blast
    then show thesis using that unfolding entry_ok_def by blast
  qed
  have m: "minimal_alignment = (2::u64) ^ 6" by (simp add: minimal_alignment_def)
  have b: "64 dvd buffer_base base" "unat base \<le> buffer_base base" "buffer_base base < unat base + 64"
    using align_ptr_bounds [of 6 base] fits by (simp_all add: buffer_base_def m)
  show "unat base \<le> buffer_base base" "buffer_base base < unat base + 64" using b by simp_all
  have A: "unat ((2::u64) ^ k) = 2 ^ k" using k(2) by (intro unat_pow2) simp
  let ?p = "align_ptr base minimal_alignment + entry_offset e"
  have p: "unat ?p = buffer_base base + unat (entry_offset e)"
    unfolding buffer_base_def
    by (rule unat_add_noov) (use b(3) off(2) fits in \<open>simp add: buffer_base_def\<close>)
  have g: "reg_get r key base = align_ptr ?p (2 ^ k)"
    using base e k(3) by (simp add: reg_get_def Let_def)
  have pf: "unat ?p + 2 ^ k \<le> 2 ^ 64" using p b(3) off(2) fits k(3) A by simp
  have k64: "k < 64" using k(2) by simp
  note ab = align_ptr_bounds [OF k64 pf]
  show "unat (entry_alignment e) dvd unat (reg_get r key base)" using ab(1) k(3) A g by simp
  show "buffer_base base + unat (entry_offset e) \<le> unat (reg_get r key base)" using ab(2) p g by simp
  have "64 dvd (2::nat) ^ k" using pow2_64_dvd [OF k(1,2)] A by simp
  then have d: "64 dvd unat (reg_get r key base)" using ab(1) g by (metis dvd_trans)
  have "unat (reg_get r key base) < unat ?p + 2 ^ k" using ab(3) g by simp
  moreover have "64 dvd unat ?p" unfolding p using b(1) off(1) by (rule dvd_add)
  moreover have "64 dvd (2::nat) ^ k" using pow2_64_dvd [OF k(1,2)] A by simp
  ultimately have "unat (reg_get r key base) + 64 \<le> unat ?p + 2 ^ k"
    using d by (intro dvd_gap_64 dvd_add)
  then show "unat (reg_get r key base) + unat (entry_size e) \<le> buffer_base base + unat (entry_offset e) + reserved e"
    using p k(3) A by (simp add: reserved_def)
qed

section \<open>A whole scratchpad\<close>

text \<open>The bookings of one primitive in program order: key, size and alignment of each.\<close>

type_synonym booking = "u32 \<times> u64 \<times> u64"

definition book_all :: "booking list \<Rightarrow> registry" where
  "book_all bs = fold (\<lambda>(key, sz, alignment). book key sz alignment) bs empty_registry"

lemma book_all_simps [simp]:
  "book_all [] = empty_registry"
  "book_all (bs @ [(key, sz, alignment)]) = book key sz alignment (book_all bs)"
  by (simp_all add: book_all_def)

text \<open>Distinct keys, every alignment a power of two.\<close>

definition bookings_ok :: "booking list \<Rightarrow> bool" where
  "bookings_ok bs \<longleftrightarrow> distinct (map fst bs) \<and> (\<forall>(key, sz, alignment)\<in>set bs. \<exists>k<63. alignment = 2 ^ k)"

text \<open>The address space the bookings take, alignment slack included.\<close>

definition demand :: "booking list \<Rightarrow> nat" where
  "demand bs = (\<Sum>(key, sz, alignment)\<leftarrow>bs.
     booked sz alignment + unat (max alignment minimal_alignment))"

lemma demand_snoc [simp]:
  "demand (bs @ [(key, sz, alignment)]) = demand bs + booked sz alignment + unat (max alignment minimal_alignment)"
  by (simp add: demand_def)

definition booked_in :: "registry \<Rightarrow> booking \<Rightarrow> bool" where
  "booked_in r b = (case b of (key, sz, alignment) \<Rightarrow>
     sz = 0 \<or> (\<exists>e. offset_map r key = Some e \<and> unat sz \<le> unat (entry_size e) \<and>
       unat alignment dvd unat (entry_alignment e) \<and> entry_alignment e = max alignment minimal_alignment))"

lemma book_all_inv:
  assumes "bookings_ok bs" "demand bs < 2 ^ 64"
  shows "registry_ok (book_all bs) \<and> unat (reg_size (book_all bs)) \<le> demand bs \<and>
    (\<forall>b\<in>set bs. booked_in (book_all bs) b \<and>
       unat (reg_size (book_all bs)) + unat (max (snd (snd b)) minimal_alignment) \<le> demand bs) \<and>
    dom (offset_map (book_all bs)) \<subseteq> fst ` set bs"
  using assms
proof (induction bs rule: rev_induct)
  case Nil
  then show ?case using registry_ok_empty by (simp add: empty_registry_def demand_def)
next
  case (snoc b bs)
  obtain key sz al where b: "b = (key, sz, al)" by (cases b)
  let ?r = "book_all bs"
  have IH: "registry_ok ?r" "unat (reg_size ?r) \<le> demand bs" "\<forall>b\<in>set bs. booked_in ?r b"
    "\<forall>b\<in>set bs. unat (reg_size ?r) + unat (max (snd (snd b)) minimal_alignment) \<le> demand bs"
    "dom (offset_map ?r) \<subseteq> fst ` set bs"
    using snoc by (auto simp: bookings_ok_def b)
  obtain k where k: "k < 63" "al = 2 ^ k" using snoc.prems(1) by (auto simp: bookings_ok_def b)
  have fresh: "offset_map ?r key = None"
    using snoc.prems(1) IH(5) by (auto simp: bookings_ok_def b dom_def)
  show ?case
  proof (cases "sz = 0")
    case True
    then have "book key sz al ?r = ?r" by (simp add: book_def)
    then show ?thesis using IH True by (auto simp: b booked_in_def)
  next
    case False
    have lt: "unat (reg_size ?r) + booked sz (2 ^ k) < 2 ^ 64" using snoc.prems(2) IH(2) k(2) by (simp add: b)
    note be = booked_entry [OF False k(1) lt IH(1) fresh]
    obtain e where e: "offset_map (book key sz (2 ^ k) ?r) = (offset_map ?r)(key \<mapsto> e)"
      "unat sz \<le> unat (entry_size e)" "2 ^ k dvd unat (entry_alignment e)"
      "entry_alignment e = max (2 ^ k) minimal_alignment" using be(3) by blast
    have "booked_in (book key sz (2 ^ k) ?r) b'" if "b' \<in> set bs" for b'
    proof -
      obtain key' sz' al' where b': "b' = (key', sz', al')" by (cases b')
      have "key \<noteq> key'" using that snoc.prems(1) by (force simp: bookings_ok_def b b')
      moreover have "booked_in ?r b'" using IH(3) that by blast
      ultimately show ?thesis by (simp add: b' booked_in_def e(1))
    qed
    moreover have "booked_in (book key sz (2 ^ k) ?r) b"
      using e k by (simp add: booked_in_def b unat_pow2)
    moreover have "dom (offset_map (book key sz (2 ^ k) ?r)) \<subseteq> fst ` set (bs @ [b])"
      unfolding e(1) dom_fun_upd using IH(5) by (simp add: b) blast
    moreover have "unat (reg_size (book key sz (2 ^ k) ?r)) + unat (max (snd (snd b')) minimal_alignment)
        \<le> demand (bs @ [b])" if "b' \<in> set (bs @ [b])" for b'
      using that be(2) IH(2,4) by (auto simp: b k(2))
    ultimately show ?thesis
      using be(1,2) IH(2) by (simp add: b k(2))
  qed
qed

lemma booked_block:
  assumes ok: "registry_ok r" and b: "booked_in r (key, sz, alignment)" "sz \<noteq> 0" and base: "base \<noteq> 0"
    and fits: "unat base + unat (reg_size r) + 64 + unat (max alignment minimal_alignment) \<le> 2 ^ 64"
  shows "\<exists>e. offset_map r key = Some e \<and> unat alignment dvd unat (reg_get r key base) \<and>
    buffer_base base + unat (entry_offset e) \<le> unat (reg_get r key base) \<and>
    unat (reg_get r key base) + unat sz \<le> buffer_base base + unat (entry_offset e) + reserved e"
proof -
  obtain e where e: "offset_map r key = Some e" "unat sz \<le> unat (entry_size e)"
    "unat alignment dvd unat (entry_alignment e)" "entry_alignment e = max alignment minimal_alignment"
    using b by (auto simp: booked_in_def)
  have f: "unat base + unat (reg_size r) + 64 + unat (entry_alignment e) \<le> 2 ^ 64"
    using fits by (simp only: e(4))
  note g = reg_get_in_segment [OF ok e(1) base f]
  have "unat alignment dvd unat (reg_get r key base)" using e(3) g(1) by (rule dvd_trans)
  moreover have "unat (reg_get r key base) + unat sz \<le> buffer_base base + unat (entry_offset e) + reserved e"
    using g(3) e(2) by linarith
  ultimately show ?thesis using e(1) g(2) by blast
qed

lemma buffer_base_bounds:
  assumes "unat base + 64 \<le> 2 ^ 64"
  shows "unat base \<le> buffer_base base" "buffer_base base < unat base + 64"
proof -
  have "minimal_alignment = (2::u64) ^ 6" by (simp add: minimal_alignment_def)
  then show "unat base \<le> buffer_base base" "buffer_base base < unat base + 64"
    using align_ptr_bounds [of 6 base] assms by (simp_all add: buffer_base_def)
qed

lemma seg_disjoint:
  assumes "registry_ok r" "offset_map r key = Some e" "offset_map r key' = Some e'" "key \<noteq> key'"
    "x + entry_offset_of \<le> p" "p + s \<le> x + entry_offset_of + reserved e"
    "x + entry_offset_of' \<le> p'" "p' + s' \<le> x + entry_offset_of' + reserved e'"
    "entry_offset_of = unat (entry_offset e)" "entry_offset_of' = unat (entry_offset e')" "0 < s" "0 < s'"
  shows "p + s \<le> p' \<or> p' + s' \<le> (p::nat)"
proof (rule ccontr)
  assume n: "\<not> ?thesis"
  have "max p p' - x \<in> seg e \<inter> seg e'"
    using assms(5-12) n by (auto simp: seg_def max_def)
  then show False using assms(1-4) unfolding registry_ok_def by blast
qed

lemma booked_segment:
  assumes ok: "bookings_ok bs" and base: "base \<noteq> 0" and fits: "unat base + demand bs + 64 \<le> 2 ^ 64"
    and b: "(key, sz, alignment) \<in> set bs" "sz \<noteq> 0"
  shows "\<exists>e. offset_map (book_all bs) key = Some e \<and> unat alignment dvd unat (reg_get (book_all bs) key base) \<and>
    buffer_base base + unat (entry_offset e) \<le> unat (reg_get (book_all bs) key base) \<and>
    unat (reg_get (book_all bs) key base) + unat sz \<le> buffer_base base + unat (entry_offset e) + reserved e"
proof -
  have "demand bs < 2 ^ 64" using fits by linarith
  note inv = book_all_inv [OF ok this]
  show ?thesis
  proof (rule booked_block [OF _ _ b(2) base])
    show "registry_ok (book_all bs)" "booked_in (book_all bs) (key, sz, alignment)" using inv b(1) by blast+
    have "unat (reg_size (book_all bs)) + unat (max alignment minimal_alignment) \<le> demand bs"
      using inv b(1) by fastforce
    then show "unat base + unat (reg_size (book_all bs)) + 64 + unat (max alignment minimal_alignment) \<le> 2 ^ 64"
      using fits by linarith
  qed
qed

lemma registry_size_eq:
  assumes ok: "bookings_ok bs" and fits: "demand bs + 64 \<le> 2 ^ 64"
    and b: "(key, sz, alignment) \<in> set bs" "sz \<noteq> 0"
  shows "unat (registry_size (book_all bs)) = unat (reg_size (book_all bs)) + 63"
proof -
  let ?r = "book_all bs"
  have "demand bs < 2 ^ 64" using fits by linarith
  note inv = book_all_inv [OF ok this]
  have "booked_in ?r (key, sz, alignment)" using inv b(1) by blast
  then obtain e where e: "offset_map ?r key = Some e" "unat sz \<le> unat (entry_size e)"
    using b(2) by (auto simp: booked_in_def)
  then have "entry_ok ?r e" using inv by (simp add: registry_ok_def)
  then obtain k where "6 \<le> k" "k < 63" "entry_alignment e = 2 ^ k"
    and r: "unat (entry_offset e) + reserved e \<le> unat (reg_size ?r)" by (auto simp: entry_ok_def)
  then have "64 \<le> unat (entry_alignment e)"
    using power_increasing [of 6 k "2::nat"] by (simp add: unat_pow2)
  moreover have "0 < unat sz" using b(2) by (simp add: unat_gt_0)
  ultimately have pos: "0 < unat (reg_size ?r)" using r e(2) by (simp add: reserved_def)
  have "unat (reg_size ?r) \<le> demand bs" using inv by blast
  then have "unat (reg_size ?r) + unat (63::u64) < 2 ^ 64" using fits by simp
  then have "unat (reg_size ?r + 63) = unat (reg_size ?r) + 63" by (subst unat_add_noov) simp_all
  then show ?thesis
    using pos by (simp add: registry_size_def minimal_alignment_def word_less_nat_alt add.commute)
qed

lemma block_in_buffer:
  assumes ok: "bookings_ok bs" and base: "base \<noteq> 0" and fits: "unat base + demand bs + 64 \<le> 2 ^ 64"
    and b: "(key, sz, alignment) \<in> set bs" "sz \<noteq> 0"
  shows "unat base \<le> unat (reg_get (book_all bs) key base) \<and>
    unat (reg_get (book_all bs) key base) + unat sz \<le> unat base + unat (registry_size (book_all bs))"
proof -
  have d: "demand bs < 2 ^ 64" "demand bs + 64 \<le> 2 ^ 64" using fits by linarith+
  have "registry_ok (book_all bs)" using book_all_inv [OF ok d(1)] by blast
  moreover obtain e where e: "offset_map (book_all bs) key = Some e"
    "buffer_base base + unat (entry_offset e) \<le> unat (reg_get (book_all bs) key base)"
    "unat (reg_get (book_all bs) key base) + unat sz \<le> buffer_base base + unat (entry_offset e) + reserved e"
    using booked_segment [OF assms] by blast
  ultimately have "unat (entry_offset e) + reserved e \<le> unat (reg_size (book_all bs))"
    by (auto simp: registry_ok_def entry_ok_def)
  then show ?thesis
    using e registry_size_eq [OF ok d(2) b] buffer_base_bounds [of base] fits by linarith
qed

text \<open>
  C7: every block a primitive books in its scratchpad is aligned as asked, lies inside the
  buffer of \<open>registry_t::size\<close> bytes at the base address the grantor got, wherever that buffer
  starts, and two blocks never overlap, provided the keys are distinct, the alignments are
  powers of two and the address space is large enough.
\<close>

theorem scratchpad_blocks_disjoint:
  assumes ok: "bookings_ok bs" and base: "base \<noteq> 0" and fits: "unat base + demand bs + 64 \<le> 2 ^ 64"
    and i: "i < length bs" "bs ! i = (key, sz, alignment)" "sz \<noteq> 0"
  defines "r \<equiv> book_all bs"
  shows "unat alignment dvd unat (reg_get r key base) \<and>
    unat base \<le> unat (reg_get r key base) \<and>
    unat (reg_get r key base) + unat sz \<le> unat base + unat (registry_size r) \<and>
    (\<forall>j key' sz' alignment'. j < length bs \<and> j \<noteq> i \<and> bs ! j = (key', sz', alignment') \<and> sz' \<noteq> 0 \<longrightarrow>
       unat (reg_get r key base) + unat sz \<le> unat (reg_get r key' base) \<or>
       unat (reg_get r key' base) + unat sz' \<le> unat (reg_get r key base))"
proof -
  have d: "demand bs < 2 ^ 64" using fits by linarith
  have rok: "registry_ok r" using book_all_inv [OF ok d] by (simp add: r_def)
  note blk = booked_segment [OF ok base fits, folded r_def]
  have m: "(key, sz, alignment) \<in> set bs" using i(1,2) nth_mem by metis
  from blk [OF this i(3)] obtain e where e: "offset_map r key = Some e" "unat alignment dvd unat (reg_get r key base)"
    "buffer_base base + unat (entry_offset e) \<le> unat (reg_get r key base)"
    "unat (reg_get r key base) + unat sz \<le> buffer_base base + unat (entry_offset e) + reserved e"
    by blast
  have 1: "unat alignment dvd unat (reg_get r key base) \<and>
    unat base \<le> unat (reg_get r key base) \<and>
    unat (reg_get r key base) + unat sz \<le> unat base + unat (registry_size r)"
    using e(2) block_in_buffer [OF ok base fits m i(3)] by (simp add: r_def)
  have 2: "(\<forall>j key' sz' alignment'. j < length bs \<and> j \<noteq> i \<and> bs ! j = (key', sz', alignment') \<and> sz' \<noteq> 0 \<longrightarrow>
       unat (reg_get r key base) + unat sz \<le> unat (reg_get r key' base) \<or>
       unat (reg_get r key' base) + unat sz' \<le> unat (reg_get r key base))"
  proof (intro allI impI)
    fix j key' sz' alignment'
    assume j: "j < length bs \<and> j \<noteq> i \<and> bs ! j = (key', sz', alignment') \<and> sz' \<noteq> 0"
    then have "(key', sz', alignment') \<in> set bs" using nth_mem by metis
    from blk [OF this] j obtain e' where e': "offset_map r key' = Some e'"
      "buffer_base base + unat (entry_offset e') \<le> unat (reg_get r key' base)"
      "unat (reg_get r key' base) + unat sz' \<le> buffer_base base + unat (entry_offset e') + reserved e'"
      by blast
    have "key \<noteq> key'"
    proof -
      have "distinct (map fst bs)" using ok by (simp add: bookings_ok_def)
      then have "map fst bs ! i \<noteq> map fst bs ! j" using i(1) j by (subst nth_eq_iff_index_eq) simp_all
      then show ?thesis using i(1,2) j by simp
    qed
    from seg_disjoint [OF rok e(1) e'(1) this e(3,4) e'(2,3) refl refl] i(3) j
    show "unat (reg_get r key base) + unat sz \<le> unat (reg_get r key' base) \<or>
       unat (reg_get r key' base) + unat sz' \<le> unat (reg_get r key base)"
      by (simp add: unat_gt_0)
  qed
  show ?thesis using 1 2 by blast
qed

theorem scratchpad_blocks_disjoint_witness:
  "128 dvd unat (reg_get (book_all [(3, 100, 64), (5, 10, 128)]) 5 1000) \<and>
   (unat (reg_get (book_all [(3, 100, 64), (5, 10, 128)]) 5 1000) + 10
      \<le> unat (reg_get (book_all [(3, 100, 64), (5, 10, 128)]) 3 1000) \<or>
    unat (reg_get (book_all [(3, 100, 64), (5, 10, 128)]) 3 1000) + 100
      \<le> unat (reg_get (book_all [(3, 100, 64), (5, 10, 128)]) 5 1000))"
proof -
  let ?bs = "[(3, 100, 64), (5, 10, 128)] :: booking list"
  have ok: "bookings_ok ?bs"
    using exI [of "\<lambda>k. k < 63 \<and> (64::u64) = 2 ^ k" 6] exI [of "\<lambda>k. k < 63 \<and> (128::u64) = 2 ^ k" 7]
    by (simp add: bookings_ok_def)
  have d: "unat (1000::u64) + demand ?bs + 64 \<le> 2 ^ 64"
    by (simp add: demand_def booked_def minimal_alignment_def)
  show ?thesis
    using scratchpad_blocks_disjoint [OF ok _ d, of 1 5 10 128] by force
qed

text \<open>
  The keys of nested registrars never collide: a prefix path of up to three levels and a
  local key below \<open>MAX_KEY\<close> are determined by the global 32-bit key they make.
\<close>

theorem nested_keys_unique:
  assumes "valid_prefixes ps" "valid_prefixes qs" "k < MAX_KEY" "l < MAX_KEY"
    and "make_key (nested_prefix ps) k = make_key (nested_prefix qs) l"
  shows "ps = qs \<and> k = l"
proof -
  have b: "128 * prefix_num xs < 2 ^ 28 \<and> unat (nested_prefix xs) = 1024 * prefix_num xs"
    if "valid_prefixes xs" for xs
  proof -
    have v: "\<forall>p\<in>set xs. p < MAX_PREFIX" "length xs \<le> 3" using that by (auto simp: valid_prefixes_def)
    have "(128::nat) ^ length xs \<le> 128 ^ 3" using v(2) by (intro power_increasing) simp_all
    then show ?thesis using prefix_num_bound [OF v(1)] nested_prefix_num [OF v] by simp
  qed
  have kl: "unat k < 1024" "unat l < 1024" using assms(3,4) by (simp_all add: MAX_KEY_def word_less_nat_alt)
  have u: "unat (make_key (nested_prefix xs) m) = 1024 * prefix_num xs + unat m"
    if "valid_prefixes xs" "unat m < 1024" for xs m
    unfolding make_key_def using b [OF that(1)] that(2) by (subst unat_add_noov) simp_all
  have e: "1024 * prefix_num ps + unat k = 1024 * prefix_num qs + unat l"
    using u [OF assms(1) kl(1)] u [OF assms(2) kl(2)] assms(5) by simp
  then have "(1024 * prefix_num ps + unat k) mod 1024 = (1024 * prefix_num qs + unat l) mod 1024" by simp
  then have "unat k = unat l" using kl by simp
  then show ?thesis using e prefix_num_inj [OF assms(1,2)] by (simp add: word_unat_eq_iff)
qed

theorem nested_keys_unique_witness:
  "make_key (nested_prefix [1, 2]) 7 \<noteq> make_key (nested_prefix [2, 1]) 7"
proof
  assume e: "make_key (nested_prefix [1, 2]) 7 = make_key (nested_prefix [2, 1]) 7"
  have "[1, 2] = [2, 1::u32] \<and> (7::u32) = 7"
    by (rule nested_keys_unique [OF _ _ _ _ e]) (simp_all add: valid_prefixes_def MAX_PREFIX_def MAX_KEY_def)
  then show False by simp
qed

end
