(* ===== verification/Scratchpad.thy ===== *)
theory Scratchpad
  imports Memory_Tracking "HOL-Library.Multiset"
begin

text \<open>
  Who owns scratchpad memory, \<open>src/src/common/scratchpad.cpp\<close>: by default one growing buffer per
  thread, shared by all scratchpads of the thread and counted (\<open>global_scratchpad_t\<close>); with
  concurrent execution enabled, one buffer per scratchpad (\<open>concurrent_scratchpad_t\<close>). The heap
  is the set of blocks that \<open>malloc\<close> returned and \<open>free\<close> has not released, with their sizes;
  the address \<open>malloc\<close> returns is an argument of the operation that calls it.
\<close>

section \<open>The heap\<close>

type_synonym heap = "u64 \<Rightarrow> u64 option"

definition free_block :: "u64 \<Rightarrow> heap \<Rightarrow> heap" where
  "free_block p h = (if p = 0 then h else h(p := None))"

definition malloc_block :: "u64 \<Rightarrow> u64 \<Rightarrow> heap \<Rightarrow> heap" where
  "malloc_block sz p h = h(p \<mapsto> sz)"

text \<open>A successful \<open>malloc\<close>: a non-null address no live block has.\<close>

definition malloc_returns :: "u64 \<Rightarrow> heap \<Rightarrow> bool" where
  "malloc_returns p h \<longleftrightarrow> p \<noteq> 0 \<and> h p = None"

section \<open>The global scratchpad\<close>

record scratch =
  scratchpad_ptr :: u64
  scratchpad_size :: u64
  reference_count :: u32
  scratch_heap :: heap

definition initial_scratch :: scratch where
  "initial_scratch = \<lparr>scratchpad_ptr = 0, scratchpad_size = 0, reference_count = 0, scratch_heap = (\<lambda>_. None)\<rparr>"

definition release_old :: "scratch \<Rightarrow> scratch" where
  "release_old s = (if scratchpad_ptr s \<noteq> 0
     then s\<lparr>scratch_heap := free_block (scratchpad_ptr s) (scratch_heap s)\<rparr> else s)"

definition global_scratchpad_ctor :: "u64 \<Rightarrow> u64 \<Rightarrow> scratch \<Rightarrow> scratch" where
  "global_scratchpad_ctor sz p s =
     (let s = (if sz > scratchpad_size s
               then (release_old s)\<lparr>scratchpad_size := sz, scratchpad_ptr := p,
                      scratch_heap := malloc_block sz p (scratch_heap (release_old s))\<rparr>
               else s)
      in s\<lparr>reference_count := reference_count s + 1\<rparr>)"

definition global_scratchpad_dtor :: "scratch \<Rightarrow> scratch" where
  "global_scratchpad_dtor s =
     (let s = s\<lparr>reference_count := reference_count s - 1\<rparr>
      in if reference_count s = 0
         then s\<lparr>scratch_heap := free_block (scratchpad_ptr s) (scratch_heap s),
                scratchpad_ptr := 0, scratchpad_size := 0\<rparr>
         else s)"

definition global_scratchpad_get :: "scratch \<Rightarrow> u64" where
  "global_scratchpad_get s = scratchpad_ptr s"

text \<open>
  The states of one thread, with the sizes of the scratchpads alive in it: scratchpads are made
  and destroyed in any order, and there are never \<open>2 ^ 32\<close> of them.
\<close>

inductive scratch_reach :: "u64 multiset \<Rightarrow> scratch \<Rightarrow> bool" where
  start: "scratch_reach {#} initial_scratch"
| create: "scratch_reach live s \<Longrightarrow> Suc (size live) < 2 ^ 32 \<Longrightarrow>
    n \<le> scratchpad_size s \<or> malloc_returns p (scratch_heap (release_old s)) \<Longrightarrow>
    scratch_reach (add_mset n live) (global_scratchpad_ctor n p s)"
| destroy: "scratch_reach (add_mset n live) s \<Longrightarrow> scratch_reach live (global_scratchpad_dtor s)"

inductive_cases scratch_reach_cases: "scratch_reach live s"

definition scratch_inv :: "u64 multiset \<Rightarrow> scratch \<Rightarrow> bool" where
  "scratch_inv live s \<longleftrightarrow>
     unat (reference_count s) = size live \<and> size live < 2 ^ 32 \<and>
     (\<forall>n\<in>#live. n \<le> scratchpad_size s) \<and>
     (scratchpad_ptr s = 0 \<longleftrightarrow> scratchpad_size s = 0) \<and>
     scratch_heap s = (if scratchpad_ptr s = 0 then (\<lambda>_. None) else [scratchpad_ptr s \<mapsto> scratchpad_size s]) \<and>
     (live = {#} \<longrightarrow> scratchpad_ptr s = 0)"

lemma scratch_inv_start: "scratch_inv {#} initial_scratch"
  by (simp add: scratch_inv_def initial_scratch_def)

lemma release_old_heap:
  "scratch_inv live s \<Longrightarrow> scratch_heap (release_old s) = (\<lambda>_. None)"
  by (auto simp: scratch_inv_def release_old_def free_block_def)

lemma scratch_inv_create:
  assumes inv: "scratch_inv live s" and few: "Suc (size live) < 2 ^ 32"
    and p: "n \<le> scratchpad_size s \<or> malloc_returns p (scratch_heap (release_old s))"
  shows "scratch_inv (add_mset n live) (global_scratchpad_ctor n p s)"
proof -
  have ref: "unat (reference_count s + 1) = Suc (size live)"
    using inv few by (subst unat_add_noov) (simp_all add: scratch_inv_def)
  show ?thesis
  proof (cases "n \<le> scratchpad_size s")
    case True
    then show ?thesis
      using inv few ref by (auto simp: scratch_inv_def global_scratchpad_ctor_def Let_def)
  next
    case False
    then have "p \<noteq> 0" "n \<noteq> 0" using p by (auto simp: malloc_returns_def)
    moreover have "\<forall>m\<in>#live. m \<le> n" using inv False by (fastforce simp: scratch_inv_def)
    ultimately show ?thesis
      using False few ref release_old_heap [OF inv]
      by (simp add: scratch_inv_def global_scratchpad_ctor_def Let_def malloc_block_def release_old_def not_le)
  qed
qed

lemma scratch_inv_destroy:
  assumes inv: "scratch_inv (add_mset n live) s"
  shows "scratch_inv live (global_scratchpad_dtor s)"
proof -
  have r: "unat (reference_count s) = Suc (size live)" using inv by (simp add: scratch_inv_def)
  then have "reference_count s \<noteq> 0" by auto
  then have "unat (reference_count s - 1) = size live" using r by (simp add: unat_minus_one)
  moreover from this have "reference_count s - 1 = 0 \<longleftrightarrow> live = {#}"
    by (metis size_eq_0_iff_empty unat_eq_0)
  ultimately show ?thesis
    using inv by (auto simp: scratch_inv_def global_scratchpad_dtor_def Let_def free_block_def)
qed

lemma scratch_reach_inv: "scratch_reach live s \<Longrightarrow> scratch_inv live s"
  by (induction rule: scratch_reach.induct)
     (auto intro: scratch_inv_start scratch_inv_create scratch_inv_destroy)

text \<open>
  C8: in every reachable state of a thread the buffer that a live scratchpad of non-zero size
  gets is allocated and at least as large as the scratchpad asked for, however many others were
  created and destroyed in between; the thread never owns more than that one block, and owns
  none once every scratchpad is gone.
\<close>

theorem global_scratchpad_safe:
  assumes "scratch_reach live s"
  shows "(\<forall>n\<in>#live. n \<noteq> 0 \<longrightarrow>
      (\<exists>m. scratch_heap s (global_scratchpad_get s) = Some m \<and> n \<le> m)) \<and>
    dom (scratch_heap s) \<subseteq> {global_scratchpad_get s} \<and>
    (live = {#} \<longrightarrow> scratch_heap s = (\<lambda>_. None))"
  using scratch_reach_inv [OF assms]
  by (auto simp: scratch_inv_def global_scratchpad_get_def split: if_splits)

theorem global_scratchpad_safe_witness:
  "scratch_heap (global_scratchpad_dtor (global_scratchpad_ctor 128 8192 (global_scratchpad_ctor 64 4096 initial_scratch)))
     8192 = Some 128"
proof -
  have "scratch_reach {#64#} (global_scratchpad_ctor 64 4096 initial_scratch)"
    using scratch_reach.create [OF scratch_reach.start, of 64 4096]
    by (simp add: malloc_returns_def release_old_def initial_scratch_def)
  then have "scratch_reach {#64, 128#} (global_scratchpad_ctor 128 8192 (global_scratchpad_ctor 64 4096 initial_scratch))"
    using scratch_reach.create [of "{#64#}" "global_scratchpad_ctor 64 4096 initial_scratch" 128 8192]
    by (simp add: malloc_returns_def release_old_def initial_scratch_def global_scratchpad_ctor_def
        free_block_def malloc_block_def add_mset_commute)
  then have r: "scratch_reach {#128#}
      (global_scratchpad_dtor (global_scratchpad_ctor 128 8192 (global_scratchpad_ctor 64 4096 initial_scratch)))"
    by (rule scratch_reach.destroy)
  show ?thesis
    using global_scratchpad_safe [OF r]
    by (simp add: global_scratchpad_get_def global_scratchpad_ctor_def global_scratchpad_dtor_def
        initial_scratch_def release_old_def free_block_def malloc_block_def)
qed

section \<open>The concurrent scratchpad\<close>

record conc_scratch =
  conc_ptr :: u64
  conc_size :: u64

definition concurrent_scratchpad_ctor :: "u64 \<Rightarrow> u64 \<Rightarrow> heap \<Rightarrow> heap \<times> conc_scratch" where
  "concurrent_scratchpad_ctor sz p h = (malloc_block sz p h, \<lparr>conc_ptr = p, conc_size = sz\<rparr>)"

definition concurrent_scratchpad_dtor :: "conc_scratch \<Rightarrow> heap \<Rightarrow> heap" where
  "concurrent_scratchpad_dtor c h = free_block (conc_ptr c) h"

section \<open>A primitive's blocks in its scratchpad\<close>

text \<open>
  C28: when a primitive runs with a scratchpad of the size its registry computed, each of its
  blocks lies in allocated memory, whatever other primitives of the thread did to the shared
  buffer before.
\<close>

theorem booked_blocks_in_scratchpad:
  assumes reach: "scratch_reach live s" and mine: "registry_size (book_all bs) \<in># live"
    and ok: "bookings_ok bs"
    and fits: "unat (global_scratchpad_get s) + demand bs + 64 \<le> 2 ^ 64"
    and b: "(key, sz, alignment) \<in> set bs" "sz \<noteq> 0"
  shows "\<exists>m. scratch_heap s (global_scratchpad_get s) = Some m \<and>
    unat (global_scratchpad_get s) \<le> unat (reg_get (book_all bs) key (global_scratchpad_get s)) \<and>
    unat (reg_get (book_all bs) key (global_scratchpad_get s)) + unat sz \<le> unat (global_scratchpad_get s) + unat m"
proof -
  have inv: "scratch_inv live s" by (rule scratch_reach_inv [OF reach])
  have "unat (registry_size (book_all bs)) \<noteq> 0" using registry_size_eq [OF ok _ b] fits by simp
  then have nz: "registry_size (book_all bs) \<noteq> 0" by auto
  then have m: "scratch_heap s (global_scratchpad_get s) = Some (scratchpad_size s)"
    "registry_size (book_all bs) \<le> scratchpad_size s" "global_scratchpad_get s \<noteq> 0"
    using inv mine by (auto simp: scratch_inv_def global_scratchpad_get_def dest!: bspec)
  show ?thesis
    using block_in_buffer [OF ok m(3) fits b] m(1,2) by (auto simp: word_le_nat_alt)
qed

theorem booked_blocks_in_scratchpad_witness:
  "\<exists>m. scratch_heap (global_scratchpad_ctor 191 4096 initial_scratch) 4096 = Some m \<and>
     unat (reg_get (book_all [(3, 100, 64)]) 3 4096) + 100 \<le> 4096 + unat m"
proof -
  let ?s = "global_scratchpad_ctor 191 4096 initial_scratch" and ?bs = "[(3, 100, 64)] :: booking list"
  have rs: "registry_size (book_all ?bs) = 191"
    by (simp add: book_all_def book_def Let_def registry_size_def rnd_up_u64_def div_up_u64_def
        minimal_alignment_def empty_registry_def)
  have g: "global_scratchpad_get ?s = 4096"
    by (simp add: global_scratchpad_get_def global_scratchpad_ctor_def initial_scratch_def)
  have "scratch_reach {#191#} ?s"
    using scratch_reach.create [OF scratch_reach.start, of 191 4096]
    by (simp add: malloc_returns_def release_old_def initial_scratch_def)
  moreover have "bookings_ok ?bs"
    using exI [of "\<lambda>k. k < 63 \<and> (64::u64) = 2 ^ k" 6] by (simp add: bookings_ok_def)
  moreover have "unat (global_scratchpad_get ?s) + demand ?bs + 64 \<le> 2 ^ 64"
    by (simp add: g demand_def booked_def minimal_alignment_def)
  ultimately show ?thesis
    using booked_blocks_in_scratchpad [of "{#191#}" ?s ?bs 3 100 64] rs g by auto
qed

end
