(* ===== verification/Primitive_Cache.thy ===== *)
theory Primitive_Cache
  imports Prelude
begin

text \<open>
  The primitive cache of an engine, \<open>src/src/common/primitive_cache.hpp\<close>: a \<open>std::list\<close> of
  (key, implementation) nodes, most recently used first, and an \<open>unordered_map\<close> from keys to
  list iterators. An iterator is the identity of its node, which moving the node by
  \<open>splice\<close> keeps and erasing the node invalidates; a dangling iterator makes \<open>get\<close> fail.
  \<open>engine_t::get_primitive\<close> (\<open>src/src/common/engine.hpp\<close>) is the client.
\<close>

section \<open>The LRU cache\<close>

record ('k, 'v) lru =
  capacity :: nat
  cache_list :: "(nat \<times> 'k \<times> 'v) list"
  cache_mapper :: "'k \<Rightarrow> nat option"
  next_node :: nat

definition new_lru :: "nat \<Rightarrow> ('k, 'v) lru" where
  "new_lru cap = \<lparr>capacity = cap, cache_list = [], cache_mapper = (\<lambda>_. None), next_node = 0\<rparr>"

definition map_insert :: "'k \<Rightarrow> 'b \<Rightarrow> ('k \<Rightarrow> 'b option) \<Rightarrow> 'k \<Rightarrow> 'b option" where
  "map_insert k x m = (if m k = None then m(k \<mapsto> x) else m)"

definition evict_last :: "('k, 'v) lru \<Rightarrow> ('k, 'v) lru" where
  "evict_last c = c\<lparr>cache_mapper := (cache_mapper c)(fst (snd (last (cache_list c))) := None),
                    cache_list := butlast (cache_list c)\<rparr>"

definition lru_add :: "'k \<Rightarrow> 'v \<Rightarrow> ('k, 'v) lru \<Rightarrow> ('k, 'v) lru" where
  "lru_add key impl c =
     (if capacity c = 0 then c
      else
        let c = (if length (cache_list c) \<ge> capacity c then evict_last c else c);
            it = next_node c
        in c\<lparr>cache_list := (it, key, impl) # cache_list c,
             cache_mapper := map_insert key it (cache_mapper c),
             next_node := Suc it\<rparr>)"

text \<open>\<open>splice\<close> needs its iterator to point to a node of the list.\<close>

definition splice_front :: "nat \<Rightarrow> (nat \<times> 'a) list \<Rightarrow> (nat \<times> 'a) list option" where
  "splice_front it xs = (case map_of xs it of
       None \<Rightarrow> None
     | Some x \<Rightarrow> Some ((it, x) # filter (\<lambda>n. fst n \<noteq> it) xs))"

definition lru_get :: "'k \<Rightarrow> ('k, 'v) lru \<Rightarrow> ('v option \<times> ('k, 'v) lru) option" where
  "lru_get key c =
     (if capacity c = 0 then Some (None, c)
      else case cache_mapper c key of
          None \<Rightarrow> Some (None, c)
        | Some it \<Rightarrow> (case splice_front it (cache_list c) of
            None \<Rightarrow> None
          | Some xs \<Rightarrow> Some (Some (snd (snd (hd xs))), c\<lparr>cache_list := xs\<rparr>)))"

section \<open>No iterator ever dangles\<close>

definition lru_inv :: "('k, 'v) lru \<Rightarrow> bool" where
  "lru_inv c \<longleftrightarrow>
     length (cache_list c) \<le> capacity c \<and>
     distinct (map fst (cache_list c)) \<and>
     (\<forall>n\<in>set (cache_list c). fst n < next_node c) \<and>
     (\<forall>k it. cache_mapper c k = Some it \<longrightarrow> (\<exists>v. (it, k, v) \<in> set (cache_list c)))"

lemma lru_inv_new: "lru_inv (new_lru cap)"
  by (simp add: lru_inv_def new_lru_def)

lemma lru_mapped:
  "lru_inv c \<Longrightarrow> cache_mapper c k = Some it \<Longrightarrow> \<exists>v. (it, k, v) \<in> set (cache_list c)"
  by (simp add: lru_inv_def)

lemma butlast_last_cases:
  assumes "x \<in> set xs" shows "x \<in> set (butlast xs) \<or> x = last xs"
  using assms by (cases xs rule: rev_cases) auto

lemma lru_inv_evict:
  assumes "lru_inv c"
  shows "lru_inv (evict_last c)" "capacity (evict_last c) = capacity c"
    "next_node (evict_last c) = next_node c" "length (cache_list (evict_last c)) = length (cache_list c) - 1"
proof -
  have "\<exists>v. (it, k, v) \<in> set (butlast (cache_list c))"
    if m: "cache_mapper c k = Some it" "k \<noteq> fst (snd (last (cache_list c)))" for k it
  proof -
    obtain v where "(it, k, v) \<in> set (cache_list c)" using lru_mapped [OF assms m(1)] by blast
    then show ?thesis using m(2) butlast_last_cases [of "(it, k, v)" "cache_list c"] by (metis fst_conv snd_conv)
  qed
  then show "lru_inv (evict_last c)"
    using assms by (auto simp: lru_inv_def evict_last_def distinct_butlast map_butlast dest: in_set_butlastD split: if_splits)
qed (simp_all add: evict_last_def)

lemma lru_inv_add: "lru_inv c \<Longrightarrow> lru_inv (lru_add key impl c)"
proof -
  assume inv: "lru_inv c"
  show ?thesis
  proof (cases "capacity c = 0")
    case True
    then show ?thesis using inv by (simp add: lru_add_def)
  next
    case False
    define d where "d = (if length (cache_list c) \<ge> capacity c then evict_last c else c)"
    have d: "lru_inv d" "capacity d = capacity c" "length (cache_list d) < capacity c"
      using inv False lru_inv_evict [OF inv] by (auto simp: d_def not_le lru_inv_def)
    have "lru_add key impl c = d\<lparr>cache_list := (next_node d, key, impl) # cache_list d,
        cache_mapper := map_insert key (next_node d) (cache_mapper d), next_node := Suc (next_node d)\<rparr>"
      using False by (simp add: lru_add_def Let_def d_def)
    then show ?thesis
      using d lru_mapped [OF d(1)]
      by (auto simp: lru_inv_def map_insert_def less_SucI split: if_splits; blast)
  qed
qed

lemma lru_get_cases:
  assumes "lru_inv c"
  obtains (miss) "capacity c = 0 \<or> cache_mapper c key = None" "lru_get key c = Some (None, c)"
  | (hit) it v where "capacity c \<noteq> 0" "cache_mapper c key = Some it" "(it, key, v) \<in> set (cache_list c)"
      "lru_get key c = Some (Some v, c\<lparr>cache_list := (it, key, v) # filter (\<lambda>n. fst n \<noteq> it) (cache_list c)\<rparr>)"
proof (cases "capacity c = 0 \<or> cache_mapper c key = None")
  case True
  then show thesis using miss by (auto simp: lru_get_def)
next
  case False
  then obtain it where it: "cache_mapper c key = Some it" by auto
  then obtain v where v: "(it, key, v) \<in> set (cache_list c)" using assms unfolding lru_inv_def by blast
  then have "map_of (cache_list c) it = Some (key, v)" using assms by (simp add: lru_inv_def map_of_eq_Some_iff)
  then show thesis using hit [OF _ it v] False it by (simp add: lru_get_def splice_front_def)
qed

lemma lru_inv_get:
  assumes "lru_inv c"
  shows "\<exists>r c'. lru_get key c = Some (r, c') \<and> lru_inv c' \<and> capacity c' = capacity c"
  using assms
proof (cases rule: lru_get_cases [where key = key])
  case miss
  then show ?thesis using assms by blast
next
  case (hit it v)
  have "length (filter (\<lambda>n. fst n \<noteq> it) (cache_list c)) < length (cache_list c)"
    by (rule length_filter_less [OF hit(3)]) simp
  moreover have "\<exists>w. (it', k', w) \<in> set ((it, key, v) # filter (\<lambda>n. fst n \<noteq> it) (cache_list c))"
    if m: "cache_mapper c k' = Some it'" for k' it'
  proof -
    obtain w where w: "(it', k', w) \<in> set (cache_list c)" using lru_mapped [OF assms m] by blast
    show ?thesis
    proof (cases "it' = it")
      case True
      then have "(k', w) = (key, v)" using w hit(3) assms unfolding lru_inv_def by (metis eq_key_imp_eq_value)
      then show ?thesis using True by auto
    next
      case False
      then show ?thesis using w by auto
    qed
  qed
  ultimately have "lru_inv (c\<lparr>cache_list := (it, key, v) # filter (\<lambda>n. fst n \<noteq> it) (cache_list c)\<rparr>)"
    using assms hit(3) by (auto simp: lru_inv_def distinct_map_filter)
  then show ?thesis using hit(4) by simp
qed

text \<open>
  Any sequence of \<open>add\<close> and \<open>get\<close> calls, with keys repeated at will.
\<close>

datatype ('k, 'v) cache_op = Add 'k 'v | Get 'k

fun run_ops :: "('k, 'v) cache_op list \<Rightarrow> ('k, 'v) lru \<Rightarrow> ('k, 'v) lru option" where
  "run_ops [] c = Some c"
| "run_ops (Add k v # ops) c = run_ops ops (lru_add k v c)"
| "run_ops (Get k # ops) c = (case lru_get k c of None \<Rightarrow> None | Some (_, c) \<Rightarrow> run_ops ops c)"

lemma capacity_lru_add [simp]: "capacity (lru_add k v c) = capacity c"
  by (simp add: lru_add_def Let_def evict_last_def)

lemma run_ops_inv:
  "lru_inv c \<Longrightarrow> \<exists>c'. run_ops ops c = Some c' \<and> lru_inv c' \<and> capacity c' = capacity c"
proof (induction ops c rule: run_ops.induct)
  case (2 k v ops c)
  then show ?case using lru_inv_add [OF 2(2)] by simp
next
  case (3 k ops c)
  obtain r d where "lru_get k c = Some (r, d)" "lru_inv d" "capacity d = capacity c"
    using lru_inv_get [OF 3(2)] by blast
  then show ?case using 3(1) [of "(r, d)" r d] by simp
qed simp

text \<open>
  C30: no sequence of \<open>add\<close> and \<open>get\<close> calls on a new cache, repeated keys included, makes
  \<open>get\<close> follow a dangling iterator, and the cache never holds more than its capacity.
\<close>

theorem lru_never_dangles:
  "\<exists>c. run_ops ops (new_lru cap) = Some c \<and> length (cache_list c) \<le> cap"
  using run_ops_inv [OF lru_inv_new [of cap]] by (fastforce simp: lru_inv_def new_lru_def)

section \<open>The contract the engine relies on\<close>

text \<open>An LRU cache as a list of entries, most recent first.\<close>

definition lru_touch :: "'k \<Rightarrow> ('k \<times> 'v) list \<Rightarrow> ('k \<times> 'v) list" where
  "lru_touch k xs = (case map_of xs k of None \<Rightarrow> xs | Some v \<Rightarrow> (k, v) # filter (\<lambda>x. fst x \<noteq> k) xs)"

text \<open>\<open>k\<close> is cached with value \<open>v\<close> and only keys in \<open>T\<close> are more recent.\<close>

definition recent :: "'k \<Rightarrow> 'v \<Rightarrow> 'k set \<Rightarrow> ('k \<times> 'v) list \<Rightarrow> bool" where
  "recent k v T xs \<longleftrightarrow> map_of xs k = Some v \<and> fst ` set (takeWhile (\<lambda>x. fst x \<noteq> k) xs) \<subseteq> T"

lemma recent_split:
  "recent k v T xs \<longleftrightarrow> (\<exists>ys zs. xs = ys @ (k, v) # zs \<and> k \<notin> fst ` set ys \<and> fst ` set ys \<subseteq> T)"
proof
  assume r: "recent k v T xs"
  then have "k \<in> fst ` set xs" by (force simp: recent_def dest: map_of_SomeD)
  then have ne: "dropWhile (\<lambda>x. fst x \<noteq> k) xs \<noteq> []" by (auto simp: dropWhile_eq_Nil_conv)
  obtain w zs where d: "dropWhile (\<lambda>x. fst x \<noteq> k) xs = (k, w) # zs"
    using ne hd_dropWhile [OF ne] by (cases "dropWhile (\<lambda>x. fst x \<noteq> k) xs") auto
  let ?ys = "takeWhile (\<lambda>x. fst x \<noteq> k) xs"
  have xs: "xs = ?ys @ (k, w) # zs" using takeWhile_dropWhile_id [of "\<lambda>x. fst x \<noteq> k" xs] d by simp
  have ky: "k \<notin> fst ` set ?ys" by (auto dest: set_takeWhileD)
  then have "map_of ?ys k = None" by (simp add: map_of_eq_None_iff)
  then have "map_of xs k = Some w" by (subst xs) (simp add: map_add_def)
  then have "w = v" using r by (simp add: recent_def)
  then show "\<exists>ys zs. xs = ys @ (k, v) # zs \<and> k \<notin> fst ` set ys \<and> fst ` set ys \<subseteq> T"
    using xs ky r unfolding recent_def by blast
next
  assume "\<exists>ys zs. xs = ys @ (k, v) # zs \<and> k \<notin> fst ` set ys \<and> fst ` set ys \<subseteq> T"
  then obtain ys zs where xs: "xs = ys @ (k, v) # zs" "k \<notin> fst ` set ys" "fst ` set ys \<subseteq> T" by blast
  then have "map_of ys k = None" by (simp add: map_of_eq_None_iff)
  moreover have "takeWhile (\<lambda>x. fst x \<noteq> k) xs = ys"
    using xs(2) unfolding xs(1) by (subst takeWhile_append2) auto
  ultimately show "recent k v T xs" using xs by (simp add: recent_def map_add_def)
qed

lemma recent_touch:
  assumes "recent k v T xs" "j = k \<or> j \<in> T"
  shows "recent k v T (lru_touch j xs)"
proof (cases "j = k")
  case True
  then show ?thesis using assms(1) by (simp add: lru_touch_def recent_def)
next
  case False
  obtain ys zs where xs: "xs = ys @ (k, v) # zs" "k \<notin> fst ` set ys" "fst ` set ys \<subseteq> T"
    using assms(1) by (auto simp: recent_split)
  show ?thesis
  proof (cases "map_of xs j")
    case None
    then show ?thesis using assms(1) by (simp add: lru_touch_def)
  next
    case (Some w)
    let ?ys = "(j, w) # filter (\<lambda>x. fst x \<noteq> j) ys"
    have "lru_touch j xs = ?ys @ (k, v) # filter (\<lambda>x. fst x \<noteq> j) zs"
      using Some False by (simp add: lru_touch_def xs(1))
    moreover have "k \<notin> fst ` set ?ys" "fst ` set ?ys \<subseteq> T" using xs assms(2) False by auto
    ultimately show ?thesis unfolding recent_split by blast
  qed
qed

lemma recent_push:
  assumes r: "recent k v T xs" and j: "j \<in> T" "j \<notin> fst ` set xs" and d: "distinct (map fst xs)"
    and T: "finite T" "card T < n"
  shows "recent k v T (take n ((j, w) # xs))"
proof -
  obtain ys zs where xs: "xs = ys @ (k, v) # zs" "k \<notin> fst ` set ys" "fst ` set ys \<subseteq> T"
    using r by (auto simp: recent_split)
  let ?zs = "(j, w) # ys"
  have "distinct (map fst ?zs)" using d j(2) by (auto simp: xs(1))
  then have "length ?zs = card (fst ` set ?zs)" using distinct_card [of "map fst ?zs"] by simp
  also have "\<dots> \<le> card T" using xs(3) j(1) T(1) by (intro card_mono) auto
  finally have "length ?zs < n" using T(2) by simp
  then have "take n ((j, w) # xs) = ?zs @ (k, v) # take (n - length ?zs - 1) zs"
    by (simp add: xs(1) take_Cons')
  moreover have "k \<notin> fst ` set ?zs" "fst ` set ?zs \<subseteq> T" using j xs by auto
  ultimately show ?thesis unfolding recent_split by blast
qed

text \<open>
  What \<open>primitive_cache_t\<close> promises its client: the entries are distinct and bounded, a lookup
  returns what was stored and makes it the most recent, and storing an absent key puts it in
  front and drops the oldest entry when the cache is full.
\<close>

locale primitive_cache =
  fixes inv :: "'c \<Rightarrow> bool"
    and entries :: "'c \<Rightarrow> ('k \<times> 'v) list"
    and cap :: "'c \<Rightarrow> nat"
    and add :: "'k \<Rightarrow> 'v \<Rightarrow> 'c \<Rightarrow> 'c"
    and get :: "'k \<Rightarrow> 'c \<Rightarrow> ('v option \<times> 'c) option"
  assumes bounded: "inv c \<Longrightarrow> distinct (map fst (entries c)) \<and> length (entries c) \<le> cap c"
    and get_law: "inv c \<Longrightarrow> \<exists>c'. get k c = Some (map_of (entries c) k, c') \<and> inv c' \<and>
        cap c' = cap c \<and> entries c' = lru_touch k (entries c)"
    and add_law: "inv c \<Longrightarrow> k \<notin> fst ` set (entries c) \<Longrightarrow>
        inv (add k v c) \<and> cap (add k v c) = cap c \<and>
        entries (add k v c) = take (cap c) ((k, v) # entries c)"

section \<open>The engine\<close>

text \<open>
  A request for a primitive: its key, the implementation its creation yields, the requests its
  initialisation makes in turn (the mutex is recursive) and whether creation and
  initialisation succeed.
\<close>

datatype ('k, 'v) req = Req 'k 'v "('k, 'v) req list" bool

text \<open>
  \<open>engine_t::get_primitive\<close>, which calls the cache through its virtual interface. \<open>None\<close> is
  undefined behaviour; inside, the implementation used or the failure.
\<close>

fun get_primitive :: "('k \<Rightarrow> 'v \<Rightarrow> 'c \<Rightarrow> 'c) \<Rightarrow> ('k \<Rightarrow> 'c \<Rightarrow> ('v option \<times> 'c) option) \<Rightarrow>
    ('k, 'v) req \<Rightarrow> 'c \<Rightarrow> ('v option \<times> 'c) option"
  and get_primitives :: "('k \<Rightarrow> 'v \<Rightarrow> 'c \<Rightarrow> 'c) \<Rightarrow> ('k \<Rightarrow> 'c \<Rightarrow> ('v option \<times> 'c) option) \<Rightarrow>
    ('k, 'v) req list \<Rightarrow> 'c \<Rightarrow> 'c option" where
  "get_primitive add get (Req key impl nested ok) c =
     (case get key c of
        None \<Rightarrow> None
      | Some (Some cached, c) \<Rightarrow> Some (Some cached, c)
      | Some (None, c) \<Rightarrow> (case get_primitives add get nested c of
            None \<Rightarrow> None
          | Some c \<Rightarrow> if \<not> ok then Some (None, c) else Some (Some impl, add key impl c)))"
| "get_primitives add get [] c = Some c"
| "get_primitives add get (r # rs) c = (case get_primitive add get r c of
        None \<Rightarrow> None
      | Some (_, c) \<Rightarrow> get_primitives add get rs c)"

text \<open>The keys of a request, nested ones included; what each key may be cached with.\<close>

fun req_keys :: "('k, 'v) req \<Rightarrow> 'k set" and reqs_keys :: "('k, 'v) req list \<Rightarrow> 'k set" where
  "req_keys (Req k v rs ok) = insert k (reqs_keys rs)"
| "reqs_keys [] = {}"
| "reqs_keys (r # rs) = req_keys r \<union> reqs_keys rs"

fun req_impls :: "('k, 'v) req \<Rightarrow> ('k \<times> 'v) set" and reqs_impls :: "('k, 'v) req list \<Rightarrow> ('k \<times> 'v) set" where
  "req_impls (Req k v rs ok) = insert (k, v) (reqs_impls rs)"
| "reqs_impls [] = {}"
| "reqs_impls (r # rs) = req_impls r \<union> reqs_impls rs"

text \<open>Creating a primitive never asks for the same primitive again.\<close>

fun wf_req :: "('k, 'v) req \<Rightarrow> bool" and wf_reqs :: "('k, 'v) req list \<Rightarrow> bool" where
  "wf_req (Req k v rs ok) \<longleftrightarrow> k \<notin> reqs_keys rs \<and> wf_reqs rs"
| "wf_reqs [] \<longleftrightarrow> True"
| "wf_reqs (r # rs) \<longleftrightarrow> wf_req r \<and> wf_reqs rs"

lemma finite_req_keys: "finite (req_keys (r :: ('k, 'v) req))" "finite (reqs_keys (rs :: ('k, 'v) req list))"
  by (induction r and rs rule: req_keys_reqs_keys.induct) simp_all

lemma req_impls_keys:
  "fst ` req_impls (r :: ('k, 'v) req) = req_keys r" "fst ` reqs_impls (rs :: ('k, 'v) req list) = reqs_keys rs"
  by (induction r and rs rule: req_keys_reqs_keys.induct) (simp_all add: image_Un)

lemma lru_touch_set: "set (lru_touch k xs) \<subseteq> set xs"
  by (auto simp: lru_touch_def dest: map_of_SomeD split: option.splits)

context primitive_cache
begin

text \<open>A miss and the run of its nested requests leave the key absent.\<close>

lemma absent_after_nested:
  assumes "map_of (entries c) k = None" "entries d = lru_touch k (entries c)"
    and "set (entries e) \<subseteq> set (entries d) \<union> reqs_impls rs" "k \<notin> reqs_keys rs"
  shows "k \<notin> fst ` set (entries e)"
proof -
  have "entries d = entries c" using assms(1,2) by (simp add: lru_touch_def)
  then have "fst ` set (entries e) \<subseteq> fst ` (set (entries c) \<union> reqs_impls rs)"
    using assms(3) by (intro image_mono) simp
  then have "fst ` set (entries e) \<subseteq> fst ` set (entries c) \<union> reqs_keys rs"
    by (simp add: image_Un req_impls_keys)
  moreover have "k \<notin> fst ` set (entries c)" using assms(1) by (simp add: map_of_eq_None_iff)
  ultimately show ?thesis using assms(4) by blast
qed

lemma run_keeps:
  shows "inv c \<Longrightarrow> wf_req r \<Longrightarrow> \<exists>x c'. get_primitive add get r c = Some (x, c') \<and> inv c' \<and> cap c' = cap c \<and>
      set (entries c') \<subseteq> set (entries c) \<union> req_impls r \<and>
      (\<forall>v. x = Some v \<longrightarrow> (\<exists>k p rs ok. r = Req k p rs ok \<and> (k, v) \<in> insert (k, p) (set (entries c))))"
    and "inv c \<Longrightarrow> wf_reqs rs \<Longrightarrow> \<exists>c'. get_primitives add get rs c = Some c' \<and> inv c' \<and> cap c' = cap c \<and>
      set (entries c') \<subseteq> set (entries c) \<union> reqs_impls rs"
proof (induction r and rs arbitrary: c and c rule: req_keys_reqs_keys.induct)
  case (1 k p rs ok)
  obtain d where d: "get k c = Some (map_of (entries c) k, d)" "inv d" "cap d = cap c"
    "entries d = lru_touch k (entries c)" using get_law [OF 1(2)] by blast
  have sd: "set (entries d) \<subseteq> set (entries c)" using d(4) lru_touch_set by metis
  show ?case
  proof (cases "map_of (entries c) k")
    case (Some v)
    then show ?thesis using d sd by (auto dest: map_of_SomeD)
  next
    case None
    obtain e where e: "get_primitives add get rs d = Some e" "inv e" "cap e = cap d"
      "set (entries e) \<subseteq> set (entries d) \<union> reqs_impls rs" using 1(1) [OF d(2)] 1(3) by auto
    have "k \<notin> fst ` set (entries e)" using absent_after_nested [OF None d(4) e(4)] 1(3) by simp
    note a = add_law [OF e(2) this, of p]
    have "set (entries (add k p e)) \<subseteq> insert (k, p) (set (entries e))" using a by (auto dest: in_set_takeD)
    then show ?thesis using None d e a sd by auto
  qed
next
  case (3 r rs)
  obtain x d where d: "get_primitive add get r c = Some (x, d)" "inv d" "cap d = cap c"
    "set (entries d) \<subseteq> set (entries c) \<union> req_impls r" using 3(1) [OF 3(3)] 3(4) by auto
  obtain e where "get_primitives add get rs d = Some e" "inv e" "cap e = cap d"
    "set (entries e) \<subseteq> set (entries d) \<union> reqs_impls rs" using 3(2) [OF d(2)] 3(4) by auto
  then show ?case using d by auto
qed simp

lemma run_recent:
  assumes T: "finite T"
  shows "inv c \<Longrightarrow> wf_req r \<Longrightarrow> recent k v T (entries c) \<Longrightarrow> req_keys r \<subseteq> insert k T \<Longrightarrow> card T < cap c \<Longrightarrow>
      \<exists>x c'. get_primitive add get r c = Some (x, c') \<and> recent k v T (entries c')"
    and "inv c \<Longrightarrow> wf_reqs rs \<Longrightarrow> recent k v T (entries c) \<Longrightarrow> reqs_keys rs \<subseteq> insert k T \<Longrightarrow> card T < cap c \<Longrightarrow>
      \<exists>c'. get_primitives add get rs c = Some c' \<and> recent k v T (entries c')"
proof (induction r and rs arbitrary: c and c rule: req_keys_reqs_keys.induct)
  case (1 j p rs ok)
  obtain d where d: "get j c = Some (map_of (entries c) j, d)" "inv d" "cap d = cap c"
    "entries d = lru_touch j (entries c)" using get_law [OF 1(2)] by blast
  have rd: "recent k v T (entries d)" unfolding d(4) using 1(4,5) by (intro recent_touch) auto
  show ?case
  proof (cases "map_of (entries c) j")
    case (Some w)
    then show ?thesis using d rd by auto
  next
    case None
    obtain e where e: "get_primitives add get rs d = Some e" "recent k v T (entries e)"
      using 1(1) [OF d(2) _ rd] 1(3,5,6) d(3) by auto
    obtain e' where e': "get_primitives add get rs d = Some e'" "inv e'" "cap e' = cap d"
      "set (entries e') \<subseteq> set (entries d) \<union> reqs_impls rs" using run_keeps(2) [OF d(2)] 1(3) by auto
    have ee: "e' = e" using e(1) e'(1) by simp
    have abs: "j \<notin> fst ` set (entries e)" using absent_after_nested [OF None d(4) e'(4)] 1(3) ee by simp
    then have "j \<noteq> k" using e(2) by (force simp: recent_def dest: map_of_SomeD)
    then have "j \<in> T" using 1(5) by auto
    then have "recent k v T (take (cap e) ((j, p) # entries e))"
      using abs bounded [of e] e' ee 1(6) d(3) by (intro recent_push [OF e(2) _ _ _ T]) auto
    then show ?thesis using None d e e' ee add_law [OF _ abs, of p] by auto
  qed
next
  case (3 r rs)
  obtain x d where d: "get_primitive add get r c = Some (x, d)" "recent k v T (entries d)"
    using 3(1) [OF 3(3)] 3(4-7) by auto
  obtain x' d' where d': "get_primitive add get r c = Some (x', d')" "inv d'" "cap d' = cap c"
    using run_keeps(1) [OF 3(3)] 3(4) by force
  then have "d' = d" using d(1) by simp
  then show ?case using 3(2) [of d] 3(4,6,7) d d' by auto
qed simp

text \<open>A request that succeeds leaves its key the most recent one, with the value returned.\<close>

lemma fresh_recent:
  assumes "inv c" "wf_req (Req k p rs ok)" "0 < cap c"
    and "get_primitive add get (Req k p rs ok) c = Some (Some v, c')"
  shows "recent k v {} (entries c')"
proof -
  obtain d where d: "get k c = Some (map_of (entries c) k, d)" "inv d" "cap d = cap c"
    "entries d = lru_touch k (entries c)" using get_law [OF assms(1)] by blast
  show ?thesis
  proof (cases "map_of (entries c) k")
    case (Some w)
    then show ?thesis using d assms(4) by (simp add: recent_def lru_touch_def)
  next
    case None
    obtain e where e: "get_primitives add get rs d = Some e" "inv e" "cap e = cap d"
      "set (entries e) \<subseteq> set (entries d) \<union> reqs_impls rs" using run_keeps(2) [OF d(2)] assms(2) by auto
    have "k \<notin> fst ` set (entries e)" using absent_after_nested [OF None d(4) e(4)] assms(2) by simp
    then show ?thesis
      using add_law [OF e(2), of k p] None d e assms(3,4)
      by (auto simp: recent_def take_Cons' split: if_splits)
  qed
qed

lemma recent_hit:
  assumes "inv c" "recent k v T (entries c)"
  shows "\<exists>c'. get k c = Some (Some v, c')"
  using get_law [OF assms(1), of k] assms(2) by (auto simp: recent_def)

end

section \<open>The LRU cache provides the contract\<close>

definition lru_entries :: "('k, 'v) lru \<Rightarrow> ('k \<times> 'v) list" where
  "lru_entries c = map snd (cache_list c)"

text \<open>Stronger than \<open>lru_inv\<close>: keys are distinct and every node is mapped.\<close>

definition lru_ok :: "('k, 'v) lru \<Rightarrow> bool" where
  "lru_ok c \<longleftrightarrow> lru_inv c \<and> distinct (map fst (lru_entries c)) \<and>
     (\<forall>it k v. (it, k, v) \<in> set (cache_list c) \<longrightarrow> cache_mapper c k = Some it)"

lemma lru_ok_new: "lru_ok (new_lru cap)"
  using lru_inv_new by (simp add: lru_ok_def new_lru_def lru_entries_def)

lemma lru_ok_mapper:
  assumes "lru_ok c"
  shows "cache_mapper c k = Some it \<longleftrightarrow> (\<exists>v. (it, k, v) \<in> set (cache_list c))"
proof
  show "\<exists>v. (it, k, v) \<in> set (cache_list c)" if "cache_mapper c k = Some it"
    using lru_mapped [OF _ that] assms by (simp add: lru_ok_def)
  show "cache_mapper c k = Some it" if "\<exists>v. (it, k, v) \<in> set (cache_list c)"
    using that assms unfolding lru_ok_def by blast
qed

lemma lru_ok_map_of:
  assumes "lru_ok c" "(it, k, v) \<in> set (cache_list c)"
  shows "map_of (lru_entries c) k = Some v"
proof -
  have "(k, v) \<in> set (lru_entries c)" using assms(2) by (force simp: lru_entries_def)
  then show ?thesis using assms(1) by (simp add: lru_ok_def map_of_eq_Some_iff)
qed

lemma lru_get_law:
  assumes ok: "lru_ok c"
  shows "\<exists>c'. lru_get k c = Some (map_of (lru_entries c) k, c') \<and> lru_ok c' \<and>
     capacity c' = capacity c \<and> lru_entries c' = lru_touch k (lru_entries c)"
proof -
  have inv: "lru_inv c" using ok by (simp add: lru_ok_def)
  then show ?thesis
  proof (cases rule: lru_get_cases [where key = k])
    case miss
    have "map_of (lru_entries c) k = None"
    proof (rule ccontr)
      assume "map_of (lru_entries c) k \<noteq> None"
      then obtain v where "(k, v) \<in> set (lru_entries c)" by (auto dest: map_of_SomeD)
      then obtain it where "(it, k, v) \<in> set (cache_list c)" by (auto simp: lru_entries_def)
      then have "cache_mapper c k = Some it" "cache_list c \<noteq> []" using lru_ok_mapper [OF ok] by auto
      moreover from this(2) have "capacity c \<noteq> 0" using inv by (cases "cache_list c") (auto simp: lru_inv_def)
      ultimately show False using miss(1) by simp
    qed
    then show ?thesis using miss(2) ok by (simp add: lru_touch_def)
  next
    case (hit it v)
    let ?c = "c\<lparr>cache_list := (it, k, v) # filter (\<lambda>n. fst n \<noteq> it) (cache_list c)\<rparr>"
    have inv': "lru_inv ?c" using lru_inv_get [OF inv, of k] hit(4) by simp
    have same: "fst n = it \<longleftrightarrow> fst (snd n) = k" if n: "n \<in> set (cache_list c)" for n
    proof -
      obtain it' k' v' where n': "n = (it', k', v')" by (cases n)
      have m: "cache_mapper c k' = Some it'" using n ok unfolding n' lru_ok_def by blast
      have "(k', v') = (k, v)" if "it' = it"
        using n hit(3) inv that unfolding n' lru_inv_def by (metis eq_key_imp_eq_value)
      then show ?thesis using m hit(2) by (auto simp: n')
    qed
    have f: "map snd (filter (\<lambda>n. fst n \<noteq> it) (cache_list c)) = filter (\<lambda>x. fst x \<noteq> k) (lru_entries c)"
      unfolding lru_entries_def filter_map comp_def using same by (intro arg_cong [of _ _ "map snd"] filter_cong) auto
    have e: "lru_entries ?c = lru_touch k (lru_entries c)"
      using lru_ok_map_of [OF ok hit(3)] f by (simp add: lru_entries_def lru_touch_def)
    moreover have "distinct (map fst (lru_entries ?c))"
      unfolding e using ok lru_ok_map_of [OF ok hit(3)] by (auto simp: lru_touch_def lru_ok_def distinct_map_filter)
    ultimately have "lru_ok ?c" using inv' ok hit(2) by (auto simp: lru_ok_def)
    then show ?thesis using hit(4) e lru_ok_map_of [OF ok hit(3)] by simp
  qed
qed

lemma lru_ok_evict:
  assumes ok: "lru_ok c"
  shows "lru_ok (evict_last c)" "lru_entries (evict_last c) = butlast (lru_entries c)"
proof -
  show e: "lru_entries (evict_last c) = butlast (lru_entries c)"
    by (simp add: lru_entries_def evict_last_def map_butlast)
  have inv: "lru_inv (evict_last c)" using ok by (simp add: lru_ok_def lru_inv_evict(1))
  have d: "distinct (map fst (lru_entries c))" using ok by (simp add: lru_ok_def)
  have "cache_mapper (evict_last c) k = Some it" if m: "(it, k, v) \<in> set (butlast (cache_list c))" for it k v
  proof -
    obtain ns n where c: "cache_list c = ns @ [n]" using m by (cases "cache_list c" rule: rev_cases) auto
    have mem: "(it, k, v) \<in> set ns" using m c by simp
    then have "k \<in> (\<lambda>x. fst (snd x)) ` set ns" by force
    moreover have "fst (snd n) \<notin> (\<lambda>x. fst (snd x)) ` set ns" using d c by (simp add: lru_entries_def)
    ultimately have "k \<noteq> fst (snd n)" by blast
    moreover have "cache_mapper c k = Some it" using lru_ok_mapper [OF ok] mem c by auto
    ultimately show ?thesis by (simp add: evict_last_def c)
  qed
  then show "lru_ok (evict_last c)"
    using inv d e by (auto simp: lru_ok_def map_butlast distinct_butlast) (simp add: evict_last_def)
qed

lemma lru_add_law:
  assumes ok: "lru_ok c" and k: "k \<notin> fst ` set (lru_entries c)"
  shows "lru_ok (lru_add k v c) \<and> capacity (lru_add k v c) = capacity c \<and>
     lru_entries (lru_add k v c) = take (capacity c) ((k, v) # lru_entries c)"
proof (cases "capacity c = 0")
  case True
  then have "lru_entries c = []" using ok by (simp add: lru_ok_def lru_inv_def lru_entries_def)
  then show ?thesis using True ok by (simp add: lru_add_def)
next
  case False
  define d where "d = (if length (cache_list c) \<ge> capacity c then evict_last c else c)"
  have len: "length (lru_entries c) \<le> capacity c" using ok by (simp add: lru_ok_def lru_inv_def lru_entries_def)
  have d: "lru_ok d" "capacity d = capacity c" "lru_entries d = take (capacity c - 1) (lru_entries c)"
    using ok lru_ok_evict [OF ok] len False
    by (auto simp: d_def lru_inv_evict lru_ok_def lru_entries_def butlast_conv_take)
  have kd: "k \<notin> fst ` set (lru_entries d)" using k d(3) by (auto dest: in_set_takeD)
  have absent: "(it, k, w) \<notin> set (cache_list d)" for it w
    using kd by (force simp: lru_entries_def)
  then have "cache_mapper d k = None" using lru_ok_mapper [OF d(1), of k] by (cases "cache_mapper d k") auto
  then have a: "lru_add k v c = d\<lparr>cache_list := (next_node d, k, v) # cache_list d,
      cache_mapper := (cache_mapper d)(k \<mapsto> next_node d), next_node := Suc (next_node d)\<rparr>"
    using False by (simp add: lru_add_def Let_def d_def map_insert_def)
  have e: "lru_entries (lru_add k v c) = (k, v) # lru_entries d" unfolding a by (simp add: lru_entries_def)
  have inv: "lru_inv (lru_add k v c)" using ok by (simp add: lru_ok_def lru_inv_add)
  have "cache_mapper (lru_add k v c) k' = Some it"
    if m: "(it, k', v') \<in> set (cache_list (lru_add k v c))" for it k' v'
  proof (cases "k' = k")
    case True
    then have "(it, k', v') \<notin> set (cache_list d)" using absent by simp
    then show ?thesis using m True unfolding a by auto
  next
    case False
    then show ?thesis using m lru_ok_mapper [OF d(1)] unfolding a by auto
  qed
  then have "lru_ok (lru_add k v c)"
    unfolding lru_ok_def e using inv kd d(1) by (auto simp: lru_ok_def)
  then show ?thesis using e d(3) False by (simp add: take_Cons')
qed

interpretation lru: primitive_cache lru_ok lru_entries capacity lru_add lru_get
proof unfold_locales
  show "distinct (map fst (lru_entries c)) \<and> length (lru_entries c) \<le> capacity c" if "lru_ok c"
    for c :: "('a, 'b) lru"
    using that by (simp add: lru_ok_def lru_inv_def lru_entries_def)
qed (simp_all add: lru_get_law lru_add_law)

text \<open>
  C14: serving requests (nested ones included) from a new cache never runs into undefined
  behaviour, the cache stays within its capacity, and every request is answered with an
  implementation created for exactly its key.
\<close>

theorem get_primitive_right_impl:
  assumes "wf_reqs rs" "wf_req (Req k impl nested ok)"
  shows "\<exists>c x c'. get_primitives lru_add lru_get rs (new_lru cap) = Some c \<and>
    length (cache_list c) \<le> cap \<and>
    get_primitive lru_add lru_get (Req k impl nested ok) c = Some (x, c') \<and>
    (case x of None \<Rightarrow> \<not> ok | Some v \<Rightarrow> (k, v) \<in> insert (k, impl) (reqs_impls rs))"
proof -
  obtain c where c: "get_primitives lru_add lru_get rs (new_lru cap) = Some c" "lru_ok c"
    "capacity c = capacity (new_lru cap)" "set (lru_entries c) \<subseteq> reqs_impls rs"
    using lru.run_keeps(2) [OF lru_ok_new [of cap] assms(1)] by (auto simp: lru_entries_def new_lru_def)
  obtain x c' where x: "get_primitive lru_add lru_get (Req k impl nested ok) c = Some (x, c')"
    "\<forall>v. x = Some v \<longrightarrow> (k, v) \<in> insert (k, impl) (set (lru_entries c))"
    using lru.run_keeps(1) [OF c(2) assms(2)] by auto
  have "x = None \<Longrightarrow> \<not> ok" using x(1) by (auto split: option.splits prod.splits if_splits)
  moreover have "length (cache_list c) \<le> cap" using c(2,3) by (simp add: lru_ok_def lru_inv_def new_lru_def)
  ultimately show ?thesis using c x by (cases x) auto
qed

text \<open>
  C11: a primitive that was just created or found stays available: after any further requests
  for fewer than \<open>capacity\<close> distinct other keys, a lookup still returns the same implementation.
\<close>

theorem get_primitive_still_cached:
  assumes "wf_reqs rs" "get_primitives lru_add lru_get rs (new_lru cap) = Some c"
    and "wf_req (Req k impl nested ok)"
    and "get_primitive lru_add lru_get (Req k impl nested ok) c = Some (Some v, c1)"
    and "wf_reqs rs'" "card (reqs_keys rs' - {k}) < cap"
  shows "\<exists>c2 c3. get_primitives lru_add lru_get rs' c1 = Some c2 \<and> lru_get k c2 = Some (Some v, c3)"
proof -
  let ?T = "reqs_keys rs' - {k}"
  have c: "lru_ok c" "capacity c = cap"
    using lru.run_keeps(2) [OF lru_ok_new [of cap] assms(1)] assms(2) by (auto simp: new_lru_def)
  have c1: "lru_ok c1" "capacity c1 = cap" using lru.run_keeps(1) [OF c(1) assms(3)] assms(4) c(2) by auto
  have "recent k v {} (lru_entries c1)" using lru.fresh_recent [OF c(1) assms(3) _ assms(4)] assms(6) c(2) by simp
  then have r1: "recent k v ?T (lru_entries c1)" by (simp add: recent_def)
  obtain c2 where c2: "get_primitives lru_add lru_get rs' c1 = Some c2" "recent k v ?T (lru_entries c2)"
    using lru.run_recent(2) [OF _ c1(1) assms(5) r1] finite_req_keys(2) [of rs'] assms(6) c1(2) by auto
  have "lru_ok c2" using lru.run_keeps(2) [OF c1(1) assms(5)] c2(1) by auto
  then show ?thesis using c2(1) lru.recent_hit [OF _ c2(2)] by simp
qed

theorem get_primitive_right_impl_witness:
  "\<exists>c x c'. get_primitives lru_add lru_get [Req (1::nat) (10::nat) [Req 2 20 [] True] True, Req 3 30 [] False]
      (new_lru 2) = Some c \<and>
    get_primitive lru_add lru_get (Req 1 11 [] True) c = Some (x, c') \<and>
    (case x of None \<Rightarrow> False | Some v \<Rightarrow> v = 10 \<or> v = 11)"
proof -
  have "\<exists>c x c'. get_primitives lru_add lru_get [Req (1::nat) (10::nat) [Req 2 20 [] True] True, Req 3 30 [] False]
      (new_lru 2) = Some c \<and> length (cache_list c) \<le> 2 \<and>
    get_primitive lru_add lru_get (Req 1 11 [] True) c = Some (x, c') \<and>
    (case x of None \<Rightarrow> \<not> True
     | Some v \<Rightarrow> (1, v) \<in> insert (1, 11) (reqs_impls [Req (1::nat) (10::nat) [Req 2 20 [] True] True, Req 3 30 [] False]))"
    by (rule get_primitive_right_impl) simp_all
  then show ?thesis by (force split: option.splits)
qed

theorem get_primitive_still_cached_witness:
  "\<exists>c2 c3. get_primitives lru_add lru_get [Req (2::nat) (20::nat) [] True]
      (lru_add 1 10 (new_lru 2)) = Some c2 \<and> lru_get 1 c2 = Some (Some 10, c3)"
proof -
  have "get_primitive lru_add lru_get (Req (1::nat) (10::nat) [] True) (new_lru 2) =
      Some (Some 10, lru_add 1 10 (new_lru 2))"
    by (simp add: lru_get_def new_lru_def)
  from get_primitive_still_cached [of "[]" 2 "new_lru 2", OF _ _ _ this, of "[Req 2 20 [] True]"]
  show ?thesis by simp
qed

end
