(* ===== verification/Op_Types.thy ===== *)
theory Op_Types
  imports Types
begin

text \<open>
  The operation descriptors of the C API (\<open>include/dnnl_types.h\<close>), the internal ones
  (\<open>src/src/common/internal_desc_types.hpp\<close>, \<open>gemm_types.hpp\<close>) and their \<open>operator==\<close>
  (\<open>src/src/common/type_helpers.hpp\<close>). The fields of each record carry a prefix, the two rows of
  \<open>padding\<close> are two fields.
\<close>

section \<open>Enumerations\<close>

datatype rnn_direction = unidirectional_left2right | unidirectional_right2left
  | bidirectional_concat | bidirectional_sum

datatype engine_kind = engine_any_kind | engine_cpu | engine_gpu

datatype transpose_t = notrans | trans_t

text \<open>Bits of \<open>dnnl_normalization_flags_t\<close>.\<close>

definition use_global_stats :: u32 where
  "use_global_stats = 1"

definition use_scaleshift :: u32 where
  "use_scaleshift = 2"

definition fuse_norm_relu :: u32 where
  "fuse_norm_relu = 4"

section \<open>Descriptors\<close>

record convolution_desc =
  cd_primitive_kind :: primitive_kind
  cd_prop_kind :: prop_kind
  cd_alg_kind :: alg_kind
  cd_src_desc :: memory_desc
  cd_diff_src_desc :: memory_desc
  cd_weights_desc :: memory_desc
  cd_diff_weights_desc :: memory_desc
  cd_bias_desc :: memory_desc
  cd_diff_bias_desc :: memory_desc
  cd_dst_desc :: memory_desc
  cd_diff_dst_desc :: memory_desc
  cd_strides :: "dim_t carray"
  cd_dilates :: "dim_t carray"
  cd_padding_l :: "dim_t carray"
  cd_padding_r :: "dim_t carray"
  cd_accum_data_type :: data_type

record pooling_desc =
  pl_primitive_kind :: primitive_kind
  pl_prop_kind :: prop_kind
  pl_alg_kind :: alg_kind
  pl_src_desc :: memory_desc
  pl_diff_src_desc :: memory_desc
  pl_dst_desc :: memory_desc
  pl_diff_dst_desc :: memory_desc
  pl_strides :: "dim_t carray"
  pl_kernel :: "dim_t carray"
  pl_padding_l :: "dim_t carray"
  pl_padding_r :: "dim_t carray"
  pl_accum_data_type :: data_type

record inner_product_desc =
  ipd_primitive_kind :: primitive_kind
  ipd_prop_kind :: prop_kind
  ipd_src_desc :: memory_desc
  ipd_diff_src_desc :: memory_desc
  ipd_weights_desc :: memory_desc
  ipd_diff_weights_desc :: memory_desc
  ipd_bias_desc :: memory_desc
  ipd_diff_bias_desc :: memory_desc
  ipd_dst_desc :: memory_desc
  ipd_diff_dst_desc :: memory_desc
  ipd_accum_data_type :: data_type

record eltwise_desc =
  el_primitive_kind :: primitive_kind
  el_prop_kind :: prop_kind
  el_alg_kind :: alg_kind
  el_data_desc :: memory_desc
  el_diff_data_desc :: memory_desc
  el_alpha :: float_bits
  el_beta :: float_bits

record softmax_desc =
  sm_primitive_kind :: primitive_kind
  sm_prop_kind :: prop_kind
  sm_data_desc :: memory_desc
  sm_diff_desc :: memory_desc
  sm_softmax_axis :: int

record shuffle_desc =
  sh_primitive_kind :: primitive_kind
  sh_prop_kind :: prop_kind
  sh_data_desc :: memory_desc
  sh_axis :: int
  sh_group_size :: dim_t

record lrn_desc =
  lr_primitive_kind :: primitive_kind
  lr_prop_kind :: prop_kind
  lr_alg_kind :: alg_kind
  lr_data_desc :: memory_desc
  lr_diff_data_desc :: memory_desc
  lr_local_size :: dim_t
  lr_lrn_alpha :: float_bits
  lr_lrn_beta :: float_bits
  lr_lrn_k :: float_bits

record batch_normalization_desc =
  bn_primitive_kind :: primitive_kind
  bn_prop_kind :: prop_kind
  bn_data_desc :: memory_desc
  bn_diff_data_desc :: memory_desc
  bn_data_scaleshift_desc :: memory_desc
  bn_diff_data_scaleshift_desc :: memory_desc
  bn_stat_desc :: memory_desc
  bn_epsilon :: float_bits
  bn_flags :: u32

record layer_normalization_desc =
  ln_primitive_kind :: primitive_kind
  ln_prop_kind :: prop_kind
  ln_data_desc :: memory_desc
  ln_diff_data_desc :: memory_desc
  ln_data_scaleshift_desc :: memory_desc
  ln_diff_data_scaleshift_desc :: memory_desc
  ln_stat_desc :: memory_desc
  ln_epsilon :: float_bits
  ln_flags :: u32

record rnn_desc =
  rn_primitive_kind :: primitive_kind
  rn_prop_kind :: prop_kind
  rn_cell_kind :: alg_kind
  rn_direction :: rnn_direction
  rn_src_layer_desc :: memory_desc
  rn_src_iter_desc :: memory_desc
  rn_src_iter_c_desc :: memory_desc
  rn_weights_layer_desc :: memory_desc
  rn_weights_iter_desc :: memory_desc
  rn_bias_desc :: memory_desc
  rn_dst_layer_desc :: memory_desc
  rn_dst_iter_desc :: memory_desc
  rn_dst_iter_c_desc :: memory_desc
  rn_placeholder_desc :: memory_desc
  rn_placeholder2_desc :: memory_desc
  rn_diff_src_layer_desc :: memory_desc
  rn_diff_src_iter_desc :: memory_desc
  rn_diff_src_iter_c_desc :: memory_desc
  rn_diff_weights_layer_desc :: memory_desc
  rn_diff_weights_iter_desc :: memory_desc
  rn_diff_bias_desc :: memory_desc
  rn_diff_dst_layer_desc :: memory_desc
  rn_diff_dst_iter_desc :: memory_desc
  rn_diff_dst_iter_c_desc :: memory_desc
  rn_diff_placeholder_desc :: memory_desc
  rn_diff_placeholder2_desc :: memory_desc
  rn_flags :: u32
  rn_activation_kind :: alg_kind
  rn_alpha :: float_bits
  rn_beta :: float_bits

record gemm_desc =
  ge_primitive_kind :: primitive_kind
  ge_transa :: transpose_t
  ge_transb :: transpose_t
  ge_m :: dim_t
  ge_n :: dim_t
  ge_k :: dim_t
  ge_lda :: dim_t
  ge_ldb :: dim_t
  ge_ldc :: dim_t
  ge_alpha :: float_bits
  ge_beta :: float_bits
  ge_a_type :: data_type
  ge_b_type :: data_type
  ge_c_type :: data_type

record reorder_desc =
  re_primitive_kind :: primitive_kind
  re_src_md :: memory_desc
  re_dst_md :: memory_desc
  re_src_engine_kind :: engine_kind
  re_dst_engine_kind :: engine_kind

record concat_desc =
  cc_primitive_kind :: primitive_kind
  cc_dst_md :: memory_desc
  cc_n :: dim_t
  cc_concat_dimension :: dim_t
  cc_src_mds :: "memory_desc list"

record sum_desc =
  su_primitive_kind :: primitive_kind
  su_dst_md :: memory_desc
  su_n :: dim_t
  su_scales :: "float_bits list"
  su_src_mds :: "memory_desc list"

text \<open>\<open>convolution_desc_t()\<close> and its like: every field zero.\<close>

definition zero_convolution_desc :: convolution_desc where
  "zero_convolution_desc = \<lparr>
     cd_primitive_kind = pk_undef, cd_prop_kind = prop_kind_undef, cd_alg_kind = alg_kind_undef,
     cd_src_desc = zero_md, cd_diff_src_desc = zero_md, cd_weights_desc = zero_md,
     cd_diff_weights_desc = zero_md, cd_bias_desc = zero_md, cd_diff_bias_desc = zero_md,
     cd_dst_desc = zero_md, cd_diff_dst_desc = zero_md, cd_strides = (\<lambda>_. 0),
     cd_dilates = (\<lambda>_. 0), cd_padding_l = (\<lambda>_. 0),
     cd_padding_r = (\<lambda>_. 0), cd_accum_data_type = dt_undef\<rparr>"

definition zero_pooling_desc :: pooling_desc where
  "zero_pooling_desc = \<lparr>
     pl_primitive_kind = pk_undef, pl_prop_kind = prop_kind_undef, pl_alg_kind = alg_kind_undef,
     pl_src_desc = zero_md, pl_diff_src_desc = zero_md, pl_dst_desc = zero_md,
     pl_diff_dst_desc = zero_md, pl_strides = (\<lambda>_. 0), pl_kernel = (\<lambda>_. 0),
     pl_padding_l = (\<lambda>_. 0), pl_padding_r = (\<lambda>_. 0),
     pl_accum_data_type = dt_undef\<rparr>"

definition zero_inner_product_desc :: inner_product_desc where
  "zero_inner_product_desc = \<lparr>
     ipd_primitive_kind = pk_undef, ipd_prop_kind = prop_kind_undef, ipd_src_desc = zero_md,
     ipd_diff_src_desc = zero_md, ipd_weights_desc = zero_md, ipd_diff_weights_desc = zero_md,
     ipd_bias_desc = zero_md, ipd_diff_bias_desc = zero_md, ipd_dst_desc = zero_md,
     ipd_diff_dst_desc = zero_md, ipd_accum_data_type = dt_undef\<rparr>"

definition zero_eltwise_desc :: eltwise_desc where
  "zero_eltwise_desc = \<lparr>
     el_primitive_kind = pk_undef, el_prop_kind = prop_kind_undef, el_alg_kind = alg_kind_undef,
     el_data_desc = zero_md, el_diff_data_desc = zero_md, el_alpha = 0, el_beta = 0\<rparr>"

definition zero_softmax_desc :: softmax_desc where
  "zero_softmax_desc = \<lparr>
     sm_primitive_kind = pk_undef, sm_prop_kind = prop_kind_undef, sm_data_desc = zero_md,
     sm_diff_desc = zero_md, sm_softmax_axis = 0\<rparr>"

definition zero_shuffle_desc :: shuffle_desc where
  "zero_shuffle_desc = \<lparr>
     sh_primitive_kind = pk_undef, sh_prop_kind = prop_kind_undef, sh_data_desc = zero_md,
     sh_axis = 0, sh_group_size = 0\<rparr>"

definition zero_lrn_desc :: lrn_desc where
  "zero_lrn_desc = \<lparr>
     lr_primitive_kind = pk_undef, lr_prop_kind = prop_kind_undef, lr_alg_kind = alg_kind_undef,
     lr_data_desc = zero_md, lr_diff_data_desc = zero_md, lr_local_size = 0, lr_lrn_alpha = 0,
     lr_lrn_beta = 0, lr_lrn_k = 0\<rparr>"

definition zero_batch_normalization_desc :: batch_normalization_desc where
  "zero_batch_normalization_desc = \<lparr>
     bn_primitive_kind = pk_undef, bn_prop_kind = prop_kind_undef, bn_data_desc = zero_md,
     bn_diff_data_desc = zero_md, bn_data_scaleshift_desc = zero_md,
     bn_diff_data_scaleshift_desc = zero_md, bn_stat_desc = zero_md, bn_epsilon = 0,
     bn_flags = 0\<rparr>"

definition zero_layer_normalization_desc :: layer_normalization_desc where
  "zero_layer_normalization_desc = \<lparr>
     ln_primitive_kind = pk_undef, ln_prop_kind = prop_kind_undef, ln_data_desc = zero_md,
     ln_diff_data_desc = zero_md, ln_data_scaleshift_desc = zero_md,
     ln_diff_data_scaleshift_desc = zero_md, ln_stat_desc = zero_md, ln_epsilon = 0,
     ln_flags = 0\<rparr>"

definition zero_rnn_desc :: rnn_desc where
  "zero_rnn_desc = \<lparr>
     rn_primitive_kind = pk_undef, rn_prop_kind = prop_kind_undef,
     rn_cell_kind = alg_kind_undef, rn_direction = unidirectional_left2right,
     rn_src_layer_desc = zero_md, rn_src_iter_desc = zero_md, rn_src_iter_c_desc = zero_md,
     rn_weights_layer_desc = zero_md, rn_weights_iter_desc = zero_md, rn_bias_desc = zero_md,
     rn_dst_layer_desc = zero_md, rn_dst_iter_desc = zero_md, rn_dst_iter_c_desc = zero_md,
     rn_placeholder_desc = zero_md, rn_placeholder2_desc = zero_md,
     rn_diff_src_layer_desc = zero_md, rn_diff_src_iter_desc = zero_md,
     rn_diff_src_iter_c_desc = zero_md, rn_diff_weights_layer_desc = zero_md,
     rn_diff_weights_iter_desc = zero_md, rn_diff_bias_desc = zero_md,
     rn_diff_dst_layer_desc = zero_md, rn_diff_dst_iter_desc = zero_md,
     rn_diff_dst_iter_c_desc = zero_md, rn_diff_placeholder_desc = zero_md,
     rn_diff_placeholder2_desc = zero_md, rn_flags = 0, rn_activation_kind = alg_kind_undef,
     rn_alpha = 0, rn_beta = 0\<rparr>"

section \<open>Equality\<close>

text \<open>
  The element loops of the concat and sum comparisons run over the first \<open>n\<close> entries of both
  vectors.
\<close>

definition list_all2_upto :: "('a \<Rightarrow> 'a \<Rightarrow> bool) \<Rightarrow> nat \<Rightarrow> 'a list \<Rightarrow> 'a list \<Rightarrow> bool" where
  "list_all2_upto eq n xs ys = all_upto n (\<lambda>i. eq (xs ! i) (ys ! i))"

text \<open>\<open>operator==\<close> of \<open>std::vector<float>\<close>.\<close>

definition f32_vector_eq :: "float_bits list \<Rightarrow> float_bits list \<Rightarrow> bool" where
  "f32_vector_eq xs ys = list_all2 f32_eq xs ys"

definition convolution_desc_eq :: "convolution_desc \<Rightarrow> convolution_desc \<Rightarrow> bool" where
  "convolution_desc_eq lhs rhs \<longleftrightarrow>
     cd_primitive_kind lhs = cd_primitive_kind rhs \<and>
     cd_prop_kind lhs = cd_prop_kind rhs \<and> cd_alg_kind lhs = cd_alg_kind rhs \<and>
     memory_desc_eq (cd_src_desc lhs) (cd_src_desc rhs) \<and>
     memory_desc_eq (cd_diff_src_desc lhs) (cd_diff_src_desc rhs) \<and>
     memory_desc_eq (cd_weights_desc lhs) (cd_weights_desc rhs) \<and>
     memory_desc_eq (cd_diff_weights_desc lhs) (cd_diff_weights_desc rhs) \<and>
     memory_desc_eq (cd_bias_desc lhs) (cd_bias_desc rhs) \<and>
     memory_desc_eq (cd_diff_bias_desc lhs) (cd_diff_bias_desc rhs) \<and>
     memory_desc_eq (cd_dst_desc lhs) (cd_dst_desc rhs) \<and>
     memory_desc_eq (cd_diff_dst_desc lhs) (cd_diff_dst_desc rhs) \<and>
     array_cmp (cd_strides lhs) (cd_strides rhs) DNNL_MAX_NDIMS \<and>
     array_cmp (cd_dilates lhs) (cd_dilates rhs) DNNL_MAX_NDIMS \<and>
     array_cmp (cd_padding_l lhs) (cd_padding_l rhs) DNNL_MAX_NDIMS \<and>
     array_cmp (cd_padding_r lhs) (cd_padding_r rhs) DNNL_MAX_NDIMS \<and>
     cd_accum_data_type lhs = cd_accum_data_type rhs"

definition pooling_desc_eq :: "pooling_desc \<Rightarrow> pooling_desc \<Rightarrow> bool" where
  "pooling_desc_eq lhs rhs \<longleftrightarrow>
     pl_primitive_kind lhs = pl_primitive_kind rhs \<and>
     pl_prop_kind lhs = pl_prop_kind rhs \<and> pl_alg_kind lhs = pl_alg_kind rhs \<and>
     memory_desc_eq (pl_src_desc lhs) (pl_src_desc rhs) \<and>
     memory_desc_eq (pl_diff_src_desc lhs) (pl_diff_src_desc rhs) \<and>
     memory_desc_eq (pl_dst_desc lhs) (pl_dst_desc rhs) \<and>
     memory_desc_eq (pl_diff_dst_desc lhs) (pl_diff_dst_desc rhs) \<and>
     array_cmp (pl_strides lhs) (pl_strides rhs) DNNL_MAX_NDIMS \<and>
     array_cmp (pl_kernel lhs) (pl_kernel rhs) DNNL_MAX_NDIMS \<and>
     array_cmp (pl_padding_l lhs) (pl_padding_l rhs) DNNL_MAX_NDIMS \<and>
     array_cmp (pl_padding_r lhs) (pl_padding_r rhs) DNNL_MAX_NDIMS \<and>
     pl_accum_data_type lhs = pl_accum_data_type rhs"

definition inner_product_desc_eq :: "inner_product_desc \<Rightarrow> inner_product_desc \<Rightarrow> bool" where
  "inner_product_desc_eq lhs rhs \<longleftrightarrow>
     ipd_primitive_kind lhs = ipd_primitive_kind rhs \<and>
     ipd_prop_kind lhs = ipd_prop_kind rhs \<and>
     memory_desc_eq (ipd_src_desc lhs) (ipd_src_desc rhs) \<and>
     memory_desc_eq (ipd_diff_src_desc lhs) (ipd_diff_src_desc rhs) \<and>
     memory_desc_eq (ipd_weights_desc lhs) (ipd_weights_desc rhs) \<and>
     memory_desc_eq (ipd_diff_weights_desc lhs) (ipd_diff_weights_desc rhs) \<and>
     memory_desc_eq (ipd_bias_desc lhs) (ipd_bias_desc rhs) \<and>
     memory_desc_eq (ipd_diff_bias_desc lhs) (ipd_diff_bias_desc rhs) \<and>
     memory_desc_eq (ipd_dst_desc lhs) (ipd_dst_desc rhs) \<and>
     memory_desc_eq (ipd_diff_dst_desc lhs) (ipd_diff_dst_desc rhs) \<and>
     ipd_accum_data_type lhs = ipd_accum_data_type rhs"

definition eltwise_desc_eq :: "eltwise_desc \<Rightarrow> eltwise_desc \<Rightarrow> bool" where
  "eltwise_desc_eq lhs rhs \<longleftrightarrow>
     el_primitive_kind lhs = el_primitive_kind rhs \<and>
     el_prop_kind lhs = el_prop_kind rhs \<and> el_alg_kind lhs = el_alg_kind rhs \<and>
     memory_desc_eq (el_data_desc lhs) (el_data_desc rhs) \<and>
     memory_desc_eq (el_diff_data_desc lhs) (el_diff_data_desc rhs) \<and>
     f32_eq (el_alpha lhs) (el_alpha rhs) \<and> f32_eq (el_beta lhs) (el_beta rhs)"

definition softmax_desc_eq :: "softmax_desc \<Rightarrow> softmax_desc \<Rightarrow> bool" where
  "softmax_desc_eq lhs rhs \<longleftrightarrow>
     sm_primitive_kind lhs = sm_primitive_kind rhs \<and>
     sm_prop_kind lhs = sm_prop_kind rhs \<and>
     memory_desc_eq (sm_data_desc lhs) (sm_data_desc rhs) \<and>
     memory_desc_eq (sm_diff_desc lhs) (sm_diff_desc rhs) \<and>
     sm_softmax_axis lhs = sm_softmax_axis rhs"

definition shuffle_desc_eq :: "shuffle_desc \<Rightarrow> shuffle_desc \<Rightarrow> bool" where
  "shuffle_desc_eq lhs rhs \<longleftrightarrow>
     sh_primitive_kind lhs = sh_primitive_kind rhs \<and>
     sh_prop_kind lhs = sh_prop_kind rhs \<and>
     memory_desc_eq (sh_data_desc lhs) (sh_data_desc rhs) \<and>
     sh_axis lhs = sh_axis rhs \<and> sh_group_size lhs = sh_group_size rhs"

definition lrn_desc_eq :: "lrn_desc \<Rightarrow> lrn_desc \<Rightarrow> bool" where
  "lrn_desc_eq lhs rhs \<longleftrightarrow>
     lr_primitive_kind lhs = lr_primitive_kind rhs \<and>
     lr_prop_kind lhs = lr_prop_kind rhs \<and> lr_alg_kind lhs = lr_alg_kind rhs \<and>
     memory_desc_eq (lr_data_desc lhs) (lr_data_desc rhs) \<and>
     memory_desc_eq (lr_diff_data_desc lhs) (lr_diff_data_desc rhs) \<and>
     lr_local_size lhs = lr_local_size rhs \<and>
     f32_eq (lr_lrn_alpha lhs) (lr_lrn_alpha rhs) \<and>
     f32_eq (lr_lrn_beta lhs) (lr_lrn_beta rhs) \<and> f32_eq (lr_lrn_k lhs) (lr_lrn_k rhs)"

definition batch_normalization_desc_eq :: "batch_normalization_desc \<Rightarrow> batch_normalization_desc \<Rightarrow> bool" where
  "batch_normalization_desc_eq lhs rhs \<longleftrightarrow>
     bn_primitive_kind lhs = bn_primitive_kind rhs \<and>
     bn_prop_kind lhs = bn_prop_kind rhs \<and>
     memory_desc_eq (bn_data_desc lhs) (bn_data_desc rhs) \<and>
     memory_desc_eq (bn_diff_data_desc lhs) (bn_diff_data_desc rhs) \<and>
     memory_desc_eq (bn_data_scaleshift_desc lhs) (bn_data_scaleshift_desc rhs) \<and>
     memory_desc_eq (bn_diff_data_scaleshift_desc lhs) (bn_diff_data_scaleshift_desc rhs) \<and>
     memory_desc_eq (bn_stat_desc lhs) (bn_stat_desc rhs) \<and>
     f32_eq (bn_epsilon lhs) (bn_epsilon rhs) \<and> bn_flags lhs = bn_flags rhs"

definition layer_normalization_desc_eq :: "layer_normalization_desc \<Rightarrow> layer_normalization_desc \<Rightarrow> bool" where
  "layer_normalization_desc_eq lhs rhs \<longleftrightarrow>
     ln_primitive_kind lhs = ln_primitive_kind rhs \<and>
     ln_prop_kind lhs = ln_prop_kind rhs \<and>
     memory_desc_eq (ln_data_desc lhs) (ln_data_desc rhs) \<and>
     memory_desc_eq (ln_diff_data_desc lhs) (ln_diff_data_desc rhs) \<and>
     memory_desc_eq (ln_data_scaleshift_desc lhs) (ln_data_scaleshift_desc rhs) \<and>
     memory_desc_eq (ln_diff_data_scaleshift_desc lhs) (ln_diff_data_scaleshift_desc rhs) \<and>
     memory_desc_eq (ln_stat_desc lhs) (ln_stat_desc rhs) \<and>
     f32_eq (ln_epsilon lhs) (ln_epsilon rhs) \<and> ln_flags lhs = ln_flags rhs"

definition rnn_desc_eq :: "rnn_desc \<Rightarrow> rnn_desc \<Rightarrow> bool" where
  "rnn_desc_eq lhs rhs \<longleftrightarrow>
     rn_primitive_kind lhs = rn_primitive_kind rhs \<and>
     rn_prop_kind lhs = rn_prop_kind rhs \<and> rn_cell_kind lhs = rn_cell_kind rhs \<and>
     rn_direction lhs = rn_direction rhs \<and>
     memory_desc_eq (rn_src_layer_desc lhs) (rn_src_layer_desc rhs) \<and>
     memory_desc_eq (rn_src_iter_desc lhs) (rn_src_iter_desc rhs) \<and>
     memory_desc_eq (rn_src_iter_c_desc lhs) (rn_src_iter_c_desc rhs) \<and>
     memory_desc_eq (rn_weights_layer_desc lhs) (rn_weights_layer_desc rhs) \<and>
     memory_desc_eq (rn_weights_iter_desc lhs) (rn_weights_iter_desc rhs) \<and>
     memory_desc_eq (rn_bias_desc lhs) (rn_bias_desc rhs) \<and>
     memory_desc_eq (rn_dst_layer_desc lhs) (rn_dst_layer_desc rhs) \<and>
     memory_desc_eq (rn_dst_iter_desc lhs) (rn_dst_iter_desc rhs) \<and>
     memory_desc_eq (rn_dst_iter_c_desc lhs) (rn_dst_iter_c_desc rhs) \<and>
     memory_desc_eq (rn_placeholder_desc lhs) (rn_placeholder_desc rhs) \<and>
     memory_desc_eq (rn_placeholder2_desc lhs) (rn_placeholder2_desc rhs) \<and>
     memory_desc_eq (rn_diff_src_layer_desc lhs) (rn_diff_src_layer_desc rhs) \<and>
     memory_desc_eq (rn_diff_src_iter_desc lhs) (rn_diff_src_iter_desc rhs) \<and>
     memory_desc_eq (rn_diff_src_iter_c_desc lhs) (rn_diff_src_iter_c_desc rhs) \<and>
     memory_desc_eq (rn_diff_weights_layer_desc lhs) (rn_diff_weights_layer_desc rhs) \<and>
     memory_desc_eq (rn_diff_weights_iter_desc lhs) (rn_diff_weights_iter_desc rhs) \<and>
     memory_desc_eq (rn_diff_bias_desc lhs) (rn_diff_bias_desc rhs) \<and>
     memory_desc_eq (rn_diff_dst_layer_desc lhs) (rn_diff_dst_layer_desc rhs) \<and>
     memory_desc_eq (rn_diff_dst_iter_desc lhs) (rn_diff_dst_iter_desc rhs) \<and>
     memory_desc_eq (rn_diff_dst_iter_c_desc lhs) (rn_diff_dst_iter_c_desc rhs) \<and>
     memory_desc_eq (rn_diff_placeholder_desc lhs) (rn_diff_placeholder_desc rhs) \<and>
     memory_desc_eq (rn_diff_placeholder2_desc lhs) (rn_diff_placeholder2_desc rhs) \<and>
     rn_flags lhs = rn_flags rhs \<and> rn_activation_kind lhs = rn_activation_kind rhs \<and>
     f32_eq (rn_alpha lhs) (rn_alpha rhs) \<and> f32_eq (rn_beta lhs) (rn_beta rhs)"

definition gemm_desc_eq :: "gemm_desc \<Rightarrow> gemm_desc \<Rightarrow> bool" where
  "gemm_desc_eq lhs rhs \<longleftrightarrow>
     ge_primitive_kind lhs = ge_primitive_kind rhs \<and> ge_transa lhs = ge_transa rhs \<and>
     ge_transb lhs = ge_transb rhs \<and> ge_m lhs = ge_m rhs \<and> ge_n lhs = ge_n rhs \<and>
     ge_k lhs = ge_k rhs \<and> ge_lda lhs = ge_lda rhs \<and> ge_ldb lhs = ge_ldb rhs \<and>
     ge_ldc lhs = ge_ldc rhs \<and> f32_eq (ge_alpha lhs) (ge_alpha rhs) \<and>
     f32_eq (ge_beta lhs) (ge_beta rhs) \<and> ge_a_type lhs = ge_a_type rhs \<and>
     ge_b_type lhs = ge_b_type rhs \<and> ge_c_type lhs = ge_c_type rhs"

definition reorder_desc_eq :: "reorder_desc \<Rightarrow> reorder_desc \<Rightarrow> bool" where
  "reorder_desc_eq lhs rhs \<longleftrightarrow>
     re_primitive_kind lhs = re_primitive_kind rhs \<and>
     memory_desc_eq (re_src_md lhs) (re_src_md rhs) \<and>
     memory_desc_eq (re_dst_md lhs) (re_dst_md rhs) \<and>
     re_src_engine_kind lhs = re_src_engine_kind rhs \<and>
     re_dst_engine_kind lhs = re_dst_engine_kind rhs"

definition concat_desc_eq :: "concat_desc \<Rightarrow> concat_desc \<Rightarrow> bool" where
  "concat_desc_eq lhs rhs \<longleftrightarrow>
     cc_primitive_kind lhs = cc_primitive_kind rhs \<and>
     memory_desc_eq (cc_dst_md lhs) (cc_dst_md rhs) \<and> cc_n lhs = cc_n rhs \<and>
     cc_concat_dimension lhs = cc_concat_dimension rhs \<and>
     list_all2_upto memory_desc_eq (nat (cc_n lhs)) (cc_src_mds lhs) (cc_src_mds rhs)"

definition sum_desc_eq :: "sum_desc \<Rightarrow> sum_desc \<Rightarrow> bool" where
  "sum_desc_eq lhs rhs \<longleftrightarrow>
     su_primitive_kind lhs = su_primitive_kind rhs \<and>
     memory_desc_eq (su_dst_md lhs) (su_dst_md rhs) \<and> su_n lhs = su_n rhs \<and>
     f32_vector_eq (su_scales lhs) (su_scales rhs) \<and>
     list_all2_upto memory_desc_eq (nat (su_n lhs)) (su_src_mds lhs) (su_src_mds rhs)"

section \<open>Every comparison is a partial equivalence\<close>

text \<open>
  The named facts the comparisons share: each field comparison is symmetric and transitive.
\<close>

lemma list_all2_upto_sym:
  "(\<And>a b. eq a b \<Longrightarrow> eq b a) \<Longrightarrow> list_all2_upto eq n xs ys \<Longrightarrow> list_all2_upto eq n ys xs"
  by (simp add: list_all2_upto_def)

lemma list_all2_upto_trans:
  "(\<And>a b c. eq a b \<Longrightarrow> eq b c \<Longrightarrow> eq a c) \<Longrightarrow>
    list_all2_upto eq n xs ys \<Longrightarrow> list_all2_upto eq n ys zs \<Longrightarrow> list_all2_upto eq n xs zs"
  unfolding list_all2_upto_def all_upto_iff by blast

lemma f32_vector_eq_sym: "f32_vector_eq xs ys \<Longrightarrow> f32_vector_eq ys xs"
  by (auto simp: f32_vector_eq_def list_all2_conv_all_nth intro: f32_eq_sym)

lemma f32_vector_eq_trans: "f32_vector_eq xs ys \<Longrightarrow> f32_vector_eq ys zs \<Longrightarrow> f32_vector_eq xs zs"
  unfolding f32_vector_eq_def list_all2_conv_all_nth using f32_eq_trans by fastforce

end
