(* ===== verification/Primitive_Attr.thy ===== *)
theory Primitive_Attr
  imports Op_Types
begin

text \<open>
  Primitive attributes, \<open>src/src/common/primitive_attr.hpp\<close> and \<open>primitive_attr.cpp\<close>: scales, post
  operations, RNN quantisation parameters. Whether \<open>malloc\<close> succeeds is an argument. A comparison
  or query that may dereference a null pointer returns an option, \<open>None\<close> being undefined
  behaviour. The C functions take a null pointer as \<open>None\<close> and return the new contents of what
  they write.
\<close>

definition f32_one :: float_bits where
  "f32_one = 0x3f800000"

lemma f32_one_eq [simp]: "f32_eq f32_one f32_one"
  by (simp add: f32_eq_def f32_is_nan_def f32_one_def)

section \<open>Scales\<close>

text \<open>\<open>scales_\<close> points to the buffer inside the object, to an own block or nowhere.\<close>

datatype scales_ptr = Buf | Heap "float_bits list" | Null

record scales_t =
  sc_count :: int
  sc_mask :: int
  sc_ptr :: scales_ptr
  sc_buf :: "float_bits list"

definition scales_buf_size :: nat where
  "scales_buf_size = 16"

definition scales_data :: "scales_t \<Rightarrow> float_bits list option" where
  "scales_data s = (case sc_ptr s of Buf \<Rightarrow> Some (sc_buf s) | Heap xs \<Rightarrow> Some xs | Null \<Rightarrow> None)"

definition scales_cleanup :: "scales_t \<Rightarrow> scales_t" where
  "scales_cleanup s = s\<lparr>sc_count := 1, sc_mask := 0, sc_ptr := Buf\<rparr>"

definition scales_set :: "bool \<Rightarrow> int \<Rightarrow> int \<Rightarrow> float_bits list \<Rightarrow> scales_t \<Rightarrow> status \<times> scales_t" where
  "scales_set malloc_ok cnt msk scales s =
     (let s = (scales_cleanup s)\<lparr>sc_count := cnt, sc_mask := msk\<rparr>
      in if cnt = 1
         then (success, s\<lparr>sc_ptr := Buf, sc_buf := replicate scales_buf_size (scales ! 0)\<rparr>)
         else if \<not> malloc_ok then (out_of_memory, s\<lparr>sc_ptr := Null\<rparr>)
         else (success, s\<lparr>sc_ptr := Heap (map (\<lambda>c. scales ! c) [0..<nat cnt])\<rparr>))"

definition new_scales :: scales_t where
  "new_scales = snd (scales_set True 1 0 [f32_one]
     \<lparr>sc_count = 1, sc_mask = 0, sc_ptr = Buf, sc_buf = replicate scales_buf_size 0\<rparr>)"

text \<open>The copy constructor; copying from a null pointer is undefined.\<close>

definition scales_copy :: "bool \<Rightarrow> scales_t \<Rightarrow> scales_t option" where
  "scales_copy malloc_ok rhs = (case scales_data rhs of
       None \<Rightarrow> None
     | Some xs \<Rightarrow> Some (snd (scales_set malloc_ok (sc_count rhs) (sc_mask rhs) xs new_scales)))"

definition scales_eq :: "scales_t \<Rightarrow> scales_t \<Rightarrow> bool" where
  "scales_eq lhs rhs \<longleftrightarrow>
     sc_count lhs = sc_count rhs \<and> sc_mask lhs = sc_mask rhs \<and>
     (case (scales_data lhs, scales_data rhs) of
        (Some xs, Some ys) \<Rightarrow> all_upto (nat (sc_count lhs)) (\<lambda>i. f32_eq (xs ! i) (ys ! i))
      | _ \<Rightarrow> False)"

definition scales_has_default_values :: "scales_t \<Rightarrow> bool option" where
  "scales_has_default_values s =
     (if sc_count s \<le> 0 then Some True
      else case scales_data s of
          None \<Rightarrow> None
        | Some xs \<Rightarrow> Some (all_upto (nat (sc_count s)) (\<lambda>c. f32_eq (xs ! c) f32_one)))"

section \<open>RNN parameters\<close>

record rnn_data_qparams =
  rq_scale :: float_bits
  rq_shift :: float_bits

definition new_rnn_data_qparams :: rnn_data_qparams where
  "new_rnn_data_qparams = \<lparr>rq_scale = f32_one, rq_shift = 0\<rparr>"

definition rnn_data_qparams_set :: "float_bits \<Rightarrow> float_bits \<Rightarrow> rnn_data_qparams \<Rightarrow> status \<times> rnn_data_qparams" where
  "rnn_data_qparams_set scale shift q = (success, q\<lparr>rq_scale := scale, rq_shift := shift\<rparr>)"

definition rnn_data_qparams_has_default_values :: "rnn_data_qparams \<Rightarrow> bool" where
  "rnn_data_qparams_has_default_values q \<longleftrightarrow> f32_eq (rq_scale q) f32_one \<and> f32_eq (rq_shift q) 0"

definition rnn_data_qparams_eq :: "rnn_data_qparams \<Rightarrow> rnn_data_qparams \<Rightarrow> bool" where
  "rnn_data_qparams_eq lhs rhs \<longleftrightarrow>
     f32_eq (rq_scale lhs) (rq_scale rhs) \<and> f32_eq (rq_shift lhs) (rq_shift rhs)"

record rnn_tparams =
  rt_test_mode :: bool
  rt_scales :: "float_bits list option"
  rt_ngates :: int
  rt_cscale :: float_bits

definition new_rnn_tparams :: rnn_tparams where
  "new_rnn_tparams = \<lparr>rt_test_mode = False, rt_scales = None, rt_ngates = 0, rt_cscale = 0\<rparr>"

text \<open>
  \<open>set\<close> overwrites \<open>scales_\<close>; the third result is the block that pointer referred to, which is
  not freed.
\<close>

definition rnn_tparams_set :: "bool \<Rightarrow> bool \<Rightarrow> int \<Rightarrow> float_bits list option \<Rightarrow> float_bits \<Rightarrow> rnn_tparams \<Rightarrow>
    status \<times> rnn_tparams \<times> float_bits list option" where
  "rnn_tparams_set malloc_ok mode ngates scales cscale t =
     (let leaked = rt_scales t;
          t = t\<lparr>rt_test_mode := mode, rt_ngates := ngates, rt_scales := None\<rparr>
      in case scales of
          None \<Rightarrow> (success, t\<lparr>rt_cscale := cscale\<rparr>, leaked)
        | Some xs \<Rightarrow>
            (if \<not> malloc_ok then (out_of_memory, t, leaked)
             else (success, t\<lparr>rt_scales := Some (map (\<lambda>g. xs ! g) [0..<nat ngates]), rt_cscale := cscale\<rparr>,
                leaked)))"

definition rnn_tparams_copy :: "bool \<Rightarrow> rnn_tparams \<Rightarrow> rnn_tparams" where
  "rnn_tparams_copy malloc_ok rhs = fst (snd (rnn_tparams_set malloc_ok
     (rt_test_mode rhs) (rt_ngates rhs) (rt_scales rhs) (rt_cscale rhs) new_rnn_tparams))"

definition rnn_tparams_has_default_values :: "rnn_tparams \<Rightarrow> bool" where
  "rnn_tparams_has_default_values t \<longleftrightarrow>
     rt_test_mode t = False \<and> rt_scales t = None \<and> rt_ngates t = 0 \<and> f32_eq (rt_cscale t) 0"

definition rnn_tparams_eq :: "rnn_tparams \<Rightarrow> rnn_tparams \<Rightarrow> bool option" where
  "rnn_tparams_eq lhs rhs =
     (if \<not> (rt_test_mode lhs = rt_test_mode rhs \<and> rt_ngates lhs = rt_ngates rhs \<and>
            f32_eq (rt_cscale lhs) (rt_cscale rhs))
      then Some False
      else case rt_scales lhs of
          None \<Rightarrow> Some True
        | Some xs \<Rightarrow>
            (if rt_ngates lhs \<le> 0 then Some True
             else case rt_scales rhs of
                 None \<Rightarrow> None
               | Some ys \<Rightarrow> Some (all_upto (nat (rt_ngates lhs)) (\<lambda>g. f32_eq (xs ! g) (ys ! g)))))"

section \<open>Post operations\<close>

datatype post_op = Sum_op float_bits | Eltwise_op alg_kind float_bits float_bits float_bits

type_synonym post_ops = "post_op list"

definition post_ops_capacity :: nat where
  "post_ops_capacity = 4"

fun post_op_kind :: "post_op \<Rightarrow> primitive_kind" where
  "post_op_kind (Sum_op _) = pk_sum"
| "post_op_kind (Eltwise_op _ _ _ _) = pk_eltwise"

fun is_eltwise :: "bool \<Rightarrow> post_op \<Rightarrow> bool" where
  "is_eltwise require_scale_one (Eltwise_op alg scale alpha beta) \<longleftrightarrow>
     (require_scale_one \<longrightarrow> f32_eq scale f32_one)"
| "is_eltwise require_scale_one (Sum_op _) \<longleftrightarrow> False"

fun is_relu :: "bool \<Rightarrow> bool \<Rightarrow> post_op \<Rightarrow> bool" where
  "is_relu require_scale_one require_nslope_zero (Eltwise_op alg scale alpha beta) \<longleftrightarrow>
     is_eltwise require_scale_one (Eltwise_op alg scale alpha beta) \<and> alg = eltwise_relu \<and>
     (require_nslope_zero \<longrightarrow> f32_eq alpha 0)"
| "is_relu require_scale_one require_nslope_zero (Sum_op _) \<longleftrightarrow> False"

fun is_sum :: "bool \<Rightarrow> post_op \<Rightarrow> bool" where
  "is_sum require_scale_one (Sum_op scale) \<longleftrightarrow> (require_scale_one \<longrightarrow> f32_eq scale f32_one)"
| "is_sum require_scale_one (Eltwise_op _ _ _ _) \<longleftrightarrow> False"

fun post_op_eq :: "post_op \<Rightarrow> post_op \<Rightarrow> bool" where
  "post_op_eq (Eltwise_op alg scale alpha beta) (Eltwise_op alg' scale' alpha' beta') \<longleftrightarrow>
     alg = alg' \<and> f32_eq scale scale' \<and> f32_eq alpha alpha' \<and> f32_eq beta beta'"
| "post_op_eq (Sum_op scale) (Sum_op scale') \<longleftrightarrow> f32_eq scale scale'"
| "post_op_eq _ _ \<longleftrightarrow> False"

definition post_ops_eq :: "post_ops \<Rightarrow> post_ops \<Rightarrow> bool" where
  "post_ops_eq lhs rhs \<longleftrightarrow> length lhs = length rhs \<and> all_upto (length lhs) (\<lambda>i. post_op_eq (lhs ! i) (rhs ! i))"

definition append_sum :: "float_bits \<Rightarrow> post_ops \<Rightarrow> status \<times> post_ops" where
  "append_sum scale ops =
     (if length ops = post_ops_capacity then (out_of_memory, ops)
      else (success, ops @ [Sum_op scale]))"

definition known_eltwise_alg :: "alg_kind \<Rightarrow> bool" where
  "known_eltwise_alg alg \<longleftrightarrow> alg \<in> {eltwise_relu, eltwise_tanh, eltwise_elu, eltwise_square, eltwise_abs,
     eltwise_sqrt, eltwise_linear, eltwise_bounded_relu, eltwise_soft_relu, eltwise_logistic,
     eltwise_exp, eltwise_gelu, eltwise_swish}"

definition append_eltwise :: "float_bits \<Rightarrow> alg_kind \<Rightarrow> float_bits \<Rightarrow> float_bits \<Rightarrow> post_ops \<Rightarrow> status \<times> post_ops" where
  "append_eltwise scale alg alpha beta ops =
     (if \<not> known_eltwise_alg alg then (invalid_arguments, ops)
      else if length ops = post_ops_capacity then (out_of_memory, ops)
      else (success, ops @ [Eltwise_op alg scale alpha beta]))"

text \<open>The search loop of \<open>find\<close>, from \<open>idx\<close> up to \<open>stop\<close>.\<close>

fun post_ops_find_from :: "post_ops \<Rightarrow> primitive_kind \<Rightarrow> nat \<Rightarrow> nat \<Rightarrow> int" where
  "post_ops_find_from ops kind idx 0 = -1"
| "post_ops_find_from ops kind idx (Suc n) =
     (if post_op_kind (ops ! idx) = kind then int idx else post_ops_find_from ops kind (Suc idx) n)"

definition post_ops_find :: "post_ops \<Rightarrow> primitive_kind \<Rightarrow> nat \<Rightarrow> int \<Rightarrow> int" where
  "post_ops_find ops kind start stop =
     (let stop = (if stop = -1 then int (length ops) else stop);
          stop = min stop (int (length ops))
      in post_ops_find_from ops kind start (nat stop - start))"

definition post_ops_contain :: "post_ops \<Rightarrow> primitive_kind \<Rightarrow> nat \<Rightarrow> bool" where
  "post_ops_contain ops kind index \<longleftrightarrow> post_ops_find ops kind index (int index + 1) = int index"

section \<open>Attributes\<close>

datatype scratchpad_mode = spm_library | spm_user

record primitive_attr =
  at_scratchpad_mode :: scratchpad_mode
  at_output_scales :: scales_t
  at_post_ops :: post_ops
  at_rnn_data_qparams :: rnn_data_qparams
  at_rnn_weights_qparams :: scales_t
  at_rnn_tparams :: rnn_tparams

definition new_primitive_attr :: primitive_attr where
  "new_primitive_attr = \<lparr>at_scratchpad_mode = spm_library, at_output_scales = new_scales,
     at_post_ops = [], at_rnn_data_qparams = new_rnn_data_qparams,
     at_rnn_weights_qparams = new_scales, at_rnn_tparams = new_rnn_tparams\<rparr>"

text \<open>\<open>clone\<close> is the implicit copy constructor: member by member.\<close>

definition attr_clone :: "bool \<Rightarrow> primitive_attr \<Rightarrow> primitive_attr option" where
  "attr_clone malloc_ok a =
     (case (scales_copy malloc_ok (at_output_scales a), scales_copy malloc_ok (at_rnn_weights_qparams a)) of
        (Some os, Some ws) \<Rightarrow>
          Some (a\<lparr>at_output_scales := os, at_rnn_weights_qparams := ws,
                  at_rnn_tparams := rnn_tparams_copy malloc_ok (at_rnn_tparams a)\<rparr>)
      | _ \<Rightarrow> None)"

text \<open>Short-circuit conjunction of a query that may be undefined.\<close>

definition and_then :: "bool option \<Rightarrow> bool option \<Rightarrow> bool option" where
  "and_then p q = (case p of None \<Rightarrow> None | Some False \<Rightarrow> Some False | Some True \<Rightarrow> q)"

definition attr_has_default_values :: "primitive_attr \<Rightarrow> bool option" where
  "attr_has_default_values a =
     and_then (scales_has_default_values (at_output_scales a))
       (and_then (Some (at_post_ops a = []))
         (and_then (Some (rnn_data_qparams_has_default_values (at_rnn_data_qparams a)))
           (and_then (scales_has_default_values (at_rnn_weights_qparams a))
             (Some (rnn_tparams_has_default_values (at_rnn_tparams a))))))"

definition attr_eq :: "primitive_attr \<Rightarrow> primitive_attr \<Rightarrow> bool option" where
  "attr_eq lhs rhs =
     (if at_scratchpad_mode lhs = at_scratchpad_mode rhs \<and>
         scales_eq (at_output_scales lhs) (at_output_scales rhs) \<and>
         post_ops_eq (at_post_ops lhs) (at_post_ops rhs) \<and>
         rnn_data_qparams_eq (at_rnn_data_qparams lhs) (at_rnn_data_qparams rhs) \<and>
         scales_eq (at_rnn_weights_qparams lhs) (at_rnn_weights_qparams rhs)
      then rnn_tparams_eq (at_rnn_tparams lhs) (at_rnn_tparams rhs)
      else Some False)"

section \<open>The C functions\<close>

text \<open>\<open>library\<close> and \<open>user\<close> are the only modes; the argument is the enumerator's number.\<close>

definition set_scratchpad_mode :: "int \<Rightarrow> primitive_attr \<Rightarrow> status \<times> primitive_attr" where
  "set_scratchpad_mode mode a =
     (if mode = 0 then (success, a\<lparr>at_scratchpad_mode := spm_library\<rparr>)
      else if mode = 1 then (success, a\<lparr>at_scratchpad_mode := spm_user\<rparr>)
      else (invalid_arguments, a))"

definition dnnl_primitive_attr_set_scratchpad_mode ::
  "primitive_attr option \<Rightarrow> int \<Rightarrow> status \<times> primitive_attr option" where
  "dnnl_primitive_attr_set_scratchpad_mode attr mode =
     (case attr of None \<Rightarrow> (invalid_arguments, None)
      | Some a \<Rightarrow> map_prod id Some (set_scratchpad_mode mode a))"

definition dnnl_primitive_attr_get_scratchpad_mode ::
  "primitive_attr option \<Rightarrow> status \<times> scratchpad_mode option" where
  "dnnl_primitive_attr_get_scratchpad_mode attr =
     (case attr of None \<Rightarrow> (invalid_arguments, None) | Some a \<Rightarrow> (success, Some (at_scratchpad_mode a)))"

definition dnnl_primitive_attr_get_output_scales ::
  "primitive_attr option \<Rightarrow> status \<times> (int \<times> int \<times> float_bits list option) option" where
  "dnnl_primitive_attr_get_output_scales attr =
     (case attr of None \<Rightarrow> (invalid_arguments, None)
      | Some a \<Rightarrow> (success, Some (sc_count (at_output_scales a), sc_mask (at_output_scales a),
          scales_data (at_output_scales a))))"

definition dnnl_primitive_attr_set_output_scales ::
  "bool \<Rightarrow> primitive_attr option \<Rightarrow> int \<Rightarrow> int \<Rightarrow> float_bits list option \<Rightarrow> status \<times> primitive_attr option" where
  "dnnl_primitive_attr_set_output_scales malloc_ok attr cnt msk scales =
     (case (attr, scales) of
        (Some a, Some xs) \<Rightarrow>
          (if \<not> (cnt > 0 \<and> msk \<ge> 0) then (invalid_arguments, attr)
           else
             let (st, os) = scales_set malloc_ok cnt msk xs (at_output_scales a)
             in (st, Some (a\<lparr>at_output_scales := os\<rparr>)))
      | _ \<Rightarrow> (invalid_arguments, attr))"

definition dnnl_primitive_attr_set_rnn_weights_qparams ::
  "bool \<Rightarrow> primitive_attr option \<Rightarrow> int \<Rightarrow> int \<Rightarrow> float_bits list option \<Rightarrow> status \<times> primitive_attr option" where
  "dnnl_primitive_attr_set_rnn_weights_qparams malloc_ok attr cnt msk scales =
     (case (attr, scales) of
        (Some a, Some xs) \<Rightarrow>
          (if \<not> (cnt > 0 \<and> msk \<ge> 0) then (invalid_arguments, attr)
           else
             let (st, ws) = scales_set malloc_ok cnt msk xs (at_rnn_weights_qparams a)
             in (st, Some (a\<lparr>at_rnn_weights_qparams := ws\<rparr>)))
      | _ \<Rightarrow> (invalid_arguments, attr))"

definition dnnl_primitive_attr_get_post_ops :: "primitive_attr option \<Rightarrow> status \<times> post_ops option" where
  "dnnl_primitive_attr_get_post_ops attr =
     (case attr of None \<Rightarrow> (invalid_arguments, None) | Some a \<Rightarrow> (success, Some (at_post_ops a)))"

definition dnnl_primitive_attr_set_post_ops ::
  "primitive_attr option \<Rightarrow> post_ops option \<Rightarrow> status \<times> primitive_attr option" where
  "dnnl_primitive_attr_set_post_ops attr ops =
     (case (attr, ops) of
        (Some a, Some ops) \<Rightarrow> (success, Some (a\<lparr>at_post_ops := ops\<rparr>))
      | _ \<Rightarrow> (invalid_arguments, attr))"

definition dnnl_primitive_attr_set_rnn_data_qparams ::
  "primitive_attr option \<Rightarrow> float_bits \<Rightarrow> float_bits \<Rightarrow> status \<times> primitive_attr option" where
  "dnnl_primitive_attr_set_rnn_data_qparams attr scale shift =
     (case attr of None \<Rightarrow> (invalid_arguments, None)
      | Some a \<Rightarrow>
          let (st, q) = rnn_data_qparams_set scale shift (at_rnn_data_qparams a)
          in (st, Some (a\<lparr>at_rnn_data_qparams := q\<rparr>)))"

definition dnnl_primitive_attr_set_rnn_tparams ::
  "bool \<Rightarrow> primitive_attr option \<Rightarrow> bool \<Rightarrow> int \<Rightarrow> float_bits list option \<Rightarrow> float_bits \<Rightarrow>
    status \<times> primitive_attr option" where
  "dnnl_primitive_attr_set_rnn_tparams malloc_ok attr mode ngates scales cscale =
     (case attr of None \<Rightarrow> (invalid_arguments, None)
      | Some a \<Rightarrow>
          let (st, t, _) = rnn_tparams_set malloc_ok mode ngates scales cscale (at_rnn_tparams a)
          in (st, Some (a\<lparr>at_rnn_tparams := t\<rparr>)))"

definition dnnl_post_ops_len :: "post_ops option \<Rightarrow> nat" where
  "dnnl_post_ops_len ops = (case ops of None \<Rightarrow> 0 | Some ops \<Rightarrow> length ops)"

definition dnnl_post_ops_get_kind :: "post_ops option \<Rightarrow> int \<Rightarrow> primitive_kind" where
  "dnnl_post_ops_get_kind ops index =
     (case ops of None \<Rightarrow> pk_undef
      | Some ops \<Rightarrow> if 0 \<le> index \<and> index < int (length ops) then post_op_kind (ops ! nat index) else pk_undef)"

definition dnnl_post_ops_append_sum :: "post_ops option \<Rightarrow> float_bits \<Rightarrow> status \<times> post_ops option" where
  "dnnl_post_ops_append_sum ops scale =
     (case ops of None \<Rightarrow> (invalid_arguments, None) | Some ops \<Rightarrow> map_prod id Some (append_sum scale ops))"

definition dnnl_post_ops_append_eltwise ::
  "post_ops option \<Rightarrow> float_bits \<Rightarrow> alg_kind \<Rightarrow> float_bits \<Rightarrow> float_bits \<Rightarrow> status \<times> post_ops option" where
  "dnnl_post_ops_append_eltwise ops scale kind alpha beta =
     (case ops of None \<Rightarrow> (invalid_arguments, None)
      | Some ops \<Rightarrow> map_prod id Some (append_eltwise scale kind alpha beta ops))"

definition simple_get_params_check :: "post_ops option \<Rightarrow> int \<Rightarrow> primitive_kind \<Rightarrow> bool" where
  "simple_get_params_check ops index kind \<longleftrightarrow>
     (case ops of None \<Rightarrow> False
      | Some ops \<Rightarrow> 0 \<le> index \<and> index < int (length ops) \<and> post_op_kind (ops ! nat index) = kind)"

text \<open>The output pointers are given by whether they are non-null.\<close>

definition dnnl_post_ops_get_params_sum :: "post_ops option \<Rightarrow> int \<Rightarrow> bool \<Rightarrow> status \<times> float_bits option" where
  "dnnl_post_ops_get_params_sum ops index scale_ptr =
     (if \<not> (simple_get_params_check ops index pk_sum \<and> scale_ptr) then (invalid_arguments, None)
      else case the ops ! nat index of
          Sum_op scale \<Rightarrow> (success, Some scale)
        | _ \<Rightarrow> (invalid_arguments, None))"

text \<open>\<open>alg\<close> is written without a null check: then the outer \<open>None\<close>.\<close>

definition dnnl_post_ops_get_params_eltwise ::
  "post_ops option \<Rightarrow> int \<Rightarrow> bool \<Rightarrow> bool \<Rightarrow> bool \<Rightarrow> bool \<Rightarrow>
    (status \<times> (float_bits \<times> alg_kind \<times> float_bits \<times> float_bits) option) option" where
  "dnnl_post_ops_get_params_eltwise ops index scale_ptr alg_ptr alpha_ptr beta_ptr =
     (if \<not> (simple_get_params_check ops index pk_eltwise \<and> scale_ptr \<and> alpha_ptr \<and> beta_ptr)
      then Some (invalid_arguments, None)
      else if \<not> alg_ptr then None
      else case the ops ! nat index of
          Eltwise_op alg scale alpha beta \<Rightarrow> Some (success, Some (scale, alg, alpha, beta))
        | _ \<Rightarrow> Some (invalid_arguments, None))"

section \<open>Properties\<close>

text \<open>
  What \<open>dnnl_primitive_attr_set_output_scales\<close> stores is what the getter returns, the call
  fails exactly on null arguments, a non-positive count, a negative mask or a failed allocation,
  and a rejected call leaves the attributes alone.
\<close>

theorem output_scales_set_get:
  assumes "dnnl_primitive_attr_set_output_scales malloc_ok (Some a) cnt msk scales = (st, a')"
  shows "(st = invalid_arguments \<longleftrightarrow> scales = None \<or> cnt \<le> 0 \<or> msk < 0) \<and>
    (st = invalid_arguments \<longrightarrow> a' = Some a) \<and>
    (st = out_of_memory \<longleftrightarrow> scales \<noteq> None \<and> 1 < cnt \<and> 0 \<le> msk \<and> \<not> malloc_ok) \<and>
    (st = success \<longrightarrow> (\<exists>xs ys. scales = Some xs \<and>
       dnnl_primitive_attr_get_output_scales a' = (success, Some (cnt, msk, Some ys)) \<and>
       nat cnt \<le> length ys \<and> (\<forall>i<nat cnt. ys ! i = xs ! i)))"
proof (cases scales)
  case None
  then show ?thesis using assms by (auto simp: dnnl_primitive_attr_set_output_scales_def)
next
  case (Some xs)
  show ?thesis
  proof (cases "cnt > 0 \<and> msk \<ge> 0")
    case False
    then show ?thesis using assms Some by (auto simp: dnnl_primitive_attr_set_output_scales_def)
  next
    case True
    then show ?thesis
      using assms Some
      by (cases "cnt = 1"; cases malloc_ok)
        (auto simp: dnnl_primitive_attr_set_output_scales_def dnnl_primitive_attr_get_output_scales_def
          scales_set_def scales_cleanup_def scales_data_def scales_buf_size_def Let_def split: prod.splits)
  qed
qed

theorem output_scales_set_get_witness:
  "\<exists>a'. dnnl_primitive_attr_set_output_scales True (Some new_primitive_attr) 2 1 (Some [7, 9]) = (success, a') \<and>
     (\<exists>ys. dnnl_primitive_attr_get_output_scales a' = (success, Some (2, 1, Some ys)) \<and> ys ! 1 = 9)"
proof -
  obtain st a' where r: "dnnl_primitive_attr_set_output_scales True (Some new_primitive_attr) 2 1 (Some [7, 9]) = (st, a')"
    by (cases "dnnl_primitive_attr_set_output_scales True (Some new_primitive_attr) 2 1 (Some [7, 9])")
  have "st = success" using r
    by (simp add: dnnl_primitive_attr_set_output_scales_def scales_set_def Let_def scales_cleanup_def)
  then show ?thesis using output_scales_set_get [OF r] r by force
qed

text \<open>A sequence of append calls; what a call asks for, if it is well-formed.\<close>

datatype append_call = Call_sum float_bits | Call_eltwise float_bits alg_kind float_bits float_bits

fun append_op :: "append_call \<Rightarrow> post_ops option \<Rightarrow> status \<times> post_ops option" where
  "append_op (Call_sum scale) ops = dnnl_post_ops_append_sum ops scale"
| "append_op (Call_eltwise scale alg alpha beta) ops = dnnl_post_ops_append_eltwise ops scale alg alpha beta"

fun requested_op :: "append_call \<Rightarrow> post_op list" where
  "requested_op (Call_sum scale) = [Sum_op scale]"
| "requested_op (Call_eltwise scale alg alpha beta) =
     (if known_eltwise_alg alg then [Eltwise_op alg scale alpha beta] else [])"

lemma append_op_take:
  "snd (append_op c (Some (take post_ops_capacity xs))) = Some (take post_ops_capacity (xs @ requested_op c))"
  by (cases c) (auto simp: dnnl_post_ops_append_sum_def dnnl_post_ops_append_eltwise_def append_sum_def
      append_eltwise_def min_def split: if_splits)

lemma append_calls_eq:
  "fold (\<lambda>c ops. snd (append_op c ops)) cs (Some (take post_ops_capacity xs)) =
     Some (take post_ops_capacity (xs @ concat (map requested_op cs)))"
  by (induction cs arbitrary: xs) (simp_all add: append_op_take del: take_append)

text \<open>
  C37: whatever the sequence of append calls, the chain holds the well-formed requests in call
  order, cut at the capacity; and reading entry \<open>i\<close> back gives exactly the parameters it was
  appended with.
\<close>

theorem post_ops_chain:
  "\<exists>ops. fold (\<lambda>c ops. snd (append_op c ops)) cs (Some []) = Some ops \<and>
     ops = take post_ops_capacity (concat (map requested_op cs)) \<and>
     dnnl_post_ops_len (Some ops) \<le> post_ops_capacity \<and>
     (\<forall>i. (\<exists>scale. dnnl_post_ops_get_params_sum (Some ops) (int i) True = (success, Some scale)) \<longleftrightarrow>
        dnnl_post_ops_get_kind (Some ops) (int i) = pk_sum) \<and>
     (\<forall>i scale alg alpha beta.
        dnnl_post_ops_get_params_eltwise (Some ops) (int i) True True True True =
          Some (success, Some (scale, alg, alpha, beta)) \<longleftrightarrow>
        i < length ops \<and> ops ! i = Eltwise_op alg scale alpha beta)"
proof -
  let ?ops = "take post_ops_capacity (concat (map requested_op cs))"
  have "fold (\<lambda>c ops. snd (append_op c ops)) cs (Some []) = Some ?ops"
    using append_calls_eq [of cs "[]"] by simp
  moreover have "(\<exists>scale. dnnl_post_ops_get_params_sum (Some ops) (int i) True = (success, Some scale)) \<longleftrightarrow>
      dnnl_post_ops_get_kind (Some ops) (int i) = pk_sum" for ops i
    by (cases "i < length ops"; cases "ops ! i")
      (auto simp: dnnl_post_ops_get_params_sum_def dnnl_post_ops_get_kind_def simple_get_params_check_def)
  moreover have "dnnl_post_ops_get_params_eltwise (Some ops) (int i) True True True True =
        Some (success, Some (scale, alg, alpha, beta)) \<longleftrightarrow>
      i < length ops \<and> ops ! i = Eltwise_op alg scale alpha beta" for ops i scale alg alpha beta
    by (cases "i < length ops"; cases "ops ! i")
      (auto simp: dnnl_post_ops_get_params_eltwise_def simple_get_params_check_def)
  ultimately show ?thesis by (intro exI [of _ ?ops]) (simp add: dnnl_post_ops_len_def)
qed

text \<open>Well-formed attributes: every array is there and no value is a NaN.\<close>

definition no_nan :: "float_bits \<Rightarrow> bool" where
  "no_nan x \<longleftrightarrow> \<not> f32_is_nan x"

definition scales_ok :: "scales_t \<Rightarrow> bool" where
  "scales_ok s \<longleftrightarrow> 0 < sc_count s \<and>
     (\<exists>xs. scales_data s = Some xs \<and> nat (sc_count s) \<le> length xs \<and> (\<forall>i<nat (sc_count s). no_nan (xs ! i)))"

fun post_op_ok :: "post_op \<Rightarrow> bool" where
  "post_op_ok (Sum_op scale) \<longleftrightarrow> no_nan scale"
| "post_op_ok (Eltwise_op alg scale alpha beta) \<longleftrightarrow> no_nan scale \<and> no_nan alpha \<and> no_nan beta"

definition rnn_tparams_ok :: "rnn_tparams \<Rightarrow> bool" where
  "rnn_tparams_ok t \<longleftrightarrow> no_nan (rt_cscale t) \<and>
     (case rt_scales t of None \<Rightarrow> True | Some xs \<Rightarrow> \<forall>i<nat (rt_ngates t). no_nan (xs ! i))"

definition attr_ok :: "primitive_attr \<Rightarrow> bool" where
  "attr_ok a \<longleftrightarrow> scales_ok (at_output_scales a) \<and> scales_ok (at_rnn_weights_qparams a) \<and>
     (\<forall>op\<in>set (at_post_ops a). post_op_ok op) \<and>
     no_nan (rq_scale (at_rnn_data_qparams a)) \<and> no_nan (rq_shift (at_rnn_data_qparams a)) \<and>
     rnn_tparams_ok (at_rnn_tparams a)"

lemma scales_copy_eq:
  assumes "scales_ok s"
  shows "\<exists>c. scales_copy True s = Some c \<and> scales_eq s c"
proof -
  obtain xs where xs: "scales_data s = Some xs" "0 < sc_count s" "nat (sc_count s) \<le> length xs"
    "\<forall>i<nat (sc_count s). no_nan (xs ! i)" using assms by (auto simp: scales_ok_def)
  then show ?thesis
    by (cases "sc_count s = 1")
      (auto simp: scales_copy_def scales_eq_def scales_set_def scales_cleanup_def scales_buf_size_def
        scales_data_def Let_def f32_eq_refl no_nan_def)
qed

lemma post_ops_eq_refl: "\<forall>op\<in>set ops. post_op_ok op \<Longrightarrow> post_ops_eq ops ops"
proof -
  have "post_op_ok op \<Longrightarrow> post_op_eq op op" for op by (cases op) (simp_all add: f32_eq_refl no_nan_def)
  then show "\<forall>op\<in>set ops. post_op_ok op \<Longrightarrow> post_ops_eq ops ops" by (simp add: post_ops_eq_def)
qed

lemma rnn_tparams_copy_eq: "rnn_tparams_ok t \<Longrightarrow> rnn_tparams_eq t (rnn_tparams_copy True t) = Some True"
  by (auto simp: rnn_tparams_ok_def rnn_tparams_eq_def rnn_tparams_copy_def rnn_tparams_set_def
      Let_def f32_eq_refl no_nan_def split: option.splits)

text \<open>
  A clone of well-formed attributes compares equal to the original, which the cache relies on
  when it replaces the attributes a key points to by the primitive's own copy.
\<close>

theorem attr_clone_equal:
  assumes "attr_ok a"
  shows "\<exists>b. attr_clone True a = Some b \<and> attr_eq a b = Some True"
proof -
  obtain os ws where "scales_copy True (at_output_scales a) = Some os" "scales_eq (at_output_scales a) os"
    "scales_copy True (at_rnn_weights_qparams a) = Some ws" "scales_eq (at_rnn_weights_qparams a) ws"
    using assms scales_copy_eq unfolding attr_ok_def by blast
  then show ?thesis
    using assms by (auto simp: attr_clone_def attr_eq_def attr_ok_def rnn_data_qparams_eq_def f32_eq_refl
        no_nan_def rnn_tparams_copy_eq intro: post_ops_eq_refl)
qed

theorem attr_clone_equal_witness:
  "\<exists>b. attr_clone True new_primitive_attr = Some b \<and> attr_eq new_primitive_attr b = Some True"
proof (rule attr_clone_equal)
  have "\<not> f32_is_nan f32_one" "\<not> f32_is_nan 0" by (simp_all add: f32_is_nan_def f32_one_def)
  then show "attr_ok new_primitive_attr"
    by (simp add: attr_ok_def new_primitive_attr_def scales_ok_def new_scales_def scales_set_def
        scales_cleanup_def scales_data_def scales_buf_size_def Let_def no_nan_def new_rnn_data_qparams_def
        rnn_tparams_ok_def new_rnn_tparams_def)
qed

text \<open>
  Defects: the comparison of \<open>rnn_tparams_t\<close> depends on the order of its arguments and may
  dereference a null pointer; setting the parameters twice loses a block; reading an eltwise
  entry without an \<open>alg\<close> pointer writes through null.
\<close>

lemma rnn_tparams_eq_asymmetric:
  "\<exists>a b. rnn_tparams_eq a b = Some True \<and> rnn_tparams_eq b a = None"
  by (intro exI [of _ "\<lparr>rt_test_mode = True, rt_scales = None, rt_ngates = 4, rt_cscale = 0\<rparr>"]
      exI [of _ "\<lparr>rt_test_mode = True, rt_scales = Some [1, 1, 1, 1], rt_ngates = 4, rt_cscale = 0\<rparr>"])
    (simp add: rnn_tparams_eq_def f32_eq_def f32_is_nan_def)

lemma rnn_tparams_set_leaks:
  "\<exists>t. rnn_tparams_set True True 1 (Some [1]) 0 new_rnn_tparams = (success, t, None) \<and>
     snd (snd (rnn_tparams_set True True 1 (Some [2]) 0 t)) = Some [1]"
  by (simp add: rnn_tparams_set_def new_rnn_tparams_def Let_def)

lemma get_params_eltwise_null_alg:
  "dnnl_post_ops_get_params_eltwise (Some [Eltwise_op eltwise_relu f32_one 0 0]) 0 True False True True = None"
  by (simp add: dnnl_post_ops_get_params_eltwise_def simple_get_params_check_def)

end
