(* ===== verification/Primitive_Hashing.thy ===== *)
theory Primitive_Hashing
  imports Primitive_Attr Memory_Api
begin

text \<open>
  Keys of the primitive cache, \<open>src/src/common/primitive_hashing.hpp\<close>: the equality of keys and
  the hash the cache's \<open>unordered_map\<close> uses. \<open>std::hash\<close> is a parameter, a function per type that
  is hashed; the standard asks of it that equal floats (the two zeros are equal) hash alike.
\<close>

section \<open>Hash combination\<close>

record std_hash =
  h_size :: "u64 \<Rightarrow> u64"
  h_dim :: "int \<Rightarrow> u64"
  h_int :: "int \<Rightarrow> u64"
  h_u32 :: "u32 \<Rightarrow> u64"
  h_float :: "float_bits \<Rightarrow> u64"
  h_type_index :: "nat \<Rightarrow> u64"

definition float_hash_ok :: "std_hash \<Rightarrow> bool" where
  "float_hash_ok H \<longleftrightarrow> (\<forall>x y. f32_eq x y \<longrightarrow> h_float H x = h_float H y)"

definition hash_combine :: "u64 \<Rightarrow> u64 \<Rightarrow> u64" where
  "hash_combine seed v = seed XOR (v + 0x9e3779b9 + push_bit 6 seed + drop_bit 2 seed)"

text \<open>A chain of \<open>seed = hash_combine(seed, v)\<close> over the hashes of the values.\<close>

definition hash_all :: "u64 \<Rightarrow> u64 list \<Rightarrow> u64" where
  "hash_all seed vs = foldl hash_combine seed vs"

text \<open>The hashes \<open>get_array_hash\<close> combines for a \<open>dims_t\<close>.\<close>

definition dims_hashes :: "std_hash \<Rightarrow> dim_t carray \<Rightarrow> u64 list" where
  "dims_hashes H a = map (\<lambda>i. h_dim H (a i)) [0..<DNNL_MAX_NDIMS]"

section \<open>Enumerators as numbers\<close>

fun primitive_kind_val :: "primitive_kind \<Rightarrow> u64" where
  "primitive_kind_val pk_undef = 0"
| "primitive_kind_val pk_reorder = 1"
| "primitive_kind_val pk_shuffle = 2"
| "primitive_kind_val pk_concat = 3"
| "primitive_kind_val pk_sum = 4"
| "primitive_kind_val pk_convolution = 5"
| "primitive_kind_val pk_deconvolution = 6"
| "primitive_kind_val pk_eltwise = 7"
| "primitive_kind_val pk_softmax = 8"
| "primitive_kind_val pk_pooling = 9"
| "primitive_kind_val pk_lrn = 10"
| "primitive_kind_val pk_batch_normalization = 11"
| "primitive_kind_val pk_layer_normalization = 12"
| "primitive_kind_val pk_inner_product = 13"
| "primitive_kind_val pk_rnn = 14"
| "primitive_kind_val pk_gemm = 15"

fun alg_kind_val :: "alg_kind \<Rightarrow> u64" where
  "alg_kind_val alg_kind_undef = 0"
| "alg_kind_val convolution_direct = 0x1"
| "alg_kind_val convolution_winograd = 0x2"
| "alg_kind_val convolution_auto = 0x3"
| "alg_kind_val deconvolution_direct = 0xa"
| "alg_kind_val deconvolution_winograd = 0xb"
| "alg_kind_val eltwise_relu = 0x1f"
| "alg_kind_val eltwise_tanh = 0x2f"
| "alg_kind_val eltwise_elu = 0x3f"
| "alg_kind_val eltwise_square = 0x4f"
| "alg_kind_val eltwise_abs = 0x5f"
| "alg_kind_val eltwise_sqrt = 0x6f"
| "alg_kind_val eltwise_linear = 0x7f"
| "alg_kind_val eltwise_bounded_relu = 0x8f"
| "alg_kind_val eltwise_soft_relu = 0x9f"
| "alg_kind_val eltwise_logistic = 0xaf"
| "alg_kind_val eltwise_exp = 0xbf"
| "alg_kind_val eltwise_gelu = 0xcf"
| "alg_kind_val eltwise_swish = 0xdf"
| "alg_kind_val pooling_max = 0x1ff"
| "alg_kind_val pooling_avg_include_padding = 0x2ff"
| "alg_kind_val pooling_avg_exclude_padding = 0x3ff"
| "alg_kind_val lrn_across_channels = 0xaff"
| "alg_kind_val lrn_within_channel = 0xbff"
| "alg_kind_val vanilla_rnn = 0x1fff"
| "alg_kind_val vanilla_lstm = 0x2fff"
| "alg_kind_val vanilla_gru = 0x3fff"
| "alg_kind_val lbr_gru = 0x4fff"

fun format_kind_val :: "format_kind \<Rightarrow> u64" where
  "format_kind_val fk_undef = 0"
| "format_kind_val fk_any = 1"
| "format_kind_val fk_blocked = 2"
| "format_kind_val fk_wino = 3"
| "format_kind_val fk_rnn_packed = 4"

fun wino_format_val :: "wino_memory_format \<Rightarrow> u64" where
  "wino_format_val wino_undef = 0"
| "wino_format_val wino_wei_aaOIoi = 1"
| "wino_format_val wino_wei_aaOio = 2"
| "wino_format_val wino_wei_aaOBiOo = 3"
| "wino_format_val wino_wei_OBaaIBOIio = 4"

fun rnn_packed_format_val :: "rnn_packed_memory_format \<Rightarrow> u64" where
  "rnn_packed_format_val packed_format_undef = 0"
| "rnn_packed_format_val ldigo_p = 1"
| "rnn_packed_format_val ldgoi_p = 2"

fun rnn_direction_val :: "rnn_direction \<Rightarrow> u64" where
  "rnn_direction_val unidirectional_left2right = 0"
| "rnn_direction_val unidirectional_right2left = 1"
| "rnn_direction_val bidirectional_concat = 2"
| "rnn_direction_val bidirectional_sum = 3"

fun engine_kind_val :: "engine_kind \<Rightarrow> u64" where
  "engine_kind_val engine_any_kind = 0"
| "engine_kind_val engine_cpu = 1"
| "engine_kind_val engine_gpu = 2"

fun transpose_val :: "transpose_t \<Rightarrow> u64" where
  "transpose_val notrans = 0"
| "transpose_val trans_t = 1"

fun scratchpad_mode_val :: "scratchpad_mode \<Rightarrow> u64" where
  "scratchpad_mode_val spm_library = 0"
| "scratchpad_mode_val spm_user = 1"

section \<open>Hash of memory descriptors and attributes\<close>

definition DNNL_RNN_MAX_N_PARTS :: nat where
  "DNNL_RNN_MAX_N_PARTS = 4"

definition format_desc_hashes :: "std_hash \<Rightarrow> memory_desc \<Rightarrow> u64 list" where
  "format_desc_hashes H md =
     (case md_format_kind md of
        fk_undef \<Rightarrow> []
      | fk_any \<Rightarrow> []
      | fk_blocked \<Rightarrow>
          dims_hashes H (blk_strides (blocking md)) @ [h_int H (int (inner_nblks (blocking md)))] @
          dims_hashes H (inner_blks (blocking md)) @
          dims_hashes H (\<lambda>i. int (inner_idxs (blocking md) i))
      | fk_wino \<Rightarrow>
          [h_size H (wino_format_val (wino_format (wino md))), h_int H (wino_r (wino md)),
           h_int H (wino_alpha (wino md)), h_int H (wino_ic (wino md)), h_int H (wino_oc (wino md)),
           h_int H (wino_ic_block (wino md)), h_int H (wino_oc_block (wino md)),
           h_int H (wino_ic2_block (wino md)), h_int H (wino_oc2_block (wino md)),
           h_float H (wino_adj_scale (wino md)), h_size H (wino_size (wino md))]
      | fk_rnn_packed \<Rightarrow>
          [h_size H (rnn_packed_format_val (rp_format (rnn_packed md))),
           h_int H (int (rp_n_parts (rnn_packed md))), h_int H (rp_n (rnn_packed md)),
           h_int H (rp_ldb (rnn_packed md))] @
          map (\<lambda>i. h_int H (rp_parts (rnn_packed md) i)) [0..<DNNL_RNN_MAX_N_PARTS] @
          map (\<lambda>i. h_size H (rp_part_pack_size (rnn_packed md) i)) [0..<DNNL_RNN_MAX_N_PARTS] @
          map (\<lambda>i. h_u32 H (rp_pack_part (rnn_packed md) i)) [0..<DNNL_RNN_MAX_N_PARTS] @
          [h_size H (rp_offset_compensation (rnn_packed md)), h_size H (rp_size (rnn_packed md))])"

definition extra_hashes :: "std_hash \<Rightarrow> memory_extra_desc \<Rightarrow> u64 list" where
  "extra_hashes H e =
     (if extra_flags e = 0 then []
      else [h_size H (extra_flags e)] @
        (if extra_flags e AND compensation_conv_s8s8 \<noteq> 0 then [h_int H (sint (compensation_mask e))] else []) @
        (if extra_flags e AND flag_scale_adjust \<noteq> 0 then [h_float H (scale_adjust e)] else []))"

definition get_md_hash :: "std_hash \<Rightarrow> memory_desc \<Rightarrow> u64" where
  "get_md_hash H md = hash_all 0
     (dims_hashes H (md_dims md) @ [h_size H (of_nat (data_type_val (md_data_type md)))] @
      dims_hashes H (padded_dims md) @ dims_hashes H (padded_offsets md) @ [h_dim H (offset0 md)] @
      [h_size H (format_kind_val (md_format_kind md))] @ format_desc_hashes H md @ extra_hashes H (extra md))"

fun post_op_hashes :: "std_hash \<Rightarrow> post_op \<Rightarrow> u64 list" where
  "post_op_hashes H (Eltwise_op alg scale alpha beta) =
     [h_size H (alg_kind_val alg), h_float H scale, h_float H alpha, h_float H beta]"
| "post_op_hashes H (Sum_op scale) = [h_float H scale]"

definition scales_hashes :: "std_hash \<Rightarrow> scales_t \<Rightarrow> u64 list" where
  "scales_hashes H s = (case scales_data s of None \<Rightarrow> []
     | Some xs \<Rightarrow> map (\<lambda>i. h_float H (xs ! i)) [0..<nat (sc_count s)])"

definition get_attr_hash :: "std_hash \<Rightarrow> primitive_attr \<Rightarrow> u64" where
  "get_attr_hash H a = hash_all 0
     ([h_size H (scratchpad_mode_val (at_scratchpad_mode a)), h_int H (sc_mask (at_output_scales a))] @
      scales_hashes H (at_output_scales a) @
      concat (map (post_op_hashes H) (at_post_ops a)) @
      [h_float H (rq_scale (at_rnn_data_qparams a)), h_float H (rq_shift (at_rnn_data_qparams a))] @
      [h_int H (sc_mask (at_rnn_weights_qparams a))] @ scales_hashes H (at_rnn_weights_qparams a))"

section \<open>Hash of operation descriptors\<close>

definition convolution_desc_hash :: "std_hash \<Rightarrow> convolution_desc \<Rightarrow> u64" where
  "convolution_desc_hash H d = hash_all 0
    (
       [h_size H (primitive_kind_val (cd_primitive_kind d)),
        h_size H (ucast (prop_kind_val (cd_prop_kind d))),
        h_size H (alg_kind_val (cd_alg_kind d)), h_size H (get_md_hash H (cd_src_desc d)),
        h_size H (get_md_hash H (cd_diff_src_desc d)),
        h_size H (get_md_hash H (cd_weights_desc d)),
        h_size H (get_md_hash H (cd_diff_weights_desc d)),
        h_size H (get_md_hash H (cd_bias_desc d)), h_size H (get_md_hash H (cd_diff_bias_desc d)),
        h_size H (get_md_hash H (cd_dst_desc d)), h_size H (get_md_hash H (cd_diff_dst_desc d))] @
       dims_hashes H (cd_strides d) @
       dims_hashes H (cd_dilates d) @
       dims_hashes H (cd_padding_l d) @
       dims_hashes H (cd_padding_r d) @
       [h_size H (of_nat (data_type_val (cd_accum_data_type d)))])"

definition pooling_desc_hash :: "std_hash \<Rightarrow> pooling_desc \<Rightarrow> u64" where
  "pooling_desc_hash H d = hash_all 0
    (
       [h_size H (primitive_kind_val (pl_primitive_kind d)),
        h_size H (ucast (prop_kind_val (pl_prop_kind d))),
        h_size H (alg_kind_val (pl_alg_kind d)), h_size H (get_md_hash H (pl_src_desc d)),
        h_size H (get_md_hash H (pl_diff_src_desc d)), h_size H (get_md_hash H (pl_dst_desc d)),
        h_size H (get_md_hash H (pl_diff_dst_desc d))] @
       dims_hashes H (pl_strides d) @
       dims_hashes H (pl_kernel d) @
       dims_hashes H (pl_padding_l d) @
       dims_hashes H (pl_padding_r d) @
       [h_size H (of_nat (data_type_val (pl_accum_data_type d)))])"

definition inner_product_desc_hash :: "std_hash \<Rightarrow> inner_product_desc \<Rightarrow> u64" where
  "inner_product_desc_hash H d = hash_all 0
    (
       [h_size H (primitive_kind_val (ipd_primitive_kind d)),
        h_size H (ucast (prop_kind_val (ipd_prop_kind d))),
        h_size H (get_md_hash H (ipd_src_desc d)), h_size H (get_md_hash H (ipd_diff_src_desc d)),
        h_size H (get_md_hash H (ipd_weights_desc d)),
        h_size H (get_md_hash H (ipd_diff_weights_desc d)),
        h_size H (get_md_hash H (ipd_bias_desc d)),
        h_size H (get_md_hash H (ipd_diff_bias_desc d)),
        h_size H (get_md_hash H (ipd_dst_desc d)), h_size H (get_md_hash H (ipd_diff_dst_desc d)),
        h_size H (of_nat (data_type_val (ipd_accum_data_type d)))])"

definition eltwise_desc_hash :: "std_hash \<Rightarrow> eltwise_desc \<Rightarrow> u64" where
  "eltwise_desc_hash H d = hash_all 0
    (
       [h_size H (primitive_kind_val (el_primitive_kind d)),
        h_size H (ucast (prop_kind_val (el_prop_kind d))),
        h_size H (alg_kind_val (el_alg_kind d)), h_size H (get_md_hash H (el_data_desc d)),
        h_size H (get_md_hash H (el_diff_data_desc d)), h_float H (el_alpha d),
        h_float H (el_beta d)])"

definition softmax_desc_hash :: "std_hash \<Rightarrow> softmax_desc \<Rightarrow> u64" where
  "softmax_desc_hash H d = hash_all 0
    (
       [h_size H (primitive_kind_val (sm_primitive_kind d)),
        h_size H (ucast (prop_kind_val (sm_prop_kind d))),
        h_size H (get_md_hash H (sm_data_desc d)), h_size H (get_md_hash H (sm_diff_desc d)),
        h_int H (sm_softmax_axis d)])"

definition shuffle_desc_hash :: "std_hash \<Rightarrow> shuffle_desc \<Rightarrow> u64" where
  "shuffle_desc_hash H d = hash_all 0
    (
       [h_size H (primitive_kind_val (sh_primitive_kind d)),
        h_size H (ucast (prop_kind_val (sh_prop_kind d))),
        h_size H (get_md_hash H (sh_data_desc d)), h_int H (sh_axis d), h_dim H (sh_group_size d)])"

definition lrn_desc_hash :: "std_hash \<Rightarrow> lrn_desc \<Rightarrow> u64" where
  "lrn_desc_hash H d = hash_all 0
    (
       [h_size H (primitive_kind_val (lr_primitive_kind d)),
        h_size H (ucast (prop_kind_val (lr_prop_kind d))),
        h_size H (alg_kind_val (lr_alg_kind d)), h_size H (get_md_hash H (lr_data_desc d)),
        h_size H (get_md_hash H (lr_diff_data_desc d)), h_dim H (lr_local_size d),
        h_float H (lr_lrn_alpha d), h_float H (lr_lrn_beta d), h_float H (lr_lrn_k d)])"

definition batch_normalization_desc_hash :: "std_hash \<Rightarrow> batch_normalization_desc \<Rightarrow> u64" where
  "batch_normalization_desc_hash H d = hash_all 0
    (
       [h_size H (primitive_kind_val (bn_primitive_kind d)),
        h_size H (ucast (prop_kind_val (bn_prop_kind d))),
        h_size H (get_md_hash H (bn_data_desc d)), h_size H (get_md_hash H (bn_diff_data_desc d)),
        h_size H (get_md_hash H (bn_data_scaleshift_desc d)),
        h_size H (get_md_hash H (bn_diff_data_scaleshift_desc d)),
        h_size H (get_md_hash H (bn_stat_desc d)), h_float H (bn_epsilon d), h_u32 H (bn_flags d)])"

definition layer_normalization_desc_hash :: "std_hash \<Rightarrow> layer_normalization_desc \<Rightarrow> u64" where
  "layer_normalization_desc_hash H d = hash_all 0
    (
       [h_size H (primitive_kind_val (ln_primitive_kind d)),
        h_size H (ucast (prop_kind_val (ln_prop_kind d))),
        h_size H (get_md_hash H (ln_data_desc d)), h_size H (get_md_hash H (ln_diff_data_desc d)),
        h_size H (get_md_hash H (ln_data_scaleshift_desc d)),
        h_size H (get_md_hash H (ln_diff_data_scaleshift_desc d)),
        h_size H (get_md_hash H (ln_stat_desc d)), h_float H (ln_epsilon d), h_u32 H (ln_flags d)])"

definition rnn_desc_hash :: "std_hash \<Rightarrow> rnn_desc \<Rightarrow> u64" where
  "rnn_desc_hash H d = hash_all 0
    (
       [h_size H (primitive_kind_val (rn_primitive_kind d)),
        h_size H (ucast (prop_kind_val (rn_prop_kind d))),
        h_size H (alg_kind_val (rn_cell_kind d)), h_size H (rnn_direction_val (rn_direction d)),
        h_size H (get_md_hash H (rn_src_layer_desc d)),
        h_size H (get_md_hash H (rn_src_iter_desc d)),
        h_size H (get_md_hash H (rn_src_iter_c_desc d)),
        h_size H (get_md_hash H (rn_weights_layer_desc d)),
        h_size H (get_md_hash H (rn_weights_iter_desc d)),
        h_size H (get_md_hash H (rn_bias_desc d)), h_size H (get_md_hash H (rn_dst_layer_desc d)),
        h_size H (get_md_hash H (rn_dst_iter_desc d)),
        h_size H (get_md_hash H (rn_dst_iter_c_desc d)),
        h_size H (get_md_hash H (rn_placeholder_desc d)),
        h_size H (get_md_hash H (rn_placeholder2_desc d)),
        h_size H (get_md_hash H (rn_diff_src_layer_desc d)),
        h_size H (get_md_hash H (rn_diff_src_iter_desc d)),
        h_size H (get_md_hash H (rn_diff_src_iter_c_desc d)),
        h_size H (get_md_hash H (rn_diff_weights_layer_desc d)),
        h_size H (get_md_hash H (rn_diff_weights_iter_desc d)),
        h_size H (get_md_hash H (rn_diff_bias_desc d)),
        h_size H (get_md_hash H (rn_diff_dst_layer_desc d)),
        h_size H (get_md_hash H (rn_diff_dst_iter_desc d)),
        h_size H (get_md_hash H (rn_diff_dst_iter_c_desc d)),
        h_size H (get_md_hash H (rn_diff_placeholder_desc d)),
        h_size H (get_md_hash H (rn_diff_placeholder2_desc d)), h_u32 H (rn_flags d),
        h_size H (alg_kind_val (rn_activation_kind d)), h_float H (rn_alpha d),
        h_float H (rn_beta d)])"

definition gemm_desc_hash :: "std_hash \<Rightarrow> gemm_desc \<Rightarrow> u64" where
  "gemm_desc_hash H d = hash_all 0
    (
       [h_size H (primitive_kind_val (ge_primitive_kind d)),
        h_size H (transpose_val (ge_transa d)), h_size H (transpose_val (ge_transb d)),
        h_dim H (ge_m d), h_dim H (ge_n d), h_dim H (ge_k d), h_dim H (ge_lda d),
        h_dim H (ge_ldb d), h_dim H (ge_ldc d), h_float H (ge_alpha d), h_float H (ge_beta d),
        h_size H (of_nat (data_type_val (ge_a_type d))),
        h_size H (of_nat (data_type_val (ge_b_type d))),
        h_size H (of_nat (data_type_val (ge_c_type d)))])"

definition reorder_desc_hash :: "std_hash \<Rightarrow> reorder_desc \<Rightarrow> u64" where
  "reorder_desc_hash H d = hash_all 0
    (
       [h_size H (primitive_kind_val (re_primitive_kind d)),
        h_size H (get_md_hash H (re_src_md d)), h_size H (get_md_hash H (re_dst_md d)),
        h_size H (engine_kind_val (re_src_engine_kind d)),
        h_size H (engine_kind_val (re_dst_engine_kind d))])"

definition concat_desc_hash :: "std_hash \<Rightarrow> concat_desc \<Rightarrow> u64" where
  "concat_desc_hash H d = hash_all 0
    (
       [h_size H (primitive_kind_val (cc_primitive_kind d)),
        h_size H (get_md_hash H (cc_dst_md d)), h_dim H (cc_n d), h_dim H (cc_concat_dimension d)] @
       map (\<lambda>i. h_size H (get_md_hash H (cc_src_mds d ! i))) [0..<nat (cc_n d)])"

definition sum_desc_hash :: "std_hash \<Rightarrow> sum_desc \<Rightarrow> u64" where
  "sum_desc_hash H d = hash_all 0
    (
       [h_size H (primitive_kind_val (su_primitive_kind d)),
        h_size H (get_md_hash H (su_dst_md d)), h_dim H (su_n d)] @
       (if su_scales d = [] then [] else map (\<lambda>i. h_float H (su_scales d ! i)) [0..<nat (su_n d)]) @
       map (\<lambda>i. h_size H (get_md_hash H (su_src_mds d ! i))) [0..<nat (su_n d)])"

section \<open>Keys\<close>

text \<open>
  What \<open>op_desc_\<close> points to. The descriptor's type goes with the primitive kind; comparing a
  key whose descriptor has another type is undefined (\<open>None\<close>).
\<close>

datatype op_desc =
    Op_convolution convolution_desc
  | Op_pooling pooling_desc
  | Op_inner_product inner_product_desc
  | Op_eltwise eltwise_desc
  | Op_softmax softmax_desc
  | Op_shuffle shuffle_desc
  | Op_lrn lrn_desc
  | Op_batch_normalization batch_normalization_desc
  | Op_layer_normalization layer_normalization_desc
  | Op_rnn rnn_desc
  | Op_gemm gemm_desc
  | Op_reorder reorder_desc
  | Op_concat concat_desc
  | Op_sum sum_desc

record cache_key =
  key_primitive_kind :: primitive_kind
  key_op_desc :: op_desc
  key_attr :: primitive_attr
  key_impl_id :: nat
  key_impl_nthr :: int

text \<open>\<open>cast_and_compare\<close> in the switch over the primitive kind.\<close>

definition compare_op_desc :: "primitive_kind \<Rightarrow> op_desc \<Rightarrow> op_desc \<Rightarrow> bool option" where
  "compare_op_desc kind lhs rhs = (case kind of
      pk_convolution \<Rightarrow>
        (case lhs of Op_convolution l \<Rightarrow> (case rhs of Op_convolution r \<Rightarrow> Some (convolution_desc_eq l r) | _ \<Rightarrow> None) | _ \<Rightarrow> None)
    | pk_deconvolution \<Rightarrow>
        (case lhs of Op_convolution l \<Rightarrow> (case rhs of Op_convolution r \<Rightarrow> Some (convolution_desc_eq l r) | _ \<Rightarrow> None) | _ \<Rightarrow> None)
    | pk_pooling \<Rightarrow>
        (case lhs of Op_pooling l \<Rightarrow> (case rhs of Op_pooling r \<Rightarrow> Some (pooling_desc_eq l r) | _ \<Rightarrow> None) | _ \<Rightarrow> None)
    | pk_inner_product \<Rightarrow>
        (case lhs of Op_inner_product l \<Rightarrow> (case rhs of Op_inner_product r \<Rightarrow> Some (inner_product_desc_eq l r) | _ \<Rightarrow> None) | _ \<Rightarrow> None)
    | pk_eltwise \<Rightarrow>
        (case lhs of Op_eltwise l \<Rightarrow> (case rhs of Op_eltwise r \<Rightarrow> Some (eltwise_desc_eq l r) | _ \<Rightarrow> None) | _ \<Rightarrow> None)
    | pk_softmax \<Rightarrow>
        (case lhs of Op_softmax l \<Rightarrow> (case rhs of Op_softmax r \<Rightarrow> Some (softmax_desc_eq l r) | _ \<Rightarrow> None) | _ \<Rightarrow> None)
    | pk_shuffle \<Rightarrow>
        (case lhs of Op_shuffle l \<Rightarrow> (case rhs of Op_shuffle r \<Rightarrow> Some (shuffle_desc_eq l r) | _ \<Rightarrow> None) | _ \<Rightarrow> None)
    | pk_lrn \<Rightarrow>
        (case lhs of Op_lrn l \<Rightarrow> (case rhs of Op_lrn r \<Rightarrow> Some (lrn_desc_eq l r) | _ \<Rightarrow> None) | _ \<Rightarrow> None)
    | pk_batch_normalization \<Rightarrow>
        (case lhs of Op_batch_normalization l \<Rightarrow> (case rhs of Op_batch_normalization r \<Rightarrow> Some (batch_normalization_desc_eq l r) | _ \<Rightarrow> None) | _ \<Rightarrow> None)
    | pk_layer_normalization \<Rightarrow>
        (case lhs of Op_layer_normalization l \<Rightarrow> (case rhs of Op_layer_normalization r \<Rightarrow> Some (layer_normalization_desc_eq l r) | _ \<Rightarrow> None) | _ \<Rightarrow> None)
    | pk_rnn \<Rightarrow>
        (case lhs of Op_rnn l \<Rightarrow> (case rhs of Op_rnn r \<Rightarrow> Some (rnn_desc_eq l r) | _ \<Rightarrow> None) | _ \<Rightarrow> None)
    | pk_gemm \<Rightarrow>
        (case lhs of Op_gemm l \<Rightarrow> (case rhs of Op_gemm r \<Rightarrow> Some (gemm_desc_eq l r) | _ \<Rightarrow> None) | _ \<Rightarrow> None)
    | pk_reorder \<Rightarrow>
        (case lhs of Op_reorder l \<Rightarrow> (case rhs of Op_reorder r \<Rightarrow> Some (reorder_desc_eq l r) | _ \<Rightarrow> None) | _ \<Rightarrow> None)
    | pk_concat \<Rightarrow>
        (case lhs of Op_concat l \<Rightarrow> (case rhs of Op_concat r \<Rightarrow> Some (concat_desc_eq l r) | _ \<Rightarrow> None) | _ \<Rightarrow> None)
    | pk_sum \<Rightarrow>
        (case lhs of Op_sum l \<Rightarrow> (case rhs of Op_sum r \<Rightarrow> Some (sum_desc_eq l r) | _ \<Rightarrow> None) | _ \<Rightarrow> None)
    | pk_undef \<Rightarrow> Some True)"

text \<open>
  \<open>operator==\<close>. \<open>same_object\<close> is the comparison of the two objects' addresses.
\<close>

definition key_eq :: "bool \<Rightarrow> cache_key \<Rightarrow> cache_key \<Rightarrow> bool option" where
  "key_eq same_object lhs rhs =
     (if same_object then Some True
      else if \<not> (key_primitive_kind lhs = key_primitive_kind rhs \<and> key_impl_id lhs = key_impl_id rhs \<and>
                 key_impl_nthr lhs = key_impl_nthr rhs)
      then Some False
      else case attr_eq (key_attr lhs) (key_attr rhs) of
          None \<Rightarrow> None
        | Some False \<Rightarrow> Some False
        | Some True \<Rightarrow> compare_op_desc (key_primitive_kind lhs) (key_op_desc lhs) (key_op_desc rhs))"

fun op_desc_hash :: "std_hash \<Rightarrow> op_desc \<Rightarrow> u64" where
  "op_desc_hash H (Op_convolution d) = convolution_desc_hash H d"
| "op_desc_hash H (Op_pooling d) = pooling_desc_hash H d"
| "op_desc_hash H (Op_inner_product d) = inner_product_desc_hash H d"
| "op_desc_hash H (Op_eltwise d) = eltwise_desc_hash H d"
| "op_desc_hash H (Op_softmax d) = softmax_desc_hash H d"
| "op_desc_hash H (Op_shuffle d) = shuffle_desc_hash H d"
| "op_desc_hash H (Op_lrn d) = lrn_desc_hash H d"
| "op_desc_hash H (Op_batch_normalization d) = batch_normalization_desc_hash H d"
| "op_desc_hash H (Op_layer_normalization d) = layer_normalization_desc_hash H d"
| "op_desc_hash H (Op_rnn d) = rnn_desc_hash H d"
| "op_desc_hash H (Op_gemm d) = gemm_desc_hash H d"
| "op_desc_hash H (Op_reorder d) = reorder_desc_hash H d"
| "op_desc_hash H (Op_concat d) = concat_desc_hash H d"
| "op_desc_hash H (Op_sum d) = sum_desc_hash H d"

definition key_hash :: "std_hash \<Rightarrow> cache_key \<Rightarrow> u64" where
  "key_hash H k = hash_all 0
     ([h_size H (hash_combine 0 (h_size H (primitive_kind_val (key_primitive_kind k)))),
       h_size H (get_attr_hash H (key_attr k)),
       h_size H (hash_combine 0 (h_type_index H (key_impl_id k))),
       h_size H (hash_combine 0 (h_int H (key_impl_nthr k)))] @
      (if key_primitive_kind k = pk_undef then [] else [h_size H (op_desc_hash H (key_op_desc k))]))"

section \<open>Canonical descriptors\<close>

text \<open>
  The comparison of descriptors reads the entries the tensor uses, the hash reads whole arrays
  and fields of opaque formats that the comparison skips. On descriptors with nothing behind the
  used entries, of no opaque format, both see the same.
\<close>

definition md_canonical :: "memory_desc \<Rightarrow> bool" where
  "md_canonical md \<longleftrightarrow>
     all_upto DNNL_MAX_NDIMS (\<lambda>i. nat (md_ndims md) \<le> i \<longrightarrow>
       md_dims md i = 0 \<and> padded_dims md i = 0 \<and> padded_offsets md i = 0 \<and> blk_strides (blocking md) i = 0) \<and>
     all_upto DNNL_MAX_NDIMS (\<lambda>i. inner_nblks (blocking md) \<le> i \<longrightarrow>
       inner_blks (blocking md) i = 0 \<and> inner_idxs (blocking md) i = 0) \<and>
     md_format_kind md \<in> {fk_undef, fk_any, fk_blocked} \<and>
     (md_ndims md = 0 \<longrightarrow> md_data_type md = dt_undef \<and> offset0 md = 0 \<and> md_format_kind md = fk_undef \<and>
        extra_flags (extra md) = 0)"

definition convolution_desc_canonical :: "convolution_desc \<Rightarrow> bool" where
  "convolution_desc_canonical d \<longleftrightarrow>
     md_canonical (cd_src_desc d) \<and> md_canonical (cd_diff_src_desc d) \<and>
     md_canonical (cd_weights_desc d) \<and> md_canonical (cd_diff_weights_desc d) \<and>
     md_canonical (cd_bias_desc d) \<and> md_canonical (cd_diff_bias_desc d) \<and>
     md_canonical (cd_dst_desc d) \<and> md_canonical (cd_diff_dst_desc d)"

definition pooling_desc_canonical :: "pooling_desc \<Rightarrow> bool" where
  "pooling_desc_canonical d \<longleftrightarrow>
     md_canonical (pl_src_desc d) \<and> md_canonical (pl_diff_src_desc d) \<and>
     md_canonical (pl_dst_desc d) \<and> md_canonical (pl_diff_dst_desc d)"

definition inner_product_desc_canonical :: "inner_product_desc \<Rightarrow> bool" where
  "inner_product_desc_canonical d \<longleftrightarrow>
     md_canonical (ipd_src_desc d) \<and> md_canonical (ipd_diff_src_desc d) \<and>
     md_canonical (ipd_weights_desc d) \<and> md_canonical (ipd_diff_weights_desc d) \<and>
     md_canonical (ipd_bias_desc d) \<and> md_canonical (ipd_diff_bias_desc d) \<and>
     md_canonical (ipd_dst_desc d) \<and> md_canonical (ipd_diff_dst_desc d)"

definition eltwise_desc_canonical :: "eltwise_desc \<Rightarrow> bool" where
  "eltwise_desc_canonical d \<longleftrightarrow>
     md_canonical (el_data_desc d) \<and> md_canonical (el_diff_data_desc d)"

definition softmax_desc_canonical :: "softmax_desc \<Rightarrow> bool" where
  "softmax_desc_canonical d \<longleftrightarrow>
     md_canonical (sm_data_desc d) \<and> md_canonical (sm_diff_desc d)"

definition shuffle_desc_canonical :: "shuffle_desc \<Rightarrow> bool" where
  "shuffle_desc_canonical d \<longleftrightarrow>
     md_canonical (sh_data_desc d)"

definition lrn_desc_canonical :: "lrn_desc \<Rightarrow> bool" where
  "lrn_desc_canonical d \<longleftrightarrow>
     md_canonical (lr_data_desc d) \<and> md_canonical (lr_diff_data_desc d)"

definition batch_normalization_desc_canonical :: "batch_normalization_desc \<Rightarrow> bool" where
  "batch_normalization_desc_canonical d \<longleftrightarrow>
     md_canonical (bn_data_desc d) \<and> md_canonical (bn_diff_data_desc d) \<and>
     md_canonical (bn_data_scaleshift_desc d) \<and>
     md_canonical (bn_diff_data_scaleshift_desc d) \<and> md_canonical (bn_stat_desc d)"

definition layer_normalization_desc_canonical :: "layer_normalization_desc \<Rightarrow> bool" where
  "layer_normalization_desc_canonical d \<longleftrightarrow>
     md_canonical (ln_data_desc d) \<and> md_canonical (ln_diff_data_desc d) \<and>
     md_canonical (ln_data_scaleshift_desc d) \<and>
     md_canonical (ln_diff_data_scaleshift_desc d) \<and> md_canonical (ln_stat_desc d)"

definition rnn_desc_canonical :: "rnn_desc \<Rightarrow> bool" where
  "rnn_desc_canonical d \<longleftrightarrow>
     md_canonical (rn_src_layer_desc d) \<and> md_canonical (rn_src_iter_desc d) \<and>
     md_canonical (rn_src_iter_c_desc d) \<and> md_canonical (rn_weights_layer_desc d) \<and>
     md_canonical (rn_weights_iter_desc d) \<and> md_canonical (rn_bias_desc d) \<and>
     md_canonical (rn_dst_layer_desc d) \<and> md_canonical (rn_dst_iter_desc d) \<and>
     md_canonical (rn_dst_iter_c_desc d) \<and> md_canonical (rn_placeholder_desc d) \<and>
     md_canonical (rn_placeholder2_desc d) \<and> md_canonical (rn_diff_src_layer_desc d) \<and>
     md_canonical (rn_diff_src_iter_desc d) \<and>
     md_canonical (rn_diff_src_iter_c_desc d) \<and>
     md_canonical (rn_diff_weights_layer_desc d) \<and>
     md_canonical (rn_diff_weights_iter_desc d) \<and> md_canonical (rn_diff_bias_desc d) \<and>
     md_canonical (rn_diff_dst_layer_desc d) \<and>
     md_canonical (rn_diff_dst_iter_desc d) \<and>
     md_canonical (rn_diff_dst_iter_c_desc d) \<and>
     md_canonical (rn_diff_placeholder_desc d) \<and> md_canonical (rn_diff_placeholder2_desc d)"

definition gemm_desc_canonical :: "gemm_desc \<Rightarrow> bool" where
  "gemm_desc_canonical d \<longleftrightarrow>
     True"

definition reorder_desc_canonical :: "reorder_desc \<Rightarrow> bool" where
  "reorder_desc_canonical d \<longleftrightarrow>
     md_canonical (re_src_md d) \<and> md_canonical (re_dst_md d)"

definition concat_desc_canonical :: "concat_desc \<Rightarrow> bool" where
  "concat_desc_canonical d \<longleftrightarrow>
     md_canonical (cc_dst_md d) \<and>
     all_upto (nat (cc_n d)) (\<lambda>i. md_canonical (cc_src_mds d ! i))"

definition sum_desc_canonical :: "sum_desc \<Rightarrow> bool" where
  "sum_desc_canonical d \<longleftrightarrow>
     md_canonical (su_dst_md d) \<and>
     all_upto (nat (su_n d)) (\<lambda>i. md_canonical (su_src_mds d ! i)) \<and>
     nat (su_n d) \<le> length (su_scales d)"

fun op_desc_canonical :: "op_desc \<Rightarrow> bool" where
  "op_desc_canonical (Op_convolution d) \<longleftrightarrow> convolution_desc_canonical d"
| "op_desc_canonical (Op_pooling d) \<longleftrightarrow> pooling_desc_canonical d"
| "op_desc_canonical (Op_inner_product d) \<longleftrightarrow> inner_product_desc_canonical d"
| "op_desc_canonical (Op_eltwise d) \<longleftrightarrow> eltwise_desc_canonical d"
| "op_desc_canonical (Op_softmax d) \<longleftrightarrow> softmax_desc_canonical d"
| "op_desc_canonical (Op_shuffle d) \<longleftrightarrow> shuffle_desc_canonical d"
| "op_desc_canonical (Op_lrn d) \<longleftrightarrow> lrn_desc_canonical d"
| "op_desc_canonical (Op_batch_normalization d) \<longleftrightarrow> batch_normalization_desc_canonical d"
| "op_desc_canonical (Op_layer_normalization d) \<longleftrightarrow> layer_normalization_desc_canonical d"
| "op_desc_canonical (Op_rnn d) \<longleftrightarrow> rnn_desc_canonical d"
| "op_desc_canonical (Op_gemm d) \<longleftrightarrow> gemm_desc_canonical d"
| "op_desc_canonical (Op_reorder d) \<longleftrightarrow> reorder_desc_canonical d"
| "op_desc_canonical (Op_concat d) \<longleftrightarrow> concat_desc_canonical d"
| "op_desc_canonical (Op_sum d) \<longleftrightarrow> sum_desc_canonical d"

section \<open>Equal keys hash alike\<close>

lemma dims_hashes_cong: "(\<And>i. i < 12 \<Longrightarrow> a i = b i) \<Longrightarrow> dims_hashes H a = dims_hashes H b"
  by (simp add: dims_hashes_def)

lemma array_cmp_hashes: "array_cmp a b DNNL_MAX_NDIMS \<Longrightarrow> dims_hashes H a = dims_hashes H b"
  by (intro dims_hashes_cong) (simp add: array_cmp_iff)

lemma float_hashD: "float_hash_ok H \<Longrightarrow> f32_eq x y \<Longrightarrow> h_float H x = h_float H y"
  by (simp add: float_hash_ok_def)

lemma extra_hashes_eq:
  "float_hash_ok H \<Longrightarrow> memory_extra_desc_is_equal a b \<Longrightarrow> extra_hashes H a = extra_hashes H b"
  by (auto simp: memory_extra_desc_is_equal_def extra_hashes_def float_hashD)

lemma md_canonical_tails:
  assumes "md_canonical md"
  shows "\<forall>i<12. nat (md_ndims md) \<le> i \<longrightarrow> md_dims md i = 0"
    "\<forall>i<12. nat (md_ndims md) \<le> i \<longrightarrow> padded_dims md i = 0"
    "\<forall>i<12. nat (md_ndims md) \<le> i \<longrightarrow> padded_offsets md i = 0"
    "\<forall>i<12. nat (md_ndims md) \<le> i \<longrightarrow> blk_strides (blocking md) i = 0"
  using assms by (simp_all add: md_canonical_def)

lemma md_hash_eq:
  assumes H: "float_hash_ok H" and eq: "memory_desc_eq a b" and c: "md_canonical a" "md_canonical b"
  shows "get_md_hash H a = get_md_hash H b"
proof (cases "md_ndims a = 0")
  case True
  then have "md_ndims b = 0" using memory_desc_eq_ndims [OF eq] by simp
  then have "dims_hashes H (md_dims a) = dims_hashes H (md_dims b)"
    "dims_hashes H (padded_dims a) = dims_hashes H (padded_dims b)"
    "dims_hashes H (padded_offsets a) = dims_hashes H (padded_offsets b)"
    using c True by (auto simp: md_canonical_def intro!: dims_hashes_cong)
  then show ?thesis
    using c True \<open>md_ndims b = 0\<close>
    by (simp add: md_canonical_def get_md_hash_def format_desc_hashes_def extra_hashes_def)
next
  case False
  then have base: "memory_desc_base_equal a b" and ex: "memory_extra_desc_is_equal (extra a) (extra b)"
    and fd: "format_desc_is_equal a b" using eq by (auto simp: memory_desc_eq_iff)
  have nd: "md_ndims b = md_ndims a" using base by (simp add: memory_desc_base_equal_def)
  have same: "dims_hashes H f = dims_hashes H g"
    if "\<forall>i<nat (md_ndims a). f i = g i" "\<forall>i<12. nat (md_ndims a) \<le> i \<longrightarrow> f i = 0"
      "\<forall>i<12. nat (md_ndims b) \<le> i \<longrightarrow> g i = 0" for f g
  proof (rule dims_hashes_cong)
    fix i :: nat assume "i < 12"
    then show "f i = g i" using that nd by (cases "i < nat (md_ndims a)") simp_all
  qed
  note tails = md_canonical_tails [OF c(1)] md_canonical_tails [OF c(2)]
  have ds: "dims_hashes H (md_dims a) = dims_hashes H (md_dims b)"
    "dims_hashes H (padded_dims a) = dims_hashes H (padded_dims b)"
    "dims_hashes H (padded_offsets a) = dims_hashes H (padded_offsets b)"
    using base tails by (auto simp only: memory_desc_base_equal_def array_cmp_iff intro!: same)
  have fk: "md_format_kind b = md_format_kind a" "md_format_kind a \<in> {fk_undef, fk_any, fk_blocked}"
    using base c by (auto simp: memory_desc_base_equal_def md_canonical_def)
  have "format_desc_hashes H a = format_desc_hashes H b"
  proof (cases "md_format_kind a = fk_blocked")
    case True
    then have blk: "blocking_desc_is_equal (blocking a) (blocking b) (nat (md_ndims a))"
      using fd by (simp add: format_desc_is_equal_def)
    have inner: "inner_blks (blocking a) i = inner_blks (blocking b) i \<and>
        inner_idxs (blocking a) i = inner_idxs (blocking b) i" if "i < 12" for i
    proof (cases "i < inner_nblks (blocking a)")
      case True
      then show ?thesis using blk by (simp add: blocking_desc_is_equal_def array_cmp_iff)
    next
      case False
      then show ?thesis using blk that c by (simp add: blocking_desc_is_equal_def md_canonical_def)
    qed
    have "dims_hashes H (blk_strides (blocking a)) = dims_hashes H (blk_strides (blocking b))"
      using blk tails by (intro same) (simp_all add: blocking_desc_is_equal_def array_cmp_iff)
    moreover have "dims_hashes H (inner_blks (blocking a)) = dims_hashes H (inner_blks (blocking b))"
      "dims_hashes H (\<lambda>i. int (inner_idxs (blocking a) i)) = dims_hashes H (\<lambda>i. int (inner_idxs (blocking b) i))"
      using inner by (auto intro!: dims_hashes_cong)
    ultimately show ?thesis
      using True fk(1) blk by (simp add: format_desc_hashes_def blocking_desc_is_equal_def)
  next
    case False
    then show ?thesis using fk by (auto simp: format_desc_hashes_def)
  qed
  then show ?thesis
    using ds base fk(1) extra_hashes_eq [OF H ex] by (simp add: get_md_hash_def memory_desc_base_equal_def)
qed

lemma md_size_hash_eq:
  "float_hash_ok H \<Longrightarrow> memory_desc_eq a b \<Longrightarrow> md_canonical a \<Longrightarrow> md_canonical b \<Longrightarrow>
    h_size H (get_md_hash H a) = h_size H (get_md_hash H b)"
  by (simp add: md_hash_eq)

lemma mds_hash_eq:
  assumes "float_hash_ok H" "list_all2_upto memory_desc_eq n xs ys"
    "\<forall>i<n. md_canonical (xs ! i)" "\<forall>i<n. md_canonical (ys ! i)"
  shows "map (\<lambda>i. h_size H (get_md_hash H (xs ! i))) [0..<n] = map (\<lambda>i. h_size H (get_md_hash H (ys ! i))) [0..<n]"
  using assms by (auto simp: list_all2_upto_def intro!: md_size_hash_eq)

lemma scales_vector_hash_eq:
  assumes "float_hash_ok H" "f32_vector_eq xs ys" "n \<le> length xs"
  shows "(if xs = [] then [] else map (\<lambda>i. h_float H (xs ! i)) [0..<n]) =
    (if ys = [] then [] else map (\<lambda>i. h_float H (ys ! i)) [0..<n])"
  using assms by (auto simp: f32_vector_eq_def list_all2_conv_all_nth intro!: float_hashD)

lemmas hash_eq_intros = md_size_hash_eq float_hashD mds_hash_eq

lemma convolution_desc_hash_eq:
  assumes H: "float_hash_ok H" and eq: "convolution_desc_eq a b" and c: "convolution_desc_canonical a" "convolution_desc_canonical b"
  shows "convolution_desc_hash H a = convolution_desc_hash H b"
proof -
  note defs = convolution_desc_eq_def convolution_desc_canonical_def list_all2_upto_def
  show ?thesis
    unfolding convolution_desc_hash_def
    by (rule arg_cong [where f = "hash_all 0"]) (use eq c in \<open>auto simp: defs intro!: hash_eq_intros [OF H] array_cmp_hashes arg_cong2 [where f = append]\<close>)
qed

lemma pooling_desc_hash_eq:
  assumes H: "float_hash_ok H" and eq: "pooling_desc_eq a b" and c: "pooling_desc_canonical a" "pooling_desc_canonical b"
  shows "pooling_desc_hash H a = pooling_desc_hash H b"
proof -
  note defs = pooling_desc_eq_def pooling_desc_canonical_def list_all2_upto_def
  show ?thesis
    unfolding pooling_desc_hash_def
    by (rule arg_cong [where f = "hash_all 0"]) (use eq c in \<open>auto simp: defs intro!: hash_eq_intros [OF H] array_cmp_hashes arg_cong2 [where f = append]\<close>)
qed

lemma inner_product_desc_hash_eq:
  assumes H: "float_hash_ok H" and eq: "inner_product_desc_eq a b" and c: "inner_product_desc_canonical a" "inner_product_desc_canonical b"
  shows "inner_product_desc_hash H a = inner_product_desc_hash H b"
proof -
  note defs = inner_product_desc_eq_def inner_product_desc_canonical_def list_all2_upto_def
  show ?thesis
    unfolding inner_product_desc_hash_def
    by (rule arg_cong [where f = "hash_all 0"]) (use eq c in \<open>auto simp: defs intro!: hash_eq_intros [OF H] array_cmp_hashes arg_cong2 [where f = append]\<close>)
qed

lemma eltwise_desc_hash_eq:
  assumes H: "float_hash_ok H" and eq: "eltwise_desc_eq a b" and c: "eltwise_desc_canonical a" "eltwise_desc_canonical b"
  shows "eltwise_desc_hash H a = eltwise_desc_hash H b"
proof -
  note defs = eltwise_desc_eq_def eltwise_desc_canonical_def list_all2_upto_def
  show ?thesis
    unfolding eltwise_desc_hash_def
    by (rule arg_cong [where f = "hash_all 0"]) (use eq c in \<open>auto simp: defs intro!: hash_eq_intros [OF H] array_cmp_hashes arg_cong2 [where f = append]\<close>)
qed

lemma softmax_desc_hash_eq:
  assumes H: "float_hash_ok H" and eq: "softmax_desc_eq a b" and c: "softmax_desc_canonical a" "softmax_desc_canonical b"
  shows "softmax_desc_hash H a = softmax_desc_hash H b"
proof -
  note defs = softmax_desc_eq_def softmax_desc_canonical_def list_all2_upto_def
  show ?thesis
    unfolding softmax_desc_hash_def
    by (rule arg_cong [where f = "hash_all 0"]) (use eq c in \<open>auto simp: defs intro!: hash_eq_intros [OF H] array_cmp_hashes arg_cong2 [where f = append]\<close>)
qed

lemma shuffle_desc_hash_eq:
  assumes H: "float_hash_ok H" and eq: "shuffle_desc_eq a b" and c: "shuffle_desc_canonical a" "shuffle_desc_canonical b"
  shows "shuffle_desc_hash H a = shuffle_desc_hash H b"
proof -
  note defs = shuffle_desc_eq_def shuffle_desc_canonical_def list_all2_upto_def
  show ?thesis
    unfolding shuffle_desc_hash_def
    by (rule arg_cong [where f = "hash_all 0"]) (use eq c in \<open>auto simp: defs intro!: hash_eq_intros [OF H] array_cmp_hashes arg_cong2 [where f = append]\<close>)
qed

lemma lrn_desc_hash_eq:
  assumes H: "float_hash_ok H" and eq: "lrn_desc_eq a b" and c: "lrn_desc_canonical a" "lrn_desc_canonical b"
  shows "lrn_desc_hash H a = lrn_desc_hash H b"
proof -
  note defs = lrn_desc_eq_def lrn_desc_canonical_def list_all2_upto_def
  show ?thesis
    unfolding lrn_desc_hash_def
    by (rule arg_cong [where f = "hash_all 0"]) (use eq c in \<open>auto simp: defs intro!: hash_eq_intros [OF H] array_cmp_hashes arg_cong2 [where f = append]\<close>)
qed

lemma batch_normalization_desc_hash_eq:
  assumes H: "float_hash_ok H" and eq: "batch_normalization_desc_eq a b" and c: "batch_normalization_desc_canonical a" "batch_normalization_desc_canonical b"
  shows "batch_normalization_desc_hash H a = batch_normalization_desc_hash H b"
proof -
  note defs = batch_normalization_desc_eq_def batch_normalization_desc_canonical_def list_all2_upto_def
  show ?thesis
    unfolding batch_normalization_desc_hash_def
    by (rule arg_cong [where f = "hash_all 0"]) (use eq c in \<open>auto simp: defs intro!: hash_eq_intros [OF H] array_cmp_hashes arg_cong2 [where f = append]\<close>)
qed

lemma layer_normalization_desc_hash_eq:
  assumes H: "float_hash_ok H" and eq: "layer_normalization_desc_eq a b" and c: "layer_normalization_desc_canonical a" "layer_normalization_desc_canonical b"
  shows "layer_normalization_desc_hash H a = layer_normalization_desc_hash H b"
proof -
  note defs = layer_normalization_desc_eq_def layer_normalization_desc_canonical_def list_all2_upto_def
  show ?thesis
    unfolding layer_normalization_desc_hash_def
    by (rule arg_cong [where f = "hash_all 0"]) (use eq c in \<open>auto simp: defs intro!: hash_eq_intros [OF H] array_cmp_hashes arg_cong2 [where f = append]\<close>)
qed

lemma rnn_desc_hash_eq:
  assumes H: "float_hash_ok H" and eq: "rnn_desc_eq a b" and c: "rnn_desc_canonical a" "rnn_desc_canonical b"
  shows "rnn_desc_hash H a = rnn_desc_hash H b"
proof -
  note defs = rnn_desc_eq_def rnn_desc_canonical_def list_all2_upto_def
  show ?thesis
    unfolding rnn_desc_hash_def
    by (rule arg_cong [where f = "hash_all 0"]) (use eq c in \<open>auto simp: defs intro!: hash_eq_intros [OF H] array_cmp_hashes arg_cong2 [where f = append]\<close>)
qed

lemma gemm_desc_hash_eq:
  assumes H: "float_hash_ok H" and eq: "gemm_desc_eq a b" and c: "gemm_desc_canonical a" "gemm_desc_canonical b"
  shows "gemm_desc_hash H a = gemm_desc_hash H b"
proof -
  note defs = gemm_desc_eq_def gemm_desc_canonical_def list_all2_upto_def
  show ?thesis
    unfolding gemm_desc_hash_def
    by (rule arg_cong [where f = "hash_all 0"]) (use eq c in \<open>auto simp: defs intro!: hash_eq_intros [OF H] array_cmp_hashes arg_cong2 [where f = append]\<close>)
qed

lemma reorder_desc_hash_eq:
  assumes H: "float_hash_ok H" and eq: "reorder_desc_eq a b" and c: "reorder_desc_canonical a" "reorder_desc_canonical b"
  shows "reorder_desc_hash H a = reorder_desc_hash H b"
proof -
  note defs = reorder_desc_eq_def reorder_desc_canonical_def list_all2_upto_def
  show ?thesis
    unfolding reorder_desc_hash_def
    by (rule arg_cong [where f = "hash_all 0"]) (use eq c in \<open>auto simp: defs intro!: hash_eq_intros [OF H] array_cmp_hashes arg_cong2 [where f = append]\<close>)
qed

lemma concat_desc_hash_eq:
  assumes H: "float_hash_ok H" and eq: "concat_desc_eq a b" and c: "concat_desc_canonical a" "concat_desc_canonical b"
  shows "concat_desc_hash H a = concat_desc_hash H b"
proof -
  note defs = concat_desc_eq_def concat_desc_canonical_def list_all2_upto_def
  show ?thesis
    unfolding concat_desc_hash_def
    by (rule arg_cong [where f = "hash_all 0"]) (use eq c in \<open>auto simp: defs intro!: hash_eq_intros [OF H] array_cmp_hashes arg_cong2 [where f = append]\<close>)
qed

lemma sum_desc_hash_eq:
  assumes H: "float_hash_ok H" and eq: "sum_desc_eq a b" and c: "sum_desc_canonical a" "sum_desc_canonical b"
  shows "sum_desc_hash H a = sum_desc_hash H b"
proof -
  have e: "su_n a = su_n b" "su_primitive_kind a = su_primitive_kind b" "f32_vector_eq (su_scales a) (su_scales b)"
    using eq by (simp_all add: sum_desc_eq_def)
  have m: "h_size H (get_md_hash H (su_dst_md a)) = h_size H (get_md_hash H (su_dst_md b))"
    using eq c by (intro md_size_hash_eq [OF H]) (simp_all add: sum_desc_eq_def sum_desc_canonical_def)
  have ms: "map (\<lambda>i. h_size H (get_md_hash H (su_src_mds a ! i))) [0..<nat (su_n b)] =
      map (\<lambda>i. h_size H (get_md_hash H (su_src_mds b ! i))) [0..<nat (su_n b)]"
    using eq c e(1) by (intro mds_hash_eq [OF H]) (simp_all add: sum_desc_eq_def sum_desc_canonical_def)
  have n: "nat (su_n a) \<le> length (su_scales a)" using c(1) by (simp add: sum_desc_canonical_def)
  note sc = scales_vector_hash_eq [OF H e(3) n, unfolded e(1)]
  show ?thesis by (simp only: sum_desc_hash_def e(1,2) m ms sc)
qed

lemmas desc_hash_eqs = convolution_desc_hash_eq pooling_desc_hash_eq inner_product_desc_hash_eq
  eltwise_desc_hash_eq softmax_desc_hash_eq shuffle_desc_hash_eq
  lrn_desc_hash_eq batch_normalization_desc_hash_eq layer_normalization_desc_hash_eq rnn_desc_hash_eq
  gemm_desc_hash_eq reorder_desc_hash_eq concat_desc_hash_eq sum_desc_hash_eq

lemma post_op_hashes_eq:
  assumes H: "float_hash_ok H" and "post_op_eq a b"
  shows "post_op_hashes H a = post_op_hashes H b"
  using assms(2) by (cases a; cases b) (auto intro: float_hashD [OF H])

lemma scales_hashes_eq:
  assumes H: "float_hash_ok H" and "scales_eq a b"
  shows "scales_hashes H a = scales_hashes H b"
  using assms(2) by (auto simp: scales_eq_def scales_hashes_def intro: float_hashD [OF H] split: option.splits)

lemma post_ops_hashes_eq:
  assumes H: "float_hash_ok H" and "post_ops_eq a b"
  shows "map (post_op_hashes H) a = map (post_op_hashes H) b"
  using assms(2) post_op_hashes_eq [OF H] by (auto simp: post_ops_eq_def intro: nth_equalityI)

lemma attr_hash_eq:
  assumes H: "float_hash_ok H" and eq: "attr_eq a b = Some True"
  shows "get_attr_hash H a = get_attr_hash H b"
proof -
  have e: "at_scratchpad_mode a = at_scratchpad_mode b"
    "scales_eq (at_output_scales a) (at_output_scales b)"
    "post_ops_eq (at_post_ops a) (at_post_ops b)"
    "rnn_data_qparams_eq (at_rnn_data_qparams a) (at_rnn_data_qparams b)"
    "scales_eq (at_rnn_weights_qparams a) (at_rnn_weights_qparams b)"
    using eq by (auto simp: attr_eq_def split: if_splits)
  have m: "sc_mask (at_output_scales a) = sc_mask (at_output_scales b)"
    "sc_mask (at_rnn_weights_qparams a) = sc_mask (at_rnn_weights_qparams b)"
    using e(2,5) by (simp_all add: scales_eq_def)
  have f: "h_float H (rq_scale (at_rnn_data_qparams a)) = h_float H (rq_scale (at_rnn_data_qparams b))"
    "h_float H (rq_shift (at_rnn_data_qparams a)) = h_float H (rq_shift (at_rnn_data_qparams b))"
    using e(4) by (auto simp: rnn_data_qparams_eq_def intro: float_hashD [OF H])
  show ?thesis
    by (simp only: get_attr_hash_def e(1) m f scales_hashes_eq [OF H e(2)] scales_hashes_eq [OF H e(5)]
        post_ops_hashes_eq [OF H e(3)])
qed

text \<open>Descriptors of one type that compare equal hash alike.\<close>

lemma compare_op_desc_hash_eq:
  assumes H: "float_hash_ok H" and eq: "compare_op_desc k a b = Some True" and k: "k \<noteq> pk_undef"
    and c: "op_desc_canonical a" "op_desc_canonical b"
  shows "op_desc_hash H a = op_desc_hash H b"
  using eq k c
  by (auto simp: compare_op_desc_def intro: desc_hash_eqs [OF H]
      split: primitive_kind.splits op_desc.splits)

text \<open>
  C35: two keys of the primitive cache that compare equal have the same hash, whatever
  \<open>std::hash\<close> is, as the \<open>unordered_map\<close> requires, provided their memory descriptors are
  canonical.
\<close>

theorem equal_keys_equal_hash:
  assumes H: "float_hash_ok H" and eq: "key_eq same_object k1 k2 = Some True" and same: "same_object \<longrightarrow> k1 = k2"
    and c: "op_desc_canonical (key_op_desc k1)" "op_desc_canonical (key_op_desc k2)"
  shows "key_hash H k1 = key_hash H k2"
proof (cases same_object)
  case True
  then show ?thesis using same by simp
next
  case False
  then have e: "key_primitive_kind k1 = key_primitive_kind k2" "key_impl_id k1 = key_impl_id k2"
    "key_impl_nthr k1 = key_impl_nthr k2" "attr_eq (key_attr k1) (key_attr k2) = Some True"
    "compare_op_desc (key_primitive_kind k1) (key_op_desc k1) (key_op_desc k2) = Some True"
    using eq by (auto simp: key_eq_def split: if_splits option.splits bool.splits)
  have "key_primitive_kind k2 \<noteq> pk_undef \<Longrightarrow> op_desc_hash H (key_op_desc k1) = op_desc_hash H (key_op_desc k2)"
    using compare_op_desc_hash_eq [OF H e(5) _ c] e(1) by simp
  then show ?thesis using e(1-3) attr_hash_eq [OF H e(4)] by (simp add: key_hash_def)
qed

section \<open>The descriptors the API makes are canonical\<close>

lemma zero_md_canonical: "md_canonical zero_md"
  by (simp add: md_canonical_def zero_md_def zero_blocking_desc_def)

lemma fresh_md_tails:
  "nat nd \<le> i \<Longrightarrow> md_dims (fresh_md nd ds dt fk) i = 0 \<and> padded_dims (fresh_md nd ds dt fk) i = 0 \<and>
    padded_offsets (fresh_md nd ds dt fk) i = 0 \<and> blk_strides (blocking (fresh_md nd ds dt fk)) i = 0 \<and>
    inner_blks (blocking (fresh_md nd ds dt fk)) j = 0 \<and> inner_idxs (blocking (fresh_md nd ds dt fk)) j = 0"
  by (simp add: fresh_md_def zero_md_def zero_blocking_desc_def array_copy_eq)

lemma fill_stride_tail:
  "list_all (\<lambda>d. d < n) perm \<Longrightarrow> n \<le> i \<Longrightarrow>
    snd (fold (fill_stride padded blocks) perm st) i = snd st i"
proof (induction perm arbitrary: st)
  case (Cons d perm)
  then have "snd (fold (fill_stride padded blocks) perm (fill_stride padded blocks d st)) i =
      snd (fill_stride padded blocks d st) i" by simp
  also have "\<dots> = snd st i" using Cons.prems by (cases st) (auto simp: fill_stride_def Let_def)
  finally show ?case by simp
qed simp

lemma for_upto_write_tail:
  "n \<le> i \<Longrightarrow> for_upto n (\<lambda>d a. a(d := f d)) a i = a i"
  by (simp add: for_range_write)

lemma fill_blocked_canonical:
  assumes f: "fill_blocked (fresh_md nd ds dt fk_blocked) perm blks ixs = (success, md)"
    and row: "tag_row_ok perm blks ixs" and nd: "nd = int (length perm)" "nd \<noteq> 0"
  shows "md_canonical md"
proof -
  let ?m = "fresh_md nd ds dt fk_blocked"
  note keep = fill_blocked_keeps [OF f]
  have n: "ndims ?m = length perm" using nd by (simp add: ndims_def fresh_md_def)
  have perm: "list_all (\<lambda>d. d < length perm) perm" using row by (simp add: tag_row_ok_def)
  have len: "length ixs = length blks" using row by (simp add: tag_row_ok_def)
  have md: "\<exists>g padded blocks st. padded_dims md = for_upto (length perm) (\<lambda>d a. a(d := g d)) (padded_dims ?m) \<and>
      padded_offsets md = array_set (padded_offsets ?m) 0 (length perm) \<and>
      blk_strides (blocking md) = snd (fold (fill_stride padded blocks) perm (st, blk_strides (blocking ?m)))"
    using f n unfolding fill_blocked_def Let_def case_prod_unfold
    by (simp split: if_splits) (blast | force)+
  have pd: "padded_dims md i = 0 \<and> padded_offsets md i = 0 \<and> blk_strides (blocking md) i = 0"
    if i: "length perm \<le> i" for i
  proof -
    obtain g padded blocks st where e: "padded_dims md = for_upto (length perm) (\<lambda>d a. a(d := g d)) (padded_dims ?m)"
      "padded_offsets md = array_set (padded_offsets ?m) 0 (length perm)"
      "blk_strides (blocking md) = snd (fold (fill_stride padded blocks) perm (st, blk_strides (blocking ?m)))"
      using md by blast
    have t: "padded_dims ?m i = 0 \<and> padded_offsets ?m i = 0 \<and> blk_strides (blocking ?m) i = 0"
      using fresh_md_tails [of nd i ds dt fk_blocked] i nd by simp
    then show ?thesis
      unfolding e fill_stride_tail [OF perm i] using i by (simp add: for_upto_write_tail array_set_eq)
  qed
  have inner: "inner_nblks (blocking md) = length blks"
    "\<And>i. length blks \<le> i \<Longrightarrow> inner_blks (blocking md) i = 0 \<and> inner_idxs (blocking md) i = 0"
    using f len by (auto simp: fill_blocked_def Let_def array_copy_eq fresh_md_def zero_md_def
        zero_blocking_desc_def split: prod.splits if_splits)
  have "md_ndims md = nd" "md_dims md = md_dims ?m" "md_format_kind md = fk_blocked"
    using keep by (simp_all add: fresh_md_def)
  then show ?thesis
    using pd inner nd fresh_md_tails [of nd _ ds dt fk_blocked] by (simp add: md_canonical_def)
qed

text \<open>
  A concrete \<open>std::hash\<close>: numbers hash to themselves, both float zeros to 0.
\<close>

definition plain_hash :: std_hash where
  "plain_hash = \<lparr>h_size = id, h_dim = of_int, h_int = of_int, h_u32 = ucast,
     h_float = (\<lambda>x. if x AND 0x7fffffff = 0 then 0 else ucast x), h_type_index = of_nat\<rparr>"

lemma plain_hash_ok: "float_hash_ok plain_hash"
  by (auto simp: float_hash_ok_def plain_hash_def f32_eq_def)

theorem equal_keys_equal_hash_witness:
  "key_hash plain_hash
     \<lparr>key_primitive_kind = pk_gemm, key_op_desc = Op_gemm \<lparr>ge_primitive_kind = pk_gemm, ge_transa = notrans,
        ge_transb = notrans, ge_m = 2, ge_n = 3, ge_k = 4, ge_lda = 2, ge_ldb = 4, ge_ldc = 2, ge_alpha = f32_one,
        ge_beta = 0, ge_a_type = f32, ge_b_type = f32, ge_c_type = f32\<rparr>,
      key_attr = new_primitive_attr, key_impl_id = 7, key_impl_nthr = 4\<rparr> =
   key_hash plain_hash
     \<lparr>key_primitive_kind = pk_gemm, key_op_desc = Op_gemm \<lparr>ge_primitive_kind = pk_gemm, ge_transa = notrans,
        ge_transb = notrans, ge_m = 2, ge_n = 3, ge_k = 4, ge_lda = 2, ge_ldb = 4, ge_ldc = 2, ge_alpha = f32_one,
        ge_beta = 0x80000000, ge_a_type = f32, ge_b_type = f32, ge_c_type = f32\<rparr>,
      key_attr = new_primitive_attr, key_impl_id = 7, key_impl_nthr = 4\<rparr>"
proof (rule equal_keys_equal_hash [OF plain_hash_ok, of False])
  have z: "f32_eq 0 0" "f32_eq 0 0x80000000" by (simp_all add: f32_eq_def f32_is_nan_def)
  have "attr_eq new_primitive_attr new_primitive_attr = Some True"
    by (simp add: attr_eq_def new_primitive_attr_def scales_eq_def new_scales_def scales_set_def scales_cleanup_def
        scales_data_def scales_buf_size_def Let_def post_ops_eq_def rnn_data_qparams_eq_def
        new_rnn_data_qparams_def rnn_tparams_eq_def new_rnn_tparams_def z)
  then show "key_eq False
     \<lparr>key_primitive_kind = pk_gemm, key_op_desc = Op_gemm \<lparr>ge_primitive_kind = pk_gemm, ge_transa = notrans,
        ge_transb = notrans, ge_m = 2, ge_n = 3, ge_k = 4, ge_lda = 2, ge_ldb = 4, ge_ldc = 2, ge_alpha = f32_one,
        ge_beta = 0, ge_a_type = f32, ge_b_type = f32, ge_c_type = f32\<rparr>,
      key_attr = new_primitive_attr, key_impl_id = 7, key_impl_nthr = 4\<rparr>
     \<lparr>key_primitive_kind = pk_gemm, key_op_desc = Op_gemm \<lparr>ge_primitive_kind = pk_gemm, ge_transa = notrans,
        ge_transb = notrans, ge_m = 2, ge_n = 3, ge_k = 4, ge_lda = 2, ge_ldb = 4, ge_ldc = 2, ge_alpha = f32_one,
        ge_beta = 0x80000000, ge_a_type = f32, ge_b_type = f32, ge_c_type = f32\<rparr>,
      key_attr = new_primitive_attr, key_impl_id = 7, key_impl_nthr = 4\<rparr> = Some True"
    by (simp add: key_eq_def compare_op_desc_def gemm_desc_eq_def z)
qed (simp_all add: gemm_desc_canonical_def)

text \<open>
  Defect: on descriptors that are not canonical the hash sees more than the comparison. An entry
  of \<open>inner_idxs\<close> behind the used ones, which the comparison ignores, changes the hash, and so
  does the size of a Winograd descriptor.
\<close>

lemma hash_all_last: "v \<noteq> w \<Longrightarrow> hash_all s (vs @ [v]) \<noteq> hash_all s (vs @ [w])"
proof -
  have "a = b" if "c XOR a = c XOR (b :: u64)" for a b c
  proof -
    have "c XOR (c XOR a) = c XOR (c XOR b)" by (simp only: that)
    then show ?thesis by (simp only: bit.xor_left_self)
  qed
  moreover have "hash_all s (vs @ [x]) = hash_all s vs XOR
      (x + (0x9e3779b9 + push_bit 6 (hash_all s vs) + drop_bit 2 (hash_all s vs)))" for x
    by (simp only: hash_all_def hash_combine_def foldl_append foldl_Cons foldl_Nil add.assoc)
  ultimately show "v \<noteq> w \<Longrightarrow> hash_all s (vs @ [v]) \<noteq> hash_all s (vs @ [w])"
    by (metis add_right_cancel)
qed

lemma equal_blocked_different_hash:
  "\<exists>a b. memory_desc_eq a b \<and> get_md_hash plain_hash a \<noteq> get_md_hash plain_hash b"
proof (intro exI conjI)
  let ?md = "\<lambda>ix. zero_md\<lparr>md_ndims := 1, md_format_kind := fk_blocked, blocking := zero_blocking_desc\<lparr>inner_idxs := ix\<rparr>\<rparr>"
  let ?ix = "(\<lambda>_. 0)(11 := 1) :: nat carray"
  show "memory_desc_eq (?md (\<lambda>_. 0)) (?md ?ix)"
    by (simp add: memory_desc_eq_def memory_desc_base_equal_def zero_md_def array_cmp_iff
        memory_extra_desc_is_equal_def format_desc_is_equal_def blocking_desc_is_equal_def zero_blocking_desc_def)
  have "[0..<12] = [0..<11] @ [11::nat]" by (simp add: upt_rec)
  then have d: "dims_hashes plain_hash a = map (\<lambda>i. of_int (a i)) [0..<11] @ [of_int (a 11)]" for a
    by (simp add: dims_hashes_def plain_hash_def)
  let ?pre = "dims_hashes plain_hash (md_dims zero_md) @ [h_size plain_hash (of_nat (data_type_val (md_data_type zero_md)))] @
      dims_hashes plain_hash (padded_dims zero_md) @ dims_hashes plain_hash (padded_offsets zero_md) @
      [h_dim plain_hash (offset0 zero_md)] @ [h_size plain_hash 2] @
      dims_hashes plain_hash (\<lambda>_. 0) @ [h_int plain_hash 0] @ dims_hashes plain_hash (\<lambda>_. 0) @ replicate 11 0"
  have h: "get_md_hash plain_hash (?md ix) = hash_all 0 (?pre @ [of_nat (ix 11)])"
    if "\<forall>i<11. ix i = 0" for ix
  proof -
    have "map (\<lambda>i. of_int (int (ix i))) [0..<11] = (replicate 11 0 :: u64 list)"
      using that by (intro nth_equalityI) simp_all
    then have "dims_hashes plain_hash (\<lambda>i. int (ix i)) = replicate 11 0 @ [of_nat (ix 11)]" by (simp only: d) simp
    then show ?thesis
      by (simp add: get_md_hash_def format_desc_hashes_def extra_hashes_def zero_md_def zero_blocking_desc_def)
  qed
  have "hash_all 0 (?pre @ [of_nat 0]) \<noteq> hash_all 0 (?pre @ [of_nat 1])" by (rule hash_all_last) simp
  moreover have "get_md_hash plain_hash (?md (\<lambda>_. 0)) = hash_all 0 (?pre @ [of_nat 0])"
    by (rule h [of "\<lambda>_. 0"]) simp
  moreover have "get_md_hash plain_hash (?md ?ix) = hash_all 0 (?pre @ [of_nat 1])"
    using h [of ?ix] by simp
  ultimately show "get_md_hash plain_hash (?md (\<lambda>_. 0)) \<noteq> get_md_hash plain_hash (?md ?ix)" by metis
qed

lemma equal_wino_different_hash:
  "\<exists>a b. memory_desc_eq a b \<and> get_md_hash plain_hash a \<noteq> get_md_hash plain_hash b"
proof (intro exI conjI)
  let ?md = "\<lambda>n. zero_md\<lparr>md_ndims := 1, md_format_kind := fk_wino, wino := zero_wino_desc\<lparr>wino_size := n\<rparr>\<rparr>"
  show "memory_desc_eq (?md 0) (?md 1)"
    by (simp add: memory_desc_eq_def memory_desc_base_equal_def zero_md_def array_cmp_iff
        memory_extra_desc_is_equal_def format_desc_is_equal_def wino_desc_is_equal_def zero_wino_desc_def)
  have "\<exists>vs. \<forall>n. get_md_hash plain_hash (?md n) = hash_all 0 (vs @ [n])"
    by (simp add: get_md_hash_def format_desc_hashes_def extra_hashes_def zero_md_def zero_wino_desc_def)
      (auto simp: plain_hash_def intro!: exI arg_cong [where f = "hash_all 0"])
  then show "get_md_hash plain_hash (?md 0) \<noteq> get_md_hash plain_hash (?md 1)"
    using hash_all_last by (metis zero_neq_one)
qed

lemma init_by_tag_canonical:
  assumes r: "dnnl_memory_desc_init_by_tag nd (Some dims) dt tag = (success, Some md)"
  shows "md_canonical md"
proof (cases "nd = 0")
  case True
  then show ?thesis using r zero_md_canonical by (simp add: dnnl_memory_desc_init_by_tag_def)
next
  case nd: False
  show ?thesis
  proof (cases tag)
    case ft_undef
    then show ?thesis using r zero_md_canonical by (simp add: dnnl_memory_desc_init_by_tag_def)
  next
    case ft_any
    then have "md = fresh_md nd dims dt fk_any"
      using r nd by (simp add: dnnl_memory_desc_init_by_tag_def split: if_splits)
    moreover have "md_ndims (fresh_md nd dims dt fk_any) = nd" "md_format_kind (fresh_md nd dims dt fk_any) = fk_any"
      by (simp_all add: fresh_md_def)
    ultimately show ?thesis
      using nd fresh_md_tails [of nd _ dims dt fk_any]
      by (simp add: md_canonical_def fresh_md_def zero_md_def zero_blocking_desc_def array_copy_eq)
  next
    case ft_last
    then show ?thesis
      using r nd by (auto simp: dnnl_memory_desc_init_by_tag_def memory_desc_sanity_check_def split: if_splits)
  next
    case (Tag name)
    then obtain perm blks ixs ds where t: "map_of blocking_table name = Some (perm, blks, ixs)"
      "fill_blocked (fresh_md nd ds dt fk_blocked) perm blks ixs = (success, md)" "nd = int (length perm)"
      using init_by_tag_cases r nd by metis
    then show ?thesis using fill_blocked_canonical [OF t(2) tag_row [OF t(1)] t(3) nd] by simp
  qed
qed

lemma init_by_strides_canonical:
  assumes r: "dnnl_memory_desc_init_by_strides nd (Some dims) dt strides = (success, Some md)"
  shows "md_canonical md"
proof (cases "nd = 0")
  case True
  then show ?thesis using r zero_md_canonical by (simp add: dnnl_memory_desc_init_by_strides_def)
next
  case False
  then show ?thesis
    using r by (auto simp: dnnl_memory_desc_init_by_strides_def md_canonical_def fresh_md_def zero_md_def
        zero_blocking_desc_def array_copy_eq ndims_def Let_def split: if_splits)
qed

text \<open>
  C36: every descriptor the tag and the stride constructors make is canonical, so keys built from
  them hash consistently.
\<close>

theorem made_descriptors_canonical:
  "(dnnl_memory_desc_init_by_tag nd (Some dims) dt tag = (success, Some md) \<longrightarrow> md_canonical md) \<and>
   (dnnl_memory_desc_init_by_strides nd (Some dims) dt strides = (success, Some md) \<longrightarrow> md_canonical md)"
  using init_by_tag_canonical init_by_strides_canonical by blast

theorem made_descriptors_canonical_witness:
  "\<exists>md. dnnl_memory_desc_init_by_tag 4 (Some (arr [2, 17, 3, 5])) f32 (Tag ''aBcd16b'') = (success, Some md) \<and>
     md_canonical md"
proof -
  obtain md where md: "dnnl_memory_desc_init_by_tag 4 (Some (arr [2, 17, 3, 5])) f32 (Tag ''aBcd16b'') = (success, Some md)"
    by (rule nChw16c_example)
  then show ?thesis using made_descriptors_canonical [of 4 "arr [2, 17, 3, 5]" f32 "Tag ''aBcd16b''" md None] by blast
qed

end
