(* ===== verification/Op_Desc.thy ===== *)
theory Op_Desc
  imports Op_Types Memory_Api
begin

text \<open>
  Descriptors of the operations with spatial windows and of the inner product:
  \<open>convolution.cpp\<close>, \<open>deconvolution.cpp\<close>, \<open>pooling.cpp\<close> and \<open>inner_product.cpp\<close> of
  \<open>src/src/common\<close>. A null pointer is \<open>None\<close>; the pointer the descriptor is written to is valid.
  The checks compute in \<open>int\<close> after truncating the 64-bit extents; that arithmetic is unbounded
  here (an overflow would be undefined in the code).
\<close>

section \<open>Outcomes\<close>

text \<open>What an initialiser does: undefined behaviour, an error status, or a descriptor written.\<close>

datatype 'd init_result = Undefined | Fails status | Writes 'd

definition writes :: "'d init_result \<Rightarrow> bool" where
  "writes r \<longleftrightarrow> (\<exists>d. r = Writes d)"

lemma writes_simps [simp]: "writes (Writes d)" "\<not> writes Undefined" "\<not> writes (Fails s)"
  by (simp_all add: writes_def)

text \<open>
  \<open>array_copy\<close> to a \<open>dims_t\<close> with an \<open>int\<close> count converts a negative count to a huge \<open>size_t\<close>;
  outside 0 to 12 it writes behind the array.
\<close>

definition copy_count_ok :: "int \<Rightarrow> bool" where
  "copy_count_ok n \<longleftrightarrow> 0 \<le> n \<and> n \<le> int DNNL_MAX_NDIMS"

definition is_fwd_kind :: "prop_kind \<Rightarrow> bool" where
  "is_fwd_kind prop \<longleftrightarrow> prop \<in> {forward_training, forward_inference}"

definition has_bias :: "memory_desc option \<Rightarrow> bool" where
  "has_bias bias = (case bias of None \<Rightarrow> False | Some b \<Rightarrow> md_format_kind b \<noteq> fk_undef)"

definition groups_shift :: "memory_desc \<Rightarrow> memory_desc \<Rightarrow> nat" where
  "groups_shift src weights = (if md_ndims weights = md_ndims src + 1 then 1 else 0)"

section \<open>Convolution\<close>

text \<open>
  The part of \<open>conv_desc_init\<close> and \<open>deconv_desc_init\<close> that fills the descriptor (the code of the
  two is the same): which field a memory descriptor goes to depends on the propagation kind.
\<close>

definition conv_fill :: "primitive_kind \<Rightarrow> prop_kind \<Rightarrow> alg_kind \<Rightarrow> memory_desc \<Rightarrow> memory_desc \<Rightarrow>
    memory_desc option \<Rightarrow> memory_desc \<Rightarrow> dim_t carray \<Rightarrow> dim_t carray option \<Rightarrow> dim_t carray \<Rightarrow>
    dim_t carray \<Rightarrow> convolution_desc" where
  "conv_fill kind prop alg src weights bias dst strides dilates pad_l pad_r =
     (let cd = zero_convolution_desc\<lparr>cd_primitive_kind := kind, cd_prop_kind := prop, cd_alg_kind := alg\<rparr>;
          cd = (if prop = backward_data then cd\<lparr>cd_diff_src_desc := src\<rparr> else cd\<lparr>cd_src_desc := src\<rparr>);
          cd = (if is_fwd_kind prop then cd\<lparr>cd_dst_desc := dst\<rparr> else cd\<lparr>cd_diff_dst_desc := dst\<rparr>);
          cd = (if prop = backward_weights then cd\<lparr>cd_diff_weights_desc := weights\<rparr>
                else cd\<lparr>cd_weights_desc := weights\<rparr>);
          cd = (if has_bias bias
                then (if prop = backward_weights then cd\<lparr>cd_diff_bias_desc := the bias\<rparr>
                      else cd\<lparr>cd_bias_desc := the bias\<rparr>)
                else cd);
          sp_dims = nat (md_ndims src - 2)
      in cd\<lparr>cd_strides := array_copy (cd_strides cd) strides sp_dims,
            cd_padding_l := array_copy (cd_padding_l cd) pad_l sp_dims,
            cd_padding_r := array_copy (cd_padding_r cd) pad_r sp_dims,
            cd_dilates := (case dilates of
                Some ds \<Rightarrow> array_copy (cd_dilates cd) ds sp_dims
              | None \<Rightarrow> array_set (cd_dilates cd) 0 sp_dims),
            cd_accum_data_type := default_accum_data_type (md_data_type src) (md_data_type weights)
              (md_data_type dst) prop\<rparr>)"

text \<open>The consistency of everything but the spatial extents.\<close>

definition conv_channels_ok :: "prop_kind \<Rightarrow> memory_desc \<Rightarrow> memory_desc \<Rightarrow> memory_desc option \<Rightarrow> memory_desc \<Rightarrow> bool" where
  "conv_channels_ok prop src weights bias dst \<longleftrightarrow>
     (let wg = groups_shift src weights;
          g = (if wg = 1 then int32_cast (md_dims weights 0) else 1);
          bias_dim = int32_cast (if prop = backward_data then md_dims src 1 else md_dims dst 1)
      in nelems weights False \<noteq> 0 \<and> md_ndims src = md_ndims dst \<and> md_ndims src \<in> {3, 4, 5} \<and>
         md_ndims weights \<in> {md_ndims src, md_ndims src + 1} \<and>
         (has_bias bias \<longrightarrow> md_ndims (the bias) = 1) \<and>
         (has_bias bias \<longrightarrow> md_dims (the bias) 0 = bias_dim) \<and>
         md_dims src 0 = md_dims dst 0 \<and>
         md_dims src 1 = g * md_dims weights (wg + 1) \<and>
         md_dims dst 1 = g * md_dims weights (wg + 0))"

text \<open>
  One turn of the spatial loop; \<open>None\<close> is the early return on a stride below 1.
\<close>

definition conv_spatial_step :: "memory_desc \<Rightarrow> memory_desc \<Rightarrow> memory_desc \<Rightarrow> dim_t carray \<Rightarrow> dim_t carray \<Rightarrow>
    dim_t carray \<Rightarrow> dim_t carray \<Rightarrow> nat \<Rightarrow> bool option \<Rightarrow> bool option" where
  "conv_spatial_step src weights dst strides dilates pad_l pad_r i st =
     (case st of None \<Rightarrow> None
      | Some consistency \<Rightarrow>
          let s = int32_cast (md_dims src i);
              ker = int32_cast (md_dims weights (groups_shift src weights + i));
              dil = int32_cast (dilates (i - 2));
              pl = int32_cast (pad_l (i - 2));
              pr = int32_cast (pad_r (i - 2));
              str = int32_cast (strides (i - 2));
              d = int32_cast (md_dims dst i);
              ker_range = 1 + (ker - 1) * (dil + 1)
          in if str < 1 then None
             else Some (consistency \<and> dil \<ge> 0 \<and> pl \<ge> 0 \<and> pr + str > 0 \<and>
               (s - ker_range + pl + pr) sdiv str + 1 = d))"

definition conv_desc_init :: "prop_kind \<Rightarrow> alg_kind \<Rightarrow> memory_desc option \<Rightarrow> memory_desc option \<Rightarrow>
    memory_desc option \<Rightarrow> memory_desc option \<Rightarrow> dim_t carray option \<Rightarrow> dim_t carray option \<Rightarrow>
    dim_t carray option \<Rightarrow> dim_t carray option \<Rightarrow> convolution_desc init_result" where
  "conv_desc_init prop alg src weights bias dst strides dilates pad_l pad_r =
     (if src = None \<or> weights = None \<or> dst = None \<or> strides = None \<or> pad_l = None \<or>
         alg \<notin> {convolution_auto, convolution_direct, convolution_winograd}
      then Fails invalid_arguments
      else
        let src = the src; weights = the weights; dst = the dst; strides = the strides;
            pad_r = (case pad_r of None \<Rightarrow> the pad_l | Some p \<Rightarrow> p); pad_l = the pad_l
        in if \<not> copy_count_ok (md_ndims src - 2) then Undefined
           else
             let cd = conv_fill pk_convolution prop alg src weights bias dst strides dilates pad_l pad_r
             in case for_range 2 (ndims src)
                  (conv_spatial_step src weights dst strides (cd_dilates cd) pad_l pad_r)
                  (Some (conv_channels_ok prop src weights bias dst)) of
                  None \<Rightarrow> Fails invalid_arguments
                | Some False \<Rightarrow> Fails invalid_arguments
                | Some True \<Rightarrow> Writes cd)"

definition dnnl_convolution_forward_desc_init where
  "dnnl_convolution_forward_desc_init prop alg src weights bias dst strides pad_l pad_r =
     (if prop \<notin> {forward_training, forward_inference} then Fails invalid_arguments
      else conv_desc_init prop alg src weights bias dst strides None pad_l pad_r)"

definition dnnl_dilated_convolution_forward_desc_init where
  "dnnl_dilated_convolution_forward_desc_init prop alg src weights bias dst strides dilates pad_l pad_r =
     (if prop \<notin> {forward_training, forward_inference} then Fails invalid_arguments
      else conv_desc_init prop alg src weights bias dst strides dilates pad_l pad_r)"

definition dnnl_convolution_backward_data_desc_init where
  "dnnl_convolution_backward_data_desc_init alg diff_src weights diff_dst strides pad_l pad_r =
     conv_desc_init backward_data alg diff_src weights None diff_dst strides None pad_l pad_r"

definition dnnl_dilated_convolution_backward_data_desc_init where
  "dnnl_dilated_convolution_backward_data_desc_init alg diff_src weights diff_dst strides dilates pad_l pad_r =
     conv_desc_init backward_data alg diff_src weights None diff_dst strides dilates pad_l pad_r"

definition dnnl_convolution_backward_weights_desc_init where
  "dnnl_convolution_backward_weights_desc_init alg src diff_weights diff_bias diff_dst strides pad_l pad_r =
     conv_desc_init backward_weights alg src diff_weights diff_bias diff_dst strides None pad_l pad_r"

definition dnnl_dilated_convolution_backward_weights_desc_init where
  "dnnl_dilated_convolution_backward_weights_desc_init alg src diff_weights diff_bias diff_dst strides dilates
     pad_l pad_r =
     conv_desc_init backward_weights alg src diff_weights diff_bias diff_dst strides dilates pad_l pad_r"

section \<open>Deconvolution\<close>

definition deconv_channels_ok :: "memory_desc \<Rightarrow> memory_desc \<Rightarrow> memory_desc option \<Rightarrow> memory_desc \<Rightarrow> bool" where
  "deconv_channels_ok src weights bias dst \<longleftrightarrow>
     (let wg = groups_shift src weights;
          g = (if wg = 1 then int32_cast (md_dims weights 0) else 1)
      in md_ndims src = md_ndims dst \<and> md_ndims src \<in> {3, 4, 5} \<and>
         md_ndims weights \<in> {md_ndims src, md_ndims src + 1} \<and>
         (has_bias bias \<longrightarrow> md_ndims (the bias) = 1) \<and>
         (has_bias bias \<longrightarrow> md_dims (the bias) 0 = md_dims dst 1) \<and>
         md_dims src 0 = md_dims dst 0 \<and>
         md_dims src 1 = g * md_dims weights (wg + 1) \<and>
         md_dims dst 1 = g * md_dims weights (wg + 0))"

text \<open>
  One turn of the spatial loop; \<open>&&\<close> divides only while the result is still open, and a stride
  of 0 is then a division by zero (\<open>None\<close>).
\<close>

definition deconv_spatial_step :: "memory_desc \<Rightarrow> memory_desc \<Rightarrow> memory_desc \<Rightarrow> dim_t carray \<Rightarrow> dim_t carray \<Rightarrow>
    dim_t carray \<Rightarrow> dim_t carray \<Rightarrow> nat \<Rightarrow> bool option \<Rightarrow> bool option" where
  "deconv_spatial_step src weights dst strides dilates pad_l pad_r i st =
     (case st of None \<Rightarrow> None
      | Some consistency \<Rightarrow>
          let s = int32_cast (md_dims src i);
              ker = int32_cast (md_dims weights (groups_shift src weights + i));
              dil = int32_cast (dilates (i - 2));
              pad = int32_cast (pad_l (i - 2) + pad_r (i - 2));
              str = int32_cast (strides (i - 2));
              d = int32_cast (md_dims dst i);
              ker_range = 1 + (ker - 1) * (dil + 1)
          in if \<not> consistency then Some False
             else if str = 0 then None
             else Some ((d - ker_range + pad) sdiv str + 1 = s))"

definition deconv_desc_init :: "prop_kind \<Rightarrow> alg_kind \<Rightarrow> memory_desc option \<Rightarrow> memory_desc option \<Rightarrow>
    memory_desc option \<Rightarrow> memory_desc option \<Rightarrow> dim_t carray option \<Rightarrow> dim_t carray option \<Rightarrow>
    dim_t carray option \<Rightarrow> dim_t carray option \<Rightarrow> convolution_desc init_result" where
  "deconv_desc_init prop alg src weights bias dst strides dilates pad_l pad_r =
     (if src = None \<or> weights = None \<or> dst = None \<or> strides = None \<or> pad_l = None \<or>
         alg \<notin> {deconvolution_direct, deconvolution_winograd}
      then Fails invalid_arguments
      else
        let src = the src; weights = the weights; dst = the dst; strides = the strides;
            pad_r = (case pad_r of None \<Rightarrow> the pad_l | Some p \<Rightarrow> p); pad_l = the pad_l
        in if \<not> copy_count_ok (md_ndims src - 2) then Undefined
           else
             let dd = conv_fill pk_deconvolution prop alg src weights bias dst strides dilates pad_l pad_r
             in case for_range 2 (ndims src)
                  (deconv_spatial_step src weights dst strides (cd_dilates dd) pad_l pad_r)
                  (Some (deconv_channels_ok src weights bias dst)) of
                  None \<Rightarrow> Undefined
                | Some False \<Rightarrow> Fails invalid_arguments
                | Some True \<Rightarrow> Writes dd)"

definition dnnl_deconvolution_forward_desc_init where
  "dnnl_deconvolution_forward_desc_init prop alg src weights bias dst strides pad_l pad_r =
     (if prop \<notin> {forward_training, forward_inference} then Fails invalid_arguments
      else deconv_desc_init prop alg src weights bias dst strides None pad_l pad_r)"

definition dnnl_dilated_deconvolution_forward_desc_init where
  "dnnl_dilated_deconvolution_forward_desc_init prop alg src weights bias dst strides dilates pad_l pad_r =
     (if prop \<notin> {forward_training, forward_inference} then Fails invalid_arguments
      else deconv_desc_init prop alg src weights bias dst strides dilates pad_l pad_r)"

definition dnnl_deconvolution_backward_data_desc_init where
  "dnnl_deconvolution_backward_data_desc_init alg diff_src weights diff_dst strides pad_l pad_r =
     deconv_desc_init backward_data alg diff_src weights None diff_dst strides None pad_l pad_r"

definition dnnl_dilated_deconvolution_backward_data_desc_init where
  "dnnl_dilated_deconvolution_backward_data_desc_init alg diff_src weights diff_dst strides dilates pad_l pad_r =
     deconv_desc_init backward_data alg diff_src weights None diff_dst strides dilates pad_l pad_r"

definition dnnl_deconvolution_backward_weights_desc_init where
  "dnnl_deconvolution_backward_weights_desc_init alg src diff_weights diff_bias diff_dst strides pad_l pad_r =
     deconv_desc_init backward_weights alg src diff_weights diff_bias diff_dst strides None pad_l pad_r"

definition dnnl_dilated_deconvolution_backward_weights_desc_init where
  "dnnl_dilated_deconvolution_backward_weights_desc_init alg src diff_weights diff_bias diff_dst strides dilates
     pad_l pad_r =
     deconv_desc_init backward_weights alg src diff_weights diff_bias diff_dst strides dilates pad_l pad_r"

section \<open>Pooling\<close>

definition pool_fill :: "prop_kind \<Rightarrow> alg_kind \<Rightarrow> memory_desc \<Rightarrow> memory_desc \<Rightarrow> dim_t carray \<Rightarrow> dim_t carray \<Rightarrow>
    dim_t carray \<Rightarrow> dim_t carray \<Rightarrow> pooling_desc" where
  "pool_fill prop alg src dst strides krn pad_l pad_r =
     (let pd = zero_pooling_desc\<lparr>pl_primitive_kind := pk_pooling, pl_prop_kind := prop, pl_alg_kind := alg\<rparr>;
          pd = (if is_fwd_kind prop then pd\<lparr>pl_src_desc := src\<rparr> else pd\<lparr>pl_diff_src_desc := src\<rparr>);
          pd = (if is_fwd_kind prop then pd\<lparr>pl_dst_desc := dst\<rparr> else pd\<lparr>pl_diff_dst_desc := dst\<rparr>);
          sp_dims = nat (md_ndims src - 2)
      in pd\<lparr>pl_strides := array_copy (pl_strides pd) strides sp_dims,
            pl_kernel := array_copy (pl_kernel pd) krn sp_dims,
            pl_padding_l := array_copy (pl_padding_l pd) pad_l sp_dims,
            pl_padding_r := array_copy (pl_padding_r pd) pad_r sp_dims,
            pl_accum_data_type :=
              (if alg \<in> {pooling_max, pooling_avg_include_padding, pooling_avg_exclude_padding}
               then default_accum_data_type2 (md_data_type src) (md_data_type dst)
               else md_data_type dst)\<rparr>)"

definition pool_spatial_step :: "alg_kind \<Rightarrow> memory_desc \<Rightarrow> memory_desc \<Rightarrow> dim_t carray \<Rightarrow> dim_t carray \<Rightarrow>
    dim_t carray \<Rightarrow> dim_t carray \<Rightarrow> nat \<Rightarrow> bool option \<Rightarrow> bool option" where
  "pool_spatial_step alg src dst strides krn pad_l pad_r i st =
     (case st of None \<Rightarrow> None
      | Some consistency \<Rightarrow>
          if \<not> consistency then Some False
          else if strides (i - 2) = 0 then None
          else
            let consistency = ((md_dims src i - krn (i - 2) + pad_l (i - 2) + pad_r (i - 2)) sdiv strides (i - 2) + 1
                  = md_dims dst i)
            in Some (if alg = pooling_avg_exclude_padding
                 then consistency \<and> pad_l (i - 2) < krn (i - 2) \<and> pad_r (i - 2) < krn (i - 2)
                 else consistency))"

definition pooling_desc_init :: "prop_kind \<Rightarrow> alg_kind \<Rightarrow> memory_desc option \<Rightarrow> memory_desc option \<Rightarrow>
    dim_t carray option \<Rightarrow> dim_t carray option \<Rightarrow> dim_t carray option \<Rightarrow> dim_t carray option \<Rightarrow>
    pooling_desc init_result" where
  "pooling_desc_init prop alg src dst strides krn pad_l pad_r =
     (if src = None \<or> dst = None \<or> strides = None \<or> krn = None \<or> pad_l = None \<or>
         alg \<notin> {pooling_max, pooling_avg_include_padding, pooling_avg_exclude_padding}
      then Fails invalid_arguments
      else
        let src = the src; dst = the dst; strides = the strides; krn = the krn;
            pad_r = (case pad_r of None \<Rightarrow> the pad_l | Some p \<Rightarrow> p); pad_l = the pad_l
        in if \<not> copy_count_ok (md_ndims src - 2) then Undefined
           else
             let pd = pool_fill prop alg src dst strides krn pad_l pad_r
             in case for_range 2 (ndims src) (pool_spatial_step alg src dst strides krn pad_l pad_r)
                  (Some (md_ndims src \<in> {3, 4, 5} \<and> md_ndims dst \<in> {3, 4, 5} \<and>
                     md_dims src 0 = md_dims dst 0 \<and> md_dims src 1 = md_dims dst 1)) of
                  None \<Rightarrow> Undefined
                | Some False \<Rightarrow> Fails invalid_arguments
                | Some True \<Rightarrow> Writes pd)"

definition dnnl_pooling_forward_desc_init where
  "dnnl_pooling_forward_desc_init prop alg src dst strides krn pad_l pad_r =
     (if prop \<notin> {forward_training, forward_inference} then Fails invalid_arguments
      else pooling_desc_init prop alg src dst strides krn pad_l pad_r)"

definition dnnl_pooling_backward_desc_init where
  "dnnl_pooling_backward_desc_init alg diff_src diff_dst strides krn pad_l pad_r =
     pooling_desc_init backward_data alg diff_src diff_dst strides krn pad_l pad_r"

section \<open>Inner product\<close>

definition ip_fill :: "prop_kind \<Rightarrow> memory_desc \<Rightarrow> memory_desc \<Rightarrow> memory_desc option \<Rightarrow> memory_desc \<Rightarrow>
    inner_product_desc" where
  "ip_fill prop src weights bias dst =
     (let d = zero_inner_product_desc\<lparr>ipd_primitive_kind := pk_inner_product, ipd_prop_kind := prop\<rparr>;
          d = (if prop = backward_data then d\<lparr>ipd_diff_src_desc := src\<rparr> else d\<lparr>ipd_src_desc := src\<rparr>);
          d = (if is_fwd_kind prop then d\<lparr>ipd_dst_desc := dst\<rparr> else d\<lparr>ipd_diff_dst_desc := dst\<rparr>);
          d = (if prop = backward_weights then d\<lparr>ipd_diff_weights_desc := weights\<rparr>
               else d\<lparr>ipd_weights_desc := weights\<rparr>);
          d = (if has_bias bias
               then (if prop = backward_weights then d\<lparr>ipd_diff_bias_desc := the bias\<rparr>
                     else d\<lparr>ipd_bias_desc := the bias\<rparr>)
               else d)
      in d\<lparr>ipd_accum_data_type := default_accum_data_type (md_data_type src) (md_data_type weights)
             (md_data_type dst) prop\<rparr>)"

definition ip_desc_init :: "prop_kind \<Rightarrow> memory_desc option \<Rightarrow> memory_desc option \<Rightarrow> memory_desc option \<Rightarrow>
    memory_desc option \<Rightarrow> inner_product_desc init_result" where
  "ip_desc_init prop src weights bias dst =
     (case (src, weights, dst) of
        (Some src, Some weights, Some dst) \<Rightarrow>
          (if nelems weights False \<noteq> 0 \<and> md_ndims src \<in> {2, 3, 4, 5} \<and> md_ndims dst = 2 \<and>
              md_ndims weights = md_ndims src \<and>
              (has_bias bias \<longrightarrow> md_ndims (the bias) = 1) \<and>
              (has_bias bias \<longrightarrow> md_dims (the bias) 0 = md_dims dst 1) \<and>
              md_dims src 0 = md_dims dst 0 \<and>
              array_cmp (from_index 1 (md_dims src)) (from_index 1 (md_dims weights)) (nat (md_ndims src - 1)) \<and>
              md_dims dst 1 = md_dims weights 0
           then Writes (ip_fill prop src weights bias dst)
           else Fails invalid_arguments)
      | _ \<Rightarrow> Fails invalid_arguments)"

definition dnnl_inner_product_forward_desc_init where
  "dnnl_inner_product_forward_desc_init prop src weights bias dst =
     (if prop \<notin> {forward_training, forward_inference} then Fails invalid_arguments
      else ip_desc_init prop src weights bias dst)"

definition dnnl_inner_product_backward_data_desc_init where
  "dnnl_inner_product_backward_data_desc_init diff_src weights diff_dst =
     ip_desc_init backward_data diff_src weights None diff_dst"

definition dnnl_inner_product_backward_weights_desc_init where
  "dnnl_inner_product_backward_weights_desc_init src diff_weights diff_bias diff_dst =
     ip_desc_init backward_weights src diff_weights diff_bias diff_dst"

section \<open>The loops over the spatial dimensions\<close>

text \<open>
  All three loops accumulate a conjunction and may stop; they succeed exactly if every turn, run
  on its own, does.
\<close>

lemma for_range_accumulates:
  assumes "\<And>i. f i None = None" "\<And>i. f i (Some False) \<noteq> Some True"
  shows "for_range lo hi f (Some c) = Some True \<longleftrightarrow> c \<and> (\<forall>i\<in>{lo..<hi}. f i (Some True) = Some True)"
proof (cases "lo \<le> hi")
  case True
  have stuck: "for_range lo n f (Some c) = Some True" if "f n (for_range lo n f (Some c)) = Some True" for n
    using that assms by (cases "for_range lo n f (Some c)") (auto, metis (full_types))
  from True show ?thesis
  proof (induction hi rule: dec_induct)
    case (step n)
    then show ?case
      using stuck [of n] by (auto simp: for_range_Suc atLeastLessThanSuc)
  qed auto
qed auto

text \<open>The division by the stride, when the window fits and when it does not.\<close>

lemma window_positions:
  fixes str :: int
  assumes "0 < str" "0 \<le> x" "x sdiv str + 1 = d"
  shows "{0..<d} = {j. 0 \<le> j \<and> j * str \<le> x}"
proof -
  have d: "d = x div str + 1" using assms by (simp add: cdiv_simps)
  have "j < d \<longleftrightarrow> j * str \<le> x" for j
  proof -
    have "j * str \<le> x" if "j \<le> x div str"
      using mult_right_mono [OF that, of str] assms(1) minus_mod_eq_div_mult [of x str]
        pos_mod_sign [OF assms(1), of x] by linarith
    moreover have "j \<le> x div str" if "j * str \<le> x"
      using zdiv_mono1 [OF that assms(1)] assms(1) by simp
    ultimately show ?thesis by (auto simp: d)
  qed
  then show ?thesis by (simp only: set_eq_iff mem_Collect_eq atLeastLessThan_iff) simp
qed

definition int32_ok :: "int \<Rightarrow> bool" where
  "int32_ok x \<longleftrightarrow> - (2 ^ 31) \<le> x \<and> x < 2 ^ 31"

lemma int32_cast_ok [simp]: "int32_ok x \<Longrightarrow> int32_cast x = x"
  by (simp add: int32_ok_def int32_cast_def signed_take_bit_int_eq_self_iff)

lemma array_copy_nth [simp]: "k < n \<Longrightarrow> array_copy a b n k = b k"
  by (simp add: array_copy_eq)

lemma array_set_nth [simp]: "k < n \<Longrightarrow> array_set a v n k = v"
  by (simp add: array_set_eq)

definition dilation :: "dim_t carray option \<Rightarrow> dim_t carray" where
  "dilation dilates k = (case dilates of None \<Rightarrow> 0 | Some ds \<Rightarrow> ds k)"

lemma conv_fill_window:
  assumes "i \<in> {2..<ndims src}"
    and cd_def: "cd = conv_fill kind prop alg src weights bias dst strides dilates pad_l pad_r"
  shows "cd_strides cd (i - 2) = strides (i - 2)" "cd_padding_l cd (i - 2) = pad_l (i - 2)"
    "cd_padding_r cd (i - 2) = pad_r (i - 2)" "cd_dilates cd (i - 2) = dilation dilates (i - 2)"
proof -
  have "i - 2 < nat (md_ndims src - 2)" using assms(1) by (auto simp: ndims_def)
  then show "cd_strides cd (i - 2) = strides (i - 2)" "cd_padding_l cd (i - 2) = pad_l (i - 2)"
    "cd_padding_r cd (i - 2) = pad_r (i - 2)" "cd_dilates cd (i - 2) = dilation dilates (i - 2)"
    by (simp_all add: cd_def conv_fill_def Let_def dilation_def split: option.split)
qed

section \<open>What convolution accepts\<close>

text \<open>The extents the checks of dimension \<open>i\<close> truncate to \<open>int\<close> fit.\<close>

definition window_in_range :: "memory_desc \<Rightarrow> memory_desc \<Rightarrow> memory_desc \<Rightarrow> dim_t carray \<Rightarrow> dim_t carray \<Rightarrow>
    dim_t carray \<Rightarrow> dim_t carray \<Rightarrow> nat \<Rightarrow> bool" where
  "window_in_range src weights dst strides dil pad_l pad_r i \<longleftrightarrow>
     list_all int32_ok [md_dims src i, md_dims weights (groups_shift src weights + i), md_dims dst i,
       strides (i - 2), dil (i - 2), pad_l (i - 2), pad_r (i - 2), pad_l (i - 2) + pad_r (i - 2)]"

text \<open>The extent of a window of dimension \<open>i\<close>: the dilated kernel.\<close>

definition ker_range :: "memory_desc \<Rightarrow> memory_desc \<Rightarrow> dim_t carray \<Rightarrow> nat \<Rightarrow> int" where
  "ker_range src weights dil i = 1 + (md_dims weights (groups_shift src weights + i) - 1) * (dil (i - 2) + 1)"

definition conv_window_ok :: "memory_desc \<Rightarrow> memory_desc \<Rightarrow> memory_desc \<Rightarrow> dim_t carray \<Rightarrow> dim_t carray \<Rightarrow>
    dim_t carray \<Rightarrow> dim_t carray \<Rightarrow> nat \<Rightarrow> bool" where
  "conv_window_ok src weights dst strides dil pad_l pad_r i \<longleftrightarrow>
     1 \<le> strides (i - 2) \<and> 0 \<le> dil (i - 2) \<and> 0 \<le> pad_l (i - 2) \<and> 0 < pad_r (i - 2) + strides (i - 2) \<and>
     (md_dims src i - ker_range src weights dil i + pad_l (i - 2) + pad_r (i - 2)) sdiv strides (i - 2) + 1 =
       md_dims dst i"

lemma conv_spatial_step_True:
  "window_in_range src weights dst strides dil pad_l pad_r i \<Longrightarrow>
    conv_spatial_step src weights dst strides dil pad_l pad_r i (Some True) = Some True \<longleftrightarrow>
    conv_window_ok src weights dst strides dil pad_l pad_r i"
  by (auto simp: conv_spatial_step_def Let_def window_in_range_def conv_window_ok_def ker_range_def)

lemma conv_loop:
  assumes "\<And>i. i \<in> {2..<n} \<Longrightarrow> window_in_range src weights dst strides dil pad_l pad_r i"
  shows "for_range 2 n (conv_spatial_step src weights dst strides dil pad_l pad_r) (Some c) = Some True \<longleftrightarrow>
    c \<and> (\<forall>i\<in>{2..<n}. conv_window_ok src weights dst strides dil pad_l pad_r i)"
proof -
  have "conv_spatial_step src weights dst strides dil pad_l pad_r i (Some False) \<noteq> Some True" for i
    by (simp add: conv_spatial_step_def Let_def)
  moreover have "conv_spatial_step src weights dst strides dil pad_l pad_r i None = None" for i
    by (simp add: conv_spatial_step_def)
  ultimately show ?thesis
    using assms by (simp add: for_range_accumulates conv_spatial_step_True)
qed

definition right_padding :: "dim_t carray \<Rightarrow> dim_t carray option \<Rightarrow> dim_t carray" where
  "right_padding pad_l pad_r = (case pad_r of None \<Rightarrow> pad_l | Some p \<Rightarrow> p)"

lemma conv_desc_init_cases:
  "conv_desc_init prop alg (Some src) (Some weights) bias (Some dst) (Some strides) dilates (Some pad_l) pad_r =
     (let cd = conv_fill pk_convolution prop alg src weights bias dst strides dilates pad_l
            (right_padding pad_l pad_r)
      in if alg \<notin> {convolution_auto, convolution_direct, convolution_winograd} then Fails invalid_arguments
         else if \<not> copy_count_ok (md_ndims src - 2) then Undefined
         else if for_range 2 (ndims src) (conv_spatial_step src weights dst strides (cd_dilates cd) pad_l
             (right_padding pad_l pad_r)) (Some (conv_channels_ok prop src weights bias dst)) = Some True
         then Writes cd else Fails invalid_arguments)"
  unfolding conv_desc_init_def right_padding_def
  by (simp add: Let_def split: option.split bool.split)

lemma conv_window_ok_cong:
  "dil (i - 2) = dil' (i - 2) \<Longrightarrow>
    conv_window_ok src weights dst strides dil pad_l pad_r i = conv_window_ok src weights dst strides dil' pad_l pad_r i"
  "dil (i - 2) = dil' (i - 2) \<Longrightarrow>
    window_in_range src weights dst strides dil pad_l pad_r i = window_in_range src weights dst strides dil' pad_l pad_r i"
  by (simp_all add: conv_window_ok_def window_in_range_def ker_range_def)

text \<open>The positions at which a window of extent \<open>krn\<close> fits into \<open>ext\<close>, at multiples of the stride.\<close>

definition window_starts :: "int \<Rightarrow> int \<Rightarrow> int \<Rightarrow> int set" where
  "window_starts str krn ext = {j. 0 \<le> j \<and> j * str + krn \<le> ext}"

definition padded_extent :: "memory_desc \<Rightarrow> dim_t carray \<Rightarrow> dim_t carray \<Rightarrow> nat \<Rightarrow> int" where
  "padded_extent src pad_l pad_r i = md_dims src i + pad_l (i - 2) + pad_r (i - 2)"

lemma output_extent_iff:
  assumes "1 \<le> str" "krn \<le> ext"
  shows "(ext - krn) sdiv str + 1 = d \<longleftrightarrow> {0..<d} = window_starts str krn ext"
proof -
  let ?d = "(ext - krn) sdiv str + 1"
  have "{0..<?d} = {j. 0 \<le> j \<and> j * str \<le> ext - krn}"
    by (rule window_positions) (use assms in auto)
  then have *: "{0..<?d} = window_starts str krn ext" by (simp only: window_starts_def le_diff_eq)
  have "0 < ?d" using assms by (simp add: cdiv_simps pos_imp_zdiv_nonneg_iff add_nonneg_pos)
  then have "{0..<d} = {0..<?d} \<longleftrightarrow> d = ?d" by (simp add: Ico_eq_Ico)
  then show ?thesis unfolding * by (simp only: eq_commute)
qed

lemma conv_window_ok_iff:
  assumes "ker_range src weights dil i \<le> padded_extent src pad_l pad_r i"
  shows "conv_window_ok src weights dst strides dil pad_l pad_r i \<longleftrightarrow>
    1 \<le> strides (i - 2) \<and> 0 \<le> dil (i - 2) \<and> 0 \<le> pad_l (i - 2) \<and> 0 < pad_r (i - 2) + strides (i - 2) \<and>
    {0..<md_dims dst i} =
      window_starts (strides (i - 2)) (ker_range src weights dil i) (padded_extent src pad_l pad_r i)"
proof -
  have eq: "md_dims src i - ker_range src weights dil i + pad_l (i - 2) + pad_r (i - 2) =
      padded_extent src pad_l pad_r i - ker_range src weights dil i"
    by (simp add: padded_extent_def)
  show ?thesis
    unfolding conv_window_ok_def eq using output_extent_iff [OF _ assms] by blast
qed


definition shape_md :: "int list \<Rightarrow> memory_desc" where
  "shape_md dims = zero_md\<lparr>md_ndims := int (length dims), md_dims := arr dims, padded_dims := arr dims,
     md_data_type := f32\<rparr>"

lemma shape_md_simps [simp]:
  "md_ndims (shape_md dims) = int (length dims)" "md_dims (shape_md dims) = arr dims"
  "ndims (shape_md dims) = length dims" "md_data_type (shape_md dims) = f32"
  "md_format_kind (shape_md dims) = fk_undef"
  by (simp_all add: shape_md_def ndims_def zero_md_def)


text \<open>
  The division truncates: a kernel that does not fit at all is accepted when it misses by less
  than the stride, with an output of one element.
\<close>

lemma conv_oversized_kernel_accepted:
  "conv_window_ok (shape_md [1, 1, 2]) (shape_md [1, 1, 3]) (shape_md [1, 1, 1]) (\<lambda>_. 2) (\<lambda>_. 0) (\<lambda>_. 0)
     (\<lambda>_. 0) 2 \<and>
   window_starts 2 (ker_range (shape_md [1, 1, 2]) (shape_md [1, 1, 3]) (\<lambda>_. 0) 2)
     (padded_extent (shape_md [1, 1, 2]) (\<lambda>_. 0) (\<lambda>_. 0) 2) = {}"
proof -
  have "(- 1 :: int) sdiv 2 = 0" by (simp add: signed_divide_int_def)
  then show ?thesis
    by (auto simp: conv_window_ok_def ker_range_def groups_shift_def padded_extent_def window_starts_def)
qed

section \<open>What pooling accepts\<close>

lemma pool_loop:
  "for_range 2 n (pool_spatial_step alg src dst strides krn pad_l pad_r) (Some c) = Some True \<longleftrightarrow>
    c \<and> (\<forall>i\<in>{2..<n}. pool_spatial_step alg src dst strides krn pad_l pad_r i (Some True) = Some True)"
  by (rule for_range_accumulates) (simp_all add: pool_spatial_step_def)

lemma pooling_writes:
  assumes "pooling_desc_init prop alg (Some src) (Some dst) (Some strides) (Some krn) (Some pad_l) pad_r = Writes pd"
    and "i \<in> {2..<ndims src}"
  shows "pool_spatial_step alg src dst strides krn pad_l (right_padding pad_l pad_r) i (Some True) = Some True"
  using assms pool_loop unfolding pooling_desc_init_def right_padding_def
  by (fastforce simp: Let_def split: if_splits option.splits bool.splits)



text \<open>A stride of 0 is not rejected: both initialisers divide by it.\<close>

lemma pooling_stride_0_undefined:
  "pooling_desc_init forward_training pooling_max (Some (shape_md [1, 1, 4])) (Some (shape_md [1, 1, 3]))
     (Some (\<lambda>_. 0)) (Some (\<lambda>_. 2)) (Some (\<lambda>_. 0)) None = Undefined"
  by (simp add: pooling_desc_init_def copy_count_ok_def Let_def for_range_Suc numeral_3_eq_3 numeral_2_eq_2
      pool_spatial_step_def)

lemma deconv_stride_0_undefined:
  "deconv_desc_init forward_training deconvolution_direct (Some (shape_md [1, 1, 4])) (Some (shape_md [1, 1, 3]))
     None (Some (shape_md [1, 1, 6])) (Some (\<lambda>_. 0)) None (Some (\<lambda>_. 0)) None = Undefined"
  by (simp add: deconv_desc_init_def copy_count_ok_def Let_def for_range_Suc numeral_3_eq_3 numeral_2_eq_2
      deconv_spatial_step_def deconv_channels_ok_def groups_shift_def has_bias_def int32_cast_def)

end
