(* ===== verification/Ref_Deconvolution.thy ===== *)
theory Ref_Deconvolution
  imports Op_Desc Layout
begin

text \<open>
  \<open>src/src/cpu/ref_deconvolution.hpp\<close>: a deconvolution is run as the convolution whose forward and
  backward passes are exchanged. \<open>conv_descr_create\<close> builds that convolution's descriptor;
  \<open>compute_blocked_format\<close> gives its weights a layout in which the input and output channels
  change places without moving the data.
\<close>

section \<open>The definitions\<close>

definition io_blocking :: "nat \<Rightarrow> blocking_desc \<Rightarrow> blocking_desc" where
  "io_blocking with_groups oi_blk =
     (let ID_OC = 0 + with_groups; ID_IC = 1 + with_groups;
          io_blk = oi_blk\<lparr>blk_strides := swap_at ID_OC (blk_strides oi_blk)\<rparr>
      in io_blk\<lparr>inner_idxs := for_upto (inner_nblks io_blk)
           (\<lambda>i_blk ixs. if ixs i_blk \<in> {ID_OC, ID_IC}
              then ixs(i_blk := (if ixs i_blk = ID_OC then ID_IC else ID_OC)) else ixs)
           (inner_idxs io_blk)\<rparr>)"

definition compute_blocked_format :: "nat \<Rightarrow> memory_desc \<Rightarrow> memory_desc \<Rightarrow> status \<times> memory_desc" where
  "compute_blocked_format with_groups oi_md io_md =
     (if \<not> (md_ndims oi_md = md_ndims io_md \<and> md_format_kind oi_md = fk_blocked)
      then (invalid_arguments, io_md)
      else memory_desc_init_by_blocking_desc (io_md\<lparr>md_format_kind := fk_blocked\<rparr>)
             (io_blocking with_groups (blocking oi_md)))"

text \<open>The weights with the two channel dimensions exchanged, before their layout is computed.\<close>

definition swapped_weights :: "nat \<Rightarrow> memory_desc \<Rightarrow> memory_desc" where
  "swapped_weights with_groups d_weights =
     (let ID_OC = 0 + with_groups
      in d_weights\<lparr>md_dims := swap_at ID_OC (md_dims d_weights),
           padded_dims := swap_at ID_OC (padded_dims d_weights),
           padded_offsets := swap_at ID_OC (padded_offsets d_weights)\<rparr>)"

definition conv_descr_create :: "convolution_desc \<Rightarrow> convolution_desc init_result" where
  "conv_descr_create dd =
     (let alg = (if cd_alg_kind dd = deconvolution_direct then convolution_direct else convolution_winograd);
          (prop, src_md, dst_md, d_weights) =
            (if cd_prop_kind dd \<in> {forward_training, forward_inference}
             then (backward_data, cd_dst_desc dd, cd_src_desc dd, cd_weights_desc dd)
             else if cd_prop_kind dd = backward_data
             then (forward_training, cd_diff_dst_desc dd, cd_diff_src_desc dd, cd_weights_desc dd)
             else (cd_prop_kind dd, cd_diff_dst_desc dd, cd_src_desc dd, cd_diff_weights_desc dd));
          with_groups = groups_shift src_md d_weights;
          c_weights = swapped_weights with_groups d_weights;
          (st, c_weights) = (if md_format_kind c_weights \<noteq> fk_any
             then compute_blocked_format with_groups d_weights c_weights else (success, c_weights))
      in if st \<noteq> success then Fails st
         else conv_desc_init prop alg (Some src_md) (Some c_weights)
           (if prop \<noteq> backward_weights then Some (cd_bias_desc dd) else None) (Some dst_md)
           (Some (cd_strides dd)) (Some (cd_dilates dd)) (Some (cd_padding_l dd)) (Some (cd_padding_r dd)))"

section \<open>Dense strides are determined by their order\<close>

lemma prod_list_ge_1: "(\<forall>d\<in>set ps. 1 \<le> N d) \<Longrightarrow> 1 \<le> prod_list (map N ps)" for N :: "nat \<Rightarrow> int"
proof (induction ps)
  case (Cons d ps)
  then show ?case using mult_mono [of 1 "N d" 1 "prod_list (map N ps)"] by simp
qed simp

text \<open>Later dimensions of extent above 1 have strictly smaller strides.\<close>

lemma dense_strides_less:
  assumes "dense_strides bs N st (xs @ a # ys)" "b \<in> set ys" "1 < N b" "\<forall>d\<in>set ys. 1 \<le> N d" "0 < bs"
  shows "st b < st a"
proof -
  obtain us vs where ys: "ys = us @ b # vs" using assms(2) by (meson split_list)
  have b: "st b = bs * prod_list (map N vs)"
    using assms(1) dense_stride_at [of bs N st "xs @ a # us" b vs] by (simp add: ys)
  have a: "st a = bs * (prod_list (map N us) * (N b * prod_list (map N vs)))"
    using dense_stride_at [OF assms(1)] by (simp add: ys)
  have P: "1 \<le> prod_list (map N us)" "1 \<le> prod_list (map N vs)"
    using assms(4) by (auto simp: ys intro!: prod_list_ge_1)
  then have "prod_list (map N vs) < N b * prod_list (map N vs)" using assms(3) by simp
  also have "\<dots> \<le> prod_list (map N us) * (N b * prod_list (map N vs))"
    using mult_right_mono [OF P(1), of "N b * prod_list (map N vs)"] P assms(3) by simp
  finally show ?thesis using assms(5) by (simp add: a b)
qed

lemma prod_list_over_1:
  fixes N :: "nat \<Rightarrow> int"
  assumes "distinct ys" "\<forall>d\<in>set ys. 1 \<le> N d"
  shows "prod_list (map N ys) = (\<Prod>d\<in>{d\<in>set ys. 1 < N d}. N d)"
proof -
  have "prod_list (map N ys) = (\<Prod>d\<in>set ys. N d)" using assms(1) by (simp add: prod.distinct_set_conv_list)
  also have "\<dots> = (\<Prod>d\<in>{d\<in>set ys. 1 < N d}. N d)"
    by (rule prod.mono_neutral_right) (use assms(2) in \<open>auto simp: order_le_less\<close>)
  finally show ?thesis .
qed

lemma dense_strides_unique:
  assumes P: "distinct P" "dense_strides bs N st P" and Q: "distinct Q" "dense_strides bs N st' Q" "set Q = set P"
    and N: "\<forall>d\<in>set P. 1 \<le> N d" and bs: "0 < bs"
    and desc: "sorted_wrt (\<lambda>a b. st b \<le> st a) Q" and d: "d \<in> set P" "1 < N d"
  shows "st' d = st d"
proof -
  obtain xs ys where xy: "P = xs @ d # ys" using d(1) by (meson split_list)
  obtain us vs where uv: "Q = us @ d # vs" using d(1) Q(3) by (metis split_list)
  have later: "st e < st d" if "e \<in> set ys" "1 < N e" for e
    using dense_strides_less [OF P(2) [unfolded xy] that] N bs by (simp add: xy)
  have earlier: "st d < st e" if e: "e \<in> set xs" for e
  proof -
    obtain x1 x2 where "xs = x1 @ e # x2" using e by (meson split_list)
    then show ?thesis
      using dense_strides_less [of bs N st x1 e "x2 @ d # ys" d] P(2) N bs d(2) by (simp add: xy)
  qed
  have "{e\<in>set ys. 1 < N e} = {e\<in>set vs. 1 < N e}"
  proof (intro set_eqI iffI)
    fix e assume e: "e \<in> {e\<in>set ys. 1 < N e}"
    then have "e \<in> set us \<union> set vs" using Q(3) P(1) by (auto simp: xy uv)
    moreover have "e \<notin> set us" using desc later [of e] e by (auto simp: uv sorted_wrt_append)
    ultimately show "e \<in> {e\<in>set vs. 1 < N e}" using e by simp
  next
    fix e assume e: "e \<in> {e\<in>set vs. 1 < N e}"
    then have "e \<in> set xs \<union> set ys" using Q(1,3) by (auto simp: xy uv)
    moreover have "e \<notin> set xs" using desc earlier [of e] e by (auto simp: uv sorted_wrt_append)
    ultimately show "e \<in> {e\<in>set ys. 1 < N e}" using e by simp
  qed
  moreover have "\<forall>e\<in>set ys. 1 \<le> N e" "\<forall>e\<in>set vs. 1 \<le> N e" "distinct ys" "distinct vs"
    using N P(1) Q(1,3) by (auto simp: xy uv)
  ultimately have "prod_list (map N vs) = prod_list (map N ys)" by (simp add: prod_list_over_1)
  then show ?thesis
    using dense_stride_at [of bs N st xs d ys] dense_stride_at [of bs N st' us d vs] P(2) Q(2) by (simp add: xy uv)
qed

section \<open>The weights of the convolution read the same data\<close>

lemma inner_fold_rename:
  assumes "bij \<pi>" "\<And>d. \<pi> (\<pi> d) = d"
  shows "inner_fold (map (apfst \<pi>) L) pos =
    (fst (inner_fold L (pos \<circ> \<pi>)) \<circ> \<pi>, snd (inner_fold L (pos \<circ> \<pi>)))"
proof (induction L arbitrary: pos)
  case Nil
  then show ?case using assms(2) by (simp add: fun_eq_iff)
next
  case (Cons x L)
  obtain d b where x: "x = (d, b)" by (cases x)
  have "pos(\<pi> d := v) \<circ> \<pi> = (pos \<circ> \<pi>)(d := v)" for v
    using assms(2) by (auto simp: fun_eq_iff) (metis assms(2))
  then show ?case by (simp add: x Cons comp_def split_beta Let_def del: fun_upd_apply)
qed

lemma dim_blocks_rename:
  assumes "\<And>d. \<pi> (\<pi> d) = d"
  shows "dim_blocks (map (apfst \<pi>) L) d = dim_blocks L (\<pi> d)"
proof (induction L)
  case (Cons x L)
  obtain e b where x: "x = (e, b)" by (cases x)
  have "\<pi> e = d \<longleftrightarrow> e = \<pi> d" using assms by metis
  then show ?case by (simp add: x Cons)
qed simp

lemma dense_strides_map:
  "dense_strides bs N st (map \<pi> ps) \<longleftrightarrow> dense_strides bs (N \<circ> \<pi>) (st \<circ> \<pi>) ps"
  by (induction ps) (simp_all add: comp_def)

lemma io_blocking_simps [simp]:
  "blk_strides (io_blocking wg blk) = blk_strides blk \<circ> flip_at wg"
  "inner_nblks (io_blocking wg blk) = inner_nblks blk"
  "inner_blks (io_blocking wg blk) = inner_blks blk"
  "i < inner_nblks blk \<Longrightarrow> inner_idxs (io_blocking wg blk) i = flip_at wg (inner_idxs blk i)"
proof -
  show "i < inner_nblks blk \<Longrightarrow> inner_idxs (io_blocking wg blk) i = flip_at wg (inner_idxs blk i)"
  proof -
    let ?step = "\<lambda>i_blk ixs. if ixs i_blk \<in> {wg, Suc wg}
        then ixs(i_blk := (if ixs i_blk = wg then Suc wg else wg)) else ixs"
    have "for_upto n ?step f i = (if i < n then flip_at wg (f i) else f i)" for n f
      by (induction n) (auto simp: for_range_Suc flip_at_def less_Suc_eq)
    then show "i < inner_nblks blk \<Longrightarrow> ?thesis" by (simp add: io_blocking_def Let_def)
  qed
qed (simp_all add: io_blocking_def Let_def swap_at_flip)

lemma io_inner_list:
  "inner_list (io_blocking wg blk) (inner_nblks blk) =
    map (apfst (flip_at wg)) (inner_list blk (inner_nblks blk))"
  by (simp add: inner_list_def rev_map)

lemma init_by_blocking_desc_fields:
  assumes "memory_desc_init_by_blocking_desc md blk = (st, md')"
  shows "st = success" "md_ndims md' = md_ndims md" "md_dims md' = md_dims md"
    "md_data_type md' = md_data_type md" "inner_blocks md' = inner_list blk (inner_nblks blk)"
    "d < ndims md \<Longrightarrow> padded_dims md' d = rnd_up (md_dims md d) (dim_blocks (inner_list blk (inner_nblks blk)) d)"
proof -
  obtain blocks bs where bb: "blocking_desc_blocks blk (ndims md) = (blocks, bs)" by force
  show "st = success" "md_ndims md' = md_ndims md" "md_dims md' = md_dims md"
    "md_data_type md' = md_data_type md" "inner_blocks md' = inner_list blk (inner_nblks blk)"
    using assms unfolding memory_desc_init_by_blocking_desc_def bb Let_def
    by (auto simp: inner_blocks_def inner_list_def split: prod.splits)
  show "padded_dims md' d = rnd_up (md_dims md d) (dim_blocks (inner_list blk (inner_nblks blk)) d)"
    if "d < ndims md"
    using assms that blocking_desc_blocks_eq [OF bb] unfolding memory_desc_init_by_blocking_desc_def bb Let_def
    by (auto simp: for_range_write split: prod.splits)
qed

text \<open>Weights as the library makes them: dense, no offsets, padded only to whole blocks.\<close>

definition wf_weights :: "memory_desc \<Rightarrow> bool" where
  "wf_weights md \<longleftrightarrow> (\<exists>perm. dense_layout md perm) \<and> offset0 md = 0 \<and> md_ndims md \<le> 12 \<and>
     (\<forall>d<ndims md. 0 < md_dims md d \<and>
        padded_dims md d = rnd_up (md_dims md d) (dim_blocks (inner_blocks md) d))"

lemma sum_flip:
  fixes f :: "nat \<Rightarrow> int"
  assumes "Suc wg < n"
  shows "(\<Sum>d<n. f (flip_at wg d)) = (\<Sum>d<n. f d)"
proof (rule sum.reindex_bij_betw)
  have "inj_on (flip_at wg) {..<n}" using bij_flip_at by (rule inj_on_subset [OF bij_is_inj]) simp
  moreover have "flip_at wg ` {..<n} = {..<n}"
  proof
    show "flip_at wg ` {..<n} \<subseteq> {..<n}" using assms by (auto simp: flip_at_def)
    then show "{..<n} \<subseteq> flip_at wg ` {..<n}" by (metis flip_at_invol image_subset_iff subset_iff imageI)
  qed
  ultimately show "bij_betw (flip_at wg) {..<n} {..<n}" by (simp add: bij_betw_def)
qed

text \<open>
  The descriptor made for the convolution: the inner blocks are renamed, and every dimension of
  more than one block has the stride of its counterpart.
\<close>

lemma compute_blocked_format_strides:
  assumes wf: "wf_weights oi" and wg: "wg + 1 < ndims oi"
    and io: "compute_blocked_format wg oi (swapped_weights wg oi) = (st, io)"
  obtains perm' where "st = success" "md_dims io = swap_at wg (md_dims oi)" "dense_layout io perm'" "offset0 io = 0"
    "ndims io = ndims oi" "inner_blocks io = map (apfst (flip_at wg)) (inner_blocks oi)"
    "\<And>d. d < ndims oi \<Longrightarrow> 1 < outer_extent oi d \<Longrightarrow>
      blk_strides (blocking io) (flip_at wg d) = blk_strides (blocking oi) d"
proof -
  obtain perm where dl: "dense_layout oi perm" using wf by (auto simp: wf_weights_def)
  let ?\<pi> = "flip_at wg" and ?blk = "io_blocking wg (blocking oi)"
  let ?md = "(swapped_weights wg oi)\<lparr>md_format_kind := fk_blocked\<rparr>"
  have init: "memory_desc_init_by_blocking_desc ?md ?blk = (st, io)"
    using io dl by (simp add: compute_blocked_format_def swapped_weights_def Let_def dense_layout_def)
  have md: "md_ndims ?md = md_ndims oi" "ndims ?md = ndims oi" "md_dims ?md = md_dims oi \<circ> ?\<pi>"
    by (simp_all add: swapped_weights_def Let_def ndims_def swap_at_flip)
  let ?L = "inner_blocks oi"
  have L: "inner_list ?blk (inner_nblks ?blk) = map (apfst ?\<pi>) ?L"
    by (simp add: io_inner_list inner_blocks_def)
  have nd: "ndims oi = length perm" "0 < md_ndims oi" "md_ndims oi \<le> 12"
    using dl wf by (auto simp: dense_layout_def ndims_def wf_weights_def)
  have flip: "?\<pi> d < ndims oi \<longleftrightarrow> d < ndims oi" for d using wg by (auto simp: flip_at_def)
  have okL: "blocks_ok (ndims oi) ?L" using dl nd by (simp add: dense_layout_def)
  have ok: "blocks_ok (ndims ?md) (inner_list ?blk (inner_nblks ?blk))"
    using okL unfolding L blocks_ok_def md by (auto simp: flip)
  have dims: "0 < md_dims ?md d" if "d < ndims ?md" for d
    using wf that unfolding md by (simp add: wf_weights_def flip)
  note fields = init_by_blocking_desc_fields [OF init]
  obtain perm' where p': "dense_layout io perm'" "offset0 io = 0"
    "\<forall>a b. a < b \<and> b < ndims oi \<longrightarrow> blk_strides (blocking oi) (?\<pi> (perm' ! b)) \<le>
       blk_strides (blocking oi) (?\<pi> (perm' ! a))"
    using init_by_blocking_desc_dense [OF _ _ ok dims init] nd unfolding md by auto
  have ndio: "ndims io = ndims oi" "length perm' = ndims oi"
    using fields(2) p'(1) by (auto simp: ndims_def md(1) dense_layout_def)
  have Lio: "inner_blocks io = map (apfst ?\<pi>) ?L" using fields(5) by (simp only: L)
  have oe: "outer_extent io d = outer_extent oi (?\<pi> d)" if "d < ndims oi" for d
  proof -
    have "padded_dims io d = padded_dims oi (?\<pi> d)"
      using fields(6) [of d] that wf flip [of d] unfolding L md by (simp add: dim_blocks_rename wf_weights_def)
    then show ?thesis by (simp add: outer_extent_def Lio dim_blocks_rename)
  qed
  have bsz: "block_size io = block_size oi" by (simp add: block_size_def Lio comp_def)
  let ?N = "outer_extent oi" and ?Q = "map ?\<pi> perm'" and ?st = "blk_strides (blocking oi)"
    and ?st' = "blk_strides (blocking io)"
  have set_p: "set perm = {..<ndims oi}" "set perm' = {..<ndims oi}"
    using dl p'(1) nd ndio by (auto simp: dense_layout_def)
  have "?\<pi> ` {..<ndims oi} = {..<ndims oi}" using flip by (force simp: image_iff intro: flip_at_invol [symmetric])
  then have set_Q: "set ?Q = set perm" by (simp add: set_p)
  have dQ: "dense_strides (block_size oi) ?N (?st' \<circ> ?\<pi>) ?Q"
  proof -
    have "dense_strides (block_size oi) (outer_extent io) ?st' perm'" using p'(1) by (simp add: dense_layout_def bsz)
    then have "dense_strides (block_size oi) (?N \<circ> ?\<pi>) ((?st' \<circ> ?\<pi>) \<circ> ?\<pi>) perm'"
      by (rule dense_strides_cong [THEN iffD1, rotated]) (auto simp: oe set_p)
    then show ?thesis by (simp only: dense_strides_map)
  qed
  have stride: "?st' (?\<pi> d) = ?st d" if "d < ndims oi" "1 < ?N d" for d
  proof -
    have "(?st' \<circ> ?\<pi>) d = ?st d"
    proof (rule dense_strides_unique [OF _ _ _ dQ])
      show "distinct perm" "dense_strides (block_size oi) ?N ?st perm" using dl by (simp_all add: dense_layout_def)
      show "distinct ?Q" using p'(1) by (auto simp: dense_layout_def distinct_map intro: inj_on_subset [OF bij_is_inj [OF bij_flip_at]])
      show "set ?Q = set perm" by (rule set_Q)
      show "\<forall>d\<in>set perm. 1 \<le> ?N d" using outer_extent_pos [OF dl] dl nd by (force simp: set_p)
      show "0 < block_size oi" using blocks_prod_pos [OF okL] by (simp add: block_size_def)
      show "sorted_wrt (\<lambda>a b. ?st b \<le> ?st a) ?Q" using p'(3) ndio by (simp add: sorted_wrt_iff_nth_less)
    qed (use that set_p in auto)
    then show ?thesis by simp
  qed
  show thesis
    using that [OF _ _ p'(1,2) ndio(1) Lio stride] fields(1,3) by (simp add: swap_at_flip md(3))
qed

text \<open>
  C22: the weights descriptor \<open>compute_blocked_format\<close> makes for the convolution, read at a position
  with the two channel indices exchanged, addresses the same element of the buffer as the
  deconvolution's own descriptor.
\<close>

theorem deconv_weights_same_data:
  assumes wf: "wf_weights oi" and wg: "wg + 1 < ndims oi"
    and io: "compute_blocked_format wg oi (swapped_weights wg oi) = (st, io)"
    and pos: "in_padded oi pos"
  shows "st = success \<and> md_dims io = swap_at wg (md_dims oi) \<and>
    off_v io (swap_at wg pos) True = off_v oi pos True"
proof -
  let ?\<pi> = "flip_at wg" and ?L = "inner_blocks oi" and ?N = "outer_extent oi"
    and ?st = "blk_strides (blocking oi)" and ?st' = "blk_strides (blocking io)"
  let ?q = "fst (inner_fold ?L pos)"
  obtain perm where dl: "dense_layout oi perm" using wf by (auto simp: wf_weights_def)
  obtain perm' where made: "st = success" "md_dims io = swap_at wg (md_dims oi)" and p': "dense_layout io perm'" "offset0 io = 0"
    and ndio: "ndims io = ndims oi" and Lio: "inner_blocks io = map (apfst ?\<pi>) ?L"
    and stride: "\<And>d. d < ndims oi \<Longrightarrow> 1 < ?N d \<Longrightarrow> ?st' (?\<pi> d) = ?st d"
    using compute_blocked_format_strides [OF wf wg io] by metis
  have flip: "?\<pi> d < ndims oi \<longleftrightarrow> d < ndims oi" for d using wg by (auto simp: flip_at_def)
  have okL: "blocks_ok (ndims oi) ?L" using dl by (simp add: dense_layout_def ndims_def)
  have q: "0 \<le> ?q d" "?q d < ?N d" if "d < ndims oi" for d
    using outer_in_extent [OF dl pos] that dl by (auto simp: dense_layout_def ndims_def)
  have pos': "0 \<le> pos d" "\<not> d < ndims oi \<Longrightarrow> pos d = 0" for d
    using pos by (auto simp: in_padded_def split: if_splits)
  have "off_v io (pos \<circ> ?\<pi>) True = snd (inner_fold ?L pos) + (\<Sum>d<ndims oi. ?q (?\<pi> d) * ?st' d)"
    using off_v_eq [of "ndims io" io "pos \<circ> ?\<pi>"] p'(1,2) pos' flip ndio dense_layout_ndims [OF p'(1)]
      inner_fold_rename [OF bij_flip_at flip_at_invol, of wg ?L "pos \<circ> ?\<pi>"]
    by (simp add: Lio dense_layout_def comp_def)
  also have "(\<Sum>d<ndims oi. ?q (?\<pi> d) * ?st' d) = (\<Sum>d<ndims oi. ?q d * ?st' (?\<pi> d))"
    using sum_flip [of wg "ndims oi" "\<lambda>d. ?q d * ?st' (?\<pi> d)"] wg by simp
  also have "\<dots> = (\<Sum>d<ndims oi. ?q d * ?st d)"
  proof (rule sum.cong [OF refl])
    fix d assume "d \<in> {..<ndims oi}"
    then show "?q d * ?st' (?\<pi> d) = ?q d * ?st d" using stride [of d] q [of d] by (cases "?q d = 0") auto
  qed
  also have "snd (inner_fold ?L pos) + \<dots> = off_v oi pos True"
    using off_v_eq [of "ndims oi" oi pos] okL pos' wf by (simp add: wf_weights_def)
  finally show ?thesis using made by (simp add: swap_at_flip comp_def)
qed

lemma plain_example_wf: "wf_weights plain_example"
proof -
  have "rnd_up (arr [4, 6] d) 1 = (arr [4, 6] d :: int) \<and> 0 < (arr [4, 6] d :: int)" if "d < 2" for d
    using that by (auto simp: less_2_cases_iff rnd_up_def div_up_def cdiv_simps)
  then show ?thesis using plain_example_layout by (auto simp: wf_weights_def)
qed

theorem deconv_weights_same_data_witness:
  "off_v (snd (compute_blocked_format 0 plain_example (swapped_weights 0 plain_example))) (swap_at 0 (arr [3, 5])) True =
   off_v plain_example (arr [3, 5]) True"
proof -
  have "in_padded plain_example (arr [3, 5])"
    by (auto simp: in_padded_def plain_example_def ndims_def less_2_cases_iff arr_def)
  moreover have "0 + 1 < ndims plain_example" by (simp add: plain_example_def ndims_def)
  ultimately show ?thesis
    using deconv_weights_same_data [OF plain_example_wf, of 0
      "fst (compute_blocked_format 0 plain_example (swapped_weights 0 plain_example))"] by simp
qed

section \<open>An accepted deconvolution has a convolution\<close>

lemma deconv_loop:
  assumes "\<And>i. i \<in> {2..<n} \<Longrightarrow> window_in_range src weights dst strides dil pad_l pad_r i"
  shows "for_range 2 n (deconv_spatial_step src weights dst strides dil pad_l pad_r) (Some c) = Some True \<longleftrightarrow>
    c \<and> (\<forall>i\<in>{2..<n}. strides (i - 2) \<noteq> 0 \<and>
      (md_dims dst i - ker_range src weights dil i + pad_l (i - 2) + pad_r (i - 2)) sdiv strides (i - 2) + 1 =
        md_dims src i)"
proof -
  have "deconv_spatial_step src weights dst strides dil pad_l pad_r i (Some True) = Some True \<longleftrightarrow>
      strides (i - 2) \<noteq> 0 \<and>
      (md_dims dst i - ker_range src weights dil i + pad_l (i - 2) + pad_r (i - 2)) sdiv strides (i - 2) + 1 =
        md_dims src i" if "i \<in> {2..<n}" for i
    using assms [OF that]
    by (auto simp: deconv_spatial_step_def Let_def window_in_range_def ker_range_def add.assoc)
  then show ?thesis by (simp add: for_range_accumulates deconv_spatial_step_def)
qed

lemma deconv_writes:
  assumes "deconv_desc_init prop alg (Some src) (Some weights) bias (Some dst) (Some strides) dilates (Some pad_l)
    pad_r = Writes dd"
  defines "pr \<equiv> right_padding pad_l pad_r"
  shows "alg \<in> {deconvolution_direct, deconvolution_winograd}" "copy_count_ok (md_ndims src - 2)"
    "dd = conv_fill pk_deconvolution prop alg src weights bias dst strides dilates pad_l pr"
    "for_range 2 (ndims src) (deconv_spatial_step src weights dst strides (cd_dilates dd) pad_l pr)
       (Some (deconv_channels_ok src weights bias dst)) = Some True"
  using assms unfolding deconv_desc_init_def right_padding_def
  by (auto simp: Let_def split: if_splits option.splits bool.splits)

text \<open>Which descriptors \<open>conv_descr_create\<close> takes from an initialised deconvolution.\<close>

lemma deconv_roles:
  assumes "dd = conv_fill pk_deconvolution prop alg src weights bias dst strides dilates pad_l pr"
  shows "prop \<in> {forward_training, forward_inference} \<Longrightarrow>
      cd_dst_desc dd = dst \<and> cd_src_desc dd = src \<and> cd_weights_desc dd = weights"
    "prop = backward_data \<Longrightarrow>
      cd_diff_dst_desc dd = dst \<and> cd_diff_src_desc dd = src \<and> cd_weights_desc dd = weights"
    "prop = backward_weights \<Longrightarrow>
      cd_diff_dst_desc dd = dst \<and> cd_src_desc dd = src \<and> cd_diff_weights_desc dd = weights"
    "prop \<noteq> backward_weights \<Longrightarrow> cd_bias_desc dd = (if has_bias bias then the bias else zero_md)"
    "cd_prop_kind dd = prop" "cd_alg_kind dd = alg"
  by (auto simp: assms conv_fill_def Let_def is_fwd_kind_def zero_convolution_desc_def)

definition conv_prop :: "prop_kind \<Rightarrow> prop_kind" where
  "conv_prop prop = (if prop \<in> {forward_training, forward_inference} then backward_data
     else if prop = backward_data then forward_training else prop)"

lemma conv_weights_shape:
  assumes "md_format_kind weights \<in> {fk_any, fk_blocked}"
    and "(if md_format_kind (swapped_weights wg weights) \<noteq> fk_any
      then compute_blocked_format wg weights (swapped_weights wg weights)
      else (success, swapped_weights wg weights)) = (st, c)"
  shows "st = success" "md_ndims c = md_ndims weights" "md_dims c = swap_at wg (md_dims weights)"
proof -
  have "st = success \<and> md_ndims c = md_ndims weights \<and> md_dims c = swap_at wg (md_dims weights)"
  proof (cases "md_format_kind weights = fk_any")
    case True
    then show ?thesis using assms(2) by (auto simp: swapped_weights_def Let_def)
  next
    case False
    then have "memory_desc_init_by_blocking_desc ((swapped_weights wg weights)\<lparr>md_format_kind := fk_blocked\<rparr>)
        (io_blocking wg (blocking weights)) = (st, c)"
      using assms by (auto simp: swapped_weights_def compute_blocked_format_def Let_def)
    from init_by_blocking_desc_fields(1,2,3) [OF this] show ?thesis
      by (simp add: swapped_weights_def Let_def)
  qed
  then show "st = success" "md_ndims c = md_ndims weights" "md_dims c = swap_at wg (md_dims weights)" by simp_all
qed

lemma nelems_swapped:
  assumes "md_ndims c = md_ndims weights" "md_dims c = swap_at wg (md_dims weights)" "wg + 1 < ndims weights"
    and "nelems weights False \<noteq> 0"
  shows "nelems c False \<noteq> 0"
proof -
  have nd: "ndims c = ndims weights" using assms(1) by (simp add: ndims_def)
  have "md_dims weights (flip_at wg d) \<noteq> 0" if "d < ndims weights" for d
  proof -
    have "flip_at wg d < ndims weights" using that assms(3) by (auto simp: flip_at_def)
    then show ?thesis using assms(4) by (auto simp: nelems_def array_product_eq split: if_splits)
  qed
  then show ?thesis
    using assms(1,4) by (auto simp: nelems_def is_zero_def nd array_product_eq assms(2) swap_at_flip split: if_splits)
qed

lemma conv_channels_of_deconv:
  assumes ch: "deconv_channels_ok src weights bias dst" and b: "int32_ok (md_dims dst 1)"
    and c: "md_ndims c = md_ndims weights" "md_dims c = swap_at (groups_shift src weights) (md_dims weights)"
    and ne: "nelems weights False \<noteq> 0"
    and pk: "prop \<in> {forward_training, forward_inference, backward_data, backward_weights}"
    and bias: "prop = backward_data \<Longrightarrow> \<not> has_bias bias"
  shows "conv_channels_ok (conv_prop prop) dst c
    (if conv_prop prop \<noteq> backward_weights then Some (if has_bias bias then the bias else zero_md) else None) src"
proof -
  let ?wg = "groups_shift src weights"
  have nd: "md_ndims src = md_ndims dst" "md_ndims weights \<in> {md_ndims src, md_ndims src + 1}"
    "md_ndims src \<in> {3, 4, 5}" using ch by (auto simp: deconv_channels_ok_def Let_def)
  have wg: "groups_shift dst c = ?wg" using nd(1) c(1) by (simp add: groups_shift_def)
  have lt: "?wg + 1 < ndims weights" using nd by (auto simp: groups_shift_def ndims_def)
  have dims: "md_dims c ?wg = md_dims weights (?wg + 1)" "md_dims c (?wg + 1) = md_dims weights ?wg"
    "?wg = 1 \<Longrightarrow> md_dims c 0 = md_dims weights 0"
    by (simp_all add: c(2) swap_at_def)
  let ?b = "if conv_prop prop \<noteq> backward_weights then Some (if has_bias bias then the bias else zero_md) else None"
  have B: "md_ndims (the ?b) = 1 \<and> md_dims (the ?b) 0 = int32_cast (if conv_prop prop = backward_data
      then md_dims dst 1 else md_dims src 1)" if hb: "has_bias ?b"
  proof -
    have w: "conv_prop prop \<noteq> backward_weights" using hb by (auto simp: has_bias_def)
    have "\<not> has_bias (Some zero_md)" by (simp add: has_bias_def zero_md_def)
    then have hb': "has_bias bias" using hb w by (auto split: if_splits)
    then have "prop \<in> {forward_training, forward_inference}" using pk bias w by (auto simp: conv_prop_def)
    then have p: "conv_prop prop = backward_data" by (simp add: conv_prop_def)
    have "md_ndims (the bias) = 1" "md_dims (the bias) 0 = md_dims dst 1"
      using ch hb' by (simp_all add: deconv_channels_ok_def Let_def)
    then show ?thesis using p hb' b by simp
  qed
  let ?g = "if ?wg = 1 then int32_cast (md_dims weights 0) else 1"
  have f: "md_dims src 0 = md_dims dst 0" "md_dims src 1 = ?g * md_dims weights (?wg + 1)"
    "md_dims dst 1 = ?g * md_dims weights ?wg"
    using ch by (simp_all add: deconv_channels_ok_def Let_def)
  have g: "(if ?wg = 1 then int32_cast (md_dims c 0) else 1) = ?g" using dims(3) by simp
  show ?thesis
    unfolding conv_channels_ok_def Let_def wg g add_0_right dims
    using nd c(1) nelems_swapped [OF c lt ne] B f by (intro conjI impI) simp_all
qed

text \<open>What acceptance of a deconvolution says of its channels and windows.\<close>

lemma deconv_windows:
  assumes acc: "deconv_desc_init prop alg (Some src) (Some weights) bias (Some dst) (Some strides) dilates (Some pad_l)
      pad_r = Writes dd"
    and dil: "dil = dilation dilates" and pr: "pr = right_padding pad_l pad_r"
    and rg: "\<forall>i\<in>{2..<ndims src}. window_in_range src weights dst strides dil pad_l pr i"
  shows "deconv_channels_ok src weights bias dst"
    and "i \<in> {2..<ndims src} \<Longrightarrow> cd_strides dd (i - 2) = strides (i - 2) \<and> cd_padding_l dd (i - 2) = pad_l (i - 2) \<and>
      cd_padding_r dd (i - 2) = pr (i - 2) \<and> cd_dilates dd (i - 2) = dil (i - 2)"
    and "i \<in> {2..<ndims src} \<Longrightarrow>
      (md_dims dst i - ker_range src weights dil i + pad_l (i - 2) + pr (i - 2)) sdiv strides (i - 2) + 1 = md_dims src i"
proof -
  note dd = deconv_writes [OF acc, folded pr]
  show flds: "cd_strides dd (i - 2) = strides (i - 2) \<and> cd_padding_l dd (i - 2) = pad_l (i - 2) \<and>
      cd_padding_r dd (i - 2) = pr (i - 2) \<and> cd_dilates dd (i - 2) = dil (i - 2)" if "i \<in> {2..<ndims src}" for i
    using conv_fill_window [OF that dd(3)] by (simp add: dil)
  have rg': "window_in_range src weights dst strides (cd_dilates dd) pad_l pr i" if "i \<in> {2..<ndims src}" for i
    using bspec [OF rg that] flds [OF that] by (simp add: window_in_range_def)
  have *: "deconv_channels_ok src weights bias dst \<and> (\<forall>i\<in>{2..<ndims src}. strides (i - 2) \<noteq> 0 \<and>
      (md_dims dst i - ker_range src weights (cd_dilates dd) i + pad_l (i - 2) + pr (i - 2)) sdiv strides (i - 2) + 1 =
        md_dims src i)"
    by (rule deconv_loop [THEN iffD1]) (rule rg', assumption, rule dd(4))
  then show "deconv_channels_ok src weights bias dst" by blast
  show "(md_dims dst i - ker_range src weights dil i + pad_l (i - 2) + pr (i - 2)) sdiv strides (i - 2) + 1 =
      md_dims src i" if i: "i \<in> {2..<ndims src}" for i
    using bspec [OF conjunct2 [OF *] i] flds [OF i] by (simp add: ker_range_def)
qed



end
