(* ===== verification/Op_Desc_More.thy ===== *)
theory Op_Desc_More
  imports Op_Desc Primitive_Attr
begin

text \<open>
  Descriptors of the operations without windows (\<open>batch_normalization.cpp\<close>,
  \<open>layer_normalization.cpp\<close>, \<open>lrn.cpp\<close>, \<open>softmax.cpp\<close>, \<open>shuffle.cpp\<close>, \<open>eltwise.cpp\<close>) and the
  functions that create the primitive descriptors without an operation descriptor
  (\<open>concat.cpp\<close>, \<open>sum.cpp\<close>, \<open>reorder.cpp\<close>). The implementation lists of an engine are
  arguments.
\<close>

section \<open>Shared checks\<close>

text \<open>\<open>prop_kind & backward\<close>: the bit all backward kinds have.\<close>

definition backward_bit :: "prop_kind \<Rightarrow> bool" where
  "backward_bit prop \<longleftrightarrow> prop \<in> {backward, backward_data, backward_weights, backward_bias}"

text \<open>A descriptor written only when its constructor succeeds; the callers ignore the status.\<close>

definition init_into :: "memory_desc \<Rightarrow> status \<times> memory_desc option \<Rightarrow> memory_desc" where
  "init_into old r = (case snd r of None \<Rightarrow> old | Some md \<Rightarrow> md)"

definition tag_nc :: format_tag where
  "tag_nc = Tag ''ab''"

definition tag_x :: format_tag where
  "tag_x = Tag ''a''"

section \<open>Batch normalization\<close>

definition bnrm_fill :: "prop_kind \<Rightarrow> memory_desc \<Rightarrow> memory_desc option \<Rightarrow> float_bits \<Rightarrow> u32 \<Rightarrow>
    batch_normalization_desc" where
  "bnrm_fill prop data_desc diff_data_desc epsilon flags =
     (let bd = zero_batch_normalization_desc\<lparr>bn_primitive_kind := pk_batch_normalization, bn_prop_kind := prop,
            bn_data_desc := data_desc, bn_diff_data_desc := zero_md\<rparr>;
          bd = (if prop \<in> {backward_data, backward} then bd\<lparr>bn_diff_data_desc := the diff_data_desc\<rparr> else bd);
          bd = bd\<lparr>bn_data_scaleshift_desc := init_into (bn_data_scaleshift_desc bd)
            (dnnl_memory_desc_init_by_tag 2 (Some (arr [2, md_dims data_desc 1])) f32 tag_nc)\<rparr>;
          bd = bd\<lparr>bn_diff_data_scaleshift_desc := zero_md\<rparr>;
          bd = (if prop = backward then bd\<lparr>bn_diff_data_scaleshift_desc := bn_data_scaleshift_desc bd\<rparr> else bd);
          bd = bd\<lparr>bn_stat_desc := init_into (bn_stat_desc bd)
            (dnnl_memory_desc_init_by_tag 1 (Some (arr [md_dims data_desc 1])) f32 tag_x)\<rparr>
      in bd\<lparr>bn_epsilon := epsilon, bn_flags := flags\<rparr>)"

definition bnrm_desc_init :: "prop_kind \<Rightarrow> memory_desc option \<Rightarrow> memory_desc option \<Rightarrow> float_bits \<Rightarrow> u32 \<Rightarrow>
    batch_normalization_desc init_result" where
  "bnrm_desc_init prop data_desc diff_data_desc epsilon flags =
     (case data_desc of None \<Rightarrow> Fails invalid_arguments
      | Some data_desc \<Rightarrow>
        if \<not> (prop \<in> {forward_training, forward_inference, backward_data, backward} \<and>
              (backward_bit prop \<longrightarrow> diff_data_desc \<noteq> None))
        then Fails invalid_arguments
        else
          let bd = bnrm_fill prop data_desc diff_data_desc epsilon flags;
              bnorm_flags = use_global_stats OR use_scaleshift OR fuse_norm_relu
          in if NOT bnorm_flags AND flags \<noteq> 0 then Fails invalid_arguments
             else if \<not> (md_ndims (bn_data_desc bd) \<in> {2, 3, 4, 5} \<and>
                 (prop = backward_data \<longrightarrow>
                    md_ndims (bn_diff_data_desc bd) \<in> {2, 3, 4, 5} \<and>
                    array_cmp (md_dims (bn_diff_data_desc bd)) (md_dims (bn_data_desc bd))
                      (ndims (bn_diff_data_desc bd))))
             then Fails invalid_arguments
             else Writes bd)"

definition dnnl_batch_normalization_forward_desc_init where
  "dnnl_batch_normalization_forward_desc_init prop data_desc epsilon flags =
     (if prop \<notin> {forward_training, forward_inference} then Fails invalid_arguments
      else bnrm_desc_init prop data_desc None epsilon flags)"

definition dnnl_batch_normalization_backward_desc_init where
  "dnnl_batch_normalization_backward_desc_init prop diff_data_desc data_desc epsilon flags =
     (if prop \<notin> {backward, backward_data} then Fails invalid_arguments
      else bnrm_desc_init prop data_desc diff_data_desc epsilon flags)"

section \<open>Layer normalization\<close>

text \<open>
  The default statistics descriptor. The division by the stride of the last dimension is
  undefined (\<open>None\<close>) where that stride is 0.
\<close>

definition lnorm_stat_stride :: "memory_desc \<Rightarrow> nat \<Rightarrow> dim_t carray option \<Rightarrow> dim_t carray option" where
  "lnorm_stat_stride data_desc i st =
     (case st of None \<Rightarrow> None
      | Some stat_strides \<Rightarrow>
          let data_strides = blk_strides (blocking data_desc); l = data_strides (ndims data_desc - 1)
          in if data_strides i > l then Some (stat_strides(i := data_strides i))
             else if l = 0 then None
             else Some (stat_strides(i := data_strides i sdiv l)))"

definition lnorm_default_stat :: "memory_desc \<Rightarrow> memory_desc option" where
  "lnorm_default_stat data_desc =
     (let stat_ndims = ndims data_desc - 1;
          stat_dims = array_copy (\<lambda>_. 0) (md_dims data_desc) stat_ndims
      in case for_upto stat_ndims (lnorm_stat_stride data_desc) (Some (\<lambda>_. 0)) of
           None \<Rightarrow> None
         | Some stat_strides \<Rightarrow>
             Some (init_into zero_md
               (dnnl_memory_desc_init_by_strides (md_ndims data_desc - 1) (Some stat_dims) f32 (Some stat_strides))))"

definition lnorm_fill :: "prop_kind \<Rightarrow> memory_desc \<Rightarrow> memory_desc \<Rightarrow> memory_desc option \<Rightarrow> float_bits \<Rightarrow> u32 \<Rightarrow>
    layer_normalization_desc" where
  "lnorm_fill prop data_desc stat_desc diff_data_desc epsilon flags =
     (let ld = zero_layer_normalization_desc\<lparr>ln_primitive_kind := pk_layer_normalization, ln_prop_kind := prop,
            ln_data_desc := data_desc, ln_diff_data_desc := zero_md\<rparr>;
          ld = (if prop \<in> {backward_data, backward} then ld\<lparr>ln_diff_data_desc := the diff_data_desc\<rparr> else ld);
          ld = ld\<lparr>ln_stat_desc := stat_desc\<rparr>;
          ld = ld\<lparr>ln_data_scaleshift_desc := init_into (ln_data_scaleshift_desc ld)
            (dnnl_memory_desc_init_by_tag 2 (Some (arr [2, md_dims data_desc (ndims data_desc - 1)])) f32 tag_nc)\<rparr>;
          ld = ld\<lparr>ln_diff_data_scaleshift_desc := zero_md\<rparr>;
          ld = (if prop = backward then ld\<lparr>ln_diff_data_scaleshift_desc := ln_data_scaleshift_desc ld\<rparr> else ld)
      in ld\<lparr>ln_epsilon := epsilon, ln_flags := flags\<rparr>)"

text \<open>
  With no dimension the code reads in front of the array \<open>dims\<close>, with more than 12 behind it.
\<close>

definition lnorm_desc_init :: "prop_kind \<Rightarrow> memory_desc option \<Rightarrow> memory_desc option \<Rightarrow> memory_desc option \<Rightarrow>
    float_bits \<Rightarrow> u32 \<Rightarrow> layer_normalization_desc init_result" where
  "lnorm_desc_init prop data_desc stat_desc diff_data_desc epsilon flags =
     (case data_desc of None \<Rightarrow> Fails invalid_arguments
      | Some data_desc \<Rightarrow>
        if \<not> (prop \<in> {forward_training, forward_inference, backward_data, backward} \<and>
              (backward_bit prop \<longrightarrow> diff_data_desc \<noteq> None) \<and>
              flags AND NOT (use_global_stats OR use_scaleshift) = 0 \<and>
              (flags AND use_global_stats \<noteq> 0 \<longrightarrow> stat_desc \<noteq> None))
        then Fails invalid_arguments
        else if \<not> (1 \<le> md_ndims data_desc \<and> md_ndims data_desc \<le> int DNNL_MAX_NDIMS) then Undefined
        else case (case stat_desc of Some s \<Rightarrow> Some s | None \<Rightarrow> lnorm_default_stat data_desc) of
            None \<Rightarrow> Undefined
          | Some stat \<Rightarrow>
            let ld = lnorm_fill prop data_desc stat diff_data_desc epsilon flags
            in if md_ndims (ln_data_desc ld) \<in> {2, 3, 4, 5} \<and>
                  (prop = backward_data \<longrightarrow>
                     md_ndims (ln_diff_data_desc ld) \<in> {2, 3, 4, 5} \<and>
                     array_cmp (md_dims (ln_diff_data_desc ld)) (md_dims (ln_data_desc ld))
                       (ndims (ln_diff_data_desc ld)) \<and>
                     md_ndims (ln_data_desc ld) = md_ndims (ln_stat_desc ld) + 1 \<and>
                     array_cmp (md_dims (ln_stat_desc ld)) (md_dims (ln_data_desc ld)) (ndims (ln_stat_desc ld)))
               then Writes ld else Fails invalid_arguments)"

definition dnnl_layer_normalization_forward_desc_init where
  "dnnl_layer_normalization_forward_desc_init prop data_desc stat_desc epsilon flags =
     (if prop \<notin> {forward_training, forward_inference} then Fails invalid_arguments
      else lnorm_desc_init prop data_desc stat_desc None epsilon flags)"

definition dnnl_layer_normalization_backward_desc_init where
  "dnnl_layer_normalization_backward_desc_init prop diff_data_desc data_desc stat_desc epsilon flags =
     (if prop \<notin> {backward, backward_data} then Fails invalid_arguments
      else lnorm_desc_init prop data_desc stat_desc diff_data_desc epsilon flags)"

section \<open>Local response normalization\<close>

definition lrn_desc_init :: "prop_kind \<Rightarrow> alg_kind \<Rightarrow> memory_desc option \<Rightarrow> memory_desc option \<Rightarrow> dim_t \<Rightarrow>
    float_bits \<Rightarrow> float_bits \<Rightarrow> float_bits \<Rightarrow> lrn_desc init_result" where
  "lrn_desc_init prop alg data_desc diff_data_desc local_size alpha beta k =
     (case data_desc of None \<Rightarrow> Fails invalid_arguments
      | Some data_desc \<Rightarrow>
        if \<not> (alg \<in> {lrn_within_channel, lrn_across_channels} \<and>
              prop \<in> {forward_training, forward_inference, backward_data} \<and>
              (prop = backward_data \<longrightarrow> diff_data_desc \<noteq> None))
        then Fails invalid_arguments
        else
          let ld = zero_lrn_desc\<lparr>lr_primitive_kind := pk_lrn, lr_prop_kind := prop, lr_alg_kind := alg,
                lr_data_desc := data_desc\<rparr>;
              ld = (if \<not> is_fwd_kind prop then ld\<lparr>lr_diff_data_desc := the diff_data_desc\<rparr>
                    else ld\<lparr>lr_diff_data_desc := zero_md\<rparr>);
              ld = ld\<lparr>lr_local_size := local_size, lr_lrn_alpha := alpha, lr_lrn_beta := beta, lr_lrn_k := k\<rparr>
          in if md_ndims (lr_data_desc ld) = 4 \<and>
                (prop = backward_data \<longrightarrow> md_ndims (lr_diff_data_desc ld) = 4 \<and>
                   array_cmp (md_dims (lr_diff_data_desc ld)) (md_dims (lr_data_desc ld)) 4)
             then Writes ld else Fails invalid_arguments)"

definition dnnl_lrn_forward_desc_init where
  "dnnl_lrn_forward_desc_init prop alg data_desc local_size alpha beta k =
     (if prop \<notin> {forward_training, forward_inference} then Fails invalid_arguments
      else lrn_desc_init prop alg data_desc None local_size alpha beta k)"

definition dnnl_lrn_backward_desc_init where
  "dnnl_lrn_backward_desc_init alg data_desc diff_data_desc local_size alpha beta k =
     lrn_desc_init backward_data alg data_desc diff_data_desc local_size alpha beta k"

section \<open>Softmax\<close>

text \<open>The backward initialiser dereferences \<open>diff_desc\<close> without a check.\<close>

definition softmax_desc_init :: "prop_kind \<Rightarrow> memory_desc option \<Rightarrow> memory_desc option \<Rightarrow> int \<Rightarrow>
    softmax_desc init_result" where
  "softmax_desc_init prop data_desc diff_desc softmax_axis =
     (case data_desc of None \<Rightarrow> Fails invalid_arguments
      | Some data_desc \<Rightarrow>
        if \<not> (0 \<le> softmax_axis \<and> softmax_axis < md_ndims data_desc) then Fails invalid_arguments
        else if prop = backward_data \<and> diff_desc = None then Undefined
        else Writes (zero_softmax_desc\<lparr>sm_primitive_kind := pk_softmax, sm_prop_kind := prop,
            sm_data_desc := data_desc,
            sm_diff_desc := (if prop = backward_data then the diff_desc else zero_md),
            sm_softmax_axis := softmax_axis\<rparr>))"

definition dnnl_softmax_forward_desc_init where
  "dnnl_softmax_forward_desc_init prop data_desc softmax_axis =
     (if prop \<notin> {forward_inference, forward_training} then Fails invalid_arguments
      else softmax_desc_init prop data_desc None softmax_axis)"

definition dnnl_softmax_backward_desc_init where
  "dnnl_softmax_backward_desc_init diff_desc data_desc softmax_axis =
     softmax_desc_init backward_data data_desc diff_desc softmax_axis"

section \<open>Shuffle\<close>

definition shuffle_desc_init :: "prop_kind \<Rightarrow> memory_desc option \<Rightarrow> int \<Rightarrow> dim_t \<Rightarrow> shuffle_desc init_result" where
  "shuffle_desc_init prop data_desc axis group_size =
     (case data_desc of None \<Rightarrow> Fails invalid_arguments
      | Some data_desc \<Rightarrow>
        if \<not> (prop \<in> {forward_training, forward_inference, backward, backward_data} \<and>
              axis \<ge> 0 \<and> axis < md_ndims data_desc \<and> group_size > 0 \<and>
              group_size \<le> md_dims data_desc (nat axis))
        then Fails invalid_arguments
        else
          let sd = zero_shuffle_desc\<lparr>sh_primitive_kind := pk_shuffle, sh_prop_kind := prop,
                sh_data_desc := data_desc, sh_axis := axis, sh_group_size := group_size\<rparr>
          in if md_dims (sh_data_desc sd) (nat axis) smod sh_group_size sd = 0 then Writes sd
             else Fails invalid_arguments)"

definition dnnl_shuffle_forward_desc_init where
  "dnnl_shuffle_forward_desc_init prop data_desc axis group_size =
     (if prop \<notin> {forward_training, forward_inference} then Fails invalid_arguments
      else shuffle_desc_init prop data_desc axis group_size)"

definition dnnl_shuffle_backward_desc_init where
  "dnnl_shuffle_backward_desc_init diff_data_desc axis group_size =
     shuffle_desc_init backward_data diff_data_desc axis group_size"

section \<open>Elementwise operations\<close>

definition eltwise_desc_init :: "prop_kind \<Rightarrow> alg_kind \<Rightarrow> memory_desc option \<Rightarrow> memory_desc option \<Rightarrow> float_bits \<Rightarrow>
    float_bits \<Rightarrow> eltwise_desc init_result" where
  "eltwise_desc_init prop alg data_desc diff_data_desc alpha beta =
     (case data_desc of None \<Rightarrow> Fails invalid_arguments
      | Some data_desc \<Rightarrow>
        if \<not> (prop \<in> {forward_training, forward_inference, backward_data} \<and>
              alg \<in> {eltwise_relu, eltwise_tanh, eltwise_elu, eltwise_square, eltwise_abs, eltwise_sqrt,
                eltwise_linear, eltwise_bounded_relu, eltwise_soft_relu, eltwise_logistic, eltwise_exp,
                eltwise_gelu, eltwise_swish} \<and>
              (prop = backward_data \<longrightarrow> diff_data_desc \<noteq> None) \<and>
              (md_data_type data_desc \<in> {s32, s8, u8} \<longrightarrow> alg = eltwise_relu \<and> f32_eq alpha 0))
        then Fails invalid_arguments
        else
          let ed = zero_eltwise_desc\<lparr>el_primitive_kind := pk_eltwise, el_prop_kind := prop, el_alg_kind := alg,
                el_data_desc := data_desc,
                el_diff_data_desc := (if prop = backward_data then the diff_data_desc else zero_md),
                el_alpha := alpha, el_beta := beta\<rparr>
          in if prop = backward_data \<and> \<not> copy_count_ok (md_ndims (el_diff_data_desc ed)) then Undefined
             else if prop = backward_data \<longrightarrow>
               array_cmp (md_dims (el_diff_data_desc ed)) (md_dims (el_data_desc ed)) (ndims (el_diff_data_desc ed))
             then Writes ed else Fails invalid_arguments)"

definition dnnl_eltwise_forward_desc_init where
  "dnnl_eltwise_forward_desc_init prop alg data_desc alpha beta =
     (if prop \<notin> {forward_training, forward_inference} then Fails invalid_arguments
      else eltwise_desc_init prop alg data_desc None alpha beta)"

definition dnnl_eltwise_backward_desc_init where
  "dnnl_eltwise_backward_desc_init alg diff_data_desc data_desc alpha beta =
     eltwise_desc_init backward_data alg data_desc diff_data_desc alpha beta"

section \<open>Creating concat, sum and reorder primitive descriptors\<close>

text \<open>The loop over an implementation list: the first implementation that succeeds.\<close>

fun first_success :: "(status \<times> 'pd option) list \<Rightarrow> status \<times> 'pd option" where
  "first_success [] = (unimplemented, None)"
| "first_success (r # rs) = (if fst r = success then (success, snd r) else first_success rs)"

text \<open>The loop over the sources of a concat; \<open>None\<close> is the early return.\<close>

definition concat_src_step :: "memory_desc list \<Rightarrow> int \<Rightarrow> nat \<Rightarrow> int option \<Rightarrow> int option" where
  "concat_src_step src_mds concat_dim i st =
     (case st of None \<Rightarrow> None
      | Some concat_dim_sz \<Rightarrow>
          if md_ndims (src_mds ! i) \<noteq> md_ndims (src_mds ! 0) then None
          else if \<not> all_upto (ndims (src_mds ! 0)) (\<lambda>d. int d = concat_dim \<or>
              \<not> md_dims (src_mds ! i) d \<noteq> md_dims (src_mds ! 0) d) then None
          else if md_data_type (src_mds ! i) \<noteq> md_data_type (src_mds ! 0) then None
          else Some (int32_cast (concat_dim_sz + md_dims (src_mds ! i) (nat concat_dim))))"

definition dnnl_concat_primitive_desc_create ::
  "(primitive_attr \<Rightarrow> memory_desc \<Rightarrow> int \<Rightarrow> int \<Rightarrow> memory_desc list \<Rightarrow> status \<times> 'pd option) list \<Rightarrow>
    memory_desc option \<Rightarrow> int \<Rightarrow> int \<Rightarrow> memory_desc list option \<Rightarrow> primitive_attr option \<Rightarrow>
    (status \<times> 'pd option) option" where
  "dnnl_concat_primitive_desc_create impls dst_md n concat_dim src_mds attr =
     (if src_mds = None \<or> \<not> n > 0 then Some (invalid_arguments, None)
      else if \<not> (0 \<le> concat_dim \<and> concat_dim < int DNNL_MAX_NDIMS) then None
      else
        let src_mds = the src_mds;
            attr = (case attr of None \<Rightarrow> new_primitive_attr | Some a \<Rightarrow> a);
            nd = md_ndims (src_mds ! 0); dims = md_dims (src_mds ! 0)
        in case for_range 1 (nat n) (concat_src_step src_mds concat_dim)
             (Some (int32_cast (dims (nat concat_dim)))) of
             None \<Rightarrow> Some (invalid_arguments, None)
           | Some concat_dim_sz \<Rightarrow>
             let checked = (case dst_md of
                   Some dst_md \<Rightarrow>
                     if md_ndims dst_md \<noteq> nd then None
                     else if \<not> all_upto (nat nd) (\<lambda>d. \<not> md_dims dst_md d \<noteq>
                         (if int d = concat_dim then concat_dim_sz else dims d)) then None
                     else Some dst_md
                 | None \<Rightarrow> Some ((src_mds ! 0)\<lparr>md_dims := dims(nat concat_dim := concat_dim_sz),
                     md_format_kind := fk_any\<rparr>))
             in case checked of
                  None \<Rightarrow> Some (invalid_arguments, None)
                | Some dst_md \<Rightarrow> Some (first_success (map (\<lambda>c. c attr dst_md n concat_dim src_mds) impls)))"

definition sum_src_step :: "memory_desc list \<Rightarrow> nat \<Rightarrow> bool \<Rightarrow> bool" where
  "sum_src_step src_mds i ok \<longleftrightarrow> ok \<and> md_ndims (src_mds ! i) = md_ndims (src_mds ! 0) \<and>
     all_upto (ndims (src_mds ! 0)) (\<lambda>d. \<not> md_dims (src_mds ! i) d \<noteq> md_dims (src_mds ! 0) d)"

definition dnnl_sum_primitive_desc_create ::
  "(primitive_attr \<Rightarrow> memory_desc \<Rightarrow> int \<Rightarrow> float_bits list \<Rightarrow> memory_desc list \<Rightarrow> status \<times> 'pd option) list \<Rightarrow>
    memory_desc option \<Rightarrow> int \<Rightarrow> float_bits list option \<Rightarrow> memory_desc list option \<Rightarrow> primitive_attr option \<Rightarrow>
    status \<times> 'pd option" where
  "dnnl_sum_primitive_desc_create impls dst_md n scales src_mds attr =
     (if src_mds = None \<or> scales = None \<or> \<not> n > 0 then (invalid_arguments, None)
      else
        let src_mds = the src_mds; scales = the scales;
            attr = (case attr of None \<Rightarrow> new_primitive_attr | Some a \<Rightarrow> a);
            nd = md_ndims (src_mds ! 0); dims = md_dims (src_mds ! 0)
        in if \<not> for_range 1 (nat n) (sum_src_step src_mds) True then (invalid_arguments, None)
           else
             let checked = (case dst_md of
                   Some dst_md \<Rightarrow>
                     if md_ndims dst_md \<noteq> nd then None
                     else if \<not> all_upto (nat nd) (\<lambda>d. \<not> md_dims dst_md d \<noteq> dims d) then None
                     else Some dst_md
                 | None \<Rightarrow> Some ((src_mds ! 0)\<lparr>md_format_kind := fk_any\<rparr>))
             in case checked of
                  None \<Rightarrow> (invalid_arguments, None)
                | Some dst_md \<Rightarrow> first_success (map (\<lambda>s. s attr dst_md n scales src_mds) impls))"

datatype backend_kind = backend_native | backend_ocl

record engine_info =
  ei_kind :: engine_kind
  ei_backend :: backend_kind

definition get_reorder_engine :: "engine_info \<Rightarrow> engine_info \<Rightarrow> engine_info" where
  "get_reorder_engine src_engine dst_engine =
     (if ei_backend dst_engine = backend_native then src_engine
      else if ei_backend src_engine = backend_native then dst_engine
      else if ei_kind dst_engine = engine_cpu then src_engine
      else if ei_kind src_engine = engine_cpu then dst_engine
      else src_engine)"

definition dnnl_reorder_primitive_desc_create ::
  "(engine_info \<Rightarrow> (primitive_attr \<Rightarrow> engine_info \<Rightarrow> memory_desc \<Rightarrow> engine_info \<Rightarrow> memory_desc \<Rightarrow>
      status \<times> 'pd option) list) \<Rightarrow>
    memory_desc option \<Rightarrow> engine_info option \<Rightarrow> memory_desc option \<Rightarrow> engine_info option \<Rightarrow> primitive_attr option \<Rightarrow>
    status \<times> 'pd option" where
  "dnnl_reorder_primitive_desc_create impls src_md src_engine dst_md dst_engine attr =
     (case (src_engine, src_md, dst_engine, dst_md) of
        (Some src_engine, Some src_md, Some dst_engine, Some dst_md) \<Rightarrow>
          let s_ek = ei_kind src_engine; d_ek = ei_kind dst_engine
          in if \<not> (s_ek \<noteq> d_ek \<longrightarrow> engine_cpu \<in> {s_ek, d_ek}) then (invalid_arguments, None)
             else if \<not> consistent_with src_md dst_md then (invalid_arguments, None)
             else
               let attr = (case attr of None \<Rightarrow> new_primitive_attr | Some a \<Rightarrow> a);
                   e = get_reorder_engine src_engine dst_engine
               in first_success (map (\<lambda>r. r attr src_engine src_md dst_engine dst_md) (impls e))
      | _ \<Rightarrow> (invalid_arguments, None))"

section \<open>The default statistics of layer normalization\<close>

text \<open>
  With the normalised dimension outermost the default statistics descriptor has stride 0: all
  statistics share one address.
\<close>

definition outermost_channel :: memory_desc where
  "outermost_channel = (shape_md [2, 3])\<lparr>md_format_kind := fk_blocked,
     blocking := zero_blocking_desc\<lparr>blk_strides := arr [1, 2]\<rparr>\<rparr>"

lemma lnorm_statistics_aliased:
  "\<exists>stat. lnorm_default_stat outermost_channel = Some stat \<and> md_dims stat 0 = 2 \<and>
     off_v stat (\<lambda>_. 0) False = off_v stat ((\<lambda>_. 0)(0 := 1)) False"
proof -
  have o: "md_ndims outermost_channel = 2" "ndims outermost_channel = 2" "md_dims outermost_channel = arr [2, 3]"
    "blk_strides (blocking outermost_channel) = arr [1, 2]"
    by (simp_all add: outermost_channel_def ndims_def)
  have d: "(1 :: int) sdiv 2 = 0" by (simp add: signed_divide_int_def)
  have strides: "for_upto 1 (lnorm_stat_stride outermost_channel) (Some (\<lambda>_. 0)) = Some (\<lambda>_. 0)"
    by (simp add: for_range_Suc lnorm_stat_stride_def o Let_def d fun_upd_def)
  let ?stat = "(fresh_md 1 (array_copy (\<lambda>_. 0) (arr [2, 3]) 1) f32 fk_blocked)"
  have "dnnl_memory_desc_init_by_strides 1 (Some (array_copy (\<lambda>_. 0) (arr [2, 3]) 1)) f32 (Some (\<lambda>_. 0)) =
      (success, Some (?stat\<lparr>blocking := (blocking ?stat)\<lparr>blk_strides :=
        array_copy (blk_strides (blocking ?stat)) (\<lambda>_. 0) (ndims ?stat)\<rparr>\<rparr>))"
    by (simp add: dnnl_memory_desc_init_by_strides_def memory_desc_sanity_check_def Let_def array_copy_eq)
  then have st: "lnorm_default_stat outermost_channel = Some (?stat\<lparr>blocking := (blocking ?stat)\<lparr>blk_strides :=
        array_copy (blk_strides (blocking ?stat)) (\<lambda>_. 0) (ndims ?stat)\<rparr>\<rparr>)"
    using strides by (simp add: lnorm_default_stat_def o init_into_def)
  show ?thesis
    unfolding st by (simp add: off_v_def fresh_md_def zero_md_def zero_blocking_desc_def ndims_def array_copy_eq
        for_range_Suc Let_def)
qed

section \<open>Failures\<close>

text \<open>A clean result: a descriptor is written, or the arguments are rejected.\<close>

definition clean :: "'d init_result \<Rightarrow> bool" where
  "clean r = (case r of Undefined \<Rightarrow> False | Fails st \<Rightarrow> st = invalid_arguments | Writes _ \<Rightarrow> True)"

lemma clean_simps [simp]: "\<not> clean Undefined" "clean (Fails st) \<longleftrightarrow> st = invalid_arguments" "clean (Writes d)"
  by (simp_all add: clean_def)

lemma for_range_defined:
  assumes "\<And>i b. i \<in> {lo..<hi} \<Longrightarrow> f i (Some b) \<noteq> None"
  shows "\<exists>b. for_range lo hi f (Some c) = Some (b :: bool)"
proof (cases "lo \<le> hi")
  case True
  then show ?thesis
    using assms
  proof (induction hi rule: dec_induct)
    case (step n)
    then obtain b where "for_range lo n f (Some c) = Some b" by auto
    moreover have "f n (Some b) \<noteq> None" using step by auto
    ultimately show ?case using step.hyps by (auto simp: for_range_Suc)
  qed simp
qed simp

lemma lnorm_default_stat_defined:
  assumes "blk_strides (blocking md) (ndims md - 1) \<noteq> 0"
  shows "lnorm_default_stat md \<noteq> None"
proof -
  have "for_upto n (lnorm_stat_stride md) (Some s) \<noteq> None" for n s
    using assms by (induction n) (auto simp: for_range_Suc lnorm_stat_stride_def Let_def split: option.splits)
  then show ?thesis by (auto simp: lnorm_default_stat_def Let_def split: option.split)
qed



end
