(* ===== verification/Par_Loops.thy ===== *)
theory Par_Loops
  imports Simple_Reorder
begin

text \<open>
  Lemmas about the parallel loops of the reference implementations: a loop over a box of indices
  is a fold over the list of its indices, a loop that writes every address at most once leaves
  the written value there, and a loop that accumulates computes a sum.
\<close>

section \<open>Loops that write\<close>

lemma fold_writes:
  assumes "\<And>x y. x \<in> set xs \<Longrightarrow> y \<in> set xs \<Longrightarrow> dst x = dst y \<Longrightarrow> v x = v y"
  shows "x \<in> set xs \<Longrightarrow> fold (\<lambda>x out. out(dst x := v x)) xs out (dst x) = v x"
    and "a \<notin> dst ` set xs \<Longrightarrow> fold (\<lambda>x out. out(dst x := v x)) xs out a = out a"
proof -
  have "(\<forall>x\<in>set xs. fold (\<lambda>x out. out(dst x := v x)) xs out (dst x) = v x) \<and>
      (a \<notin> dst ` set xs \<longrightarrow> fold (\<lambda>x out. out(dst x := v x)) xs out a = out a)"
    using assms
  proof (induction xs rule: rev_induct)
    case (snoc y ys)
    have eq: "v z = v y" if "z \<in> set ys" "dst z = dst y" for z using snoc.prems [of z y] that by simp
    have IH: "(\<forall>x\<in>set ys. fold (\<lambda>x out. out(dst x := v x)) ys out (dst x) = v x) \<and>
        (a \<notin> dst ` set ys \<longrightarrow> fold (\<lambda>x out. out(dst x := v x)) ys out a = out a)"
      by (rule snoc.IH) (rule snoc.prems, simp_all)
    define F where "F = fold (\<lambda>x out. out(dst x := v x)) ys out"
    have "fold (\<lambda>x out. out(dst x := v x)) (ys @ [y]) out = F(dst y := v y)"
      by (simp add: F_def del: fun_upd_apply)
    then show ?case using IH eq by (simp only: F_def [symmetric]) auto
  qed simp
  then show "x \<in> set xs \<Longrightarrow> fold (\<lambda>x out. out(dst x := v x)) xs out (dst x) = v x"
    and "a \<notin> dst ` set xs \<Longrightarrow> fold (\<lambda>x out. out(dst x := v x)) xs out a = out a" by auto
qed

lemma in_box_Cons1: "in_box (r # rs) ix \<longleftrightarrow> (\<exists>x xs. ix = x # xs \<and> x < r \<and> in_box rs xs)"
  by (cases ix) auto

definition box_list :: "nat list \<Rightarrow> nat list list" where
  "box_list Ds = map (radix_digits Ds) [0..<prod_list Ds]"

lemma par_for_box: "par_for Ds f s = fold f (box_list Ds) s"
  by (simp add: par_for_eq box_list_def for_range_def fold_map comp_def)

lemma set_box_list: "set (box_list Ds) = {ix. in_box Ds ix}"
proof -
  have "ix \<in> radix_digits Ds ` {0..<prod_list Ds}" if "in_box Ds ix" for ix
    using radix_digits_val [OF that] radix_val_less [OF that] by (metis atLeastLessThan_iff image_eqI le0)
  moreover have "in_box Ds (radix_digits Ds n)" if "n < prod_list Ds" for n
    by (rule radix_digits_in_box) (use that in simp)
  ultimately show ?thesis by (auto simp: box_list_def)
qed

text \<open>A parallel loop with a sequential loop in its body is one list of steps.\<close>

definition nest_list :: "nat list \<Rightarrow> (nat list \<Rightarrow> nat) \<Rightarrow> (nat list \<times> nat) list" where
  "nest_list Ds m = concat (map (\<lambda>ix. map (Pair ix) [0..<m ix]) (box_list Ds))"

lemma set_nest_list: "set (nest_list Ds m) = {(ix, k). in_box Ds ix \<and> k < m ix}"
  by (auto simp: nest_list_def set_box_list)

lemma par_for_nest:
  "par_for Ds (\<lambda>ix. for_upto (m ix) (f ix)) s = fold (\<lambda>(ix, k). f ix k) (nest_list Ds m) s"
proof -
  have "fold (\<lambda>ix. for_upto (m ix) (f ix)) ixs s =
      fold (\<lambda>(ix, k). f ix k) (concat (map (\<lambda>ix. map (Pair ix) [0..<m ix]) ixs)) s" for ixs
    by (induction ixs arbitrary: s) (simp_all add: for_range_def fold_map comp_def)
  then show ?thesis by (simp add: par_for_box nest_list_def)
qed

section \<open>Loops that accumulate\<close>

lemma for_upto_sum_fun:
  "for_upto n (\<lambda>i d. d + f i) = (\<lambda>d. d + (\<Sum>i<n. f i :: 'a :: comm_monoid_add))"
  by (rule ext, induction n) (simp_all add: for_range_Suc add.assoc)

text \<open>The same with the body given up to its sum, for nests of loops.\<close>

lemma acc_loop:
  assumes "\<And>i d. f i d = d + t i"
  shows "for_upto n f d = d + (\<Sum>i<n. t i :: 'a :: comm_monoid_add)"
proof -
  have "f = (\<lambda>i d. d + t i)" using assms by (intro ext)
  then show ?thesis by (simp add: for_upto_sum_fun)
qed

lemma acc_loop_0:
  "(\<And>i d. f i d = d + t i) \<Longrightarrow> for_upto n f 0 = (\<Sum>i<n. t i :: 'a :: comm_monoid_add)"
  using acc_loop [of f t n 0] by simp

text \<open>A guarded sum with at most one hit.\<close>

lemma sum_hit:
  "(\<Sum>i<nat n. if p = int i \<and> Q then f (int i) else 0) =
    (if 0 \<le> p \<and> p < n \<and> Q then f p else (0 :: 'a :: comm_monoid_add))"
proof (cases "0 \<le> p \<and> p < n \<and> Q")
  case True
  then have "(\<Sum>i<nat n. if p = int i \<and> Q then f (int i) else 0) =
      (\<Sum>i<nat n. if i = nat p then f p else 0)"
    by (intro sum.cong) auto
  then show ?thesis using True by simp
next
  case False
  then have "(\<Sum>i<nat n. if p = int i \<and> Q then f (int i) else 0) = 0"
    by (intro sum.neutral) auto
  then show ?thesis using False by auto
qed

lemma sum_hit3:
  "(\<Sum>a<nat A. \<Sum>b<nat B. \<Sum>c<nat C.
      if p = int a \<and> q = int b \<and> r = int c then f (int a) (int b) (int c) else 0) =
    (if 0 \<le> p \<and> p < A \<and> 0 \<le> q \<and> q < B \<and> 0 \<le> r \<and> r < C then f p q r else (0 :: 'a :: comm_monoid_add))"
proof -
  have c: "(\<Sum>c<nat C. if p = int a \<and> q = int b \<and> r = int c then f (int a) (int b) (int c) else 0) =
      (if p = int a \<and> q = int b \<and> 0 \<le> r \<and> r < C then f (int a) (int b) r else 0)" for a b
    using sum_hit [where n = C and p = r and Q = "p = int a \<and> q = int b" and f = "f (int a) (int b)"] by (simp add: conj_ac)
  have b: "(\<Sum>b<nat B. if p = int a \<and> q = int b \<and> 0 \<le> r \<and> r < C then f (int a) (int b) r else 0) =
      (if p = int a \<and> 0 \<le> q \<and> q < B \<and> 0 \<le> r \<and> r < C then f (int a) q r else 0)" for a
    using sum_hit [where n = B and p = q and Q = "p = int a \<and> 0 \<le> r \<and> r < C" and f = "\<lambda>b. f (int a) b r"] by (simp add: conj_ac)
  show ?thesis
    using sum_hit [where n = A and p = p and Q = "0 \<le> q \<and> q < B \<and> 0 \<le> r \<and> r < C" and f = "\<lambda>a. f a q r"] by (simp add: b c)
qed

section \<open>Sums over a box\<close>

lemma finite_box [simp]: "finite {xs. in_box rs xs}"
  by (simp flip: set_box_list)

lemma sum_box_Nil: "(\<Sum>xs | in_box [] xs. f xs) = f []"
proof -
  have "{xs. in_box [] xs} = {[]}" by (auto simp: in_box_def)
  then show ?thesis by simp
qed

lemma sum_box_Cons:
  "(\<Sum>xs | in_box (r # rs) xs. f xs) = (\<Sum>x<r. \<Sum>xs | in_box rs xs. f (x # xs))"
proof -
  have "(\<Sum>x<r. \<Sum>xs | in_box rs xs. f (x # xs)) =
      (\<Sum>(x, xs)\<in>{..<r} \<times> {xs. in_box rs xs}. f (x # xs))"
    by (rule sum.cartesian_product)
  also have "\<dots> = (\<Sum>xs | in_box (r # rs) xs. f xs)"
    by (rule sum.reindex_bij_witness [of _ "\<lambda>xs. (hd xs, tl xs)" "\<lambda>(x, xs). x # xs"])
      (auto simp: in_box_Cons1)
  finally show ?thesis by simp
qed

lemmas sum_box = sum_box_Cons sum_box_Nil

lemma sum_groups:
  "(\<Sum>c<n * m. f c) = (\<Sum>g<n. \<Sum>k<m. f (g * m + k :: nat) :: 'a :: comm_monoid_add)"
proof -
  have "sum f {g * m..<g * m + m} = (\<Sum>k<m. f (g * m + k))" for g
    using sum.shift_bounds_nat_ivl [of f 0 "g * m" m] by (simp add: atLeast0LessThan add.commute)
  then show ?thesis by (simp flip: sum.nat_group)
qed

section \<open>Offsets of logical positions\<close>

lemma off_inj:
  assumes "wf_logical md" "in_box (extents md False) xs" "in_box (extents md False) ys"
    and "off md (map int xs) = off md (map int ys)"
  shows "xs = ys"
proof -
  have pos: "arr (map int zs) = pos_of zs" if "in_box (extents md False) zs" for zs
    by (auto simp: pos_of_def arr_def fun_eq_iff)
  have ins: "inside_padding md" using assms(1) by (simp add: wf_logical_def)
  obtain perm where "dense_layout md perm" using assms(1) by (auto simp: wf_logical_def wf_padded_def)
  then have "shift_pos md (pos_of xs) = shift_pos md (pos_of ys)"
    using assms(4) off_v_dense_inj [OF _ shift_pos_in_padded [OF ins assms(2)] shift_pos_in_padded [OF ins assms(3)]]
    by (simp add: off_def off_v_shift pos assms(2,3))
  moreover have "length zs = ndims md" if "in_box (extents md False) zs" for zs
    using in_box_length [OF that] by (simp add: extents_def)
  ultimately show ?thesis using assms(2,3) by (intro shift_pos_inj) auto
qed

section \<open>Nests of loops as one list\<close>

lemma fold_product: "fold (\<lambda>x. fold (f x) ys) xs = fold (\<lambda>(x, y). f x y) (List.product xs ys)"
proof (rule ext)
  show "fold (\<lambda>x. fold (f x) ys) xs s = fold (\<lambda>(x, y). f x y) (List.product xs ys) s" for s
    by (induction xs arbitrary: s) (simp_all add: fold_map comp_def)
qed

lemma for_upto_fold: "for_upto n f = fold f [0..<n]"
  by (simp add: for_range_def fun_eq_iff)

lemma fold_pair: "fold (\<lambda>x (a, b). (f x a, g x b)) xs (a, b) = (fold f xs a, fold g xs b)"
  by (induction xs arbitrary: a b) simp_all

text \<open>Writes at distinct addresses: what is read at each of them, and everywhere else.\<close>

lemma par_for_writes:
  assumes "inj_on dst {ix. in_box Ds ix}"
  shows "in_box Ds ix \<Longrightarrow> par_for Ds (\<lambda>ix out. out(dst ix := v ix)) out (dst ix) = v ix"
    and "a \<notin> dst ` {ix. in_box Ds ix} \<Longrightarrow> par_for Ds (\<lambda>ix out. out(dst ix := v ix)) out a = out a"
proof -
  have eq: "v x = v y" if "x \<in> set (box_list Ds)" "y \<in> set (box_list Ds)" "dst x = dst y" for x y
    using inj_onD [OF assms that(3)] that(1,2) by (simp add: set_box_list)
  show "in_box Ds ix \<Longrightarrow> par_for Ds (\<lambda>ix out. out(dst ix := v ix)) out (dst ix) = v ix"
    unfolding par_for_box by (rule fold_writes(1)) (blast intro: eq, simp add: set_box_list)
  show "a \<notin> dst ` {ix. in_box Ds ix} \<Longrightarrow> par_for Ds (\<lambda>ix out. out(dst ix := v ix)) out a = out a"
    unfolding par_for_box set_box_list [symmetric] by (rule fold_writes(2)) (blast intro: eq)
qed

lemma mult_add_less: "g < n \<Longrightarrow> c < m \<Longrightarrow> g * m + c < n * (m :: nat)"
  using mult_le_mono1 [of "Suc g" n m] by simp

lemma digit_eq:
  assumes "a * m + b = c * m + d" "b < m" "d < (m :: nat)"
  shows "a = c \<and> b = d"
proof -
  have "(a * m + b) div m = a" "(c * m + d) div m = c" "(a * m + b) mod m = b" "(c * m + d) mod m = d"
    using assms(2,3) by simp_all
  then show ?thesis using assms(1) by metis
qed

lemma in_box_6:
  "in_box [a, b, c, d, e, f] ix \<Longrightarrow>
    \<exists>x0 x1 x2 x3 x4 x5. ix = [x0, x1, x2, x3, x4, x5] \<and> x0 < a \<and> x1 < b \<and> x2 < c \<and> x3 < d \<and> x4 < e \<and> x5 < f"
  by (auto simp: in_box_def list_all2_Cons1)

lemma addr_logical_off:
  assumes "\<And>d. d < ndims md \<Longrightarrow> 0 < md_dims md d"
  shows "addr_logical md e = off md (map int (radix_digits (extents md False) e))"
proof -
  have "pos_of xs = arr (map int xs)" for xs by (auto simp: pos_of_def arr_def fun_eq_iff)
  then show ?thesis using assms by (simp add: addr_logical_def off_l_def off_l_pos_eq off_def)
qed

end
