(* ===== verification/Ref_Shuffle.thy ===== *)
theory Ref_Shuffle
  imports Op_Desc_More Par_Loops
begin

text \<open>
  The channel shuffle of \<open>src/src/cpu/ref_shuffle.{hpp,cpp}\<close>: the constructor's table, the choice of
  a layout-specific loop nest and the four loop nests. Parallel loops run in row-major order
  (\<open>par_for\<close>), which \<open>parallel_nd_any_schedule\<close> justifies; offsets are unbounded integers.
  A buffer is a function from element addresses to elements.
\<close>

section \<open>The descriptor's dimensions\<close>

definition shuffle_MB :: "memory_desc \<Rightarrow> dim_t" where
  "shuffle_MB md = md_dims md 0"

definition shuffle_C :: "memory_desc \<Rightarrow> dim_t" where
  "shuffle_C md = (if md_ndims md \<ge> 2 then md_dims md 1 else 1)"

definition shuffle_D :: "memory_desc \<Rightarrow> dim_t" where
  "shuffle_D md = (if md_ndims md \<ge> 5 then md_dims md (ndims md - 3) else 1)"

definition shuffle_H :: "memory_desc \<Rightarrow> dim_t" where
  "shuffle_H md = (if md_ndims md \<ge> 4 then md_dims md (ndims md - 2) else 1)"

definition shuffle_W :: "memory_desc \<Rightarrow> dim_t" where
  "shuffle_W md = (if md_ndims md \<ge> 3 then md_dims md (ndims md - 1) else 1)"

definition shuffle_axis_size :: "shuffle_desc \<Rightarrow> dim_t" where
  "shuffle_axis_size sd = md_dims (sh_data_desc sd) (nat (sh_axis sd))"

section \<open>Initialisation\<close>

abbreviation "nCdhw16c \<equiv> Tag ''aBcde16b''"
abbreviation "nCdhw8c \<equiv> Tag ''aBcde8b''"
abbreviation "nCdhw4c \<equiv> Tag ''aBcde4b''"
abbreviation "nChw16c \<equiv> Tag ''aBcd16b''"
abbreviation "nChw8c \<equiv> Tag ''aBcd8b''"
abbreviation "nChw4c \<equiv> Tag ''aBcd4b''"
abbreviation "ncdhw \<equiv> Tag ''abcde''"
abbreviation "ndhwc \<equiv> Tag ''acdeb''"
abbreviation "nchw \<equiv> Tag ''abcd''"
abbreviation "nhwc \<equiv> Tag ''acdb''"

text \<open>The layout tag the primitive descriptor settles on; \<open>None\<close> is \<open>unimplemented\<close>.\<close>

definition ref_shuffle_pd_init :: "nat \<Rightarrow> bool \<Rightarrow> shuffle_desc \<Rightarrow> format_tag option" where
  "ref_shuffle_pd_init template_size has_avx512_core sd =
     (let md = sh_data_desc sd
      in if \<not> (template_size = data_type_size (md_data_type md) \<and>
               (md_data_type md = bf16 \<longrightarrow> has_avx512_core)) then None
         else Some (if md_ndims md = 5 then memory_desc_matches_one_of_tag md [nCdhw16c, nCdhw8c, ncdhw, ndhwc]
           else if md_ndims md = 4 then memory_desc_matches_one_of_tag md [nChw16c, nChw8c, nchw, nhwc]
           else ft_any))"

text \<open>The table of the constructor: which source index an output index reads.\<close>

definition rev_transposed :: "shuffle_desc \<Rightarrow> (nat \<Rightarrow> int) \<Rightarrow> nat \<Rightarrow> int" where
  "rev_transposed sd uninit =
     (let axis_size = int32_cast (shuffle_axis_size sd);
          group_size = int32_cast (sh_group_size sd);
          fwd = is_fwd_kind (sh_prop_kind sd);
          transpose_row = (if fwd then group_size else axis_size sdiv group_size);
          transpose_col = (if fwd then axis_size sdiv group_size else group_size)
      in par_for [nat transpose_col, nat transpose_row]
           (\<lambda>ix t. t(ix ! 1 * nat transpose_col + ix ! 0 := int (ix ! 0) * transpose_row + int (ix ! 1)))
           uninit)"

section \<open>Execution\<close>

definition shuffle_blksize :: "format_tag \<Rightarrow> nat" where
  "shuffle_blksize tag = (if tag \<in> {nChw16c, nCdhw16c} then 16 else if tag \<in> {nChw8c, nCdhw8c} then 8 else 4)"

definition shuffle_SP :: "memory_desc \<Rightarrow> int" where
  "shuffle_SP md =
     (if md_ndims md \<in> {3, 4, 5}
      then int32_cast (shuffle_D md) * (int32_cast (shuffle_H md) * int32_cast (shuffle_W md)) else 1)"

definition shuffle_execute_blocked :: "nat \<Rightarrow> memory_desc \<Rightarrow> (nat \<Rightarrow> int) \<Rightarrow> (int \<Rightarrow> 'e) \<Rightarrow> (int \<Rightarrow> 'e) \<Rightarrow> int \<Rightarrow> 'e" where
  "shuffle_execute_blocked blksize md rev_tr inp outp =
     (let MB = int32_cast (shuffle_MB md); C = int32_cast (shuffle_C md); SP = shuffle_SP md;
          stride_mb = blk_strides (blocking md) 0
      in par_for [nat MB, nat (div_up C (int blksize)), nat SP]
           (\<lambda>ix outp.
              let mb = int (ix ! 0); c = ix ! 1; sp = int (ix ! 2);
                  off = mb * stride_mb + sp * int blksize;
                  cb = c * blksize;
                  output_off = off + int cb * SP
              in for_upto (min blksize (nat C - cb))
                   (\<lambda>cc outp.
                      let input_c = rev_tr (cb + cc);
                          input_off = off + input_c sdiv int blksize * SP * int blksize + input_c smod int blksize
                      in outp(output_off + int cc := inp input_off))
                   outp)
           outp)"

definition shuffle_execute_nhwc :: "memory_desc \<Rightarrow> (nat \<Rightarrow> int) \<Rightarrow> (int \<Rightarrow> 'e) \<Rightarrow> (int \<Rightarrow> 'e) \<Rightarrow> int \<Rightarrow> 'e" where
  "shuffle_execute_nhwc md rev_tr inp outp =
     (let MB = int32_cast (shuffle_MB md); C = int32_cast (shuffle_C md); SP = shuffle_SP md;
          stride_mb = blk_strides (blocking md) 0
      in par_for [nat MB, nat SP]
           (\<lambda>ix outp.
              let off = int (ix ! 0) * stride_mb + int (ix ! 1) * C
              in for_upto (nat C) (\<lambda>c outp. outp(off + int c := inp (off + rev_tr c))) outp)
           outp)"

definition shuffle_execute_nchw :: "memory_desc \<Rightarrow> (nat \<Rightarrow> int) \<Rightarrow> (int \<Rightarrow> 'e) \<Rightarrow> (int \<Rightarrow> 'e) \<Rightarrow> int \<Rightarrow> 'e" where
  "shuffle_execute_nchw md rev_tr inp outp =
     (let MB = int32_cast (shuffle_MB md); C = int32_cast (shuffle_C md); SP = shuffle_SP md;
          stride_mb = blk_strides (blocking md) 0
      in par_for [nat MB, nat C]
           (\<lambda>ix outp.
              let output_off = int (ix ! 0) * stride_mb + int (ix ! 1) * SP;
                  input_off = int (ix ! 0) * stride_mb + rev_tr (ix ! 1) * SP
              in for_upto (nat SP) (\<lambda>sp outp. outp(output_off + int sp := inp (input_off + int sp))) outp)
           outp)"

definition shuffle_execute_any :: "shuffle_desc \<Rightarrow> (nat \<Rightarrow> int) \<Rightarrow> (int \<Rightarrow> 'e) \<Rightarrow> (int \<Rightarrow> 'e) \<Rightarrow> int \<Rightarrow> 'e" where
  "shuffle_execute_any sd rev_tr inp outp =
     (let md = sh_data_desc sd; axis = nat (sh_axis sd);
          axis_size = int32_cast (shuffle_axis_size sd);
          outer_size = array_product (md_dims md) axis;
          inner_size = array_product (from_index (axis + 1) (md_dims md)) (ndims md - axis - 1);
          dim = axis_size * inner_size
      in par_for [nat outer_size, nat axis_size, nat inner_size]
           (\<lambda>ix outp.
              let off = int (ix ! 0) * dim + int (ix ! 2)
              in outp(off_l md (off + int (ix ! 1) * inner_size) False :=
                   inp (off_l md (off + rev_tr (ix ! 1) * inner_size) False)))
           outp)"

definition shuffle_execute_tag :: "format_tag \<Rightarrow> shuffle_desc \<Rightarrow> (nat \<Rightarrow> int) \<Rightarrow> (int \<Rightarrow> 'e) \<Rightarrow> (int \<Rightarrow> 'e) \<Rightarrow>
    int \<Rightarrow> 'e" where
  "shuffle_execute_tag tag sd rev_tr inp outp =
     (if sh_axis sd = 1 \<and> tag \<in> {nChw16c, nChw8c, nChw4c, nCdhw16c, nCdhw8c, nCdhw4c}
      then shuffle_execute_blocked (shuffle_blksize tag) (sh_data_desc sd) rev_tr inp outp
      else if sh_axis sd = 1 \<and> tag \<in> {nhwc, ndhwc}
      then shuffle_execute_nhwc (sh_data_desc sd) rev_tr inp outp
      else if sh_axis sd = 1 \<and> tag \<in> {nchw, ncdhw}
      then shuffle_execute_nchw (sh_data_desc sd) rev_tr inp outp
      else shuffle_execute_any sd rev_tr inp outp)"

definition shuffle_execute :: "format_tag \<Rightarrow> shuffle_desc \<Rightarrow> (nat \<Rightarrow> int) \<Rightarrow> (int \<Rightarrow> 'e) \<Rightarrow> (int \<Rightarrow> 'e) \<Rightarrow> int \<Rightarrow> 'e" where
  "shuffle_execute dat_tag sd rev_tr inp outp =
     shuffle_execute_tag
       (if dat_tag \<in> {nCdhw16c, nChw16c, nCdhw8c, nChw8c, nCdhw4c, nChw4c, ncdhw, nchw, ndhwc, nhwc}
        then dat_tag else ft_any)
       sd rev_tr inp outp"

section \<open>The table\<close>

text \<open>Shuffles of accepted descriptors over dense tensors whose extents fit \<open>int\<close>.\<close>

definition wf_shuffle :: "shuffle_desc \<Rightarrow> bool" where
  "wf_shuffle sd \<longleftrightarrow> (let md = sh_data_desc sd in
     wf_logical md \<and> 0 \<le> sh_axis sd \<and> sh_axis sd < md_ndims md \<and> 0 < sh_group_size sd \<and>
     sh_group_size sd dvd shuffle_axis_size sd \<and> (\<forall>d<ndims md. md_dims md d \<le> INT32_MAX))"

definition sh_rows :: "shuffle_desc \<Rightarrow> nat" where
  "sh_rows sd = nat (if is_fwd_kind (sh_prop_kind sd) then sh_group_size sd
     else shuffle_axis_size sd div sh_group_size sd)"

definition sh_cols :: "shuffle_desc \<Rightarrow> nat" where
  "sh_cols sd = nat (if is_fwd_kind (sh_prop_kind sd) then shuffle_axis_size sd div sh_group_size sd
     else sh_group_size sd)"

text \<open>The transposition of a matrix with the given rows and columns, on linear indices.\<close>

definition transposed :: "nat \<Rightarrow> nat \<Rightarrow> nat \<Rightarrow> nat" where
  "transposed rows cols a = (a mod cols) * rows + a div cols"

lemma transposed_less: "a < rows * cols \<Longrightarrow> transposed rows cols a < rows * cols"
proof -
  assume a: "a < rows * cols"
  then have c: "0 < cols" "0 < rows" by (auto intro: gr0I)
  have "a div cols < rows" using a by (simp add: less_mult_imp_div_less)
  moreover have "(a mod cols) * rows + rows \<le> cols * rows"
    using c mult_le_mono1 [of "Suc (a mod cols)" cols rows] by (simp add: Suc_leI)
  ultimately show ?thesis by (simp add: transposed_def mult.commute)
qed

lemma transposed_twice: "a < rows * cols \<Longrightarrow> transposed rows cols (transposed cols rows a) = a"
proof -
  assume a: "a < rows * cols"
  then have c: "0 < cols" "0 < rows" by (auto intro: gr0I)
  have "a div rows < cols" using a by (simp add: less_mult_imp_div_less mult.commute)
  then have "transposed cols rows a mod cols = a div rows" "transposed cols rows a div cols = a mod rows"
    using c by (simp_all add: transposed_def)
  then show ?thesis by (simp add: transposed_def)
qed

lemma wf_shuffle_axis:
  assumes "wf_shuffle sd"
  shows "nat (sh_axis sd) < ndims (sh_data_desc sd)" "0 < shuffle_axis_size sd"
    "shuffle_axis_size sd \<le> INT32_MAX" "0 < sh_group_size sd" "sh_group_size sd \<le> shuffle_axis_size sd"
    "int (sh_rows sd * sh_cols sd) = shuffle_axis_size sd" "0 < sh_rows sd" "0 < sh_cols sd"
proof -
  have g: "0 < sh_group_size sd" "sh_group_size sd dvd shuffle_axis_size sd"
    and ax: "nat (sh_axis sd) < ndims (sh_data_desc sd)"
    using assms by (auto simp: wf_shuffle_def Let_def ndims_def)
  have pos: "0 < shuffle_axis_size sd" "shuffle_axis_size sd \<le> INT32_MAX"
    using assms ax by (simp_all add: wf_shuffle_def Let_def wf_logical_def inside_padding_def shuffle_axis_size_def)
  have le: "sh_group_size sd \<le> shuffle_axis_size sd" using zdvd_imp_le [OF g(2)] pos by simp
  have q: "0 < shuffle_axis_size sd div sh_group_size sd" using g(1) le by (simp add: pos_imp_zdiv_pos_iff)
  have "sh_group_size sd * (shuffle_axis_size sd div sh_group_size sd) = shuffle_axis_size sd"
    using g(2) by simp
  then show "int (sh_rows sd * sh_cols sd) = shuffle_axis_size sd" "0 < sh_rows sd" "0 < sh_cols sd"
    using g(1) q by (auto simp: sh_rows_def sh_cols_def mult.commute)
  show "nat (sh_axis sd) < ndims (sh_data_desc sd)" "0 < shuffle_axis_size sd"
    "shuffle_axis_size sd \<le> INT32_MAX" "0 < sh_group_size sd" "sh_group_size sd \<le> shuffle_axis_size sd"
    using ax pos g(1) le by simp_all
qed

lemma rev_transposed_eq:
  assumes wf: "wf_shuffle sd" and a: "int a < shuffle_axis_size sd"
  shows "rev_transposed sd uninit a = int (transposed (sh_rows sd) (sh_cols sd) a)"
proof -
  let ?R = "sh_rows sd" and ?K = "sh_cols sd"
  note ax = wf_shuffle_axis [OF wf]
  have aRK: "a < ?R * ?K" using a unfolding ax(6) [symmetric] of_nat_less_iff .
  have tab: "rev_transposed sd uninit =
      fold (\<lambda>ix t. t(ix ! 1 * ?K + ix ! 0 := int (ix ! 0 * ?R + ix ! 1))) (box_list [?K, ?R]) uninit"
    using ax(2-5) by (simp add: rev_transposed_def Let_def int32_cast_id sh_rows_def sh_cols_def par_for_box
        cdiv_simps pos_imp_zdiv_nonneg_iff)
  let ?ix = "[a mod ?K, a div ?K]"
  have box: "?ix \<in> set (box_list [?K, ?R])"
    using aRK ax(8) by (simp add: set_box_list less_mult_imp_div_less)
  have inj: "ix = iy" if e: "ix \<in> set (box_list [?K, ?R])" "iy \<in> set (box_list [?K, ?R])"
    "ix ! 1 * ?K + ix ! 0 = iy ! 1 * ?K + iy ! 0" for ix iy
  proof -
    obtain i j i' j' where x: "ix = [i, j]" "i < ?K" and y: "iy = [i', j']" "i' < ?K"
      using e(1,2) by (auto simp: set_box_list in_box_Cons1)
    have "(j * ?K + i) mod ?K = (j' * ?K + i') mod ?K" "(j * ?K + i) div ?K = (j' * ?K + i') div ?K"
      using e(3) x y by simp_all
    then show ?thesis using x y by simp
  qed
  have "rev_transposed sd uninit (?ix ! 1 * ?K + ?ix ! 0) = int (?ix ! 0 * ?R + ?ix ! 1)"
    unfolding tab by (rule fold_writes(1) [OF _ box]) (use inj in blast)
  then show ?thesis by (simp add: transposed_def)
qed

lemma rev_transposed_bounds:
  assumes "wf_shuffle sd" "int a < shuffle_axis_size sd"
  shows "0 \<le> rev_transposed sd uninit a" "rev_transposed sd uninit a < shuffle_axis_size sd"
proof -
  note ax = wf_shuffle_axis(6) [OF assms(1), symmetric]
  have "a < sh_rows sd * sh_cols sd" using assms(2) unfolding ax of_nat_less_iff .
  then have "transposed (sh_rows sd) (sh_cols sd) a < sh_rows sd * sh_cols sd" by (rule transposed_less)
  then show "0 \<le> rev_transposed sd uninit a" "rev_transposed sd uninit a < shuffle_axis_size sd"
    unfolding rev_transposed_eq [OF assms] ax of_nat_less_iff by simp_all
qed

section \<open>What a shuffle must do\<close>

definition sh_outer :: "shuffle_desc \<Rightarrow> nat" where
  "sh_outer sd = nat (array_product (md_dims (sh_data_desc sd)) (nat (sh_axis sd)))"

definition sh_size :: "shuffle_desc \<Rightarrow> nat" where
  "sh_size sd = nat (shuffle_axis_size sd)"

definition sh_inner :: "shuffle_desc \<Rightarrow> nat" where
  "sh_inner sd = nat (array_product (from_index (nat (sh_axis sd) + 1) (md_dims (sh_data_desc sd)))
     (ndims (sh_data_desc sd) - nat (sh_axis sd) - 1))"

text \<open>The logical number of the element with axis index \<open>a\<close>.\<close>

definition sh_elem :: "shuffle_desc \<Rightarrow> nat \<Rightarrow> nat \<Rightarrow> nat \<Rightarrow> nat" where
  "sh_elem sd ou a i = (ou * sh_size sd + a) * sh_inner sd + i"

text \<open>
  The contract, whatever the layout: every element is the source element whose axis index the
  table gives, and nothing else is written.
\<close>

definition shuffled :: "shuffle_desc \<Rightarrow> (nat \<Rightarrow> int) \<Rightarrow> (int \<Rightarrow> 'e) \<Rightarrow> (int \<Rightarrow> 'e) \<Rightarrow> (int \<Rightarrow> 'e) \<Rightarrow> bool" where
  "shuffled sd rev_tr inp outp res \<longleftrightarrow>
     (\<forall>ou < sh_outer sd. \<forall>a < sh_size sd. \<forall>i < sh_inner sd.
        res (off_l (sh_data_desc sd) (int (sh_elem sd ou a i)) False) =
        inp (off_l (sh_data_desc sd) (int (sh_elem sd ou (nat (rev_tr a)) i)) False)) \<and>
     (\<forall>x. x \<notin> addr_logical (sh_data_desc sd) ` {..<count_logical (sh_data_desc sd)} \<longrightarrow> res x = outp x)"

lemma sh_count:
  assumes "wf_shuffle sd"
  shows "count_logical (sh_data_desc sd) = sh_outer sd * sh_size sd * sh_inner sd"
    "0 < sh_outer sd" "0 < sh_size sd" "0 < sh_inner sd"
proof -
  let ?md = "sh_data_desc sd" and ?ax = "nat (sh_axis sd)"
  have wf: "wf_logical ?md" using assms by (simp add: wf_shuffle_def Let_def)
  then have d: "\<And>d. d < ndims ?md \<Longrightarrow> 0 < md_dims ?md d" and nz: "md_ndims ?md \<noteq> 0"
    using wf_padded_pos [of ?md] by (auto simp: wf_logical_def inside_padding_def)
  note ax = wf_shuffle_axis [OF assms]
  obtain k where k: "ndims ?md = (?ax + 1) + k" using ax(1) by (metis add.commute less_iff_Suc_add add_Suc plus_1_eq_Suc add.assoc)
  let ?O = "array_product (md_dims ?md) ?ax" and ?I = "array_product (from_index (?ax + 1) (md_dims ?md)) k"
  have p: "0 < ?O" "0 < ?I" by (auto intro!: array_product_pos d simp: k from_index_def)
  have "array_product (md_dims ?md) ((?ax + 1) + k) = ?O * shuffle_axis_size sd * ?I"
    by (subst array_product_split) (simp add: shuffle_axis_size_def)
  then have "nelems ?md False = ?O * shuffle_axis_size sd * ?I"
    using nz unfolding k [symmetric] by (simp add: nelems_def is_zero_def)
  then show "count_logical ?md = sh_outer sd * sh_size sd * sh_inner sd"
    "0 < sh_outer sd" "0 < sh_size sd" "0 < sh_inner sd"
    using p ax(2) by (simp_all add: count_logical_def sh_outer_def sh_size_def sh_inner_def k nat_mult_distrib)
qed

lemma sh_elem_less:
  assumes "wf_shuffle sd" "ou < sh_outer sd" "a < sh_size sd" "i < sh_inner sd"
  shows "sh_elem sd ou a i < count_logical (sh_data_desc sd)"
proof -
  have 1: "ou * sh_size sd + a < sh_outer sd * sh_size sd"
    using assms(2,3) mult_le_mono1 [of "Suc ou" "sh_outer sd" "sh_size sd"] by (simp add: Suc_leI)
  have "sh_elem sd ou a i < Suc (ou * sh_size sd + a) * sh_inner sd" using assms(4) by (simp add: sh_elem_def)
  also have "\<dots> \<le> sh_outer sd * sh_size sd * sh_inner sd" using 1 by (intro mult_le_mono1) simp
  finally show ?thesis by (simp add: sh_count [OF assms(1)])
qed

lemma sh_elem_inj:
  assumes "sh_elem sd ou a i = sh_elem sd ou' a' i'" "a < sh_size sd" "i < sh_inner sd" "a' < sh_size sd" "i' < sh_inner sd"
  shows "ou = ou' \<and> a = a' \<and> i = i'"
proof -
  have "sh_elem sd ou a i mod sh_inner sd = sh_elem sd ou' a' i' mod sh_inner sd"
    "sh_elem sd ou a i div sh_inner sd = sh_elem sd ou' a' i' div sh_inner sd" using assms(1) by simp_all
  then have "i = i'" and e: "ou * sh_size sd + a = ou' * sh_size sd + a'"
    using assms(3,5) by (simp_all add: sh_elem_def)
  then have "(ou * sh_size sd + a) mod sh_size sd = (ou' * sh_size sd + a') mod sh_size sd"
    "(ou * sh_size sd + a) div sh_size sd = (ou' * sh_size sd + a') div sh_size sd" by simp_all
  with \<open>i = i'\<close> show ?thesis using assms(2,4) by simp
qed

lemma writes_shuffled:
  assumes wf: "wf_shuffle sd"
    and each: "\<And>x. x \<in> set xs \<Longrightarrow> \<exists>ou a i. ou < sh_outer sd \<and> a < sh_size sd \<and> i < sh_inner sd \<and>
      dst x = addr_logical (sh_data_desc sd) (sh_elem sd ou a i) \<and>
      src x = addr_logical (sh_data_desc sd) (sh_elem sd ou (nat (rev_tr a)) i)"
    and all: "\<And>ou a i. ou < sh_outer sd \<Longrightarrow> a < sh_size sd \<Longrightarrow> i < sh_inner sd \<Longrightarrow>
      \<exists>x\<in>set xs. dst x = addr_logical (sh_data_desc sd) (sh_elem sd ou a i)"
  shows "shuffled sd rev_tr inp outp (fold (\<lambda>x out. out(dst x := inp (src x))) xs outp)"
proof -
  let ?md = "sh_data_desc sd"
  have wl: "wf_logical ?md" using wf by (simp add: wf_shuffle_def Let_def)
  have src: "src x = addr_logical ?md (sh_elem sd ou (nat (rev_tr a)) i)"
    if x: "x \<in> set xs" "dst x = addr_logical ?md (sh_elem sd ou a i)"
      and b: "ou < sh_outer sd" "a < sh_size sd" "i < sh_inner sd" for x ou a i
  proof -
    obtain ou' a' i' where e: "ou' < sh_outer sd" "a' < sh_size sd" "i' < sh_inner sd"
      "dst x = addr_logical ?md (sh_elem sd ou' a' i')"
      "src x = addr_logical ?md (sh_elem sd ou' (nat (rev_tr a')) i')" using each [OF x(1)] by blast
    have "sh_elem sd ou a i = sh_elem sd ou' a' i'"
      by (rule logical.addr_inj [OF wl]) (use e x b in \<open>auto intro: sh_elem_less [OF wf]\<close>)
    then show ?thesis using sh_elem_inj [of sd ou a i ou' a' i'] e b by auto
  qed
  have inj: "inp (src x) = inp (src y)" if e: "x \<in> set xs" "y \<in> set xs" "dst x = dst y" for x y
  proof -
    obtain ou a i where b: "ou < sh_outer sd" "a < sh_size sd" "i < sh_inner sd"
      and y: "dst y = addr_logical ?md (sh_elem sd ou a i)" using each [OF e(2)] by blast
    show ?thesis using src [OF e(1) _ b] src [OF e(2) y b] y e(3) by simp
  qed
  have w: "x \<in> set xs \<Longrightarrow> fold (\<lambda>x out. out(dst x := inp (src x))) xs outp (dst x) = inp (src x)"
    "z \<notin> dst ` set xs \<Longrightarrow> fold (\<lambda>x out. out(dst x := inp (src x))) xs outp z = outp z" for x z
    by (rule fold_writes [where v = "\<lambda>x. inp (src x)"], rule inj, assumption+)+
  show ?thesis
    unfolding shuffled_def addr_logical_def [symmetric]
  proof (intro conjI allI impI) 
    fix ou a i assume b: "ou < sh_outer sd" "a < sh_size sd" "i < sh_inner sd"
    then obtain x where x: "x \<in> set xs" "dst x = addr_logical ?md (sh_elem sd ou a i)" using all by blast
    show "fold (\<lambda>x out. out(dst x := inp (src x))) xs outp (addr_logical ?md (sh_elem sd ou a i)) =
        inp (addr_logical ?md (sh_elem sd ou (nat (rev_tr a)) i))"
      using w(1) [OF x(1)] unfolding src [OF x b] x(2) .
  next
    fix z assume "z \<notin> addr_logical ?md ` {..<count_logical ?md}"
    then have "z \<notin> dst ` set xs" using each sh_elem_less [OF wf] by (force simp: image_iff)
    then show "fold (\<lambda>x out. out(dst x := inp (src x))) xs outp z = outp z" by (rule w(2))
  qed
qed

section \<open>The loop nest for any layout\<close>

lemma int_sh:
  assumes "wf_shuffle sd"
  shows "array_product (md_dims (sh_data_desc sd)) (nat (sh_axis sd)) = int (sh_outer sd)"
    "int32_cast (int (sh_size sd)) = int (sh_size sd)" "shuffle_axis_size sd = int (sh_size sd)"
    "array_product (from_index (nat (sh_axis sd) + 1) (md_dims (sh_data_desc sd)))
      (ndims (sh_data_desc sd) - nat (sh_axis sd) - 1) = int (sh_inner sd)"
  using sh_count(2-4) [OF assms] wf_shuffle_axis(2,3) [OF assms]
  by (simp_all add: sh_outer_def sh_size_def sh_inner_def int32_cast_id)

lemma shuffle_any_correct:
  assumes wf: "wf_shuffle sd" and rev: "\<And>a. a < sh_size sd \<Longrightarrow> 0 \<le> rev_tr a"
  shows "shuffled sd rev_tr inp outp (shuffle_execute_any sd rev_tr inp outp)"
proof -
  let ?md = "sh_data_desc sd" and ?Ds = "[sh_outer sd, sh_size sd, sh_inner sd]"
  let ?dst = "\<lambda>ix. off_l ?md (int (ix ! 0) * (int (sh_size sd) * int (sh_inner sd)) + int (ix ! 2) +
      int (ix ! 1) * int (sh_inner sd)) False"
  let ?src = "\<lambda>ix. off_l ?md (int (ix ! 0) * (int (sh_size sd) * int (sh_inner sd)) + int (ix ! 2) +
      rev_tr (ix ! 1) * int (sh_inner sd)) False"
  have ex: "shuffle_execute_any sd rev_tr inp outp = fold (\<lambda>ix out. out(?dst ix := inp (?src ix))) (box_list ?Ds) outp"
    by (simp only: shuffle_execute_any_def Let_def int_sh [OF wf] nat_int par_for_box)
  have elem: "?dst [ou, a, i] = addr_logical ?md (sh_elem sd ou a i)" for ou a i
    by (simp add: addr_logical_def sh_elem_def algebra_simps)
  have elem': "?src [ou, a, i] = addr_logical ?md (sh_elem sd ou (nat (rev_tr a)) i)" if "a < sh_size sd" for ou a i
    using rev [OF that] by (simp add: addr_logical_def sh_elem_def algebra_simps)
  show ?thesis
    unfolding ex
  proof (rule writes_shuffled [OF wf])
    fix ix assume "ix \<in> set (box_list ?Ds)"
    then obtain ou a i where "ix = [ou, a, i]" "ou < sh_outer sd" "a < sh_size sd" "i < sh_inner sd"
      by (auto simp: set_box_list in_box_Cons1)
    then show "\<exists>ou a i. ou < sh_outer sd \<and> a < sh_size sd \<and> i < sh_inner sd \<and>
        ?dst ix = addr_logical ?md (sh_elem sd ou a i) \<and>
        ?src ix = addr_logical ?md (sh_elem sd ou (nat (rev_tr a)) i)"
      using elem elem' by blast
  next
    fix ou a i assume "ou < sh_outer sd" "a < sh_size sd" "i < sh_inner sd"
    then show "\<exists>ix\<in>set (box_list ?Ds). ?dst ix = addr_logical ?md (sh_elem sd ou a i)"
      using elem by (intro bexI [of _ "[ou, a, i]"]) (simp_all add: set_box_list)
  qed
qed

section \<open>The layouts of the specialised loop nests\<close>

lemma matched_tag_layout:
  assumes match: "memory_desc_matches_tag md (Tag name) None"
    and t: "map_of blocking_table name = Some (perm, blks, ixs)"
    and dims: "\<And>d. d < ndims md \<Longrightarrow> 0 < md_dims md d" and nz: "md_ndims md \<noteq> 0"
  shows "md_ndims md = int (length perm)" "inner_blocks md = rev (zip ixs (map int blks))"
    "dense_strides (int (prod_list blks))
      (\<lambda>d. rnd_up (md_dims md d) (dim_blocks (inner_blocks md) d) div dim_blocks (inner_blocks md) d)
      (blk_strides (blocking md)) perm"
proof -
  obtain gold where g: "dnnl_memory_desc_init_by_tag (md_ndims md) (Some (md_dims md)) (md_data_type md) (Tag name) =
      (success, Some gold)"
    and same: "inner_nblks (blocking md) = inner_nblks (blocking gold)"
    "array_cmp (inner_blks (blocking md)) (inner_blks (blocking gold)) (inner_nblks (blocking md))"
    "array_cmp (inner_idxs (blocking md)) (inner_idxs (blocking gold)) (inner_nblks (blocking md))"
    "array_cmp (blk_strides (blocking md)) (blk_strides (blocking gold)) (ndims md)"
    using match unfolding memory_desc_matches_tag_def
    by (auto simp: Let_def split: if_splits prod.splits status.splits option.splits)
  obtain perm' blks' ixs' where t': "map_of blocking_table name = Some (perm', blks', ixs')"
    and f: "fill_blocked (fresh_md (md_ndims md) (md_dims md) (md_data_type md) fk_blocked) perm' blks' ixs' = (success, gold)"
    and n: "0 < md_ndims md" "md_ndims md = int (length perm')"
    by (rule init_by_tag_cases [OF g nz]) auto
  have eq: "perm' = perm" "blks' = blks" "ixs' = ixs" using t t' by auto
  note row = tag_row [OF t]
  let ?fresh = "fresh_md (md_ndims md) (md_dims md) (md_data_type md) fk_blocked"
  have fd: "md_ndims ?fresh = int (length perm)" "md_format_kind ?fresh = fk_blocked"
    "\<And>d. d < length perm \<Longrightarrow> md_dims ?fresh d = md_dims md d"
    using n eq by (simp_all add: fresh_md_def)
  have dims': "\<And>d. d < length perm \<Longrightarrow> 0 < md_dims ?fresh d" using dims fd(3) n eq by (simp add: ndims_def)
  note dense = fill_blocked_dense [OF row fd(1,2) dims' f [unfolded eq]]
  have ib: "inner_blocks md = inner_blocks gold"
    using same(1-3) by (simp add: inner_blocks_def inner_list_def array_cmp_iff)
  have L: "inner_blocks gold = rev (zip ixs (map int blks))" by (rule dense(7))
  have nd: "ndims md = length perm" using n eq by (simp add: ndims_def)
  have len: "length blks = length ixs" using row by (simp add: tag_row_ok_def)
  show "md_ndims md = int (length perm)" "inner_blocks md = rev (zip ixs (map int blks))" using n eq ib L by simp_all
  have bs: "block_size gold = int (prod_list blks)"
    by (simp add: block_size_def L len rev_map [symmetric] int_prod_list)
  have ds: "dense_strides (block_size gold) (outer_extent gold) (blk_strides (blocking gold)) perm" and
    sp: "set perm = {..<length perm}" using dense(2) by (simp_all add: dense_layout_def)
  show "dense_strides (int (prod_list blks))
      (\<lambda>d. rnd_up (md_dims md d) (dim_blocks (inner_blocks md) d) div dim_blocks (inner_blocks md) d)
      (blk_strides (blocking md)) perm"
    unfolding bs [symmetric]
    by (rule dense_strides_cong [THEN iffD1, OF _ ds])
      (use same(4) dense(4,5) fd(3) in \<open>simp add: sp nd outer_extent_def ib array_cmp_iff\<close>)
qed

lemma sum_digits:
  "length ds = length rs \<Longrightarrow>
    (\<Sum>k<length rs. int (ds ! k) * (Z * int (prod_list (drop (Suc k) rs)))) = Z * int (radix_val rs ds)"
proof (induction rs arbitrary: ds)
  case (Cons r rs)
  obtain x xs where ds: "ds = x # xs" using Cons.prems by (cases ds) auto
  have "(\<Sum>k<length (r # rs). int (ds ! k) * (Z * int (prod_list (drop (Suc k) (r # rs))))) =
      int x * (Z * int (prod_list rs)) + (\<Sum>k<length rs. int (xs ! k) * (Z * int (prod_list (drop (Suc k) rs))))"
    by (simp only: length_Cons sum.lessThan_Suc_shift) (simp add: ds)
  then show ?case using Cons.IH [of xs] Cons.prems ds by (simp add: algebra_simps)
qed simp

text \<open>The extents of the spatial dimensions.\<close>

definition spatial :: "memory_desc \<Rightarrow> nat list" where
  "spatial md = map (\<lambda>d. nat (md_dims md d)) [2..<ndims md]"

text \<open>
  A descriptor whose data starts at its base, with at most one block, over the channels, and
  whose spatial dimensions are dense among themselves with stride \<open>Z\<close>.
\<close>

definition channel_layout :: "memory_desc \<Rightarrow> int \<Rightarrow> int \<Rightarrow> int \<Rightarrow> bool" where
  "channel_layout md b S Z \<longleftrightarrow>
     offset0 md = 0 \<and> (\<forall>d<ndims md. padded_offsets md d = 0) \<and> 2 \<le> ndims md \<and>
     (inner_blocks md = [(1, b)] \<or> inner_blocks md = [] \<and> b = 1) \<and> 0 < b \<and>
     blk_strides (blocking md) 1 = S \<and>
     (\<forall>k<length (spatial md). blk_strides (blocking md) (k + 2) = Z * int (prod_list (drop (Suc k) (spatial md))))"

lemma axis_1_extents:
  assumes wf: "wf_shuffle sd" and ax: "sh_axis sd = 1"
  shows "extents (sh_data_desc sd) False = sh_outer sd # sh_size sd # spatial (sh_data_desc sd)"
    "sh_inner sd = prod_list (spatial (sh_data_desc sd))"
proof -
  let ?md = "sh_data_desc sd"
  have wl: "wf_logical ?md" and nd: "2 \<le> ndims ?md"
    using wf ax by (auto simp: wf_shuffle_def Let_def ndims_def)
  then have "[0..<ndims ?md] = 0 # 1 # [2..<ndims ?md]" by (simp add: upt_rec numeral_2_eq_2)
  then show ext: "extents ?md False = sh_outer sd # sh_size sd # spatial ?md"
    using ax by (simp add: extents_def spatial_def sh_outer_def sh_size_def shuffle_axis_size_def)
  have "count_logical ?md = prod_list (extents ?md False)" by (rule count_logical_eq [OF wl])
  then show "sh_inner sd = prod_list (spatial ?md)" using sh_count [OF wf] by (simp add: ext)
qed

lemma channel_offset:
  assumes wf: "wf_shuffle sd" and ax: "sh_axis sd = 1" and cl: "channel_layout (sh_data_desc sd) b S Z"
    and i: "mb < sh_outer sd" "c < sh_size sd" "sp < sh_inner sd"
  shows "addr_logical (sh_data_desc sd) (sh_elem sd mb c sp) =
    int mb * blk_strides (blocking (sh_data_desc sd)) 0 + (int c div b * S + int c mod b) + int sp * Z"
proof -
  let ?md = "sh_data_desc sd" and ?sps = "spatial (sh_data_desc sd)" and ?st = "blk_strides (blocking (sh_data_desc sd))"
  have wl: "wf_logical ?md" using wf by (simp add: wf_shuffle_def Let_def)
  then have dpos: "\<And>d. d < ndims ?md \<Longrightarrow> 0 < md_dims ?md d" by (simp add: wf_logical_def inside_padding_def)
  obtain perm where dl: "dense_layout ?md perm" using wl by (auto simp: wf_logical_def wf_padded_def)
  have nd: "2 \<le> ndims ?md" and b: "0 < b" using cl by (simp_all add: channel_layout_def)
  note ext = axis_1_extents(1) [OF wf ax] and inner = axis_1_extents(2) [OF wf ax]
  let ?dg = "radix_digits ?sps sp"
  have dig: "radix_digits (extents ?md False) (sh_elem sd mb c sp) = mb # c # ?dg"
  proof -
    have sp: "sp < prod_list ?sps" using i(3) by (simp add: inner)
    have "radix_digits ?sps (sh_elem sd mb c sp) = ?dg"
      by (metis radix_digits_mod sh_elem_def inner mod_mult_self3)
    then show ?thesis
      using i sp by (simp add: ext sh_elem_def inner div_mult2_eq [symmetric] mult.commute [of _ "prod_list ?sps"] div_mult2_eq)
  qed
  let ?n = "length ?sps"
  have n: "ndims ?md = Suc (Suc ?n)" using nd by (simp add: spatial_def)
  define pos where "pos = shift_pos ?md (pos_of (mb # c # ?dg))"
  have pos: "pos d = (if d < ndims ?md then int ((mb # c # ?dg) ! d) else 0)" for d
    using cl n by (auto simp: pos_def shift_pos_def pos_of_def arr_def channel_layout_def)
  have fold: "inner_fold (inner_blocks ?md) pos = (pos(1 := int c div b), int c mod b)"
    using cl b n pos [of 1] by (auto simp: channel_layout_def intro: fun_upd_idem [symmetric])
  have "addr_logical ?md (sh_elem sd mb c sp) = off_v ?md pos True"
    by (simp only: addr_logical_eq [OF wl] dig pos_def)
  also have "\<dots> = int c mod b + (\<Sum>d<Suc (Suc ?n). (pos(1 := int c div b)) d * ?st d)"
    using off_v_eq [of "length perm" ?md pos] dl cl fold n by (simp add: dense_layout_def channel_layout_def pos)
  also have "(\<Sum>d<Suc (Suc ?n). (pos(1 := int c div b)) d * ?st d) =
      int mb * ?st 0 + int c div b * S + (\<Sum>k<?n. int (?dg ! k) * ?st (k + 2))"
    using cl n by (simp add: sum.lessThan_Suc_shift pos channel_layout_def del: sum.lessThan_Suc)
  also have "(\<Sum>k<?n. int (?dg ! k) * ?st (k + 2)) =
      (\<Sum>k<?n. int (?dg ! k) * (Z * int (prod_list (drop (Suc k) ?sps))))"
    using cl by (intro sum.cong) (simp_all add: channel_layout_def)
  also have "\<dots> = int sp * Z"
    using i(3) by (subst sum_digits) (simp_all add: inner radix_val_digits)
  finally show ?thesis by (simp add: algebra_simps)
qed

section \<open>The specialised loop nests\<close>

text \<open>The extents the loop nests compute with.\<close>

lemma shuffle_extents:
  assumes wf: "wf_shuffle sd" and ax: "sh_axis sd = 1" and nd: "md_ndims (sh_data_desc sd) \<in> {4, 5}"
  shows "int32_cast (shuffle_MB (sh_data_desc sd)) = int (sh_outer sd)"
    "int32_cast (shuffle_C (sh_data_desc sd)) = int (sh_size sd)"
    "shuffle_SP (sh_data_desc sd) = int (sh_inner sd)"
proof -
  let ?md = "sh_data_desc sd"
  have d: "0 < md_dims ?md d \<and> md_dims ?md d \<le> INT32_MAX" if "d < ndims ?md" for d
    using wf that by (simp add: wf_shuffle_def Let_def wf_logical_def inside_padding_def)
  have n: "0 < ndims ?md" "1 < ndims ?md" "2 < ndims ?md" "3 < ndims ?md" using nd by (auto simp: ndims_def)
  show "int32_cast (shuffle_MB ?md) = int (sh_outer sd)"
    using d [OF n(1)] ax by (simp add: shuffle_MB_def sh_outer_def int32_cast_id)
  show "int32_cast (shuffle_C ?md) = int (sh_size sd)"
    using d [OF n(2)] ax nd by (auto simp: shuffle_C_def sh_size_def shuffle_axis_size_def int32_cast_id)
  have SP: "shuffle_SP ?md = array_product (from_index 2 (md_dims ?md)) (ndims ?md - 2)"
  proof (cases "md_ndims ?md = 4")
    case True
    then show ?thesis
      using d [OF n(3)] d [OF n(4)]
      by (simp add: shuffle_SP_def shuffle_D_def shuffle_H_def shuffle_W_def ndims_def int32_cast_id
          from_index_def numeral_2_eq_2 numeral_3_eq_3)
  next
    case False
    then have n5: "md_ndims ?md = 5" using nd by simp
    then have "4 < ndims ?md" by (simp add: ndims_def)
    then show ?thesis
      using d [OF n(3)] d [OF n(4)] d [of 4] n5
      by (simp add: shuffle_SP_def shuffle_D_def shuffle_H_def shuffle_W_def ndims_def int32_cast_id
          from_index_def eval_nat_numeral)
  qed
  show "shuffle_SP ?md = int (sh_inner sd)"
    using sh_count(4) [OF wf] ax SP by (simp add: sh_inner_def numeral_2_eq_2)
qed

text \<open>
  A loop nest over batch, channel and space that writes each element at its place in a channel
  layout meets the contract.
\<close>

lemma nest_shuffled:
  assumes wf: "wf_shuffle sd" and ax: "sh_axis sd = 1" and cl: "channel_layout (sh_data_desc sd) b S Z"
    and rev: "\<And>a. a < sh_size sd \<Longrightarrow> 0 \<le> rev_tr a \<and> rev_tr a < int (sh_size sd)"
    and split: "\<And>x. x \<in> set xs \<Longrightarrow> t x \<in> {..<sh_outer sd} \<times> {..<sh_size sd} \<times> {..<sh_inner sd}"
    and onto: "\<And>mb c sp. mb < sh_outer sd \<Longrightarrow> c < sh_size sd \<Longrightarrow> sp < sh_inner sd \<Longrightarrow> (mb, c, sp) \<in> t ` set xs"
    and addr: "\<And>x mb c sp. x \<in> set xs \<Longrightarrow> t x = (mb, c, sp) \<Longrightarrow>
      dst x = int mb * blk_strides (blocking (sh_data_desc sd)) 0 + (int c div b * S + int c mod b) + int sp * Z \<and>
      src x = int mb * blk_strides (blocking (sh_data_desc sd)) 0 + (rev_tr c div b * S + rev_tr c mod b) + int sp * Z"
  shows "shuffled sd rev_tr inp outp (fold (\<lambda>x out. out(dst x := inp (src x))) xs outp)"
proof (rule writes_shuffled [OF wf])
  fix x assume x: "x \<in> set xs"
  obtain mb c sp where t: "t x = (mb, c, sp)" by (cases "t x") auto
  then have b: "mb < sh_outer sd" "c < sh_size sd" "sp < sh_inner sd" using split [OF x] by auto
  have r: "nat (rev_tr c) < sh_size sd" "int (nat (rev_tr c)) = rev_tr c" using rev [OF b(2)] by auto
  show "\<exists>ou a i. ou < sh_outer sd \<and> a < sh_size sd \<and> i < sh_inner sd \<and>
      dst x = addr_logical (sh_data_desc sd) (sh_elem sd ou a i) \<and>
      src x = addr_logical (sh_data_desc sd) (sh_elem sd ou (nat (rev_tr a)) i)"
    using addr [OF x t] b channel_offset [OF wf ax cl b] channel_offset [OF wf ax cl b(1) r(1) b(3)] r(2)
    by (intro exI [of _ mb] exI [of _ c] exI [of _ sp]) simp
next
  fix ou a i assume b: "ou < sh_outer sd" "a < sh_size sd" "i < sh_inner sd"
  then obtain x where "x \<in> set xs" "t x = (ou, a, i)" using onto [OF b] by (metis imageE)
  then show "\<exists>x\<in>set xs. dst x = addr_logical (sh_data_desc sd) (sh_elem sd ou a i)"
    using addr channel_offset [OF wf ax cl b] by metis
qed

lemma nchw_correct:
  assumes wf: "wf_shuffle sd" and ax: "sh_axis sd = 1" and nd: "md_ndims (sh_data_desc sd) \<in> {4, 5}"
    and cl: "channel_layout (sh_data_desc sd) 1 (int (sh_inner sd)) 1"
    and rev: "\<And>a. a < sh_size sd \<Longrightarrow> 0 \<le> rev_tr a \<and> rev_tr a < int (sh_size sd)"
  shows "shuffled sd rev_tr inp outp (shuffle_execute_nchw (sh_data_desc sd) rev_tr inp outp)"
proof -
  let ?md = "sh_data_desc sd"
  let ?s0 = "blk_strides (blocking ?md) 0" and ?xs = "nest_list [sh_outer sd, sh_size sd] (\<lambda>_. sh_inner sd)"
  let ?dst = "\<lambda>(ix, sp). int (ix ! 0) * ?s0 + int (ix ! 1) * int (sh_inner sd) + int sp"
  let ?src = "\<lambda>(ix, sp). int (ix ! 0) * ?s0 + rev_tr (ix ! 1) * int (sh_inner sd) + int sp"
  have "shuffle_execute_nchw ?md rev_tr inp outp = fold (\<lambda>x out. out(?dst x := inp (?src x))) ?xs outp"
    by (simp only: shuffle_execute_nchw_def Let_def shuffle_extents [OF wf ax nd] nat_int par_for_nest case_prod_unfold)
  moreover have "shuffled sd rev_tr inp outp (fold (\<lambda>x out. out(?dst x := inp (?src x))) ?xs outp)"
    by (rule nest_shuffled [OF wf ax cl rev, where t = "\<lambda>(ix, sp). (ix ! 0, ix ! 1, sp)"])
      (auto simp: set_nest_list in_box_Cons1 intro!: rev_image_eqI [of "([mb, c], sp)" for mb c sp])
  ultimately show ?thesis by simp
qed

lemma nhwc_correct:
  assumes wf: "wf_shuffle sd" and ax: "sh_axis sd = 1" and nd: "md_ndims (sh_data_desc sd) \<in> {4, 5}"
    and cl: "channel_layout (sh_data_desc sd) 1 1 (int (sh_size sd))"
    and rev: "\<And>a. a < sh_size sd \<Longrightarrow> 0 \<le> rev_tr a \<and> rev_tr a < int (sh_size sd)"
  shows "shuffled sd rev_tr inp outp (shuffle_execute_nhwc (sh_data_desc sd) rev_tr inp outp)"
proof -
  let ?md = "sh_data_desc sd"
  let ?s0 = "blk_strides (blocking ?md) 0" and ?xs = "nest_list [sh_outer sd, sh_inner sd] (\<lambda>_. sh_size sd)"
  let ?dst = "\<lambda>(ix, c). int (ix ! 0) * ?s0 + int (ix ! 1) * int (sh_size sd) + int c"
  let ?src = "\<lambda>(ix, c). int (ix ! 0) * ?s0 + int (ix ! 1) * int (sh_size sd) + rev_tr c"
  have "shuffle_execute_nhwc ?md rev_tr inp outp = fold (\<lambda>x out. out(?dst x := inp (?src x))) ?xs outp"
    by (simp only: shuffle_execute_nhwc_def Let_def shuffle_extents [OF wf ax nd] nat_int par_for_nest case_prod_unfold)
  moreover have "shuffled sd rev_tr inp outp (fold (\<lambda>x out. out(?dst x := inp (?src x))) ?xs outp)"
    by (rule nest_shuffled [OF wf ax cl rev, where t = "\<lambda>(ix, c). (ix ! 0, c, ix ! 1)"])
      (auto simp: set_nest_list in_box_Cons1 intro!: rev_image_eqI [of "([mb, sp], c)" for mb c sp])
  ultimately show ?thesis by simp
qed

lemma blocked_correct:
  assumes wf: "wf_shuffle sd" and ax: "sh_axis sd = 1" and nd: "md_ndims (sh_data_desc sd) \<in> {4, 5}"
    and b: "0 < b" and cl: "channel_layout (sh_data_desc sd) (int b) (int (sh_inner sd) * int b) (int b)"
    and rev: "\<And>a. a < sh_size sd \<Longrightarrow> 0 \<le> rev_tr a \<and> rev_tr a < int (sh_size sd)"
  shows "shuffled sd rev_tr inp outp (shuffle_execute_blocked b (sh_data_desc sd) rev_tr inp outp)"
proof -
  let ?md = "sh_data_desc sd" and ?C = "sh_size sd"
  let ?s0 = "blk_strides (blocking ?md) 0"
  define nb where "nb = nat (div_up (int ?C) (int b))"
  let ?xs = "nest_list [sh_outer sd, nb, sh_inner sd] (\<lambda>ix. min b (?C - ix ! 1 * b))"
  let ?off = "\<lambda>ix. int (ix ! 0) * ?s0 + int (ix ! 2) * int b"
  let ?dst = "\<lambda>(ix, cc). ?off ix + int (ix ! 1 * b) * int (sh_inner sd) + int cc"
  let ?src = "\<lambda>(ix, cc). ?off ix + rev_tr (ix ! 1 * b + cc) sdiv int b * int (sh_inner sd) * int b +
      rev_tr (ix ! 1 * b + cc) smod int b"
  have nb: "c div b < nb" if "c < ?C" for c
  proof -
    have "int ?C \<le> rnd_up (int ?C) (int b)" using b by (intro rnd_up_bounds(1)) simp_all
    then have "int c < div_up (int ?C) (int b) * int b" using that by (simp add: rnd_up_def)
    then have "int c div int b < div_up (int ?C) (int b)" using b by (intro int_div_less) simp_all
    then show ?thesis by (simp add: nb_def zless_nat_conj flip: zdiv_int)
  qed
  have "shuffle_execute_blocked b ?md rev_tr inp outp = fold (\<lambda>x out. out(?dst x := inp (?src x))) ?xs outp"
    by (simp only: shuffle_execute_blocked_def Let_def shuffle_extents [OF wf ax nd] nat_int par_for_nest case_prod_unfold
        nb_def)
  moreover have "shuffled sd rev_tr inp outp (fold (\<lambda>x out. out(?dst x := inp (?src x))) ?xs outp)"
  proof (rule nest_shuffled [OF wf ax cl rev, where t = "\<lambda>(ix, cc). (ix ! 0, ix ! 1 * b + cc, ix ! 2)"])
    fix x assume "x \<in> set ?xs"
    then obtain mb c sp cc where x: "x = ([mb, c, sp], cc)" "mb < sh_outer sd" "sp < sh_inner sd" "cc < b" "c * b + cc < ?C"
      by (auto simp: set_nest_list in_box_Cons1)
    then show "(case x of (ix, cc) \<Rightarrow> (ix ! 0, ix ! 1 * b + cc, ix ! 2)) \<in> {..<sh_outer sd} \<times> {..<sh_size sd} \<times> {..<sh_inner sd}"
      by simp
    show "?dst x = int mb' * ?s0 + (int c' div int b * (int (sh_inner sd) * int b) + int c' mod int b) + int sp' * int b \<and>
      ?src x = int mb' * ?s0 + (rev_tr c' div int b * (int (sh_inner sd) * int b) + rev_tr c' mod int b) + int sp' * int b"
      if "(case x of (ix, cc) \<Rightarrow> (ix ! 0, ix ! 1 * b + cc, ix ! 2)) = (mb', c', sp')" for mb' c' sp'
    proof -
      have e: "mb' = mb" "c' = c * b + cc" "sp' = sp" using that x(1) by auto
      have "int c' div int b = int c" "int c' mod int b = int cc" using x(4) e(2) by (simp_all flip: zdiv_int zmod_int)
      then show ?thesis using x rev [OF x(5)] by (simp add: e cdiv_simps algebra_simps)
    qed
  next
    fix mb c sp assume i: "mb < sh_outer sd" "c < sh_size sd" "sp < sh_inner sd"
    have "([mb, c div b, sp], c mod b) \<in> set ?xs"
      using i nb [OF i(2)] b by (simp add: set_nest_list less_diff_conv)
    then show "(mb, c, sp) \<in> (\<lambda>(ix, cc). (ix ! 0, ix ! 1 * b + cc, ix ! 2)) ` set ?xs"
      by (rule rev_image_eqI) simp
  qed
  ultimately show ?thesis by simp
qed

section \<open>The layout a matched tag gives\<close>

lemma rnd_up_1 [simp]: "0 \<le> x \<Longrightarrow> rnd_up x 1 = x"
  by (simp add: rnd_up_def div_up_def cdiv_simps)

lemma spatial_strides:
  assumes d: "dense_strides bs N st (pre @ [2..<ndims md] @ post)"
    and N: "\<And>d. 2 \<le> d \<Longrightarrow> d < ndims md \<Longrightarrow> N d = md_dims md d \<and> 0 \<le> md_dims md d"
    and k: "k < length (spatial md)"
  shows "st (k + 2) = bs * prod_list (map N post) * int (prod_list (drop (Suc k) (spatial md)))"
proof -
  have kn: "k + 2 < ndims md" using k by (simp add: spatial_def)
  have "[2..<ndims md] = [2..<k + 2] @ (k + 2) # [k + 3..<ndims md]"
  proof -
    have "[2..<(k + 2) + (ndims md - (k + 2))] = [2..<k + 2] @ [k + 2..<(k + 2) + (ndims md - (k + 2))]"
      by (rule upt_add_eq_append) simp
    moreover have "(k + 2) + (ndims md - (k + 2)) = ndims md" using kn by simp
    moreover have "[k + 2..<ndims md] = (k + 2) # [k + 3..<ndims md]"
      using upt_conv_Cons [OF kn] by (simp add: eval_nat_numeral)
    ultimately show ?thesis by (simp only:)
  qed
  then have "dense_strides bs N st ((pre @ [2..<k + 2]) @ (k + 2) # ([k + 3..<ndims md] @ post))" using d by simp
  then have st: "st (k + 2) = bs * prod_list (map N ([k + 3..<ndims md] @ post))" by (rule dense_stride_at)
  have "map N [k + 3..<ndims md] = map int (drop (Suc k) (spatial md))"
    using N by (simp add: spatial_def drop_map eval_nat_numeral)
  then show ?thesis unfolding st by (simp add: int_prod_list)
qed

text \<open>What all the layouts share: no offsets, and the extents of a well-formed shuffle over axis 1.\<close>

definition at_base :: "memory_desc \<Rightarrow> bool" where
  "at_base md \<longleftrightarrow> offset0 md = 0 \<and> (\<forall>d<ndims md. padded_offsets md d = 0)"

lemma plain_channel_layout:
  assumes base: "at_base md" and nd: "2 \<le> ndims md" and dims: "\<And>d. d < ndims md \<Longrightarrow> 0 < md_dims md d"
    and L: "inner_blocks md = []"
    and ds: "dense_strides 1 (\<lambda>d. rnd_up (md_dims md d) (dim_blocks (inner_blocks md) d) div dim_blocks (inner_blocks md) d)
      (blk_strides (blocking md)) (0 # 1 # [2..<ndims md])"
  shows "channel_layout md 1 (int (prod_list (spatial md))) 1"
proof -
  let ?N = "\<lambda>d. rnd_up (md_dims md d) (dim_blocks (inner_blocks md) d) div dim_blocks (inner_blocks md) d"
  have N: "?N d = md_dims md d \<and> 0 \<le> md_dims md d" if "d < ndims md" for d using dims [OF that] by (simp add: L)
  have sp: "map ?N [2..<ndims md] = map int (spatial md)" using N by (simp add: spatial_def)
  have "blk_strides (blocking md) 1 = int (prod_list (spatial md))"
    using ds unfolding dense_strides.simps sp by (simp add: int_prod_list)
  moreover have "blk_strides (blocking md) (k + 2) = 1 * int (prod_list (drop (Suc k) (spatial md)))"
    if "k < length (spatial md)" for k
    using spatial_strides [of 1 ?N "blk_strides (blocking md)" "[0, 1]" md "[]", OF _ _ that] ds N by simp
  ultimately show ?thesis using base nd L by (simp add: channel_layout_def at_base_def)
qed

lemma last_channel_layout:
  assumes base: "at_base md" and nd: "2 \<le> ndims md" and dims: "\<And>d. d < ndims md \<Longrightarrow> 0 < md_dims md d"
    and L: "inner_blocks md = []"
    and ds: "dense_strides 1 (\<lambda>d. rnd_up (md_dims md d) (dim_blocks (inner_blocks md) d) div dim_blocks (inner_blocks md) d)
      (blk_strides (blocking md)) (0 # [2..<ndims md] @ [1])"
  shows "channel_layout md 1 1 (md_dims md 1)"
proof -
  let ?N = "\<lambda>d. rnd_up (md_dims md d) (dim_blocks (inner_blocks md) d) div dim_blocks (inner_blocks md) d"
  have N: "?N d = md_dims md d \<and> 0 \<le> md_dims md d" if "d < ndims md" for d using dims [OF that] by (simp add: L)
  have "blk_strides (blocking md) 1 = 1 * prod_list (map ?N [])"
    by (rule dense_stride_at [where xs = "0 # [2..<ndims md]"]) (use ds in simp)
  moreover have "blk_strides (blocking md) (k + 2) = md_dims md 1 * int (prod_list (drop (Suc k) (spatial md)))"
    if "k < length (spatial md)" for k
    using spatial_strides [of 1 ?N "blk_strides (blocking md)" "[0]" md "[1]", OF _ _ that] ds N N [of 1] nd by simp
  ultimately show ?thesis using base nd L by (simp add: channel_layout_def at_base_def)
qed

lemma blocked_channel_layout:
  assumes base: "at_base md" and nd: "2 \<le> ndims md" and dims: "\<And>d. d < ndims md \<Longrightarrow> 0 < md_dims md d"
    and b: "0 < b" and L: "inner_blocks md = [(1, b)]"
    and ds: "dense_strides b (\<lambda>d. rnd_up (md_dims md d) (dim_blocks (inner_blocks md) d) div dim_blocks (inner_blocks md) d)
      (blk_strides (blocking md)) (0 # 1 # [2..<ndims md])"
  shows "channel_layout md b (int (prod_list (spatial md)) * b) b"
proof -
  let ?N = "\<lambda>d. rnd_up (md_dims md d) (dim_blocks (inner_blocks md) d) div dim_blocks (inner_blocks md) d"
  have N: "?N d = md_dims md d \<and> 0 \<le> md_dims md d" if "2 \<le> d" "d < ndims md" for d
    using dims [OF that(2)] that(1) by (simp add: L)
  have sp: "map ?N [2..<ndims md] = map int (spatial md)" using N by (simp add: spatial_def)
  have "blk_strides (blocking md) 1 = b * int (prod_list (spatial md))"
    using ds unfolding dense_strides.simps sp by (simp add: int_prod_list)
  moreover have "blk_strides (blocking md) (k + 2) = b * int (prod_list (drop (Suc k) (spatial md)))"
    if "k < length (spatial md)" for k
    using spatial_strides [of b ?N "blk_strides (blocking md)" "[0, 1]" md "[]", OF _ _ that] ds N by simp
  ultimately show ?thesis using base nd L b by (simp add: channel_layout_def at_base_def mult.commute)
qed

section \<open>Every layout\<close>

lemma matches_one_of:
  "memory_desc_matches_one_of_tag md tags = Tag name \<Longrightarrow> memory_desc_matches_tag md (Tag name) None"
  by (auto simp: memory_desc_matches_one_of_tag_def find_Some_iff split: option.splits)

lemma matches_one_of_range: "memory_desc_matches_one_of_tag md tags \<in> insert ft_undef (set tags)"
  by (auto simp: memory_desc_matches_one_of_tag_def find_Some_iff split: option.splits)

lemma tag_rows:
  "map_of blocking_table ''abcd'' = Some ([0, 1, 2, 3], [], [])"
  "map_of blocking_table ''abcde'' = Some ([0, 1, 2, 3, 4], [], [])"
  "map_of blocking_table ''acdb'' = Some ([0, 2, 3, 1], [], [])"
  "map_of blocking_table ''acdeb'' = Some ([0, 2, 3, 4, 1], [], [])"
  "map_of blocking_table ''aBcd8b'' = Some ([0, 1, 2, 3], [8], [1])"
  "map_of blocking_table ''aBcde8b'' = Some ([0, 1, 2, 3, 4], [8], [1])"
  "map_of blocking_table ''aBcd16b'' = Some ([0, 1, 2, 3], [16], [1])"
  "map_of blocking_table ''aBcde16b'' = Some ([0, 1, 2, 3, 4], [16], [1])"
  by code_simp+

lemma upt_2: "[2..<4] = [2, 3 :: nat]" "[2..<5] = [2, 3, 4 :: nat]"
  by (simp_all add: upt_rec)

lemma tagged_channel_layout:
  assumes wf: "wf_shuffle sd" and ax: "sh_axis sd = 1" and base: "at_base (sh_data_desc sd)"
    and m: "memory_desc_matches_tag (sh_data_desc sd) tag None"
  shows "tag \<in> {nchw, ncdhw} \<Longrightarrow> md_ndims (sh_data_desc sd) \<in> {4, 5} \<and>
      channel_layout (sh_data_desc sd) 1 (int (sh_inner sd)) 1"
    "tag \<in> {nhwc, ndhwc} \<Longrightarrow> md_ndims (sh_data_desc sd) \<in> {4, 5} \<and>
      channel_layout (sh_data_desc sd) 1 1 (int (sh_size sd))"
    "tag \<in> {nChw8c, nCdhw8c, nChw16c, nCdhw16c} \<Longrightarrow> md_ndims (sh_data_desc sd) \<in> {4, 5} \<and>
      channel_layout (sh_data_desc sd) (int (shuffle_blksize tag))
        (int (sh_inner sd) * int (shuffle_blksize tag)) (int (shuffle_blksize tag))"
proof -
  let ?md = "sh_data_desc sd"
  have dims: "\<And>d. d < ndims ?md \<Longrightarrow> 0 < md_dims ?md d"
    using wf by (simp add: wf_shuffle_def Let_def wf_logical_def inside_padding_def)
  have nd: "2 \<le> ndims ?md" and nz: "md_ndims ?md \<noteq> 0" using wf ax by (auto simp: wf_shuffle_def Let_def ndims_def)
  have C: "md_dims ?md 1 = int (sh_size sd)" using wf_shuffle_axis(2) [OF wf] ax by (simp add: sh_size_def shuffle_axis_size_def)
  note inner = axis_1_extents(2) [OF wf ax]
  note row = matched_tag_layout [OF _ _ dims nz]
  have plain: "md_ndims ?md \<in> {4, 5} \<and> channel_layout ?md 1 (int (sh_inner sd)) 1"
    if t: "map_of blocking_table name = Some (p, [], [])" "p = [0, 1] @ [2..<4] \<or> p = [0, 1] @ [2..<5]" "tag = Tag name"
    for name p
  proof -
    have r: "md_ndims ?md = int (length p)" "inner_blocks ?md = []"
      "dense_strides 1 (\<lambda>d. rnd_up (md_dims ?md d) (dim_blocks (inner_blocks ?md) d) div
        dim_blocks (inner_blocks ?md) d) (blk_strides (blocking ?md)) p"
      using row [OF m [unfolded t(3)] t(1)] by simp_all
    have n: "md_ndims ?md \<in> {4, 5}" "p = 0 # 1 # [2..<ndims ?md]" using t(2) r(1) by (auto simp: ndims_def)
    show ?thesis
      using plain_channel_layout [OF base nd dims r(2) r(3) [unfolded n(2)]] n(1) by (simp add: inner)
  qed
  have last: "md_ndims ?md \<in> {4, 5} \<and> channel_layout ?md 1 1 (int (sh_size sd))"
    if t: "map_of blocking_table name = Some (p, [], [])" "p = 0 # [2..<4] @ [1] \<or> p = 0 # [2..<5] @ [1]" "tag = Tag name"
    for name p
  proof -
    have r: "md_ndims ?md = int (length p)" "inner_blocks ?md = []"
      "dense_strides 1 (\<lambda>d. rnd_up (md_dims ?md d) (dim_blocks (inner_blocks ?md) d) div
        dim_blocks (inner_blocks ?md) d) (blk_strides (blocking ?md)) p"
      using row [OF m [unfolded t(3)] t(1)] by simp_all
    have n: "md_ndims ?md \<in> {4, 5}" "p = 0 # [2..<ndims ?md] @ [1]" using t(2) r(1) by (auto simp: ndims_def)
    show ?thesis
      using last_channel_layout [OF base nd dims r(2) r(3) [unfolded n(2)]] n(1) by (simp only: C)
  qed
  show "md_ndims ?md \<in> {4, 5} \<and> channel_layout ?md 1 (int (sh_inner sd)) 1" if "tag \<in> {nchw, ncdhw}"
    using that plain [OF tag_rows(1)] plain [OF tag_rows(2)] by (elim insertE) (simp_all add: upt_2)
  show "md_ndims ?md \<in> {4, 5} \<and> channel_layout ?md 1 1 (int (sh_size sd))" if "tag \<in> {nhwc, ndhwc}"
    using that last [OF tag_rows(3)] last [OF tag_rows(4)] by (elim insertE) (simp_all add: upt_2)
  have blk: "md_ndims ?md \<in> {4, 5} \<and> channel_layout ?md (int b) (int (sh_inner sd) * int b) (int b)"
    if t: "map_of blocking_table name = Some (p, [b], [1])" "p = [0, 1] @ [2..<4] \<or> p = [0, 1] @ [2..<5]"
      "tag = Tag name" "0 < b" for name p b
  proof -
    have r: "md_ndims ?md = int (length p)" "inner_blocks ?md = [(1, int b)]"
      "dense_strides (int b) (\<lambda>d. rnd_up (md_dims ?md d) (dim_blocks (inner_blocks ?md) d) div
        dim_blocks (inner_blocks ?md) d) (blk_strides (blocking ?md)) p"
      using row [OF m [unfolded t(3)] t(1)] by simp_all
    have n: "md_ndims ?md \<in> {4, 5}" "p = 0 # 1 # [2..<ndims ?md]"
      using t(2) r(1) by (auto simp: ndims_def)
    show ?thesis
      using blocked_channel_layout [OF base nd dims _ r(2) r(3) [unfolded n(2)]] n(1) t(4) by (simp add: inner)
  qed
  show "md_ndims ?md \<in> {4, 5} \<and> channel_layout ?md (int (shuffle_blksize tag))
        (int (sh_inner sd) * int (shuffle_blksize tag)) (int (shuffle_blksize tag))"
    if t: "tag \<in> {nChw8c, nCdhw8c, nChw16c, nCdhw16c}"
  proof -
    consider "tag = nChw8c" | "tag = nCdhw8c" | "tag = nChw16c" | "tag = nCdhw16c" using t by blast
    then show ?thesis
    proof cases
      case 1
      then show ?thesis using blk [OF tag_rows(5)] by (simp add: shuffle_blksize_def upt_2)
    next
      case 2
      then show ?thesis using blk [OF tag_rows(6)] by (simp add: shuffle_blksize_def upt_2)
    next
      case 3
      then show ?thesis using blk [OF tag_rows(7)] by (simp add: shuffle_blksize_def upt_2)
    next
      case 4
      then show ?thesis using blk [OF tag_rows(8)] by (simp add: shuffle_blksize_def upt_2)
    qed
  qed
qed

lemma shuffle_execute_correct:
  assumes wf: "wf_shuffle sd" and base: "at_base (sh_data_desc sd)"
    and init: "ref_shuffle_pd_init ts avx sd = Some tag"
    and rev: "\<And>a. a < sh_size sd \<Longrightarrow> 0 \<le> rev_tr a \<and> rev_tr a < int (sh_size sd)"
  shows "shuffled sd rev_tr inp outp (shuffle_execute tag sd rev_tr inp outp)"
proof -
  let ?md = "sh_data_desc sd"
  have any: "shuffled sd rev_tr inp outp (shuffle_execute_any sd rev_tr inp outp)"
    by (rule shuffle_any_correct [OF wf]) (use rev in blast)
  have found: "tag = ft_any \<or> tag = memory_desc_matches_one_of_tag ?md [nCdhw16c, nCdhw8c, ncdhw, ndhwc] \<or>
      tag = memory_desc_matches_one_of_tag ?md [nChw16c, nChw8c, nchw, nhwc]"
    using init by (auto simp: ref_shuffle_pd_init_def Let_def split: if_splits)
  have tags: "tag \<in> {ft_any, ft_undef, nCdhw16c, nCdhw8c, ncdhw, ndhwc, nChw16c, nChw8c, nchw, nhwc}"
    using found matches_one_of_range [of ?md "[nCdhw16c, nCdhw8c, ncdhw, ndhwc]"]
      matches_one_of_range [of ?md "[nChw16c, nChw8c, nchw, nhwc]"] by auto
  have m: "memory_desc_matches_tag ?md tag None" if t: "tag \<noteq> ft_any" "tag \<noteq> ft_undef"
  proof -
    obtain name where n: "tag = Tag name" using tags t by auto
    then show ?thesis using found by (auto simp: n intro: matches_one_of)
  qed
  show ?thesis
  proof (cases "sh_axis sd = 1 \<and> tag \<noteq> ft_any \<and> tag \<noteq> ft_undef")
    case False
    then have "shuffle_execute tag sd rev_tr inp outp = shuffle_execute_any sd rev_tr inp outp"
      by (auto simp: shuffle_execute_def shuffle_execute_tag_def)
    then show ?thesis using any by simp
  next
    case True
    then have ax: "sh_axis sd = 1" and mt: "memory_desc_matches_tag ?md tag None" using m by auto
    note cl = tagged_channel_layout [OF wf ax base mt]
    consider (p) "tag \<in> {nchw, ncdhw}" | (l) "tag \<in> {nhwc, ndhwc}"
      | (b) "tag \<in> {nChw8c, nCdhw8c, nChw16c, nCdhw16c}"
    proof -
      have "tag \<in> {nchw, ncdhw} \<union> {nhwc, ndhwc} \<union> {nChw8c, nCdhw8c, nChw16c, nCdhw16c}"
        using True tags by (elim insertE) simp_all
      then show thesis using p l b by (elim UnE)
    qed
    then show ?thesis
    proof cases
      case p
      then have "shuffle_execute tag sd rev_tr inp outp = shuffle_execute_nchw ?md rev_tr inp outp"
        using ax by (auto simp: shuffle_execute_def shuffle_execute_tag_def)
      then show ?thesis using nchw_correct [OF wf ax _ _ rev] cl(1) [OF p] by simp
    next
      case l
      then have "shuffle_execute tag sd rev_tr inp outp = shuffle_execute_nhwc ?md rev_tr inp outp"
        using ax by (auto simp: shuffle_execute_def shuffle_execute_tag_def)
      then show ?thesis using nhwc_correct [OF wf ax _ _ rev] cl(2) [OF l] by simp
    next
      case b
      have pos: "0 < shuffle_blksize tag" by (simp add: shuffle_blksize_def)
      have "shuffle_execute tag sd rev_tr inp outp =
          shuffle_execute_blocked (shuffle_blksize tag) ?md rev_tr inp outp"
        using ax b by (auto simp: shuffle_execute_def shuffle_execute_tag_def)
      then show ?thesis
        using blocked_correct [OF wf ax _ pos, where rev_tr = rev_tr] rev cl(3) [OF b] by simp
    qed
  qed
qed

lemma rev_transposed_in_range:
  "wf_shuffle sd \<Longrightarrow> a < sh_size sd \<Longrightarrow> 0 \<le> rev_transposed sd u a \<and> rev_transposed sd u a < int (sh_size sd)"
  using rev_transposed_bounds [of sd a u] int_sh(3) [of sd] by simp

lemma sh_elem_exhaust:
  assumes "wf_shuffle sd" "e < count_logical (sh_data_desc sd)"
  obtains ou a i where "ou < sh_outer sd" "a < sh_size sd" "i < sh_inner sd" "e = sh_elem sd ou a i"
proof
  note n = sh_count [OF assms(1)]
  show "e mod sh_inner sd < sh_inner sd" "e div sh_inner sd mod sh_size sd < sh_size sd" using n by simp_all
  show "e div sh_inner sd div sh_size sd < sh_outer sd"
    using assms(2) n(1) by (simp add: less_mult_imp_div_less)
  show "e = sh_elem sd (e div sh_inner sd div sh_size sd) (e div sh_inner sd mod sh_size sd) (e mod sh_inner sd)"
    by (simp add: sh_elem_def)
qed

text \<open>
  The assumption \<open>at_base\<close> is needed: the specialised loop nests never read \<open>offset0\<close>, although a
  descriptor with any \<open>offset0\<close> matches their tags.
\<close>

lemma shuffle_ignores_offset0:
  "shuffle_execute_nchw (md\<lparr>offset0 := k\<rparr>) rev_tr inp outp = shuffle_execute_nchw md rev_tr inp outp"
  "memory_desc_matches_tag (md\<lparr>offset0 := k\<rparr>) tag None = memory_desc_matches_tag md tag None"
  by (simp add: shuffle_execute_nchw_def shuffle_MB_def shuffle_C_def shuffle_SP_def shuffle_D_def
      shuffle_H_def shuffle_W_def ndims_def Let_def)
    (simp add: memory_desc_matches_tag_def ndims_def Let_def split: prod.split status.split option.split)

section \<open>Properties\<close>


definition shuffle_example :: shuffle_desc where
  "shuffle_example = zero_shuffle_desc\<lparr>sh_prop_kind := forward_training, sh_data_desc := plain_example,
     sh_axis := 1, sh_group_size := 2\<rparr>"

lemma shuffle_example_wf: "wf_shuffle shuffle_example" "at_base (sh_data_desc shuffle_example)"
  "ref_shuffle_pd_init 4 False shuffle_example = Some ft_any"
proof -
  have d: "0 < (arr [4, 6] d :: int) \<and> (arr [4, 6] d :: int) \<le> INT32_MAX" if "d < 2" for d
    using that by (auto simp: less_2_cases_iff)
  have "wf_logical plain_example"
    using plain_example_layout d by (auto simp: wf_logical_def wf_padded_def inside_padding_def)
  then show "wf_shuffle shuffle_example"
    using plain_example_layout d by (simp add: wf_shuffle_def shuffle_example_def shuffle_axis_size_def)
  show "at_base (sh_data_desc shuffle_example)"
    using plain_example_layout by (simp add: at_base_def shuffle_example_def)
  have "md_data_type plain_example = f32" by (simp add: plain_example_def)
  then show "ref_shuffle_pd_init 4 False shuffle_example = Some ft_any"
    using plain_example_layout by (simp add: ref_shuffle_pd_init_def shuffle_example_def)
qed




end
