(* ===== verification/Convolution_Pd.thy ===== *)
theory Convolution_Pd
  imports Op_Desc_More
begin

text \<open>
  The accessors of \<open>src/src/common/convolution_pd.hpp\<close>, through which implementations read the
  operation descriptor of a convolution or deconvolution, whatever its direction.
\<close>

definition conv_prop_invariant_src_d :: "convolution_desc \<Rightarrow> memory_desc" where
  "conv_prop_invariant_src_d cd =
     (if cd_prop_kind cd = backward_data then cd_diff_src_desc cd else cd_src_desc cd)"

definition conv_prop_invariant_wei_d :: "convolution_desc \<Rightarrow> memory_desc" where
  "conv_prop_invariant_wei_d cd =
     (if cd_prop_kind cd = backward_weights then cd_diff_weights_desc cd else cd_weights_desc cd)"

definition conv_prop_invariant_bia_d :: "convolution_desc \<Rightarrow> memory_desc" where
  "conv_prop_invariant_bia_d cd =
     (if cd_prop_kind cd = backward_weights then cd_diff_bias_desc cd else cd_bias_desc cd)"

definition conv_prop_invariant_dst_d :: "convolution_desc \<Rightarrow> memory_desc" where
  "conv_prop_invariant_dst_d cd =
     (if cd_prop_kind cd \<in> {forward_inference, forward_training} then cd_dst_desc cd else cd_diff_dst_desc cd)"

definition conv_ndims :: "convolution_desc \<Rightarrow> int" where
  "conv_ndims cd = md_ndims (conv_prop_invariant_src_d cd)"

definition conv_with_groups :: "convolution_desc \<Rightarrow> bool" where
  "conv_with_groups cd \<longleftrightarrow> md_ndims (conv_prop_invariant_wei_d cd) = conv_ndims cd + 1"

definition conv_MB :: "convolution_desc \<Rightarrow> dim_t" where
  "conv_MB cd = md_dims (conv_prop_invariant_src_d cd) 0"

definition conv_IC :: "convolution_desc \<Rightarrow> dim_t" where
  "conv_IC cd = md_dims (conv_prop_invariant_src_d cd) 1"

definition conv_OC :: "convolution_desc \<Rightarrow> dim_t" where
  "conv_OC cd = md_dims (conv_prop_invariant_dst_d cd) 1"

definition conv_G :: "convolution_desc \<Rightarrow> dim_t" where
  "conv_G cd = (if conv_with_groups cd then md_dims (conv_prop_invariant_wei_d cd) 0 else 1)"

text \<open>
  The spatial accessors: \<open>k\<close> counts the dimensions from the last one, 1 for W, 2 for H, 3 for D;
  \<open>ndims() - k\<close> indexes the descriptor, and the dimension exists if the rank is at least \<open>2 + k\<close>.
\<close>

definition spatial_dim :: "convolution_desc \<Rightarrow> memory_desc \<Rightarrow> int \<Rightarrow> dim_t" where
  "spatial_dim cd md k = (if k = 1 \<or> conv_ndims cd \<ge> 2 + k then md_dims md (nat (conv_ndims cd - k)) else 1)"

definition spatial_wei_dim :: "convolution_desc \<Rightarrow> int \<Rightarrow> dim_t" where
  "spatial_wei_dim cd k =
     (if k = 1 \<or> conv_ndims cd \<ge> 2 + k
      then md_dims (conv_prop_invariant_wei_d cd) (nat (conv_ndims cd + of_bool (conv_with_groups cd) - k))
      else 1)"

definition spatial_param :: "convolution_desc \<Rightarrow> dim_t carray \<Rightarrow> int \<Rightarrow> dim_t \<Rightarrow> dim_t" where
  "spatial_param cd a k dflt =
     (if k = 1 \<or> conv_ndims cd \<ge> 2 + k then a (nat (conv_ndims cd - (2 + k))) else dflt)"

definition conv_ID :: "convolution_desc \<Rightarrow> dim_t" where "conv_ID cd = spatial_dim cd (conv_prop_invariant_src_d cd) 3"
definition conv_IH :: "convolution_desc \<Rightarrow> dim_t" where "conv_IH cd = spatial_dim cd (conv_prop_invariant_src_d cd) 2"
definition conv_IW :: "convolution_desc \<Rightarrow> dim_t" where "conv_IW cd = spatial_dim cd (conv_prop_invariant_src_d cd) 1"
definition conv_OD :: "convolution_desc \<Rightarrow> dim_t" where "conv_OD cd = spatial_dim cd (conv_prop_invariant_dst_d cd) 3"
definition conv_OH :: "convolution_desc \<Rightarrow> dim_t" where "conv_OH cd = spatial_dim cd (conv_prop_invariant_dst_d cd) 2"
definition conv_OW :: "convolution_desc \<Rightarrow> dim_t" where "conv_OW cd = spatial_dim cd (conv_prop_invariant_dst_d cd) 1"
definition conv_KD :: "convolution_desc \<Rightarrow> dim_t" where "conv_KD cd = spatial_wei_dim cd 3"
definition conv_KH :: "convolution_desc \<Rightarrow> dim_t" where "conv_KH cd = spatial_wei_dim cd 2"
definition conv_KW :: "convolution_desc \<Rightarrow> dim_t" where "conv_KW cd = spatial_wei_dim cd 1"
definition conv_KSD :: "convolution_desc \<Rightarrow> dim_t" where "conv_KSD cd = spatial_param cd (cd_strides cd) 3 1"
definition conv_KSH :: "convolution_desc \<Rightarrow> dim_t" where "conv_KSH cd = spatial_param cd (cd_strides cd) 2 1"
definition conv_KSW :: "convolution_desc \<Rightarrow> dim_t" where "conv_KSW cd = spatial_param cd (cd_strides cd) 1 0"
definition conv_KDD :: "convolution_desc \<Rightarrow> dim_t" where "conv_KDD cd = spatial_param cd (cd_dilates cd) 3 0"
definition conv_KDH :: "convolution_desc \<Rightarrow> dim_t" where "conv_KDH cd = spatial_param cd (cd_dilates cd) 2 1"
definition conv_KDW :: "convolution_desc \<Rightarrow> dim_t" where "conv_KDW cd = spatial_param cd (cd_dilates cd) 1 0"
definition conv_padFront :: "convolution_desc \<Rightarrow> dim_t" where "conv_padFront cd = spatial_param cd (cd_padding_l cd) 3 0"
definition conv_padT :: "convolution_desc \<Rightarrow> dim_t" where "conv_padT cd = spatial_param cd (cd_padding_l cd) 2 0"
definition conv_padL :: "convolution_desc \<Rightarrow> dim_t" where "conv_padL cd = spatial_param cd (cd_padding_l cd) 1 0"

text \<open>The remaining predicates.\<close>

definition conv_padBack :: "convolution_desc \<Rightarrow> dim_t" where "conv_padBack cd = spatial_param cd (cd_padding_r cd) 3 0"
definition conv_padB :: "convolution_desc \<Rightarrow> dim_t" where "conv_padB cd = spatial_param cd (cd_padding_r cd) 2 0"
definition conv_padR :: "convolution_desc \<Rightarrow> dim_t" where "conv_padR cd = spatial_param cd (cd_padding_r cd) 1 0"

definition conv_with_bias :: "convolution_desc \<Rightarrow> bool" where
  "conv_with_bias cd \<longleftrightarrow> \<not> is_zero (conv_prop_invariant_bia_d cd)"

definition conv_is_fwd :: "convolution_desc \<Rightarrow> bool" where
  "conv_is_fwd cd \<longleftrightarrow> cd_prop_kind cd \<in> {forward_training, forward_inference}"

definition conv_has_zero_dim_memory :: "convolution_desc \<Rightarrow> bool" where
  "conv_has_zero_dim_memory cd \<longleftrightarrow>
     has_zero_dim (conv_prop_invariant_src_d cd) \<or> has_zero_dim (conv_prop_invariant_dst_d cd)"

text \<open>
  \<open>set_default_formats_common_template\<close>: the descriptors the client left open get the tags of the
  implementation; the tags \<open>any\<close> and \<open>undef\<close> leave them open. The result is false at the first
  tag that does not fit.
\<close>

definition set_default_format :: "bool \<Rightarrow> memory_desc \<Rightarrow> format_tag \<Rightarrow> memory_desc option" where
  "set_default_format cond md tag =
     (if cond \<and> md_format_kind md = fk_any
      then (case memory_desc_init_by_tag md tag None of (success, md) \<Rightarrow> Some md | _ \<Rightarrow> None)
      else Some md)"

definition set_default_formats_common_template :: "bool \<Rightarrow> memory_desc \<Rightarrow> format_tag \<Rightarrow> memory_desc \<Rightarrow> format_tag \<Rightarrow>
    memory_desc \<Rightarrow> format_tag \<Rightarrow> memory_desc \<Rightarrow> (memory_desc \<times> memory_desc \<times> memory_desc \<times> memory_desc) option" where
  "set_default_formats_common_template with_bias src_md src_tag wei_md wei_tag dst_md dst_tag bia_md =
     (case set_default_format (src_tag \<notin> {ft_any, ft_undef}) src_md src_tag of None \<Rightarrow> None | Some src_md \<Rightarrow>
      case set_default_format (dst_tag \<notin> {ft_any, ft_undef}) dst_md dst_tag of None \<Rightarrow> None | Some dst_md \<Rightarrow>
      case set_default_format (wei_tag \<notin> {ft_any, ft_undef}) wei_md wei_tag of None \<Rightarrow> None | Some wei_md \<Rightarrow>
      case set_default_format with_bias bia_md tag_x of None \<Rightarrow> None | Some bia_md \<Rightarrow>
        Some (src_md, wei_md, dst_md, bia_md))"

definition set_default_alg_kind :: "alg_kind \<Rightarrow> convolution_desc \<Rightarrow> bool \<times> convolution_desc" where
  "set_default_alg_kind alg cd =
     (let cd = (if cd_alg_kind cd = convolution_auto then cd\<lparr>cd_alg_kind := alg\<rparr> else cd)
      in (cd_alg_kind cd = alg, cd))"

definition conv_expect_data_types :: "convolution_desc \<Rightarrow> data_type \<Rightarrow> data_type \<Rightarrow> data_type \<Rightarrow> data_type \<Rightarrow> data_type \<Rightarrow> bool" where
  "conv_expect_data_types cd src_dt wei_dt bia_dt dst_dt acc_dt \<longleftrightarrow>
     (src_dt = dt_undef \<or> md_data_type (conv_prop_invariant_src_d cd) = src_dt) \<and>
     (wei_dt = dt_undef \<or> md_data_type (conv_prop_invariant_wei_d cd) = wei_dt) \<and>
     (dst_dt = dt_undef \<or> md_data_type (conv_prop_invariant_dst_d cd) = dst_dt) \<and>
     (acc_dt = dt_undef \<or> cd_accum_data_type cd = acc_dt) \<and>
     (conv_with_bias cd \<and> bia_dt \<noteq> dt_undef \<longrightarrow> md_data_type (conv_prop_invariant_bia_d cd) = bia_dt)"

end
