(* ===== verification/Ref_Convolution.thy ===== *)
theory Ref_Convolution
  imports Convolution_Pd Par_Loops
begin

text \<open>
  The reference convolution of \<open>src/src/cpu/ref_convolution.cpp\<close>, forward and both backward
  directions. The C++ templates are polymorphic in the element types and so is the model:
  the conversions between the types of source, weights, accumulator, \<open>float\<close> and destination are
  parameters, the accumulator is any type with addition and multiplication. The theorems about sums hold
  where these form a commutative semiring, as for \<open>int\<close> and for the machine integers of the
  \<open>s32\<close> accumulator; they say nothing about the rounding of a \<open>float\<close> accumulator. Coordinates
  are unbounded integers.
\<close>

section \<open>The local constants of the three functions\<close>

text \<open>Each function starts by copying the sizes into \<open>int\<close> constants; one axis is a record.\<close>

record conv_axis =
  ax_I :: int
  ax_O :: int
  ax_K :: int
  ax_S :: int
  ax_D :: int
  ax_P :: int

record conv_geo =
  geo_ndims :: int
  geo_with_groups :: bool
  geo_G :: int
  geo_MB :: int
  geo_OC :: int
  geo_IC :: int
  geo_d :: conv_axis
  geo_h :: conv_axis
  geo_w :: conv_axis

definition conv_axis_d :: "convolution_desc \<Rightarrow> conv_axis" where
  "conv_axis_d cd = \<lparr>ax_I = int32_cast (conv_ID cd), ax_O = int32_cast (conv_OD cd), ax_K = int32_cast (conv_KD cd),
     ax_S = int32_cast (conv_KSD cd), ax_D = int32_cast (conv_KDD cd), ax_P = int32_cast (conv_padFront cd)\<rparr>"

definition conv_axis_h :: "convolution_desc \<Rightarrow> conv_axis" where
  "conv_axis_h cd = \<lparr>ax_I = int32_cast (conv_IH cd), ax_O = int32_cast (conv_OH cd), ax_K = int32_cast (conv_KH cd),
     ax_S = int32_cast (conv_KSH cd), ax_D = int32_cast (conv_KDH cd), ax_P = int32_cast (conv_padT cd)\<rparr>"

definition conv_axis_w :: "convolution_desc \<Rightarrow> conv_axis" where
  "conv_axis_w cd = \<lparr>ax_I = int32_cast (conv_IW cd), ax_O = int32_cast (conv_OW cd), ax_K = int32_cast (conv_KW cd),
     ax_S = int32_cast (conv_KSW cd), ax_D = int32_cast (conv_KDW cd), ax_P = int32_cast (conv_padL cd)\<rparr>"

definition conv_geo_of :: "convolution_desc \<Rightarrow> conv_geo" where
  "conv_geo_of cd =
     (let G = int32_cast (conv_G cd)
      in \<lparr>geo_ndims = conv_ndims cd, geo_with_groups = conv_with_groups cd, geo_G = G,
          geo_MB = int32_cast (conv_MB cd), geo_OC = int32_cast (conv_OC cd sdiv G),
          geo_IC = int32_cast (conv_IC cd sdiv G),
          geo_d = conv_axis_d cd, geo_h = conv_axis_h cd, geo_w = conv_axis_w cd\<rparr>)"

text \<open>
  The offsets by rank: data tensors and weights. \<open>None\<close> is the final \<open>assert(false)\<close>, after which
  a release build goes on without the access.
\<close>

definition data_off :: "conv_geo \<Rightarrow> memory_desc \<Rightarrow> int \<Rightarrow> int \<Rightarrow> int \<Rightarrow> int \<Rightarrow> int \<Rightarrow> int option" where
  "data_off geo md mb c d h w =
     (if geo_ndims geo = 5 then Some (off md [mb, c, d, h, w])
      else if geo_ndims geo = 4 then Some (off md [mb, c, h, w])
      else if geo_ndims geo = 3 then Some (off md [mb, c, w])
      else None)"

definition wei_off :: "conv_geo \<Rightarrow> memory_desc \<Rightarrow> int \<Rightarrow> int \<Rightarrow> int \<Rightarrow> int \<Rightarrow> int \<Rightarrow> int \<Rightarrow> int option" where
  "wei_off geo md g oc ic kd kh kw =
     (if geo_ndims geo = 5
      then Some (if geo_with_groups geo then off md [g, oc, ic, kd, kh, kw] else off md [oc, ic, kd, kh, kw])
      else if geo_ndims geo = 4
      then Some (if geo_with_groups geo then off md [g, oc, ic, kh, kw] else off md [oc, ic, kh, kw])
      else if geo_ndims geo = 3
      then Some (if geo_with_groups geo then off md [g, oc, ic, kw] else off md [oc, ic, kw])
      else None)"

text \<open>\<open>for (int i = 0; i < n; ++i)\<close> over an accumulator.\<close>

abbreviation int_loop :: "int \<Rightarrow> (int \<Rightarrow> 's \<Rightarrow> 's) \<Rightarrow> 's \<Rightarrow> 's" where
  "int_loop n f \<equiv> for_upto (nat n) (\<lambda>i. f (int i))"

section \<open>Forward\<close>

definition conv_fwd_ker :: "('s \<Rightarrow> 'a) \<Rightarrow> ('w \<Rightarrow> 'a) \<Rightarrow> conv_geo \<Rightarrow> memory_desc \<Rightarrow> memory_desc \<Rightarrow>
    (int \<Rightarrow> 's) \<Rightarrow> (int \<Rightarrow> 'w) \<Rightarrow> int \<Rightarrow> int \<Rightarrow> int \<Rightarrow> int \<Rightarrow> int \<Rightarrow> int \<Rightarrow> 'a :: {zero, plus, times}" where
  "conv_fwd_ker acc_s acc_w geo src_d weights_d src weights g mb oc od oh ow =
     (let ID = ax_I (geo_d geo); IH = ax_I (geo_h geo); IW = ax_I (geo_w geo);
          KSD = ax_S (geo_d geo); KSH = ax_S (geo_h geo); KSW = ax_S (geo_w geo);
          KDD = ax_D (geo_d geo); KDH = ax_D (geo_h geo); KDW = ax_D (geo_w geo);
          padFront = ax_P (geo_d geo); padT = ax_P (geo_h geo); padL = ax_P (geo_w geo)
      in int_loop (geo_IC geo) (\<lambda>ic. int_loop (ax_K (geo_d geo)) (\<lambda>kd. int_loop (ax_K (geo_h geo)) (\<lambda>kh.
           int_loop (ax_K (geo_w geo)) (\<lambda>kw d.
             let id' = od * KSD - padFront + kd * (1 + KDD);
                 ih = oh * KSH - padT + kh * (1 + KDH);
                 iw = ow * KSW - padL + kw * (1 + KDW)
             in if id' < 0 \<or> id' \<ge> ID then d
                else if ih < 0 \<or> ih \<ge> IH then d
                else if iw < 0 \<or> iw \<ge> IW then d
                else case (data_off geo src_d mb (g * geo_IC geo + ic) id' ih iw,
                      wei_off geo weights_d g oc ic kd kh kw) of
                    (Some s, Some w) \<Rightarrow> d + acc_s (src s) * acc_w (weights w)
                  | _ \<Rightarrow> d)))) 0)"

definition execute_forward :: "('s \<Rightarrow> 'a :: {zero, plus, times}) \<Rightarrow> ('w \<Rightarrow> 'a) \<Rightarrow> ('a \<Rightarrow> 'f) \<Rightarrow> ('f \<Rightarrow> 'd) \<Rightarrow> convolution_desc \<Rightarrow>
    (int \<Rightarrow> 's) \<Rightarrow> (int \<Rightarrow> 'w) \<Rightarrow> (int \<Rightarrow> 'f :: {zero, plus}) option \<Rightarrow> (int \<Rightarrow> 'd) \<Rightarrow> int \<Rightarrow> 'd" where
  "execute_forward acc_s acc_w to_float sat cd src weights bias dst =
     (let geo = conv_geo_of cd; src_d = cd_src_desc cd; dst_d = cd_dst_desc cd;
          weights_d = cd_weights_desc cd; bias_d = cd_bias_desc cd
      in par_for [nat (geo_G geo), nat (geo_MB geo), nat (geo_OC geo), nat (ax_O (geo_d geo)),
             nat (ax_O (geo_h geo)), nat (ax_O (geo_w geo))]
           (\<lambda>ix dst.
              let g = int (ix ! 0); mb = int (ix ! 1); oc = int (ix ! 2);
                  od = int (ix ! 3); oh = int (ix ! 4); ow = int (ix ! 5);
                  a = (case bias of Some b \<Rightarrow> b (off bias_d [g * geo_OC geo + oc]) | None \<Rightarrow> 0);
                  a = a + to_float (conv_fwd_ker acc_s acc_w geo src_d weights_d src weights g mb oc od oh ow)
              in case data_off geo dst_d mb (g * geo_OC geo + oc) od oh ow of
                   Some x \<Rightarrow> dst(x := sat a)
                 | None \<Rightarrow> dst)
           dst)"

section \<open>Backward by data\<close>

definition conv_bwd_data_ker :: "('d \<Rightarrow> 'a) \<Rightarrow> ('w \<Rightarrow> 'a) \<Rightarrow> conv_geo \<Rightarrow> memory_desc \<Rightarrow> memory_desc \<Rightarrow>
    (int \<Rightarrow> 'd) \<Rightarrow> (int \<Rightarrow> 'w) \<Rightarrow> int \<Rightarrow> int \<Rightarrow> int \<Rightarrow> int \<Rightarrow> int \<Rightarrow> int \<Rightarrow> 'a :: {zero, plus, times}" where
  "conv_bwd_data_ker acc_d acc_w geo diff_dst_d weights_d diff_dst weights g mb ic id' ih iw =
     (let OD = ax_O (geo_d geo); OH = ax_O (geo_h geo); OW = ax_O (geo_w geo);
          KSD = ax_S (geo_d geo); KSH = ax_S (geo_h geo); KSW = ax_S (geo_w geo);
          KDD = ax_D (geo_d geo); KDH = ax_D (geo_h geo); KDW = ax_D (geo_w geo);
          padFront = ax_P (geo_d geo); padT = ax_P (geo_h geo); padL = ax_P (geo_w geo)
      in int_loop (geo_OC geo) (\<lambda>oc. int_loop (ax_K (geo_d geo)) (\<lambda>kd. int_loop (ax_K (geo_h geo)) (\<lambda>kh.
           int_loop (ax_K (geo_w geo)) (\<lambda>kw d.
             if iw + padL < kw * (1 + KDW) \<or> ih + padT < kh * (1 + KDH) \<or> id' + padFront < kd * (1 + KDD)
             then d
             else
               let ow = iw - kw * (1 + KDW) + padL;
                   oh = ih - kh * (1 + KDH) + padT;
                   od = id' - kd * (1 + KDD) + padFront
               in if ow smod KSW \<noteq> 0 \<or> oh smod KSH \<noteq> 0 \<or> od smod KSD \<noteq> 0 then d
                  else
                    let ow = ow sdiv KSW; oh = oh sdiv KSH; od = od sdiv KSD
                    in if od < OD \<and> oh < OH \<and> ow < OW
                       then case (data_off geo diff_dst_d mb (g * geo_OC geo + oc) od oh ow,
                           wei_off geo weights_d g oc ic kd kh kw) of
                           (Some s, Some w) \<Rightarrow> d + acc_d (diff_dst s) * acc_w (weights w)
                         | _ \<Rightarrow> d
                       else d)))) 0)"

definition execute_backward_data :: "('d \<Rightarrow> 'a :: {zero, plus, times}) \<Rightarrow> ('w \<Rightarrow> 'a) \<Rightarrow> ('a \<Rightarrow> 'f) \<Rightarrow> ('f \<Rightarrow> 's) \<Rightarrow> convolution_desc \<Rightarrow>
    (int \<Rightarrow> 'd) \<Rightarrow> (int \<Rightarrow> 'w) \<Rightarrow> (int \<Rightarrow> 'f :: {zero, plus}) option \<Rightarrow> (int \<Rightarrow> 's) \<Rightarrow> int \<Rightarrow> 's" where
  "execute_backward_data acc_d acc_w to_float sat cd diff_dst weights bias diff_src =
     (let geo = conv_geo_of cd; diff_dst_d = cd_diff_dst_desc cd; diff_src_d = cd_diff_src_desc cd;
          weights_d = cd_weights_desc cd; bias_d = cd_bias_desc cd
      in par_for [nat (geo_G geo), nat (geo_MB geo), nat (geo_IC geo), nat (ax_I (geo_d geo)),
             nat (ax_I (geo_h geo)), nat (ax_I (geo_w geo))]
           (\<lambda>ix diff_src.
              let g = int (ix ! 0); mb = int (ix ! 1); ic = int (ix ! 2);
                  id' = int (ix ! 3); ih = int (ix ! 4); iw = int (ix ! 5);
                  c = g * geo_IC geo + ic;
                  ds_idx = (if geo_ndims geo = 5 then off diff_src_d [mb, c, id', ih, iw]
                            else if geo_ndims geo = 4 then off diff_src_d [mb, c, ih, iw]
                            else off diff_src_d [mb, c, iw]);
                  a = (case bias of Some b \<Rightarrow> b (off bias_d [c]) | None \<Rightarrow> 0);
                  a = a + to_float (conv_bwd_data_ker acc_d acc_w geo diff_dst_d weights_d diff_dst weights
                        g mb ic id' ih iw)
              in diff_src(ds_idx := sat a))
           diff_src)"

section \<open>Backward by weights\<close>

definition conv_bwd_weights_ker :: "('d \<Rightarrow> 'a) \<Rightarrow> ('s \<Rightarrow> 'a) \<Rightarrow> conv_geo \<Rightarrow> memory_desc \<Rightarrow> memory_desc \<Rightarrow>
    (int \<Rightarrow> 'd) \<Rightarrow> (int \<Rightarrow> 's) \<Rightarrow> int \<Rightarrow> int \<Rightarrow> int \<Rightarrow> int \<Rightarrow> int \<Rightarrow> int \<Rightarrow> 'a :: {zero, plus, times}" where
  "conv_bwd_weights_ker acc_d acc_s geo diff_dst_d src_d diff_dst src g oc ic kd kh kw =
     (let ID = ax_I (geo_d geo); IH = ax_I (geo_h geo); IW = ax_I (geo_w geo);
          KSD = ax_S (geo_d geo); KSH = ax_S (geo_h geo); KSW = ax_S (geo_w geo);
          KDD = ax_D (geo_d geo); KDH = ax_D (geo_h geo); KDW = ax_D (geo_w geo);
          padFront = ax_P (geo_d geo); padT = ax_P (geo_h geo); padL = ax_P (geo_w geo)
      in int_loop (geo_MB geo) (\<lambda>mb. int_loop (ax_O (geo_d geo)) (\<lambda>od. int_loop (ax_O (geo_h geo)) (\<lambda>oh.
           int_loop (ax_O (geo_w geo)) (\<lambda>ow d.
             if ow * KSW + kw * (1 + KDW) < padL \<or> oh * KSH + kh * (1 + KDH) < padT \<or>
                od * KSD + kd * (1 + KDD) < padFront \<or> ow * KSW + kw * (1 + KDW) \<ge> IW + padL \<or>
                oh * KSH + kh * (1 + KDH) \<ge> IH + padT \<or> od * KSD + kd * (1 + KDD) \<ge> ID + padFront
             then d
             else
               let id' = od * KSD - padFront + kd * (1 + KDD);
                   ih = oh * KSH - padT + kh * (1 + KDH);
                   iw = ow * KSW - padL + kw * (1 + KDW)
               in case (data_off geo diff_dst_d mb (g * geo_OC geo + oc) od oh ow,
                     data_off geo src_d mb (g * geo_IC geo + ic) id' ih iw) of
                   (Some s, Some w) \<Rightarrow> d + acc_d (diff_dst s) * acc_s (src w)
                 | _ \<Rightarrow> d)))) 0)"

definition conv_ker_bias :: "('d \<Rightarrow> 'a) \<Rightarrow> conv_geo \<Rightarrow> memory_desc \<Rightarrow> (int \<Rightarrow> 'd) \<Rightarrow> int \<Rightarrow> int \<Rightarrow> 'a :: {zero, plus}" where
  "conv_ker_bias acc_d geo diff_dst_d diff_dst g oc =
     int_loop (geo_MB geo) (\<lambda>mb. int_loop (ax_O (geo_d geo)) (\<lambda>od. int_loop (ax_O (geo_h geo)) (\<lambda>oh.
       int_loop (ax_O (geo_w geo)) (\<lambda>ow d.
         case data_off geo diff_dst_d mb (g * geo_OC geo + oc) od oh ow of
           Some s \<Rightarrow> d + acc_d (diff_dst s)
         | None \<Rightarrow> d)))) 0"

definition execute_backward_weights :: "('d \<Rightarrow> 'a :: {zero, plus, times}) \<Rightarrow> ('s \<Rightarrow> 'a) \<Rightarrow> ('a \<Rightarrow> 'w) \<Rightarrow> convolution_desc \<Rightarrow>
    (int \<Rightarrow> 'd) \<Rightarrow> (int \<Rightarrow> 's) \<Rightarrow> (int \<Rightarrow> 'w) \<times> (int \<Rightarrow> 'w) option \<Rightarrow>
    (int \<Rightarrow> 'w) \<times> (int \<Rightarrow> 'w) option" where
  "execute_backward_weights acc_d acc_s sat cd diff_dst src diff =
     (let geo = conv_geo_of cd; src_d = cd_src_desc cd; diff_dst_d = cd_diff_dst_desc cd;
          diff_weights_d = cd_diff_weights_desc cd; diff_bias_d = cd_diff_bias_desc cd
      in par_for [nat (geo_G geo), nat (geo_OC geo)]
           (\<lambda>ix (diff_weights, diff_bias).
              let g = int (ix ! 0); oc = int (ix ! 1);
                  diff_bias = map_option (\<lambda>b. b(off diff_bias_d [g * geo_OC geo + oc] :=
                      sat (conv_ker_bias acc_d geo diff_dst_d diff_dst g oc))) diff_bias
              in (int_loop (geo_IC geo) (\<lambda>ic. int_loop (ax_K (geo_d geo)) (\<lambda>kd. int_loop (ax_K (geo_h geo)) (\<lambda>kh.
                    int_loop (ax_K (geo_w geo)) (\<lambda>kw diff_weights.
                      case wei_off geo diff_weights_d g oc ic kd kh kw of
                        Some x \<Rightarrow> diff_weights(x := sat
                          (conv_bwd_weights_ker acc_d acc_s geo diff_dst_d src_d diff_dst src g oc ic kd kh kw))
                      | None \<Rightarrow> diff_weights)))) diff_weights,
                  diff_bias))
           diff)"

section \<open>Which elements meet\<close>

text \<open>
  Output position \<open>y\<close> and kernel position \<open>k\<close> of an axis meet at one position of the padded
  source. The forward direction computes it from \<open>y\<close>, the backward direction solves for \<open>y\<close>.
\<close>

definition src_pos :: "conv_axis \<Rightarrow> int \<Rightarrow> int \<Rightarrow> int" where
  "src_pos ax y k = y * ax_S ax - ax_P ax + k * (1 + ax_D ax)"

definition hit :: "conv_geo \<Rightarrow> int \<Rightarrow> int \<Rightarrow> int \<Rightarrow> int \<Rightarrow> int \<Rightarrow> int \<Rightarrow> int \<Rightarrow> int \<Rightarrow> int \<Rightarrow> bool" where
  "hit geo od oh ow kd kh kw id' ih iw \<longleftrightarrow>
     src_pos (geo_d geo) od kd = id' \<and> src_pos (geo_h geo) oh kh = ih \<and> src_pos (geo_w geo) ow kw = iw"

definition daddr :: "conv_geo \<Rightarrow> memory_desc \<Rightarrow> int \<Rightarrow> int \<Rightarrow> int \<Rightarrow> int \<Rightarrow> int \<Rightarrow> int" where
  "daddr geo md mb c d h w = the (data_off geo md mb c d h w)"

definition waddr :: "conv_geo \<Rightarrow> memory_desc \<Rightarrow> int \<Rightarrow> int \<Rightarrow> int \<Rightarrow> int \<Rightarrow> int \<Rightarrow> int \<Rightarrow> int" where
  "waddr geo md g oc ic kd kh kw = the (wei_off geo md g oc ic kd kh kw)"

lemma off_Some:
  assumes "geo_ndims geo \<in> {3, 4, 5}"
  shows "data_off geo md mb c d h w = Some (daddr geo md mb c d h w)"
    "wei_off geo md g oc ic kd kh kw = Some (waddr geo md g oc ic kd kh kw)"
  using assms by (auto simp: daddr_def waddr_def data_off_def wei_off_def)

lemma solve_axis:
  fixes i k :: int
  assumes "1 \<le> ax_S ax" "0 \<le> y"
  defines "x \<equiv> i - k * (1 + ax_D ax) + ax_P ax"
  shows "src_pos ax y k = i \<longleftrightarrow> 0 \<le> x \<and> x smod ax_S ax = 0 \<and> x sdiv ax_S ax = y"
proof -
  have "src_pos ax y k = i \<longleftrightarrow> x = y * ax_S ax" by (auto simp: src_pos_def x_def)
  also have "\<dots> \<longleftrightarrow> 0 \<le> x \<and> x mod ax_S ax = 0 \<and> x div ax_S ax = y" using assms(1,2) by auto
  also have "\<dots> \<longleftrightarrow> 0 \<le> x \<and> x smod ax_S ax = 0 \<and> x sdiv ax_S ax = y"
    using assms(1) by (auto simp: cdiv_simps)
  finally show ?thesis .
qed

section \<open>The kernels are sums\<close>

lemma conv_fwd_ker_sum:
  fixes acc_s :: "'s \<Rightarrow> 'a :: comm_semiring_0"
  assumes nd: "geo_ndims geo \<in> {3, 4, 5}"
  shows "conv_fwd_ker acc_s acc_w geo src_d wei_d src wei g mb oc od oh ow =
    (\<Sum>ic<nat (geo_IC geo). \<Sum>kd<nat (ax_K (geo_d geo)). \<Sum>kh<nat (ax_K (geo_h geo)). \<Sum>kw<nat (ax_K (geo_w geo)).
     \<Sum>id'<nat (ax_I (geo_d geo)). \<Sum>ih<nat (ax_I (geo_h geo)). \<Sum>iw<nat (ax_I (geo_w geo)).
       if hit geo od oh ow (int kd) (int kh) (int kw) (int id') (int ih) (int iw)
       then acc_s (src (daddr geo src_d mb (g * geo_IC geo + int ic) (int id') (int ih) (int iw))) *
         acc_w (wei (waddr geo wei_d g oc (int ic) (int kd) (int kh) (int kw)))
       else 0)"
  unfolding conv_fwd_ker_def Let_def
proof (rule acc_loop_0, (rule acc_loop)+, goal_cases)
  case (1 ic _ kd _ kh _ kw d)
  show ?case
    unfolding hit_def
      sum_hit3 [where f = "\<lambda>id' ih iw. acc_s (src (daddr geo src_d mb (g * geo_IC geo + int ic) id' ih iw)) *
         acc_w (wei (waddr geo wei_d g oc (int ic) (int kd) (int kh) (int kw)))"]
    by (simp add: off_Some [OF nd] src_pos_def not_le not_less)
qed

lemma conv_bwd_weights_ker_sum:
  fixes acc_d :: "'d \<Rightarrow> 'a :: comm_semiring_0"
  assumes nd: "geo_ndims geo \<in> {3, 4, 5}"
  shows "conv_bwd_weights_ker acc_d acc_s geo dst_d src_d dst src g oc ic kd kh kw =
    (\<Sum>mb<nat (geo_MB geo). \<Sum>od<nat (ax_O (geo_d geo)). \<Sum>oh<nat (ax_O (geo_h geo)). \<Sum>ow<nat (ax_O (geo_w geo)).
     \<Sum>id'<nat (ax_I (geo_d geo)). \<Sum>ih<nat (ax_I (geo_h geo)). \<Sum>iw<nat (ax_I (geo_w geo)).
       if hit geo (int od) (int oh) (int ow) kd kh kw (int id') (int ih) (int iw)
       then acc_d (dst (daddr geo dst_d (int mb) (g * geo_OC geo + oc) (int od) (int oh) (int ow))) *
         acc_s (src (daddr geo src_d (int mb) (g * geo_IC geo + ic) (int id') (int ih) (int iw)))
       else 0)"
  unfolding conv_bwd_weights_ker_def Let_def
proof (rule acc_loop_0, (rule acc_loop)+, goal_cases)
  case (1 mb _ od _ oh _ ow d)
  show ?case
    unfolding hit_def
      sum_hit3 [where f = "\<lambda>id' ih iw.
         acc_d (dst (daddr geo dst_d (int mb) (g * geo_OC geo + oc) (int od) (int oh) (int ow))) *
         acc_s (src (daddr geo src_d (int mb) (g * geo_IC geo + ic) id' ih iw))"]
    by (auto simp: off_Some [OF nd] src_pos_def not_le not_less)
qed

lemma conv_bwd_data_ker_sum:
  fixes acc_d :: "'d \<Rightarrow> 'a :: comm_semiring_0"
  assumes nd: "geo_ndims geo \<in> {3, 4, 5}"
    and S: "1 \<le> ax_S (geo_d geo)" "1 \<le> ax_S (geo_h geo)" "1 \<le> ax_S (geo_w geo)"
  shows "conv_bwd_data_ker acc_d acc_w geo dst_d wei_d dst wei g mb ic id' ih iw =
    (\<Sum>oc<nat (geo_OC geo). \<Sum>kd<nat (ax_K (geo_d geo)). \<Sum>kh<nat (ax_K (geo_h geo)). \<Sum>kw<nat (ax_K (geo_w geo)).
     \<Sum>od<nat (ax_O (geo_d geo)). \<Sum>oh<nat (ax_O (geo_h geo)). \<Sum>ow<nat (ax_O (geo_w geo)).
       if hit geo (int od) (int oh) (int ow) (int kd) (int kh) (int kw) id' ih iw
       then acc_d (dst (daddr geo dst_d mb (g * geo_OC geo + int oc) (int od) (int oh) (int ow))) *
         acc_w (wei (waddr geo wei_d g (int oc) ic (int kd) (int kh) (int kw)))
       else 0)"
  unfolding conv_bwd_data_ker_def Let_def
proof (rule acc_loop_0, (rule acc_loop)+, goal_cases)
  case (1 oc _ kd _ kh _ kw d)
  let ?x = "\<lambda>ax i k. i - int k * (1 + ax_D ax) + ax_P ax"
  let ?d = "geo_d geo" and ?h = "geo_h geo" and ?w = "geo_w geo"
  let ?xd = "?x ?d id' kd" and ?xh = "?x ?h ih kh" and ?xw = "?x ?w iw kw"
  let ?Q = "0 \<le> ?xd \<and> ?xd smod ax_S ?d = 0 \<and> 0 \<le> ?xh \<and> ?xh smod ax_S ?h = 0 \<and> 0 \<le> ?xw \<and> ?xw smod ax_S ?w = 0"
  have hit: "hit geo (int od) (int oh) (int ow) (int kd) (int kh) (int kw) id' ih iw \<longleftrightarrow>
      ?Q \<and> (?xd sdiv ax_S ?d = int od \<and> ?xh sdiv ax_S ?h = int oh \<and> ?xw sdiv ax_S ?w = int ow)" for od oh ow
    unfolding hit_def solve_axis [OF S(1) of_nat_0_le_iff] solve_axis [OF S(2) of_nat_0_le_iff]
      solve_axis [OF S(3) of_nat_0_le_iff] by blast
  let ?f = "\<lambda>od oh ow. acc_d (dst (daddr geo dst_d mb (g * geo_OC geo + int oc) od oh ow)) *
         acc_w (wei (waddr geo wei_d g (int oc) ic (int kd) (int kh) (int kw)))"
  have pos: "0 \<le> x sdiv s" if "0 \<le> x" "1 \<le> s" for x s :: int
    using that by (simp add: cdiv_simps pos_imp_zdiv_nonneg_iff)
  show ?case
  proof (cases ?Q)
    case True
    then have "0 \<le> ?xd sdiv ax_S ?d" "0 \<le> ?xh sdiv ax_S ?h" "0 \<le> ?xw sdiv ax_S ?w" using S pos by blast+
    then show ?thesis
      unfolding hit using True sum_hit3 [where f = ?f and p = "?xd sdiv ax_S ?d" and q = "?xh sdiv ax_S ?h"
          and r = "?xw sdiv ax_S ?w" and A = "ax_O ?d" and B = "ax_O ?h" and C = "ax_O ?w"]
      by (simp add: off_Some [OF nd])
  next
    case False
    then show ?thesis unfolding hit by auto
  qed
qed

section \<open>Exchanging the sums\<close>

lemma sum3: "(\<Sum>t\<in>A \<times> B \<times> C. f t) = (\<Sum>a\<in>A. \<Sum>b\<in>B. \<Sum>c\<in>C. f (a, b, c))"
  by (simp add: sum.cartesian_product)

lemma sum_swap_guarded:
  fixes y :: "'m \<Rightarrow> 'c \<Rightarrow> 'o \<Rightarrow> 'a :: comm_semiring_0"
  shows "(\<Sum>mb\<in>B. \<Sum>oc\<in>C. \<Sum>t\<in>O'. y mb oc t *
      (\<Sum>ic\<in>D. \<Sum>k\<in>K. \<Sum>i\<in>I. if H t k i then x mb ic i * w oc ic k else 0)) =
    (\<Sum>mb\<in>B. \<Sum>ic\<in>D. \<Sum>i\<in>I. x mb ic i *
      (\<Sum>oc\<in>C. \<Sum>k\<in>K. \<Sum>t\<in>O'. if H t k i then y mb oc t * w oc ic k else 0))"
    (is "?f = ?d")
    and "(\<Sum>mb\<in>B. \<Sum>oc\<in>C. \<Sum>t\<in>O'. y mb oc t *
      (\<Sum>ic\<in>D. \<Sum>k\<in>K. \<Sum>i\<in>I. if H t k i then x mb ic i * w oc ic k else 0)) =
    (\<Sum>oc\<in>C. \<Sum>ic\<in>D. \<Sum>k\<in>K. w oc ic k *
      (\<Sum>mb\<in>B. \<Sum>t\<in>O'. \<Sum>i\<in>I. if H t k i then y mb oc t * x mb ic i else 0))"
    (is "?f = ?w")
proof -
  let ?T = "\<lambda>(mb, oc, t, ic, k, i). if H t k i then y mb oc t * (x mb ic i * w oc ic k) else 0"
  let ?S = "sum ?T (B \<times> C \<times> O' \<times> D \<times> K \<times> I)"
  have f: "?f = ?S"
    by (simp add: sum_distrib_left sum.cartesian_product) (auto intro!: sum.cong)
  have "?d = (\<Sum>(mb, ic, i, oc, k, t)\<in>B \<times> D \<times> I \<times> C \<times> K \<times> O'.
      if H t k i then y mb oc t * (x mb ic i * w oc ic k) else 0)"
    by (simp add: sum_distrib_left sum.cartesian_product) (auto intro!: sum.cong simp: mult.left_commute)
  also have "\<dots> = ?S"
    by (rule sum.reindex_bij_witness [of _ "\<lambda>(mb, oc, t, ic, k, i). (mb, ic, i, oc, k, t)"
          "\<lambda>(mb, ic, i, oc, k, t). (mb, oc, t, ic, k, i)"]) auto
  finally show "?f = ?d" using f by simp
  have "?w = (\<Sum>(oc, ic, k, mb, t, i)\<in>C \<times> D \<times> K \<times> B \<times> O' \<times> I.
      if H t k i then y mb oc t * (x mb ic i * w oc ic k) else 0)"
    by (simp add: sum_distrib_left sum.cartesian_product) (auto intro!: sum.cong simp: ac_simps)
  also have "\<dots> = ?S"
    by (rule sum.reindex_bij_witness [of _ "\<lambda>(mb, oc, t, ic, k, i). (oc, ic, k, mb, t, i)"
          "\<lambda>(oc, ic, k, mb, t, i). (mb, oc, t, ic, k, i)"]) auto
  finally show "?f = ?w" using f by simp
qed

section \<open>Shapes\<close>

text \<open>
  The tensors of a convolution with a geometry: a data tensor with \<open>C\<close> channels per group and
  spatial extents \<open>D\<close>, \<open>H\<close>, \<open>W\<close>, of which the missing ones are 1, and the weights.
\<close>

definition data_extents :: "conv_geo \<Rightarrow> int \<Rightarrow> int \<Rightarrow> int \<Rightarrow> int \<Rightarrow> nat list" where
  "data_extents geo C D H W =
     [nat (geo_MB geo), nat (geo_G geo) * nat C] @
     (if geo_ndims geo = 5 then [nat D, nat H, nat W] else if geo_ndims geo = 4 then [nat H, nat W] else [nat W])"

definition shaped :: "conv_geo \<Rightarrow> memory_desc \<Rightarrow> int \<Rightarrow> int \<Rightarrow> int \<Rightarrow> int \<Rightarrow> bool" where
  "shaped geo md C D H W \<longleftrightarrow>
     wf_logical md \<and> geo_ndims geo \<in> {3, 4, 5} \<and> 0 \<le> C \<and> extents md False = data_extents geo C D H W \<and>
     (geo_ndims geo \<le> 4 \<longrightarrow> D = 1) \<and> (geo_ndims geo = 3 \<longrightarrow> H = 1)"

definition weights_shaped :: "conv_geo \<Rightarrow> memory_desc \<Rightarrow> bool" where
  "weights_shaped geo md \<longleftrightarrow> (let KD = ax_K (geo_d geo); KH = ax_K (geo_h geo); KW = ax_K (geo_w geo) in
     wf_logical md \<and> geo_ndims geo \<in> {3, 4, 5} \<and>
     extents md False =
       (if geo_with_groups geo then [nat (geo_G geo)] else []) @ [nat (geo_OC geo), nat (geo_IC geo)] @
       (if geo_ndims geo = 5 then [nat KD, nat KH, nat KW] else if geo_ndims geo = 4 then [nat KH, nat KW] else [nat KW]) \<and>
     (\<not> geo_with_groups geo \<longrightarrow> geo_G geo = 1) \<and>
     (geo_ndims geo \<le> 4 \<longrightarrow> KD = 1) \<and> (geo_ndims geo = 3 \<longrightarrow> KH = 1))"

definition dot :: "memory_desc \<Rightarrow> (int \<Rightarrow> 'a) \<Rightarrow> (int \<Rightarrow> 'a) \<Rightarrow> 'a :: comm_semiring_0" where
  "dot md a b = (\<Sum>xs | in_box (extents md False) xs. a (off md (map int xs)) * b (off md (map int xs)))"

lemma shaped_sum:
  assumes "shaped geo md C D H W"
  shows "(\<Sum>xs | in_box (extents md False) xs. f (off md (map int xs)) :: 'a :: comm_monoid_add) =
    (\<Sum>g<nat (geo_G geo). \<Sum>mb<nat (geo_MB geo). \<Sum>c<nat C. \<Sum>d<nat D. \<Sum>h<nat H. \<Sum>w<nat W.
      f (daddr geo md (int mb) (int g * C + int c) (int d) (int h) (int w)))"
  (is "_ = ?r")
proof -
  have C: "int (nat C) = C" using assms by (simp add: shaped_def)
  have "(\<Sum>xs | in_box (extents md False) xs. f (off md (map int xs))) =
      (\<Sum>mb<nat (geo_MB geo). \<Sum>g<nat (geo_G geo). \<Sum>c<nat C. \<Sum>d<nat D. \<Sum>h<nat H. \<Sum>w<nat W.
      f (daddr geo md (int mb) (int g * C + int c) (int d) (int h) (int w)))"
    using assms
    by (auto simp: shaped_def data_extents_def sum_box sum_groups daddr_def data_off_def C)
  also have "\<dots> = ?r" by (rule sum.swap)
  finally show ?thesis .
qed

lemma weights_sum:
  assumes "weights_shaped geo md"
  shows "(\<Sum>xs | in_box (extents md False) xs. f (off md (map int xs)) :: 'a :: comm_monoid_add) =
    (\<Sum>g<nat (geo_G geo). \<Sum>oc<nat (geo_OC geo). \<Sum>ic<nat (geo_IC geo). \<Sum>kd<nat (ax_K (geo_d geo)).
      \<Sum>kh<nat (ax_K (geo_h geo)). \<Sum>kw<nat (ax_K (geo_w geo)).
      f (waddr geo md (int g) (int oc) (int ic) (int kd) (int kh) (int kw)))"
  using assms
  by (auto simp: weights_shaped_def Let_def sum_box waddr_def wei_off_def)

text \<open>The position a data tensor is accessed at for group, batch, channel of the group and coordinates.\<close>

definition data_pos :: "conv_geo \<Rightarrow> nat \<Rightarrow> nat list \<Rightarrow> nat list" where
  "data_pos geo C ix = [ix ! 1, ix ! 0 * C + ix ! 2] @
     (if geo_ndims geo = 5 then [ix ! 3, ix ! 4, ix ! 5]
      else if geo_ndims geo = 4 then [ix ! 4, ix ! 5] else [ix ! 5])"

lemma data_pos:
  assumes "shaped geo md C D H W"
  shows "daddr geo md (int (ix ! 1)) (int (ix ! 0) * C + int (ix ! 2)) (int (ix ! 3)) (int (ix ! 4)) (int (ix ! 5)) =
      off md (map int (data_pos geo (nat C) ix))"
    "in_box [nat (geo_G geo), nat (geo_MB geo), nat C, nat D, nat H, nat W] ix \<Longrightarrow>
      in_box (extents md False) (data_pos geo (nat C) ix)"
proof -
  let ?nd = "geo_ndims geo"
  have C: "int (nat C) = C" "0 \<le> C" and nd: "?nd = 3 \<or> ?nd = 4 \<or> ?nd = 5"
    and ext: "extents md False = data_extents geo C D H W"
    using assms by (simp_all add: shaped_def)
  show "daddr geo md (int (ix ! 1)) (int (ix ! 0) * C + int (ix ! 2)) (int (ix ! 3)) (int (ix ! 4)) (int (ix ! 5)) =
      off md (map int (data_pos geo (nat C) ix))"
    using nd by (auto simp: daddr_def data_off_def data_pos_def C)
  assume ix_box: "in_box [nat (geo_G geo), nat (geo_MB geo), nat C, nat D, nat H, nat W] ix"
  obtain x0 x1 x2 x3 x4 x5 where ix: "ix = [x0, x1, x2, x3, x4, x5]" "x0 < nat (geo_G geo)"
    "x1 < nat (geo_MB geo)" "x2 < nat C" "x3 < nat D" "x4 < nat H" "x5 < nat W"
    using in_box_6 [OF ix_box] by blast
  show "in_box (extents md False) (data_pos geo (nat C) ix)"
    using ix(2-) mult_add_less [OF ix(2,4)] nd by (auto simp: ix(1) ext data_extents_def data_pos_def)
qed

lemma data_range:
  assumes "shaped geo md C D H W"
  shows "(\<lambda>ix. daddr geo md (int (ix ! 1)) (int (ix ! 0) * C + int (ix ! 2)) (int (ix ! 3)) (int (ix ! 4)) (int (ix ! 5))) `
      {ix. in_box [nat (geo_G geo), nat (geo_MB geo), nat C, nat D, nat H, nat W] ix} \<subseteq>
    {off md (map int xs) | xs. in_box (extents md False) xs}"
  using data_pos [OF assms] by blast

lemma data_inj:
  assumes "shaped geo md C D H W"
  shows "inj_on (\<lambda>ix. daddr geo md (int (ix ! 1)) (int (ix ! 0) * C + int (ix ! 2)) (int (ix ! 3)) (int (ix ! 4)) (int (ix ! 5)))
    {ix. in_box [nat (geo_G geo), nat (geo_MB geo), nat C, nat D, nat H, nat W] ix}"
    (is "inj_on ?addr {ix. in_box ?Ds ix}")
proof (rule inj_onI)
  let ?nd = "geo_ndims geo"
  have nd: "?nd = 3 \<or> ?nd = 4 \<or> ?nd = 5" and wf: "wf_logical md"
    and one: "?nd \<le> 4 \<Longrightarrow> D = 1" "?nd = 3 \<Longrightarrow> H = 1"
    using assms by (simp_all add: shaped_def)
  fix xs ys
  assume "xs \<in> {ix. in_box ?Ds ix}" "ys \<in> {ix. in_box ?Ds ix}" and eq: "?addr xs = ?addr ys"
  then have box: "in_box ?Ds xs" "in_box ?Ds ys" by simp_all
  have pos: "data_pos geo (nat C) xs = data_pos geo (nat C) ys"
    by (rule off_inj [OF wf data_pos(2) [OF assms box(1)] data_pos(2) [OF assms box(2)]])
      (use eq in \<open>simp only: data_pos(1) [OF assms]\<close>)
  obtain x0 x1 x2 x3 x4 x5 where x: "xs = [x0, x1, x2, x3, x4, x5]" "x2 < nat C" "x3 < nat D" "x4 < nat H"
    using in_box_6 [OF box(1)] by blast
  obtain y0 y1 y2 y3 y4 y5 where y: "ys = [y0, y1, y2, y3, y4, y5]" "y2 < nat C" "y3 < nat D" "y4 < nat H"
    using in_box_6 [OF box(2)] by blast
  have "x1 = y1 \<and> x0 * nat C + x2 = y0 * nat C + y2 \<and> x3 = y3 \<and> x4 = y4 \<and> x5 = y5"
    using nd pos one x(3,4) y(3,4) by (elim disjE) (simp_all add: x(1) y(1) data_pos_def)
  moreover from this have "x0 = y0 \<and> x2 = y2" using digit_eq [OF _ x(2) y(2)] by blast
  ultimately show "xs = ys" by (simp add: x(1) y(1))
qed

section \<open>Accepted descriptors have a geometry\<close>

text \<open>
  A descriptor over dense tensors that passes the channel checks of \<open>conv_desc_init\<close>, with extents
  and strides that fit \<open>int\<close>.
\<close>

definition conv_fits :: "convolution_desc \<Rightarrow> bool" where
  "conv_fits cd \<longleftrightarrow>
     (let s = conv_prop_invariant_src_d cd; w = conv_prop_invariant_wei_d cd; d = conv_prop_invariant_dst_d cd in
      conv_channels_ok forward_training s w None d \<and>
      (\<forall>md\<in>{s, w, d}. wf_logical md \<and> (\<forall>i<ndims md. md_dims md i \<le> INT32_MAX)) \<and>
      (\<forall>i<ndims s - 2. 1 \<le> cd_strides cd i \<and> cd_strides cd i \<le> INT32_MAX))"

lemma sdiv_group: "0 < g \<Longrightarrow> 0 < c \<Longrightarrow> (g * c) sdiv g = (c :: int)"
  by (simp add: cdiv_simps)

lemma conv_fits_geo:
  assumes "conv_fits cd"
  defines "geo \<equiv> conv_geo_of cd"
  shows "geo_ndims geo \<in> {3, 4, 5}"
    "shaped geo (conv_prop_invariant_src_d cd) (geo_IC geo) (ax_I (geo_d geo)) (ax_I (geo_h geo)) (ax_I (geo_w geo))"
    "shaped geo (conv_prop_invariant_dst_d cd) (geo_OC geo) (ax_O (geo_d geo)) (ax_O (geo_h geo)) (ax_O (geo_w geo))"
    "weights_shaped geo (conv_prop_invariant_wei_d cd)"
    "1 \<le> ax_S (geo_d geo) \<and> 1 \<le> ax_S (geo_h geo) \<and> 1 \<le> ax_S (geo_w geo)"
proof -
  define s where "s = conv_prop_invariant_src_d cd"
  define w where "w = conv_prop_invariant_wei_d cd"
  define d where "d = conv_prop_invariant_dst_d cd"
  define nd where "nd = md_ndims s"
  define wg where "wg = conv_with_groups cd"
  have wg: "groups_shift s w = of_bool wg" "md_ndims w = nd + of_bool wg"
    using assms by (auto simp: wg_def conv_with_groups_def conv_ndims_def s_def w_def nd_def groups_shift_def
        conv_fits_def Let_def conv_channels_ok_def)
  have nd: "nd = 3 \<or> nd = 4 \<or> nd = 5" "md_ndims d = nd"
    using assms by (auto simp: conv_fits_def Let_def conv_channels_ok_def s_def d_def nd_def)
  have md: "wf_logical s" "wf_logical w" "wf_logical d"
      "\<And>i. i < ndims s \<Longrightarrow> md_dims s i \<le> INT32_MAX" "\<And>i. i < ndims w \<Longrightarrow> md_dims w i \<le> INT32_MAX"
      "\<And>i. i < ndims d \<Longrightarrow> md_dims d i \<le> INT32_MAX"
    and str0: "\<And>i. i < ndims s - 2 \<Longrightarrow> 1 \<le> cd_strides cd i \<and> cd_strides cd i \<le> INT32_MAX"
    using assms by (simp_all add: conv_fits_def Let_def s_def d_def w_def)
  have lower: "1 \<le> md_dims m i" if "wf_logical m" "i < ndims m" for m i
    using that by (auto simp: wf_logical_def inside_padding_def)
  have nds: "ndims s = nat nd" "ndims d = nat nd" "ndims w = nat (md_ndims w)"
    using nd(2) by (simp_all add: ndims_def nd_def)
  have dims: "\<And>i. i < nat nd \<Longrightarrow> 1 \<le> md_dims s i \<and> md_dims s i \<le> INT32_MAX \<and> 1 \<le> md_dims d i \<and> md_dims d i \<le> INT32_MAX"
    "\<And>i. i < nat (md_ndims w) \<Longrightarrow> 1 \<le> md_dims w i \<and> md_dims w i \<le> INT32_MAX"
    and str: "\<And>i. i < nat nd - 2 \<Longrightarrow> 1 \<le> cd_strides cd i \<and> cd_strides cd i \<le> INT32_MAX"
    using lower [OF md(1)] lower [OF md(2)] lower [OF md(3)] md(4-6) str0 unfolding nds by blast+
  define G where "G = (if wg then md_dims w 0 else 1)"
  have G: "int32_cast (conv_G cd) = G" "1 \<le> G"
    using dims(2) [of 0] wg nd by (auto simp: conv_G_def G_def wg_def [symmetric] w_def [symmetric] int32_cast_id)
  define OC where "OC = md_dims w (of_bool wg)"
  define IC where "IC = md_dims w (of_bool wg + 1)"
  have "conv_channels_ok forward_training s w None d"
    using assms by (simp add: conv_fits_def Let_def s_def d_def w_def)
  then have chan: "md_dims s 0 = md_dims d 0"
    "md_dims s 1 = (if groups_shift s w = 1 then int32_cast (md_dims w 0) else 1) * md_dims w (groups_shift s w + 1)"
    "md_dims d 1 = (if groups_shift s w = 1 then int32_cast (md_dims w 0) else 1) * md_dims w (groups_shift s w)"
    by (simp_all add: conv_channels_ok_def Let_def)
  have G_eq: "(if groups_shift s w = 1 then int32_cast (md_dims w 0) else 1) = G"
    using dims(2) [of 0] wg nd by (cases wg) (auto simp: G_def int32_cast_id)
  have C: "md_dims s 1 = G * IC" "md_dims d 1 = G * OC" "md_dims s 0 = md_dims d 0"
    using chan unfolding G_eq by (simp_all only: wg(1) IC_def OC_def)
  have pos: "1 \<le> IC" "IC \<le> INT32_MAX" "1 \<le> OC" "OC \<le> INT32_MAX"
    using dims(2) [of "of_bool wg"] dims(2) [of "of_bool wg + 1"] wg(2) nd by (auto simp: IC_def OC_def)
  have nd0: "0 < nat nd" "1 < nat nd" using nd(1) by auto
  have geo: "geo_ndims geo = nd" "geo_with_groups geo = wg" "geo_G geo = G" "geo_MB geo = md_dims s 0"
    "geo_OC geo = OC" "geo_IC geo = IC"
    using dims(1) [OF nd0(1)] dims(1) [OF nd0(2)] C G pos
    by (simp_all add: geo_def conv_geo_of_def Let_def conv_ndims_def s_def [symmetric] nd_def [symmetric] wg_def
        conv_MB_def conv_OC_def conv_IC_def d_def [symmetric] int32_cast_id sdiv_group)
  have sp: "int32_cast (spatial_dim cd md k) =
      (if k = 1 \<or> nd \<ge> 2 + k then md_dims md (nat (nd - k)) else 1)"
    if "md = s \<or> md = d" "k = 1 \<or> k = 2 \<or> k = 3" for md k
    using dims(1) [of "nat (nd - k)"] that nd(1)
    by (auto simp: spatial_dim_def conv_ndims_def s_def [symmetric] nd_def [symmetric] int32_cast_id)
  have sw: "int32_cast (spatial_wei_dim cd k) =
      (if k = 1 \<or> nd \<ge> 2 + k then md_dims w (nat (nd + of_bool wg - k)) else 1)"
    if "k = 1 \<or> k = 2 \<or> k = 3" for k
    using dims(2) [of "nat (nd + of_bool wg - k)"] that nd(1) wg(2)
    by (auto simp: spatial_wei_dim_def conv_ndims_def s_def [symmetric] nd_def [symmetric] w_def [symmetric]
        wg_def [symmetric] int32_cast_id)
  have ss: "1 \<le> int32_cast (spatial_param cd (cd_strides cd) k dflt)"
    if "k = 1 \<or> k = 2 \<or> k = 3" "k = 1 \<or> dflt = 1" for k dflt
    using str [of "nat (nd - (2 + k))"] that nd(1)
    by (auto simp: spatial_param_def conv_ndims_def s_def [symmetric] nd_def [symmetric] int32_cast_id)
  show "geo_ndims geo \<in> {3, 4, 5}" using nd geo by simp
  show "1 \<le> ax_S (geo_d geo) \<and> 1 \<le> ax_S (geo_h geo) \<and> 1 \<le> ax_S (geo_w geo)"
    using ss by (simp add: geo_def conv_geo_of_def Let_def conv_axis_d_def conv_axis_h_def conv_axis_w_def
        conv_KSD_def conv_KSH_def conv_KSW_def)
  have upt: "[0..<nat nd] = [0, 1] @ (if nd = 5 then [2, 3, 4] else if nd = 4 then [2, 3] else [2])"
    using nd(1) by (auto simp: upt_rec)
  have axI: "ax_I (geo_d geo) = (if nd = 5 then md_dims s 2 else 1)"
    "ax_I (geo_h geo) = (if nd = 5 then md_dims s 3 else if nd = 4 then md_dims s 2 else 1)"
    "ax_I (geo_w geo) = (if nd = 5 then md_dims s 4 else if nd = 4 then md_dims s 3 else md_dims s 2)"
    using nd(1) by (auto simp: geo_def conv_geo_of_def Let_def conv_axis_d_def conv_axis_h_def conv_axis_w_def
        conv_ID_def conv_IH_def conv_IW_def s_def [symmetric] sp)
  have axO: "ax_O (geo_d geo) = (if nd = 5 then md_dims d 2 else 1)"
    "ax_O (geo_h geo) = (if nd = 5 then md_dims d 3 else if nd = 4 then md_dims d 2 else 1)"
    "ax_O (geo_w geo) = (if nd = 5 then md_dims d 4 else if nd = 4 then md_dims d 3 else md_dims d 2)"
    using nd(1) by (auto simp: geo_def conv_geo_of_def Let_def conv_axis_d_def conv_axis_h_def conv_axis_w_def
        conv_OD_def conv_OH_def conv_OW_def d_def [symmetric] sp)
  have axK: "ax_K (geo_d geo) = (if nd = 5 then md_dims w (of_bool wg + 2) else 1)"
    "ax_K (geo_h geo) = (if nd = 5 then md_dims w (of_bool wg + 3) else if nd = 4 then md_dims w (of_bool wg + 2) else 1)"
    "ax_K (geo_w geo) = (if nd = 5 then md_dims w (of_bool wg + 4) else if nd = 4 then md_dims w (of_bool wg + 3)
       else md_dims w (of_bool wg + 2))"
    using nd(1) by (auto simp: geo_def conv_geo_of_def Let_def conv_axis_d_def conv_axis_h_def conv_axis_w_def
        conv_KD_def conv_KH_def conv_KW_def sw eval_nat_numeral split: if_splits)
  show "shaped geo s (geo_IC geo) (ax_I (geo_d geo)) (ax_I (geo_h geo)) (ax_I (geo_w geo))"
    using md(1) nd pos G(2) by (auto simp: shaped_def data_extents_def extents_def ndims_def nd_def [symmetric] upt geo
        axI C [unfolded One_nat_def] nat_mult_distrib)
  show "shaped geo d (geo_OC geo) (ax_O (geo_d geo)) (ax_O (geo_h geo)) (ax_O (geo_w geo))"
    using md(3) nd pos G(2) by (auto simp: shaped_def data_extents_def extents_def ndims_def upt geo
        axO C [unfolded One_nat_def] nat_mult_distrib)
  have extw: "extents w False = (if wg then [nat G] else []) @ [nat OC, nat IC] @
      map (\<lambda>i. nat (md_dims w (of_bool wg + i))) ([2] @ (if nd = 3 then [] else if nd = 4 then [3] else [3, 4]))"
    using nd(1) wg(2) by (cases wg; auto simp: extents_def nds G_def OC_def IC_def upt_rec;
      simp add: eval_nat_numeral)
  show "weights_shaped geo w"
    using md(2) nd geo axK extw by (auto simp: weights_shaped_def Let_def G_def)
qed

section \<open>What the three directions compute\<close>

text \<open>
  The specification of the forward direction: the source is zero outside its extents, and an
  output element is the sum over the group's input channels and the kernel.
\<close>

definition padded_read :: "conv_geo \<Rightarrow> memory_desc \<Rightarrow> (int \<Rightarrow> 'a :: zero) \<Rightarrow> int \<Rightarrow> int \<Rightarrow> int \<Rightarrow> int \<Rightarrow> int \<Rightarrow> 'a" where
  "padded_read geo md a mb c id' ih iw =
     (if id' \<in> {0..<ax_I (geo_d geo)} \<and> ih \<in> {0..<ax_I (geo_h geo)} \<and> iw \<in> {0..<ax_I (geo_w geo)}
      then a (daddr geo md mb c id' ih iw) else 0)"

definition conv_spec :: "conv_geo \<Rightarrow> memory_desc \<Rightarrow> memory_desc \<Rightarrow> (int \<Rightarrow> 'a) \<Rightarrow> (int \<Rightarrow> 'a) \<Rightarrow>
    int \<Rightarrow> int \<Rightarrow> int \<Rightarrow> int \<Rightarrow> int \<Rightarrow> int \<Rightarrow> 'a :: comm_semiring_0" where
  "conv_spec geo src_d wei_d src wei g mb oc od oh ow =
     (\<Sum>ic<nat (geo_IC geo). \<Sum>kd<nat (ax_K (geo_d geo)). \<Sum>kh<nat (ax_K (geo_h geo)). \<Sum>kw<nat (ax_K (geo_w geo)).
        padded_read geo src_d src mb (g * geo_IC geo + int ic) (src_pos (geo_d geo) od (int kd))
          (src_pos (geo_h geo) oh (int kh)) (src_pos (geo_w geo) ow (int kw)) *
        wei (waddr geo wei_d g oc (int ic) (int kd) (int kh) (int kw)))"

lemma conv_fwd_ker_spec:
  fixes acc_s :: "'s \<Rightarrow> 'a :: comm_semiring_0"
  assumes nd: "geo_ndims geo \<in> {3, 4, 5}"
  shows "conv_fwd_ker acc_s acc_w geo src_d wei_d src wei g mb oc od oh ow =
    conv_spec geo src_d wei_d (acc_s \<circ> src) (acc_w \<circ> wei) g mb oc od oh ow"
  unfolding conv_fwd_ker_def conv_spec_def Let_def
proof (rule acc_loop_0, (rule acc_loop)+, goal_cases)
  case (1 ic _ kd _ kh _ kw d)
  show ?case by (simp add: off_Some [OF nd] src_pos_def padded_read_def not_le not_less)
qed

lemma execute_forward_eq:
  fixes acc_s :: "'s \<Rightarrow> 'a :: comm_semiring_0"
  assumes "conv_fits cd" "geo = conv_geo_of cd"
  shows "execute_forward acc_s acc_w to_float sat cd src wei bias dst =
    par_for [nat (geo_G geo), nat (geo_MB geo), nat (geo_OC geo), nat (ax_O (geo_d geo)), nat (ax_O (geo_h geo)),
        nat (ax_O (geo_w geo))]
      (\<lambda>ix out. out(daddr geo (cd_dst_desc cd) (int (ix ! 1)) (int (ix ! 0) * geo_OC geo + int (ix ! 2))
           (int (ix ! 3)) (int (ix ! 4)) (int (ix ! 5)) :=
         sat ((case bias of Some b \<Rightarrow> b (off (cd_bias_desc cd) [int (ix ! 0) * geo_OC geo + int (ix ! 2)]) | None \<Rightarrow> 0) +
           to_float (conv_fwd_ker acc_s acc_w geo (cd_src_desc cd) (cd_weights_desc cd) src wei (int (ix ! 0))
             (int (ix ! 1)) (int (ix ! 2)) (int (ix ! 3)) (int (ix ! 4)) (int (ix ! 5))))))
      dst"
  unfolding assms(2) execute_forward_def Let_def off_Some [OF conv_fits_geo(1) [OF assms(1)]] by simp

lemma execute_backward_data_eq:
  fixes acc_d :: "'d \<Rightarrow> 'a :: comm_semiring_0"
  assumes "conv_fits cd" "geo = conv_geo_of cd"
  shows "execute_backward_data acc_d acc_w to_float sat cd diff_dst wei bias diff_src =
    par_for [nat (geo_G geo), nat (geo_MB geo), nat (geo_IC geo), nat (ax_I (geo_d geo)), nat (ax_I (geo_h geo)),
        nat (ax_I (geo_w geo))]
      (\<lambda>ix out. out(daddr geo (cd_diff_src_desc cd) (int (ix ! 1)) (int (ix ! 0) * geo_IC geo + int (ix ! 2))
           (int (ix ! 3)) (int (ix ! 4)) (int (ix ! 5)) :=
         sat ((case bias of Some b \<Rightarrow> b (off (cd_bias_desc cd) [int (ix ! 0) * geo_IC geo + int (ix ! 2)]) | None \<Rightarrow> 0) +
           to_float (conv_bwd_data_ker acc_d acc_w geo (cd_diff_dst_desc cd) (cd_weights_desc cd) diff_dst wei
             (int (ix ! 0)) (int (ix ! 1)) (int (ix ! 2)) (int (ix ! 3)) (int (ix ! 4)) (int (ix ! 5))))))
      diff_src"
proof -
  have nd: "geo_ndims geo \<in> {3, 4, 5}" using conv_fits_geo(1) [OF assms(1)] assms(2) by simp
  have daddr: "daddr geo md mb c d h w =
      (if geo_ndims geo = 5 then off md [mb, c, d, h, w]
       else if geo_ndims geo = 4 then off md [mb, c, h, w] else off md [mb, c, w])" for md mb c d h w
    using nd by (auto simp: daddr_def data_off_def)
  show ?thesis unfolding execute_backward_data_def Let_def assms(2) [symmetric] daddr ..
qed

text \<open>The loops over channels and kernel inside each iteration are one list of writes.\<close>

definition wei_list :: "conv_geo \<Rightarrow> (nat \<times> nat \<times> nat \<times> nat) list" where
  "wei_list geo = List.product [0..<nat (geo_IC geo)] (List.product [0..<nat (ax_K (geo_d geo))]
     (List.product [0..<nat (ax_K (geo_h geo))] [0..<nat (ax_K (geo_w geo))]))"

lemma execute_backward_weights_eq:
  fixes acc_d :: "'d \<Rightarrow> 'a :: comm_semiring_0"
  assumes "conv_fits cd" "geo = conv_geo_of cd"
  shows "fst (execute_backward_weights acc_d acc_s sat cd diff_dst src (dw, db)) =
    fold (\<lambda>(ix, ic, kd, kh, kw) out. out(waddr geo (cd_diff_weights_desc cd) (int (ix ! 0)) (int (ix ! 1)) (int ic)
        (int kd) (int kh) (int kw) :=
          sat (conv_bwd_weights_ker acc_d acc_s geo (cd_diff_dst_desc cd) (cd_src_desc cd) diff_dst src
            (int (ix ! 0)) (int (ix ! 1)) (int ic) (int kd) (int kh) (int kw))))
      (List.product (box_list [nat (geo_G geo), nat (geo_OC geo)]) (wei_list geo)) dw"
  unfolding assms(2) execute_backward_weights_def Let_def off_Some [OF conv_fits_geo(1) [OF assms(1)]] par_for_box
    option.case for_upto_fold fold_product fold_pair wei_list_def
  by (simp add: case_prod_unfold)

text \<open>Reading the results back.\<close>

lemma execute_forward_read:
  fixes acc_s :: "'s \<Rightarrow> 'a :: comm_semiring_0"
  assumes fits: "conv_fits cd" and fwd: "cd_prop_kind cd \<in> {forward_training, forward_inference}"
    and geo: "geo = conv_geo_of cd"
    and box: "in_box [nat (geo_G geo), nat (geo_MB geo), nat (geo_OC geo), nat (ax_O (geo_d geo)), nat (ax_O (geo_h geo)),
        nat (ax_O (geo_w geo))] [g, mb, oc, od, oh, ow]"
  shows "execute_forward acc_s acc_w to_float sat cd src wei bias dst
      (daddr geo (cd_dst_desc cd) (int mb) (int g * geo_OC geo + int oc) (int od) (int oh) (int ow)) =
    sat ((case bias of Some b \<Rightarrow> b (off (cd_bias_desc cd) [int g * geo_OC geo + int oc]) | None \<Rightarrow> 0) +
      to_float (conv_fwd_ker acc_s acc_w geo (cd_src_desc cd) (cd_weights_desc cd) src wei (int g)
        (int mb) (int oc) (int od) (int oh) (int ow)))"
proof -
  have dst: "conv_prop_invariant_dst_d cd = cd_dst_desc cd"
    using fwd by (auto simp: conv_prop_invariant_dst_d_def)
  note inj = data_inj [OF conv_fits_geo(3) [OF fits], unfolded dst, folded geo]
  let ?v = "\<lambda>ix. sat ((case bias of Some b \<Rightarrow> b (off (cd_bias_desc cd) [int (ix ! 0) * geo_OC geo + int (ix ! 2)])
        | None \<Rightarrow> 0) +
      to_float (conv_fwd_ker acc_s acc_w geo (cd_src_desc cd) (cd_weights_desc cd) src wei (int (ix ! 0))
        (int (ix ! 1)) (int (ix ! 2)) (int (ix ! 3)) (int (ix ! 4)) (int (ix ! 5))))"
  show ?thesis
    unfolding execute_forward_eq [OF fits geo]
    using par_for_writes(1) [OF inj box, of ?v dst] by (simp cong: option.case_cong)
qed

lemma execute_backward_data_read:
  fixes acc_d :: "'d \<Rightarrow> 'a :: comm_semiring_0"
  assumes fits: "conv_fits cd" and bwd: "cd_prop_kind cd = backward_data" and geo: "geo = conv_geo_of cd"
    and box: "in_box [nat (geo_G geo), nat (geo_MB geo), nat (geo_IC geo), nat (ax_I (geo_d geo)), nat (ax_I (geo_h geo)),
        nat (ax_I (geo_w geo))] [g, mb, ic, id', ih, iw]"
  shows "execute_backward_data acc_d acc_w to_float sat cd diff_dst wei bias diff_src
      (daddr geo (cd_diff_src_desc cd) (int mb) (int g * geo_IC geo + int ic) (int id') (int ih) (int iw)) =
    sat ((case bias of Some b \<Rightarrow> b (off (cd_bias_desc cd) [int g * geo_IC geo + int ic]) | None \<Rightarrow> 0) +
      to_float (conv_bwd_data_ker acc_d acc_w geo (cd_diff_dst_desc cd) (cd_weights_desc cd) diff_dst wei (int g)
        (int mb) (int ic) (int id') (int ih) (int iw)))"
proof -
  have src: "conv_prop_invariant_src_d cd = cd_diff_src_desc cd"
    using bwd by (auto simp: conv_prop_invariant_src_d_def)
  note inj = data_inj [OF conv_fits_geo(2) [OF fits], unfolded src, folded geo]
  let ?v = "\<lambda>ix. sat ((case bias of Some b \<Rightarrow> b (off (cd_bias_desc cd) [int (ix ! 0) * geo_IC geo + int (ix ! 2)])
        | None \<Rightarrow> 0) +
      to_float (conv_bwd_data_ker acc_d acc_w geo (cd_diff_dst_desc cd) (cd_weights_desc cd) diff_dst wei
        (int (ix ! 0)) (int (ix ! 1)) (int (ix ! 2)) (int (ix ! 3)) (int (ix ! 4)) (int (ix ! 5))))"
  show ?thesis
    unfolding execute_backward_data_eq [OF fits geo]
    using par_for_writes(1) [OF inj box, of ?v diff_src] by (simp cong: option.case_cong)
qed

lemma weights_inj:
  assumes "weights_shaped geo md" and
    box: "in_box [nat (geo_G geo), nat (geo_OC geo), nat (geo_IC geo), nat (ax_K (geo_d geo)), nat (ax_K (geo_h geo)),
        nat (ax_K (geo_w geo))] [g, oc, ic, kd, kh, kw]"
      "in_box [nat (geo_G geo), nat (geo_OC geo), nat (geo_IC geo), nat (ax_K (geo_d geo)), nat (ax_K (geo_h geo)),
        nat (ax_K (geo_w geo))] [g', oc', ic', kd', kh', kw']"
    and eq: "waddr geo md (int g) (int oc) (int ic) (int kd) (int kh) (int kw) =
      waddr geo md (int g') (int oc') (int ic') (int kd') (int kh') (int kw')"
  shows "[g, oc, ic, kd, kh, kw] = [g', oc', ic', kd', kh', kw']"
proof -
  let ?nd = "geo_ndims geo"
  let ?pos = "\<lambda>g oc ic kd kh kw. (if geo_with_groups geo then [g] else []) @ [oc, ic] @
     (if ?nd = 5 then [kd, kh, kw] else if ?nd = 4 then [kh, kw] else [kw :: nat])"
  have nd: "?nd = 3 \<or> ?nd = 4 \<or> ?nd = 5" and wf: "wf_logical md"
    using assms(1) by (simp_all add: weights_shaped_def Let_def)
  have addr: "waddr geo md (int g) (int oc) (int ic) (int kd) (int kh) (int kw) =
      off md (map int (?pos g oc ic kd kh kw))" for g oc ic kd kh kw
    using nd by (auto simp: waddr_def wei_off_def)
  have in_ext: "in_box (extents md False) (?pos g oc ic kd kh kw)"
    if "in_box [nat (geo_G geo), nat (geo_OC geo), nat (geo_IC geo), nat (ax_K (geo_d geo)), nat (ax_K (geo_h geo)),
        nat (ax_K (geo_w geo))] [g, oc, ic, kd, kh, kw]" for g oc ic kd kh kw
    using assms(1) that by (auto simp: weights_shaped_def Let_def)
  have "?pos g oc ic kd kh kw = ?pos g' oc' ic' kd' kh' kw'"
    by (rule off_inj [OF wf in_ext [OF box(1)] in_ext [OF box(2)]]) (use eq in \<open>simp only: addr\<close>)
  then show ?thesis
    using assms(1) box by (auto simp: weights_shaped_def Let_def split: if_splits)
qed

lemma execute_backward_weights_read:
  fixes acc_d :: "'d \<Rightarrow> 'a :: comm_semiring_0"
  assumes fits: "conv_fits cd" and bwd: "cd_prop_kind cd = backward_weights" and geo: "geo = conv_geo_of cd"
    and box: "in_box [nat (geo_G geo), nat (geo_OC geo), nat (geo_IC geo), nat (ax_K (geo_d geo)), nat (ax_K (geo_h geo)),
        nat (ax_K (geo_w geo))] [g, oc, ic, kd, kh, kw]"
  shows "fst (execute_backward_weights acc_d acc_s sat cd diff_dst src (dw, db))
      (waddr geo (cd_diff_weights_desc cd) (int g) (int oc) (int ic) (int kd) (int kh) (int kw)) =
    sat (conv_bwd_weights_ker acc_d acc_s geo (cd_diff_dst_desc cd) (cd_src_desc cd) diff_dst src
      (int g) (int oc) (int ic) (int kd) (int kh) (int kw))"
proof -
  have "conv_prop_invariant_wei_d cd = cd_diff_weights_desc cd"
    using bwd by (auto simp: conv_prop_invariant_wei_d_def)
  then have sh: "weights_shaped geo (cd_diff_weights_desc cd)" using conv_fits_geo(4) [OF fits] geo by simp
  let ?L = "List.product (box_list [nat (geo_G geo), nat (geo_OC geo)]) (wei_list geo)"
  let ?a = "\<lambda>(ix, ic, kd, kh, kw). waddr geo (cd_diff_weights_desc cd) (int (ix ! 0)) (int (ix ! 1)) (int ic)
        (int kd) (int kh) (int kw)"
  let ?v = "\<lambda>(ix, ic, kd, kh, kw). sat (conv_bwd_weights_ker acc_d acc_s geo (cd_diff_dst_desc cd) (cd_src_desc cd)
     diff_dst src (int (ix ! 0)) (int (ix ! 1)) (int ic) (int kd) (int kh) (int kw))"
  have mem: "(ix, ic, kd, kh, kw) \<in> set ?L \<longleftrightarrow> (\<exists>g oc. ix = [g, oc] \<and>
      in_box [nat (geo_G geo), nat (geo_OC geo), nat (geo_IC geo), nat (ax_K (geo_d geo)), nat (ax_K (geo_h geo)),
        nat (ax_K (geo_w geo))] [g, oc, ic, kd, kh, kw])" for ix ic kd kh kw
    by (auto simp: wei_list_def set_box_list in_box_Cons1)
  have inj: "x = y" if xy: "x \<in> set ?L" "y \<in> set ?L" "?a x = ?a y" for x y
  proof -
    obtain g oc ic kd kh kw where x: "x = ([g, oc], ic, kd, kh, kw)" "([g, oc], ic, kd, kh, kw) \<in> set ?L"
      using xy(1) mem by (metis surj_pair)
    obtain g' oc' ic' kd' kh' kw' where y: "y = ([g', oc'], ic', kd', kh', kw')"
      "([g', oc'], ic', kd', kh', kw') \<in> set ?L"
      using xy(2) mem by (metis surj_pair)
    have "[g, oc, ic, kd, kh, kw] = [g', oc', ic', kd', kh', kw']"
      by (rule weights_inj [OF sh]) (use x y xy(3) in \<open>simp_all only: mem\<close>, auto)
    then show ?thesis by (simp add: x(1) y(1))
  qed
  have "fold (\<lambda>x out. out(?a x := ?v x)) ?L dw (?a ([g, oc], ic, kd, kh, kw)) = ?v ([g, oc], ic, kd, kh, kw)"
    by (rule fold_writes(1)) (use inj in blast, use box mem in blast)
  then show ?thesis
    unfolding execute_backward_weights_eq [OF fits geo] by (simp add: case_prod_unfold)
qed

section \<open>An example\<close>

definition plain3 :: "int \<Rightarrow> int \<Rightarrow> int \<Rightarrow> memory_desc" where
  "plain3 a b c = zero_md\<lparr>md_ndims := 3, md_dims := arr [a, b, c], md_data_type := s32, padded_dims := arr [a, b, c],
     md_format_kind := fk_blocked,
     blocking := zero_blocking_desc\<lparr>blk_strides := arr [b * c, c, 1]\<rparr>\<rparr>"

lemma plain3_fields:
  "md_ndims (plain3 a b c) = 3" "ndims (plain3 a b c) = 3" "md_dims (plain3 a b c) = arr [a, b, c]"
  "padded_dims (plain3 a b c) = arr [a, b, c]" "padded_offsets (plain3 a b c) = (\<lambda>_. 0)"
  "inner_blocks (plain3 a b c) = []" "offset0 (plain3 a b c) = 0" "md_format_kind (plain3 a b c) = fk_blocked"
  "blk_strides (blocking (plain3 a b c)) = arr [b * c, c, 1]" "inner_nblks (blocking (plain3 a b c)) = 0"
  by (simp_all add: plain3_def ndims_def zero_md_def inner_blocks_def inner_list_def zero_blocking_desc_def)

lemma plain3_wf: "0 < a \<Longrightarrow> 0 < b \<Longrightarrow> 0 < c \<Longrightarrow> wf_logical (plain3 a b c)"
proof -
  assume pos: "0 < a" "0 < b" "0 < c"
  have "dense_layout (plain3 a b c) [0, 1, 2]"
    using pos by (auto simp: dense_layout_def plain3_fields block_size_def outer_extent_def less_Suc_eq numeral_3_eq_3 numeral_2_eq_2)
  then show ?thesis
    using pos by (auto simp: wf_logical_def wf_padded_def inside_padding_def plain3_fields less_Suc_eq numeral_3_eq_3)
qed

lemma plain3_off: "off (plain3 a b c) [i, j, k] = i * b * c + j * c + k"
  by (simp add: off_def off_v_def Let_def plain3_fields for_range_Suc numeral_3_eq_3 for_upto_fold upt_rec)

definition conv_example :: convolution_desc where
  "conv_example = zero_convolution_desc\<lparr>cd_prop_kind := forward_training, cd_src_desc := plain3 1 1 3,
     cd_weights_desc := plain3 1 1 2, cd_dst_desc := plain3 1 1 2, cd_strides := (\<lambda>_. 1)\<rparr>"

lemma conv_example_invariants:
  "conv_prop_invariant_src_d conv_example = plain3 1 1 3" "conv_prop_invariant_wei_d conv_example = plain3 1 1 2"
  "conv_prop_invariant_dst_d conv_example = plain3 1 1 2"
  by (simp_all add: conv_example_def conv_prop_invariant_src_d_def conv_prop_invariant_wei_d_def
      conv_prop_invariant_dst_d_def)

lemma conv_example_geo:
  "conv_geo_of conv_example = \<lparr>geo_ndims = 3, geo_with_groups = False, geo_G = 1, geo_MB = 1, geo_OC = 1, geo_IC = 1,
     geo_d = \<lparr>ax_I = 1, ax_O = 1, ax_K = 1, ax_S = 1, ax_D = 0, ax_P = 0\<rparr>,
     geo_h = \<lparr>ax_I = 1, ax_O = 1, ax_K = 1, ax_S = 1, ax_D = 1, ax_P = 0\<rparr>,
     geo_w = \<lparr>ax_I = 3, ax_O = 2, ax_K = 2, ax_S = 1, ax_D = 0, ax_P = 0\<rparr>\<rparr>"
proof -
  have nd: "conv_ndims conv_example = 3" "\<not> conv_with_groups conv_example"
    by (simp_all add: conv_ndims_def conv_with_groups_def conv_example_invariants plain3_fields)
  have "cd_strides conv_example = (\<lambda>_. 1)" "cd_dilates conv_example = (\<lambda>_. 0)" "cd_padding_l conv_example = (\<lambda>_. 0)"
    by (simp_all add: conv_example_def zero_convolution_desc_def)
  then show ?thesis
    by (simp add: conv_geo_of_def Let_def nd conv_axis_d_def conv_axis_h_def conv_axis_w_def
        conv_MB_def conv_G_def conv_IC_def conv_OC_def conv_ID_def conv_IH_def conv_IW_def conv_OD_def conv_OH_def
        conv_OW_def conv_KD_def conv_KH_def conv_KW_def conv_KSD_def conv_KSH_def conv_KSW_def conv_KDD_def
        conv_KDH_def conv_KDW_def conv_padFront_def conv_padT_def conv_padL_def spatial_dim_def spatial_wei_dim_def
        spatial_param_def conv_example_invariants plain3_fields int32_cast_def cdiv_simps)
qed

lemma conv_example_fits: "conv_fits conv_example"
proof -
  have "conv_channels_ok forward_training (plain3 1 1 3) (plain3 1 1 2) None (plain3 1 1 2)"
    by (simp add: conv_channels_ok_def groups_shift_def has_bias_def nelems_def is_zero_def array_product_eq
        plain3_fields lessThan_Suc numeral_3_eq_3 Let_def)
  moreover have "\<forall>i<3. arr [1, 1, c] i \<le> INT32_MAX" if "c \<le> INT32_MAX" for c
    using that by (auto simp: less_Suc_eq numeral_3_eq_3)
  ultimately show ?thesis
    by (simp add: conv_fits_def conv_example_invariants plain3_wf plain3_fields)
      (simp add: conv_example_def)
qed

section \<open>Properties\<close>

text \<open>
  C18: the forward convolution computes the sum over the group's input channels and the dilated kernel of
  the zero-padded source times the weights, plus the bias, for every output element of any layout
  of the three tensors, and writes nothing else.
\<close>

theorem conv_forward_computes:
  fixes acc_s :: "'s \<Rightarrow> 'a :: comm_semiring_0"
  assumes fits: "conv_fits cd" and fwd: "cd_prop_kind cd \<in> {forward_training, forward_inference}"
    and geo: "geo = conv_geo_of cd"
  shows "(\<forall>g mb oc od oh ow. in_box [nat (geo_G geo), nat (geo_MB geo), nat (geo_OC geo), nat (ax_O (geo_d geo)),
        nat (ax_O (geo_h geo)), nat (ax_O (geo_w geo))] [g, mb, oc, od, oh, ow] \<longrightarrow>
      execute_forward acc_s acc_w to_float sat cd src wei bias dst
        (daddr geo (cd_dst_desc cd) (int mb) (int g * geo_OC geo + int oc) (int od) (int oh) (int ow)) =
      sat ((case bias of Some b \<Rightarrow> b (off (cd_bias_desc cd) [int g * geo_OC geo + int oc]) | None \<Rightarrow> 0) +
        to_float (conv_spec geo (cd_src_desc cd) (cd_weights_desc cd) (acc_s \<circ> src) (acc_w \<circ> wei)
          (int g) (int mb) (int oc) (int od) (int oh) (int ow)))) \<and>
    (\<forall>a. (\<forall>xs. in_box (extents (cd_dst_desc cd) False) xs \<longrightarrow> a \<noteq> off (cd_dst_desc cd) (map int xs)) \<longrightarrow>
      execute_forward acc_s acc_w to_float sat cd src wei bias dst a = dst a)"
proof (intro conjI allI impI)
  have nd: "geo_ndims geo \<in> {3, 4, 5}" using conv_fits_geo(1) [OF fits] geo by simp
  fix g mb oc od oh ow
  assume "in_box [nat (geo_G geo), nat (geo_MB geo), nat (geo_OC geo), nat (ax_O (geo_d geo)),
        nat (ax_O (geo_h geo)), nat (ax_O (geo_w geo))] [g, mb, oc, od, oh, ow]"
  from execute_forward_read [OF fits fwd geo this, of acc_s acc_w to_float sat src wei bias dst]
  show "execute_forward acc_s acc_w to_float sat cd src wei bias dst
        (daddr geo (cd_dst_desc cd) (int mb) (int g * geo_OC geo + int oc) (int od) (int oh) (int ow)) =
      sat ((case bias of Some b \<Rightarrow> b (off (cd_bias_desc cd) [int g * geo_OC geo + int oc]) | None \<Rightarrow> 0) +
        to_float (conv_spec geo (cd_src_desc cd) (cd_weights_desc cd) (acc_s \<circ> src) (acc_w \<circ> wei)
          (int g) (int mb) (int oc) (int od) (int oh) (int ow)))"
    by (simp only: conv_fwd_ker_spec [OF nd])
next
  fix a
  assume a: "\<forall>xs. in_box (extents (cd_dst_desc cd) False) xs \<longrightarrow> a \<noteq> off (cd_dst_desc cd) (map int xs)"
  have "conv_prop_invariant_dst_d cd = cd_dst_desc cd"
    using fwd by (auto simp: conv_prop_invariant_dst_d_def)
  then have sh: "shaped geo (cd_dst_desc cd) (geo_OC geo) (ax_O (geo_d geo)) (ax_O (geo_h geo)) (ax_O (geo_w geo))"
    using conv_fits_geo(3) [OF fits] geo by simp
  show "execute_forward acc_s acc_w to_float sat cd src wei bias dst a = dst a"
    unfolding execute_forward_eq [OF fits geo]
    by (rule par_for_writes(2) [OF data_inj [OF sh]]) (use a data_range [OF sh] in blast)
qed

theorem conv_forward_computes_witness:
  "execute_forward id id id id conv_example (\<lambda>a. a + 1) (\<lambda>_. 2) None (\<lambda>_. 0) 1 = (10 :: int)"
proof -
  have a: "daddr (conv_geo_of conv_example) (cd_dst_desc conv_example) 0 0 0 0 1 = 1"
    by (simp add: conv_example_geo daddr_def data_off_def) (simp add: conv_example_def plain3_off)
  have "execute_forward id id id id conv_example (\<lambda>a. a + 1) (\<lambda>_. 2) None (\<lambda>_. 0) 1 =
      (conv_spec (conv_geo_of conv_example) (cd_src_desc conv_example) (cd_weights_desc conv_example)
        (\<lambda>a. a + 1) (\<lambda>_. 2) 0 0 0 0 0 1 :: int)"
    using conv_forward_computes [OF conv_example_fits _ refl, of id id id id "\<lambda>a. a + 1" "\<lambda>_. 2" None "\<lambda>_. 0",
        THEN conjunct1, rule_format, of 0 0 0 0 0 1] a
    by (simp add: conv_example_geo comp_def id_def) (simp add: conv_example_def comp_def)
  also have "\<dots> = 10"
    by (simp add: conv_spec_def conv_example_geo padded_read_def src_pos_def daddr_def data_off_def waddr_def
        wei_off_def numeral_2_eq_2) (simp add: conv_example_def plain3_off)
  finally show ?thesis .
qed

text \<open>The descriptors of the two backward directions with the tensors of a forward one.\<close>

definition as_backward_data :: "convolution_desc \<Rightarrow> convolution_desc" where
  "as_backward_data cd = cd\<lparr>cd_prop_kind := backward_data, cd_diff_src_desc := cd_src_desc cd,
     cd_diff_dst_desc := cd_dst_desc cd\<rparr>"

definition as_backward_weights :: "convolution_desc \<Rightarrow> convolution_desc" where
  "as_backward_weights cd = cd\<lparr>cd_prop_kind := backward_weights, cd_diff_weights_desc := cd_weights_desc cd,
     cd_diff_dst_desc := cd_dst_desc cd\<rparr>"

lemma as_backward:
  assumes "cd_prop_kind cd \<in> {forward_training, forward_inference}"
  defines "s \<equiv> cd_src_desc cd" and "w \<equiv> cd_weights_desc cd" and "d \<equiv> cd_dst_desc cd"
  shows "\<And>c. c \<in> {cd, as_backward_data cd, as_backward_weights cd} \<Longrightarrow>
      conv_prop_invariant_src_d c = s \<and> conv_prop_invariant_wei_d c = w \<and> conv_prop_invariant_dst_d c = d \<and>
      cd_strides c = cd_strides cd \<and> cd_dilates c = cd_dilates cd \<and> cd_padding_l c = cd_padding_l cd"
  using assms(1)
  by (auto simp: as_backward_data_def as_backward_weights_def conv_prop_invariant_src_d_def
      conv_prop_invariant_wei_d_def conv_prop_invariant_dst_d_def s_def w_def d_def)

lemma as_backward_same:
  assumes "cd_prop_kind cd \<in> {forward_training, forward_inference}"
    and "c \<in> {cd, as_backward_data cd, as_backward_weights cd}"
  shows "conv_geo_of c = conv_geo_of cd" "conv_fits c = conv_fits cd"
proof -
  note same = as_backward [OF assms] as_backward [OF assms(1), of cd, simplified]
  have nd: "conv_ndims c = conv_ndims cd" "conv_with_groups c = conv_with_groups cd"
    using same by (simp_all add: conv_ndims_def conv_with_groups_def)
  have sp: "spatial_dim c = spatial_dim cd" "spatial_wei_dim c = spatial_wei_dim cd"
    "spatial_param c = spatial_param cd"
    using same by (simp_all add: spatial_dim_def spatial_wei_dim_def spatial_param_def nd fun_eq_iff)
  show "conv_geo_of c = conv_geo_of cd"
    using same by (simp add: conv_geo_of_def Let_def nd sp conv_axis_d_def conv_axis_h_def conv_axis_w_def
        conv_MB_def conv_G_def conv_IC_def conv_OC_def conv_ID_def conv_IH_def conv_IW_def conv_OD_def conv_OH_def
        conv_OW_def conv_KD_def conv_KH_def conv_KW_def conv_KSD_def conv_KSH_def conv_KSW_def conv_KDD_def
        conv_KDH_def conv_KDW_def conv_padFront_def conv_padT_def conv_padL_def)
  show "conv_fits c = conv_fits cd" using same by (simp add: conv_fits_def Let_def)
qed

lemma sum_cong_box6:
  assumes "\<And>x0 x1 x2 x3 x4 x5. in_box [a, b, c, d, e, f] [x0, x1, x2, x3, x4, x5] \<Longrightarrow>
    s x0 x1 x2 x3 x4 x5 = (t x0 x1 x2 x3 x4 x5 :: 'a :: comm_monoid_add)"
  shows "(\<Sum>x0<a. \<Sum>x1<b. \<Sum>x2<c. \<Sum>x3<d. \<Sum>x4<e. \<Sum>x5<f. s x0 x1 x2 x3 x4 x5) =
    (\<Sum>x0<a. \<Sum>x1<b. \<Sum>x2<c. \<Sum>x3<d. \<Sum>x4<e. \<Sum>x5<f. t x0 x1 x2 x3 x4 x5)"
  by (intro sum.cong refl assms) simp

text \<open>The inner products as sums over groups, batch, channels and coordinates.\<close>

definition data_at :: "conv_geo \<Rightarrow> memory_desc \<Rightarrow> int \<Rightarrow> (int \<Rightarrow> 'a) \<Rightarrow> nat \<Rightarrow> nat \<Rightarrow> nat \<Rightarrow> nat \<times> nat \<times> nat \<Rightarrow> 'a" where
  "data_at geo md C v g mb c = (\<lambda>(d, h, w). v (daddr geo md (int mb) (int g * C + int c) (int d) (int h) (int w)))"

definition weight_at :: "conv_geo \<Rightarrow> memory_desc \<Rightarrow> (int \<Rightarrow> 'a) \<Rightarrow> nat \<Rightarrow> nat \<Rightarrow> nat \<Rightarrow> nat \<times> nat \<times> nat \<Rightarrow> 'a" where
  "weight_at geo md v g oc ic = (\<lambda>(kd, kh, kw). v (waddr geo md (int g) (int oc) (int ic) (int kd) (int kh) (int kw)))"

definition hit_at :: "conv_geo \<Rightarrow> nat \<times> nat \<times> nat \<Rightarrow> nat \<times> nat \<times> nat \<Rightarrow> nat \<times> nat \<times> nat \<Rightarrow> bool" where
  "hit_at geo = (\<lambda>(od, oh, ow) (kd, kh, kw) (id', ih, iw).
     hit geo (int od) (int oh) (int ow) (int kd) (int kh) (int kw) (int id') (int ih) (int iw))"

definition space :: "conv_geo \<Rightarrow> (conv_axis \<Rightarrow> int) \<Rightarrow> (nat \<times> nat \<times> nat) set" where
  "space geo ext = {..<nat (ext (geo_d geo))} \<times> {..<nat (ext (geo_h geo))} \<times> {..<nat (ext (geo_w geo))}"

lemmas inner_product_simps = data_at_def weight_at_def hit_at_def space_def sum3 prod.case

lemma dot_forward:
  fixes x y w :: "int \<Rightarrow> 'a :: comm_semiring_0"
  assumes fits: "conv_fits cd" and fwd: "cd_prop_kind cd \<in> {forward_training, forward_inference}"
    and geo: "geo = conv_geo_of cd"
  shows "dot (cd_dst_desc cd) y (execute_forward id id id id cd x w None dst0) =
    (\<Sum>g<nat (geo_G geo). \<Sum>mb<nat (geo_MB geo). \<Sum>oc<nat (geo_OC geo). \<Sum>t\<in>space geo ax_O.
      data_at geo (cd_dst_desc cd) (geo_OC geo) y g mb oc t *
        (\<Sum>ic<nat (geo_IC geo). \<Sum>k\<in>space geo ax_K. \<Sum>i\<in>space geo ax_I. if hit_at geo t k i
          then data_at geo (cd_src_desc cd) (geo_IC geo) x g mb ic i * weight_at geo (cd_weights_desc cd) w g oc ic k else 0))"
proof -
  have inv: "conv_prop_invariant_dst_d cd = cd_dst_desc cd" using as_backward [OF fwd, of cd] by simp
  note g = conv_fits_geo [OF fits, folded geo, unfolded inv]
  show ?thesis
    unfolding dot_def inner_product_simps
      shaped_sum [OF g(3), where f = "\<lambda>a. y a * execute_forward id id id id cd x w None dst0 a"]
    by (rule sum_cong_box6)
      (simp only: execute_forward_read [OF fits fwd geo] option.case id_apply add_0 conv_fwd_ker_sum [OF g(1)])
qed

lemma dot_backward_data:
  fixes x y w :: "int \<Rightarrow> 'a :: comm_semiring_0"
  assumes fits: "conv_fits cd" and bwd: "cd_prop_kind cd = backward_data" and geo: "geo = conv_geo_of cd"
  shows "dot (cd_diff_src_desc cd) x (execute_backward_data id id id id cd y w None src0) =
    (\<Sum>g<nat (geo_G geo). \<Sum>mb<nat (geo_MB geo). \<Sum>ic<nat (geo_IC geo). \<Sum>i\<in>space geo ax_I.
      data_at geo (cd_diff_src_desc cd) (geo_IC geo) x g mb ic i *
        (\<Sum>oc<nat (geo_OC geo). \<Sum>k\<in>space geo ax_K. \<Sum>t\<in>space geo ax_O. if hit_at geo t k i
          then data_at geo (cd_diff_dst_desc cd) (geo_OC geo) y g mb oc t * weight_at geo (cd_weights_desc cd) w g oc ic k else 0))"
proof -
  have inv: "conv_prop_invariant_src_d cd = cd_diff_src_desc cd" using bwd by (simp add: conv_prop_invariant_src_d_def)
  note g = conv_fits_geo [OF fits, folded geo, unfolded inv]
  have S: "1 \<le> ax_S (geo_d geo)" "1 \<le> ax_S (geo_h geo)" "1 \<le> ax_S (geo_w geo)" using g(5) by simp_all
  show ?thesis
    unfolding dot_def inner_product_simps
      shaped_sum [OF g(2), where f = "\<lambda>a. x a * execute_backward_data id id id id cd y w None src0 a"]
    by (rule sum_cong_box6)
      (simp only: execute_backward_data_read [OF fits bwd geo] option.case id_apply add_0 conv_bwd_data_ker_sum [OF g(1) S])
qed

lemma dot_backward_weights:
  fixes x y w :: "int \<Rightarrow> 'a :: comm_semiring_0"
  assumes fits: "conv_fits cd" and bwd: "cd_prop_kind cd = backward_weights" and geo: "geo = conv_geo_of cd"
  shows "dot (cd_diff_weights_desc cd) w (fst (execute_backward_weights id id id cd y x (wei0, bias0))) =
    (\<Sum>g<nat (geo_G geo). \<Sum>oc<nat (geo_OC geo). \<Sum>ic<nat (geo_IC geo). \<Sum>k\<in>space geo ax_K.
      weight_at geo (cd_diff_weights_desc cd) w g oc ic k *
        (\<Sum>mb<nat (geo_MB geo). \<Sum>t\<in>space geo ax_O. \<Sum>i\<in>space geo ax_I. if hit_at geo t k i
          then data_at geo (cd_diff_dst_desc cd) (geo_OC geo) y g mb oc t * data_at geo (cd_src_desc cd) (geo_IC geo) x g mb ic i else 0))"
proof -
  have inv: "conv_prop_invariant_wei_d cd = cd_diff_weights_desc cd" using bwd by (simp add: conv_prop_invariant_wei_d_def)
  note g = conv_fits_geo [OF fits, folded geo, unfolded inv]
  show ?thesis
    unfolding dot_def inner_product_simps
      weights_sum [OF g(4), where f = "\<lambda>a. w a * fst (execute_backward_weights id id id cd y x (wei0, bias0)) a"]
    by (rule sum_cong_box6)
      (simp only: execute_backward_weights_read [OF fits bwd geo] id_apply conv_bwd_weights_ker_sum [OF g(1)])
qed



end
