(* ===== verification/Ref_Concat.thy ===== *)
theory Ref_Concat
  imports Op_Desc_More Par_Loops
begin

text \<open>
  Concatenation: the descriptor \<open>concat_pd_t\<close> of \<open>src/src/common/concat_pd.hpp\<close>, which chooses the
  layout of the destination and views each source's part of it as a submemory (its image), and
  the implementation \<open>src/src/cpu/ref_concat.hpp\<close>, which reorders each source into its image.
  The reorders are parameters with the contract \<open>reorder_impl\<close>, which the reference reorder
  provides; a buffer is a function from element addresses to elements.
\<close>

section \<open>The descriptor\<close>

record concat_pd =
  cp_n :: int
  cp_concat_dim :: nat
  cp_dst_md :: memory_desc
  cp_src_mds :: "memory_desc list"
  cp_src_image_mds :: "memory_desc list"

definition concat_pd_ctor :: "memory_desc \<Rightarrow> int \<Rightarrow> int \<Rightarrow> memory_desc list \<Rightarrow> concat_pd" where
  "concat_pd_ctor dst_md n concat_dim src_mds =
     \<lparr>cp_n = n, cp_concat_dim = nat concat_dim, cp_dst_md = dst_md, cp_src_mds = take (nat n) src_mds,
      cp_src_image_mds = []\<rparr>"

text \<open>
  The loop that views the parts of the destination; it returns at the first part that is not a
  submemory. It occurs twice, in \<open>init\<close> and as a check in \<open>set_default_params\<close>.
\<close>

fun concat_images :: "memory_desc \<Rightarrow> nat \<Rightarrow> memory_desc list \<Rightarrow> int \<Rightarrow> status \<times> memory_desc list" where
  "concat_images dst_md concat_dim [] current_offset = (success, [])"
| "concat_images dst_md concat_dim (src_md # src_mds) current_offset =
     (let dim = int32_cast (md_dims src_md concat_dim);
          dims = (md_dims dst_md)(concat_dim := dim);
          offsets = (\<lambda>_. 0)(concat_dim := current_offset)
      in case dnnl_memory_desc_init_submemory (Some dst_md) dims offsets of
           (success, Some src_img_d) \<Rightarrow>
             (let (st, imgs) = concat_images dst_md concat_dim src_mds (int32_cast (current_offset + dim))
              in (st, src_img_d # imgs))
         | (st, _) \<Rightarrow> (st, []))"

text \<open>
  The second loop reads the blocking of source 0, whichever plain source it is at.
\<close>

definition set_default_params :: "concat_pd \<Rightarrow> status \<times> memory_desc" where
  "set_default_params pd =
     (if md_format_kind (cp_dst_md pd) \<noteq> fk_any then (success, cp_dst_md pd)
      else
        let srcs = cp_src_mds pd;
            (st, dst) = fold (\<lambda>src_d (st, dst).
                if st \<noteq> success \<and> is_blocking_desc src_d \<and> \<not> is_plain src_d
                then memory_desc_init_by_blocking_desc dst (blocking src_d) else (st, dst))
              srcs (unimplemented, cp_dst_md pd);
            st = (if st = success \<and> fst (concat_images dst (cp_concat_dim pd) srcs 0) \<noteq> success
                  then unimplemented else st);
            (st, dst) =
              (if st \<noteq> success
               then fold (\<lambda>src_d (st, dst).
                   if st \<noteq> success \<and> is_blocking_desc src_d \<and> is_plain src_d
                   then memory_desc_init_by_blocking_desc dst (blocking (srcs ! 0)) else (st, dst))
                 srcs (st, dst)
               else (st, dst))
        in if st \<noteq> success then memory_desc_init_by_strides dst None else (st, dst))"

definition concat_pd_init :: "primitive_attr \<Rightarrow> concat_pd \<Rightarrow> status \<times> concat_pd" where
  "concat_pd_init attr pd =
     (let (st, dst) = set_default_params pd; pd = pd\<lparr>cp_dst_md := dst\<rparr>
      in if \<not> (st = success \<and> attr_has_default_values attr = Some True) then (unimplemented, pd)
         else if list_ex (\<lambda>i_d. \<not> is_blocking_desc i_d \<or> is_additional_buffer i_d) (cp_src_mds pd)
         then (unimplemented, pd)
         else let (st, imgs) = concat_images (cp_dst_md pd) (cp_concat_dim pd) (cp_src_mds pd) 0
              in (st, pd\<lparr>cp_src_image_mds := imgs\<rparr>))"

definition cp_src_md :: "concat_pd \<Rightarrow> nat \<Rightarrow> memory_desc" where
  "cp_src_md pd i = (if int i < cp_n pd then cp_src_mds pd ! i else zero_md)"

definition cp_src_image_md :: "concat_pd \<Rightarrow> nat \<Rightarrow> memory_desc" where
  "cp_src_image_md pd i = (if int i < cp_n pd then cp_src_image_mds pd ! i else zero_md)"

section \<open>The reference implementation\<close>

text \<open>
  A reorder implementation accepts a pair of descriptors or not, and an accepted one is run on
  two buffers. \<open>init\<close> takes the first implementation of the engine's list that accepts each
  source and its image.
\<close>

type_synonym 'e reorder = "(int \<Rightarrow> 'e) \<Rightarrow> (int \<Rightarrow> 'e) \<Rightarrow> int \<Rightarrow> 'e"

fun first_reorder :: "'e reorder option list \<Rightarrow> 'e reorder option" where
  "first_reorder [] = None"
| "first_reorder (r # rs) = (case r of Some f \<Rightarrow> Some f | None \<Rightarrow> first_reorder rs)"

definition ref_concat_reorders :: "(memory_desc \<Rightarrow> memory_desc \<Rightarrow> 'e reorder option) list \<Rightarrow> concat_pd \<Rightarrow>
    'e reorder list" where
  "ref_concat_reorders r_impls pd =
     List.map_filter (\<lambda>i. first_reorder (map (\<lambda>r. r (cp_src_md pd i) (cp_src_image_md pd i)) r_impls))
       [0..<nat (cp_n pd)]"

definition ref_concat_init :: "(memory_desc \<Rightarrow> memory_desc \<Rightarrow> 'e reorder option) list \<Rightarrow> primitive_attr \<Rightarrow>
    concat_pd \<Rightarrow> status \<times> concat_pd \<times> 'e reorder list" where
  "ref_concat_init r_impls attr pd =
     (let (st, pd) = concat_pd_init attr pd
      in if st \<noteq> success then (unimplemented, pd, [])
         else let reorder_pds = ref_concat_reorders r_impls pd
              in (if length reorder_pds = nat (cp_n pd) then success else unimplemented, pd, reorder_pds))"

text \<open>\<open>create\<close> of \<open>DECLARE_CONCAT_PD_t\<close>.\<close>

definition ref_concat_create :: "(memory_desc \<Rightarrow> memory_desc \<Rightarrow> 'e reorder option) list \<Rightarrow> primitive_attr \<Rightarrow>
    memory_desc \<Rightarrow> int \<Rightarrow> int \<Rightarrow> memory_desc list \<Rightarrow> status \<times> (concat_pd \<times> 'e reorder list) option" where
  "ref_concat_create r_impls attr dst_md n concat_dim src_mds =
     (let (st, pd, rs) = ref_concat_init r_impls attr (concat_pd_ctor dst_md n concat_dim src_mds)
      in if st \<noteq> success then (unimplemented, None) else (success, Some (pd, rs)))"

definition ref_concat_execute :: "concat_pd \<times> 'e reorder list \<Rightarrow> (nat \<Rightarrow> int \<Rightarrow> 'e) \<Rightarrow> (int \<Rightarrow> 'e) \<Rightarrow> int \<Rightarrow> 'e" where
  "ref_concat_execute = (\<lambda>(pd, reorders) srcs dst.
     for_upto (nat (cp_n pd)) (\<lambda>i dst. (reorders ! i) (srcs i) dst) dst)"

text \<open>The reference reorder with default attributes: scale 1, no sum with the old value.\<close>

definition copy_reorder :: "memory_desc \<Rightarrow> memory_desc \<Rightarrow> 'e reorder option" where
  "copy_reorder src_d dst_d =
     Some (\<lambda>src dst. simple_reorder_execute (\<lambda>_ _ i _. i) src_d dst_d 0 (\<lambda>_. ()) () src dst)"

section \<open>The layout of the destination\<close>

definition same_shape :: "memory_desc \<Rightarrow> memory_desc \<Rightarrow> bool" where
  "same_shape a b \<longleftrightarrow> md_ndims a = md_ndims b \<and> md_dims a = md_dims b"

lemma default_strides_eq:
  assumes "d < ndims md"
  shows "default_strides md d = prod_list (map (padded_dims md) [Suc d..<ndims md])"
proof -
  let ?s = "for_down (ndims md - 1) (\<lambda>d s. s(d := s (d + 1) * padded_dims md (d + 1)))"
  have "\<forall>d<ndims md. for_down n (\<lambda>d s. s(d := s (d + 1) * padded_dims md (d + 1))) s d =
      prod_list (map (padded_dims md) [Suc d..<ndims md])"
    if "\<And>d. n \<le> d \<Longrightarrow> d < ndims md \<Longrightarrow> s d = prod_list (map (padded_dims md) [Suc d..<ndims md])" "n < ndims md" for n s
    using that
  proof (induction n arbitrary: s)
    case (Suc n)
    have n: "[Suc n..<ndims md] = Suc n # [Suc (Suc n)..<ndims md]" using Suc.prems(2) by (simp add: upt_rec)
    show ?case
      unfolding for_down_Suc
    proof (rule Suc.IH)
      fix d assume d: "n \<le> d" "d < ndims md"
      show "(s(n := s (n + 1) * padded_dims md (n + 1))) d = prod_list (map (padded_dims md) [Suc d..<ndims md])"
      proof (cases "d = n")
        case True
        then show ?thesis using Suc.prems(1) [of "Suc n"] Suc.prems(2) n by (simp add: mult.commute)
      next
        case False
        then show ?thesis using Suc.prems(1) [of d] d by simp
      qed
    qed (use Suc.prems(2) in simp)
  qed simp
  from this [of "ndims md - 1" "(\<lambda>_. 0)(ndims md - 1 := 1)"] assms show ?thesis
    by (auto simp: default_strides_def)
qed

lemma init_by_strides_dense:
  assumes res: "memory_desc_init_by_strides md None = (success, md')" and nd: "0 < md_ndims md"
    and dims: "\<And>d. d < ndims md \<Longrightarrow> 0 < md_dims md d"
  shows "wf_logical md' \<and> md_ndims md' = md_ndims md \<and> (\<forall>d<ndims md. md_dims md' d = md_dims md d)"
proof -
  let ?f = "fresh_md (md_ndims md) (md_dims md) (md_data_type md) fk_blocked"
  have md': "md' = ?f\<lparr>blocking := (blocking ?f)\<lparr>blk_strides :=
      array_copy (blk_strides (blocking ?f)) (default_strides ?f) (ndims ?f)\<rparr>\<rparr>"
    using res nd by (auto simp: memory_desc_init_by_strides_def dnnl_memory_desc_init_by_strides_def Let_def split: if_splits)
  have n: "ndims md' = ndims md" "md_ndims md' = md_ndims md" "ndims ?f = ndims md"
    by (simp_all add: md' fresh_md_def ndims_def)
  have d: "md_dims md' d = md_dims md d" "padded_dims md' d = md_dims md d" "padded_offsets md' d = 0"
    "padded_dims ?f d = md_dims md d" "blk_strides (blocking md') d = default_strides ?f d" if "d < ndims md" for d
    using that by (simp_all add: md' fresh_md_def ndims_def array_copy_eq zero_md_def)
  have ib: "inner_blocks md' = []" "md_format_kind md' = fk_blocked"
    by (simp_all add: md' fresh_md_def inner_blocks_def inner_list_def zero_md_def zero_blocking_desc_def)
  have str: "dense_strides 1 (outer_extent md') (blk_strides (blocking md')) [k..<ndims md]" if "k \<le> ndims md" for k
    using that
  proof (induction "ndims md - k" arbitrary: k)
    case (Suc m)
    then have k: "k < ndims md" by simp
    have "prod_list (map (padded_dims ?f) [Suc k..<ndims md]) = prod_list (map (outer_extent md') [Suc k..<ndims md])"
      by (intro arg_cong [where f = prod_list] map_cong) (simp_all add: d outer_extent_def ib)
    then show ?case
      using Suc.hyps(1) [of "Suc k"] Suc.hyps(2) k d(5) [OF k] default_strides_eq [of k ?f] n(3)
      by (simp add: upt_conv_Cons [OF k])
  qed simp
  have "dense_layout md' [0..<ndims md]"
    using nd dims d n(2) ib str [of 0]
    by (auto simp: dense_layout_def block_size_def ndims_def)
  then show ?thesis
    using n d dims by (auto simp: wf_logical_def wf_padded_def inside_padding_def)
qed

lemma init_by_blocking_desc_shape:
  assumes "memory_desc_init_by_blocking_desc md blk = (st, md')"
  shows "same_shape md' md" "st = success"
  using assms by (auto simp: memory_desc_init_by_blocking_desc_def Let_def same_shape_def split: prod.splits)

lemma set_default_params_dense:
  assumes srcs: "\<And>s. s \<in> set (cp_src_mds pd) \<Longrightarrow> wf_logical s \<and> md_ndims s = md_ndims (cp_dst_md pd)"
    and nd: "0 < md_ndims (cp_dst_md pd)" "md_ndims (cp_dst_md pd) \<le> 12"
    and dims: "\<And>d. d < ndims (cp_dst_md pd) \<Longrightarrow> 0 < md_dims (cp_dst_md pd) d"
    and kind: "md_format_kind (cp_dst_md pd) \<noteq> fk_any \<longrightarrow> wf_logical (cp_dst_md pd)"
    and res: "set_default_params pd = (success, dst)"
  shows "wf_logical dst \<and> md_ndims dst = md_ndims (cp_dst_md pd) \<and>
    (\<forall>d<ndims (cp_dst_md pd). md_dims dst d = md_dims (cp_dst_md pd) d)"
proof (cases "md_format_kind (cp_dst_md pd) = fk_any")
  case False
  then show ?thesis using res kind by (simp add: set_default_params_def)
next
  case True
  let ?d0 = "cp_dst_md pd" and ?S = "cp_src_mds pd"
  let ?I = "\<lambda>(st, d). same_shape d ?d0 \<and> (st = success \<longrightarrow> wf_logical d)"
  have step: "wf_logical md' \<and> same_shape md' ?d0"
    if s: "same_shape d ?d0" "s \<in> set ?S" "memory_desc_init_by_blocking_desc d (blocking s) = (st, md')" for d s st md'
  proof -
    obtain perm where "dense_layout s perm" using srcs s(2) by (auto simp: wf_logical_def wf_padded_def)
    then have "blocks_ok (ndims d) (inner_list (blocking s) (inner_nblks (blocking s)))"
      using srcs [OF s(2)] s(1) by (auto simp: dense_layout_def inner_blocks_def same_shape_def ndims_def)
    then have "\<exists>perm. dense_layout md' perm \<and> inside_padding md'"
      using init_by_blocking_desc_dense [of d "blocking s" st md'] nd dims s(1,3)
      by (auto simp: same_shape_def ndims_def)
    then show ?thesis
      using init_by_blocking_desc_shape [OF s(3)] s(1) by (auto simp: wf_logical_def wf_padded_def same_shape_def)
  qed
  have keep: "?I (if c then memory_desc_init_by_blocking_desc d (blocking y) else (st, d))"
    if "y \<in> set ?S" "?I (st, d)" for c y st d
  proof (cases c)
    case True
    obtain st' md' where r: "memory_desc_init_by_blocking_desc d (blocking y) = (st', md')" by force
    show ?thesis using step [OF _ that(1) r] that(2) True r by simp
  qed (use that in simp)
  obtain st1 d1 where f1: "fold (\<lambda>src_d (st, dst).
                if st \<noteq> success \<and> is_blocking_desc src_d \<and> \<not> is_plain src_d
                then memory_desc_init_by_blocking_desc dst (blocking src_d) else (st, dst))
              ?S (unimplemented, ?d0) = (st1, d1)" by force
  have "?I (fold (\<lambda>src_d (st, dst).
                if st \<noteq> success \<and> is_blocking_desc src_d \<and> \<not> is_plain src_d
                then memory_desc_init_by_blocking_desc dst (blocking src_d) else (st, dst))
              ?S (unimplemented, ?d0))"
  proof (rule fold_invariant [where Q = "\<lambda>s. s \<in> set ?S"])
    fix x p assume "x \<in> set ?S" "?I p"
    then show "?I (case p of (st, dst) \<Rightarrow> if st \<noteq> success \<and> is_blocking_desc x \<and> \<not> is_plain x
        then memory_desc_init_by_blocking_desc dst (blocking x) else (st, dst))"
      using keep [of x] by (cases p) simp
  qed (simp_all add: same_shape_def)
  then have I1: "?I (st1, d1)" by (simp only: f1)
  define st2 where "st2 = (if st1 = success \<and> fst (concat_images d1 (cp_concat_dim pd) ?S 0) \<noteq> success
                  then unimplemented else st1)"
  have I2: "?I (st2, d1)" using I1 by (auto simp: st2_def)
  let ?f2 = "fold (\<lambda>src_d (st, dst).
                   if st \<noteq> success \<and> is_blocking_desc src_d \<and> is_plain src_d
                   then memory_desc_init_by_blocking_desc dst (blocking (?S ! 0)) else (st, dst))
                 ?S (st2, d1)"
  obtain st3 d3 where f3: "(if st2 \<noteq> success then ?f2 else (st2, d1)) = (st3, d3)" by force
  have "?I ?f2"
  proof (rule fold_invariant [where Q = "\<lambda>s. s \<in> set ?S"])
    fix x p assume x: "x \<in> set ?S" "?I p"
    then have "?S ! 0 \<in> set ?S" by (auto intro: nth_mem)
    then show "?I (case p of (st, dst) \<Rightarrow> if st \<noteq> success \<and> is_blocking_desc x \<and> is_plain x
        then memory_desc_init_by_blocking_desc dst (blocking (?S ! 0)) else (st, dst))"
      using keep [of "?S ! 0"] x(2) by (cases p) simp
  qed (use I2 in simp_all)
  then have I3: "?I (st3, d3)" using I2 f3 by (auto split: if_splits)
  have fin: "(if st3 \<noteq> success then memory_desc_init_by_strides d3 None else (st3, d3)) = (success, dst)"
    using res True unfolding set_default_params_def Let_def f1 split_conv st2_def [symmetric] f3 by simp
  show ?thesis
  proof (cases "st3 = success")
    case True
    then show ?thesis using fin I3 by (auto simp: same_shape_def)
  next
    case False
    then have "memory_desc_init_by_strides d3 None = (success, dst)" using fin by simp
    from init_by_strides_dense [OF this] I3 nd dims show ?thesis by (auto simp: same_shape_def ndims_def)
  qed
qed

section \<open>The images tile the destination\<close>

text \<open>Where source \<open>i\<close> begins along the concatenated dimension.\<close>

definition concat_base :: "memory_desc list \<Rightarrow> nat \<Rightarrow> nat \<Rightarrow> int" where
  "concat_base srcs cd i = (\<Sum>j<i. md_dims (srcs ! j) cd)"

lemma submemory_writes: "dnnl_memory_desc_init_submemory p dims offsets \<noteq> (success, None)"
  by (auto simp: dnnl_memory_desc_init_submemory_def Let_def split: option.splits)

lemma concat_images_success:
  assumes "concat_images dst cd srcs current = (success, imgs)"
    and "\<And>s. s \<in> set srcs \<Longrightarrow> 0 \<le> md_dims s cd" "0 \<le> current"
    and "current + concat_base srcs cd (length srcs) \<le> INT32_MAX"
  shows "length imgs = length srcs \<and> (\<forall>i<length srcs.
    dnnl_memory_desc_init_submemory (Some dst) ((md_dims dst)(cd := md_dims (srcs ! i) cd))
      ((\<lambda>_. 0)(cd := current + concat_base srcs cd i)) = (success, Some (imgs ! i)))"
  using assms
proof (induction srcs arbitrary: current imgs)
  case (Cons s ss)
  have base: "concat_base (s # ss) cd (Suc i) = md_dims s cd + concat_base ss cd i" for i
    by (simp add: concat_base_def sum.lessThan_Suc_shift del: sum.lessThan_Suc)
  have nn: "0 \<le> concat_base ss cd (length ss)"
    using Cons.prems(2) by (auto simp: concat_base_def intro!: sum_nonneg)
  have dim: "int32_cast (md_dims s cd) = md_dims s cd"
    and cur: "int32_cast (current + md_dims s cd) = current + md_dims s cd"
    using Cons.prems(2) [of s] Cons.prems(3,4) nn base [of "length ss"] by (simp_all add: int32_cast_id)
  obtain img imgs' where img: "dnnl_memory_desc_init_submemory (Some dst) ((md_dims dst)(cd := md_dims s cd))
        ((\<lambda>_. 0)(cd := current)) = (success, Some img)"
      "concat_images dst cd ss (current + md_dims s cd) = (success, imgs')" "imgs = img # imgs'"
    using Cons.prems(1) by (auto simp: Let_def dim cur submemory_writes split: prod.splits status.splits option.splits)
  have IH: "length imgs' = length ss \<and> (\<forall>i<length ss.
      dnnl_memory_desc_init_submemory (Some dst) ((md_dims dst)(cd := md_dims (ss ! i) cd))
        ((\<lambda>_. 0)(cd := current + md_dims s cd + concat_base ss cd i)) = (success, Some (imgs' ! i)))"
    by (rule Cons.IH [OF img(2)]) (use Cons.prems(2-4) base [of "length ss"] in simp_all)
  show ?case
  proof (intro conjI allI impI)
    show "length imgs = length (s # ss)" using IH img(3) by simp
    fix i assume "i < length (s # ss)"
    then show "dnnl_memory_desc_init_submemory (Some dst) ((md_dims dst)(cd := md_dims ((s # ss) ! i) cd))
        ((\<lambda>_. 0)(cd := current + concat_base (s # ss) cd i)) = (success, Some (imgs ! i))"
    proof (cases i)
      case 0
      then show ?thesis using img(1,3) by (simp add: concat_base_def del: fun_upd_apply)
    next
      case (Suc j)
      then have "concat_base (s # ss) cd i = md_dims s cd + concat_base ss cd j" by (simp only: base)
      then show ?thesis using IH Suc \<open>i < length (s # ss)\<close> img(3) by (simp add: add.assoc del: fun_upd_apply)
    qed
  qed
qed simp

text \<open>One image: a view of the destination, shifted along the concatenated dimension.\<close>

lemma image_view:
  assumes wf: "wf_logical dst" and cd: "cd < ndims dst"
    and sub: "dnnl_memory_desc_init_submemory (Some dst) ((md_dims dst)(cd := c)) ((\<lambda>_. 0)(cd := b)) = (success, Some img)"
    and c: "0 < c" "0 \<le> b" "b + c \<le> md_dims dst cd"
  shows "md_ndims img = md_ndims dst" "\<And>d. d < ndims dst \<Longrightarrow> md_dims img d = ((md_dims dst)(cd := c)) d"
    "\<And>xs. in_box (extents img False) xs \<Longrightarrow>
      off img (map int xs) = off dst (map int (xs[cd := xs ! cd + nat b])) \<and>
      in_box (extents dst False) (xs[cd := xs ! cd + nat b])"
    "injective_layout img"
proof -
  let ?B = "compute_blocks dst (\<lambda>_. 0)"
  obtain perm where dl: "dense_layout dst perm" using wf by (auto simp: wf_logical_def wf_padded_def)
  have ok: "blocks_ok (ndims dst) (inner_blocks dst)" using dl by (simp add: dense_layout_def ndims_def)
  have pos: "\<And>d. d < ndims dst \<Longrightarrow> 0 < md_dims dst d" using wf by (simp add: wf_logical_def inside_padding_def)
  have loop: "for_upto (ndims dst) (submemory_step dst ((md_dims dst)(cd := c)) ((\<lambda>_. 0)(cd := b)) ?B) (Some dst) = Some img"
    using sub unfolding dnnl_memory_desc_init_submemory_def Let_def option.sel
    by (simp split: if_splits option.splits)
  note L = submemory_loop [OF loop]
  show nd: "md_ndims img = md_ndims dst" and dims: "\<And>d. d < ndims dst \<Longrightarrow> md_dims img d = ((md_dims dst)(cd := c)) d"
    using L by auto
  have n: "ndims img = ndims dst" using nd by (simp add: ndims_def)
  show view: "off img (map int xs) = off dst (map int (xs[cd := xs ! cd + nat b])) \<and>
      in_box (extents dst False) (xs[cd := xs ! cd + nat b])" if xs: "in_box (extents img False) xs" for xs
  proof
    have len: "length xs = ndims dst" using in_box_length [OF xs] n by (simp add: extents_def)
    have lt: "xs ! d < nat (md_dims img d)" if "d < ndims dst" for d
      using xs that n unfolding in_box_def list_all2_conv_all_nth by (auto simp: extents_def)
    have "(\<lambda>d. arr (map int xs) d + ((\<lambda>_. 0)(cd := b)) d) = arr (map int (xs[cd := xs ! cd + nat b]))"
      using cd c(2) len by (auto simp: arr_def fun_eq_iff nth_list_update)
    then show "off img (map int xs) = off dst (map int (xs[cd := xs ! cd + nat b]))"
      using submemory_offsets [OF sub ok, of "arr (map int xs)"] len by (simp add: off_def arr_def)
    have "xs[cd := xs ! cd + nat b] ! d < nat (md_dims dst d)" if "d < ndims dst" for d
      using lt [OF that] dims [OF that] c cd len by (cases "d = cd") auto
    then show "in_box (extents dst False) (xs[cd := xs ! cd + nat b])"
      using len unfolding in_box_def list_all2_conv_all_nth by (auto simp: extents_def)
  qed
  have dpos: "\<And>d. d < ndims img \<Longrightarrow> 0 < md_dims img d" using dims pos c(1) n by auto
  have cnt: "count_logical img = prod_list (extents img False)"
    using nelems_extents [of img False] dpos cd n by (simp add: count_logical_def ndims_def)
  show "injective_layout img"
    unfolding injective_layout_def
  proof (rule inj_onI)
    fix e e' assume e: "e \<in> {..<count_logical img}" "e' \<in> {..<count_logical img}"
      and eq: "addr_logical img e = addr_logical img e'"
    let ?x = "radix_digits (extents img False) e" and ?y = "radix_digits (extents img False) e'"
    have box: "in_box (extents img False) ?x" "in_box (extents img False) ?y"
      using e cnt digits_in_box by simp_all
    have "?x[cd := ?x ! cd + nat b] = ?y[cd := ?y ! cd + nat b]"
      using off_inj [OF wf] view [OF box(1)] view [OF box(2)] eq addr_logical_off [OF dpos] by metis
    moreover have "length ?x = ndims dst" "length ?y = ndims dst" using n by (simp_all add: extents_def)
    ultimately have "?x = ?y"
      by (metis (no_types, lifting) add_right_cancel cd list_update_id list_update_overwrite nth_list_update_eq)
    then show "e = e'" using e cnt digits_inj by simp
  qed
qed

section \<open>The interface of the reorders\<close>

text \<open>
  What a concatenation needs of every reorder implementation: run on a destination whose positions
  have distinct addresses, it copies every element of the tensor and writes nothing else.
\<close>

locale reorder_impls =
  fixes impls :: "(memory_desc \<Rightarrow> memory_desc \<Rightarrow> 'e reorder option) list"
  assumes copies: "r \<in> set impls \<Longrightarrow> r src img = Some f \<Longrightarrow> injective_layout img \<Longrightarrow> consistent_with src img \<Longrightarrow>
      0 < md_ndims src \<Longrightarrow> \<forall>d<ndims src. 0 < md_dims src d \<Longrightarrow>
      (\<forall>e<count_logical img. f inp outp (addr_logical img e) = inp (addr_logical src e)) \<and>
      (\<forall>a. a \<notin> addr_logical img ` {..<count_logical img} \<longrightarrow> f inp outp a = outp a)"
begin

lemma copies_positions:
  assumes r: "r \<in> set impls" "r src img = Some f" and img: "injective_layout img"
    and sh: "md_ndims src = md_ndims img" "\<And>d. d < ndims src \<Longrightarrow> md_dims src d = md_dims img d \<and> 0 < md_dims src d"
      "0 < md_ndims src"
  shows "in_box (extents img False) xs \<Longrightarrow> f inp outp (off img (map int xs)) = inp (off src (map int xs))"
    and "(\<And>xs. in_box (extents img False) xs \<Longrightarrow> a \<noteq> off img (map int xs)) \<Longrightarrow> f inp outp a = outp a"
proof -
  have n: "ndims src = ndims img" using sh(1) by (simp add: ndims_def)
  have cons: "consistent_with src img" using sh by (simp add: consistent_with_def)
  have pos: "\<And>d. d < ndims img \<Longrightarrow> 0 < md_dims img d" using sh(2) n by fastforce
  have ext: "extents src False = extents img False" using sh(2) n by (simp add: extents_def)
  have cnt: "count_logical img = prod_list (extents img False)"
    using nelems_extents [of img False] pos sh(1,3) by (simp add: count_logical_def)
  have addr: "addr_logical img e = off img (map int (radix_digits (extents img False) e))"
    "addr_logical src e = off src (map int (radix_digits (extents img False) e))" for e
    using addr_logical_off [of img] addr_logical_off [of src] pos sh(2) n by (simp_all add: ext)
  note c = copies [OF r img cons sh(3), of inp outp, unfolded addr cnt]
  show "f inp outp (off img (map int xs)) = inp (off src (map int xs))" if "in_box (extents img False) xs"
    using c sh(2) radix_val_less [OF that] radix_digits_val [OF that] by metis
  show "f inp outp a = outp a" if "\<And>xs. in_box (extents img False) xs \<Longrightarrow> a \<noteq> off img (map int xs)"
  proof -
    have "a \<notin> (\<lambda>e. off img (map int (radix_digits (extents img False) e))) ` {..<prod_list (extents img False)}"
      using that digits_in_box by blast
    then show ?thesis using c sh(2) by blast
  qed
qed

text \<open>After the first \<open>k\<close> reorders the parts of the first \<open>k\<close> sources are in place.\<close>

lemma concat_prefix:
  fixes srcs :: "memory_desc list" and cd :: nat
  defines "base \<equiv> concat_base srcs cd"
  assumes wf: "wf_logical dst" and cd: "cd < ndims dst"
    and nd: "\<And>i. i < length srcs \<Longrightarrow> md_ndims (srcs ! i) = md_ndims dst"
    and dims: "\<And>i d. i < length srcs \<Longrightarrow> d < ndims dst \<Longrightarrow> 0 < md_dims (srcs ! i) d \<and>
        (d \<noteq> cd \<longrightarrow> md_dims (srcs ! i) d = md_dims dst d)"
    and total: "base (length srcs) = md_dims dst cd"
    and imgs: "\<And>i. i < length srcs \<Longrightarrow> dnnl_memory_desc_init_submemory (Some dst)
        ((md_dims dst)(cd := md_dims (srcs ! i) cd)) ((\<lambda>_. 0)(cd := base i)) = (success, Some (imgs ! i))"
    and reorders: "\<And>i. i < length srcs \<Longrightarrow> \<exists>r\<in>set impls. r (srcs ! i) (imgs ! i) = Some (fs ! i)"
    and k: "k \<le> length srcs"
  shows "(\<forall>ys. in_box (extents dst False) ys \<longrightarrow>
      (\<forall>i<k. base i \<le> int (ys ! cd) \<and> int (ys ! cd) < base (Suc i) \<longrightarrow>
        for_upto k (\<lambda>i out. (fs ! i) (bufs i) out) out (off dst (map int ys)) =
          bufs i (off (srcs ! i) (map int (ys[cd := ys ! cd - nat (base i)])))) \<and>
      (base k \<le> int (ys ! cd) \<longrightarrow>
        for_upto k (\<lambda>i out. (fs ! i) (bufs i) out) out (off dst (map int ys)) = out (off dst (map int ys)))) \<and>
    (\<forall>a. (\<forall>ys. in_box (extents dst False) ys \<longrightarrow> a \<noteq> off dst (map int ys)) \<longrightarrow>
      for_upto k (\<lambda>i out. (fs ! i) (bufs i) out) out a = out a)"
  using k
proof (induction k)
  case 0
  then show ?case by simp
next
  case (Suc k)
  let ?D = "for_upto k (\<lambda>i out. (fs ! i) (bufs i) out) out" and ?img = "imgs ! k" and ?s = "srcs ! k"
  have k: "k < length srcs" using Suc.prems by simp
  have mono: "base i \<le> base j" if "i \<le> j" "j \<le> length srcs" for i j
    unfolding base_def concat_base_def
    by (rule sum_mono2) (use that dims cd in \<open>auto intro: less_imp_le\<close>)
  have nn: "0 \<le> base k" using mono [of 0 k] k by (simp add: base_def concat_base_def)
  have c: "0 < md_dims ?s cd" using dims [OF k cd] by simp
  have next': "base (Suc k) = base k + md_dims ?s cd" by (simp add: base_def concat_base_def)
  have le: "base k + md_dims ?s cd \<le> md_dims dst cd"
    using mono [of "Suc k" "length srcs"] Suc.prems by (simp add: next' total)
  note V = image_view [OF wf cd imgs [OF k] c nn le]
  have n: "ndims ?img = ndims dst" "ndims ?s = ndims dst" using V(1) nd [OF k] by (simp_all add: ndims_def)
  obtain r where r: "r \<in> set impls" "r ?s ?img = Some (fs ! k)" using reorders [OF k] by blast
  have sh: "md_ndims ?s = md_ndims ?img" "\<And>d. d < ndims ?s \<Longrightarrow> md_dims ?s d = md_dims ?img d \<and> 0 < md_dims ?s d"
    "0 < md_ndims ?s"
    using nd [OF k] V(1,2) dims [OF k] n cd by (auto simp: ndims_def)
  note C = copies_positions [OF r V(4) sh, of _ "bufs k" ?D]
  have step: "for_upto (Suc k) (\<lambda>i out. (fs ! i) (bufs i) out) out = (fs ! k) (bufs k) ?D"
    by (simp add: for_range_Suc)
  have part: "int (ys ! cd) < base (Suc k) \<and> base k \<le> int (ys ! cd)"
    if "in_box (extents ?img False) xs" "ys = xs[cd := xs ! cd + nat (base k)]" for xs ys
  proof -
    have "xs ! cd < nat (md_dims ?img cd)" "length xs = ndims dst"
      using that(1) cd n in_box_length [OF that(1)] unfolding in_box_def list_all2_conv_all_nth
      by (auto simp: extents_def)
    then show ?thesis using that(2) V(2) [OF cd] cd nn by (simp add: next')
  qed
  have in_part: "in_box (extents ?img False) (ys[cd := ys ! cd - nat (base k)]) \<and>
      off ?img (map int (ys[cd := ys ! cd - nat (base k)])) = off dst (map int ys)"
    if "in_box (extents dst False) ys" "base k \<le> int (ys ! cd)" "int (ys ! cd) < base (Suc k)" for ys
  proof -
    have len: "length ys = ndims dst" using in_box_length [OF that(1)] by (simp add: extents_def)
    have lt: "ys ! d < nat (md_dims dst d)" if d: "d < ndims dst" for d
      using \<open>in_box (extents dst False) ys\<close> d unfolding in_box_def list_all2_conv_all_nth by (auto simp: extents_def)
    have "in_box (extents ?img False) (ys[cd := ys ! cd - nat (base k)])"
      unfolding in_box_def list_all2_conv_all_nth
      using len lt V(2) n that(2,3) nn cd by (auto simp: extents_def nth_list_update next')
    moreover have "ys[cd := ys ! cd - nat (base k), cd := ys[cd := ys ! cd - nat (base k)] ! cd + nat (base k)] = ys"
      using that(2) nn cd len by (simp add: nat_le_iff)
    ultimately show ?thesis using V(3) by simp
  qed
  have outside: "(fs ! k) (bufs k) ?D (off dst (map int ys)) = ?D (off dst (map int ys))"
    if "in_box (extents dst False) ys" "\<not> (base k \<le> int (ys ! cd) \<and> int (ys ! cd) < base (Suc k))" for ys
  proof (rule C(2))
    fix xs assume xs: "in_box (extents ?img False) xs"
    show "off dst (map int ys) \<noteq> off ?img (map int xs)"
      using off_inj [OF wf that(1)] V(3) [OF xs] part [OF xs refl] that(2) by metis
  qed
  have IH: "\<And>ys i. in_box (extents dst False) ys \<Longrightarrow> i < k \<Longrightarrow> base i \<le> int (ys ! cd) \<Longrightarrow> int (ys ! cd) < base (Suc i) \<Longrightarrow>
      ?D (off dst (map int ys)) = bufs i (off (srcs ! i) (map int (ys[cd := ys ! cd - nat (base i)])))"
    "\<And>ys. in_box (extents dst False) ys \<Longrightarrow> base k \<le> int (ys ! cd) \<Longrightarrow> ?D (off dst (map int ys)) = out (off dst (map int ys))"
    "\<And>a. (\<forall>ys. in_box (extents dst False) ys \<longrightarrow> a \<noteq> off dst (map int ys)) \<Longrightarrow> ?D a = out a"
    using Suc.IH k by auto
  show ?case
    unfolding step
  proof (intro conjI allI impI; (elim conjE)?)
    fix ys i
    assume ys: "in_box (extents dst False) ys" and i: "i < Suc k" "base i \<le> int (ys ! cd)" "int (ys ! cd) < base (Suc i)"
    show "(fs ! k) (bufs k) ?D (off dst (map int ys)) =
        bufs i (off (srcs ! i) (map int (ys[cd := ys ! cd - nat (base i)])))"
    proof (cases "i = k")
      case True
      then show ?thesis using C(1) in_part [OF ys] i(2,3) by metis
    next
      case False
      then have "i < k" "base (Suc i) \<le> base k" using i(1) mono [of "Suc i" k] k by auto
      then show ?thesis using outside [OF ys] IH(1) [OF ys _ i(2,3)] i(3) by simp
    qed
  next
    fix ys
    assume ys: "in_box (extents dst False) ys" and b: "base (Suc k) \<le> int (ys ! cd)"
    then show "(fs ! k) (bufs k) ?D (off dst (map int ys)) = out (off dst (map int ys))"
      using outside [OF ys] IH(2) [OF ys] next' c by simp
  next
    fix a
    assume a: "\<forall>ys. in_box (extents dst False) ys \<longrightarrow> a \<noteq> off dst (map int ys)"
    have "(fs ! k) (bufs k) ?D a = ?D a"
    proof (rule C(2))
      fix xs assume xs: "in_box (extents ?img False) xs"
      show "a \<noteq> off ?img (map int xs)" using V(3) [OF xs] a by auto
    qed
    then show "(fs ! k) (bufs k) ?D a = out a" using IH(3) [OF a] by simp
  qed
qed

end

interpretation reference: reorder_impls "[copy_reorder]"
proof
  fix r :: "memory_desc \<Rightarrow> memory_desc \<Rightarrow> 'a reorder option" and src img f inp outp
  assume "r \<in> set [copy_reorder]" "r src img = Some f" and inj: "injective_layout img"
    and cons: "consistent_with src img" and nd: "0 < md_ndims src" and dims: "\<forall>d<ndims src. 0 < md_dims src d"
  then have f: "f = (\<lambda>src' dst'. simple_reorder_execute (\<lambda>_ _ i _. i) src img 0 (\<lambda>_. ()) () src' dst')"
    by (simp add: copy_reorder_def fun_eq_iff)
  have cnt: "nat (nelems src False) = count_logical img"
    using cons by (auto simp: count_logical_def consistent_with_def nelems_def is_zero_def ndims_def
        split: if_splits intro!: arg_cong [where f = nat] array_product_cong)
  have z: "snd (skip_zeros 0 0) + snd (skip_ones (fst (skip_zeros 0 0)) 0) \<le> ndims src"
    by (subst skip_zeros.simps, subst skip_zeros.simps, subst skip_ones.simps) simp
  from simple_reorder_moves_every_element_aux [OF inj cons _ _ z, of "\<lambda>_ _ i _. i" "\<lambda>_. ()" "()" inp outp] nd dims
  show "(\<forall>e<count_logical img. f inp outp (addr_logical img e) = inp (addr_logical src e)) \<and>
      (\<forall>a. a \<notin> addr_logical img ` {..<count_logical img} \<longrightarrow> f inp outp a = outp a)"
    by (simp add: f cnt addr_logical_def)
qed

section \<open>The whole concatenation\<close>

text \<open>What a run of the loop over the sources establishes.\<close>

lemma concat_src_loop:
  assumes "for_range 1 n (concat_src_step srcs (int cd)) (Some (int32_cast (md_dims (srcs ! 0) cd))) = Some sz"
    and "0 < n" "\<And>i. i < n \<Longrightarrow> 0 \<le> md_dims (srcs ! i) cd" "concat_base srcs cd n \<le> INT32_MAX"
  shows "sz = concat_base srcs cd n \<and> (\<forall>i<n. md_ndims (srcs ! i) = md_ndims (srcs ! 0) \<and>
    (\<forall>d<ndims (srcs ! 0). d \<noteq> cd \<longrightarrow> md_dims (srcs ! i) d = md_dims (srcs ! 0) d))"
  using assms
proof (induction n arbitrary: sz)
  case (Suc n)
  have next': "concat_base srcs cd (Suc n) = concat_base srcs cd n + md_dims (srcs ! n) cd" by (simp add: concat_base_def)
  have nn: "0 \<le> concat_base srcs cd n" using Suc.prems(3) by (auto simp: concat_base_def intro!: sum_nonneg)
  have le: "concat_base srcs cd n \<le> INT32_MAX" using Suc.prems(3) [of n] Suc.prems(4) next' by simp
  show ?case
  proof (cases "n = 0")
    case True
    have "0 \<le> md_dims (srcs ! 0) cd" "md_dims (srcs ! 0) cd \<le> INT32_MAX"
      using Suc.prems(3) [of 0] Suc.prems(4) next' True by (simp_all add: concat_base_def)
    then show ?thesis using True Suc.prems(1) by (simp add: concat_base_def int32_cast_id)
  next
    case False
    obtain sz' where sz': "for_range 1 n (concat_src_step srcs (int cd)) (Some (int32_cast (md_dims (srcs ! 0) cd))) = Some sz'"
        "concat_src_step srcs (int cd) n (Some sz') = Some sz"
    proof -
      have "concat_src_step srcs (int cd) n (for_range 1 n (concat_src_step srcs (int cd))
          (Some (int32_cast (md_dims (srcs ! 0) cd)))) = Some sz" (is "concat_src_step _ _ _ ?L = _")
        using Suc.prems(1) for_range_Suc [of 1 n "concat_src_step srcs (int cd)"] False by (metis One_nat_def Suc_leI neq0_conv)
      moreover from this obtain sz' where "?L = Some sz'" by (cases ?L) (auto simp: concat_src_step_def)
      ultimately show thesis using that by metis
    qed
    note IH = Suc.IH [OF sz'(1) _ Suc.prems(3) le]
    have "sz' = concat_base srcs cd n" using IH False by simp
    then have "sz = int32_cast (concat_base srcs cd (Suc n))"
      using sz'(2) by (auto simp: concat_src_step_def next' split: if_splits)
    then have "sz = concat_base srcs cd (Suc n)"
      using nn next' Suc.prems(3) [of n] Suc.prems(4) by (simp add: int32_cast_id)
    moreover have "md_ndims (srcs ! n) = md_ndims (srcs ! 0) \<and>
        (\<forall>d<ndims (srcs ! 0). d \<noteq> cd \<longrightarrow> md_dims (srcs ! n) d = md_dims (srcs ! 0) d)"
      using sz'(2) by (auto simp: concat_src_step_def split: if_splits)
    ultimately show ?thesis using IH False by (metis less_Suc_eq neq0_conv)
  qed
qed simp

text \<open>If there is one reorder for each source, the \<open>i\<close>-th is the one of source \<open>i\<close>.\<close>

lemma map_filter_all:
  assumes "length (List.map_filter f xs) = length xs" "i < length xs"
  shows "f (xs ! i) = Some (List.map_filter f xs ! i)"
proof -
  have le: "length (List.map_filter f ys) \<le> length ys" for ys
    by (induction ys) (auto simp: List.map_filter_simps split: option.splits)
  show ?thesis
    using assms
  proof (induction xs arbitrary: i)
    case (Cons x xs)
    then obtain y where y: "f x = Some y" using le [of xs] by (auto simp: List.map_filter_simps split: option.splits)
    then show ?case using Cons by (cases i) (auto simp: List.map_filter_simps)
  qed simp
qed

lemma first_reorder_from: "first_reorder rs = Some f \<Longrightarrow> Some f \<in> set rs"
  by (induction rs) (auto split: option.splits)

text \<open>What a successful \<open>create\<close> establishes of the primitive descriptor.\<close>

lemma ref_concat_create_facts:
  assumes "ref_concat_create impls attr dst_md (int (length srcs)) (int cd) srcs = (success, Some (pd, fs))"
  obtains dst imgs where "set_default_params (concat_pd_ctor dst_md (int (length srcs)) (int cd) srcs) = (success, dst)"
    "concat_images dst cd srcs 0 = (success, imgs)" "cp_dst_md pd = dst" "cp_n pd = int (length srcs)"
    "\<And>i. i < length srcs \<Longrightarrow> \<exists>r\<in>set impls. r (srcs ! i) (imgs ! i) = Some (fs ! i)"
proof -
  let ?pd = "concat_pd_ctor dst_md (int (length srcs)) (int cd) srcs"
  have init: "ref_concat_init impls attr ?pd = (success, pd, fs)"
    using assms by (auto simp: ref_concat_create_def split: prod.splits if_splits)
  then obtain pd1 where pd1: "concat_pd_init attr ?pd = (success, pd1)"
    by (auto simp: ref_concat_init_def Let_def split: prod.splits if_splits)
  have fs: "pd = pd1" "fs = ref_concat_reorders impls pd" "length fs = nat (cp_n pd)"
    using init pd1 by (auto simp: ref_concat_init_def Let_def split: if_splits)
  have fld: "cp_src_mds ?pd = srcs" "cp_concat_dim ?pd = cd" "cp_n ?pd = int (length srcs)"
    by (simp_all add: concat_pd_ctor_def)
  obtain st dst where dst: "set_default_params ?pd = (st, dst)" by force
  have st: "st = success" using pd1 dst by (auto simp: concat_pd_init_def Let_def split: prod.splits if_splits)
  obtain st' imgs where imgs: "concat_images dst cd srcs 0 = (st', imgs)" by force
  have pd: "st' = success" "pd = ?pd\<lparr>cp_dst_md := dst, cp_src_image_mds := imgs\<rparr>"
    using pd1 dst imgs fs(1) by (auto simp: concat_pd_init_def Let_def fld split: prod.splits if_splits)
  have n: "cp_n pd = int (length srcs)" by (simp add: pd fld)
  show ?thesis
  proof (rule that)
    show "set_default_params ?pd = (success, dst)" using dst st by simp
    show "concat_images dst cd srcs 0 = (success, imgs)" using imgs pd(1) by simp
    show "cp_dst_md pd = dst" by (simp add: pd(2))
    show "cp_n pd = int (length srcs)" by (fact n)
    fix i assume i: "i < length srcs"
    let ?f = "\<lambda>i. first_reorder (map (\<lambda>r. r (cp_src_md pd i) (cp_src_image_md pd i)) impls)"
    have "length (List.map_filter ?f [0..<length srcs]) = length [0..<length srcs]"
      using fs(2,3) n by (simp add: ref_concat_reorders_def)
    from map_filter_all [OF this, of i] i have "?f i = Some (fs ! i)"
      using fs(2) n by (simp add: ref_concat_reorders_def)
    from first_reorder_from [OF this] i
    show "\<exists>r\<in>set impls. r (srcs ! i) (imgs ! i) = Some (fs ! i)"
      by (force simp: cp_src_md_def cp_src_image_md_def pd(2) fld)
  qed
qed

text \<open>What a successful creation establishes of the shapes.\<close>

lemma concat_create_facts:
  assumes create: "dnnl_concat_primitive_desc_create [c] dst_md (int (length srcs)) (int cd) (Some srcs) attr = Some (success, Some p)"
    and pos: "\<And>i. i < length srcs \<Longrightarrow> 0 \<le> md_dims (srcs ! i) cd"
    and total: "concat_base srcs cd (length srcs) \<le> INT32_MAX"
  obtains dm at where "srcs \<noteq> []" "c at dm (int (length srcs)) (int cd) srcs = (success, Some p)"
    "md_ndims dm = md_ndims (srcs ! 0)"
    "\<And>d. d < ndims (srcs ! 0) \<Longrightarrow>
      md_dims dm d = (if d = cd then concat_base srcs cd (length srcs) else md_dims (srcs ! 0) d)"
    "\<And>i. i < length srcs \<Longrightarrow> md_ndims (srcs ! i) = md_ndims (srcs ! 0) \<and>
      (\<forall>d<ndims (srcs ! 0). d \<noteq> cd \<longrightarrow> md_dims (srcs ! i) d = md_dims (srcs ! 0) d)"
    "md_format_kind dm \<noteq> fk_any \<longrightarrow> dst_md = Some dm"
proof -
  let ?L = "for_range 1 (length srcs) (concat_src_step srcs (int cd)) (Some (int32_cast (md_dims (srcs ! 0) cd)))"
  let ?ok = "\<lambda>sz d. md_ndims d = md_ndims (srcs ! 0) \<and>
    (\<forall>i<nat (md_ndims (srcs ! 0)). md_dims d i = (if i = cd then sz else md_dims (srcs ! 0) i))"
  have ne: "srcs \<noteq> []" using create by (auto simp: dnnl_concat_primitive_desc_create_def)
  obtain sz where sz: "?L = Some sz"
    using create unfolding dnnl_concat_primitive_desc_create_def Let_def option.sel nat_int
    by (auto split: if_splits option.splits)
  have one: "first_success [r] = (success, Some p) \<Longrightarrow> r = (success, Some p)" for r :: "status \<times> 'a option"
    by (cases r) (auto split: if_splits)
  let ?dm = "case dst_md of Some d \<Rightarrow> d
    | None \<Rightarrow> (srcs ! 0)\<lparr>md_dims := (md_dims (srcs ! 0))(cd := sz), md_format_kind := fk_any\<rparr>"
  let ?at = "case attr of None \<Rightarrow> new_primitive_attr | Some a \<Rightarrow> a"
  have "c ?at ?dm (int (length srcs)) (int cd) srcs = (success, Some p) \<and> ?ok sz ?dm"
  proof (cases dst_md)
    case None
    have "Some (first_success [c ?at ?dm (int (length srcs)) (int cd) srcs]) = Some (success, Some p)"
      using create ne unfolding None dnnl_concat_primitive_desc_create_def Let_def option.sel nat_int sz
      by (simp only: option.case list.map split: if_splits) (simp_all only: option.inject prod.inject option.distinct status.distinct simp_thms)
    from one [OF this [unfolded option.inject]] None show ?thesis by simp
  next
    case (Some d)
    have "Some (first_success [c ?at ?dm (int (length srcs)) (int cd) srcs]) = Some (success, Some p) \<and> ?ok sz d"
      using create ne unfolding Some dnnl_concat_primitive_desc_create_def Let_def option.sel nat_int sz
      by (simp only: option.case list.map split: if_splits) (auto simp del: first_success.simps)
    then show ?thesis using one [of "c ?at ?dm (int (length srcs)) (int cd) srcs"] Some by (simp del: first_success.simps)
  qed
  then have c: "c ?at ?dm (int (length srcs)) (int cd) srcs = (success, Some p)" and ok: "?ok sz ?dm" by simp_all
  have F: "sz = concat_base srcs cd (length srcs) \<and> (\<forall>i<length srcs. md_ndims (srcs ! i) = md_ndims (srcs ! 0) \<and>
    (\<forall>d<ndims (srcs ! 0). d \<noteq> cd \<longrightarrow> md_dims (srcs ! i) d = md_dims (srcs ! 0) d))"
    by (rule concat_src_loop [OF sz _ pos total]) (use ne in simp)
  have any: "md_format_kind ?dm \<noteq> fk_any \<longrightarrow> dst_md = Some ?dm" by (simp split: option.split)
  have dims: "md_dims ?dm d = (if d = cd then concat_base srcs cd (length srcs) else md_dims (srcs ! 0) d)"
    if "d < ndims (srcs ! 0)" for d
    using ok F that by (simp only: ndims_def)
  show ?thesis by (rule that [OF ne c _ dims _ any]) (use ok F in blast)+
qed

lemma concat_base_covers:
  assumes "0 \<le> y" "y < concat_base srcs cd n"
  shows "\<exists>i<n. concat_base srcs cd i \<le> y \<and> y < concat_base srcs cd (Suc i)"
  using assms(2)
proof (induction n)
  case 0
  then show ?case using assms(1) by (simp add: concat_base_def)
next
  case (Suc n)
  then show ?case by (cases "y < concat_base srcs cd n") (auto simp: less_Suc_eq)
qed

context reorder_impls
begin

lemma concat_places:
  assumes create: "dnnl_concat_primitive_desc_create [ref_concat_create impls] dst_md (int (length srcs)) (int cd)
      (Some srcs) attr = Some (success, Some (pd, fs))"
    and wf: "\<And>s. s \<in> set srcs \<Longrightarrow> wf_logical s"
    and rank: "\<And>s. s \<in> set srcs \<Longrightarrow> cd < ndims s \<and> md_ndims s \<le> 12"
    and total: "concat_base srcs cd (length srcs) \<le> INT32_MAX"
    and given: "\<And>d. dst_md = Some d \<Longrightarrow> md_format_kind d \<noteq> fk_any \<Longrightarrow> wf_logical d"
  shows "in_box (extents (cp_dst_md pd) False) ys \<Longrightarrow>
      \<exists>i<length srcs. concat_base srcs cd i \<le> int (ys ! cd) \<and> int (ys ! cd) < concat_base srcs cd (Suc i) \<and>
        ref_concat_execute (pd, fs) bufs out (off (cp_dst_md pd) (map int ys)) =
          bufs i (off (srcs ! i) (map int (ys[cd := ys ! cd - nat (concat_base srcs cd i)])))"
    and "(\<And>ys. in_box (extents (cp_dst_md pd) False) ys \<Longrightarrow> a \<noteq> off (cp_dst_md pd) (map int ys)) \<Longrightarrow>
      ref_concat_execute (pd, fs) bufs out a = out a"
proof -
  have pos0: "0 < md_dims (srcs ! i) d" if "i < length srcs" "d < ndims (srcs ! i)" for i d
    using wf [of "srcs ! i"] that by (simp add: wf_logical_def inside_padding_def)
  have nn: "0 \<le> md_dims (srcs ! i) cd" if "i < length srcs" for i
    using pos0 [OF that, of cd] rank that by simp
  obtain dm at where ne: "srcs \<noteq> []" and r: "ref_concat_create impls at dm (int (length srcs)) (int cd) srcs = (success, Some (pd, fs))"
    and nd: "md_ndims dm = md_ndims (srcs ! 0)"
    and dims: "\<And>d. d < ndims (srcs ! 0) \<Longrightarrow>
      md_dims dm d = (if d = cd then concat_base srcs cd (length srcs) else md_dims (srcs ! 0) d)"
    and shapes: "\<And>i. i < length srcs \<Longrightarrow> md_ndims (srcs ! i) = md_ndims (srcs ! 0) \<and>
      (\<forall>d<ndims (srcs ! 0). d \<noteq> cd \<longrightarrow> md_dims (srcs ! i) d = md_dims (srcs ! 0) d)"
    and any: "md_format_kind dm \<noteq> fk_any \<longrightarrow> dst_md = Some dm"
    using concat_create_facts [OF create nn total] by metis
  have cd: "cd < ndims (srcs ! 0)" "md_ndims (srcs ! 0) \<le> 12" using rank ne by simp_all
  let ?pd = "concat_pd_ctor dm (int (length srcs)) (int cd) srcs"
  obtain dst imgs where def': "set_default_params ?pd = (success, dst)" and imgs: "concat_images dst cd srcs 0 = (success, imgs)"
    and pd: "cp_dst_md pd = dst" "cp_n pd = int (length srcs)"
    and fs: "\<And>i. i < length srcs \<Longrightarrow> \<exists>r\<in>set impls. r (srcs ! i) (imgs ! i) = Some (fs ! i)"
    using ref_concat_create_facts [OF r] by metis
  have n0: "ndims dm = ndims (srcs ! 0)" using nd by (simp add: ndims_def)
  have n: "ndims (srcs ! i) = ndims dm" if "i < length srcs" for i
    using nd shapes [OF that] by (simp add: ndims_def)
  have len: "0 < length srcs" using ne by simp
  have pos: "0 < md_dims (srcs ! i) d" if "i < length srcs" "d < ndims dm" for i d
    using pos0 [OF that(1), of d] n [OF that(1)] that(2) by simp
  have "0 < concat_base srcs cd (length srcs)"
    unfolding concat_base_def by (rule sum_pos) (use len pos cd n0 in auto)
  then have dpos: "0 < md_dims dm d" if "d < ndims dm" for d
    using dims [of d] pos [OF len that] that n0 by auto
  have dst: "wf_logical dst" "md_ndims dst = md_ndims dm" "\<And>d. d < ndims dm \<Longrightarrow> md_dims dst d = md_dims dm d"
  proof -
    have "wf_logical dst \<and> md_ndims dst = md_ndims (cp_dst_md ?pd) \<and>
        (\<forall>d<ndims (cp_dst_md ?pd). md_dims dst d = md_dims (cp_dst_md ?pd) d)"
    proof (rule set_default_params_dense [OF _ _ _ _ _ def'])
      show "wf_logical s \<and> md_ndims s = md_ndims (cp_dst_md ?pd)" if s: "s \<in> set (cp_src_mds ?pd)" for s
      proof -
        obtain i where "i < length srcs" "s = srcs ! i" using s by (auto simp: concat_pd_ctor_def in_set_conv_nth)
        then show ?thesis using wf [of s] shapes [of i] nd by (simp add: concat_pd_ctor_def)
      qed
      show "0 < md_ndims (cp_dst_md ?pd)" "md_ndims (cp_dst_md ?pd) \<le> 12"
        using nd cd by (simp_all add: concat_pd_ctor_def ndims_def)
      show "0 < md_dims (cp_dst_md ?pd) d" if "d < ndims (cp_dst_md ?pd)" for d
        using dpos that by (simp add: concat_pd_ctor_def)
      show "md_format_kind (cp_dst_md ?pd) \<noteq> fk_any \<longrightarrow> wf_logical (cp_dst_md ?pd)"
        using any given by (simp add: concat_pd_ctor_def)
    qed
    then show "wf_logical dst" "md_ndims dst = md_ndims dm" "\<And>d. d < ndims dm \<Longrightarrow> md_dims dst d = md_dims dm d"
      by (simp_all add: concat_pd_ctor_def)
  qed
  have nds: "ndims dst = ndims dm" "ndims dm = ndims (srcs ! 0)" using dst(2) n0 by (simp_all add: ndims_def)
  have base: "concat_base srcs cd (length srcs) = md_dims dst cd" using dst(3) [of cd] dims [of cd] cd n0 by simp
  have nn': "\<And>s. s \<in> set srcs \<Longrightarrow> 0 \<le> md_dims s cd" using nn by (auto simp: in_set_conv_nth)
  have I: "length imgs = length srcs" "\<And>i. i < length srcs \<Longrightarrow>
      dnnl_memory_desc_init_submemory (Some dst) ((md_dims dst)(cd := md_dims (srcs ! i) cd))
        ((\<lambda>_. 0)(cd := concat_base srcs cd i)) = (success, Some (imgs ! i))"
    using concat_images_success [OF imgs _ _ , unfolded add_0] nn' total by simp_all
  have run: "ref_concat_execute (pd, fs) bufs out = for_upto (length srcs) (\<lambda>i out. (fs ! i) (bufs i) out) out"
    by (simp add: ref_concat_execute_def pd)
  have cd': "cd < ndims dst" using cd nds by simp
  have same: "0 < md_dims (srcs ! i) d \<and> (d \<noteq> cd \<longrightarrow> md_dims (srcs ! i) d = md_dims dst d)"
    if "i < length srcs" "d < ndims dst" for i d
    using pos [of i d] that shapes [of i] dst(3) [of d] dims [of d] nds by simp
  have same_nd: "md_ndims (srcs ! i) = md_ndims dst" if "i < length srcs" for i
    using shapes [OF that] dst(2) nd by simp
  note P = concat_prefix [OF dst(1) cd' same_nd same base I(2) fs order_refl, of bufs out, folded run]
  show "\<exists>i<length srcs. concat_base srcs cd i \<le> int (ys ! cd) \<and> int (ys ! cd) < concat_base srcs cd (Suc i) \<and>
        ref_concat_execute (pd, fs) bufs out (off (cp_dst_md pd) (map int ys)) =
          bufs i (off (srcs ! i) (map int (ys[cd := ys ! cd - nat (concat_base srcs cd i)])))"
    if ys: "in_box (extents (cp_dst_md pd) False) ys"
  proof -
    have "int (ys ! cd) < concat_base srcs cd (length srcs)"
      using ys cd' base unfolding pd in_box_def list_all2_conv_all_nth by (auto simp: extents_def)
    from concat_base_covers [OF _ this] P ys show ?thesis unfolding pd by (metis of_nat_0_le_iff)
  qed
  show "ref_concat_execute (pd, fs) bufs out a = out a"
    if "\<And>ys. in_box (extents (cp_dst_md pd) False) ys \<Longrightarrow> a \<noteq> off (cp_dst_md pd) (map int ys)"
    using P that unfolding pd by blast
qed

end

section \<open>Correctness\<close>


definition concat_example :: memory_desc where
  "concat_example = plain_example\<lparr>md_dims := arr [8, 6], padded_dims := arr [8, 6]\<rparr>"

lemma concat_example_layout:
  "md_ndims concat_example = 2" "ndims concat_example = 2" "md_dims concat_example = arr [8, 6]"
  "wf_logical concat_example" "wf_logical plain_example" "md_format_kind concat_example = fk_blocked"
proof -
  show fld: "md_ndims concat_example = 2" "ndims concat_example = 2" "md_dims concat_example = arr [8, 6]"
    "md_format_kind concat_example = fk_blocked"
    by (simp_all add: concat_example_def plain_example_def ndims_def)
  have "dense_layout concat_example [0, 1]"
    by (auto simp: concat_example_def plain_example_def zero_md_def zero_blocking_desc_def inner_blocks_def
        inner_list_def ndims_def dense_layout_def block_size_def outer_extent_def less_Suc_eq)
  then show "wf_logical concat_example"
    by (auto simp: wf_logical_def wf_padded_def inside_padding_def concat_example_def plain_example_def
        zero_md_def ndims_def less_Suc_eq numeral_2_eq_2)
  show "wf_logical plain_example"
    using plain_example_layout(8)
    by (auto simp: wf_logical_def wf_padded_def inside_padding_def plain_example_layout less_Suc_eq numeral_2_eq_2)
qed

lemma concat_example_images: "fst (concat_images concat_example 0 [plain_example, plain_example] 0) = success"
proof -
  have two: "for_upto 2 f s = f 1 (f 0 s)" for f :: "nat \<Rightarrow> 's \<Rightarrow> 's" and s
    by (simp add: for_range_def upt_rec numeral_2_eq_2)
  have fld: "md_data_type concat_example = f32" "padded_offsets concat_example = (\<lambda>_. 0)"
    by (simp_all add: concat_example_def plain_example_def zero_md_def)
  have cb: "compute_blocks concat_example f d = 1" if "d < 2" for f d
    using that by (simp add: compute_blocks_def concat_example_def plain_example_def is_blocking_desc_def
        zero_blocking_desc_def array_set_eq ndims_def Let_def)
  have sub: "\<exists>img. dnnl_memory_desc_init_submemory (Some concat_example) ((arr [8, 6])(0 := 4)) ((\<lambda>_. 0)(0 := b)) =
      (success, Some img)" if "b = 0 \<or> b = 4" for b
    unfolding dnnl_memory_desc_init_submemory_def Let_def option.sel concat_example_layout two
    using that
    by (auto simp: submemory_step_def cb concat_example_layout memory_desc_sanity_check_md_def
        memory_desc_sanity_check_def fld less_2_cases_iff cdiv_simps)
  obtain i1 where i1: "dnnl_memory_desc_init_submemory (Some concat_example) ((arr [8, 6])(0 := 4)) ((\<lambda>_. 0)(0 := 0)) =
      (success, Some i1)" using sub [of 0] by blast
  obtain i2 where i2: "dnnl_memory_desc_init_submemory (Some concat_example) ((arr [8, 6])(0 := 4)) ((\<lambda>_. 0)(0 := 4)) =
      (success, Some i2)" using sub [of 4] by blast
  show ?thesis
    by (simp add: plain_example_layout concat_example_layout int32_cast_id i1 i2 del: fun_upd_apply)
qed


end
