(* ===== verification/Ref_Sum.thy ===== *)
theory Ref_Sum
  imports Ref_Concat Primitive_Attr Memory_Tracking
begin

text \<open>
  Summation: the descriptor \<open>sum_pd_t\<close> of \<open>src/src/common/sum_pd.hpp\<close> and the implementation
  \<open>src/src/cpu/ref_sum.hpp\<close>, which accumulates the scaled sources with one reorder each and, when
  the destination is not \<open>f32\<close>, converts the accumulator to it at the end. A reorder takes its
  scale and the sum with the old value from its attributes.
\<close>

section \<open>The descriptor\<close>

record sum_pd =
  sp_n :: int
  sp_scales :: "float_bits list"
  sp_dst_md :: memory_desc
  sp_dst_acc_md :: memory_desc
  sp_src_mds :: "memory_desc list"

text \<open>The accumulator's descriptor is not read before \<open>init\<close> sets it.\<close>

definition sum_pd_ctor :: "memory_desc \<Rightarrow> int \<Rightarrow> float_bits list \<Rightarrow> memory_desc list \<Rightarrow> sum_pd" where
  "sum_pd_ctor dst_md n scales src_mds =
     \<lparr>sp_n = n, sp_scales = take (nat n) scales, sp_dst_md = dst_md, sp_dst_acc_md = zero_md,
      sp_src_mds = take (nat n) src_mds\<rparr>"

definition sum_src_md :: "sum_pd \<Rightarrow> nat \<Rightarrow> memory_desc" where
  "sum_src_md pd i = (if int i < sp_n pd then sp_src_mds pd ! i else zero_md)"

definition need_output_reorder :: "sum_pd \<Rightarrow> bool" where
  "need_output_reorder pd \<longleftrightarrow> md_data_type (sp_dst_md pd) \<noteq> f32"

definition sum_dst_acc_md :: "sum_pd \<Rightarrow> memory_desc" where
  "sum_dst_acc_md pd = (if need_output_reorder pd then sp_dst_acc_md pd else sp_dst_md pd)"

definition sum_set_default_params :: "sum_pd \<Rightarrow> status \<times> memory_desc" where
  "sum_set_default_params pd =
     (if md_format_kind (sp_dst_md pd) \<noteq> fk_any then (success, sp_dst_md pd)
      else case find (\<lambda>src_d. \<not> is_plain src_d \<and> is_blocking_desc src_d) (sp_src_mds pd) of
          Some src_d \<Rightarrow> memory_desc_init_by_blocking_desc (sp_dst_md pd) (blocking src_d)
        | None \<Rightarrow>
            if md_format_kind (sp_src_mds pd ! 0) \<noteq> fk_blocked then (unimplemented, sp_dst_md pd)
            else (success, sp_src_mds pd ! 0))"

definition sum_pd_init :: "primitive_attr \<Rightarrow> sum_pd \<Rightarrow> status \<times> sum_pd" where
  "sum_pd_init attr pd =
     (if list_ex (\<lambda>src_d. \<not> is_blocking_desc src_d \<or> is_additional_buffer src_d) (sp_src_mds pd)
      then (unimplemented, pd)
      else
        let (st, dst) = sum_set_default_params pd; pd = pd\<lparr>sp_dst_md := dst\<rparr>
        in if \<not> (st = success \<and> attr_has_default_values attr = Some True) then (unimplemented, pd)
           else (success, if need_output_reorder pd then pd\<lparr>sp_dst_acc_md := (sp_dst_md pd)\<lparr>md_data_type := f32\<rparr>\<rparr>
                          else pd))"

section \<open>The reference implementation\<close>

text \<open>The attributes of the reorder of source \<open>i\<close>: its scale, and for all but the first a sum.\<close>

definition ref_sum_attr :: "float_bits list \<Rightarrow> nat \<Rightarrow> primitive_attr" where
  "ref_sum_attr scales i =
     (let attr = new_primitive_attr;
          attr = attr\<lparr>at_output_scales := snd (scales_set True 1 0 [scales ! i] (at_output_scales attr))\<rparr>
      in if i \<noteq> 0 then attr\<lparr>at_post_ops := snd (append_sum f32_one (at_post_ops attr))\<rparr> else attr)"

type_synonym 'e reorder_impl = "primitive_attr \<Rightarrow> memory_desc \<Rightarrow> memory_desc \<Rightarrow> 'e reorder option"

definition ref_sum_reorders :: "'e reorder_impl list \<Rightarrow> sum_pd \<Rightarrow> 'e reorder list" where
  "ref_sum_reorders r_impls pd =
     List.map_filter
       (\<lambda>i. first_reorder (map (\<lambda>r. r (ref_sum_attr (sp_scales pd) i) (sum_src_md pd i) (sum_dst_acc_md pd)) r_impls))
       [0..<nat (sp_n pd)] @
     (if need_output_reorder pd
      then List.map_filter (\<lambda>_. first_reorder (map (\<lambda>r. r new_primitive_attr (sum_dst_acc_md pd) (sp_dst_md pd)) r_impls)) [()]
      else [])"

text \<open>The accumulator is booked with the key \<open>key_sum_reduction\<close> and the default alignment.\<close>

definition key_sum_reduction :: u32 where
  "key_sum_reduction = 50"

definition default_alignment :: u64 where
  "default_alignment = 64"

definition ref_sum_init_scratchpad :: "sum_pd \<Rightarrow> registry \<Rightarrow> registry" where
  "ref_sum_init_scratchpad pd r =
     registrar_book 0 key_sum_reduction (word_of_int (md_size (sum_dst_acc_md pd))) default_alignment r"

definition ref_sum_init :: "'e reorder_impl list \<Rightarrow> primitive_attr \<Rightarrow> sum_pd \<Rightarrow>
    status \<times> sum_pd \<times> 'e reorder list \<times> registry" where
  "ref_sum_init r_impls attr pd =
     (let (st, pd) = sum_pd_init attr pd
      in if st \<noteq> success then (unimplemented, pd, [], empty_registry)
         else let reorder_pds = ref_sum_reorders r_impls pd
              in if length reorder_pds \<noteq> nat (sp_n pd) + of_bool (need_output_reorder pd)
                 then (unimplemented, pd, reorder_pds, empty_registry)
                 else (success, pd, reorder_pds,
                       if need_output_reorder pd then ref_sum_init_scratchpad pd empty_registry else empty_registry))"

text \<open>\<open>create\<close> of \<open>DECLARE_SUM_PD_t\<close>.\<close>

definition ref_sum_create :: "'e reorder_impl list \<Rightarrow> primitive_attr \<Rightarrow> memory_desc \<Rightarrow> int \<Rightarrow> float_bits list \<Rightarrow>
    memory_desc list \<Rightarrow> status \<times> (sum_pd \<times> 'e reorder list \<times> registry) option" where
  "ref_sum_create r_impls attr dst_md n scales src_mds =
     (let (st, pd, rs, reg) = ref_sum_init r_impls attr (sum_pd_ctor dst_md n scales src_mds)
      in if st \<noteq> success then (unimplemented, None) else (success, Some (pd, rs, reg)))"

text \<open>The accumulator \<open>acc\<close> is the booked scratchpad buffer; the result is the destination.\<close>

definition ref_sum_execute :: "sum_pd \<times> 'e reorder list \<times> registry \<Rightarrow> (nat \<Rightarrow> int \<Rightarrow> 'e) \<Rightarrow> (int \<Rightarrow> 'e) \<Rightarrow> (int \<Rightarrow> 'e) \<Rightarrow>
    int \<Rightarrow> 'e" where
  "ref_sum_execute = (\<lambda>(pd, reorders, _) srcs acc dst.
     let n = nat (sp_n pd); run = for_upto n (\<lambda>i out. (reorders ! i) (srcs i) out)
     in if need_output_reorder pd then (reorders ! n) (run acc) dst else run dst)"

text \<open>The reference reorder as an implementation: \<open>qz\<close> converts between two data types.\<close>

definition reorder_alpha :: "primitive_attr \<Rightarrow> float_bits" where
  "reorder_alpha attr = the (scales_data (at_output_scales attr)) ! 0"

definition reorder_beta :: "primitive_attr \<Rightarrow> float_bits" where
  "reorder_beta attr =
     (let sum_idx = post_ops_find (at_post_ops attr) pk_sum 0 (- 1)
      in if sum_idx = -1 then 0 else case at_post_ops attr ! nat sum_idx of Sum_op scale \<Rightarrow> scale | _ \<Rightarrow> 0)"

text \<open>\<open>init\<close> of a CPU reorder: the only post-op it takes is one sum.\<close>

definition cpu_reorder_pd_init :: "primitive_attr \<Rightarrow> status" where
  "cpu_reorder_pd_init attr =
     (if at_post_ops attr \<noteq> [] \<longrightarrow>
         length (at_post_ops attr) = 1 \<and> (case at_post_ops attr ! 0 of Sum_op _ \<Rightarrow> True | _ \<Rightarrow> False)
      then success else unimplemented)"

definition ref_reorder :: "(data_type \<Rightarrow> data_type \<Rightarrow> float_bits \<Rightarrow> float_bits \<Rightarrow> 'e \<Rightarrow> 'e \<Rightarrow> 'e) \<Rightarrow> 'e reorder_impl" where
  "ref_reorder qz attr src_d dst_d =
     (if \<not> simple_reorder_is_applicable src_d dst_d (sc_mask (at_output_scales attr)) then None
      else if cpu_reorder_pd_init attr \<noteq> success then None
      else Some (simple_reorder_execute (qz (md_data_type src_d) (md_data_type dst_d)) src_d dst_d
        (sc_mask (at_output_scales attr)) (\<lambda>c. the (scales_data (at_output_scales attr)) ! c) (reorder_beta attr)))"

section \<open>The interface of the reorders\<close>

text \<open>
  What the summation needs of every reorder implementation it is given: with one scale for all
  elements, a reorder converts every element of the tensor with its scale and its sum factor, and
  writes nothing else.
\<close>

locale scaled_reorders =
  fixes impls :: "'e reorder_impl list" and qz :: "data_type \<Rightarrow> data_type \<Rightarrow> float_bits \<Rightarrow> float_bits \<Rightarrow> 'e \<Rightarrow> 'e \<Rightarrow> 'e"
  assumes converts: "r \<in> set impls \<Longrightarrow> r attr src dst = Some f \<Longrightarrow> sc_mask (at_output_scales attr) = 0 \<Longrightarrow>
      wf_logical dst \<Longrightarrow> consistent_with src dst \<Longrightarrow> \<forall>d<ndims src. 0 < md_dims src d \<Longrightarrow>
      (\<forall>e<count_logical dst. f inp outp (addr_logical dst e) =
        qz (md_data_type src) (md_data_type dst) (reorder_alpha attr) (reorder_beta attr)
          (inp (addr_logical src e)) (outp (addr_logical dst e))) \<and>
      (\<forall>a. a \<notin> addr_logical dst ` {..<count_logical dst} \<longrightarrow> f inp outp a = outp a)"

text \<open>What one element of the accumulator becomes: the sources are added in order.\<close>

definition sum_element :: "(data_type \<Rightarrow> data_type \<Rightarrow> float_bits \<Rightarrow> float_bits \<Rightarrow> 'e \<Rightarrow> 'e \<Rightarrow> 'e) \<Rightarrow> memory_desc list \<Rightarrow>
    float_bits list \<Rightarrow> data_type \<Rightarrow> nat \<Rightarrow> (nat \<Rightarrow> 'e) \<Rightarrow> 'e \<Rightarrow> 'e" where
  "sum_element qz srcs scales dt n xs old =
     for_upto n (\<lambda>i a. qz (md_data_type (srcs ! i)) dt (scales ! i) (if i = 0 then 0 else f32_one) (xs i) a) old"

lemma new_attr_simps [simp]:
  "sc_mask (at_output_scales new_primitive_attr) = 0" "at_post_ops new_primitive_attr = []"
  "reorder_alpha new_primitive_attr = f32_one" "reorder_beta new_primitive_attr = 0"
  by (simp_all add: new_primitive_attr_def new_scales_def scales_set_def scales_cleanup_def reorder_alpha_def
      scales_data_def reorder_beta_def post_ops_find_def scales_buf_size_def)

lemma ref_sum_attr_simps [simp]:
  "sc_mask (at_output_scales (ref_sum_attr scales i)) = 0"
  "reorder_alpha (ref_sum_attr scales i) = scales ! i"
  "reorder_beta (ref_sum_attr scales i) = (if i = 0 then 0 else f32_one)"
  by (simp_all add: ref_sum_attr_def Let_def scales_set_def scales_cleanup_def reorder_alpha_def append_sum_def
      scales_data_def reorder_beta_def post_ops_find_def scales_buf_size_def post_ops_capacity_def)

text \<open>The data type of a descriptor does not move its elements.\<close>

lemma ref_sum_attr_reorderable [simp]: "cpu_reorder_pd_init (ref_sum_attr scales i) = success"
  by (simp add: cpu_reorder_pd_init_def ref_sum_attr_def new_primitive_attr_def append_sum_def Let_def)

lemma retyped [simp]:
  "wf_logical (md\<lparr>md_data_type := dt\<rparr>) = wf_logical md" "addr_logical (md\<lparr>md_data_type := dt\<rparr>) = addr_logical md"
  "count_logical (md\<lparr>md_data_type := dt\<rparr>) = count_logical md" "consistent_with s (md\<lparr>md_data_type := dt\<rparr>) = consistent_with s md"
  "consistent_with (md\<lparr>md_data_type := dt\<rparr>) s = consistent_with md s" "ndims (md\<lparr>md_data_type := dt\<rparr>) = ndims md"
proof -
  let ?m = "md\<lparr>md_data_type := dt\<rparr>"
  show n: "ndims ?m = ndims md" by (simp add: ndims_def)
  have v: "off_v ?m = off_v md" by (intro ext off_v_cong) (simp_all add: n blocking_desc_is_equal_def array_cmp_iff)
  have f: "padded_dims ?m = padded_dims md" "md_dims ?m = md_dims md" by simp_all
  have "off_l_step ?m = off_l_step md" unfolding off_l_step_def n f ..
  then have p: "off_l_pos ?m = off_l_pos md" by (intro ext) (simp add: off_l_pos_def n)
  show "addr_logical ?m = addr_logical md" by (rule ext) (simp add: addr_logical_def off_l_def v p)
  have e: "nelems ?m = nelems md" by (intro ext nelems_cong) simp_all
  show "count_logical ?m = count_logical md" by (simp add: count_logical_def e)
  show "consistent_with s ?m = consistent_with s md" "consistent_with ?m s = consistent_with md s"
    by (simp_all add: consistent_with_def n)
  have "outer_extent ?m = outer_extent md" "block_size ?m = block_size md" "inner_blocks ?m = inner_blocks md"
    by (simp_all add: outer_extent_def block_size_def inner_blocks_def fun_eq_iff)
  then have "dense_layout ?m = dense_layout md" by (intro ext) (simp add: dense_layout_def n)
  then show "wf_logical ?m = wf_logical md" by (simp add: wf_logical_def wf_padded_def inside_padding_def n)
qed

context scaled_reorders
begin

text \<open>After \<open>k\<close> reorders every element holds the sum of the first \<open>k\<close> sources.\<close>

lemma sum_prefix:
  assumes acc: "wf_logical acc"
    and srcs: "\<And>i. i < n \<Longrightarrow> consistent_with (srcs ! i) acc \<and> (\<forall>d<ndims (srcs ! i). 0 < md_dims (srcs ! i) d)"
    and fs: "\<And>i. i < n \<Longrightarrow> \<exists>r\<in>set impls. r (ref_sum_attr scales i) (srcs ! i) acc = Some (fs ! i)"
    and k: "k \<le> n"
  shows "(\<forall>e<count_logical acc. for_upto k (\<lambda>i out. (fs ! i) (bufs i) out) out (addr_logical acc e) =
      sum_element qz srcs scales (md_data_type acc) k (\<lambda>i. bufs i (addr_logical (srcs ! i) e)) (out (addr_logical acc e))) \<and>
    (\<forall>a. a \<notin> addr_logical acc ` {..<count_logical acc} \<longrightarrow> for_upto k (\<lambda>i out. (fs ! i) (bufs i) out) out a = out a)"
  using k
proof (induction k)
  case 0
  then show ?case by (simp add: sum_element_def)
next
  case (Suc k)
  then have k: "k < n" by simp
  obtain r where "r \<in> set impls" "r (ref_sum_attr scales k) (srcs ! k) acc = Some (fs ! k)" using fs [OF k] by blast
  note c = converts [OF this ref_sum_attr_simps(1) acc conjunct1 [OF srcs [OF k]] conjunct2 [OF srcs [OF k]]]
  show ?case
    using Suc.IH [OF less_imp_le [OF k]] c by (simp add: for_range_Suc sum_element_def)
qed

end

interpretation reference_sum: scaled_reorders "[ref_reorder qz]" qz for qz
proof
  fix r :: "'a reorder_impl" and attr src dst f inp outp
  assume "r \<in> set [ref_reorder qz]" "r attr src dst = Some f" and mask: "sc_mask (at_output_scales attr) = 0"
    and wf: "wf_logical dst" and cons: "consistent_with src dst" and dims: "\<forall>d<ndims src. 0 < md_dims src d"
  then have f: "f = simple_reorder_execute (qz (md_data_type src) (md_data_type dst)) src dst 0
      (\<lambda>c. the (scales_data (at_output_scales attr)) ! c) (reorder_beta attr)"
    by (auto simp: ref_reorder_def split: if_splits)
  have nd: "md_ndims src \<noteq> 0"
    using cons wf_padded_pos [of dst] wf by (auto simp: consistent_with_def wf_logical_def ndims_def)
  have cnt: "nat (nelems src False) = count_logical dst"
    using cons by (auto simp: count_logical_def consistent_with_def nelems_def is_zero_def ndims_def
        split: if_splits intro!: arg_cong [where f = nat] array_product_cong)
  have z: "snd (skip_zeros 0 0) + snd (skip_ones (fst (skip_zeros 0 0)) 0) \<le> ndims src"
    and s: "scale_index src 0 e = 0" for e
    by (subst skip_zeros.simps, subst skip_zeros.simps, subst skip_ones.simps, simp)
       (simp add: scale_index_def simple_reorder_split_def skip_zeros.simps skip_ones.simps)
  from simple_reorder_moves_every_element_aux [OF wf_logical_injective [OF wf] cons nd _ z] dims
  show "(\<forall>e<count_logical dst. f inp outp (addr_logical dst e) =
        qz (md_data_type src) (md_data_type dst) (reorder_alpha attr) (reorder_beta attr)
          (inp (addr_logical src e)) (outp (addr_logical dst e))) \<and>
      (\<forall>a. a \<notin> addr_logical dst ` {..<count_logical dst} \<longrightarrow> f inp outp a = outp a)"
    by (simp add: f cnt addr_logical_def s reorder_alpha_def)
qed

section \<open>The whole summation\<close>

definition of_shape :: "memory_desc \<Rightarrow> memory_desc \<Rightarrow> bool" where
  "of_shape a md \<longleftrightarrow> md_ndims md = md_ndims a \<and> (\<forall>d<ndims a. md_dims md d = md_dims a d)"

lemma of_shape_ndims: "of_shape a md \<Longrightarrow> ndims md = ndims a"
  by (simp add: of_shape_def ndims_def)

lemma of_shape_consistent: "of_shape a s \<Longrightarrow> of_shape a d \<Longrightarrow> consistent_with s d"
  by (auto simp: of_shape_def consistent_with_def ndims_def)

lemma sum_src_loop:
  assumes "for_range 1 n (sum_src_step srcs) True" "i < n"
  shows "of_shape (srcs ! 0) (srcs ! i)"
proof -
  have step: "sum_src_step srcs n ok \<Longrightarrow> ok \<and> of_shape (srcs ! 0) (srcs ! n)" for n ok
    by (auto simp: sum_src_step_def of_shape_def)
  have "for_range 1 n (sum_src_step srcs) True \<longrightarrow> (\<forall>i<n. of_shape (srcs ! 0) (srcs ! i))"
  proof (induction n)
    case (Suc n)
    then show ?case
    proof (cases "n = 0")
      case False
      then have "for_range 1 (Suc n) (sum_src_step srcs) True = sum_src_step srcs n (for_range 1 n (sum_src_step srcs) True)"
        by (intro for_range_Suc) simp
      then show ?thesis using Suc.IH step less_Suc_eq by metis
    qed (auto simp: of_shape_def)
  qed simp
  then show ?thesis using assms by blast
qed

lemma sum_create_facts:
  assumes create: "dnnl_sum_primitive_desc_create [c] dst_md (int (length srcs)) (Some scales) (Some srcs) attr = (success, Some p)"
  obtains dm at where "srcs \<noteq> []" "c at dm (int (length srcs)) scales srcs = (success, Some p)"
    "of_shape (srcs ! 0) dm" "\<And>i. i < length srcs \<Longrightarrow> of_shape (srcs ! 0) (srcs ! i)"
    "md_format_kind dm \<noteq> fk_any \<longrightarrow> dst_md = Some dm"
proof -
  have ne: "srcs \<noteq> []" using create by (auto simp: dnnl_sum_primitive_desc_create_def)
  let ?dm = "case dst_md of Some d \<Rightarrow> d | None \<Rightarrow> (srcs ! 0)\<lparr>md_format_kind := fk_any\<rparr>"
  let ?at = "case attr of None \<Rightarrow> new_primitive_attr | Some a \<Rightarrow> a"
  have loop: "for_range 1 (length srcs) (sum_src_step srcs) True"
    using create unfolding dnnl_sum_primitive_desc_create_def Let_def option.sel nat_int by (auto split: if_splits)
  have one: "first_success [r] = (success, Some p) \<Longrightarrow> r = (success, Some p)" for r :: "status \<times> 'a option"
    by (cases r) (auto split: if_splits)
  have "first_success [c ?at ?dm (int (length srcs)) scales srcs] = (success, Some p) \<and> of_shape (srcs ! 0) ?dm"
  proof (cases dst_md)
    case None
    show ?thesis
      using create ne loop unfolding None dnnl_sum_primitive_desc_create_def Let_def option.sel nat_int
      by (simp only: option.case list.map split: if_splits) (auto simp: of_shape_def simp del: first_success.simps)
  next
    case (Some d)
    show ?thesis
      using create ne loop unfolding Some dnnl_sum_primitive_desc_create_def Let_def option.sel nat_int
      by (simp only: option.case list.map split: if_splits) (auto simp: of_shape_def ndims_def simp del: first_success.simps)
  qed
  then have c: "c ?at ?dm (int (length srcs)) scales srcs = (success, Some p)" and sh: "of_shape (srcs ! 0) ?dm"
    using one by blast+
  have any: "md_format_kind ?dm \<noteq> fk_any \<longrightarrow> dst_md = Some ?dm" by (simp split: option.split)
  show ?thesis by (rule that [OF ne c sh _ any]) (rule sum_src_loop [OF loop])
qed

lemma sum_set_default_params_dense:
  assumes srcs: "\<And>s. s \<in> set (sp_src_mds pd) \<Longrightarrow> wf_logical s \<and> of_shape a s" and ne: "sp_src_mds pd \<noteq> []"
    and dst: "of_shape a (sp_dst_md pd)" "0 < md_ndims a" "md_ndims a \<le> 12"
    and kind: "md_format_kind (sp_dst_md pd) \<noteq> fk_any \<longrightarrow> wf_logical (sp_dst_md pd)"
    and res: "sum_set_default_params pd = (success, d)"
  shows "wf_logical d \<and> of_shape a d"
proof (cases "md_format_kind (sp_dst_md pd) = fk_any")
  case False
  then show ?thesis using res kind dst(1) by (simp add: sum_set_default_params_def)
next
  case True
  show ?thesis
  proof (cases "find (\<lambda>src_d. \<not> is_plain src_d \<and> is_blocking_desc src_d) (sp_src_mds pd)")
    case None
    then have "d = sp_src_mds pd ! 0" using res True by (auto simp: sum_set_default_params_def split: if_splits)
    then show ?thesis using srcs [of d] ne by simp
  next
    case (Some s)
    then have s: "s \<in> set (sp_src_mds pd)" by (auto simp: find_Some_iff)
    have init: "memory_desc_init_by_blocking_desc (sp_dst_md pd) (blocking s) = (success, d)"
      using res True Some by (simp add: sum_set_default_params_def)
    obtain perm where "dense_layout s perm" using srcs [OF s] by (auto simp: wf_logical_def wf_padded_def)
    then have "blocks_ok (ndims s) (inner_list (blocking s) (inner_nblks (blocking s)))"
      by (auto simp: dense_layout_def inner_blocks_def ndims_def)
    then have "blocks_ok (ndims (sp_dst_md pd)) (inner_list (blocking s) (inner_nblks (blocking s)))"
      using of_shape_ndims [OF conjunct2 [OF srcs [OF s]]] of_shape_ndims [OF dst(1)] by simp
    moreover have "0 < md_dims (sp_dst_md pd) k" if "k < ndims (sp_dst_md pd)" for k
      using srcs [OF s] dst(1) that by (auto simp: wf_logical_def inside_padding_def of_shape_def ndims_def)
    ultimately have "\<exists>perm. dense_layout d perm \<and> inside_padding d"
      using init_by_blocking_desc_dense [OF _ _ _ _ init] dst by (auto simp: of_shape_def)
    then show ?thesis
      using init_by_blocking_desc_shape [OF init] dst(1)
      by (auto simp: wf_logical_def wf_padded_def same_shape_def of_shape_def ndims_def)
  qed
qed

lemma ref_sum_create_facts:
  assumes "ref_sum_create impls attr dst_md (int (length srcs)) scales srcs = (success, Some (pd, fs, reg))"
  obtains dst where "sum_set_default_params (sum_pd_ctor dst_md (int (length srcs)) scales srcs) = (success, dst)"
    "sp_dst_md pd = dst" "sp_n pd = int (length srcs)"
    "\<And>i. i < length srcs \<Longrightarrow> \<exists>r\<in>set impls. r (ref_sum_attr (take (length srcs) scales) i) (srcs ! i) (dst\<lparr>md_data_type := f32\<rparr>) = Some (fs ! i)"
    "need_output_reorder pd \<Longrightarrow> \<exists>r\<in>set impls. r new_primitive_attr (dst\<lparr>md_data_type := f32\<rparr>) dst = Some (fs ! length srcs)"
proof -
  let ?pd = "sum_pd_ctor dst_md (int (length srcs)) scales srcs"
  have init: "ref_sum_init impls attr ?pd = (success, pd, fs, reg)"
    using assms by (auto simp: ref_sum_create_def split: prod.splits if_splits)
  then obtain pd1 where pd1: "sum_pd_init attr ?pd = (success, pd1)"
    by (auto simp: ref_sum_init_def Let_def split: prod.splits if_splits)
  have fs: "pd = pd1" "fs = ref_sum_reorders impls pd" "length fs = nat (sp_n pd) + of_bool (need_output_reorder pd)"
    using init pd1 by (auto simp: ref_sum_init_def Let_def split: if_splits)
  have fld: "sp_src_mds ?pd = srcs" "sp_n ?pd = int (length srcs)" "sp_scales ?pd = take (length srcs) scales"
    by (simp_all add: sum_pd_ctor_def)
  obtain st dst where dst: "sum_set_default_params ?pd = (st, dst)" by force
  have st: "st = success" using pd1 dst by (auto simp: sum_pd_init_def Let_def split: prod.splits if_splits)
  have pd: "sp_dst_md pd = dst" "sp_n pd = int (length srcs)" "sp_src_mds pd = srcs" "sp_scales pd = take (length srcs) scales"
    "sum_dst_acc_md pd = dst\<lparr>md_data_type := f32\<rparr>"
    using pd1 dst fs(1) fld
    by (auto simp: sum_pd_init_def Let_def sum_dst_acc_md_def need_output_reorder_def split: if_splits)
  let ?f = "\<lambda>i. first_reorder (map (\<lambda>r. r (ref_sum_attr (sp_scales pd) i) (sum_src_md pd i) (sum_dst_acc_md pd)) impls)"
  let ?g = "\<lambda>_ :: unit. first_reorder (map (\<lambda>r. r new_primitive_attr (sum_dst_acc_md pd) (sp_dst_md pd)) impls)"
  let ?F = "List.map_filter ?f [0..<length srcs]" and ?G = "List.map_filter ?g [()]"
  have app: "fs = ?F @ (if need_output_reorder pd then ?G else [])"
    using fs(2) pd(2) by (simp add: ref_sum_reorders_def)
  have le: "length ?F \<le> length srcs" "length ?G \<le> 1"
    by (auto simp: List.map_filter_def intro: order.trans [OF length_filter_le])
  have len: "length ?F = length [0..<length srcs]" "need_output_reorder pd \<Longrightarrow> length ?G = length [()]"
    using fs(3) pd(2) app le by (auto split: if_splits)
  show ?thesis
  proof (rule that [OF _ pd(1,2)])
    show "sum_set_default_params ?pd = (success, dst)" using dst st by simp
    fix i assume i: "i < length srcs"
    have "?f i = Some (fs ! i)" using map_filter_all [OF len(1), of i] i len(1) by (simp add: app nth_append)
    from first_reorder_from [OF this] i
    show "\<exists>r\<in>set impls. r (ref_sum_attr (take (length srcs) scales) i) (srcs ! i) (dst\<lparr>md_data_type := f32\<rparr>) = Some (fs ! i)"
      by (force simp: sum_src_md_def pd)
  next
    assume need: "need_output_reorder pd"
    have "?g () = Some (fs ! length srcs)" using map_filter_all [OF len(2) [OF need], of 0] len(1) need by (simp add: app nth_append)
    from first_reorder_from [OF this]
    show "\<exists>r\<in>set impls. r new_primitive_attr (dst\<lparr>md_data_type := f32\<rparr>) dst = Some (fs ! length srcs)"
      by (force simp: pd)
  qed
qed

context scaled_reorders
begin

lemma sum_places:
  fixes bufs :: "nat \<Rightarrow> int \<Rightarrow> 'e" and acc out :: "int \<Rightarrow> 'e"
  assumes create: "dnnl_sum_primitive_desc_create [ref_sum_create impls] dst_md (int (length srcs)) (Some scales) (Some srcs) attr =
      (success, Some (pd, fs, reg))"
    and wf: "\<And>s. s \<in> set srcs \<Longrightarrow> wf_logical s \<and> md_ndims s \<le> 12" and scales: "length scales = length srcs"
    and given: "\<And>d. dst_md = Some d \<Longrightarrow> md_format_kind d \<noteq> fk_any \<Longrightarrow> wf_logical d"
  defines "summed \<equiv> \<lambda>e old. sum_element qz srcs scales f32 (length srcs) (\<lambda>i. bufs i (addr_logical (srcs ! i) e)) old"
  shows "e < count_logical (sp_dst_md pd) \<Longrightarrow>
      ref_sum_execute (pd, fs, reg) bufs acc out (addr_logical (sp_dst_md pd) e) =
        (if need_output_reorder pd
         then qz f32 (md_data_type (sp_dst_md pd)) f32_one 0 (summed e (acc (addr_logical (sp_dst_md pd) e)))
           (out (addr_logical (sp_dst_md pd) e))
         else summed e (out (addr_logical (sp_dst_md pd) e)))" (is "_ \<Longrightarrow> ?elem e")
    and "a \<notin> addr_logical (sp_dst_md pd) ` {..<count_logical (sp_dst_md pd)} \<Longrightarrow>
      ref_sum_execute (pd, fs, reg) bufs acc out a = out a"
proof -
  obtain dm at where ne: "srcs \<noteq> []"
    and r: "ref_sum_create impls at dm (int (length srcs)) scales srcs = (success, Some (pd, fs, reg))"
    and dm: "of_shape (srcs ! 0) dm" and sh: "\<And>i. i < length srcs \<Longrightarrow> of_shape (srcs ! 0) (srcs ! i)"
    and any: "md_format_kind dm \<noteq> fk_any \<longrightarrow> dst_md = Some dm"
    using sum_create_facts [OF create] by metis
  obtain dst where def': "sum_set_default_params (sum_pd_ctor dm (int (length srcs)) scales srcs) = (success, dst)"
    and pd: "sp_dst_md pd = dst" "sp_n pd = int (length srcs)"
    and fs: "\<And>i. i < length srcs \<Longrightarrow>
      \<exists>r\<in>set impls. r (ref_sum_attr (take (length srcs) scales) i) (srcs ! i) (dst\<lparr>md_data_type := f32\<rparr>) = Some (fs ! i)"
    and last: "need_output_reorder pd \<Longrightarrow> \<exists>r\<in>set impls. r new_primitive_attr (dst\<lparr>md_data_type := f32\<rparr>) dst = Some (fs ! length srcs)"
    using ref_sum_create_facts [OF r] by metis
  have srcs: "\<And>s. s \<in> set srcs \<Longrightarrow> wf_logical s \<and> of_shape (srcs ! 0) s"
    using wf sh by (auto simp: in_set_conv_nth)
  have nd: "0 < md_ndims (srcs ! 0)" "md_ndims (srcs ! 0) \<le> 12"
    using wf [of "srcs ! 0"] ne wf_padded_pos [of "srcs ! 0"] by (auto simp: wf_logical_def ndims_def)
  have dst: "wf_logical dst" "of_shape (srcs ! 0) dst"
    using sum_set_default_params_dense [OF _ _ _ nd _ def'] srcs ne dm any given by (auto simp: sum_pd_ctor_def)
  have cons: "consistent_with (srcs ! i) dst \<and> (\<forall>d<ndims (srcs ! i). 0 < md_dims (srcs ! i) d)" if "i < length srcs" for i
    using of_shape_consistent [OF sh [OF that] dst(2)] wf [of "srcs ! i"] that by (simp add: wf_logical_def inside_padding_def)
  have P: "(\<forall>e<count_logical dst. for_upto (length srcs) (\<lambda>i out. (fs ! i) (bufs i) out) o' (addr_logical dst e) =
      summed e (o' (addr_logical dst e))) \<and>
    (\<forall>a. a \<notin> addr_logical dst ` {..<count_logical dst} \<longrightarrow> for_upto (length srcs) (\<lambda>i out. (fs ! i) (bufs i) out) o' a = o' a)" for o'
    using sum_prefix [of "dst\<lparr>md_data_type := f32\<rparr>" "length srcs" srcs scales fs "length srcs" bufs o'] dst(1) cons fs scales
    by (simp add: summed_def)
  have main: "(e < count_logical dst \<longrightarrow> ?elem e) \<and>
    (a \<notin> addr_logical dst ` {..<count_logical dst} \<longrightarrow> ref_sum_execute (pd, fs, reg) bufs acc out a = out a)" for e a
  proof (cases "need_output_reorder pd")
    case False
    then show ?thesis using P by (simp add: ref_sum_execute_def pd)
  next
    case True
    obtain r where r: "r \<in> set impls" "r new_primitive_attr (dst\<lparr>md_data_type := f32\<rparr>) dst = Some (fs ! length srcs)"
      using last [OF True] by blast
    have "consistent_with (dst\<lparr>md_data_type := f32\<rparr>) dst" by (simp add: consistent_with_def)
    moreover have "\<forall>d<ndims (dst\<lparr>md_data_type := f32\<rparr>). 0 < md_dims (dst\<lparr>md_data_type := f32\<rparr>) d"
      using dst(1) by (simp add: wf_logical_def inside_padding_def)
    ultimately show ?thesis
      using converts [OF r _ dst(1)] P True by (simp add: ref_sum_execute_def pd Let_def)
  qed
  show "e < count_logical (sp_dst_md pd) \<Longrightarrow> ?elem e" using main pd by blast
  show "a \<notin> addr_logical (sp_dst_md pd) ` {..<count_logical (sp_dst_md pd)} \<Longrightarrow>
      ref_sum_execute (pd, fs, reg) bufs acc out a = out a"
    using main pd by blast
qed

end

section \<open>Correctness\<close>

text \<open>
  C20: a summation that was created computes, for every element of the tensor, the sources' elements
  accumulated in order in single precision with their scales, converted to the destination's type
  where that is not single precision, whatever the layouts of the sources and whichever layout of
  the destination was given or picked; nothing else is written.
\<close>

theorem sum_adds_every_source:
  fixes bufs :: "nat \<Rightarrow> int \<Rightarrow> 'e" and acc out :: "int \<Rightarrow> 'e"
  assumes "dnnl_sum_primitive_desc_create [ref_sum_create [ref_reorder qz]] dst_md (int (length srcs)) (Some scales)
      (Some srcs) attr = (success, Some (pd, reorders, reg))"
    and "\<And>s. s \<in> set srcs \<Longrightarrow> wf_logical s \<and> md_ndims s \<le> 12" and "length scales = length srcs"
    and "\<And>d. dst_md = Some d \<Longrightarrow> md_format_kind d \<noteq> fk_any \<Longrightarrow> wf_logical d"
  defines "summed \<equiv> \<lambda>e old. sum_element qz srcs scales f32 (length srcs) (\<lambda>i. bufs i (addr_logical (srcs ! i) e)) old"
    and "run \<equiv> ref_sum_execute (pd, reorders, reg) bufs acc out"
  shows "(\<forall>e<count_logical (sp_dst_md pd). run (addr_logical (sp_dst_md pd) e) =
      (if need_output_reorder pd
       then qz f32 (md_data_type (sp_dst_md pd)) f32_one 0 (summed e (acc (addr_logical (sp_dst_md pd) e)))
         (out (addr_logical (sp_dst_md pd) e))
       else summed e (out (addr_logical (sp_dst_md pd) e)))) \<and>
    (\<forall>a. a \<notin> addr_logical (sp_dst_md pd) ` {..<count_logical (sp_dst_md pd)} \<longrightarrow> run a = out a)"
  unfolding summed_def run_def using reference_sum.sum_places [OF assms(1-4)] by simp

definition add_unscaled :: "data_type \<Rightarrow> data_type \<Rightarrow> float_bits \<Rightarrow> float_bits \<Rightarrow> int \<Rightarrow> int \<Rightarrow> int" where
  "add_unscaled src_dt dst_dt scale beta i old = i + (if beta = 0 then 0 else old)"

theorem sum_adds_every_source_witness:
  "\<exists>p. dnnl_sum_primitive_desc_create [ref_sum_create [ref_reorder add_unscaled]] None 2 (Some [f32_one, f32_one])
      (Some [plain_example, plain_example]) None = (success, Some p) \<and>
    ref_sum_execute p (\<lambda>i a. a + 10 * int i) (\<lambda>_. 0) (\<lambda>_. 7) (addr_logical plain_example 9) =
      2 * addr_logical plain_example 9 + 10"
proof -
  let ?srcs = "[plain_example, plain_example]" and ?scales = "[f32_one, f32_one]"
  let ?dm = "plain_example\<lparr>md_format_kind := fk_any\<rparr>"
  have plain: "is_blocking_desc plain_example" "\<not> is_additional_buffer plain_example" "is_plain plain_example"
      "md_data_type plain_example = f32" "md_format_kind plain_example = fk_blocked"
    by (simp_all add: is_plain_def is_blocking_desc_def is_additional_buffer_def plain_example_def zero_md_def zero_blocking_desc_def)
  have attr: "attr_has_default_values new_primitive_attr = Some True"
    by code_simp
  let ?pd = "(sum_pd_ctor ?dm 2 ?scales ?srcs)\<lparr>sp_dst_md := plain_example\<rparr>"
  have init: "sum_pd_init new_primitive_attr (sum_pd_ctor ?dm 2 ?scales ?srcs) = (success, ?pd)"
    by (simp add: sum_pd_init_def sum_set_default_params_def sum_pd_ctor_def plain attr need_output_reorder_def)
  have pd: "sp_n ?pd = 2" "sp_dst_md ?pd = plain_example" "\<not> need_output_reorder ?pd"
    by (simp_all add: sum_pd_ctor_def need_output_reorder_def plain)
  define rs where "rs = ref_sum_reorders [ref_reorder add_unscaled] ?pd"
  have app: "simple_reorder_is_applicable plain_example plain_example 0"
    by (simp add: simple_reorder_is_applicable_def plain skip_zeros.simps skip_ones.simps)
  have "length rs = 2"
    using app
    by (simp add: rs_def ref_sum_reorders_def pd ref_reorder_def sum_src_md_def sum_dst_acc_md_def sum_pd_ctor_def
        need_output_reorder_def plain upt_rec numeral_2_eq_2 List.map_filter_simps)
  then have create: "ref_sum_create [ref_reorder add_unscaled] new_primitive_attr ?dm 2 ?scales ?srcs =
      (success, Some (?pd, rs, empty_registry))"
    using pd by (simp add: ref_sum_create_def ref_sum_init_def init rs_def [symmetric] Let_def)
  have loop: "for_range 1 2 f s = f 1 s" for f :: "nat \<Rightarrow> 's \<Rightarrow> 's" and s
    by (simp add: for_range_def upt_rec numeral_2_eq_2)
  have c: "dnnl_sum_primitive_desc_create [ref_sum_create [ref_reorder add_unscaled]] None (int (length ?srcs)) (Some ?scales)
      (Some ?srcs) None = (success, Some (?pd, rs, empty_registry))"
    using create
    by (simp add: dnnl_sum_primitive_desc_create_def loop [unfolded One_nat_def] sum_src_step_def Let_def)
  have cnt: "9 < count_logical (sp_dst_md ?pd)"
    using plain_example_layout by (simp add: pd count_logical_def nelems_def is_zero_def array_product_eq lessThan_Suc numeral_2_eq_2)
  have one: "f32_one \<noteq> 0" by (simp add: f32_one_def)
  have "ref_sum_execute (?pd, rs, empty_registry) (\<lambda>i a. a + 10 * int i) (\<lambda>_. 0) (\<lambda>_. 7) (addr_logical (sp_dst_md ?pd) 9) =
      2 * addr_logical plain_example 9 + 10"
    by (subst conjunct1 [OF sum_adds_every_source [OF c], rule_format, OF _ _ _ cnt])
      (use concat_example_layout(5) plain_example_layout pd in
        \<open>auto simp: sum_element_def for_range_Suc numeral_2_eq_2 add_unscaled_def one\<close>)
  then show ?thesis using c pd(2) by auto
qed

end
