(* ===== verification/Primitive_Desc.thy ===== *)
theory Primitive_Desc
  imports Convolution_Pd Ref_Sum Primitive_Hashing
begin

text \<open>
  Primitive descriptors: the base class of \<open>src/src/common/primitive_desc.hpp\<close> and the classes of
  \<open>src/src/common/*_pd.hpp\<close>, which say which arguments a primitive takes and what their memory
  descriptors are. An object is its base part and the members of its class; the virtual functions
  of a class are a record that overrides fields of the base class's.
\<close>

section \<open>Argument indices\<close>

abbreviation DNNL_ARG_SRC :: int where "DNNL_ARG_SRC \<equiv> 1"
abbreviation DNNL_ARG_SRC_1 :: int where "DNNL_ARG_SRC_1 \<equiv> 2"
abbreviation DNNL_ARG_SRC_2 :: int where "DNNL_ARG_SRC_2 \<equiv> 3"
abbreviation DNNL_ARG_DST :: int where "DNNL_ARG_DST \<equiv> 17"
abbreviation DNNL_ARG_DST_1 :: int where "DNNL_ARG_DST_1 \<equiv> 18"
abbreviation DNNL_ARG_DST_2 :: int where "DNNL_ARG_DST_2 \<equiv> 19"
abbreviation DNNL_ARG_WEIGHTS :: int where "DNNL_ARG_WEIGHTS \<equiv> 33"
abbreviation DNNL_ARG_WEIGHTS_1 :: int where "DNNL_ARG_WEIGHTS_1 \<equiv> 34"
abbreviation DNNL_ARG_BIAS :: int where "DNNL_ARG_BIAS \<equiv> 41"
abbreviation DNNL_ARG_MEAN :: int where "DNNL_ARG_MEAN \<equiv> 49"
abbreviation DNNL_ARG_VARIANCE :: int where "DNNL_ARG_VARIANCE \<equiv> 50"
abbreviation DNNL_ARG_WORKSPACE :: int where "DNNL_ARG_WORKSPACE \<equiv> 64"
abbreviation DNNL_ARG_SCRATCHPAD :: int where "DNNL_ARG_SCRATCHPAD \<equiv> 80"
abbreviation DNNL_ARG_DIFF_SRC :: int where "DNNL_ARG_DIFF_SRC \<equiv> 129"
abbreviation DNNL_ARG_DIFF_SRC_1 :: int where "DNNL_ARG_DIFF_SRC_1 \<equiv> 130"
abbreviation DNNL_ARG_DIFF_SRC_2 :: int where "DNNL_ARG_DIFF_SRC_2 \<equiv> 131"
abbreviation DNNL_ARG_DIFF_DST :: int where "DNNL_ARG_DIFF_DST \<equiv> 145"
abbreviation DNNL_ARG_DIFF_DST_1 :: int where "DNNL_ARG_DIFF_DST_1 \<equiv> 146"
abbreviation DNNL_ARG_DIFF_DST_2 :: int where "DNNL_ARG_DIFF_DST_2 \<equiv> 147"
abbreviation DNNL_ARG_DIFF_WEIGHTS :: int where "DNNL_ARG_DIFF_WEIGHTS \<equiv> 161"
abbreviation DNNL_ARG_DIFF_WEIGHTS_1 :: int where "DNNL_ARG_DIFF_WEIGHTS_1 \<equiv> 162"
abbreviation DNNL_ARG_DIFF_BIAS :: int where "DNNL_ARG_DIFF_BIAS \<equiv> 169"
abbreviation DNNL_ARG_MULTIPLE_SRC :: int where "DNNL_ARG_MULTIPLE_SRC \<equiv> 1024"

section \<open>The base class\<close>

datatype arg_usage = Unused | Input | Output

datatype query = q_undef | q_engine | q_primitive_kind | q_num_of_inputs_s32 | q_num_of_outputs_s32
  | q_time_estimate_f64 | q_memory_consumption_s64 | q_scratchpad_engine | q_impl_info_str
  | q_some_d | q_op_d | q_convolution_d | q_deconvolution_d | q_shuffle_d | q_eltwise_d | q_softmax_d
  | q_pooling_d | q_lrn_d | q_batch_normalization_d | q_layer_normalization_d | q_inner_product_d
  | q_rnn_d | q_gemm_d
  | q_some_md | q_src_md | q_diff_src_md | q_weights_md | q_diff_weights_md | q_dst_md | q_diff_dst_md
  | q_workspace_md | q_scratchpad_md

text \<open>Engines are known by an identity.\<close>

record base_pd =
  pd_engine :: nat
  pd_attr :: primitive_attr
  pd_kind :: primitive_kind
  pd_scratchpad_md :: memory_desc
  pd_scratchpad_registry :: registry
  pd_name :: string

text \<open>
  The virtual functions. A memory descriptor at an index is \<open>None\<close> where the code reads outside
  of a vector. \<open>v_query_d\<close> is the kind of descriptor that the class's \<open>query\<close> answers itself.
\<close>

record virtual_functions =
  v_op_desc :: "op_desc option"
  v_query_d :: "query option"
  v_scratchpad_engine :: "nat option"
  v_arg_usage :: "int \<Rightarrow> arg_usage"
  v_src_md :: "int \<Rightarrow> memory_desc option"
  v_diff_src_md :: "int \<Rightarrow> memory_desc option"
  v_dst_md :: "int \<Rightarrow> memory_desc option"
  v_diff_dst_md :: "int \<Rightarrow> memory_desc option"
  v_weights_md :: "int \<Rightarrow> memory_desc option"
  v_diff_weights_md :: "int \<Rightarrow> memory_desc option"
  v_workspace_md :: "int \<Rightarrow> memory_desc option"
  v_n_inputs :: int
  v_n_outputs :: int

definition base_scratchpad_md :: "base_pd \<Rightarrow> int \<Rightarrow> memory_desc" where
  "base_scratchpad_md b idx = (if idx = 0 then pd_scratchpad_md b else zero_md)"

definition base_arg_usage :: "base_pd \<Rightarrow> int \<Rightarrow> arg_usage" where
  "base_arg_usage b arg =
     (if arg = DNNL_ARG_SCRATCHPAD \<and> \<not> is_zero_md (Some (base_scratchpad_md b 0)) then Output else Unused)"

definition base_virtual :: "base_pd \<Rightarrow> virtual_functions" where
  "base_virtual b =
     \<lparr>v_op_desc = None, v_query_d = None, v_scratchpad_engine = Some (pd_engine b),
      v_arg_usage = base_arg_usage b, v_src_md = (\<lambda>_. Some zero_md), v_diff_src_md = (\<lambda>_. Some zero_md),
      v_dst_md = (\<lambda>_. Some zero_md), v_diff_dst_md = (\<lambda>_. Some zero_md),
      v_weights_md = (\<lambda>_. Some zero_md), v_diff_weights_md = (\<lambda>_. Some zero_md),
      v_workspace_md = (\<lambda>_. Some zero_md), v_n_inputs = 0, v_n_outputs = 0\<rparr>"

definition scratchpad_size_of :: "base_pd \<Rightarrow> scratchpad_mode \<Rightarrow> u64" where
  "scratchpad_size_of b mode =
     (if mode \<noteq> at_scratchpad_mode (pd_attr b) then 0 else registry_size (pd_scratchpad_registry b))"

text \<open>The size becomes a \<open>dim_t\<close>; if it does not fit, the descriptor is left as it was.\<close>

definition init_scratchpad_md :: "base_pd \<Rightarrow> base_pd" where
  "init_scratchpad_md b =
     (let sz = sint (scratchpad_size_of b spm_user)
      in case dnnl_memory_desc_init_by_tag (if sz \<noteq> 0 then 1 else 0) (Some (arr [sz])) u8 tag_x of
           (_, Some md) \<Rightarrow> b\<lparr>pd_scratchpad_md := md\<rparr>
         | _ \<Rightarrow> b)"

text \<open>\<open>&x_md_\<close> at index 0 and the zero descriptor elsewhere, the body of most accessors.\<close>

definition md_at_0 :: "memory_desc \<Rightarrow> int \<Rightarrow> memory_desc option" where
  "md_at_0 md index = Some (if index = 0 then md else zero_md)"

section \<open>Convolution, deconvolution and inner product\<close>

text \<open>
  A class of one direction has only the members of that direction; the constructors copy them from
  the operation descriptor, and an implementation may then replace those that are \<open>any\<close>.
\<close>

record convolution_pd =
  cv_desc :: convolution_desc
  cv_src_md :: memory_desc
  cv_diff_src_md :: memory_desc
  cv_weights_md :: memory_desc
  cv_diff_weights_md :: memory_desc
  cv_bias_md :: memory_desc
  cv_diff_bias_md :: memory_desc
  cv_dst_md :: memory_desc
  cv_diff_dst_md :: memory_desc

definition convolution_pd_ctor :: "convolution_desc \<Rightarrow> convolution_pd" where
  "convolution_pd_ctor cd =
     \<lparr>cv_desc = cd, cv_src_md = cd_src_desc cd, cv_diff_src_md = cd_diff_src_desc cd,
      cv_weights_md = cd_weights_desc cd, cv_diff_weights_md = cd_diff_weights_desc cd,
      cv_bias_md = cd_bias_desc cd, cv_diff_bias_md = cd_diff_bias_desc cd,
      cv_dst_md = cd_dst_desc cd, cv_diff_dst_md = cd_diff_dst_desc cd\<rparr>"

definition convolution_virtual :: "base_pd \<Rightarrow> convolution_pd \<Rightarrow> virtual_functions" where
  "convolution_virtual b pd = (base_virtual b)
     \<lparr>v_op_desc := Some (Op_convolution (cv_desc pd)), v_query_d := Some q_convolution_d\<rparr>"

definition convolution_fwd_virtual :: "base_pd \<Rightarrow> convolution_pd \<Rightarrow> virtual_functions" where
  "convolution_fwd_virtual b pd = (let with_bias = conv_with_bias (cv_desc pd) in (convolution_virtual b pd)
     \<lparr>v_arg_usage := (\<lambda>arg.
        if arg \<in> {DNNL_ARG_SRC, DNNL_ARG_WEIGHTS} then Input
        else if arg = DNNL_ARG_BIAS \<and> with_bias then Input
        else if arg = DNNL_ARG_DST then Output
        else base_arg_usage b arg),
      v_src_md := md_at_0 (cv_src_md pd), v_dst_md := md_at_0 (cv_dst_md pd),
      v_weights_md := (\<lambda>index. Some (if index = 0 then cv_weights_md pd
        else if index = 1 \<and> with_bias then cv_bias_md pd else zero_md)),
      v_n_inputs := 2 + of_bool with_bias, v_n_outputs := 1\<rparr>)"

definition convolution_bwd_data_virtual :: "base_pd \<Rightarrow> convolution_pd \<Rightarrow> virtual_functions" where
  "convolution_bwd_data_virtual b pd = (let with_bias = conv_with_bias (cv_desc pd) in (convolution_virtual b pd)
     \<lparr>v_arg_usage := (\<lambda>arg.
        if arg \<in> {DNNL_ARG_WEIGHTS, DNNL_ARG_DIFF_DST} then Input
        else if arg = DNNL_ARG_DIFF_SRC then Output
        else base_arg_usage b arg),
      v_diff_src_md := md_at_0 (cv_diff_src_md pd), v_diff_dst_md := md_at_0 (cv_diff_dst_md pd),
      v_weights_md := (\<lambda>index. Some (if index = 0 then cv_weights_md pd
        else if index = 1 \<and> with_bias then cv_bias_md pd else zero_md)),
      v_n_inputs := 2 + of_bool with_bias, v_n_outputs := 1\<rparr>)"

definition convolution_bwd_weights_virtual :: "base_pd \<Rightarrow> convolution_pd \<Rightarrow> virtual_functions" where
  "convolution_bwd_weights_virtual b pd = (let with_bias = conv_with_bias (cv_desc pd) in (convolution_virtual b pd)
     \<lparr>v_arg_usage := (\<lambda>arg.
        if arg \<in> {DNNL_ARG_SRC, DNNL_ARG_DIFF_DST} then Input
        else if arg = DNNL_ARG_DIFF_WEIGHTS then Output
        else if arg = DNNL_ARG_DIFF_BIAS \<and> with_bias then Output
        else base_arg_usage b arg),
      v_src_md := md_at_0 (cv_src_md pd), v_diff_dst_md := md_at_0 (cv_diff_dst_md pd),
      v_diff_weights_md := (\<lambda>index. Some (if index = 0 then cv_diff_weights_md pd
        else if index = 1 \<and> with_bias then cv_diff_bias_md pd else zero_md)),
      v_n_inputs := 2, v_n_outputs := 1 + of_bool with_bias\<rparr>)"

text \<open>Deconvolution: the same members and operation descriptor type.\<close>

definition deconvolution_virtual :: "base_pd \<Rightarrow> convolution_pd \<Rightarrow> virtual_functions" where
  "deconvolution_virtual b pd = (base_virtual b)
     \<lparr>v_op_desc := Some (Op_convolution (cv_desc pd)), v_query_d := Some q_deconvolution_d\<rparr>"

definition deconvolution_fwd_virtual :: "base_pd \<Rightarrow> convolution_pd \<Rightarrow> virtual_functions" where
  "deconvolution_fwd_virtual b pd = (let with_bias = conv_with_bias (cv_desc pd) in (deconvolution_virtual b pd)
     \<lparr>v_arg_usage := (\<lambda>arg.
        if arg \<in> {DNNL_ARG_SRC, DNNL_ARG_WEIGHTS} then Input
        else if arg = DNNL_ARG_BIAS \<and> with_bias then Input
        else if arg = DNNL_ARG_DST then Output
        else base_arg_usage b arg),
      v_src_md := md_at_0 (cv_src_md pd), v_dst_md := md_at_0 (cv_dst_md pd),
      v_weights_md := (\<lambda>index. Some (if index = 0 then cv_weights_md pd
        else if index = 1 \<and> with_bias then cv_bias_md pd else zero_md)),
      v_n_inputs := 2 + of_bool with_bias, v_n_outputs := 1\<rparr>)"

definition deconvolution_bwd_data_virtual :: "base_pd \<Rightarrow> convolution_pd \<Rightarrow> virtual_functions" where
  "deconvolution_bwd_data_virtual b pd = (deconvolution_virtual b pd)
     \<lparr>v_arg_usage := (\<lambda>arg.
        if arg \<in> {DNNL_ARG_WEIGHTS, DNNL_ARG_DIFF_DST} then Input
        else if arg = DNNL_ARG_DIFF_SRC then Output
        else base_arg_usage b arg),
      v_diff_src_md := md_at_0 (cv_diff_src_md pd), v_diff_dst_md := md_at_0 (cv_diff_dst_md pd),
      v_weights_md := md_at_0 (cv_weights_md pd),
      v_n_inputs := 2, v_n_outputs := 1\<rparr>"

definition deconvolution_bwd_weights_virtual :: "base_pd \<Rightarrow> convolution_pd \<Rightarrow> virtual_functions" where
  "deconvolution_bwd_weights_virtual b pd = (let with_bias = conv_with_bias (cv_desc pd) in (deconvolution_virtual b pd)
     \<lparr>v_arg_usage := (\<lambda>arg.
        if arg \<in> {DNNL_ARG_SRC, DNNL_ARG_DIFF_DST} then Input
        else if arg = DNNL_ARG_DIFF_WEIGHTS then Output
        else if arg = DNNL_ARG_DIFF_BIAS \<and> with_bias then Output
        else base_arg_usage b arg),
      v_src_md := md_at_0 (cv_src_md pd), v_diff_dst_md := md_at_0 (cv_diff_dst_md pd),
      v_diff_weights_md := (\<lambda>index. Some (if index = 0 then cv_diff_weights_md pd
        else if index = 1 \<and> with_bias then cv_diff_bias_md pd else zero_md)),
      v_n_inputs := 2, v_n_outputs := 1 + of_bool with_bias\<rparr>)"

record inner_product_pd =
  ip_desc :: inner_product_desc
  ip_src_md :: memory_desc
  ip_diff_src_md :: memory_desc
  ip_weights_md :: memory_desc
  ip_diff_weights_md :: memory_desc
  ip_bias_md :: memory_desc
  ip_diff_bias_md :: memory_desc
  ip_dst_md :: memory_desc
  ip_diff_dst_md :: memory_desc

definition inner_product_pd_ctor :: "inner_product_desc \<Rightarrow> inner_product_pd" where
  "inner_product_pd_ctor ipd =
     \<lparr>ip_desc = ipd, ip_src_md = ipd_src_desc ipd, ip_diff_src_md = ipd_diff_src_desc ipd,
      ip_weights_md = ipd_weights_desc ipd, ip_diff_weights_md = ipd_diff_weights_desc ipd,
      ip_bias_md = ipd_bias_desc ipd, ip_diff_bias_md = ipd_diff_bias_desc ipd,
      ip_dst_md = ipd_dst_desc ipd, ip_diff_dst_md = ipd_diff_dst_desc ipd\<rparr>"

definition ip_prop_invariant_src_d :: "inner_product_desc \<Rightarrow> memory_desc" where
  "ip_prop_invariant_src_d ipd =
     (if ipd_prop_kind ipd = backward_data then ipd_diff_src_desc ipd else ipd_src_desc ipd)"

definition ip_prop_invariant_wei_d :: "inner_product_desc \<Rightarrow> memory_desc" where
  "ip_prop_invariant_wei_d ipd =
     (if ipd_prop_kind ipd = backward_weights then ipd_diff_weights_desc ipd else ipd_weights_desc ipd)"

definition ip_prop_invariant_bia_d :: "inner_product_desc \<Rightarrow> memory_desc" where
  "ip_prop_invariant_bia_d ipd =
     (if ipd_prop_kind ipd = backward_weights then ipd_diff_bias_desc ipd else ipd_bias_desc ipd)"

definition ip_prop_invariant_dst_d :: "inner_product_desc \<Rightarrow> memory_desc" where
  "ip_prop_invariant_dst_d ipd =
     (if ipd_prop_kind ipd \<in> {forward_inference, forward_training} then ipd_dst_desc ipd else ipd_diff_dst_desc ipd)"

definition ip_with_bias :: "inner_product_desc \<Rightarrow> bool" where
  "ip_with_bias ipd \<longleftrightarrow> \<not> is_zero (ip_prop_invariant_bia_d ipd)"

definition ip_IC_total :: "inner_product_desc \<Rightarrow> dim_t" where
  "ip_IC_total ipd = array_product (from_index 1 (md_dims (ip_prop_invariant_src_d ipd)))
     (ndims (ip_prop_invariant_src_d ipd) - 1)"

definition ip_expect_data_types :: "inner_product_desc \<Rightarrow> data_type \<Rightarrow> data_type \<Rightarrow> data_type \<Rightarrow> data_type \<Rightarrow> data_type \<Rightarrow> bool" where
  "ip_expect_data_types ipd src_dt wei_dt bia_dt dst_dt acc_dt \<longleftrightarrow>
     (src_dt = dt_undef \<or> md_data_type (ip_prop_invariant_src_d ipd) = src_dt) \<and>
     (wei_dt = dt_undef \<or> md_data_type (ip_prop_invariant_wei_d ipd) = wei_dt) \<and>
     (dst_dt = dt_undef \<or> md_data_type (ip_prop_invariant_dst_d ipd) = dst_dt) \<and>
     (acc_dt = dt_undef \<or> ipd_accum_data_type ipd = acc_dt) \<and>
     (ip_with_bias ipd \<and> bia_dt \<noteq> dt_undef \<longrightarrow> md_data_type (ip_prop_invariant_bia_d ipd) = bia_dt)"

definition inner_product_virtual :: "base_pd \<Rightarrow> inner_product_pd \<Rightarrow> virtual_functions" where
  "inner_product_virtual b pd = (base_virtual b)
     \<lparr>v_op_desc := Some (Op_inner_product (ip_desc pd)), v_query_d := Some q_inner_product_d\<rparr>"

definition inner_product_fwd_virtual :: "base_pd \<Rightarrow> inner_product_pd \<Rightarrow> virtual_functions" where
  "inner_product_fwd_virtual b pd = (let with_bias = ip_with_bias (ip_desc pd) in (inner_product_virtual b pd)
     \<lparr>v_arg_usage := (\<lambda>arg.
        if arg \<in> {DNNL_ARG_SRC, DNNL_ARG_WEIGHTS} then Input
        else if arg = DNNL_ARG_BIAS \<and> with_bias then Input
        else if arg = DNNL_ARG_DST then Output
        else base_arg_usage b arg),
      v_src_md := md_at_0 (ip_src_md pd), v_dst_md := md_at_0 (ip_dst_md pd),
      v_weights_md := (\<lambda>index. Some (if index = 0 then ip_weights_md pd
        else if index = 1 \<and> with_bias then ip_bias_md pd else zero_md)),
      v_n_inputs := 2 + of_bool with_bias, v_n_outputs := 1\<rparr>)"

definition inner_product_bwd_data_virtual :: "base_pd \<Rightarrow> inner_product_pd \<Rightarrow> virtual_functions" where
  "inner_product_bwd_data_virtual b pd = (inner_product_virtual b pd)
     \<lparr>v_arg_usage := (\<lambda>arg.
        if arg \<in> {DNNL_ARG_WEIGHTS, DNNL_ARG_DIFF_DST} then Input
        else if arg = DNNL_ARG_DIFF_SRC then Output
        else base_arg_usage b arg),
      v_diff_src_md := md_at_0 (ip_diff_src_md pd), v_diff_dst_md := md_at_0 (ip_diff_dst_md pd),
      v_weights_md := md_at_0 (ip_weights_md pd),
      v_n_inputs := 2, v_n_outputs := 1\<rparr>"

definition inner_product_bwd_weights_virtual :: "base_pd \<Rightarrow> inner_product_pd \<Rightarrow> virtual_functions" where
  "inner_product_bwd_weights_virtual b pd = (let with_bias = ip_with_bias (ip_desc pd) in (inner_product_virtual b pd)
     \<lparr>v_arg_usage := (\<lambda>arg.
        if arg \<in> {DNNL_ARG_SRC, DNNL_ARG_DIFF_DST} then Input
        else if arg = DNNL_ARG_DIFF_WEIGHTS then Output
        else if arg = DNNL_ARG_DIFF_BIAS \<and> with_bias then Output
        else base_arg_usage b arg),
      v_src_md := md_at_0 (ip_src_md pd), v_diff_dst_md := md_at_0 (ip_diff_dst_md pd),
      v_diff_weights_md := (\<lambda>index. Some (if index = 0 then ip_diff_weights_md pd
        else if index = 1 \<and> with_bias then ip_diff_bias_md pd else zero_md)),
      v_n_inputs := 2, v_n_outputs := 1 + of_bool with_bias\<rparr>)"

section \<open>Pooling\<close>

record pooling_pd =
  po_desc :: pooling_desc
  po_src_md :: memory_desc
  po_diff_src_md :: memory_desc
  po_dst_md :: memory_desc
  po_diff_dst_md :: memory_desc
  po_ws_md :: memory_desc

definition pooling_pd_ctor :: "pooling_desc \<Rightarrow> pooling_pd" where
  "pooling_pd_ctor pl =
     \<lparr>po_desc = pl, po_src_md = pl_src_desc pl, po_diff_src_md = pl_diff_src_desc pl,
      po_dst_md = pl_dst_desc pl, po_diff_dst_md = pl_diff_dst_desc pl, po_ws_md = zero_md\<rparr>"

definition pool_src_desc :: "pooling_desc \<Rightarrow> memory_desc" where
  "pool_src_desc pl = (if is_fwd_kind (pl_prop_kind pl) then pl_src_desc pl else pl_diff_src_desc pl)"

definition pool_ndims :: "pooling_desc \<Rightarrow> int" where
  "pool_ndims pl = md_ndims (pool_src_desc pl)"

text \<open>The type of the indices into a pooling window in the workspace.\<close>

definition indices_data_type :: "pooling_desc \<Rightarrow> data_type" where
  "indices_data_type pl = (if array_product (pl_kernel pl) (nat (pool_ndims pl - 2)) \<le> 255 then u8 else s32)"

definition pool_init_default_ws :: "data_type \<Rightarrow> pooling_pd \<Rightarrow> pooling_pd" where
  "pool_init_default_ws dt pd =
     (let ws = (if is_fwd_kind (pl_prop_kind (po_desc pd)) then po_dst_md pd else po_diff_dst_md pd)
      in pd\<lparr>po_ws_md := ws\<lparr>md_data_type := if dt \<noteq> dt_undef then dt else indices_data_type (po_desc pd)\<rparr>\<rparr>)"

definition pool_fwd_set_default_params :: "pooling_pd \<Rightarrow> status \<times> pooling_pd" where
  "pool_fwd_set_default_params pd =
     (if md_format_kind (po_dst_md pd) \<noteq> fk_any then (success, pd)
      else if md_format_kind (po_src_md pd) \<noteq> fk_blocked then (unimplemented, pd)
      else let (st, md) = memory_desc_init_by_blocking_desc (po_dst_md pd) (blocking (po_src_md pd))
           in (st, pd\<lparr>po_dst_md := md\<rparr>))"

definition pool_bwd_set_default_params :: "pooling_pd \<Rightarrow> status \<times> pooling_pd" where
  "pool_bwd_set_default_params pd =
     (if md_format_kind (po_diff_src_md pd) \<noteq> fk_any then (success, pd)
      else if md_format_kind (po_diff_dst_md pd) \<noteq> fk_blocked then (unimplemented, pd)
      else let (st, md) = memory_desc_init_by_blocking_desc (po_diff_src_md pd) (blocking (po_diff_dst_md pd))
           in (st, pd\<lparr>po_diff_src_md := md\<rparr>))"

text \<open>A workspace that was not initialised is no argument.\<close>

definition ws_at_0 :: "memory_desc \<Rightarrow> int \<Rightarrow> memory_desc" where
  "ws_at_0 ws index = (if index = 0 \<and> \<not> is_zero_md (Some ws) then ws else zero_md)"

definition pooling_fwd_virtual :: "base_pd \<Rightarrow> pooling_pd \<Rightarrow> virtual_functions" where
  "pooling_fwd_virtual b pd = (let ws = ws_at_0 (po_ws_md pd) in (base_virtual b)
     \<lparr>v_op_desc := Some (Op_pooling (po_desc pd)), v_query_d := Some q_pooling_d,
      v_arg_usage := (\<lambda>arg.
        if arg = DNNL_ARG_SRC then Input
        else if arg = DNNL_ARG_DST then Output
        else if arg = DNNL_ARG_WORKSPACE \<and> \<not> is_zero_md (Some (ws 0)) then Output
        else base_arg_usage b arg),
      v_src_md := md_at_0 (po_src_md pd), v_dst_md := md_at_0 (po_dst_md pd),
      v_workspace_md := (\<lambda>index. Some (ws index)),
      v_n_inputs := 1, v_n_outputs := 1 + of_bool (\<not> is_zero_md (Some (ws 0)))\<rparr>)"

definition pooling_bwd_virtual :: "base_pd \<Rightarrow> pooling_pd \<Rightarrow> virtual_functions" where
  "pooling_bwd_virtual b pd = (let ws = ws_at_0 (po_ws_md pd) in (base_virtual b)
     \<lparr>v_op_desc := Some (Op_pooling (po_desc pd)), v_query_d := Some q_pooling_d,
      v_arg_usage := (\<lambda>arg.
        if arg = DNNL_ARG_DIFF_DST then Input
        else if arg = DNNL_ARG_DIFF_SRC then Output
        else if arg = DNNL_ARG_WORKSPACE \<and> \<not> is_zero_md (Some (ws 0)) then Input
        else base_arg_usage b arg),
      v_diff_src_md := md_at_0 (po_diff_src_md pd), v_diff_dst_md := md_at_0 (po_diff_dst_md pd),
      v_workspace_md := (\<lambda>index. Some (ws index)),
      v_n_inputs := 1 + of_bool (\<not> is_zero_md (Some (ws 0))), v_n_outputs := 1\<rparr>)"

section \<open>Element-wise, softmax, local response normalisation, shuffle\<close>

record eltwise_pd =
  ew_desc :: eltwise_desc
  ew_data_md :: memory_desc
  ew_diff_data_md :: memory_desc

definition eltwise_pd_ctor :: "eltwise_desc \<Rightarrow> eltwise_pd" where
  "eltwise_pd_ctor el = \<lparr>ew_desc = el, ew_data_md = el_data_desc el, ew_diff_data_md = el_diff_data_desc el\<rparr>"

definition eltwise_fwd_virtual :: "base_pd \<Rightarrow> eltwise_pd \<Rightarrow> virtual_functions" where
  "eltwise_fwd_virtual b pd = (base_virtual b)
     \<lparr>v_op_desc := Some (Op_eltwise (ew_desc pd)), v_query_d := Some q_eltwise_d,
      v_arg_usage := (\<lambda>arg.
        if arg = DNNL_ARG_SRC then Input
        else if arg = DNNL_ARG_DST then Output
        else base_arg_usage b arg),
      v_src_md := md_at_0 (ew_data_md pd), v_dst_md := md_at_0 (ew_data_md pd),
      v_n_inputs := 1, v_n_outputs := 1\<rparr>"

definition eltwise_bwd_virtual :: "base_pd \<Rightarrow> eltwise_pd \<Rightarrow> virtual_functions" where
  "eltwise_bwd_virtual b pd = (base_virtual b)
     \<lparr>v_op_desc := Some (Op_eltwise (ew_desc pd)), v_query_d := Some q_eltwise_d,
      v_arg_usage := (\<lambda>arg.
        if arg \<in> {DNNL_ARG_SRC, DNNL_ARG_DIFF_DST} then Input
        else if arg = DNNL_ARG_DIFF_SRC then Output
        else base_arg_usage b arg),
      v_src_md := md_at_0 (ew_data_md pd), v_diff_dst_md := md_at_0 (ew_diff_data_md pd),
      v_diff_src_md := md_at_0 (ew_diff_data_md pd),
      v_n_inputs := 2, v_n_outputs := 1\<rparr>"

record softmax_pd =
  so_desc :: softmax_desc
  so_data_md :: memory_desc
  so_diff_data_md :: memory_desc

definition softmax_pd_ctor :: "softmax_desc \<Rightarrow> softmax_pd" where
  "softmax_pd_ctor sm = \<lparr>so_desc = sm, so_data_md = sm_data_desc sm, so_diff_data_md = sm_diff_desc sm\<rparr>"

definition softmax_outer_size :: "softmax_desc \<Rightarrow> dim_t" where
  "softmax_outer_size sm = array_product (md_dims (sm_data_desc sm)) (nat (sm_softmax_axis sm))"

definition softmax_axis_size :: "softmax_desc \<Rightarrow> dim_t" where
  "softmax_axis_size sm = md_dims (sm_data_desc sm) (nat (sm_softmax_axis sm))"

definition softmax_inner_size :: "softmax_desc \<Rightarrow> dim_t" where
  "softmax_inner_size sm = array_product (from_index (nat (sm_softmax_axis sm + 1)) (md_dims (sm_data_desc sm)))
     (nat (md_ndims (sm_data_desc sm) - 1 - sm_softmax_axis sm))"

text \<open>\<open>workspace_md\<close> is not overridden, so the base class's zero descriptor is tested.\<close>

definition softmax_fwd_virtual :: "base_pd \<Rightarrow> softmax_pd \<Rightarrow> virtual_functions" where
  "softmax_fwd_virtual b pd = (let ws = zero_md in (base_virtual b)
     \<lparr>v_op_desc := Some (Op_softmax (so_desc pd)), v_query_d := Some q_softmax_d,
      v_arg_usage := (\<lambda>arg.
        if arg = DNNL_ARG_SRC then Input
        else if arg = DNNL_ARG_DST then Output
        else if arg = DNNL_ARG_WORKSPACE \<and> \<not> is_zero_md (Some ws) then Output
        else base_arg_usage b arg),
      v_src_md := md_at_0 (so_data_md pd), v_dst_md := md_at_0 (so_data_md pd),
      v_n_inputs := 1, v_n_outputs := 1 + of_bool (\<not> is_zero_md (Some ws))\<rparr>)"

definition softmax_bwd_virtual :: "base_pd \<Rightarrow> softmax_pd \<Rightarrow> virtual_functions" where
  "softmax_bwd_virtual b pd = (let ws = zero_md in (base_virtual b)
     \<lparr>v_op_desc := Some (Op_softmax (so_desc pd)), v_query_d := Some q_softmax_d,
      v_arg_usage := (\<lambda>arg.
        if arg \<in> {DNNL_ARG_DST, DNNL_ARG_DIFF_DST} then Input
        else if arg = DNNL_ARG_DIFF_SRC then Output
        else if arg = DNNL_ARG_WORKSPACE \<and> \<not> is_zero_md (Some ws) then Input
        else base_arg_usage b arg),
      v_dst_md := md_at_0 (so_data_md pd), v_diff_dst_md := md_at_0 (so_diff_data_md pd),
      v_diff_src_md := md_at_0 (so_diff_data_md pd),
      v_n_inputs := 2 + of_bool (\<not> is_zero_md (Some ws)), v_n_outputs := 1\<rparr>)"

record lrn_pd =
  lp_desc :: lrn_desc
  lp_data_md :: memory_desc
  lp_diff_data_md :: memory_desc
  lp_ws_md :: memory_desc

definition lrn_pd_ctor :: "lrn_desc \<Rightarrow> lrn_pd" where
  "lrn_pd_ctor lr = \<lparr>lp_desc = lr, lp_data_md = lr_data_desc lr, lp_diff_data_md = lr_diff_data_desc lr,
     lp_ws_md = zero_md\<rparr>"

definition lrn_fwd_virtual :: "base_pd \<Rightarrow> lrn_pd \<Rightarrow> virtual_functions" where
  "lrn_fwd_virtual b pd = (let ws = ws_at_0 (lp_ws_md pd) in (base_virtual b)
     \<lparr>v_op_desc := Some (Op_lrn (lp_desc pd)), v_query_d := Some q_lrn_d,
      v_arg_usage := (\<lambda>arg.
        if arg = DNNL_ARG_SRC then Input
        else if arg = DNNL_ARG_DST then Output
        else if arg = DNNL_ARG_WORKSPACE \<and> \<not> is_zero_md (Some (ws 0)) then Output
        else base_arg_usage b arg),
      v_src_md := md_at_0 (lp_data_md pd), v_dst_md := md_at_0 (lp_data_md pd),
      v_workspace_md := (\<lambda>index. Some (ws index)),
      v_n_inputs := 1, v_n_outputs := 1 + of_bool (\<not> is_zero_md (Some (ws 0)))\<rparr>)"

definition lrn_bwd_virtual :: "base_pd \<Rightarrow> lrn_pd \<Rightarrow> virtual_functions" where
  "lrn_bwd_virtual b pd = (let ws = ws_at_0 (lp_ws_md pd) in (base_virtual b)
     \<lparr>v_op_desc := Some (Op_lrn (lp_desc pd)), v_query_d := Some q_lrn_d,
      v_arg_usage := (\<lambda>arg.
        if arg \<in> {DNNL_ARG_SRC, DNNL_ARG_DIFF_DST} then Input
        else if arg = DNNL_ARG_DIFF_SRC then Output
        else if arg = DNNL_ARG_WORKSPACE \<and> \<not> is_zero_md (Some (ws 0)) then Input
        else base_arg_usage b arg),
      v_src_md := md_at_0 (lp_data_md pd), v_diff_dst_md := md_at_0 (lp_diff_data_md pd),
      v_diff_src_md := md_at_0 (lp_diff_data_md pd),
      v_workspace_md := (\<lambda>index. Some (ws index)),
      v_n_inputs := 2 + of_bool (\<not> is_zero_md (Some (ws 0))), v_n_outputs := 1\<rparr>)"

record shuffle_pd =
  sf_desc :: shuffle_desc
  sf_data_md :: memory_desc

definition shuffle_pd_ctor :: "shuffle_desc \<Rightarrow> shuffle_pd" where
  "shuffle_pd_ctor sd = \<lparr>sf_desc = sd, sf_data_md = sh_data_desc sd\<rparr>"

definition shuffle_virtual :: "base_pd \<Rightarrow> shuffle_pd \<Rightarrow> virtual_functions" where
  "shuffle_virtual b pd = (let is_fwd = is_fwd_kind (sh_prop_kind (sf_desc pd)) in (base_virtual b)
     \<lparr>v_op_desc := Some (Op_shuffle (sf_desc pd)), v_query_d := Some q_shuffle_d,
      v_arg_usage := (\<lambda>arg.
        if is_fwd \<and> arg = DNNL_ARG_SRC then Input
        else if is_fwd \<and> arg = DNNL_ARG_DST then Output
        else if \<not> is_fwd \<and> arg = DNNL_ARG_DIFF_DST then Input
        else if \<not> is_fwd \<and> arg = DNNL_ARG_DIFF_SRC then Output
        else base_arg_usage b arg),
      v_src_md := (\<lambda>index. Some (if index = 0 \<and> is_fwd then sf_data_md pd else zero_md)),
      v_dst_md := (\<lambda>index. Some (if index = 0 \<and> is_fwd then sf_data_md pd else zero_md)),
      v_diff_src_md := (\<lambda>index. Some (if index = 0 \<and> \<not> is_fwd then sf_data_md pd else zero_md)),
      v_diff_dst_md := (\<lambda>index. Some (if index = 0 \<and> \<not> is_fwd then sf_data_md pd else zero_md)),
      v_n_inputs := 1, v_n_outputs := 1\<rparr>)"

section \<open>Batch and layer normalisation\<close>

record batch_normalization_pd =
  bp_desc :: batch_normalization_desc
  bp_data_md :: memory_desc
  bp_stat_md :: memory_desc
  bp_scaleshift_md :: memory_desc
  bp_ws_md :: memory_desc
  bp_diff_data_md :: memory_desc
  bp_diff_scaleshift_md :: memory_desc

definition batch_normalization_pd_ctor :: "batch_normalization_desc \<Rightarrow> batch_normalization_pd" where
  "batch_normalization_pd_ctor bd =
     \<lparr>bp_desc = bd, bp_data_md = bn_data_desc bd, bp_stat_md = bn_stat_desc bd,
      bp_scaleshift_md = bn_data_scaleshift_desc bd, bp_ws_md = zero_md,
      bp_diff_data_md = bn_diff_data_desc bd, bp_diff_scaleshift_md = bn_diff_data_scaleshift_desc bd\<rparr>"

definition bn_stats_is_src :: "batch_normalization_desc \<Rightarrow> bool" where
  "bn_stats_is_src bd \<longleftrightarrow> bn_flags bd AND use_global_stats \<noteq> 0"

definition bn_use_scaleshift :: "batch_normalization_desc \<Rightarrow> bool" where
  "bn_use_scaleshift bd \<longleftrightarrow> bn_flags bd AND use_scaleshift \<noteq> 0"

definition bn_fuse_norm_relu :: "batch_normalization_desc \<Rightarrow> bool" where
  "bn_fuse_norm_relu bd \<longleftrightarrow> bn_flags bd AND fuse_norm_relu \<noteq> 0"

definition bn_with_relu_post_op :: "primitive_attr \<Rightarrow> bool" where
  "bn_with_relu_post_op attr \<longleftrightarrow> length (at_post_ops attr) = 1 \<and> is_relu True True (at_post_ops attr ! 0)"

definition bn_is_training :: "batch_normalization_desc \<Rightarrow> bool" where
  "bn_is_training bd \<longleftrightarrow> bn_prop_kind bd = forward_training"

definition bnorm_init_default_ws :: "int \<Rightarrow> batch_normalization_pd \<Rightarrow> batch_normalization_pd" where
  "bnorm_init_default_ws bits_per_element pd =
     (let data_nelems = nelems (bp_data_md pd) True; bits_per_byte = 8;
          sz = size_t (size_t (data_nelems * bits_per_element) + bits_per_byte - 1) div bits_per_byte
      in case dnnl_memory_desc_init_by_tag 1 (Some (arr [sz])) u8 tag_x of
           (_, Some md) \<Rightarrow> pd\<lparr>bp_ws_md := md\<rparr>
         | _ \<Rightarrow> pd)"

definition batch_normalization_fwd_virtual :: "base_pd \<Rightarrow> batch_normalization_pd \<Rightarrow> virtual_functions" where
  "batch_normalization_fwd_virtual b pd =
     (let stats_is_src = bn_stats_is_src (bp_desc pd); is_training = bn_is_training (bp_desc pd);
          use_ss = bn_use_scaleshift (bp_desc pd); fuse_relu = bn_fuse_norm_relu (bp_desc pd)
      in (base_virtual b)
     \<lparr>v_op_desc := Some (Op_batch_normalization (bp_desc pd)), v_query_d := Some q_batch_normalization_d,
      v_arg_usage := (\<lambda>arg.
        if arg = DNNL_ARG_SRC then Input
        else if arg = DNNL_ARG_DST then Output
        else if arg \<in> {DNNL_ARG_MEAN, DNNL_ARG_VARIANCE} then
          (if stats_is_src then Input else if \<not> stats_is_src \<and> is_training then Output else Unused)
        else if arg = DNNL_ARG_WEIGHTS \<and> use_ss then Input
        else if arg = DNNL_ARG_WORKSPACE \<and> is_training \<and> fuse_relu then Output
        else base_arg_usage b arg),
      v_src_md := (\<lambda>index. Some (if index = 0 then bp_data_md pd
        else if stats_is_src \<and> (index = 1 \<or> index = 2) then bp_stat_md pd else zero_md)),
      v_dst_md := (\<lambda>index. Some (if index = 0 then bp_data_md pd
        else if \<not> stats_is_src \<and> is_training \<and> (index = 1 \<or> index = 2) then bp_stat_md pd else zero_md)),
      v_weights_md := md_at_0 (bp_scaleshift_md pd),
      v_workspace_md := (\<lambda>index. Some (if index = 0 \<and> is_training \<and> fuse_relu then bp_ws_md pd else zero_md)),
      v_n_inputs := 1 + 2 * of_bool stats_is_src + of_bool use_ss,
      v_n_outputs := 1 + (of_bool fuse_relu + 2 * of_bool (\<not> stats_is_src)) * of_bool is_training\<rparr>)"

definition batch_normalization_bwd_virtual :: "base_pd \<Rightarrow> batch_normalization_pd \<Rightarrow> virtual_functions" where
  "batch_normalization_bwd_virtual b pd =
     (let use_ss = bn_use_scaleshift (bp_desc pd); fuse_relu = bn_fuse_norm_relu (bp_desc pd)
      in (base_virtual b)
     \<lparr>v_op_desc := Some (Op_batch_normalization (bp_desc pd)), v_query_d := Some q_batch_normalization_d,
      v_arg_usage := (\<lambda>arg.
        if arg \<in> {DNNL_ARG_SRC, DNNL_ARG_MEAN, DNNL_ARG_VARIANCE, DNNL_ARG_DIFF_DST} then Input
        else if arg = DNNL_ARG_WEIGHTS \<and> use_ss then Input
        else if arg = DNNL_ARG_WORKSPACE \<and> fuse_relu then Input
        else if arg = DNNL_ARG_DIFF_SRC then Output
        else if arg = DNNL_ARG_DIFF_WEIGHTS \<and> use_ss then Output
        else base_arg_usage b arg),
      v_src_md := (\<lambda>index. Some (if index = 0 then bp_data_md pd else if index \<le> 2 then bp_stat_md pd else zero_md)),
      v_diff_dst_md := md_at_0 (bp_diff_data_md pd), v_diff_src_md := md_at_0 (bp_diff_data_md pd),
      v_weights_md := md_at_0 (bp_scaleshift_md pd), v_diff_weights_md := md_at_0 (bp_diff_scaleshift_md pd),
      v_workspace_md := (\<lambda>index. Some (if index = 0 \<and> fuse_relu then bp_ws_md pd else zero_md)),
      v_n_inputs := 4 + of_bool use_ss + of_bool fuse_relu,
      v_n_outputs := 1 + of_bool (bn_prop_kind (bp_desc pd) = backward)\<rparr>)"

record layer_normalization_pd =
  lnp_desc :: layer_normalization_desc
  lnp_data_md :: memory_desc
  lnp_stat_md :: memory_desc
  lnp_scaleshift_md :: memory_desc
  lnp_diff_data_md :: memory_desc
  lnp_diff_scaleshift_md :: memory_desc

definition layer_normalization_pd_ctor :: "layer_normalization_desc \<Rightarrow> layer_normalization_pd" where
  "layer_normalization_pd_ctor ld =
     \<lparr>lnp_desc = ld, lnp_data_md = ln_data_desc ld, lnp_stat_md = ln_stat_desc ld,
      lnp_scaleshift_md = ln_data_scaleshift_desc ld,
      lnp_diff_data_md = ln_diff_data_desc ld, lnp_diff_scaleshift_md = ln_diff_data_scaleshift_desc ld\<rparr>"

definition ln_stats_are_src :: "layer_normalization_desc \<Rightarrow> bool" where
  "ln_stats_are_src ld \<longleftrightarrow> ln_flags ld AND use_global_stats \<noteq> 0"

definition ln_use_scaleshift :: "layer_normalization_desc \<Rightarrow> bool" where
  "ln_use_scaleshift ld \<longleftrightarrow> ln_flags ld AND use_scaleshift \<noteq> 0"

definition ln_is_training :: "layer_normalization_desc \<Rightarrow> bool" where
  "ln_is_training ld \<longleftrightarrow> ln_prop_kind ld = forward_training"

definition ln_across_axis :: "layer_normalization_desc \<Rightarrow> dim_t" where
  "ln_across_axis ld = array_product (md_dims (ln_data_desc ld)) (ndims (ln_data_desc ld) - 1)"

definition layer_normalization_fwd_virtual :: "base_pd \<Rightarrow> layer_normalization_pd \<Rightarrow> virtual_functions" where
  "layer_normalization_fwd_virtual b pd =
     (let stats_are_src = ln_stats_are_src (lnp_desc pd); is_training = ln_is_training (lnp_desc pd);
          use_ss = ln_use_scaleshift (lnp_desc pd)
      in (base_virtual b)
     \<lparr>v_op_desc := Some (Op_layer_normalization (lnp_desc pd)), v_query_d := Some q_layer_normalization_d,
      v_arg_usage := (\<lambda>arg.
        if arg = DNNL_ARG_SRC then Input
        else if arg = DNNL_ARG_DST then Output
        else if arg \<in> {DNNL_ARG_MEAN, DNNL_ARG_VARIANCE} then
          (if stats_are_src then Input else if \<not> stats_are_src \<and> is_training then Output else Unused)
        else if arg = DNNL_ARG_WEIGHTS \<and> use_ss then Input
        else base_arg_usage b arg),
      v_src_md := (\<lambda>index. Some (if index = 0 then lnp_data_md pd
        else if stats_are_src \<and> (index = 1 \<or> index = 2) then lnp_stat_md pd else zero_md)),
      v_dst_md := (\<lambda>index. Some (if index = 0 then lnp_data_md pd
        else if \<not> stats_are_src \<and> is_training \<and> (index = 1 \<or> index = 2) then lnp_stat_md pd else zero_md)),
      v_weights_md := md_at_0 (lnp_scaleshift_md pd),
      v_n_inputs := 1 + 2 * of_bool stats_are_src + of_bool use_ss,
      v_n_outputs := 1 + 2 * of_bool (\<not> stats_are_src) * of_bool is_training\<rparr>)"

definition layer_normalization_bwd_virtual :: "base_pd \<Rightarrow> layer_normalization_pd \<Rightarrow> virtual_functions" where
  "layer_normalization_bwd_virtual b pd = (let use_ss = ln_use_scaleshift (lnp_desc pd) in (base_virtual b)
     \<lparr>v_op_desc := Some (Op_layer_normalization (lnp_desc pd)), v_query_d := Some q_layer_normalization_d,
      v_arg_usage := (\<lambda>arg.
        if arg \<in> {DNNL_ARG_SRC, DNNL_ARG_MEAN, DNNL_ARG_VARIANCE, DNNL_ARG_DIFF_DST} then Input
        else if arg = DNNL_ARG_WEIGHTS \<and> use_ss then Input
        else if arg = DNNL_ARG_DIFF_SRC then Output
        else if arg = DNNL_ARG_DIFF_WEIGHTS \<and> use_ss then Output
        else base_arg_usage b arg),
      v_src_md := (\<lambda>index. Some (if index = 0 then lnp_data_md pd else if index \<le> 2 then lnp_stat_md pd else zero_md)),
      v_dst_md := md_at_0 (lnp_data_md pd),
      v_diff_dst_md := md_at_0 (lnp_diff_data_md pd), v_diff_src_md := md_at_0 (lnp_diff_data_md pd),
      v_weights_md := md_at_0 (lnp_scaleshift_md pd), v_diff_weights_md := md_at_0 (lnp_diff_scaleshift_md pd),
      v_n_inputs := 4 + of_bool use_ss,
      v_n_outputs := 1 + of_bool (ln_prop_kind (lnp_desc pd) = backward)\<rparr>)"

section \<open>Recurrent networks\<close>

record rnn_pd =
  rp_desc :: rnn_desc
  rp_src_layer_md :: memory_desc
  rp_src_iter_md :: memory_desc
  rp_src_iter_c_md :: memory_desc
  rp_weights_layer_md :: memory_desc
  rp_weights_iter_md :: memory_desc
  rp_bias_md :: memory_desc
  rp_dst_layer_md :: memory_desc
  rp_dst_iter_md :: memory_desc
  rp_dst_iter_c_md :: memory_desc
  rp_ws_md :: memory_desc
  rp_diff_src_layer_md :: memory_desc
  rp_diff_src_iter_md :: memory_desc
  rp_diff_src_iter_c_md :: memory_desc
  rp_diff_weights_layer_md :: memory_desc
  rp_diff_weights_iter_md :: memory_desc
  rp_diff_bias_md :: memory_desc
  rp_diff_dst_layer_md :: memory_desc
  rp_diff_dst_iter_md :: memory_desc
  rp_diff_dst_iter_c_md :: memory_desc

definition rnn_pd_ctor :: "rnn_desc \<Rightarrow> rnn_pd" where
  "rnn_pd_ctor rd =
     \<lparr>rp_desc = rd, rp_src_layer_md = rn_src_layer_desc rd, rp_src_iter_md = rn_src_iter_desc rd,
      rp_src_iter_c_md = rn_src_iter_c_desc rd, rp_weights_layer_md = rn_weights_layer_desc rd,
      rp_weights_iter_md = rn_weights_iter_desc rd, rp_bias_md = rn_bias_desc rd,
      rp_dst_layer_md = rn_dst_layer_desc rd, rp_dst_iter_md = rn_dst_iter_desc rd,
      rp_dst_iter_c_md = rn_dst_iter_c_desc rd, rp_ws_md = zero_md,
      rp_diff_src_layer_md = rn_diff_src_layer_desc rd, rp_diff_src_iter_md = rn_diff_src_iter_desc rd,
      rp_diff_src_iter_c_md = rn_diff_src_iter_c_desc rd,
      rp_diff_weights_layer_md = rn_diff_weights_layer_desc rd,
      rp_diff_weights_iter_md = rn_diff_weights_iter_desc rd, rp_diff_bias_md = rn_diff_bias_desc rd,
      rp_diff_dst_layer_md = rn_diff_dst_layer_desc rd, rp_diff_dst_iter_md = rn_diff_dst_iter_desc rd,
      rp_diff_dst_iter_c_md = rn_diff_dst_iter_c_desc rd\<rparr>"

definition rnn_is_training :: "rnn_desc \<Rightarrow> bool" where
  "rnn_is_training rd \<longleftrightarrow> rn_prop_kind rd \<in> {forward_training, backward}"

definition rnn_is_lstm :: "rnn_desc \<Rightarrow> bool" where
  "rnn_is_lstm rd \<longleftrightarrow> rn_cell_kind rd = vanilla_lstm"

definition rnn_with_bias :: "rnn_desc \<Rightarrow> bool" where
  "rnn_with_bias rd \<longleftrightarrow> \<not> is_zero (rn_bias_desc rd)"

definition rnn_with_src_iter :: "rnn_desc \<Rightarrow> bool" where
  "rnn_with_src_iter rd \<longleftrightarrow> \<not> is_zero (rn_src_iter_desc rd)"

definition rnn_with_src_iter_c :: "rnn_desc \<Rightarrow> bool" where
  "rnn_with_src_iter_c rd \<longleftrightarrow> rnn_is_lstm rd \<and> \<not> is_zero (rn_src_iter_desc rd)"

definition rnn_with_dst_iter :: "rnn_desc \<Rightarrow> bool" where
  "rnn_with_dst_iter rd \<longleftrightarrow> \<not> is_zero (rn_dst_iter_desc rd)"

definition rnn_with_dst_iter_c :: "rnn_desc \<Rightarrow> bool" where
  "rnn_with_dst_iter_c rd \<longleftrightarrow> rnn_is_lstm rd \<and> \<not> is_zero (rn_dst_iter_desc rd)"

text \<open>The entries at index 1 and 2 depend on what the descriptor has.\<close>

definition md_of_3 :: "memory_desc \<Rightarrow> bool \<Rightarrow> memory_desc \<Rightarrow> bool \<Rightarrow> memory_desc \<Rightarrow> int \<Rightarrow> memory_desc option" where
  "md_of_3 md0 with1 md1 with2 md2 index = Some (if index = 0 then md0
     else if index = 1 \<and> with1 then md1 else if index = 2 \<and> with2 then md2 else zero_md)"

definition rnn_virtual :: "base_pd \<Rightarrow> rnn_pd \<Rightarrow> virtual_functions" where
  "rnn_virtual b pd = (let rd = rp_desc pd in (base_virtual b)
     \<lparr>v_op_desc := Some (Op_rnn rd), v_query_d := Some q_rnn_d,
      v_src_md := md_of_3 (rp_src_layer_md pd) (rnn_with_src_iter rd) (rp_src_iter_md pd)
        (rnn_with_src_iter_c rd) (rp_src_iter_c_md pd),
      v_weights_md := md_of_3 (rp_weights_layer_md pd) True (rp_weights_iter_md pd) (rnn_with_bias rd) (rp_bias_md pd),
      v_dst_md := md_of_3 (rp_dst_layer_md pd) (rnn_with_dst_iter rd) (rp_dst_iter_md pd)
        (rnn_with_dst_iter_c rd) (rp_dst_iter_c_md pd),
      v_workspace_md := md_at_0 (rp_ws_md pd)\<rparr>)"

definition rnn_fwd_virtual :: "base_pd \<Rightarrow> rnn_pd \<Rightarrow> virtual_functions" where
  "rnn_fwd_virtual b pd =
     (let rd = rp_desc pd; with_bias = rnn_with_bias rd; with_src_iter = rnn_with_src_iter rd;
          with_src_iter_c = rnn_with_src_iter_c rd; with_dst_iter = rnn_with_dst_iter rd;
          with_dst_iter_c = rnn_with_dst_iter_c rd; is_training = rnn_is_training rd
      in (rnn_virtual b pd)
     \<lparr>v_arg_usage := (\<lambda>arg.
        if arg = DNNL_ARG_SRC then Input
        else if arg = DNNL_ARG_SRC_1 \<and> with_src_iter then Input
        else if arg = DNNL_ARG_SRC_2 \<and> with_src_iter_c then Input
        else if arg \<in> {DNNL_ARG_WEIGHTS, DNNL_ARG_WEIGHTS_1} then Input
        else if arg = DNNL_ARG_BIAS \<and> with_bias then Input
        else if arg = DNNL_ARG_DST then Output
        else if arg = DNNL_ARG_DST_1 \<and> with_dst_iter then Output
        else if arg = DNNL_ARG_DST_2 \<and> with_dst_iter \<and> rnn_is_lstm rd then Output
        else if arg = DNNL_ARG_WORKSPACE \<and> is_training then Output
        else base_arg_usage b arg),
      v_n_inputs := 3 + of_bool with_bias + of_bool with_src_iter + of_bool with_src_iter_c,
      v_n_outputs := 1 + of_bool with_dst_iter + of_bool with_dst_iter_c + of_bool is_training\<rparr>)"

definition rnn_bwd_virtual :: "base_pd \<Rightarrow> rnn_pd \<Rightarrow> virtual_functions" where
  "rnn_bwd_virtual b pd =
     (let rd = rp_desc pd; with_bias = rnn_with_bias rd; with_src_iter = rnn_with_src_iter rd;
          with_src_iter_c = rnn_with_src_iter_c rd; with_dst_iter = rnn_with_dst_iter rd;
          with_dst_iter_c = rnn_with_dst_iter_c rd
      in (rnn_virtual b pd)
     \<lparr>v_arg_usage := (\<lambda>arg.
        if arg \<in> {DNNL_ARG_SRC, DNNL_ARG_DST, DNNL_ARG_DIFF_DST, DNNL_ARG_WEIGHTS, DNNL_ARG_WEIGHTS_1} then Input
        else if arg \<in> {DNNL_ARG_DIFF_SRC, DNNL_ARG_DIFF_WEIGHTS, DNNL_ARG_DIFF_WEIGHTS_1} then Output
        else if with_bias \<and> arg = DNNL_ARG_BIAS then Input
        else if with_bias \<and> arg = DNNL_ARG_DIFF_BIAS then Output
        else if with_src_iter \<and> arg = DNNL_ARG_SRC_1 then Input
        else if with_src_iter \<and> arg = DNNL_ARG_DIFF_SRC_1 then Output
        else if with_src_iter_c \<and> arg = DNNL_ARG_SRC_2 then Input
        else if with_src_iter_c \<and> arg = DNNL_ARG_DIFF_SRC_2 then Output
        else if with_dst_iter \<and> arg \<in> {DNNL_ARG_DST_1, DNNL_ARG_DIFF_DST_1} then Input
        else if with_dst_iter_c \<and> arg \<in> {DNNL_ARG_DST_2, DNNL_ARG_DIFF_DST_2} then Input
        else if arg = DNNL_ARG_WORKSPACE then Input
        else base_arg_usage b arg),
      v_diff_src_md := md_of_3 (rp_diff_src_layer_md pd) with_src_iter (rp_diff_src_iter_md pd)
        with_src_iter_c (rp_diff_src_iter_c_md pd),
      v_diff_weights_md := md_of_3 (rp_diff_weights_layer_md pd) True (rp_diff_weights_iter_md pd)
        with_bias (rp_diff_bias_md pd),
      v_diff_dst_md := md_of_3 (rp_diff_dst_layer_md pd) with_dst_iter (rp_diff_dst_iter_md pd)
        with_dst_iter_c (rp_diff_dst_iter_c_md pd),
      v_n_inputs := 6 + of_bool with_src_iter + of_bool with_src_iter_c
        + 2 * (of_bool with_dst_iter + of_bool with_dst_iter_c) + of_bool with_bias,
      v_n_outputs := 3 + of_bool with_src_iter + of_bool with_src_iter_c + of_bool with_bias\<rparr>)"

section \<open>Concat, sum, reorder and matrix multiplication\<close>

text \<open>\<open>desc_\<close> of these is filled by the constructor, for internal use.\<close>

definition concat_pd_desc :: "concat_pd \<Rightarrow> concat_desc" where
  "concat_pd_desc pd = \<lparr>cc_primitive_kind = pk_concat, cc_dst_md = cp_dst_md pd, cc_n = cp_n pd,
     cc_concat_dimension = int (cp_concat_dim pd), cc_src_mds = cp_src_mds pd\<rparr>"

definition sum_pd_desc :: "sum_pd \<Rightarrow> sum_desc" where
  "sum_pd_desc pd = \<lparr>su_primitive_kind = pk_sum, su_dst_md = sp_dst_md pd, su_n = sp_n pd,
     su_scales = sp_scales pd, su_src_mds = sp_src_mds pd\<rparr>"

text \<open>\<open>index < n_inputs() ? &src_mds_[index] : &glob_zero_md\<close>.\<close>

definition md_of_many :: "int \<Rightarrow> memory_desc list \<Rightarrow> int \<Rightarrow> memory_desc option" where
  "md_of_many n mds index =
     (if index < n then (if 0 \<le> index \<and> nat index < length mds then Some (mds ! nat index) else None)
      else Some zero_md)"

definition concat_virtual :: "base_pd \<Rightarrow> concat_pd \<Rightarrow> concat_desc \<Rightarrow> virtual_functions" where
  "concat_virtual b pd desc = (base_virtual b)
     \<lparr>v_op_desc := Some (Op_concat desc),
      v_arg_usage := (\<lambda>arg.
        if arg \<ge> DNNL_ARG_MULTIPLE_SRC \<and> arg < DNNL_ARG_MULTIPLE_SRC + cp_n pd then Input
        else if arg = DNNL_ARG_DST then Output
        else base_arg_usage b arg),
      v_src_md := md_of_many (cp_n pd) (cp_src_mds pd), v_dst_md := md_at_0 (cp_dst_md pd),
      v_n_inputs := cp_n pd, v_n_outputs := 1\<rparr>"

definition sum_virtual :: "base_pd \<Rightarrow> sum_pd \<Rightarrow> sum_desc \<Rightarrow> virtual_functions" where
  "sum_virtual b pd desc = (base_virtual b)
     \<lparr>v_op_desc := Some (Op_sum desc),
      v_arg_usage := (\<lambda>arg.
        if arg \<ge> DNNL_ARG_MULTIPLE_SRC \<and> arg < DNNL_ARG_MULTIPLE_SRC + sp_n pd then Input
        else if arg = DNNL_ARG_DST then Output
        else base_arg_usage b arg),
      v_src_md := md_of_many (sp_n pd) (sp_src_mds pd), v_dst_md := md_at_0 (sp_dst_md pd),
      v_n_inputs := sp_n pd, v_n_outputs := 1\<rparr>"

record reorder_pd =
  ro_desc :: reorder_desc
  ro_src_engine :: nat
  ro_dst_engine :: nat
  ro_scratchpad_engine :: "nat option"
  ro_src_md :: memory_desc
  ro_dst_md :: memory_desc

definition reorder_pd_ctor :: "nat \<Rightarrow> engine_kind \<Rightarrow> memory_desc \<Rightarrow> nat \<Rightarrow> engine_kind \<Rightarrow> memory_desc \<Rightarrow> reorder_pd" where
  "reorder_pd_ctor src_engine src_kind src_md dst_engine dst_kind dst_md =
     \<lparr>ro_desc = \<lparr>re_primitive_kind = pk_reorder, re_src_md = src_md, re_dst_md = dst_md,
        re_src_engine_kind = src_kind, re_dst_engine_kind = dst_kind\<rparr>,
      ro_src_engine = src_engine, ro_dst_engine = dst_engine, ro_scratchpad_engine = None,
      ro_src_md = src_md, ro_dst_md = dst_md\<rparr>"

definition reorder_virtual :: "base_pd \<Rightarrow> reorder_pd \<Rightarrow> virtual_functions" where
  "reorder_virtual b pd = (base_virtual b)
     \<lparr>v_op_desc := Some (Op_reorder (ro_desc pd)), v_scratchpad_engine := ro_scratchpad_engine pd,
      v_arg_usage := (\<lambda>arg.
        if arg = DNNL_ARG_SRC then Input
        else if arg = DNNL_ARG_DST then Output
        else base_arg_usage b arg),
      v_src_md := md_at_0 (ro_src_md pd), v_dst_md := md_at_0 (ro_dst_md pd),
      v_n_inputs := 1, v_n_outputs := 1\<rparr>"

record gemm_pd =
  gp_desc :: gemm_desc
  gp_a_md :: memory_desc
  gp_b_md :: memory_desc
  gp_c_md :: memory_desc

text \<open>The sizes of the matrices are computed as \<open>int\<close>.\<close>

fun transpose_val :: "transpose_t \<Rightarrow> nat" where
  "transpose_val notrans = 0"
| "transpose_val trans_t = 1"

definition create_gemm_memory_desc :: "gemm_desc \<Rightarrow> nat \<Rightarrow> data_type \<Rightarrow> status \<times> memory_desc option" where
  "create_gemm_memory_desc ge index dt =
     (let dims = (if index = 0 then (arr [int32_cast (ge_m ge), int32_cast (ge_k ge)])
                    (transpose_val (ge_transa ge) := int32_cast (ge_lda ge))
                  else if index = 1 then (arr [int32_cast (ge_k ge), int32_cast (ge_n ge)])
                    (transpose_val (ge_transb ge) := int32_cast (ge_ldb ge))
                  else if index = 2 then arr [int32_cast (ge_m ge), int32_cast (ge_n ge)]
                  else (\<lambda>_. 0))
      in dnnl_memory_desc_init_by_tag 1 (Some (arr [dims 0 * dims 1])) dt tag_x)"

definition gemm_virtual :: "base_pd \<Rightarrow> gemm_pd \<Rightarrow> virtual_functions" where
  "gemm_virtual b pd = (base_virtual b)
     \<lparr>v_op_desc := Some (Op_gemm (gp_desc pd)),
      v_arg_usage := (\<lambda>arg.
        if arg \<in> {DNNL_ARG_SRC, DNNL_ARG_SRC_1} then Input
        else if arg = DNNL_ARG_DST then Output
        else base_arg_usage b arg),
      v_src_md := (\<lambda>index. Some (if index = 0 then gp_a_md pd else if index = 1 then gp_b_md pd else zero_md)),
      v_dst_md := md_at_0 (gp_c_md pd),
      v_n_inputs := 2, v_n_outputs := 1\<rparr>"

section \<open>All classes\<close>

datatype pd_class =
    Convolution_fwd convolution_pd | Convolution_bwd_data convolution_pd | Convolution_bwd_weights convolution_pd
  | Deconvolution_fwd convolution_pd | Deconvolution_bwd_data convolution_pd | Deconvolution_bwd_weights convolution_pd
  | Inner_product_fwd inner_product_pd | Inner_product_bwd_data inner_product_pd | Inner_product_bwd_weights inner_product_pd
  | Pooling_fwd pooling_pd | Pooling_bwd pooling_pd
  | Eltwise_fwd eltwise_pd | Eltwise_bwd eltwise_pd
  | Softmax_fwd softmax_pd | Softmax_bwd softmax_pd
  | Lrn_fwd lrn_pd | Lrn_bwd lrn_pd
  | Batch_normalization_fwd batch_normalization_pd | Batch_normalization_bwd batch_normalization_pd
  | Layer_normalization_fwd layer_normalization_pd | Layer_normalization_bwd layer_normalization_pd
  | Rnn_fwd rnn_pd | Rnn_bwd rnn_pd
  | Shuffle shuffle_pd | Concat concat_pd concat_desc | Sum_class sum_pd sum_desc | Reorder reorder_pd | Gemm gemm_pd

record primitive_desc =
  pd_base :: base_pd
  pd_members :: pd_class

fun class_virtual :: "base_pd \<Rightarrow> pd_class \<Rightarrow> virtual_functions" where
  "class_virtual b (Convolution_fwd pd) = convolution_fwd_virtual b pd"
| "class_virtual b (Convolution_bwd_data pd) = convolution_bwd_data_virtual b pd"
| "class_virtual b (Convolution_bwd_weights pd) = convolution_bwd_weights_virtual b pd"
| "class_virtual b (Deconvolution_fwd pd) = deconvolution_fwd_virtual b pd"
| "class_virtual b (Deconvolution_bwd_data pd) = deconvolution_bwd_data_virtual b pd"
| "class_virtual b (Deconvolution_bwd_weights pd) = deconvolution_bwd_weights_virtual b pd"
| "class_virtual b (Inner_product_fwd pd) = inner_product_fwd_virtual b pd"
| "class_virtual b (Inner_product_bwd_data pd) = inner_product_bwd_data_virtual b pd"
| "class_virtual b (Inner_product_bwd_weights pd) = inner_product_bwd_weights_virtual b pd"
| "class_virtual b (Pooling_fwd pd) = pooling_fwd_virtual b pd"
| "class_virtual b (Pooling_bwd pd) = pooling_bwd_virtual b pd"
| "class_virtual b (Eltwise_fwd pd) = eltwise_fwd_virtual b pd"
| "class_virtual b (Eltwise_bwd pd) = eltwise_bwd_virtual b pd"
| "class_virtual b (Softmax_fwd pd) = softmax_fwd_virtual b pd"
| "class_virtual b (Softmax_bwd pd) = softmax_bwd_virtual b pd"
| "class_virtual b (Lrn_fwd pd) = lrn_fwd_virtual b pd"
| "class_virtual b (Lrn_bwd pd) = lrn_bwd_virtual b pd"
| "class_virtual b (Batch_normalization_fwd pd) = batch_normalization_fwd_virtual b pd"
| "class_virtual b (Batch_normalization_bwd pd) = batch_normalization_bwd_virtual b pd"
| "class_virtual b (Layer_normalization_fwd pd) = layer_normalization_fwd_virtual b pd"
| "class_virtual b (Layer_normalization_bwd pd) = layer_normalization_bwd_virtual b pd"
| "class_virtual b (Rnn_fwd pd) = rnn_fwd_virtual b pd"
| "class_virtual b (Rnn_bwd pd) = rnn_bwd_virtual b pd"
| "class_virtual b (Shuffle pd) = shuffle_virtual b pd"
| "class_virtual b (Concat pd desc) = concat_virtual b pd desc"
| "class_virtual b (Sum_class pd desc) = sum_virtual b pd desc"
| "class_virtual b (Reorder pd) = reorder_virtual b pd"
| "class_virtual b (Gemm pd) = gemm_virtual b pd"

abbreviation pd_virtual :: "primitive_desc \<Rightarrow> virtual_functions" where
  "pd_virtual pd \<equiv> class_virtual (pd_base pd) (pd_members pd)"

text \<open>
  \<open>primitive_desc_t::create\<close>: the constructor has run on the operation descriptor, \<open>init\<close> is the
  implementation's.
\<close>

definition pd_create :: "primitive_kind \<Rightarrow> primitive_kind \<Rightarrow> (primitive_desc \<Rightarrow> status \<times> primitive_desc) \<Rightarrow>
    primitive_desc \<Rightarrow> status \<times> primitive_desc option" where
  "pd_create base_pkind adesc_kind init pd =
     (if adesc_kind \<noteq> base_pkind then (invalid_arguments, None)
      else let (st, pd) = init pd
           in if st \<noteq> success then (unimplemented, None)
              else (success, Some (pd\<lparr>pd_base := init_scratchpad_md (pd_base pd)\<rparr>)))"

definition compare_ws :: "primitive_desc \<Rightarrow> primitive_desc option \<Rightarrow> bool option" where
  "compare_ws pd fwd_pd =
     (case (v_workspace_md (pd_virtual pd) 0, fwd_pd) of
        (Some ws, Some fwd) \<Rightarrow>
          (case v_workspace_md (pd_virtual fwd) 0 of Some fwd_ws \<Rightarrow> Some (memory_desc_eq fwd_ws ws) | None \<Rightarrow> None)
      | (Some ws, None) \<Rightarrow> Some False
      | (None, _) \<Rightarrow> None)"

section \<open>Queries\<close>

text \<open>What a query writes; \<open>Undefined_query\<close> is a read outside of a vector.\<close>

datatype query_value = V_engine "nat option" | V_kind primitive_kind | V_dim int | V_op op_desc
  | V_md memory_desc | V_int int | V_str string

datatype query_result = Undefined_query | Answer status "query_value option"

definition safe_ret_md :: "memory_desc option \<Rightarrow> query_result" where
  "safe_ret_md md = (case md of None \<Rightarrow> Undefined_query | Some md \<Rightarrow> Answer success (Some (V_md md)))"

definition base_query :: "base_pd \<Rightarrow> virtual_functions \<Rightarrow> query \<Rightarrow> int \<Rightarrow> query_result" where
  "base_query b v what idx = (case what of
       q_engine \<Rightarrow> Answer success (Some (V_engine (Some (pd_engine b))))
     | q_primitive_kind \<Rightarrow> Answer success (Some (V_kind (pd_kind b)))
     | q_scratchpad_engine \<Rightarrow> Answer success (Some (V_engine (v_scratchpad_engine v)))
     | q_memory_consumption_s64 \<Rightarrow> Answer success (Some (V_dim (sint (scratchpad_size_of b spm_library))))
     | q_op_d \<Rightarrow> (case v_op_desc v of
           Some d \<Rightarrow> if idx \<noteq> 0 then Answer invalid_arguments None else Answer success (Some (V_op d))
         | None \<Rightarrow> Answer invalid_arguments None)
     | q_src_md \<Rightarrow> safe_ret_md (v_src_md v idx)
     | q_diff_src_md \<Rightarrow> safe_ret_md (v_diff_src_md v idx)
     | q_dst_md \<Rightarrow> safe_ret_md (v_dst_md v idx)
     | q_diff_dst_md \<Rightarrow> safe_ret_md (v_diff_dst_md v idx)
     | q_weights_md \<Rightarrow> safe_ret_md (v_weights_md v idx)
     | q_diff_weights_md \<Rightarrow> safe_ret_md (v_diff_weights_md v idx)
     | q_workspace_md \<Rightarrow> (if idx \<noteq> 0 then Answer invalid_arguments None else safe_ret_md (v_workspace_md v idx))
     | q_scratchpad_md \<Rightarrow> (if idx \<noteq> 0 then Answer invalid_arguments None
         else Answer success (Some (V_md (base_scratchpad_md b idx))))
     | q_num_of_inputs_s32 \<Rightarrow> Answer success (Some (V_int (v_n_inputs v)))
     | q_num_of_outputs_s32 \<Rightarrow> Answer success (Some (V_int (v_n_outputs v)))
     | q_impl_info_str \<Rightarrow> Answer success (Some (V_str (pd_name b)))
     | _ \<Rightarrow> Answer unimplemented None)"

definition pd_query :: "primitive_desc \<Rightarrow> query \<Rightarrow> int \<Rightarrow> query_result" where
  "pd_query pd what idx =
     (if Some what = v_query_d (pd_virtual pd) then Answer success (map_option V_op (v_op_desc (pd_virtual pd)))
      else base_query (pd_base pd) (pd_virtual pd) what idx)"

definition dnnl_primitive_desc_query :: "primitive_desc option \<Rightarrow> query \<Rightarrow> int \<Rightarrow> query_result" where
  "dnnl_primitive_desc_query pd what index =
     (case pd of None \<Rightarrow> Answer invalid_arguments None | Some pd \<Rightarrow> pd_query pd what index)"

definition is_md_query :: "query \<Rightarrow> bool" where
  "is_md_query what \<longleftrightarrow> what \<in> {q_src_md, q_diff_src_md, q_weights_md, q_diff_weights_md, q_dst_md, q_diff_dst_md,
     q_workspace_md, q_scratchpad_md}"

text \<open>A null result is \<open>None\<close>; the second component is whether the call is defined.\<close>

definition dnnl_primitive_desc_query_md :: "primitive_desc option \<Rightarrow> query \<Rightarrow> int \<Rightarrow> memory_desc option \<times> bool" where
  "dnnl_primitive_desc_query_md pd what index =
     (if pd = None \<or> \<not> is_md_query what then (None, True)
      else case dnnl_primitive_desc_query pd what index of
          Answer success (Some (V_md md)) \<Rightarrow> (Some md, True)
        | Undefined_query \<Rightarrow> (None, False)
        | _ \<Rightarrow> (None, True))"

definition dnnl_primitive_desc_query_s32 :: "primitive_desc option \<Rightarrow> query \<Rightarrow> int \<Rightarrow> int" where
  "dnnl_primitive_desc_query_s32 pd what index =
     (if pd = None \<or> what \<notin> {q_num_of_inputs_s32, q_num_of_outputs_s32} then 0
      else case dnnl_primitive_desc_query pd what index of
          Answer success (Some (V_int n)) \<Rightarrow> n
        | _ \<Rightarrow> 0)"

end
