(* ===== verification/Primitive_Exec.thy ===== *)
theory Primitive_Exec
  imports Primitive_Desc Scratchpad
begin

text \<open>
  Running a primitive: the check of the arguments a client passes
  (\<open>src/src/common/primitive_exec_types.cpp\<close>), the scratchpad a primitive owns and the call of its
  implementation (\<open>src/src/common/primitive.cpp\<close>). The lists \<open>pd_inputs\<close> and \<open>pd_outputs\<close> are the
  tables of arguments of the documentation, against which the classes' \<open>arg_usage\<close>, \<open>n_inputs\<close> and
  \<open>n_outputs\<close> are checked.
\<close>

section \<open>Converting the arguments\<close>

text \<open>A memory is known by an identity; a null pointer is \<open>None\<close>.\<close>

record exec_arg =
  ea_arg :: int
  ea_memory :: "nat option"

record memory_arg =
  ma_mem :: "nat option"
  ma_is_const :: bool

type_synonym exec_args = "int \<Rightarrow> memory_arg option"

text \<open>The loop over the arguments, with the counts of inputs and outputs; \<open>False\<close> for a duplicate.\<close>

fun cvt_loop :: "(int \<Rightarrow> arg_usage) \<Rightarrow> exec_arg list \<Rightarrow> exec_args \<Rightarrow> int \<Rightarrow> int \<Rightarrow> bool \<times> exec_args \<times> int \<times> int" where
  "cvt_loop usage [] args n_inputs n_outputs = (True, args, n_inputs, n_outputs)"
| "cvt_loop usage (a # as) args n_inputs n_outputs = (case usage (ea_arg a) of
       Input \<Rightarrow> if args (ea_arg a) \<noteq> None then (False, args, n_inputs, n_outputs)
         else cvt_loop usage as (args(ea_arg a \<mapsto> \<lparr>ma_mem = ea_memory a, ma_is_const = True\<rparr>)) (n_inputs + 1) n_outputs
     | Output \<Rightarrow> if args (ea_arg a) \<noteq> None then (False, args, n_inputs, n_outputs)
         else cvt_loop usage as (args(ea_arg a \<mapsto> \<lparr>ma_mem = ea_memory a, ma_is_const = False\<rparr>)) n_inputs (n_outputs + 1)
     | Unused \<Rightarrow> cvt_loop usage as args n_inputs n_outputs)"

definition scratchpad_required :: "primitive_desc \<Rightarrow> bool" where
  "scratchpad_required pd \<longleftrightarrow> \<not> is_zero_md (Some (base_scratchpad_md (pd_base pd) 0))"

definition cvt_primtive_args :: "primitive_desc \<Rightarrow> int \<Rightarrow> exec_arg carray option \<Rightarrow> exec_args \<Rightarrow> status \<times> exec_args" where
  "cvt_primtive_args pd nargs c_args args =
     (if \<not> (nargs > 0 \<longrightarrow> c_args \<noteq> None) then (invalid_arguments, args)
      else let (ok, args, n_inputs, n_outputs) =
             cvt_loop (v_arg_usage (pd_virtual pd)) (map (the c_args) [0..<nat nargs]) args 0 0
           in if \<not> ok then (invalid_arguments, args)
              else if n_inputs \<noteq> v_n_inputs (pd_virtual pd) then (invalid_arguments, args)
              else if n_outputs \<noteq> v_n_outputs (pd_virtual pd) + of_bool (scratchpad_required pd)
                then (invalid_arguments, args)
              else (success, args))"

text \<open>\<open>input\<close>, \<open>output\<close> of the context; \<open>memory\<close> requires the argument to be there.\<close>

definition ctx_input :: "exec_args \<Rightarrow> int \<Rightarrow> nat option" where
  "ctx_input args arg = (case args arg of None \<Rightarrow> None | Some ma \<Rightarrow> ma_mem ma)"

definition ctx_output :: "exec_args \<Rightarrow> int \<Rightarrow> nat option" where
  "ctx_output args arg = (case args arg of None \<Rightarrow> None | Some ma \<Rightarrow> ma_mem ma)"

section \<open>The documented arguments\<close>

definition opt :: "bool \<Rightarrow> int list \<Rightarrow> int list" where
  "opt c xs = (if c then xs else [])"

lemma opt_simps [simp]:
  "set (opt c xs) = (if c then set xs else {})" "length (opt c xs) = of_bool c * length xs"
  "distinct (opt c xs) \<longleftrightarrow> (c \<longrightarrow> distinct xs)"
  by (simp_all add: opt_def)

definition multiple_src :: "int \<Rightarrow> int list" where
  "multiple_src n = map (\<lambda>i. DNNL_ARG_MULTIPLE_SRC + int i) [0..<nat n]"

lemma multiple_src_simps [simp]:
  "arg \<in> set (multiple_src n) \<longleftrightarrow> DNNL_ARG_MULTIPLE_SRC \<le> arg \<and> arg < DNNL_ARG_MULTIPLE_SRC + n"
  "length (multiple_src n) = nat n" "distinct (multiple_src n)"
proof -
  have "arg \<in> (\<lambda>i. 1024 + int i) ` {0..<nat n}" if "1024 \<le> arg" "arg < 1024 + n"
    using that by (intro image_eqI [of _ _ "nat (arg - 1024)"]) auto
  then show "arg \<in> set (multiple_src n) \<longleftrightarrow> 1024 \<le> arg \<and> arg < 1024 + n"
    by (auto simp: multiple_src_def)
qed (auto simp: multiple_src_def distinct_map inj_on_def)

abbreviation has_ws :: "memory_desc \<Rightarrow> bool" where
  "has_ws ws \<equiv> \<not> is_zero_md (Some ws)"

fun pd_inputs :: "pd_class \<Rightarrow> int list" where
  "pd_inputs (Convolution_fwd pd) = [DNNL_ARG_SRC, DNNL_ARG_WEIGHTS] @ opt (conv_with_bias (cv_desc pd)) [DNNL_ARG_BIAS]"
| "pd_inputs (Convolution_bwd_data pd) = [DNNL_ARG_DIFF_DST, DNNL_ARG_WEIGHTS]"
| "pd_inputs (Convolution_bwd_weights pd) = [DNNL_ARG_SRC, DNNL_ARG_DIFF_DST]"
| "pd_inputs (Deconvolution_fwd pd) = [DNNL_ARG_SRC, DNNL_ARG_WEIGHTS] @ opt (conv_with_bias (cv_desc pd)) [DNNL_ARG_BIAS]"
| "pd_inputs (Deconvolution_bwd_data pd) = [DNNL_ARG_DIFF_DST, DNNL_ARG_WEIGHTS]"
| "pd_inputs (Deconvolution_bwd_weights pd) = [DNNL_ARG_SRC, DNNL_ARG_DIFF_DST]"
| "pd_inputs (Inner_product_fwd pd) = [DNNL_ARG_SRC, DNNL_ARG_WEIGHTS] @ opt (ip_with_bias (ip_desc pd)) [DNNL_ARG_BIAS]"
| "pd_inputs (Inner_product_bwd_data pd) = [DNNL_ARG_DIFF_DST, DNNL_ARG_WEIGHTS]"
| "pd_inputs (Inner_product_bwd_weights pd) = [DNNL_ARG_SRC, DNNL_ARG_DIFF_DST]"
| "pd_inputs (Pooling_fwd pd) = [DNNL_ARG_SRC]"
| "pd_inputs (Pooling_bwd pd) = [DNNL_ARG_DIFF_DST] @ opt (has_ws (po_ws_md pd)) [DNNL_ARG_WORKSPACE]"
| "pd_inputs (Eltwise_fwd pd) = [DNNL_ARG_SRC]"
| "pd_inputs (Eltwise_bwd pd) = [DNNL_ARG_SRC, DNNL_ARG_DIFF_DST]"
| "pd_inputs (Softmax_fwd pd) = [DNNL_ARG_SRC]"
| "pd_inputs (Softmax_bwd pd) = [DNNL_ARG_DST, DNNL_ARG_DIFF_DST]"
| "pd_inputs (Lrn_fwd pd) = [DNNL_ARG_SRC]"
| "pd_inputs (Lrn_bwd pd) = [DNNL_ARG_SRC, DNNL_ARG_DIFF_DST] @ opt (has_ws (lp_ws_md pd)) [DNNL_ARG_WORKSPACE]"
| "pd_inputs (Batch_normalization_fwd pd) = [DNNL_ARG_SRC]
     @ opt (bn_stats_is_src (bp_desc pd)) [DNNL_ARG_MEAN, DNNL_ARG_VARIANCE]
     @ opt (bn_use_scaleshift (bp_desc pd)) [DNNL_ARG_WEIGHTS]"
| "pd_inputs (Batch_normalization_bwd pd) = [DNNL_ARG_SRC, DNNL_ARG_MEAN, DNNL_ARG_VARIANCE, DNNL_ARG_DIFF_DST]
     @ opt (bn_use_scaleshift (bp_desc pd)) [DNNL_ARG_WEIGHTS]
     @ opt (bn_fuse_norm_relu (bp_desc pd)) [DNNL_ARG_WORKSPACE]"
| "pd_inputs (Layer_normalization_fwd pd) = [DNNL_ARG_SRC]
     @ opt (ln_stats_are_src (lnp_desc pd)) [DNNL_ARG_MEAN, DNNL_ARG_VARIANCE]
     @ opt (ln_use_scaleshift (lnp_desc pd)) [DNNL_ARG_WEIGHTS]"
| "pd_inputs (Layer_normalization_bwd pd) = [DNNL_ARG_SRC, DNNL_ARG_MEAN, DNNL_ARG_VARIANCE, DNNL_ARG_DIFF_DST]
     @ opt (ln_use_scaleshift (lnp_desc pd)) [DNNL_ARG_WEIGHTS]"
| "pd_inputs (Rnn_fwd pd) = [DNNL_ARG_SRC, DNNL_ARG_WEIGHTS, DNNL_ARG_WEIGHTS_1]
     @ opt (rnn_with_bias (rp_desc pd)) [DNNL_ARG_BIAS]
     @ opt (rnn_with_src_iter (rp_desc pd)) [DNNL_ARG_SRC_1]
     @ opt (rnn_with_src_iter_c (rp_desc pd)) [DNNL_ARG_SRC_2]"
| "pd_inputs (Rnn_bwd pd) = [DNNL_ARG_SRC, DNNL_ARG_WEIGHTS, DNNL_ARG_WEIGHTS_1, DNNL_ARG_DST, DNNL_ARG_DIFF_DST,
       DNNL_ARG_WORKSPACE]
     @ opt (rnn_with_bias (rp_desc pd)) [DNNL_ARG_BIAS]
     @ opt (rnn_with_src_iter (rp_desc pd)) [DNNL_ARG_SRC_1]
     @ opt (rnn_with_src_iter_c (rp_desc pd)) [DNNL_ARG_SRC_2]
     @ opt (rnn_with_dst_iter (rp_desc pd)) [DNNL_ARG_DST_1, DNNL_ARG_DIFF_DST_1]
     @ opt (rnn_with_dst_iter_c (rp_desc pd)) [DNNL_ARG_DST_2, DNNL_ARG_DIFF_DST_2]"
| "pd_inputs (Shuffle pd) = (if is_fwd_kind (sh_prop_kind (sf_desc pd)) then [DNNL_ARG_SRC] else [DNNL_ARG_DIFF_DST])"
| "pd_inputs (Concat pd desc) = multiple_src (cp_n pd)"
| "pd_inputs (Sum_class pd desc) = multiple_src (sp_n pd)"
| "pd_inputs (Reorder pd) = [DNNL_ARG_SRC]"
| "pd_inputs (Gemm pd) = [DNNL_ARG_SRC, DNNL_ARG_SRC_1]"

fun pd_outputs :: "pd_class \<Rightarrow> int list" where
  "pd_outputs (Convolution_bwd_data pd) = [DNNL_ARG_DIFF_SRC]"
| "pd_outputs (Convolution_bwd_weights pd) = [DNNL_ARG_DIFF_WEIGHTS] @ opt (conv_with_bias (cv_desc pd)) [DNNL_ARG_DIFF_BIAS]"
| "pd_outputs (Deconvolution_bwd_data pd) = [DNNL_ARG_DIFF_SRC]"
| "pd_outputs (Deconvolution_bwd_weights pd) = [DNNL_ARG_DIFF_WEIGHTS] @ opt (conv_with_bias (cv_desc pd)) [DNNL_ARG_DIFF_BIAS]"
| "pd_outputs (Inner_product_bwd_data pd) = [DNNL_ARG_DIFF_SRC]"
| "pd_outputs (Inner_product_bwd_weights pd) = [DNNL_ARG_DIFF_WEIGHTS] @ opt (ip_with_bias (ip_desc pd)) [DNNL_ARG_DIFF_BIAS]"
| "pd_outputs (Pooling_fwd pd) = [DNNL_ARG_DST] @ opt (has_ws (po_ws_md pd)) [DNNL_ARG_WORKSPACE]"
| "pd_outputs (Pooling_bwd pd) = [DNNL_ARG_DIFF_SRC]"
| "pd_outputs (Eltwise_bwd pd) = [DNNL_ARG_DIFF_SRC]"
| "pd_outputs (Softmax_bwd pd) = [DNNL_ARG_DIFF_SRC]"
| "pd_outputs (Lrn_fwd pd) = [DNNL_ARG_DST] @ opt (has_ws (lp_ws_md pd)) [DNNL_ARG_WORKSPACE]"
| "pd_outputs (Lrn_bwd pd) = [DNNL_ARG_DIFF_SRC]"
| "pd_outputs (Batch_normalization_fwd pd) = [DNNL_ARG_DST] @ opt (bn_is_training (bp_desc pd))
     (opt (\<not> bn_stats_is_src (bp_desc pd)) [DNNL_ARG_MEAN, DNNL_ARG_VARIANCE]
      @ opt (bn_fuse_norm_relu (bp_desc pd)) [DNNL_ARG_WORKSPACE])"
| "pd_outputs (Batch_normalization_bwd pd) = [DNNL_ARG_DIFF_SRC] @ opt (bn_use_scaleshift (bp_desc pd)) [DNNL_ARG_DIFF_WEIGHTS]"
| "pd_outputs (Layer_normalization_fwd pd) = [DNNL_ARG_DST] @ opt (ln_is_training (lnp_desc pd))
     (opt (\<not> ln_stats_are_src (lnp_desc pd)) [DNNL_ARG_MEAN, DNNL_ARG_VARIANCE])"
| "pd_outputs (Layer_normalization_bwd pd) = [DNNL_ARG_DIFF_SRC] @ opt (ln_use_scaleshift (lnp_desc pd)) [DNNL_ARG_DIFF_WEIGHTS]"
| "pd_outputs (Rnn_fwd pd) = [DNNL_ARG_DST]
     @ opt (rnn_with_dst_iter (rp_desc pd)) [DNNL_ARG_DST_1]
     @ opt (rnn_with_dst_iter_c (rp_desc pd)) [DNNL_ARG_DST_2]
     @ opt (rnn_is_training (rp_desc pd)) [DNNL_ARG_WORKSPACE]"
| "pd_outputs (Rnn_bwd pd) = [DNNL_ARG_DIFF_SRC, DNNL_ARG_DIFF_WEIGHTS, DNNL_ARG_DIFF_WEIGHTS_1]
     @ opt (rnn_with_bias (rp_desc pd)) [DNNL_ARG_DIFF_BIAS]
     @ opt (rnn_with_src_iter (rp_desc pd)) [DNNL_ARG_DIFF_SRC_1]
     @ opt (rnn_with_src_iter_c (rp_desc pd)) [DNNL_ARG_DIFF_SRC_2]"
| "pd_outputs (Shuffle pd) = (if is_fwd_kind (sh_prop_kind (sf_desc pd)) then [DNNL_ARG_DST] else [DNNL_ARG_DIFF_SRC])"
| "pd_outputs _ = [DNNL_ARG_DST]"

text \<open>
  The descriptors whose counts agree with their arguments: a backward normalisation must use the
  scale and shift exactly when it computes their gradient, a convolution backward by data must have
  no bias (the C API gives it none).
\<close>

fun counts_ok :: "pd_class \<Rightarrow> bool" where
  "counts_ok (Convolution_bwd_data pd) \<longleftrightarrow> \<not> conv_with_bias (cv_desc pd)"
| "counts_ok (Batch_normalization_bwd pd) \<longleftrightarrow>
     (bn_prop_kind (bp_desc pd) = backward \<longleftrightarrow> bn_use_scaleshift (bp_desc pd))"
| "counts_ok (Layer_normalization_bwd pd) \<longleftrightarrow>
     (ln_prop_kind (lnp_desc pd) = backward \<longleftrightarrow> ln_use_scaleshift (lnp_desc pd))"
| "counts_ok (Concat pd desc) \<longleftrightarrow> 0 \<le> cp_n pd"
| "counts_ok (Sum_class pd desc) \<longleftrightarrow> 0 \<le> sp_n pd"
| "counts_ok _ \<longleftrightarrow> True"

named_theorems class_defs "the virtual functions of the classes"

lemmas [class_defs] =
  convolution_fwd_virtual_def convolution_bwd_data_virtual_def convolution_bwd_weights_virtual_def
  deconvolution_fwd_virtual_def deconvolution_bwd_data_virtual_def deconvolution_bwd_weights_virtual_def
  inner_product_fwd_virtual_def inner_product_bwd_data_virtual_def inner_product_bwd_weights_virtual_def
  pooling_fwd_virtual_def pooling_bwd_virtual_def eltwise_fwd_virtual_def eltwise_bwd_virtual_def
  softmax_fwd_virtual_def softmax_bwd_virtual_def lrn_fwd_virtual_def lrn_bwd_virtual_def
  batch_normalization_fwd_virtual_def batch_normalization_bwd_virtual_def
  layer_normalization_fwd_virtual_def layer_normalization_bwd_virtual_def
  rnn_fwd_virtual_def rnn_bwd_virtual_def shuffle_virtual_def concat_virtual_def sum_virtual_def
  reorder_virtual_def gemm_virtual_def

lemma zero_md_is_zero [simp]: "is_zero_md (Some zero_md)"
  by code_simp

lemma ws_at_0_zero [simp]: "is_zero_md (Some (ws_at_0 ws 0)) \<longleftrightarrow> is_zero_md (Some ws)"
  by (simp add: ws_at_0_def)

lemma base_arg_usage_cases:
  "base_arg_usage b arg = Input \<longleftrightarrow> False"
  "base_arg_usage b arg = Output \<longleftrightarrow> arg = DNNL_ARG_SCRATCHPAD \<and> \<not> is_zero_md (Some (base_scratchpad_md b 0))"
  by (simp_all add: base_arg_usage_def)

lemma usage_input: "v_arg_usage (class_virtual b c) arg = Input \<longleftrightarrow> arg \<in> set (pd_inputs c)"
  by (cases c) (auto simp: class_defs Let_def base_arg_usage_cases rnn_with_dst_iter_c_def rnn_with_dst_iter_def
      split: if_splits)

lemma usage_output:
  "v_arg_usage (class_virtual b c) arg = Output \<longleftrightarrow>
     arg \<in> set (pd_outputs c) \<or> arg = DNNL_ARG_SCRATCHPAD \<and> \<not> is_zero_md (Some (base_scratchpad_md b 0))"
  by (cases c) (auto simp: class_defs Let_def base_arg_usage_cases rnn_with_dst_iter_c_def rnn_with_dst_iter_def
      split: if_splits)

lemma n_inputs_count: "counts_ok c \<Longrightarrow> v_n_inputs (class_virtual b c) = int (length (pd_inputs c))"
  by (cases c) (auto simp: class_defs Let_def)

lemma n_outputs_count: "counts_ok c \<Longrightarrow> v_n_outputs (class_virtual b c) = int (length (pd_outputs c))"
  by (cases c) (auto simp: class_defs Let_def)

lemma arguments_distinct: "distinct (pd_inputs c)" "distinct (pd_outputs c @ [DNNL_ARG_SCRATCHPAD])"
  by (cases c; auto)+

section \<open>The interface of a descriptor to the execution\<close>

text \<open>
  What the conversion of arguments relies on: the usage of an argument agrees with two lists without
  repetition, whose lengths are the counts. \<open>wf\<close> are the descriptors that keep the contract.
\<close>

definition passed :: "int \<Rightarrow> exec_arg carray \<Rightarrow> exec_arg list" where
  "passed nargs c_args = map c_args [0..<nat nargs]"

definition taken :: "(int \<Rightarrow> arg_usage) \<Rightarrow> exec_arg list \<Rightarrow> int list" where
  "taken usage xs = filter (\<lambda>a. usage a \<noteq> Unused) (map ea_arg xs)"

lemma taken_simps [simp]:
  "taken usage [] = []"
  "taken usage (x # xs) = (if usage (ea_arg x) \<noteq> Unused then ea_arg x # taken usage xs else taken usage xs)"
  by (simp_all add: taken_def)

definition memory_arg_of :: "(int \<Rightarrow> arg_usage) \<Rightarrow> exec_arg \<Rightarrow> memory_arg" where
  "memory_arg_of usage x = \<lparr>ma_mem = ea_memory x, ma_is_const = (usage (ea_arg x) = Input)\<rparr>"

lemma cvt_loop_accepts:
  "fst (cvt_loop usage xs args i k) \<longleftrightarrow> distinct (taken usage xs) \<and> set (taken usage xs) \<inter> dom args = {}"
  by (induction xs arbitrary: args i k) (auto split: arg_usage.splits)

lemma cvt_loop_counts:
  assumes "cvt_loop usage xs args i k = (True, args', i', k')"
  shows "i' = i + int (length (filter (\<lambda>a. usage a = Input) (taken usage xs))) \<and>
    k' = k + int (length (filter (\<lambda>a. usage a = Output) (taken usage xs)))"
  using assms by (induction xs arbitrary: args i k) (force split: arg_usage.splits if_splits)+

lemma cvt_loop_result:
  assumes "cvt_loop usage xs args i k = (True, args', i', k')"
  shows "(\<forall>x\<in>set xs. usage (ea_arg x) \<noteq> Unused \<longrightarrow> args' (ea_arg x) = Some (memory_arg_of usage x)) \<and>
    (\<forall>a. a \<notin> set (taken usage xs) \<longrightarrow> args' a = args a)"
  using assms
proof (induction xs arbitrary: args i k)
  case (Cons x xs)
  show ?case
  proof (cases "usage (ea_arg x) = Unused")
    case True
    then show ?thesis using Cons.IH [of args i k] Cons.prems by auto
  next
    case False
    let ?args = "args(ea_arg x \<mapsto> memory_arg_of usage x)"
    obtain i1 k1 where rest: "cvt_loop usage xs ?args i1 k1 = (True, args', i', k')"
      using Cons.prems False
      by (cases "usage (ea_arg x)") (auto simp: memory_arg_of_def split: if_splits)
    have "ea_arg x \<notin> set (taken usage xs)"
      using cvt_loop_accepts [of usage xs ?args i1 k1] rest by auto
    then show ?thesis using Cons.IH [OF rest] False by auto
  qed
qed simp

locale argument_interface =
  fixes wf :: "'pd \<Rightarrow> bool" and usage :: "'pd \<Rightarrow> int \<Rightarrow> arg_usage" and inputs outputs :: "'pd \<Rightarrow> int list"
    and n_inputs n_outputs :: "'pd \<Rightarrow> int"
  assumes input_iff: "wf pd \<Longrightarrow> usage pd a = Input \<longleftrightarrow> a \<in> set (inputs pd)"
    and output_iff: "wf pd \<Longrightarrow> usage pd a = Output \<longleftrightarrow> a \<in> set (outputs pd)"
    and distinct_lists: "wf pd \<Longrightarrow> distinct (inputs pd) \<and> distinct (outputs pd)"
    and counts: "wf pd \<Longrightarrow> n_inputs pd = int (length (inputs pd)) \<and> n_outputs pd = int (length (outputs pd))"
begin

lemma used_iff: "wf pd \<Longrightarrow> usage pd a \<noteq> Unused \<longleftrightarrow> a \<in> set (inputs pd) \<union> set (outputs pd)"
  using input_iff [of pd a] output_iff [of pd a] by (cases "usage pd a") auto

lemma disjoint_lists: "wf pd \<Longrightarrow> set (inputs pd) \<inter> set (outputs pd) = {}"
proof (rule ccontr)
  assume wf: "wf pd" and "set (inputs pd) \<inter> set (outputs pd) \<noteq> {}"
  then obtain a where "a \<in> set (inputs pd)" "a \<in> set (outputs pd)" by auto
  then have "usage pd a = Input" "usage pd a = Output" by (simp_all add: input_iff [OF wf] output_iff [OF wf])
  then show False by simp
qed

lemma filter_all_iff:
  assumes "distinct xs" "\<And>x. P x \<longleftrightarrow> x \<in> set ys" "distinct ys"
  shows "length (filter P xs) = length ys \<longleftrightarrow> set ys \<subseteq> set xs"
proof -
  have "length (filter P xs) = card (set ys \<inter> set xs)"
    using distinct_card [OF distinct_filter [OF assms(1), of P]] assms(2) by (simp add: Int_def conj_commute)
  moreover have "card (set ys \<inter> set xs) = card (set ys) \<longleftrightarrow> set ys \<subseteq> set xs"
    using card_subset_eq [of "set ys" "set ys \<inter> set xs"] by (auto simp: Int_absorb2)
  ultimately show ?thesis using distinct_card [OF assms(3)] by simp
qed

lemma accepted_iff:
  assumes wf: "wf pd" and loop: "cvt_loop (usage pd) xs (\<lambda>_. None) 0 0 = (ok, args, i, k)"
  shows "ok \<and> i = n_inputs pd \<and> k = n_outputs pd \<longleftrightarrow>
    distinct (taken (usage pd) xs) \<and> set (taken (usage pd) xs) = set (inputs pd) \<union> set (outputs pd)"
proof (cases ok)
  case False
  then show ?thesis using cvt_loop_accepts [of "usage pd" xs "\<lambda>_. None" 0 0] loop by simp
next
  case True
  let ?t = "taken (usage pd) xs"
  have loop: "cvt_loop (usage pd) xs (\<lambda>_. None) 0 0 = (True, args, i, k)" using loop True by simp
  have d: "distinct ?t" using cvt_loop_accepts [of "usage pd" xs "\<lambda>_. None" 0 0] loop True by simp
  have "set ?t \<subseteq> set (inputs pd) \<union> set (outputs pd)"
    using used_iff [OF wf] by (auto simp: taken_def)
  moreover have "i = n_inputs pd \<longleftrightarrow> set (inputs pd) \<subseteq> set ?t"
    "k = n_outputs pd \<longleftrightarrow> set (outputs pd) \<subseteq> set ?t"
    using cvt_loop_counts [OF loop] counts [OF wf] distinct_lists [OF wf]
      filter_all_iff [OF d input_iff [OF wf]] filter_all_iff [OF d output_iff [OF wf]] by auto
  ultimately show ?thesis using True d by auto
qed

lemma accepted_args:
  assumes wf: "wf pd" and loop: "cvt_loop (usage pd) xs (\<lambda>_. None) 0 0 = (True, args, i, k)"
    and all: "set (taken (usage pd) xs) = set (inputs pd) \<union> set (outputs pd)"
  shows "dom args = set (inputs pd) \<union> set (outputs pd)"
    and "x \<in> set xs \<Longrightarrow> ea_arg x \<in> set (inputs pd) \<union> set (outputs pd) \<Longrightarrow>
      args (ea_arg x) = Some \<lparr>ma_mem = ea_memory x, ma_is_const = (ea_arg x \<in> set (inputs pd))\<rparr>"
proof -
  note r = cvt_loop_result [OF loop]
  show "args (ea_arg x) = Some \<lparr>ma_mem = ea_memory x, ma_is_const = (ea_arg x \<in> set (inputs pd))\<rparr>"
    if "x \<in> set xs" "ea_arg x \<in> set (inputs pd) \<union> set (outputs pd)" for x
    using r that used_iff [OF wf] input_iff [OF wf] by (auto simp: memory_arg_of_def)
  have "args a \<noteq> None" if a: "a \<in> set (taken (usage pd) xs)" for a
  proof -
    obtain x where "x \<in> set xs" "a = ea_arg x" "usage pd a \<noteq> Unused" using a by (auto simp: taken_def)
    then show ?thesis using r by auto
  qed
  then show "dom args = set (inputs pd) \<union> set (outputs pd)" using r all by (auto simp: dom_def)
qed

end

text \<open>All the arguments of a primitive, with the scratchpad where one is to be passed.\<close>

definition all_outputs :: "primitive_desc \<Rightarrow> int list" where
  "all_outputs pd = pd_outputs (pd_members pd) @ opt (scratchpad_required pd) [DNNL_ARG_SCRATCHPAD]"

definition pd_arguments :: "primitive_desc \<Rightarrow> int set" where
  "pd_arguments pd = set (pd_inputs (pd_members pd)) \<union> set (all_outputs pd)"

interpretation arguments: argument_interface
  "\<lambda>pd. counts_ok (pd_members pd)" "\<lambda>pd. v_arg_usage (pd_virtual pd)" "\<lambda>pd. pd_inputs (pd_members pd)" all_outputs
  "\<lambda>pd. v_n_inputs (pd_virtual pd)" "\<lambda>pd. v_n_outputs (pd_virtual pd) + of_bool (scratchpad_required pd)"
proof unfold_locales
  fix pd :: primitive_desc and a
  show "v_arg_usage (pd_virtual pd) a = Input \<longleftrightarrow> a \<in> set (pd_inputs (pd_members pd))"
    by (rule usage_input)
  show "v_arg_usage (pd_virtual pd) a = Output \<longleftrightarrow> a \<in> set (all_outputs pd)"
    by (auto simp: usage_output all_outputs_def scratchpad_required_def)
  show "distinct (pd_inputs (pd_members pd)) \<and> distinct (all_outputs pd)"
    using arguments_distinct [of "pd_members pd"] by (auto simp: all_outputs_def)
  assume "counts_ok (pd_members pd)"
  then show "v_n_inputs (pd_virtual pd) = int (length (pd_inputs (pd_members pd))) \<and>
      v_n_outputs (pd_virtual pd) + of_bool (scratchpad_required pd) = int (length (all_outputs pd))"
    by (simp add: n_inputs_count n_outputs_count all_outputs_def)
qed

lemma cvt_success_iff:
  fixes pd :: primitive_desc and nargs :: int and c_args :: "exec_arg carray"
  assumes ok: "counts_ok (pd_members pd)"
  defines "used \<equiv> taken (v_arg_usage (pd_virtual pd)) (passed nargs c_args)"
  shows "fst (cvt_primtive_args pd nargs (Some c_args) (\<lambda>_. None)) = success \<longleftrightarrow>
      distinct used \<and> set used = pd_arguments pd"
    and "fst (cvt_primtive_args pd nargs (Some c_args) (\<lambda>_. None)) = success \<Longrightarrow>
      dom (snd (cvt_primtive_args pd nargs (Some c_args) (\<lambda>_. None))) = pd_arguments pd \<and>
      (\<forall>x\<in>set (passed nargs c_args). ea_arg x \<in> pd_arguments pd \<longrightarrow>
        snd (cvt_primtive_args pd nargs (Some c_args) (\<lambda>_. None)) (ea_arg x) =
          Some \<lparr>ma_mem = ea_memory x, ma_is_const = (ea_arg x \<in> set (pd_inputs (pd_members pd)))\<rparr>)"
proof -
  obtain b args i k where loop: "cvt_loop (v_arg_usage (pd_virtual pd)) (passed nargs c_args) (\<lambda>_. None) 0 0 = (b, args, i, k)"
    by (metis prod.exhaust)
  note acc = arguments.accepted_iff [OF ok loop]
  have cvt: "cvt_primtive_args pd nargs (Some c_args) (\<lambda>_. None) =
      (if b \<and> i = v_n_inputs (pd_virtual pd) \<and> k = v_n_outputs (pd_virtual pd) + of_bool (scratchpad_required pd)
       then success else invalid_arguments, args)"
    using loop by (auto simp: cvt_primtive_args_def passed_def)
  show iff: "fst (cvt_primtive_args pd nargs (Some c_args) (\<lambda>_. None)) = success \<longleftrightarrow>
      distinct used \<and> set used = pd_arguments pd"
    using acc by (simp add: cvt used_def pd_arguments_def)
  show "dom (snd (cvt_primtive_args pd nargs (Some c_args) (\<lambda>_. None))) = pd_arguments pd \<and>
      (\<forall>x\<in>set (passed nargs c_args). ea_arg x \<in> pd_arguments pd \<longrightarrow>
        snd (cvt_primtive_args pd nargs (Some c_args) (\<lambda>_. None)) (ea_arg x) =
          Some \<lparr>ma_mem = ea_memory x, ma_is_const = (ea_arg x \<in> set (pd_inputs (pd_members pd)))\<rparr>)"
    if s: "fst (cvt_primtive_args pd nargs (Some c_args) (\<lambda>_. None)) = success"
  proof -
    have "b" using s by (simp add: cvt split: if_splits)
    moreover have "set used = pd_arguments pd" using s iff by simp
    ultimately show ?thesis
      using arguments.accepted_args [OF ok, of "passed nargs c_args" args i k] loop
      by (simp add: cvt used_def pd_arguments_def)
  qed
qed


definition eltwise_example :: primitive_desc where
  "eltwise_example = \<lparr>pd_base = \<lparr>pd_engine = 0, pd_attr = new_primitive_attr, pd_kind = pk_eltwise,
      pd_scratchpad_md = zero_md, pd_scratchpad_registry = empty_registry, pd_name = ''ref:any''\<rparr>,
    pd_members = Eltwise_bwd \<lparr>ew_desc = undefined, ew_data_md = zero_md, ew_diff_data_md = zero_md\<rparr>\<rparr>"

definition exec_args_example :: "exec_arg carray" where
  "exec_args_example i = (if i = 0 then \<lparr>ea_arg = DNNL_ARG_DIFF_SRC, ea_memory = Some 7\<rparr>
     else if i = 1 then \<lparr>ea_arg = DNNL_ARG_SRC, ea_memory = Some 5\<rparr>
     else if i = 2 then \<lparr>ea_arg = DNNL_ARG_BIAS, ea_memory = None\<rparr>
     else \<lparr>ea_arg = DNNL_ARG_DIFF_DST, ea_memory = Some 6\<rparr>)"


text \<open>
  A backward batch normalisation that computes all gradients but has no scale and shift counts two
  outputs and knows one: nothing a client passes is accepted.
\<close>

lemma bnorm_backward_rejects_all:
  assumes pd: "pd_members pd = Batch_normalization_bwd bn" and all: "bn_prop_kind (bp_desc bn) = backward"
    and no_ss: "\<not> bn_use_scaleshift (bp_desc bn)"
  shows "fst (cvt_primtive_args pd nargs c_args (\<lambda>_. None)) \<noteq> success"
proof
  assume s: "fst (cvt_primtive_args pd nargs c_args (\<lambda>_. None)) = success"
  let ?u = "v_arg_usage (pd_virtual pd)" and ?xs = "map (the c_args) [0..<nat nargs]"
  obtain args i k where loop: "cvt_loop ?u ?xs (\<lambda>_. None) 0 0 = (True, args, i, k)"
    and k: "k = v_n_outputs (pd_virtual pd) + of_bool (scratchpad_required pd)"
    using s by (auto simp: cvt_primtive_args_def Let_def split: if_splits prod.splits)
  let ?out = "filter (\<lambda>a. ?u a = Output) (taken ?u ?xs)"
  have "distinct ?out" using cvt_loop_accepts [of ?u ?xs "\<lambda>_. None" 0 0] loop by simp
  moreover have "set ?out \<subseteq> set (all_outputs pd)"
    by (auto simp: usage_output all_outputs_def scratchpad_required_def)
  ultimately have "length ?out \<le> length (all_outputs pd)"
    by (metis card_length card_mono distinct_card finite_set le_trans)
  moreover have "int (length ?out) = k" using cvt_loop_counts [OF loop] by simp
  moreover have "v_n_outputs (pd_virtual pd) = 2" by (simp add: pd all class_defs Let_def)
  moreover have "length (all_outputs pd) = Suc (of_bool (scratchpad_required pd))"
    by (simp add: pd no_ss all_outputs_def)
  ultimately show False using k by (cases "scratchpad_required pd") simp_all
qed

section \<open>Primitives and their scratchpads\<close>

text \<open>
  A primitive: its descriptor, the buffer of its own (0 if it has none) and whether it holds a
  scratchpad of the thread. \<open>kind\<close> is the kind of an engine, \<open>p\<close> what \<open>malloc\<close> returns if it is
  called; the buffers of primitives are recorded in a heap of their own.
\<close>

record primitive_obj =
  pr_pd :: primitive_desc
  pr_buffer :: u64
  pr_global :: bool

definition library_size :: "primitive_desc \<Rightarrow> u64" where
  "library_size pd = scratchpad_size_of (pd_base pd) spm_library"

definition primitive_ctor :: "(nat \<Rightarrow> engine_kind) \<Rightarrow> bool \<Rightarrow> primitive_desc \<Rightarrow> u64 \<Rightarrow> scratch \<Rightarrow> heap \<Rightarrow>
    primitive_obj \<times> scratch \<times> heap" where
  "primitive_ctor kind use_global_scratchpad pd p s h =
     (let obj = \<lparr>pr_pd = pd, pr_buffer = 0, pr_global = False\<rparr>; sz = library_size pd
      in if kind (pd_engine (pd_base pd)) = engine_cpu \<and> sz \<noteq> 0 then
           if use_global_scratchpad then (obj\<lparr>pr_global := True\<rparr>, global_scratchpad_ctor sz p s, h)
           else (obj\<lparr>pr_buffer := p\<rparr>, s, if p = 0 then h else malloc_block sz p h)
         else (obj, s, h))"

definition primitive_dtor :: "primitive_obj \<Rightarrow> scratch \<Rightarrow> heap \<Rightarrow> scratch \<times> heap" where
  "primitive_dtor obj s h =
     (if pr_global obj then global_scratchpad_dtor s else s, free_block (pr_buffer obj) h)"

text \<open>The address the grantor of an execution works on; \<open>data_handle\<close> is the data of a memory.\<close>

definition scratchpad_base :: "(nat \<Rightarrow> u64) \<Rightarrow> primitive_obj \<Rightarrow> exec_args \<Rightarrow> scratch \<Rightarrow> u64" where
  "scratchpad_base data_handle obj args s =
     (if at_scratchpad_mode (pd_attr (pd_base (pr_pd obj))) = spm_user
      then case ctx_output args DNNL_ARG_SCRATCHPAD of None \<Rightarrow> 0 | Some mem \<Rightarrow> data_handle mem
      else if pr_global obj then global_scratchpad_get s else pr_buffer obj)"

text \<open>
  The implementation of a primitive gets the arguments and, on a CPU, the grantor over the
  registry; it acts on a state of its own.
\<close>

type_synonym 'st implementation = "primitive_desc \<Rightarrow> exec_args \<Rightarrow> (registry \<times> u64) option \<Rightarrow> 'st \<Rightarrow> status \<times> 'st"

definition primitive_execute :: "(nat \<Rightarrow> engine_kind) \<Rightarrow> (nat \<Rightarrow> u64) \<Rightarrow> 'st implementation \<Rightarrow>
    primitive_obj \<Rightarrow> exec_args \<Rightarrow> scratch \<Rightarrow> 'st \<Rightarrow> status \<times> 'st" where
  "primitive_execute kind data_handle impl obj args s st =
     (let grantor = (if kind (pd_engine (pd_base (pr_pd obj))) = engine_cpu
        then Some (pd_scratchpad_registry (pd_base (pr_pd obj)), scratchpad_base data_handle obj args s) else None)
      in impl (pr_pd obj) args grantor st)"

text \<open>A stream is known by its engine.\<close>

definition dnnl_primitive_execute :: "(nat \<Rightarrow> engine_kind) \<Rightarrow> (nat \<Rightarrow> u64) \<Rightarrow> 'st implementation \<Rightarrow>
    primitive_obj option \<Rightarrow> nat option \<Rightarrow> int \<Rightarrow> exec_arg carray option \<Rightarrow> scratch \<Rightarrow> 'st \<Rightarrow> status \<times> 'st" where
  "dnnl_primitive_execute kind data_handle impl primitive stream nargs c_args s st =
     (case (primitive, stream) of
        (Some obj, Some stream_engine) \<Rightarrow>
          if \<not> (pd_engine (pd_base (pr_pd obj)) = stream_engine \<and> (nargs > 0 \<longrightarrow> c_args \<noteq> None))
          then (invalid_arguments, st)
          else let (status, args) = cvt_primtive_args (pr_pd obj) nargs c_args (\<lambda>_. None)
               in if status \<noteq> success then (status, st)
                  else primitive_execute kind data_handle impl obj args s st
      | _ \<Rightarrow> (invalid_arguments, st))"

text \<open>
  The states of a thread with the primitives alive in it. They are made and destroyed in any order;
  \<open>malloc\<close> succeeds, and there are fewer than \<open>2 ^ 32\<close> of them.
\<close>

definition fresh_block :: "bool \<Rightarrow> u64 \<Rightarrow> scratch \<Rightarrow> heap \<Rightarrow> bool" where
  "fresh_block use_global p s h \<longleftrightarrow>
     malloc_returns p h \<and> malloc_returns p (scratch_heap (if use_global then release_old s else s))"

inductive prims_reach :: "(nat \<Rightarrow> engine_kind) \<Rightarrow> primitive_obj multiset \<Rightarrow> scratch \<Rightarrow> heap \<Rightarrow> bool"
  for kind where
  none: "prims_reach kind {#} initial_scratch (\<lambda>_. None)"
| make: "prims_reach kind live s h \<Longrightarrow> Suc (size live) < 2 ^ 32 \<Longrightarrow> fresh_block use_global p s h \<Longrightarrow>
    primitive_ctor kind use_global pd p s h = (obj, s', h') \<Longrightarrow> prims_reach kind (add_mset obj live) s' h'"
| destroy: "prims_reach kind (add_mset obj live) s h \<Longrightarrow> primitive_dtor obj s h = (s', h') \<Longrightarrow>
    prims_reach kind live s' h'"

definition holders :: "primitive_obj multiset \<Rightarrow> u64 multiset" where
  "holders live = image_mset (\<lambda>obj. library_size (pr_pd obj)) (filter_mset pr_global live)"

definition owners :: "primitive_obj multiset \<Rightarrow> (u64 \<times> u64) multiset" where
  "owners live = image_mset (\<lambda>obj. (pr_buffer obj, library_size (pr_pd obj))) (filter_mset (\<lambda>obj. pr_buffer obj \<noteq> 0) live)"

lemma holders_simps [simp]:
  "holders {#} = {#}"
  "holders (add_mset obj live) = (if pr_global obj then add_mset (library_size (pr_pd obj)) (holders live) else holders live)"
  by (simp_all add: holders_def)

lemma size_holders: "size (holders live) \<le> size live"
  by (simp add: holders_def size_filter_mset_lesseq)

lemma owners_simps [simp]:
  "owners {#} = {#}"
  "owners (add_mset obj live) = (if pr_buffer obj \<noteq> 0 then add_mset (pr_buffer obj, library_size (pr_pd obj)) (owners live) else owners live)"
  by (simp_all add: owners_def)

text \<open>
  The invariant: the thread's scratchpads are in a reachable state, the private buffers are exactly
  the allocated blocks, each with one owner, and the two do not overlap; a primitive that needs a
  scratchpad has one.
\<close>

definition prims_inv :: "(nat \<Rightarrow> engine_kind) \<Rightarrow> primitive_obj multiset \<Rightarrow> scratch \<Rightarrow> heap \<Rightarrow> bool" where
  "prims_inv kind live s h \<longleftrightarrow>
     scratch_reach (holders live) s \<and> size live < 2 ^ 32 \<and>
     finite (dom h) \<and> owners live = mset_set (Map.graph h) \<and> dom h \<inter> dom (scratch_heap s) = {} \<and>
     (\<forall>obj\<in>#live. kind (pd_engine (pd_base (pr_pd obj))) = engine_cpu \<longrightarrow> library_size (pr_pd obj) \<noteq> 0 \<longrightarrow>
       pr_global obj \<or> pr_buffer obj \<noteq> 0)"

lemma scratch_heap_dom: "scratch_reach live s \<Longrightarrow> dom (scratch_heap s) \<subseteq> {scratchpad_ptr s}"
  by (drule scratch_reach_inv) (auto simp: scratch_inv_def split: if_splits)

lemma global_ctor_heap: "dom (scratch_heap (global_scratchpad_ctor n p s)) \<subseteq> insert p (dom (scratch_heap s))"
  by (auto simp: global_scratchpad_ctor_def Let_def malloc_block_def release_old_def free_block_def split: if_splits)

lemma global_dtor_heap: "dom (scratch_heap (global_scratchpad_dtor s)) \<subseteq> dom (scratch_heap s)"
  by (auto simp: global_scratchpad_dtor_def Let_def free_block_def split: if_splits)

lemma prims_inv_make:
  assumes inv: "prims_inv kind live s h" and few: "Suc (size live) < 2 ^ 32" and p: "fresh_block use_global p s h"
    and c: "primitive_ctor kind use_global pd p s h = (obj, s', h')"
  shows "prims_inv kind (add_mset obj live) s' h'"
proof -
  note I = inv [unfolded prims_inv_def]
  consider (none) "\<not> (kind (pd_engine (pd_base pd)) = engine_cpu \<and> library_size pd \<noteq> 0)"
      "obj = \<lparr>pr_pd = pd, pr_buffer = 0, pr_global = False\<rparr>" "s' = s" "h' = h"
    | (global) use_global "obj = \<lparr>pr_pd = pd, pr_buffer = 0, pr_global = True\<rparr>"
      "s' = global_scratchpad_ctor (library_size pd) p s" "h' = h"
    | (own) "\<not> use_global" "obj = \<lparr>pr_pd = pd, pr_buffer = p, pr_global = False\<rparr>" "s' = s" "h' = h(p \<mapsto> library_size pd)"
    using c p by (auto simp: primitive_ctor_def Let_def malloc_block_def fresh_block_def malloc_returns_def split: if_splits)
  then show ?thesis
  proof cases
    case none
    then show ?thesis using I few by (auto simp: prims_inv_def)
  next
    case global
    have "scratch_reach (add_mset (library_size pd) (holders live)) s'"
      unfolding global(3)
      by (rule scratch_reach.create) (use I few size_holders [of live] p global(1) in \<open>auto simp: fresh_block_def\<close>)
    moreover have "dom h \<inter> dom (scratch_heap s') = {}"
    proof -
      have "p \<notin> dom h" using p by (auto simp: fresh_block_def malloc_returns_def)
      then show ?thesis using I global_ctor_heap [of "library_size pd" p s] unfolding global(3) by blast
    qed
    ultimately show ?thesis using I few by (auto simp: prims_inv_def global)
  next
    case own
    have "h p = None" "p \<noteq> 0" "scratch_heap s p = None"
      using p own(1) by (auto simp: fresh_block_def malloc_returns_def)
    moreover have "h(p := None) = h" using \<open>h p = None\<close> by auto
    moreover have "finite (Map.graph h)" using I by (simp add: finite_graph_iff_finite_dom)
    moreover have "(p, library_size pd) \<notin> Map.graph h" using \<open>h p = None\<close> by (auto dest: in_graphD)
    ultimately show ?thesis using I few by (auto simp: prims_inv_def own)
  qed
qed

lemma prims_inv_destroy:
  assumes inv: "prims_inv kind (add_mset obj live) s h" and d: "primitive_dtor obj s h = (s', h')"
  shows "prims_inv kind live s' h'"
proof -
  note I = inv [unfolded prims_inv_def]
  have s': "s' = (if pr_global obj then global_scratchpad_dtor s else s)"
    and h': "h' = free_block (pr_buffer obj) h" using d by (auto simp: primitive_dtor_def)
  have "scratch_reach (holders live) s'"
    using I by (auto simp: s' intro: scratch_reach.destroy)
  moreover have "dom (scratch_heap s') \<subseteq> dom (scratch_heap s)" using global_dtor_heap [of s] by (auto simp: s')
  moreover have "dom h' \<subseteq> dom h" by (auto simp: h' free_block_def split: if_splits)
  moreover have "owners live = mset_set (Map.graph h')"
  proof (cases "pr_buffer obj = 0")
    case True
    then show ?thesis using I by (simp add: h' free_block_def)
  next
    case False
    let ?x = "(pr_buffer obj, library_size (pr_pd obj))"
    have own: "add_mset ?x (owners live) = mset_set (Map.graph h)" using I False by simp
    have fin: "finite (Map.graph h)" using I by (simp add: finite_graph_iff_finite_dom)
    have x: "?x \<in> Map.graph h" using own fin by (metis elem_mset_set union_single_eq_member)
    have "Map.graph h' = Map.graph h - {?x}"
      using in_graphD [OF x] False by (auto simp: h' free_block_def graph_fun_upd_None dest: in_graphD)
    moreover have "mset_set (Map.graph h) = add_mset ?x (mset_set (Map.graph h - {?x}))"
      by (rule mset_set.remove [OF fin x])
    ultimately show ?thesis using own by simp
  qed
  ultimately show ?thesis using I by (auto simp: prims_inv_def intro: finite_subset)
qed

lemma prims_reach_inv: "prims_reach kind live s h \<Longrightarrow> prims_inv kind live s h"
proof (induction rule: prims_reach.induct)
  case none
  then show ?case by (simp add: prims_inv_def scratch_reach.start)
qed (auto intro: prims_inv_make prims_inv_destroy)

lemma owner_block:
  assumes "prims_inv kind live s h" "obj \<in># live" "pr_buffer obj \<noteq> 0"
  shows "h (pr_buffer obj) = Some (library_size (pr_pd obj))"
proof -
  have "(pr_buffer obj, library_size (pr_pd obj)) \<in># owners live" using assms(2,3) by (auto simp: owners_def)
  then have "(pr_buffer obj, library_size (pr_pd obj)) \<in> Map.graph h"
    using assms(1) by (metis (no_types) elem_mset_set infinite_set_mset_mset_set empty_iff prims_inv_def)
  then show ?thesis by (rule in_graphD)
qed

lemma owners_distinct:
  assumes inv: "prims_inv kind (add_mset x live) s h" and y: "y \<in># live" and b: "pr_buffer x \<noteq> 0"
  shows "pr_buffer x \<noteq> pr_buffer y"
proof
  assume eq: "pr_buffer x = pr_buffer y"
  have "h (pr_buffer x) = Some (library_size (pr_pd x))" "h (pr_buffer y) = Some (library_size (pr_pd y))"
    using owner_block [OF inv, of x] owner_block [OF inv, of y] y b eq by auto
  then have "library_size (pr_pd x) = library_size (pr_pd y)" using eq by simp
  then have "(pr_buffer x, library_size (pr_pd x)) \<in># owners live"
    using y b eq by (auto simp: owners_def)
  then have "2 \<le> count (owners (add_mset x live)) (pr_buffer x, library_size (pr_pd x))"
    using b by (simp add: Suc_le_eq numeral_2_eq_2)
  moreover have "count (mset_set A) e \<le> 1" for A and e :: "u64 \<times> u64"
    by (cases "finite A"; cases "e \<in> A") simp_all
  moreover have "owners (add_mset x live) = mset_set (Map.graph h)" using inv unfolding prims_inv_def by blast
  ultimately show False by (metis not_less_eq_eq le_trans numeral_2_eq_2 One_nat_def)
qed

text \<open>
  C10: whatever primitives were made and destroyed before, every live primitive on a CPU that needs
  scratchpad memory runs with a pointer to an allocated block of at least the size it needs; a block
  of its own is shared with no other primitive, and when the last primitive is gone nothing stays
  allocated.
\<close>

theorem primitives_own_scratchpads:
  assumes "prims_reach kind live s h"
  shows "(\<forall>obj\<in>#live. kind (pd_engine (pd_base (pr_pd obj))) = engine_cpu \<longrightarrow> library_size (pr_pd obj) \<noteq> 0 \<longrightarrow>
      (\<exists>m. (if pr_global obj then scratch_heap s else h) (scratchpad_base data_handle obj args s) = Some m \<and>
        library_size (pr_pd obj) \<le> m)) \<and>
    (\<forall>x y others. live = add_mset x (add_mset y others) \<longrightarrow> pr_buffer x \<noteq> 0 \<longrightarrow> pr_buffer x \<noteq> pr_buffer y) \<and>
    (live = {#} \<longrightarrow> scratch_heap s = (\<lambda>_. None) \<and> h = (\<lambda>_. None))"
proof (intro conjI ballI allI impI)
  have inv: "prims_inv kind live s h" by (rule prims_reach_inv [OF assms])
  then have sinv: "scratch_inv (holders live) s" by (auto simp: prims_inv_def intro: scratch_reach_inv)
  fix obj
  assume obj: "obj \<in># live" and cpu: "kind (pd_engine (pd_base (pr_pd obj))) = engine_cpu" and sz: "library_size (pr_pd obj) \<noteq> 0"
  have lib: "at_scratchpad_mode (pd_attr (pd_base (pr_pd obj))) \<noteq> spm_user"
    using sz by (auto simp: library_size_def scratchpad_size_of_def)
  show "\<exists>m. (if pr_global obj then scratch_heap s else h) (scratchpad_base data_handle obj args s) = Some m \<and>
      library_size (pr_pd obj) \<le> m"
  proof (cases "pr_global obj")
    case True
    then have "library_size (pr_pd obj) \<in># holders live" using obj by (auto simp: holders_def)
    then show ?thesis
      using sinv True lib sz by (auto simp: scratch_inv_def scratchpad_base_def global_scratchpad_get_def dest!: bspec)
  next
    case False
    then have "pr_buffer obj \<noteq> 0" using inv obj cpu sz by (auto simp: prims_inv_def)
    then show ?thesis using owner_block [OF inv obj] False lib by (simp add: scratchpad_base_def)
  qed
next
  fix x y others
  assume "live = add_mset x (add_mset y others)" "pr_buffer x \<noteq> 0"
  then show "pr_buffer x \<noteq> pr_buffer y"
    using owners_distinct [of kind x "add_mset y others" s h y] prims_reach_inv [OF assms] by simp
next
  assume "live = {#}"
  then have inv: "prims_inv kind {#} s h" using prims_reach_inv [OF assms] by simp
  then have "scratch_inv {#} s" by (auto simp: prims_inv_def intro: scratch_reach_inv)
  then show "scratch_heap s = (\<lambda>_. None)" by (simp add: scratch_inv_def)
  have "Map.graph h = {}" using inv by (simp add: prims_inv_def finite_graph_iff_finite_dom mset_set_empty_iff)
  then show "h = (\<lambda>_. None)" by (auto simp: Map.graph_def)
qed

definition booking_example :: primitive_desc where
  "booking_example = eltwise_example\<lparr>pd_base := pd_base eltwise_example\<lparr>pd_scratchpad_registry := book_all [(3, 100, 64)]\<rparr>\<rparr>"

lemma booking_example_size: "registry_size (book_all [(3, 100, 64)]) = 191"
  by (simp add: book_all_def book_def Let_def registry_size_def rnd_up_u64_def div_up_u64_def
      minimal_alignment_def empty_registry_def)

theorem primitives_own_scratchpads_witness:
  "\<exists>obj s h m. primitive_ctor (\<lambda>_. engine_cpu) False booking_example 4096 initial_scratch (\<lambda>_. None) = (obj, s, h) \<and>
     h (scratchpad_base (\<lambda>_. 0) obj (\<lambda>_. None) s) = Some m \<and> 191 \<le> m"
proof -
  have sz: "library_size booking_example = 191"
    by (simp add: library_size_def scratchpad_size_of_def booking_example_def eltwise_example_def booking_example_size
        new_primitive_attr_def)
  obtain obj s h where c: "primitive_ctor (\<lambda>_. engine_cpu) False booking_example 4096 initial_scratch (\<lambda>_. None) = (obj, s, h)"
    by (metis prod.exhaust)
  then have obj: "\<not> pr_global obj" "pr_pd obj = booking_example" by (auto simp: primitive_ctor_def sz Let_def)
  have "prims_reach (\<lambda>_. engine_cpu) {#obj#} s h"
    by (rule prims_reach.make [OF prims_reach.none _ _ c])
      (simp_all add: fresh_block_def malloc_returns_def initial_scratch_def)
  from primitives_own_scratchpads [OF this, of "\<lambda>_. 0" "\<lambda>_. None"]
  obtain m where "h (scratchpad_base (\<lambda>_. 0) obj (\<lambda>_. None) s) = Some m" "191 \<le> m"
    using obj sz by auto
  then show ?thesis using c by blast
qed

section \<open>Scratchpads passed by the user\<close>

lemma one_dim_desc:
  assumes "0 \<le> n"
  shows "\<exists>md. dnnl_memory_desc_init_by_tag 1 (Some (arr [n])) u8 tag_x = (success, Some md) \<and> nelems md True = n"
proof -
  have row: "map_of blocking_table ''a'' = Some ([0], [], [])" by (simp add: blocking_table_def)
  have "fst (dnnl_memory_desc_init_by_tag 1 (Some (arr [n])) u8 tag_x) = success"
    unfolding tag_x_def by (subst init_by_tag_iff) (use assms row in auto)
  then obtain md where md: "dnnl_memory_desc_init_by_tag 1 (Some (arr [n])) u8 tag_x = (success, Some md)"
    unfolding tag_x_def using init_by_tag_some [of 1 "Some (arr [n])" u8 "''a''"] by auto
  obtain perm blks ixs ds where ds: "Some (arr [n]) = Some ds" and t: "map_of blocking_table ''a'' = Some (perm, blks, ixs)"
    and f: "fill_blocked (fresh_md 1 ds u8 fk_blocked) perm blks ixs = (success, md)"
    by (rule init_by_tag_cases [OF md [unfolded tag_x_def]]) simp_all
  have "padded_dims md 0 = n" "md_ndims md = 1"
    using f t row ds by (auto simp: fill_blocked_def fresh_md_def for_range_Suc fill_blocks_def Let_def ndims_def
      array_set_def array_copy_def rnd_up_def div_up_def cdiv_simps
      split: prod.splits)
  then have "nelems md True = n" by (simp add: nelems_def is_zero_def ndims_def array_product_eq)
  then show ?thesis using md by blast
qed

lemma one_dim_size:
  assumes n: "0 < n" "n < 2 ^ 63" and md: "dnnl_memory_desc_init_by_tag 1 (Some (arr [n])) u8 tag_x = (success, Some md)"
  shows "md_size md = n" "\<not> is_zero_md (Some md)"
proof -
  note d = init_by_tag_dense [OF md [unfolded tag_x_def]]
  have nel: "nelems md True = n" using one_dim_desc [of n] n(1) md by auto
  have pos: "\<And>d. d < nat 1 \<Longrightarrow> 0 < arr [n] d" using n(1) by simp
  obtain perm where dl: "dense_layout md perm" using d(1) pos by (auto simp: wf_padded_def)
  show "md_size md = n"
    by (subst dense_size [OF dl d(3)]) (use d(4-7) pos nel n in \<open>auto simp: ndims_def\<close>)
  show "\<not> is_zero_md (Some md)"
    using d(4) pos by (auto simp: is_zero_md_def memory_desc_eq_def memory_desc_base_equal_def zero_md_def)
qed

text \<open>
  C29: in the mode where the user passes the scratchpad, the descriptor a primitive descriptor
  reports for it has exactly the size of the registry, the scratchpad is an argument exactly when
  that size is not zero, and in a buffer of that size every booked block has its place.
\<close>

theorem user_scratchpad_fits:
  assumes create: "pd_create kind kind init pd0 = (success, Some pd)"
    and user: "at_scratchpad_mode (pd_attr (pd_base pd)) = spm_user"
    and reg: "pd_scratchpad_registry (pd_base pd) = book_all bs" and ok: "bookings_ok bs"
    and fits: "unat (registry_size (book_all bs)) < 2 ^ 63" "unat base + demand bs + 64 \<le> 2 ^ 64" "base \<noteq> 0"
  shows "md_size (pd_scratchpad_md (pd_base pd)) = uint (registry_size (book_all bs)) \<and>
    (scratchpad_required pd \<longleftrightarrow> registry_size (book_all bs) \<noteq> 0) \<and>
    (\<forall>(key, sz, alignment)\<in>set bs. sz \<noteq> 0 \<longrightarrow>
      unat base \<le> unat (reg_get (book_all bs) key base) \<and>
      int (unat (reg_get (book_all bs) key base) + unat sz) \<le> int (unat base) + md_size (pd_scratchpad_md (pd_base pd)))"
proof -
  let ?n = "registry_size (book_all bs)"
  have uint_small: "uint ?n < 2 ^ 63"
    using of_nat_less_iff [where 'a = int, THEN iffD2, OF fits(1)]
    by (simp only: uint_nat of_nat_power of_nat_numeral)
  obtain pd1 where pd: "pd = pd1\<lparr>pd_base := init_scratchpad_md (pd_base pd1)\<rparr>"
    using create by (auto simp: pd_create_def Let_def split: prod.splits if_splits)
  have base: "pd_base pd = init_scratchpad_md (pd_base pd1)" by (simp add: pd)
  have keep: "pd_attr (init_scratchpad_md b) = pd_attr b" "pd_scratchpad_registry (init_scratchpad_md b) = pd_scratchpad_registry b" for b
    by (auto simp: init_scratchpad_md_def Let_def split: prod.splits option.splits)
  have sz: "sint (scratchpad_size_of (pd_base pd1) spm_user) = uint ?n"
  proof -
    have "scratchpad_size_of (pd_base pd1) spm_user = ?n"
      using user reg by (simp add: base keep scratchpad_size_of_def)
    moreover have "uint ?n < 2 ^ 63" by (rule uint_small)
    then have "sint ?n = uint ?n"
      unfolding sint_uint by (intro signed_take_bit_int_eq_self) (simp_all add: order_trans [OF _ uint_ge_0])
    ultimately show ?thesis by simp
  qed
  have size: "md_size (pd_scratchpad_md (pd_base pd)) = uint ?n \<and> (scratchpad_required pd \<longleftrightarrow> ?n \<noteq> 0)"
  proof (cases "?n = 0")
    case True
    then have "pd_scratchpad_md (pd_base pd) = zero_md"
      by (simp add: base init_scratchpad_md_def Let_def sz dnnl_memory_desc_init_by_tag_def)
    then show ?thesis
      using True by (simp add: scratchpad_required_def base_scratchpad_md_def md_size_def is_zero_def zero_md_def [THEN arg_cong, of md_ndims])
  next
    case False
    then have n: "0 < uint ?n" "uint ?n < 2 ^ 63"
      using uint_small uint_ge_0 [of ?n] by (auto simp: order_less_le uint_0_iff)
    then obtain md where md: "dnnl_memory_desc_init_by_tag 1 (Some (arr [uint ?n])) u8 tag_x = (success, Some md)"
      using one_dim_desc [of "uint ?n"] by auto
    then have "pd_scratchpad_md (pd_base pd) = md"
      using n(1) by (simp add: base init_scratchpad_md_def Let_def sz)
    then show ?thesis
      using one_dim_size [OF n md] False by (simp add: scratchpad_required_def base_scratchpad_md_def)
  qed
  have "unat base \<le> unat (reg_get (book_all bs) key base) \<and>
      int (unat (reg_get (book_all bs) key base) + unat sz) \<le> int (unat base) + uint ?n"
    if "(key, sz, alignment) \<in> set bs" "sz \<noteq> 0" for key sz alignment
    using block_in_buffer [OF ok fits(3,2) that] unfolding uint_nat by linarith
  then show ?thesis using size by auto
qed

theorem user_scratchpad_fits_witness:
  "\<exists>pd. pd_create pk_eltwise pk_eltwise (\<lambda>pd. (success, pd))
      (booking_example\<lparr>pd_base := pd_base booking_example\<lparr>pd_attr := new_primitive_attr\<lparr>at_scratchpad_mode := spm_user\<rparr>\<rparr>\<rparr>) =
      (success, Some pd) \<and>
    md_size (pd_scratchpad_md (pd_base pd)) = 191 \<and> scratchpad_required pd \<and>
    int (unat (reg_get (book_all [(3, 100, 64)]) 3 4096) + 100) \<le> 4096 + 191"
proof -
  let ?given = "booking_example\<lparr>pd_base := pd_base booking_example\<lparr>pd_attr := new_primitive_attr\<lparr>at_scratchpad_mode := spm_user\<rparr>\<rparr>\<rparr>"
  let ?pd = "?given\<lparr>pd_base := init_scratchpad_md (pd_base ?given)\<rparr>"
  have create: "pd_create pk_eltwise pk_eltwise (\<lambda>pd. (success, pd)) ?given = (success, Some ?pd)"
    by (simp add: pd_create_def)
  have keep: "pd_attr (init_scratchpad_md b) = pd_attr b" "pd_scratchpad_registry (init_scratchpad_md b) = pd_scratchpad_registry b" for b
    by (auto simp: init_scratchpad_md_def Let_def split: prod.splits option.splits)
  have ok: "bookings_ok [(3, 100, 64)]"
    by (auto simp: bookings_ok_def intro: exI [of _ 6])
  have "unat (4096 :: u64) + demand [(3, 100, 64)] + 64 \<le> 2 ^ 64"
    by (simp add: demand_def booked_def minimal_alignment_def)
  from user_scratchpad_fits [OF create _ _ ok _ this] have
    "md_size (pd_scratchpad_md (pd_base ?pd)) = 191 \<and> scratchpad_required ?pd \<and>
      int (unat (reg_get (book_all [(3, 100, 64)]) 3 4096) + 100) \<le> 4096 + 191"
    by (simp add: keep booking_example_size) (simp add: booking_example_def)
  then show ?thesis using create by blast
qed

text \<open>An execution: refused arguments leave everything alone, accepted ones reach the implementation.\<close>

lemma execute_rejects:
  assumes "stream \<noteq> Some (pd_engine (pd_base (pr_pd obj))) \<or> fst (cvt_primtive_args (pr_pd obj) nargs c_args (\<lambda>_. None)) \<noteq> success"
  shows "dnnl_primitive_execute kind data_handle impl (Some obj) stream nargs c_args s st = (invalid_arguments, st)"
  using assms
  by (auto simp: dnnl_primitive_execute_def cvt_primtive_args_def Let_def split: option.splits prod.splits if_splits)

lemma execute_runs:
  assumes ok: "counts_ok (pd_members (pr_pd obj))"
    and used: "distinct (filter (\<lambda>a. a \<in> pd_arguments (pr_pd obj)) (map ea_arg (passed nargs c_args)))"
      "set (filter (\<lambda>a. a \<in> pd_arguments (pr_pd obj)) (map ea_arg (passed nargs c_args))) = pd_arguments (pr_pd obj)"
  obtains args where "dom args = pd_arguments (pr_pd obj)"
    "dnnl_primitive_execute kind data_handle impl (Some obj) (Some (pd_engine (pd_base (pr_pd obj)))) nargs (Some c_args) s st =
      primitive_execute kind data_handle impl obj args s st"
proof -
  have t: "taken (v_arg_usage (pd_virtual (pr_pd obj))) (passed nargs c_args) =
      filter (\<lambda>a. a \<in> pd_arguments (pr_pd obj)) (map ea_arg (passed nargs c_args))"
    using arguments.used_iff [OF ok] by (simp add: taken_def pd_arguments_def)
  have s: "fst (cvt_primtive_args (pr_pd obj) nargs (Some c_args) (\<lambda>_. None)) = success"
    using cvt_success_iff(1) [OF ok, of nargs c_args] used unfolding t by simp
  show thesis
    by (rule that [of "snd (cvt_primtive_args (pr_pd obj) nargs (Some c_args) (\<lambda>_. None))"])
      (use s cvt_success_iff(2) [OF ok s] in \<open>auto simp: dnnl_primitive_execute_def split: prod.splits\<close>)
qed

end
