(* ===== verification/Primitive_Iterator.thy ===== *)
theory Primitive_Iterator
  imports Primitive_Desc
begin

text \<open>
  The search for an implementation, \<open>src/src/common/primitive_iterator.hpp\<close> and
  \<open>primitive_iterator.cpp\<close>: an iterator walks the engine's list of implementations and stops at
  those that accept the operation descriptor. The list is the array up to its terminating null
  pointer; a call of that pointer, or of anything behind it, is \<open>None\<close>.
\<close>

section \<open>The iterator\<close>

text \<open>
  An implementation's \<open>create\<close>: a status and the descriptor it wrote, if any, for an operation
  descriptor, attributes, an engine and a forward hint.
\<close>

type_synonym pd_create_f = "op_desc \<Rightarrow> primitive_attr \<Rightarrow> nat \<Rightarrow> primitive_desc option \<Rightarrow> status \<times> primitive_desc option"

record pd_iterator =
  it_idx :: int
  it_engine :: nat
  it_pd :: "primitive_desc option"
  it_op_desc :: op_desc
  it_attr :: primitive_attr
  it_hint_fwd_pd :: "primitive_desc option"
  it_impl_list :: "pd_create_f list"
  it_last_idx :: int

text \<open>\<open>while (impl_list_[last_idx_] != nullptr) ++last_idx_;\<close>\<close>

function count_impls :: "pd_create_f list \<Rightarrow> int \<Rightarrow> int" where
  "count_impls impls last_idx =
     (if 0 \<le> last_idx \<and> nat last_idx < length impls then count_impls impls (last_idx + 1) else last_idx)"
  by pat_completeness auto
termination
  by (relation "measure (\<lambda>(impls, last_idx). nat (int (length impls) - last_idx))") auto

declare count_impls.simps [simp del]

definition iterator_ctor :: "(nat \<Rightarrow> pd_create_f list) \<Rightarrow> nat \<Rightarrow> op_desc \<Rightarrow> primitive_attr option \<Rightarrow>
    primitive_desc option \<Rightarrow> pd_iterator" where
  "iterator_ctor implementation_list engine op_desc attr hint =
     \<lparr>it_idx = -1, it_engine = engine, it_pd = None, it_op_desc = op_desc,
      it_attr = (case attr of Some a \<Rightarrow> a | None \<Rightarrow> new_primitive_attr), it_hint_fwd_pd = hint,
      it_impl_list = implementation_list engine, it_last_idx = count_impls (implementation_list engine) 0\<rparr>"

text \<open>\<open>*this == end()\<close>: the end has the same engine and the index \<open>last_idx_\<close>.\<close>

definition iterator_at_end :: "pd_iterator \<Rightarrow> bool" where
  "iterator_at_end it \<longleftrightarrow> it_idx it = it_last_idx it"

text \<open>The loop of \<open>operator++\<close>; an implementation that fails writes no descriptor unless it does.\<close>

function iterator_search :: "pd_iterator \<Rightarrow> pd_iterator option" where
  "iterator_search it =
     (let i = it_idx it + 1
      in if i = it_last_idx it then Some (it\<lparr>it_idx := i\<rparr>)
         else if 0 \<le> i \<and> nat i < length (it_impl_list it) then
           let (s, pd) = (it_impl_list it ! nat i) (it_op_desc it) (it_attr it) (it_engine it) (it_hint_fwd_pd it);
               it' = it\<lparr>it_idx := i, it_pd := (case pd of None \<Rightarrow> it_pd it | Some pd \<Rightarrow> Some pd)\<rparr>
           in if s = success then Some it' else iterator_search it'
         else None)"
  by pat_completeness auto
termination
  by (relation "measure (\<lambda>it. nat (int (length (it_impl_list it)) - it_idx it))") auto

declare iterator_search.simps [simp del]

definition iterator_increment :: "pd_iterator \<Rightarrow> pd_iterator option" where
  "iterator_increment it = iterator_search (if it_pd it \<noteq> None then it\<lparr>it_pd := None\<rparr> else it)"

text \<open>\<open>operator*\<close>: the copy a clone makes is the same descriptor.\<close>

definition iterator_deref :: "pd_iterator \<Rightarrow> primitive_desc option" where
  "iterator_deref it = (if iterator_at_end it \<or> it_pd it = None then None else it_pd it)"

section \<open>The C API\<close>

text \<open>\<open>None\<close> where the call is undefined.\<close>

definition dnnl_primitive_desc_iterator_create :: "(nat \<Rightarrow> pd_create_f list) \<Rightarrow> op_desc \<Rightarrow> primitive_attr option \<Rightarrow>
    nat \<Rightarrow> primitive_desc option \<Rightarrow> (status \<times> pd_iterator option) option" where
  "dnnl_primitive_desc_iterator_create impls op_desc attr engine hint =
     (case iterator_increment (iterator_ctor impls engine op_desc attr hint) of
        None \<Rightarrow> None
      | Some it \<Rightarrow> Some (if iterator_at_end it then (unimplemented, None) else (success, Some it)))"

definition dnnl_primitive_desc_iterator_next :: "pd_iterator option \<Rightarrow> (status \<times> pd_iterator option) option" where
  "dnnl_primitive_desc_iterator_next iterator =
     (case iterator of
        None \<Rightarrow> Some (invalid_arguments, None)
      | Some it \<Rightarrow> (case iterator_increment it of
            None \<Rightarrow> None
          | Some it \<Rightarrow> Some (if iterator_at_end it then iterator_ends else success, Some it)))"

definition dnnl_primitive_desc_iterator_fetch :: "pd_iterator option \<Rightarrow> primitive_desc option" where
  "dnnl_primitive_desc_iterator_fetch iterator = (case iterator of None \<Rightarrow> None | Some it \<Rightarrow> iterator_deref it)"

definition dnnl_primitive_desc_create :: "(nat \<Rightarrow> pd_create_f list) \<Rightarrow> op_desc \<Rightarrow> primitive_attr option \<Rightarrow>
    nat \<Rightarrow> primitive_desc option \<Rightarrow> (status \<times> primitive_desc option) option" where
  "dnnl_primitive_desc_create impls op_desc attr engine hint =
     (case iterator_increment (iterator_ctor impls engine op_desc attr hint) of
        None \<Rightarrow> None
      | Some it \<Rightarrow> Some (if iterator_at_end it then (unimplemented, None)
          else case iterator_deref it of None \<Rightarrow> (out_of_memory, None) | Some pd \<Rightarrow> (success, Some pd)))"

definition dnnl_primitive_desc_clone :: "primitive_desc option \<Rightarrow> status \<times> primitive_desc option" where
  "dnnl_primitive_desc_clone existing = (case existing of None \<Rightarrow> (invalid_arguments, None) | Some pd \<Rightarrow> (success, Some pd))"

text \<open>\<open>k\<close> calls of \<open>next\<close>.\<close>

fun nexts :: "nat \<Rightarrow> pd_iterator \<Rightarrow> (status \<times> pd_iterator option) option" where
  "nexts 0 it = Some (success, Some it)"
| "nexts (Suc k) it = (case nexts k it of None \<Rightarrow> None | Some (_, it) \<Rightarrow> dnnl_primitive_desc_iterator_next it)"

section \<open>The interface of an implementation\<close>

text \<open>The descriptors an iterator is to visit.\<close>

definition accepted :: "op_desc \<Rightarrow> primitive_attr \<Rightarrow> nat \<Rightarrow> primitive_desc option \<Rightarrow> pd_create_f list \<Rightarrow> primitive_desc list" where
  "accepted d a e h impls = List.map_filter (\<lambda>f. case f d a e h of (s, pd) \<Rightarrow> if s = success then pd else None) impls"

text \<open>An implementation writes a descriptor when it succeeds, and only then.\<close>

locale implementations =
  fixes impls :: "pd_create_f list"
  assumes writes: "f \<in> set impls \<Longrightarrow> f d a e h = (s, pd) \<Longrightarrow> pd \<noteq> None \<longleftrightarrow> s = success"
begin

definition at_position :: "int \<Rightarrow> pd_iterator \<Rightarrow> bool" where
  "at_position i it \<longleftrightarrow> it_idx it = i \<and> it_impl_list it = impls \<and> it_last_idx it = int (length impls)"

definition left :: "pd_iterator \<Rightarrow> primitive_desc list" where
  "left it = accepted (it_op_desc it) (it_attr it) (it_engine it) (it_hint_fwd_pd it) (drop (nat (it_idx it + 1)) impls)"

lemma search:
  assumes "at_position i it" "-1 \<le> i" "i < int (length impls)" "it_pd it = None"
  shows "\<exists>it'. iterator_search it = Some it' \<and>
    (case left it of
       [] \<Rightarrow> at_position (int (length impls)) it' \<and> it_pd it' = None
     | pd # pds \<Rightarrow> (\<exists>j. at_position j it' \<and> i < j \<and> j < int (length impls)) \<and> it_pd it' = Some pd \<and> left it' = pds)"
  using assms
proof (induction "nat (int (length impls) - i)" arbitrary: it i rule: less_induct)
  case less
  note pos = less.prems(1) [unfolded at_position_def]
  show ?case
  proof (cases "i + 1 = int (length impls)")
    case True
    then have "left it = []" using pos by (simp add: left_def accepted_def List.map_filter_simps)
    then show ?thesis
      using True pos less.prems(4) by (subst iterator_search.simps) (simp add: Let_def at_position_def)
  next
    case False
    then have in_range: "0 \<le> i + 1" "nat (i + 1) < length impls" using less.prems(2,3) by auto
    let ?f = "impls ! nat (i + 1)"
    obtain s pd where call: "?f (it_op_desc it) (it_attr it) (it_engine it) (it_hint_fwd_pd it) = (s, pd)"
      by (metis prod.exhaust)
    let ?it = "it\<lparr>it_idx := i + 1, it_pd := pd\<rparr>"
    have w: "pd \<noteq> None \<longleftrightarrow> s = success" by (rule writes [OF nth_mem call]) (rule in_range)
    have upd: "(case pd of None \<Rightarrow> it_pd it | Some pd \<Rightarrow> Some pd) = pd"
      using less.prems(4) by (simp split: option.split)
    have step: "iterator_search it = (if s = success then Some ?it else iterator_search ?it)"
      using False in_range pos call upd by (subst iterator_search.simps) (simp add: Let_def)
    have "nat (i + 1 + 1) = Suc (nat (i + 1))" using in_range by simp
    then have "drop (nat (i + 1)) impls = ?f # drop (nat (i + 1 + 1)) impls"
      using in_range by (simp only: Cons_nth_drop_Suc)
    then have left: "left it = (case pd of None \<Rightarrow> [] | Some p \<Rightarrow> [p]) @ left ?it"
      using pos call w by (auto simp: left_def accepted_def List.map_filter_simps split: option.split)
    show ?thesis
    proof (cases "s = success")
      case True
      then obtain p where "pd = Some p" using w by auto
      then show ?thesis using True step left pos in_range by (auto simp: at_position_def intro!: exI [of _ "i + 1"])
    next
      case False
      then have "pd = None" using w by auto
      have ih: "\<exists>it'. iterator_search ?it = Some it' \<and>
        (case left ?it of
           [] \<Rightarrow> at_position (int (length impls)) it' \<and> it_pd it' = None
         | p # pds \<Rightarrow> (\<exists>j. at_position j it' \<and> i + 1 < j \<and> j < int (length impls)) \<and> it_pd it' = Some p \<and> left it' = pds)"
        by (rule less.hyps) (use in_range pos \<open>pd = None\<close> in \<open>auto simp: at_position_def\<close>)
      then show ?thesis
        using step False left \<open>pd = None\<close> by (fastforce split: list.splits)
    qed
  qed
qed

lemma increment:
  assumes "at_position i it" "-1 \<le> i" "i < int (length impls)"
  shows "\<exists>it'. iterator_increment it = Some it' \<and>
    (case left it of
       [] \<Rightarrow> at_position (int (length impls)) it' \<and> it_pd it' = None
     | pd # pds \<Rightarrow> (\<exists>j. at_position j it' \<and> i < j \<and> j < int (length impls)) \<and> it_pd it' = Some pd \<and> left it' = pds)"
proof -
  let ?it = "if it_pd it \<noteq> None then it\<lparr>it_pd := None\<rparr> else it"
  have "at_position i ?it" "it_pd ?it = None" "left ?it = left it"
    using assms(1) by (auto simp: at_position_def left_def)
  then show ?thesis using search [of i ?it] assms(2,3) by (simp add: iterator_increment_def)
qed

lemma past_the_end: "at_position (int (length impls)) it \<Longrightarrow> iterator_increment it = None"
  by (auto simp add: iterator_increment_def iterator_search.simps Let_def at_position_def nat_add_distrib)

text \<open>Where the iterator is after \<open>k\<close> calls of \<open>next\<close> behind the first acceptance \<open>p\<close>.\<close>

lemma nexts_visit:
  assumes "at_position i it" "0 \<le> i" "i < int (length impls)" "it_pd it = Some p" "k \<le> length (left it)"
  shows "\<exists>it' j. nexts k it = Some (success, Some it') \<and> at_position j it' \<and> 0 \<le> j \<and> j < int (length impls) \<and>
    it_pd it' = Some ((p # left it) ! k) \<and> left it' = drop k (left it)"
  using assms(5)
proof (induction k)
  case 0
  then show ?case using assms(1-4) by auto
next
  case (Suc k)
  then obtain it' j where it': "nexts k it = Some (success, Some it')" "at_position j it'" "0 \<le> j"
      "j < int (length impls)" "left it' = drop k (left it)" by auto
  have "left it' \<noteq> []" using it'(5) Suc.prems by simp
  then obtain q qs where q: "left it' = q # qs" by (meson neq_Nil_conv)
  have "q = left it ! k" "qs = drop (Suc k) (left it)"
    using q it'(5) Suc.prems by (metis Cons_nth_drop_Suc Suc_le_lessD list.inject)+
  moreover obtain it'' j' where "iterator_increment it' = Some it''" "at_position j' it''" "j < j'"
      "j' < int (length impls)" "it_pd it'' = Some q" "left it'' = qs"
    using increment [OF it'(2)] it'(3,4) q by auto
  ultimately show ?case
    using it'(1,3) by (auto simp: dnnl_primitive_desc_iterator_next_def iterator_at_end_def at_position_def)
qed

lemma nexts_end:
  assumes "at_position i it" "0 \<le> i" "i < int (length impls)" "it_pd it = Some p"
  shows "\<exists>it'. nexts (Suc (length (left it))) it = Some (iterator_ends, Some it') \<and> iterator_deref it' = None \<and>
    nexts (Suc (Suc (length (left it)))) it = None"
proof -
  obtain it' j where it': "nexts (length (left it)) it = Some (success, Some it')" "at_position j it'" "0 \<le> j"
      "j < int (length impls)" "left it' = []"
    using nexts_visit [OF assms, of "length (left it)"] by auto
  obtain it'' where "iterator_increment it' = Some it''" "at_position (int (length impls)) it''" "it_pd it'' = None"
    using increment [OF it'(2)] it'(3,4,5) by auto
  then show ?thesis
    using it'(1) past_the_end [of it'']
    by (auto simp: dnnl_primitive_desc_iterator_next_def iterator_at_end_def at_position_def iterator_deref_def)
qed

lemma deref_here:
  "at_position j it \<Longrightarrow> j < int (length impls) \<Longrightarrow> it_pd it = Some p \<Longrightarrow> iterator_deref it = Some p"
  by (simp add: iterator_deref_def iterator_at_end_def at_position_def)

lemma count_impls_length: "0 \<le> n \<Longrightarrow> n \<le> int (length impls) \<Longrightarrow> count_impls impls n = int (length impls)"
proof (induction "nat (int (length impls) - n)" arbitrary: n rule: less_induct)
  case less
  then show ?case by (subst count_impls.simps) (auto intro: less.hyps)
qed

lemma iterator_start:
  assumes "impl_lists e = impls"
  shows "at_position (-1) (iterator_ctor impl_lists e d a h) \<and>
    left (iterator_ctor impl_lists e d a h) = accepted d (case a of Some a \<Rightarrow> a | None \<Rightarrow> new_primitive_attr) e h impls"
  using assms count_impls_length [of 0] by (simp add: at_position_def left_def iterator_ctor_def)

lemma create_none:
  assumes "impl_lists e = impls" "accepted d (case a of Some a \<Rightarrow> a | None \<Rightarrow> new_primitive_attr) e h impls = []"
  shows "dnnl_primitive_desc_iterator_create impl_lists d a e h = Some (unimplemented, None) \<and>
    dnnl_primitive_desc_create impl_lists d a e h = Some (unimplemented, None)"
proof -
  obtain it where "iterator_increment (iterator_ctor impl_lists e d a h) = Some it" "at_position (int (length impls)) it"
    using increment [of "-1" "iterator_ctor impl_lists e d a h"] iterator_start [of impl_lists e d a h, OF assms(1)] assms(2)
    by auto
  then show ?thesis
    by (simp add: dnnl_primitive_desc_iterator_create_def dnnl_primitive_desc_create_def iterator_at_end_def at_position_def)
qed

lemma create_some:
  assumes "impl_lists e = impls" "accepted d (case a of Some a \<Rightarrow> a | None \<Rightarrow> new_primitive_attr) e h impls = p # ps"
  shows "dnnl_primitive_desc_create impl_lists d a e h = Some (success, Some p)"
    and "\<exists>it j. dnnl_primitive_desc_iterator_create impl_lists d a e h = Some (success, Some it) \<and> at_position j it \<and> 0 \<le> j \<and>
      j < int (length impls) \<and> it_pd it = Some p \<and> left it = ps"
proof -
  obtain it j where it: "iterator_increment (iterator_ctor impl_lists e d a h) = Some it" "at_position j it" "-1 < j"
      "j < int (length impls)" "it_pd it = Some p" "left it = ps"
    using increment [of "-1" "iterator_ctor impl_lists e d a h"] iterator_start [of impl_lists e d a h, OF assms(1)] assms(2) by auto
  then show "dnnl_primitive_desc_create impl_lists d a e h = Some (success, Some p)"
    using deref_here [OF it(2,4,5)]
    by (simp add: dnnl_primitive_desc_create_def iterator_at_end_def at_position_def)
  show "\<exists>it j. dnnl_primitive_desc_iterator_create impl_lists d a e h = Some (success, Some it) \<and> at_position j it \<and> 0 \<le> j \<and>
      j < int (length impls) \<and> it_pd it = Some p \<and> left it = ps"
    using it by (auto simp: dnnl_primitive_desc_iterator_create_def iterator_at_end_def at_position_def)
qed

lemma visits:
  assumes "impl_lists e = impls" and "accepted d (case a of Some a \<Rightarrow> a | None \<Rightarrow> new_primitive_attr) e h impls = p # ps"
  shows "\<exists>it. dnnl_primitive_desc_iterator_create impl_lists d a e h = Some (success, Some it) \<and>
    (\<forall>k<length (p # ps). \<exists>it'. nexts k it = Some (success, Some it') \<and>
      dnnl_primitive_desc_iterator_fetch (Some it') = Some ((p # ps) ! k)) \<and>
    (\<exists>it'. nexts (length (p # ps)) it = Some (iterator_ends, Some it') \<and>
      dnnl_primitive_desc_iterator_fetch (Some it') = None) \<and>
    nexts (Suc (length (p # ps))) it = None"
proof -
  obtain it j where it: "dnnl_primitive_desc_iterator_create impl_lists d a e h = Some (success, Some it)" "at_position j it"
      "0 \<le> j" "j < int (length impls)" "it_pd it = Some p" "left it = ps"
    using create_some(2) [of impl_lists e d a h, OF assms] by blast
  have "\<exists>it'. nexts k it = Some (success, Some it') \<and>
      dnnl_primitive_desc_iterator_fetch (Some it') = Some ((p # ps) ! k)" if "k < length (p # ps)" for k
    using nexts_visit [OF it(2-5), of k] that it(6) deref_here
    by (auto simp: dnnl_primitive_desc_iterator_fetch_def less_Suc_eq_le)
  then show ?thesis
    using it(1,6) nexts_end [OF it(2-5)] by (auto simp: dnnl_primitive_desc_iterator_fetch_def)
qed

end

section \<open>The implementations of the library\<close>

text \<open>The first member of every operation descriptor.\<close>

fun op_desc_kind :: "op_desc \<Rightarrow> primitive_kind" where
  "op_desc_kind (Op_convolution d) = cd_primitive_kind d"
| "op_desc_kind (Op_pooling d) = pl_primitive_kind d"
| "op_desc_kind (Op_inner_product d) = ipd_primitive_kind d"
| "op_desc_kind (Op_eltwise d) = el_primitive_kind d"
| "op_desc_kind (Op_softmax d) = sm_primitive_kind d"
| "op_desc_kind (Op_shuffle d) = sh_primitive_kind d"
| "op_desc_kind (Op_lrn d) = lr_primitive_kind d"
| "op_desc_kind (Op_batch_normalization d) = bn_primitive_kind d"
| "op_desc_kind (Op_layer_normalization d) = ln_primitive_kind d"
| "op_desc_kind (Op_rnn d) = rn_primitive_kind d"
| "op_desc_kind (Op_gemm d) = ge_primitive_kind d"
| "op_desc_kind (Op_reorder d) = re_primitive_kind d"
| "op_desc_kind (Op_concat d) = cc_primitive_kind d"
| "op_desc_kind (Op_sum d) = su_primitive_kind d"

text \<open>An entry of an implementation list, \<open>&primitive_desc_t::create<pd_t>\<close>: the kind, the
  constructor and \<open>init\<close> of \<open>pd_t\<close>.\<close>

record impl_class =
  ic_base_pkind :: primitive_kind
  ic_ctor :: "op_desc \<Rightarrow> primitive_attr \<Rightarrow> nat \<Rightarrow> primitive_desc option \<Rightarrow> primitive_desc"
  ic_init :: "primitive_desc \<Rightarrow> status \<times> primitive_desc"

definition impl_create :: "impl_class \<Rightarrow> pd_create_f" where
  "impl_create c = (\<lambda>d a e h. pd_create (ic_base_pkind c) (op_desc_kind d) (ic_init c) (ic_ctor c d a e h))"

interpretation library: implementations "map impl_create classes" for classes
proof
  fix f d a e h s pd
  assume "f \<in> set (map impl_create classes)" and call: "f d a e h = (s, pd)"
  then obtain c where "f = impl_create c" by auto
  with call show "pd \<noteq> None \<longleftrightarrow> s = success"
    by (auto simp: impl_create_def pd_create_def Let_def split: if_splits prod.splits)
qed

text \<open>
  C13: over any list of implementations the iteration ends: it yields the descriptors of exactly the
  implementations that accept the operation, in the order of the list, then reports the end, after
  as many calls as there are such implementations; one more call runs past the list. Making a
  descriptor directly takes the first of them. Without any, both report \<open>unimplemented\<close>.
\<close>

theorem iterator_visits_accepted:
  assumes "impl_lists e = map impl_create classes"
    and "pds = accepted d (case a of Some a \<Rightarrow> a | None \<Rightarrow> new_primitive_attr) e h (impl_lists e)"
  shows "dnnl_primitive_desc_create impl_lists d a e h =
      Some (case pds of [] \<Rightarrow> (unimplemented, None) | pd # _ \<Rightarrow> (success, Some pd)) \<and>
    (case pds of
       [] \<Rightarrow> dnnl_primitive_desc_iterator_create impl_lists d a e h = Some (unimplemented, None)
     | _ \<Rightarrow> \<exists>it. dnnl_primitive_desc_iterator_create impl_lists d a e h = Some (success, Some it) \<and>
         (\<forall>k<length pds. \<exists>it'. nexts k it = Some (success, Some it') \<and>
           dnnl_primitive_desc_iterator_fetch (Some it') = Some (pds ! k)) \<and>
         (\<exists>it'. nexts (length pds) it = Some (iterator_ends, Some it') \<and>
           dnnl_primitive_desc_iterator_fetch (Some it') = None) \<and>
         nexts (Suc (length pds)) it = None)"
proof (cases pds)
  case Nil
  then show ?thesis using library.create_none [of impl_lists e classes d a h] assms by simp
next
  case (Cons p ps)
  have acc: "accepted d (case a of Some a \<Rightarrow> a | None \<Rightarrow> new_primitive_attr) e h (map impl_create classes) = p # ps"
    using assms Cons by simp
  show ?thesis
    using library.create_some(1) [of impl_lists e classes d a h, OF assms(1) acc]
      library.visits [of impl_lists e classes d a h, OF assms(1) acc] unfolding Cons by simp
qed

definition eltwise_class :: "status \<Rightarrow> string \<Rightarrow> impl_class" where
  "eltwise_class st name =
     \<lparr>ic_base_pkind = pk_eltwise,
      ic_ctor = (\<lambda>d a e h. \<lparr>pd_base = \<lparr>pd_engine = e, pd_attr = a, pd_kind = pk_eltwise, pd_scratchpad_md = zero_md,
          pd_scratchpad_registry = empty_registry, pd_name = name\<rparr>,
        pd_members = Eltwise_fwd (case d of Op_eltwise d \<Rightarrow> eltwise_pd_ctor d)\<rparr>),
      ic_init = (\<lambda>pd. (st, pd))\<rparr>"

theorem iterator_visits_accepted_witness:
  "\<exists>it. dnnl_primitive_desc_iterator_create
      (\<lambda>_. map impl_create [eltwise_class unimplemented ''jit'', eltwise_class success ''ref''])
      (Op_eltwise \<lparr>el_primitive_kind = pk_eltwise, el_prop_kind = forward_training, el_alg_kind = eltwise_relu,
        el_data_desc = zero_md, el_diff_data_desc = zero_md, el_alpha = 0, el_beta = 0\<rparr>) None 0 None =
      Some (success, Some it) \<and>
    map_option (\<lambda>pd. pd_name (pd_base pd)) (dnnl_primitive_desc_iterator_fetch (Some it)) = Some ''ref'' \<and>
    (\<exists>it'. nexts 1 it = Some (iterator_ends, Some it'))"
proof -
  let ?cs = "[eltwise_class unimplemented ''jit'', eltwise_class success ''ref'']"
  let ?d = "Op_eltwise \<lparr>el_primitive_kind = pk_eltwise, el_prop_kind = forward_training, el_alg_kind = eltwise_relu,
        el_data_desc = zero_md, el_diff_data_desc = zero_md, el_alpha = 0, el_beta = 0\<rparr>"
  let ?acc = "accepted ?d new_primitive_attr 0 None (map impl_create ?cs)"
  have keep: "pd_name (init_scratchpad_md b) = pd_name b" for b
    by (auto simp: init_scratchpad_md_def Let_def split: prod.splits option.splits)
  obtain pd where acc: "?acc = [pd]" and name: "pd_name (pd_base pd) = ''ref''"
    by (auto simp: accepted_def List.map_filter_simps impl_create_def eltwise_class_def pd_create_def keep)
  have "[pd] = accepted ?d (case None of Some a \<Rightarrow> a | None \<Rightarrow> new_primitive_attr) 0 None ((\<lambda>_. map impl_create ?cs) 0)"
    using acc by simp
  from iterator_visits_accepted [OF refl this] obtain it where
    "dnnl_primitive_desc_iterator_create (\<lambda>_. map impl_create ?cs) ?d None 0 None = Some (success, Some it)"
    "\<exists>it'. nexts 0 it = Some (success, Some it') \<and> dnnl_primitive_desc_iterator_fetch (Some it') = Some pd"
    "\<exists>it'. nexts 1 it = Some (iterator_ends, Some it')"
    by auto
  then show ?thesis using name by auto
qed

end
