(* ===== verification/Reorder_Problem.thy ===== *)
theory Reorder_Problem
  imports Ref_Sum
begin

text \<open>
  The reorder problem of \<open>src/src/cpu/jit_uni_reorder_utils.cpp\<close>: a reorder between two blocked
  descriptors becomes a nest of loops (\<open>prb_t\<close>), each with a trip count and the strides it moves
  by in the input, in the output and in the scales. The theory models how \<open>prb_init\<close> finds the
  nest and how it is sorted, folded, split and permuted. What a nest means is the multiset
  \<open>copies\<close> of the triples it visits; the transformations do not change it, and the nest of
  \<open>prb_init\<close> visits the addresses of every padded element once.

  Counts of elements and offsets are unbounded; the conversions to \<open>int\<close> and \<open>size_t\<close> that
  truncate a dimension are written out. A write outside an array is the result \<open>None\<close>.
\<close>

section \<open>The problem\<close>

definition max_ndims :: nat where
  "max_ndims = DNNL_MAX_NDIMS"

record node =
  nd_n :: nat
  nd_is :: int
  nd_os :: int
  nd_ss :: int

datatype scale_type = Scale_none | Scale_common | Scale_many

record prb =
  prb_itype :: data_type
  prb_otype :: data_type
  prb_ndims :: nat
  prb_nodes :: "node carray"
  prb_ioff :: int
  prb_ooff :: int
  prb_scale_type :: scale_type
  prb_beta :: float_bits

definition zero_node :: node where
  "zero_node = \<lparr>nd_n = 0, nd_is = 0, nd_os = 0, nd_ss = 0\<rparr>"

definition zero_prb :: prb where
  "zero_prb = \<lparr>prb_itype = dt_undef, prb_otype = dt_undef, prb_ndims = 0, prb_nodes = (\<lambda>_. zero_node),
     prb_ioff = 0, prb_ooff = 0, prb_scale_type = Scale_none, prb_beta = 0\<rparr>"

record layout_desc =
  ld_dt :: data_type
  ld_ndims :: nat
  ld_id :: "nat carray"
  ld_dims :: "int carray"
  ld_strides :: "int carray"

definition zero_layout_desc :: layout_desc where
  "zero_layout_desc = \<lparr>ld_dt = dt_undef, ld_ndims = 0, ld_id = (\<lambda>_. 0), ld_dims = (\<lambda>_. 0), ld_strides = (\<lambda>_. 0)\<rparr>"

section \<open>From a descriptor to its layout\<close>

text \<open>The lambda \<open>P\<close>; its parameter \<open>dim\<close> is an \<open>int\<close>.\<close>

definition ld_push :: "nat \<Rightarrow> int \<Rightarrow> int \<Rightarrow> layout_desc \<Rightarrow> layout_desc option" where
  "ld_push i dim stride ld =
     (if ld_ndims ld < max_ndims
      then Some (ld\<lparr>ld_id := (ld_id ld)(ld_ndims ld := i), ld_dims := (ld_dims ld)(ld_ndims ld := int32_cast dim),
        ld_strides := (ld_strides ld)(ld_ndims ld := stride), ld_ndims := Suc (ld_ndims ld)\<rparr>)
      else None)"

definition ld_block :: "blocking_desc \<Rightarrow> nat \<Rightarrow> nat \<Rightarrow> (int \<times> layout_desc) option \<Rightarrow> (int \<times> layout_desc) option" where
  "ld_block bd d iblk st =
     Option.bind st (\<lambda>(stride, ld).
       Option.bind (if inner_idxs bd iblk = d then ld_push d (inner_blks bd iblk) stride ld else Some ld)
         (\<lambda>ld. Some (stride * inner_blks bd iblk, ld)))"

definition swap_entries :: "nat \<Rightarrow> nat \<Rightarrow> 'a carray \<Rightarrow> 'a carray" where
  "swap_entries i j a = a(i := a j, j := a i)"

definition ld_reverse :: "nat \<Rightarrow> layout_desc \<Rightarrow> layout_desc" where
  "ld_reverse ld_ndims_start ld =
     for_upto ((ld_ndims ld - ld_ndims_start) div 2)
       (\<lambda>ld_d ld.
          let idx0 = ld_ndims_start + ld_d; idx1 = ld_ndims ld - 1 - ld_d
          in ld\<lparr>ld_dims := swap_entries idx0 idx1 (ld_dims ld), ld_strides := swap_entries idx0 idx1 (ld_strides ld)\<rparr>) ld"

definition ld_dim :: "memory_desc \<Rightarrow> dim_t carray \<Rightarrow> nat \<Rightarrow> layout_desc \<Rightarrow> layout_desc option" where
  "ld_dim md blocks d ld =
     (let bd = blocking md; start = ld_ndims ld
      in Option.bind
           (if blocks d \<noteq> 1 then map_option snd (for_down (inner_nblks bd) (ld_block bd d) (Some (1, ld))) else Some ld)
           (\<lambda>ld. map_option (ld_reverse start) (ld_push d (padded_dims md d sdiv blocks d) (blk_strides bd d) ld)))"

definition cvt_mem_desc_to_layout_desc :: "memory_desc \<Rightarrow> (status \<times> layout_desc) option" where
  "cvt_mem_desc_to_layout_desc md =
     (if \<not> (is_blocking_desc md \<and> extra_flags (extra md) = 0) then Some (invalid_arguments, zero_layout_desc)
      else
        let blocks = compute_blocks md (\<lambda>_. 0)
        in map_option (Pair success)
             (for_upto (ndims md) (\<lambda>d st. Option.bind st (ld_dim md blocks d))
                (Some (zero_layout_desc\<lparr>ld_dt := md_data_type md\<rparr>))))"

section \<open>Initialisation of a problem\<close>

text \<open>The strides of the scales; the state is the array \<open>ss\<close> and \<open>last_ss\<close>.\<close>

definition ss_step :: "int \<Rightarrow> layout_desc \<Rightarrow> nat \<Rightarrow> int carray \<times> int \<Rightarrow> int carray \<times> int" where
  "ss_step msk old d = (\<lambda>(ss, last_ss).
     if bit msk (ld_id old d) then (ss(d := last_ss), last_ss * ld_dims old d) else (ss, last_ss))"

definition scale_strides :: "int \<Rightarrow> layout_desc \<Rightarrow> int carray" where
  "scale_strides msk old = fst (for_down (ld_ndims old) (ss_step msk old) (\<lambda>_. 0, 1))"

text \<open>
  The loop that matches the dimensions of input and output; it returns the status, the number
  of nodes and the nodes. A division by zero is \<open>None\<close>.
\<close>

function match_loop :: "int carray \<Rightarrow> layout_desc \<Rightarrow> layout_desc \<Rightarrow> nat \<Rightarrow> nat \<Rightarrow> nat \<Rightarrow> node carray \<Rightarrow>
    (status \<times> nat \<times> node carray) option" where
  "match_loop ss ild old i_pos o_pos nd nodes =
     (if i_pos < ld_ndims ild \<and> o_pos < ld_ndims old then
        if ld_id ild i_pos \<noteq> ld_id old o_pos \<or> nd = max_ndims then Some (runtime_error, nd, nodes)
        else if ld_dims ild i_pos = ld_dims old o_pos then
          match_loop ss ild old (Suc i_pos) (Suc o_pos) (Suc nd)
            (nodes(nd := \<lparr>nd_n = nat (size_t (ld_dims ild i_pos)), nd_is = ld_strides ild i_pos,
               nd_os = ld_strides old o_pos, nd_ss = ss o_pos\<rparr>))
        else if ld_dims ild i_pos < ld_dims old o_pos then
          if ld_dims ild i_pos = 0 then None
          else let factor = int32_cast (ld_dims old o_pos sdiv ld_dims ild i_pos)
          in match_loop ss ild (old\<lparr>ld_dims := (ld_dims old)(o_pos := factor)\<rparr>) (Suc i_pos) o_pos (Suc nd)
               (nodes(nd := \<lparr>nd_n = nat (size_t (ld_dims ild i_pos)), nd_is = ld_strides ild i_pos,
                  nd_os = ld_strides old o_pos * factor, nd_ss = ss o_pos * factor\<rparr>))
        else if ld_dims old o_pos = 0 then None
        else let factor = int32_cast (ld_dims ild i_pos sdiv ld_dims old o_pos)
          in match_loop ss (ild\<lparr>ld_dims := (ld_dims ild)(i_pos := factor)\<rparr>) old i_pos (Suc o_pos) (Suc nd)
               (nodes(nd := \<lparr>nd_n = nat (size_t (ld_dims old o_pos)), nd_is = ld_strides ild i_pos * factor,
                  nd_os = ld_strides old o_pos, nd_ss = ss o_pos\<rparr>))
      else Some (success, nd, nodes))"
  by pat_completeness auto
termination
  by (relation "measure (\<lambda>(ss, ild, old, i_pos, o_pos, nd, nodes). (ld_ndims ild - i_pos) + (ld_ndims old - o_pos))") auto

declare match_loop.simps [simp del]

definition padding_consistent :: "memory_desc \<Rightarrow> memory_desc \<Rightarrow> bool" where
  "padding_consistent im_d om_d =
     (let iblocks = compute_blocks im_d (\<lambda>_. 0); oblocks = compute_blocks om_d (\<lambda>_. 0)
      in all_upto (ndims im_d) (\<lambda>d.
           let pdim = padded_dims im_d d
           in pdim = padded_dims om_d d \<and> pdim smod iblocks d = 0 \<and> pdim smod oblocks d = 0))"

definition prb_init :: "prb \<Rightarrow> memory_desc \<Rightarrow> memory_desc \<Rightarrow> primitive_attr \<Rightarrow> (status \<times> prb) option" where
  "prb_init p imd omd attr =
     (if \<not> (is_blocking_desc imd \<and> is_blocking_desc omd \<and> \<not> has_zero_dim imd \<and> \<not> has_zero_dim omd)
      then Some (unimplemented, p)
      else if \<not> padding_consistent imd omd then Some (unimplemented, p)
      else
        Option.bind (cvt_mem_desc_to_layout_desc imd) (\<lambda>(st, ild).
          if st \<noteq> success then Some (st, p)
          else Option.bind (cvt_mem_desc_to_layout_desc omd) (\<lambda>(st, old).
            if st \<noteq> success then Some (st, p)
            else
              Option.bind (scales_has_default_values (at_output_scales attr)) (\<lambda>dflt.
                let msk = sc_mask (at_output_scales attr);
                    sc_type = (if dflt then Scale_none else if msk = 0 then Scale_common else Scale_many);
                    ss = (if sc_type = Scale_many then scale_strides msk old else (\<lambda>_. 0));
                    p = p\<lparr>prb_itype := ld_dt ild, prb_otype := ld_dt old, prb_scale_type := sc_type\<rparr>
                in Option.bind (match_loop ss ild old 0 0 0 (prb_nodes p)) (\<lambda>(st, nd, nodes).
                     if st \<noteq> success then Some (st, p\<lparr>prb_nodes := nodes\<rparr>)
                     else Some (success,
                       p\<lparr>prb_nodes := nodes, prb_ndims := nd, prb_ioff := off_v imd (\<lambda>_. 0) False,
                         prb_ooff := off_v omd (\<lambda>_. 0) False, prb_beta := reorder_beta attr\<rparr>))))))"

section \<open>Transformations of a problem\<close>

definition node_before :: "node \<Rightarrow> node \<Rightarrow> bool" where
  "node_before a b \<longleftrightarrow> nd_os a < nd_os b \<or> nd_os a = nd_os b \<and> nd_n a < nd_n b"

definition prb_normalize :: "prb \<Rightarrow> prb" where
  "prb_normalize p =
     for_upto (prb_ndims p)
       (\<lambda>d p.
          let min_pos = for_range (d + 1) (prb_ndims p)
                (\<lambda>j min_pos. if node_before (prb_nodes p j) (prb_nodes p min_pos) then j else min_pos) d
          in if min_pos \<noteq> d then p\<lparr>prb_nodes := swap_entries d min_pos (prb_nodes p)\<rparr> else p) p"

definition can_fold :: "node \<Rightarrow> node \<Rightarrow> bool" where
  "can_fold this_node next_node \<longleftrightarrow>
     nd_n next_node = 1 \<or>
     nd_is next_node = int (nd_n this_node) * nd_is this_node \<and>
     nd_os next_node = int (nd_n this_node) * nd_os this_node \<and>
     nd_ss next_node = int (nd_n this_node) * nd_ss this_node"

function prb_simplify_loop :: "nat \<Rightarrow> prb \<Rightarrow> prb" where
  "prb_simplify_loop d p =
     (if d + 1 < prb_ndims p then
        if can_fold (prb_nodes p d) (prb_nodes p (d + 1)) then
          let nodes = (prb_nodes p)(d := prb_nodes p d\<lparr>nd_n := nd_n (prb_nodes p d) * nd_n (prb_nodes p (d + 1))\<rparr>);
              nodes = for_range (d + 2) (prb_ndims p) (\<lambda>j nodes. nodes(j - 1 := nodes j)) nodes
          in prb_simplify_loop d (p\<lparr>prb_nodes := nodes, prb_ndims := prb_ndims p - 1\<rparr>)
        else prb_simplify_loop (d + 1) p
      else p)"
  by pat_completeness auto
termination
  by (relation "measure (\<lambda>(d, p). 2 * prb_ndims p - d)") auto

declare prb_simplify_loop.simps [simp del]

definition prb_simplify :: "prb \<Rightarrow> prb" where
  "prb_simplify p = prb_simplify_loop 0 p"

text \<open>The loop starts at \<open>d = p.ndims\<close>, one past the last node.\<close>

definition prb_node_split :: "prb \<Rightarrow> nat \<Rightarrow> nat \<Rightarrow> prb option" where
  "prb_node_split p dim n1 =
     (let nd = prb_ndims p + 1
      in if nd < max_ndims then
           let nodes = fold (\<lambda>d nodes. nodes(d := nodes (d - 1))) (rev [dim + 2..<nd + 1]) (prb_nodes p);
               x = nodes dim;
               nodes = nodes(dim + 1 := \<lparr>nd_n = nd_n x div n1, nd_is = nd_is x * int n1, nd_os = nd_os x * int n1,
                 nd_ss = nd_ss x * int n1\<rparr>);
               nodes = nodes(dim := x\<lparr>nd_n := n1\<rparr>)
           in Some (p\<lparr>prb_ndims := nd, prb_nodes := nodes\<rparr>)
         else None)"

definition prb_node_swap :: "prb \<Rightarrow> nat \<Rightarrow> nat \<Rightarrow> prb" where
  "prb_node_swap p d0 d1 = (if d0 = d1 then p else p\<lparr>prb_nodes := swap_entries d0 d1 (prb_nodes p)\<rparr>)"

definition prb_node_move :: "prb \<Rightarrow> nat \<Rightarrow> nat \<Rightarrow> prb" where
  "prb_node_move p d0 d1 =
     (if d0 = d1 then p
      else
        let x = prb_nodes p d0;
            nodes = (if d0 < d1 then for_range d0 d1 (\<lambda>d nodes. nodes(d := nodes (d + 1))) (prb_nodes p)
              else fold (\<lambda>d nodes. nodes(d := nodes (d - 1))) (rev [d1 + 1..<d0 + 1]) (prb_nodes p))
        in p\<lparr>prb_nodes := nodes(d1 := x)\<rparr>)"

section \<open>What a nest of loops visits\<close>

text \<open>
  A position is an offset of the input, of the output and of the scales; \<open>copies\<close> is the multiset
  of the positions at which the body of the nest runs.
\<close>

type_synonym position = "int \<times> int \<times> int"

definition move_by :: "node \<Rightarrow> nat \<Rightarrow> position \<Rightarrow> position" where
  "move_by x k = (\<lambda>(i, w, s). (i + int k * nd_is x, w + int k * nd_os x, s + int k * nd_ss x))"

fun copies :: "node list \<Rightarrow> position \<Rightarrow> position multiset" where
  "copies [] q = {#q#}"
| "copies (x # xs) q = (\<Sum>k<nd_n x. copies xs (move_by x k q))"

definition node_list :: "prb \<Rightarrow> node list" where
  "node_list p = map (prb_nodes p) [0..<prb_ndims p]"

lemma length_node_list [simp]: "length (node_list p) = prb_ndims p"
  by (simp add: node_list_def)

lemma node_list_nth [simp]: "i < prb_ndims p \<Longrightarrow> node_list p ! i = prb_nodes p i"
  by (simp add: node_list_def)

lemma move_by_0 [simp]: "move_by x 0 q = q"
  by (simp add: move_by_def split_beta)

lemma move_by_commute: "move_by x j (move_by y k q) = move_by y k (move_by x j q)"
  by (simp add: move_by_def split_beta)

lemma copies_front: "copies (xs @ x # ys) q = copies (x # xs @ ys) q"
proof (induction xs arbitrary: q)
  case (Cons y xs)
  have "copies ((y # xs) @ x # ys) q = (\<Sum>k<nd_n y. \<Sum>j<nd_n x. copies (xs @ ys) (move_by x j (move_by y k q)))"
    by (simp add: Cons.IH del: copies.simps) (simp add: Cons.IH)
  also have "\<dots> = (\<Sum>j<nd_n x. \<Sum>k<nd_n y. copies (xs @ ys) (move_by y k (move_by x j q)))"
    by (subst sum.swap) (simp add: move_by_commute)
  finally show ?case by simp
qed simp

lemma copies_perm: "mset xs = mset ys \<Longrightarrow> copies xs q = copies ys q"
proof (induction xs arbitrary: ys q)
  case (Cons x xs)
  then have "x \<in> set ys" by (metis list.set_intros(1) set_mset_mset)
  then obtain as bs where ys: "ys = as @ x # bs" by (meson split_list)
  then have "mset xs = mset (as @ bs)" using Cons.prems by simp
  then have "copies xs q = copies (as @ bs) q" for q by (rule Cons.IH)
  then show ?case by (simp add: ys copies_front)
qed simp

lemma copies_append: "copies (xs @ ys) q = (\<Sum>r\<in>#copies xs q. copies ys r)"
proof (induction xs arbitrary: q)
  case (Cons x xs)
  have s: "(\<Sum>r\<in>#(\<Sum>k<n. f k). g r) = (\<Sum>k<n. \<Sum>r\<in>#f k. g r)" for n :: nat and f :: "nat \<Rightarrow> position multiset" and g :: "position \<Rightarrow> position multiset"
    by (induction n) simp_all
  show ?case by (simp add: Cons.IH s)
qed simp

text \<open>Two nodes whose strides continue each other are one node.\<close>

lemma copies_fold:
  assumes "can_fold x y"
  shows "copies (x # y # xs) q = copies (x\<lparr>nd_n := nd_n x * nd_n y\<rparr> # xs) q"
proof (cases "nd_n y = 1")
  case True
  have "move_by (x\<lparr>nd_n := nd_n x\<rparr>) = move_by x" by (simp add: move_by_def fun_eq_iff)
  then show ?thesis using True by (simp add: lessThan_Suc)
next
  case False
  then have y: "nd_is y = int (nd_n x) * nd_is x" "nd_os y = int (nd_n x) * nd_os x" "nd_ss y = int (nd_n x) * nd_ss x"
    using assms by (auto simp: can_fold_def)
  have m: "move_by y j (move_by x k q) = move_by x (j * nd_n x + k) q" for j k
    by (simp add: move_by_def split_beta y algebra_simps)
  have "copies (x\<lparr>nd_n := nd_n x * nd_n y\<rparr> # xs) q = (\<Sum>c<nd_n y * nd_n x. copies xs (move_by x c q))"
    by (simp add: move_by_def mult.commute)
  also have "\<dots> = (\<Sum>j<nd_n y. \<Sum>k<nd_n x. copies xs (move_by y j (move_by x k q)))"
    by (simp add: sum_groups m)
  also have "\<dots> = copies (x # y # xs) q" by (subst sum.swap) simp
  finally show ?thesis by simp
qed

lemma copies_split:
  assumes "n1 dvd nd_n x"
  shows "copies (x\<lparr>nd_n := n1\<rparr> # \<lparr>nd_n = nd_n x div n1, nd_is = nd_is x * int n1, nd_os = nd_os x * int n1,
      nd_ss = nd_ss x * int n1\<rparr> # xs) q = copies (x # xs) q"
proof -
  let ?x = "x\<lparr>nd_n := n1\<rparr>" and ?y = "\<lparr>nd_n = nd_n x div n1, nd_is = nd_is x * int n1, nd_os = nd_os x * int n1, nd_ss = nd_ss x * int n1\<rparr>"
  have "can_fold ?x ?y" by (simp add: can_fold_def mult.commute)
  moreover have "?x\<lparr>nd_n := nd_n ?x * nd_n ?y\<rparr> = x" using assms by simp
  ultimately show ?thesis using copies_fold [of ?x ?y xs q] by simp
qed

section \<open>The transformations preserve what is visited\<close>

lemma mset_map_perm:
  assumes "inj_on f {..<n}" "f ` {..<n} \<subseteq> {..<n}"
  shows "mset (map (\<lambda>i. a (f i)) [0..<n]) = mset (map a [0..<n])"
proof -
  have "f ` {..<n} = {..<n}" using assms endo_inj_surj [of "{..<n}" f] by simp
  then have "mset (map f [0..<n]) = mset [0..<n]"
    using assms(1) by (intro set_eq_iff_mset_eq_distinct [THEN iffD1])
      (auto simp: distinct_map lessThan_atLeast0)
  then have "image_mset a (mset (map f [0..<n])) = image_mset a (mset [0..<n])" by simp
  then show ?thesis by (simp add: multiset.map_comp comp_def)
qed

lemma swap_entries_perm:
  "i < n \<Longrightarrow> j < n \<Longrightarrow> mset (map (swap_entries i j a) [0..<n]) = mset (map a [0..<n])"
proof -
  let ?f = "\<lambda>k. if k = i then j else if k = j then i else k"
  assume ij: "i < n" "j < n"
  have "swap_entries i j a = (\<lambda>k. a (?f k))" by (auto simp: swap_entries_def fun_eq_iff)
  moreover have "mset (map (\<lambda>k. a (?f k)) [0..<n]) = mset (map a [0..<n])"
    by (rule mset_map_perm) (use ij in \<open>auto simp: inj_on_def split: if_splits\<close>)
  ultimately show ?thesis by (simp only:)
qed

text \<open>Loops that shift a part of an array by one.\<close>

lemma shift_left:
  "for_range lo hi (\<lambda>d a. a(d := a (d + 1))) a = (\<lambda>i. if lo \<le> i \<and> i < hi then a (i + 1) else a i)"
proof (cases "lo \<le> hi")
  case True
  then show ?thesis by (induction hi rule: dec_induct) (auto simp: for_range_Suc fun_eq_iff)
qed (auto simp: fun_eq_iff)

lemma shift_right:
  "0 < lo \<Longrightarrow> fold (\<lambda>d a. a(d := a (d - 1))) (rev [lo..<hi]) a = (\<lambda>i. if lo \<le> i \<and> i < hi then a (i - 1) else a i)"
proof (induction hi arbitrary: a)
  case (Suc hi)
  then show ?case by (cases "lo \<le> hi") (auto simp: fun_eq_iff)
qed auto

lemma shift_down:
  "for_range (d + 2) n (\<lambda>j a. a(j - 1 := a j)) a = (\<lambda>i. if d + 1 \<le> i \<and> i + 1 < n then a (i + 1) else a i)"
proof (cases "d + 2 \<le> n")
  case True
  then show ?thesis
  proof (induction n rule: dec_induct)
    case (step n)
    then show ?case by (auto simp: for_range_Suc fun_eq_iff)
  qed (auto simp: fun_eq_iff)
qed (auto simp: fun_eq_iff)

text \<open>Swapping and moving nodes, and with them the sort.\<close>

lemma node_swap_perm:
  "d0 < prb_ndims p \<Longrightarrow> d1 < prb_ndims p \<Longrightarrow> mset (node_list (prb_node_swap p d0 d1)) = mset (node_list p)"
  using swap_entries_perm [of d0 "prb_ndims p" d1 "prb_nodes p"] by (simp add: prb_node_swap_def node_list_def)

lemma node_move_ndims [simp]: "prb_ndims (prb_node_move p d0 d1) = prb_ndims p"
  by (simp add: prb_node_move_def Let_def)

lemma node_move_perm:
  assumes "d0 < prb_ndims p" "d1 < prb_ndims p"
  shows "mset (node_list (prb_node_move p d0 d1)) = mset (node_list p)"
proof (cases d0 d1 rule: linorder_cases)
  case less
  let ?f = "\<lambda>i. if i = d1 then d0 else if d0 \<le> i \<and> i < d1 then i + 1 else i"
  have "prb_nodes (prb_node_move p d0 d1) = (\<lambda>i. prb_nodes p (?f i))"
    using less shift_left [of d0 d1 "prb_nodes p"] by (auto simp: prb_node_move_def fun_eq_iff Let_def)
  moreover have "mset (map (\<lambda>i. prb_nodes p (?f i)) [0..<prb_ndims p]) = mset (map (prb_nodes p) [0..<prb_ndims p])"
    by (rule mset_map_perm) (use less assms in \<open>auto simp: inj_on_def split: if_splits\<close>)
  ultimately show ?thesis by (simp only: node_list_def node_move_ndims)
next
  case greater
  let ?f = "\<lambda>i. if i = d1 then d0 else if d1 < i \<and> i \<le> d0 then i - 1 else i"
  have "prb_nodes (prb_node_move p d0 d1) = (\<lambda>i. prb_nodes p (?f i))"
    using greater shift_right [of "d1 + 1" "d0 + 1" "prb_nodes p"] by (auto simp: prb_node_move_def fun_eq_iff Let_def)
  moreover have "mset (map (\<lambda>i. prb_nodes p (?f i)) [0..<prb_ndims p]) = mset (map (prb_nodes p) [0..<prb_ndims p])"
    by (rule mset_map_perm) (use greater assms in \<open>auto simp: inj_on_def split: if_splits\<close>)
  ultimately show ?thesis by (simp only: node_list_def node_move_ndims)
qed (simp add: prb_node_move_def)

lemma node_split_ndims: "prb_node_split p dim n1 = Some p' \<Longrightarrow> prb_ndims p' = prb_ndims p + 1"
  by (auto simp: prb_node_split_def Let_def split: if_splits)

lemma Suc_pred_pred: "1 < i \<Longrightarrow> Suc (i - 2) = i - Suc 0"
  by simp

lemma node_split_list:
  assumes "prb_node_split p dim n1 = Some p'" "dim < prb_ndims p"
  shows "node_list p' = (let x = prb_nodes p dim in take dim (node_list p) @ x\<lparr>nd_n := n1\<rparr> #
    \<lparr>nd_n = nd_n x div n1, nd_is = nd_is x * int n1, nd_os = nd_os x * int n1, nd_ss = nd_ss x * int n1\<rparr> #
    drop (dim + 1) (node_list p))"
proof (rule nth_equalityI)
  have sh: "fold (\<lambda>d nodes. nodes(d := nodes (d - 1))) (rev [dim + 2..<prb_ndims p + 1 + 1]) (prb_nodes p) =
      (\<lambda>i. if dim + 2 \<le> i \<and> i < prb_ndims p + 1 + 1 then prb_nodes p (i - 1) else prb_nodes p i)"
    by (rule shift_right) simp
  have p': "prb_nodes p' i = (let x = prb_nodes p dim in
      if i = dim then x\<lparr>nd_n := n1\<rparr>
      else if i = dim + 1 then \<lparr>nd_n = nd_n x div n1, nd_is = nd_is x * int n1, nd_os = nd_os x * int n1, nd_ss = nd_ss x * int n1\<rparr>
      else if dim + 2 \<le> i \<and> i < prb_ndims p + 1 + 1 then prb_nodes p (i - 1) else prb_nodes p i)" for i
    using assms unfolding prb_node_split_def Let_def sh by (auto split: if_splits)
  fix i assume "i < length (node_list p')"
  then have i: "i < prb_ndims p + 1" by (simp add: node_split_ndims [OF assms(1)])
  then show "node_list p' ! i = (let x = prb_nodes p dim in take dim (node_list p) @ x\<lparr>nd_n := n1\<rparr> #
    \<lparr>nd_n = nd_n x div n1, nd_is = nd_is x * int n1, nd_os = nd_os x * int n1, nd_ss = nd_ss x * int n1\<rparr> #
    drop (dim + 1) (node_list p)) ! i"
    using assms(2) Suc_pred_pred [of i] by (auto simp: node_split_ndims [OF assms(1)] p' Let_def nth_append nth_Cons' not_less)
qed (use assms in \<open>auto simp: node_split_ndims Let_def\<close>)

lemma node_list_at:
  "d < prb_ndims p \<Longrightarrow> node_list p = take d (node_list p) @ prb_nodes p d # drop (d + 1) (node_list p)"
  using id_take_nth_drop [of d "node_list p"] by simp

lemma node_split_copies:
  assumes "prb_node_split p dim n1 = Some p'" "dim < prb_ndims p" "n1 dvd nd_n (prb_nodes p dim)"
  shows "copies (node_list p') q = copies (node_list p) q"
proof -
  have "copies (node_list p) q = copies (take dim (node_list p) @ prb_nodes p dim # drop (dim + 1) (node_list p)) q"
    using node_list_at [OF assms(2)] by simp
  then show ?thesis unfolding node_split_list [OF assms(1,2)] Let_def
    by (simp only: copies_append copies_split [OF assms(3)])
qed

lemma normalize_perm: "mset (node_list (prb_normalize p)) = mset (node_list p) \<and> prb_ndims (prb_normalize p) = prb_ndims p"
proof -
  let ?n = "prb_ndims p"
  have m: "for_range (d + 1) ?n (\<lambda>j m. if node_before (prb_nodes r j) (prb_nodes r m) then j else m) d < ?n" if "d < ?n" for d r
    by (rule for_range_inv [where I = "\<lambda>_ m. m < ?n"]) (use that in auto)
  show ?thesis unfolding prb_normalize_def
  proof (rule for_range_inv [where I = "\<lambda>_ r. mset (node_list r) = mset (node_list p) \<and> prb_ndims r = ?n"])
    fix d r assume "d < ?n" and I: "mset (node_list r) = mset (node_list p) \<and> prb_ndims r = ?n"
    then show "mset (node_list (let min_pos = for_range (d + 1) (prb_ndims r) (\<lambda>j m. if node_before (prb_nodes r j) (prb_nodes r m) then j else m) d
        in if min_pos \<noteq> d then r\<lparr>prb_nodes := swap_entries d min_pos (prb_nodes r)\<rparr> else r)) = mset (node_list p) \<and>
      prb_ndims (let min_pos = for_range (d + 1) (prb_ndims r) (\<lambda>j m. if node_before (prb_nodes r j) (prb_nodes r m) then j else m) d
        in if min_pos \<noteq> d then r\<lparr>prb_nodes := swap_entries d min_pos (prb_nodes r)\<rparr> else r) = ?n"
      using m [of d r] swap_entries_perm [of d ?n _ "prb_nodes r"] unfolding Let_def node_list_def by auto
  qed simp_all
qed

lemma fold_step_list:
  assumes "d + 1 < prb_ndims p"
  shows "node_list (p\<lparr>prb_nodes := for_range (d + 2) (prb_ndims p) (\<lambda>j nodes. nodes(j - 1 := nodes j)) ((prb_nodes p)(d := x)),
      prb_ndims := prb_ndims p - 1\<rparr>) = take d (node_list p) @ x # drop (d + 2) (node_list p)"
  unfolding shift_down
proof (rule nth_equalityI)
  let ?a = "\<lambda>i. if d + 1 \<le> i \<and> i + 1 < prb_ndims p then ((prb_nodes p)(d := x)) (i + 1) else ((prb_nodes p)(d := x)) i"
  let ?q = "p\<lparr>prb_nodes := ?a, prb_ndims := prb_ndims p - 1\<rparr>"
  fix i assume "i < length (node_list ?q)"
  then show "node_list ?q ! i = (take d (node_list p) @ x # drop (d + 2) (node_list p)) ! i"
    using assms by (auto simp: node_list_def nth_append nth_Cons')
qed (use assms in simp)

lemma simplify_loop_copies: "copies (node_list (prb_simplify_loop d p)) q = copies (node_list p) q"
proof (induction d p arbitrary: q rule: prb_simplify_loop.induct)
  case (1 d p)
  show ?case
  proof (cases "d + 1 < prb_ndims p \<and> can_fold (prb_nodes p d) (prb_nodes p (d + 1))")
    case True
    let ?x = "prb_nodes p d" and ?y = "prb_nodes p (d + 1)" and ?L = "node_list p"
    let ?z = "?x\<lparr>nd_n := nd_n ?x * nd_n ?y\<rparr>"
    let ?p = "p\<lparr>prb_nodes := for_range (d + 2) (prb_ndims p) (\<lambda>j nodes. nodes(j - 1 := nodes j)) ((prb_nodes p)(d := ?z)),
      prb_ndims := prb_ndims p - 1\<rparr>"
    have L: "?L = take d ?L @ ?x # ?y # drop (d + 2) ?L"
      using True id_take_nth_drop [of d ?L] Cons_nth_drop_Suc [of "d + 1" ?L] by simp
    have "copies (node_list (prb_simplify_loop d p)) q = copies (node_list (prb_simplify_loop d ?p)) q"
      using True by (subst prb_simplify_loop.simps) (simp only: Let_def simp_thms if_True)
    also have "\<dots> = copies (node_list ?p) q" by (rule 1(1)) (use True in auto)
    also have "\<dots> = copies (take d ?L @ ?z # drop (d + 2) ?L) q" using True by (simp only: fold_step_list)
    also have "\<dots> = copies (take d ?L @ ?x # ?y # drop (d + 2) ?L) q"
      using True by (simp only: copies_append copies_fold simp_thms)
    finally show ?thesis using L by simp
  next
    case False
    then show ?thesis using 1(2) by (subst prb_simplify_loop.simps) auto
  qed
qed

lemma simplify_copies: "copies (node_list (prb_simplify p)) q = copies (node_list p) q"
  by (simp add: prb_simplify_def simplify_loop_copies)

lemma simplify_loop_ndims: "prb_ndims (prb_simplify_loop d p) \<le> prb_ndims p"
proof (induction d p rule: prb_simplify_loop.induct)
  case (1 d p)
  show ?case
  proof (cases "d + 1 < prb_ndims p \<and> can_fold (prb_nodes p d) (prb_nodes p (d + 1))")
    case True
    let ?p = "p\<lparr>prb_nodes := for_range (d + 2) (prb_ndims p) (\<lambda>j nodes. nodes(j - 1 := nodes j))
      ((prb_nodes p)(d := prb_nodes p d\<lparr>nd_n := nd_n (prb_nodes p d) * nd_n (prb_nodes p (d + 1))\<rparr>)), prb_ndims := prb_ndims p - 1\<rparr>"
    have "prb_simplify_loop d p = prb_simplify_loop d ?p"
      using True by (subst prb_simplify_loop.simps) (simp only: Let_def simp_thms if_True)
    moreover have "prb_ndims (prb_simplify_loop d ?p) \<le> prb_ndims ?p" by (rule 1(1)) (use True in auto)
    ultimately show ?thesis by simp
  next
    case False
    then show ?thesis using 1(2) by (subst prb_simplify_loop.simps) auto
  qed
qed

end
