(* ===== verification/Reorder_Init.thy ===== *)
theory Reorder_Init
  imports Reorder_Problem
begin

text \<open>
  Correctness of \<open>prb_init\<close>: for descriptors whose blocks are powers of two, the nodes it finds
  visit the pair of addresses of every padded element exactly once. A list of dimensions with
  strides is a numeral system (\<open>lin\<close>); the layouts of the input and of the output are two such
  systems for the row-major number of an element, and matching them is a common refinement.
\<close>

section \<open>Numeral systems with strides\<close>

abbreviation dims_prod :: "(nat \<times> int) list \<Rightarrow> nat" where
  "dims_prod L \<equiv> prod_list (map fst L)"

fun lin :: "(nat \<times> int) list \<Rightarrow> nat \<Rightarrow> int" where
  "lin [] x = 0"
| "lin ((n, s) # L) x = int (x div dims_prod L) * s + lin L (x mod dims_prod L)"

lemma lin_append:
  "x < dims_prod (A @ B) \<Longrightarrow> lin (A @ B) x = lin A (x div dims_prod B) + lin B (x mod dims_prod B)"
proof (induction A arbitrary: x)
  case (Cons a A)
  obtain n s where a: "a = (n, s)" by (cases a)
  let ?A = "dims_prod A" and ?B = "dims_prod B"
  have pos: "0 < ?A * ?B" using Cons.prems by (cases "?A * ?B = 0") (auto simp: a)
  have "x div (?A * ?B) = x div ?B div ?A" by (simp only: mult.commute [of ?A ?B] div_mult2_eq)
  moreover have "x mod (?A * ?B) div ?B = x div ?B mod ?A" "x mod (?A * ?B) mod ?B = x mod ?B"
    using pos by (simp_all add: mult.commute [of ?A] mod_mult2_eq)
  moreover have "lin (A @ B) (x mod (?A * ?B)) = lin A (x mod (?A * ?B) div ?B) + lin B (x mod (?A * ?B) mod ?B)"
    by (rule Cons.IH) (use pos in simp)
  ultimately show ?case by (simp add: a)
qed simp

text \<open>Matching two systems.\<close>

fun entry_of :: "nat \<times> nat \<times> int \<Rightarrow> nat \<times> int" where
  "entry_of (d, n, s) = (n, s)"

fun out_entry :: "nat \<times> nat \<times> int \<times> int \<Rightarrow> nat \<times> int" where
  "out_entry (d, n, s, u) = (n, s)"

fun scale_entry :: "nat \<times> nat \<times> int \<times> int \<Rightarrow> nat \<times> int" where
  "scale_entry (d, n, s, u) = (n, u)"

function match :: "(nat \<times> nat \<times> int) list \<Rightarrow> (nat \<times> nat \<times> int \<times> int) list \<Rightarrow> node list option" where
  "match ((d, n, s) # A) ((e, m, t, u) # B) =
     (if d \<noteq> e then None
      else if n = m then
        map_option (Cons \<lparr>nd_n = n, nd_is = s, nd_os = t, nd_ss = u\<rparr>) (match A B)
      else if n < m then
        (let f = m div n in map_option (Cons \<lparr>nd_n = n, nd_is = s, nd_os = t * int f, nd_ss = u * int f\<rparr>)
           (match A ((e, f, t, u) # B)))
      else
        (let f = n div m in map_option (Cons \<lparr>nd_n = m, nd_is = s * int f, nd_os = t, nd_ss = u\<rparr>)
           (match ((d, f, s) # A) B)))"
| "match [] B = Some []"
| "match (a # A) [] = Some []"
  by pat_completeness auto
termination by (relation "measure (\<lambda>(A, B). length A + length B)") auto

text \<open>The sizes along the way divide each other.\<close>

function chain :: "nat list \<Rightarrow> nat list \<Rightarrow> bool" where
  "chain (n # A) (m # B) =
     (if n = m then chain A B
      else if n < m then n dvd m \<and> chain A ((m div n) # B)
      else m dvd n \<and> chain ((n div m) # A) B)"
| "chain [] B = True"
| "chain (n # A) [] = True"
  by pat_completeness auto
termination by (relation "measure (\<lambda>(A, B). length A + length B)") auto

lemma entry_dims [simp]:
  "fst \<circ> entry_of = (\<lambda>a. fst (snd a))" "fst \<circ> out_entry = (\<lambda>a. fst (snd a))" "fst \<circ> scale_entry = (\<lambda>a. fst (snd a))"
  by auto

lemma lin_digits: "0 < dims_prod L \<Longrightarrow> r < dims_prod L \<Longrightarrow> lin ((n, s) # L) (g * dims_prod L + r) = int g * s + lin L r"
  by simp

lemma lin_zero [simp]: "lin L 0 = 0"
  by (induction L) auto

definition visits :: "(nat \<times> nat \<times> int) list \<Rightarrow> (nat \<times> nat \<times> int \<times> int) list \<Rightarrow> nat \<Rightarrow> position \<Rightarrow> position" where
  "visits A B x = (\<lambda>(i, w, s). (i + lin (map entry_of A) x, w + lin (map out_entry B) x, s + lin (map scale_entry B) x))"

lemma match_node:
  assumes "N = n * M" "0 < M"
    and "\<And>g r. r < M \<Longrightarrow> visits A B (g * M + r) q = visits A' B' r (move_by x g q)"
    and "\<And>q. copies ns q = (\<Sum>r<M. {#visits A' B' r q#})" and "nd_n x = n"
  shows "copies (x # ns) q = (\<Sum>e<N. {#visits A B e q#})"
proof -
  have "(\<Sum>e<N. {#visits A B e q#}) = (\<Sum>g<n. \<Sum>r<M. {#visits A' B' r (move_by x g q)#})"
    unfolding assms(1) sum_groups using assms(3) by (intro sum.cong refl) simp
  then show ?thesis by (simp add: assms(4,5))
qed

lemma match_copies:
  "match A B = Some ns \<Longrightarrow> chain (map (\<lambda>a. fst (snd a)) A) (map (\<lambda>a. fst (snd a)) B) \<Longrightarrow>
    prod_list (map (\<lambda>a. fst (snd a)) A) = prod_list (map (\<lambda>a. fst (snd a)) B) \<Longrightarrow> 0 < prod_list (map (\<lambda>a. fst (snd a)) A) \<Longrightarrow>
    copies ns q = (\<Sum>e<prod_list (map (\<lambda>a. fst (snd a)) A). {#visits A B e q#})"
proof (induction A B arbitrary: ns q rule: match.induct)
  case (1 d n s A e m t u B)
  let ?PA = "prod_list (map (\<lambda>a. fst (snd a)) A)" and ?PB = "prod_list (map (\<lambda>a. fst (snd a)) B)"
  have de: "d = e" using "1.prems"(1) by (auto split: if_splits)
  have eq: "n * ?PA = m * ?PB" and "0 < n * ?PA" using "1.prems"(3,4) by simp_all
  then have pos: "0 < n" "0 < ?PA" "0 < m" "0 < ?PB" by (metis nat_0_less_mult_iff)+
  consider (same) "n = m" | (less) "n < m" | (greater) "m < n" by linarith
  then show ?case
  proof cases
    case same
    then obtain ns' where ns: "ns = \<lparr>nd_n = n, nd_is = s, nd_os = t, nd_ss = u\<rparr> # ns'" "match A B = Some ns'"
      using "1.prems"(1) de by auto
    have PP: "?PA = ?PB" using eq same pos by simp
    have IH: "copies ns' q = (\<Sum>r<?PA. {#visits A B r q#})" for q
      using "1.IH"(1) [of ns' q] de same ns(2) "1.prems"(2) PP pos by simp
    show ?thesis unfolding ns(1)
    proof (rule match_node [OF _ pos(2) _ IH])
      show "visits ((d, n, s) # A) ((e, m, t, u) # B) (g * ?PA + r) q = visits A B r (move_by \<lparr>nd_n = n, nd_is = s, nd_os = t, nd_ss = u\<rparr> g q)"
        if "r < ?PA" for g r
        using that pos by (simp add: visits_def move_by_def split_beta PP [symmetric])
    qed simp_all
  next
    case less
    let ?f = "m div n"
    obtain ns' where ns: "ns = \<lparr>nd_n = n, nd_is = s, nd_os = t * int ?f, nd_ss = u * int ?f\<rparr> # ns'"
        "match A ((e, ?f, t, u) # B) = Some ns'"
      using "1.prems"(1) de less by (auto simp: Let_def)
    have nm: "m = n * ?f" using "1.prems"(2) less by simp
    have PP: "?PA = ?f * ?PB" using eq pos nm by (metis mult.assoc mult_left_cancel less_numeral_extra(3))
    have IH: "copies ns' q = (\<Sum>r<?PA. {#visits A ((e, ?f, t, u) # B) r q#})" for q
      using "1.IH"(2) [of ?f ns' q] de less ns(2) "1.prems"(2) PP pos by simp
    show ?thesis unfolding ns(1)
    proof (rule match_node [OF _ pos(2) _ IH])
      have d: "(g * (?f * ?PB) + r) div ?PB = g * ?f + r div ?PB" "(g * (?f * ?PB) + r) mod ?PB = r mod ?PB" for g r
        using pos by (simp_all add: mult.assoc [symmetric])
      show "visits ((d, n, s) # A) ((e, m, t, u) # B) (g * ?PA + r) q =
          visits A ((e, ?f, t, u) # B) r (move_by \<lparr>nd_n = n, nd_is = s, nd_os = t * int ?f, nd_ss = u * int ?f\<rparr> g q)"
        if "r < ?PA" for g r
        using that pos unfolding visits_def move_by_def
        by (simp add: split_beta d PP del: of_nat_div) (simp add: algebra_simps PP del: of_nat_div)
    qed simp_all
  next
    case greater
    let ?f = "n div m"
    obtain ns' where ns: "ns = \<lparr>nd_n = m, nd_is = s * int ?f, nd_os = t, nd_ss = u\<rparr> # ns'"
        "match ((d, ?f, s) # A) B = Some ns'"
      using "1.prems"(1) de greater by (auto simp: Let_def)
    have nm: "n = m * ?f" using "1.prems"(2) greater by simp
    have PP: "?PB = ?f * ?PA" using eq pos nm by (metis mult.assoc mult_left_cancel less_numeral_extra(3))
    have IH: "copies ns' q = (\<Sum>r<?PB. {#visits ((d, ?f, s) # A) B r q#})" for q
      using "1.IH"(3) [of ?f ns' q] de greater ns(2) "1.prems"(2) PP pos by simp
    show ?thesis unfolding ns(1)
    proof (rule match_node [OF _ pos(4) _ IH])
      have d: "(g * (?f * ?PA) + r) div ?PA = g * ?f + r div ?PA" "(g * (?f * ?PA) + r) mod ?PA = r mod ?PA" for g r
        using pos by (simp_all add: mult.assoc [symmetric])
      show "visits ((d, n, s) # A) ((e, m, t, u) # B) (g * ?PB + r) q =
          visits ((d, ?f, s) # A) B r (move_by \<lparr>nd_n = m, nd_is = s * int ?f, nd_os = t, nd_ss = u\<rparr> g q)"
        if "r < ?PB" for g r
        using that pos unfolding visits_def move_by_def
        by (simp add: split_beta d PP del: of_nat_div) (simp add: algebra_simps PP del: of_nat_div)
    qed (use eq in \<open>simp_all add: comp_def\<close>)
  qed
next
  case (2 B)
  show ?case using "2.prems"(1) unfolding "2.prems"(3) [symmetric] by (auto simp: visits_def split_beta lessThan_Suc)
next
  case (3 a A)
  then show ?case by (simp add: visits_def split_beta)
qed

section \<open>The loop of the code\<close>

definition entries :: "layout_desc \<Rightarrow> (nat \<times> nat \<times> int) list" where
  "entries ld = map (\<lambda>k. (ld_id ld k, nat (ld_dims ld k), ld_strides ld k)) [0..<ld_ndims ld]"

definition scaled_entries :: "int carray \<Rightarrow> layout_desc \<Rightarrow> (nat \<times> nat \<times> int \<times> int) list" where
  "scaled_entries ss ld = map (\<lambda>k. (ld_id ld k, nat (ld_dims ld k), ld_strides ld k, ss k)) [0..<ld_ndims ld]"

definition int_dims :: "layout_desc \<Rightarrow> bool" where
  "int_dims ld \<longleftrightarrow> (\<forall>k<ld_ndims ld. 0 < ld_dims ld k \<and> ld_dims ld k \<le> INT32_MAX)"

lemma drop_entries:
  "i < ld_ndims ld \<Longrightarrow> drop i (entries ld) = (ld_id ld i, nat (ld_dims ld i), ld_strides ld i) # drop (Suc i) (entries ld)"
  "i < ld_ndims ld \<Longrightarrow> drop i (scaled_entries ss ld) =
     (ld_id ld i, nat (ld_dims ld i), ld_strides ld i, ss i) # drop (Suc i) (scaled_entries ss ld)"
  using upt_conv_Cons [of i "ld_ndims ld"] by (simp_all add: entries_def scaled_entries_def drop_map)

lemma drop_entries_upd:
  "i < ld_ndims ld \<Longrightarrow> drop i (entries (ld\<lparr>ld_dims := (ld_dims ld)(i := f)\<rparr>)) =
     (ld_id ld i, nat f, ld_strides ld i) # drop (Suc i) (entries ld)"
  "i < ld_ndims ld \<Longrightarrow> drop i (scaled_entries ss (ld\<lparr>ld_dims := (ld_dims ld)(i := f)\<rparr>)) =
     (ld_id ld i, nat f, ld_strides ld i, ss i) # drop (Suc i) (scaled_entries ss ld)"
  using upt_conv_Cons [of i "ld_ndims ld"] by (simp_all add: entries_def scaled_entries_def drop_map)

lemma drop_all_entries:
  "\<not> i < ld_ndims ld \<Longrightarrow> drop i (entries ld) = []" "\<not> i < ld_ndims ld \<Longrightarrow> drop i (scaled_entries ss ld) = []"
  by (simp_all add: entries_def scaled_entries_def)

lemma size_t_int32: "0 < x \<Longrightarrow> x \<le> INT32_MAX \<Longrightarrow> size_t x = x"
  by (simp add: size_t_def)

lemma int_dims_factor:
  assumes "0 < n" "n < m" "m \<le> INT32_MAX"
  shows "int32_cast (m sdiv n) = m div n" "0 < m div n" "m div n \<le> INT32_MAX" "nat (m div n) = nat m div nat n"
    "m div n = int (nat m div nat n)"
proof -
  show p: "0 < m div n" using assms by (simp add: pos_imp_zdiv_pos_iff)
  show l: "m div n \<le> INT32_MAX" using assms by (smt (verit) div_by_1 int_div_less_self zdiv_mono2)
  show "int32_cast (m sdiv n) = m div n" using assms p l by (simp add: cdiv_simps int32_cast_id)
  show n: "nat (m div n) = nat m div nat n" using assms by (simp add: nat_div_distrib)
  show "m div n = int (nat m div nat n)" using n p by linarith
qed

lemma int_dims_upd: "int_dims ld \<Longrightarrow> 0 < f \<Longrightarrow> f \<le> INT32_MAX \<Longrightarrow> int_dims (ld\<lparr>ld_dims := (ld_dims ld)(i := f)\<rparr>)"
  by (auto simp: int_dims_def)

text \<open>A successful run of the loop appends the nodes of the match to those found before.\<close>

lemma match_loop_match:
  "match_loop ss ild old i_pos o_pos nd nodes = Some (success, nd', nodes') \<Longrightarrow> int_dims ild \<Longrightarrow> int_dims old \<Longrightarrow>
    \<exists>ns. match (drop i_pos (entries ild)) (drop o_pos (scaled_entries ss old)) = Some ns \<and>
      map nodes' [0..<nd'] = map nodes [0..<nd] @ ns"
proof (induction ss ild old i_pos o_pos nd nodes rule: match_loop.induct)
  case (1 ss ild old i_pos o_pos nd nodes)
  let ?a = "ld_dims ild i_pos" and ?b = "ld_dims old o_pos"
  show ?case
  proof (cases "i_pos < ld_ndims ild \<and> o_pos < ld_ndims old")
    case True
    then have io: "i_pos < ld_ndims ild" "o_pos < ld_ndims old" by simp_all
    have ids: "ld_id ild i_pos = ld_id old o_pos" "nd \<noteq> max_ndims"
      using "1.prems"(1) True by (subst (asm) match_loop.simps, auto split: if_splits)+
    have ab: "0 < ?a" "?a \<le> INT32_MAX" "0 < ?b" "?b \<le> INT32_MAX" using "1.prems"(2,3) True by (auto simp: int_dims_def)
    note cond = True ids(2)
    have app: "map (nodes(nd := x)) [0..<Suc nd] = map nodes [0..<nd] @ [x]" for x by simp
    consider (same) "?a = ?b" | (less) "?a < ?b" | (greater) "?b < ?a" by linarith
    then show ?thesis
    proof cases
      case same
      let ?x = "\<lparr>nd_n = nat (size_t ?a), nd_is = ld_strides ild i_pos, nd_os = ld_strides old o_pos, nd_ss = ss o_pos\<rparr>"
      have "match_loop ss ild old (Suc i_pos) (Suc o_pos) (Suc nd) (nodes(nd := ?x)) = Some (success, nd', nodes')"
        using "1.prems"(1) io ids same by (subst (asm) match_loop.simps) simp
      then have "\<exists>ns. match (drop (Suc i_pos) (entries ild)) (drop (Suc o_pos) (scaled_entries ss old)) = Some ns \<and>
          map nodes' [0..<nd'] = map (nodes(nd := ?x)) [0..<Suc nd] @ ns"
        using "1.IH"(1) [OF True _ same] ids "1.prems"(2,3) by (simp del: upt_Suc fun_upd_apply)
      then obtain ns where "match (drop (Suc i_pos) (entries ild)) (drop (Suc o_pos) (scaled_entries ss old)) = Some ns"
          "map nodes' [0..<nd'] = map nodes [0..<nd] @ [?x] @ ns" by (auto simp: app simp del: upt_Suc fun_upd_apply)
      then show ?thesis using same ab by (simp add: drop_entries io ids size_t_int32)
    next
      case less
      note F = int_dims_factor [OF ab(1) less ab(4)]
      let ?x = "\<lparr>nd_n = nat (size_t ?a), nd_is = ld_strides ild i_pos, nd_os = ld_strides old o_pos * (?b div ?a), nd_ss = ss o_pos * (?b div ?a)\<rparr>"
      let ?old = "old\<lparr>ld_dims := (ld_dims old)(o_pos := ?b div ?a)\<rparr>"
      have r: "match_loop ss ild ?old (Suc i_pos) o_pos (Suc nd) (nodes(nd := ?x)) = Some (success, nd', nodes')"
        using "1.prems"(1) io ids less ab by (subst (asm) match_loop.simps) (simp add: F(1) Let_def)
      have "\<exists>ns. match (drop (Suc i_pos) (entries ild)) (drop o_pos (scaled_entries ss ?old)) = Some ns \<and>
          map nodes' [0..<nd'] = map (nodes(nd := ?x)) [0..<Suc nd] @ ns"
        using "1.IH"(2) [OF True _ _ less _ F(1) [symmetric]] ids r "1.prems"(2) int_dims_upd [OF "1.prems"(3) F(2,3)] less ab
        by (simp del: upt_Suc fun_upd_apply)
      then obtain ns where ns: "match (drop (Suc i_pos) (entries ild)) (drop o_pos (scaled_entries ss ?old)) = Some ns"
          "map nodes' [0..<nd'] = map nodes [0..<nd] @ [?x] @ ns" by (auto simp: app simp del: upt_Suc fun_upd_apply)
      have "nat ?a \<noteq> nat ?b" using less ab by simp
      then show ?thesis using less ab ns(2) ns(1) [unfolded drop_entries_upd(2) [OF io(2)] F(4)]
        by (simp add: drop_entries io ids size_t_int32 Let_def flip: F(5))
    next
      case greater
      note F = int_dims_factor [OF ab(3) greater ab(2)]
      let ?x = "\<lparr>nd_n = nat (size_t ?b), nd_is = ld_strides ild i_pos * (?a div ?b), nd_os = ld_strides old o_pos, nd_ss = ss o_pos\<rparr>"
      let ?ild = "ild\<lparr>ld_dims := (ld_dims ild)(i_pos := ?a div ?b)\<rparr>"
      have r: "match_loop ss ?ild old i_pos (Suc o_pos) (Suc nd) (nodes(nd := ?x)) = Some (success, nd', nodes')"
        using "1.prems"(1) io ids greater ab by (subst (asm) match_loop.simps) (simp add: F(1) Let_def)
      have "\<exists>ns. match (drop i_pos (entries ?ild)) (drop (Suc o_pos) (scaled_entries ss old)) = Some ns \<and>
          map nodes' [0..<nd'] = map (nodes(nd := ?x)) [0..<Suc nd] @ ns"
        using "1.IH"(3) [OF True _ _ _ _ F(1) [symmetric]] ids r "1.prems"(3) int_dims_upd [OF "1.prems"(2) F(2,3)] greater ab
        by (simp del: upt_Suc fun_upd_apply)
      then obtain ns where ns: "match (drop i_pos (entries ?ild)) (drop (Suc o_pos) (scaled_entries ss old)) = Some ns"
          "map nodes' [0..<nd'] = map nodes [0..<nd] @ [?x] @ ns" by (auto simp: app simp del: upt_Suc fun_upd_apply)
      have "nat ?b \<noteq> nat ?a" using greater ab by simp
      then show ?thesis using greater ab ns(2) ns(1) [unfolded drop_entries_upd(1) [OF io(1)] F(4)]
        by (simp add: drop_entries io ids size_t_int32 Let_def flip: F(5))
    qed
  next
    case False
    then have e: "nd' = nd" "nodes' = nodes" using "1.prems"(1) by (subst (asm) match_loop.simps, auto)+
    have "match (drop i_pos (entries ild)) (drop o_pos (scaled_entries ss old)) = Some []"
      using False by (cases "drop i_pos (entries ild)") (auto simp: drop_all_entries)
    then show ?thesis by (simp add: e)
  qed
qed

section \<open>The layout of a descriptor\<close>

lemma reverse_loop:
  assumes "s \<le> n"
  shows "for_upto ((n - s) div 2) (\<lambda>k a. swap_entries (s + k) (n - 1 - k) a) a =
    (\<lambda>i. if s \<le> i \<and> i < n then a (s + (n - 1 - i)) else a i)"
proof -
  let ?m = "(n - s) div 2"
  let ?R = "\<lambda>k i. if s \<le> i \<and> i < s + k \<or> n - k \<le> i \<and> i < n then a (s + (n - 1 - i)) else a i"
  have "?R ?m = for_upto ?m (\<lambda>k a. swap_entries (s + k) (n - 1 - k) a) a"
  proof (rule sym, rule for_range_inv [where I = "\<lambda>k b. b = ?R k"])
    fix k b assume k: "k < ?m" and b: "b = ?R k"
    have "s + k < n - 1 - k" using k by linarith
    then show "swap_entries (s + k) (n - 1 - k) b = ?R (Suc k)"
      unfolding b swap_entries_def fun_eq_iff using k
      by (auto simp: less_Suc_eq intro!: arg_cong [where f = a])
  qed (auto simp: fun_eq_iff)
  moreover have "?R ?m i = (if s \<le> i \<and> i < n then a (s + (n - 1 - i)) else a i)" for i
  proof (cases "s \<le> i \<and> i < n \<and> \<not> (i < s + ?m) \<and> \<not> n - ?m \<le> i")
    case True
    then have "s + (n - 1 - i) = i" by linarith
    then show ?thesis by simp
  qed (use assms in auto)
  ultimately show ?thesis by (simp add: fun_eq_iff)
qed

lemma ld_reverse_eq:
  assumes "start \<le> ld_ndims ld"
  shows "ld_reverse start ld =
    (let r = \<lambda>a i. if start \<le> i \<and> i < ld_ndims ld then a (start + (ld_ndims ld - 1 - i)) else a i
     in ld\<lparr>ld_dims := r (ld_dims ld), ld_strides := r (ld_strides ld)\<rparr>)"
proof -
  let ?n = "ld_ndims ld"
  let ?S = "\<lambda>k a. swap_entries (start + k) (?n - 1 - k) a"
  let ?I = "\<lambda>k r. r = ld\<lparr>ld_dims := for_upto k ?S (ld_dims ld), ld_strides := for_upto k ?S (ld_strides ld)\<rparr>"
  have "?I ((?n - start) div 2) (ld_reverse start ld)"
    unfolding ld_reverse_def by (rule for_range_inv [where I = ?I]) (simp_all add: for_range_Suc Let_def)
  then show ?thesis unfolding reverse_loop [OF assms] Let_def .
qed

lemma ld_reverse_entries:
  assumes "start \<le> ld_ndims ld" "\<And>k. start \<le> k \<Longrightarrow> k < ld_ndims ld \<Longrightarrow> ld_id ld k = d"
  shows "entries (ld_reverse start ld) = take start (entries ld) @ rev (drop start (entries ld))"
    and "ld_ndims (ld_reverse start ld) = ld_ndims ld" and "ld_dt (ld_reverse start ld) = ld_dt ld"
    and "int_dims ld \<Longrightarrow> int_dims (ld_reverse start ld)"
proof -
  show n: "ld_ndims (ld_reverse start ld) = ld_ndims ld" and "ld_dt (ld_reverse start ld) = ld_dt ld"
    and "int_dims ld \<Longrightarrow> int_dims (ld_reverse start ld)"
    using assms(1) by (auto simp: ld_reverse_eq Let_def int_dims_def)
  show "entries (ld_reverse start ld) = take start (entries ld) @ rev (drop start (entries ld))"
  proof (rule nth_equalityI)
    fix i assume "i < length (entries (ld_reverse start ld))"
    then have i: "i < ld_ndims ld" by (simp add: entries_def n)
    have ids: "ld_id ld i = ld_id ld (start + (ld_ndims ld - 1 - i))" if "start \<le> i"
      using assms(2) [of i] assms(2) [of "start + (ld_ndims ld - 1 - i)"] that i by simp
    have ix: "start + (ld_ndims ld - start - Suc (i - start)) = start + (ld_ndims ld - 1 - i)" if "start \<le> i"
      using that by simp
    show "entries (ld_reverse start ld) ! i = (take start (entries ld) @ rev (drop start (entries ld))) ! i"
      using i assms(1) ids ix by (auto simp: entries_def ld_reverse_eq Let_def nth_append rev_nth not_less min_def)
  qed (use assms(1) in \<open>simp add: entries_def n\<close>)
qed

lemma ld_push_entries:
  assumes "ld_push d dim stride ld = Some ld'" "0 < dim" "dim \<le> INT32_MAX"
  shows "entries ld' = entries ld @ [(d, nat dim, stride)]" "ld_ndims ld' = Suc (ld_ndims ld)"
    "ld_dt ld' = ld_dt ld" "int_dims ld \<Longrightarrow> int_dims ld'"
    "\<And>k. k < ld_ndims ld \<Longrightarrow> ld_id ld' k = ld_id ld k" "ld_id ld' (ld_ndims ld) = d"
  using assms by (auto simp: ld_push_def entries_def int32_cast_id int_dims_def less_Suc_eq split: if_splits)

text \<open>The blocks of dimension \<open>d\<close>, innermost first, with their strides.\<close>

fun pushes :: "(nat \<times> int) list \<Rightarrow> nat \<Rightarrow> int \<Rightarrow> (nat \<times> nat \<times> int) list" where
  "pushes [] d s = []"
| "pushes ((e, b) # L) d s = (if e = d then [(d, nat b, s)] else []) @ pushes L d (s * b)"

definition extends :: "nat \<Rightarrow> layout_desc \<Rightarrow> (nat \<times> nat \<times> int) list \<Rightarrow> layout_desc \<Rightarrow> bool" where
  "extends d ld xs ld' \<longleftrightarrow> entries ld' = entries ld @ xs \<and> ld_dt ld' = ld_dt ld \<and>
     (int_dims ld \<longrightarrow> int_dims ld') \<and> (\<forall>x\<in>set xs. fst x = d)"

lemma extends_refl [simp]: "extends d ld [] ld"
  by (simp add: extends_def)

lemma extends_trans: "extends d a xs b \<Longrightarrow> extends d b ys c \<Longrightarrow> extends d a (xs @ ys) c"
  by (auto simp: extends_def)

lemma length_entries [simp]: "length (entries ld) = ld_ndims ld"
  by (simp add: entries_def)

lemma extends_ndims: "extends d ld xs ld' \<Longrightarrow> ld_ndims ld' = ld_ndims ld + length xs"
  by (metis extends_def length_append length_entries)

lemma extends_push: "ld_push d dim stride ld = Some ld' \<Longrightarrow> 0 < dim \<Longrightarrow> dim \<le> INT32_MAX \<Longrightarrow> extends d ld [(d, nat dim, stride)] ld'"
  by (simp add: extends_def ld_push_entries)

lemma ld_block_None [simp]: "for_down n (ld_block bd d) None = None"
  by (induction n) (simp_all add: for_down_Suc ld_block_def)

lemma ld_blocks_extend:
  "for_down n (ld_block bd d) (Some (s, ld)) = Some (s', ld') \<Longrightarrow> blocks_ok nd (inner_list bd n) \<Longrightarrow>
    extends d ld (pushes (inner_list bd n) d s) ld'"
proof (induction n arbitrary: s ld)
  case 0
  then show ?case by (simp add: inner_list_def)
next
  case (Suc n)
  let ?b = "inner_blks bd n"
  have ok: "blocks_ok nd (inner_list bd n)" "0 < ?b" "?b \<le> INT32_MAX" using Suc.prems(2) by (auto simp: inner_list_Suc)
  let ?o = "if inner_idxs bd n = d then ld_push d ?b s ld else Some ld"
  have step: "for_down (Suc n) (ld_block bd d) (Some (s, ld)) =
      for_down n (ld_block bd d) (map_option (Pair (s * ?b)) ?o)"
    by (cases ?o) (simp_all add: for_down_Suc ld_block_def)
  obtain ld1 where ld1: "?o = Some ld1" and r: "for_down n (ld_block bd d) (Some (s * ?b, ld1)) = Some (s', ld')"
    using Suc.prems(1) unfolding step by (cases ?o) simp_all
  have "extends d ld (if inner_idxs bd n = d then [(d, nat ?b, s)] else []) ld1"
    using ld1 extends_push [OF _ ok(2,3)] by (auto split: if_splits)
  from extends_trans [OF this Suc.IH [OF r ok(1)]] show ?case by (simp add: inner_list_Suc)
qed

text \<open>
  A descriptor the matching is made for: a blocked layout whose dimensions are multiples of their
  blocks and fit an \<open>int\<close>, and whose blocks are powers of two.
\<close>

definition pow2_blocks :: "memory_desc \<Rightarrow> bool" where
  "pow2_blocks md \<longleftrightarrow> (\<forall>x\<in>set (inner_blocks md). \<exists>k. snd x = 2 ^ Suc k)"

definition reorder_layout :: "memory_desc \<Rightarrow> bool" where
  "reorder_layout md \<longleftrightarrow> is_blocking_desc md \<and> extra_flags (extra md) = 0 \<and> 0 < md_ndims md \<and>
     blocks_ok (ndims md) (inner_blocks md) \<and> pow2_blocks md \<and>
     (\<forall>d<ndims md. 0 < padded_dims md d \<and> padded_dims md d \<le> INT32_MAX \<and> dim_blocks (inner_blocks md) d dvd padded_dims md d)"

definition dim_entries :: "memory_desc \<Rightarrow> nat \<Rightarrow> (nat \<times> nat \<times> int) list" where
  "dim_entries md d = (d, nat (outer_extent md d), blk_strides (blocking md) d) # rev (pushes (inner_blocks md) d 1)"

lemma pushes_none: "\<forall>x\<in>set L. \<exists>k. snd x = 2 ^ Suc k \<Longrightarrow> dim_blocks L d = 1 \<Longrightarrow> pushes L d s = []"
proof (induction L arbitrary: s)
  case (Cons x L)
  obtain e b where x: "x = (e, b)" by (cases x)
  obtain k where b: "b = 2 ^ Suc k" using Cons.prems(1) by (auto simp: x)
  have "e \<noteq> d"
  proof
    assume "e = d"
    then have "b * dim_blocks L d = 1" using Cons.prems(2) by (simp add: x)
    then have "b dvd 1" by (metis dvd_triv_left)
    then have "2 dvd (1 :: int)" by (metis b dvd_mult_left power_Suc)
    then show False by simp
  qed
  then show ?case using Cons by (simp add: x)
qed simp

lemma outer_extent_bounds:
  assumes "reorder_layout md" "d < ndims md"
  shows "0 < outer_extent md d" "outer_extent md d \<le> INT32_MAX"
    "padded_dims md d sdiv dim_blocks (inner_blocks md) d = outer_extent md d"
    "padded_dims md d = dim_blocks (inner_blocks md) d * outer_extent md d"
proof -
  let ?B = "dim_blocks (inner_blocks md) d"
  have B: "0 < ?B" using assms by (intro dim_blocks_pos) (auto simp: reorder_layout_def)
  have p: "0 < padded_dims md d" "padded_dims md d \<le> INT32_MAX" "?B dvd padded_dims md d"
    using assms by (auto simp: reorder_layout_def)
  show e: "padded_dims md d = ?B * outer_extent md d" using p(3) by (simp add: outer_extent_def)
  then show o: "0 < outer_extent md d" using p(1) B by (metis zero_less_mult_pos)
  have "1 * outer_extent md d \<le> ?B * outer_extent md d" using B o by (intro mult_right_mono) simp_all
  then show "outer_extent md d \<le> INT32_MAX" using e p(2) by simp
  show "padded_dims md d sdiv ?B = outer_extent md d" using p(1) B by (simp add: cdiv_simps outer_extent_def)
qed

lemma ld_dim_extends:
  assumes md: "reorder_layout md" and d: "d < ndims md"
    and r: "ld_dim md (compute_blocks md (\<lambda>_. 0)) d ld = Some ld'"
  shows "extends d ld (dim_entries md d) ld'"
proof -
  let ?bd = "blocking md" and ?L = "inner_blocks md"
  have kind: "is_blocking_desc md" and ok: "blocks_ok (ndims md) ?L" using md by (auto simp: reorder_layout_def)
  have B: "compute_blocks md (\<lambda>_. 0) d = dim_blocks ?L d"
    using compute_blocks_eq kind d by (simp add: is_blocking_desc_def)
  note ext = outer_extent_bounds [OF md d]
  obtain ld1 ld2 where
    1: "(if dim_blocks ?L d \<noteq> 1 then map_option snd (for_down (inner_nblks ?bd) (ld_block ?bd d) (Some (1, ld))) else Some ld) = Some ld1"
    and 2: "ld_push d (outer_extent md d) (blk_strides ?bd d) ld1 = Some ld2" and 3: "ld' = ld_reverse (ld_ndims ld) ld2"
    using r unfolding ld_dim_def Let_def B by (auto simp: bind_eq_Some_conv ext(3))
  have "extends d ld (pushes ?L d 1) ld1"
  proof (cases "dim_blocks ?L d = 1")
    case True
    then show ?thesis using 1 md by (simp add: pushes_none reorder_layout_def pow2_blocks_def)
  next
    case False
    then show ?thesis using 1 ld_blocks_extend ok by (auto simp: inner_blocks_def)
  qed
  from extends_trans [OF this extends_push [OF 2 ext(1,2)]]
  have e2: "extends d ld (pushes ?L d 1 @ [(d, nat (outer_extent md d), blk_strides ?bd d)]) ld2" .
  let ?xs = "pushes ?L d 1 @ [(d, nat (outer_extent md d), blk_strides ?bd d)]"
  have len: "ld_ndims ld2 = ld_ndims ld + length ?xs" by (rule extends_ndims [OF e2])
  have ids: "ld_id ld2 k = d" if "ld_ndims ld \<le> k" "k < ld_ndims ld2" for k
  proof -
    have "entries ld2 ! k = ?xs ! (k - ld_ndims ld)" using e2 that by (simp add: extends_def nth_append)
    moreover have "?xs ! (k - ld_ndims ld) \<in> set ?xs" using that len by (intro nth_mem) simp
    moreover have "\<forall>x\<in>set ?xs. fst x = d" using e2 unfolding extends_def by (elim conjE)
    ultimately have "fst (entries ld2 ! k) = d" by (metis (no_types, lifting))
    then show ?thesis using that by (simp add: entries_def)
  qed
  have le: "ld_ndims ld \<le> ld_ndims ld2" using len by simp
  show ?thesis
    using ld_reverse_entries [OF le ids] e2 by (auto simp: extends_def 3 dim_entries_def)
qed

lemma cvt_entries:
  assumes "cvt_mem_desc_to_layout_desc md = Some (success, ld)" "reorder_layout md"
  shows "entries ld = concat (map (dim_entries md) [0..<ndims md])" "int_dims ld" "ld_dt ld = md_data_type md"
proof -
  let ?B = "compute_blocks md (\<lambda>_. 0)" and ?z = "zero_layout_desc\<lparr>ld_dt := md_data_type md\<rparr>"
  let ?I = "\<lambda>d st. \<forall>ld. st = Some ld \<longrightarrow> entries ld = concat (map (dim_entries md) [0..<d]) \<and> int_dims ld \<and> ld_dt ld = md_data_type md"
  have "?I (ndims md) (for_upto (ndims md) (\<lambda>d st. Option.bind st (ld_dim md ?B d)) (Some ?z))"
  proof (rule for_range_inv [where I = ?I])
    show "?I 0 (Some ?z)" by (simp add: entries_def int_dims_def zero_layout_desc_def)
  next
    fix d st assume d: "d < ndims md" and I: "?I d st"
    show "?I (Suc d) (Option.bind st (ld_dim md ?B d))"
    proof (intro allI impI)
      fix ld' assume "Option.bind st (ld_dim md ?B d) = Some ld'"
      then obtain ld where st: "st = Some ld" and ld: "ld_dim md ?B d ld = Some ld'" by (auto simp: bind_eq_Some_conv)
      show "entries ld' = concat (map (dim_entries md) [0..<Suc d]) \<and> int_dims ld' \<and> ld_dt ld' = md_data_type md"
        using ld_dim_extends [OF assms(2) d ld] I st by (auto simp: extends_def)
    qed
  qed simp
  moreover have "for_upto (ndims md) (\<lambda>d st. Option.bind st (ld_dim md ?B d)) (Some ?z) = Some ld"
    using assms by (auto simp: cvt_mem_desc_to_layout_desc_def Let_def split: if_splits)
  ultimately show "entries ld = concat (map (dim_entries md) [0..<ndims md])" "int_dims ld" "ld_dt ld = md_data_type md"
    by auto
qed

section \<open>The numeral system of a layout\<close>

abbreviation block_list :: "memory_desc \<Rightarrow> nat \<Rightarrow> (nat \<times> int) list" where
  "block_list md d \<equiv> map entry_of (rev (pushes (inner_blocks md) d 1))"

lemma dims_prod_pushes: "blocks_ok nd L \<Longrightarrow> dims_prod (map entry_of (rev (pushes L d s))) = nat (dim_blocks L d)"
proof (induction L arbitrary: s)
  case (Cons x L)
  obtain e b where x: "x = (e, b)" by (cases x)
  have "0 < b" "0 < dim_blocks L d" using Cons.prems dim_blocks_pos [of nd L d] by (auto simp: x)
  then show ?case using Cons x by (auto simp: nat_mult_distrib mult.commute)
qed simp

text \<open>The inner part of an offset is the sum of its parts in each dimension.\<close>

lemma inner_fold_lin:
  "blocks_ok nd L \<Longrightarrow> (\<And>d. 0 \<le> pos d) \<Longrightarrow>
    s * snd (inner_fold L pos) =
      (\<Sum>d<nd. lin (map entry_of (rev (pushes L d s))) (nat (pos d mod dim_blocks L d)))"
proof (induction L arbitrary: s pos)
  case (Cons x L)
  obtain e b where x: "x = (e, b)" by (cases x)
  then have e: "e < nd" and b: "0 < b" and ok: "blocks_ok nd L" using Cons.prems by auto
  let ?p = "pos(e := pos e div b)" and ?B = "dim_blocks L e"
  let ?l = "\<lambda>d. lin (map entry_of (rev (pushes L d (s * b)))) (nat (?p d mod dim_blocks L d))"
  have B: "0 < ?B" by (rule dim_blocks_pos [OF ok])
  have "0 \<le> ?p d" for d using Cons.prems(2) b by (simp add: pos_imp_zdiv_nonneg_iff)
  then have IH: "s * b * snd (inner_fold L ?p) = (\<Sum>d<nd. ?l d)" by (rule Cons.IH [OF ok])
  have m: "pos e mod (b * ?B) = b * (pos e div b mod ?B) + pos e mod b" using B by (simp add: zmod_zmult2_eq)
  have nn: "0 \<le> pos e div b mod ?B" "0 \<le> pos e mod b" using B b by simp_all
  have nm: "nat (pos e mod (b * ?B)) = nat b * nat (pos e div b mod ?B) + nat (pos e mod b)"
    unfolding m using b nn by (simp add: nat_add_distrib nat_mult_distrib)
  have lt: "nat (pos e mod b) < nat b" using b by simp
  have lt2: "nat (pos e mod (b * ?B)) < nat b * nat ?B" using b B by (simp add: nat_mult_distrib [symmetric] pos_mod_bound)
  have dg: "nat (pos e mod (b * ?B)) div nat b = nat (pos e div b mod ?B)" "nat (pos e mod (b * ?B)) mod nat b = nat (pos e mod b)"
    unfolding nm using lt by simp_all
  have at_e: "lin (map entry_of (rev (pushes (x # L) e s))) (nat (pos e mod dim_blocks (x # L) e)) = ?l e + pos e mod b * s"
  proof -
    have "lin (map entry_of (rev (pushes L e (s * b))) @ [(nat b, s)]) (nat (pos e mod (b * ?B))) =
        lin (map entry_of (rev (pushes L e (s * b)))) (nat (pos e div b mod ?B)) + pos e mod b * s"
      using lin_append [of "nat (pos e mod (b * ?B))" "map entry_of (rev (pushes L e (s * b)))" "[(nat b, s)]"] lt2 dg nn(2)
        dims_prod_pushes [OF ok, of e "s * b"] by (simp add: mult.commute)
    then show ?thesis using x by simp
  qed
  have "(\<Sum>d<nd. lin (map entry_of (rev (pushes (x # L) d s))) (nat (pos d mod dim_blocks (x # L) d))) =
      (\<Sum>d<nd. ?l d + (if d = e then pos e mod b * s else 0))"
  proof (rule sum.cong [OF refl])
    fix d
    show "lin (map entry_of (rev (pushes (x # L) d s))) (nat (pos d mod dim_blocks (x # L) d)) =
        ?l d + (if d = e then pos e mod b * s else 0)"
      using at_e x by (cases "d = e") simp_all
  qed
  also have "\<dots> = s * b * snd (inner_fold L ?p) + pos e mod b * s" using e by (simp add: sum.distrib IH)
  finally show ?case by (simp add: x split_beta Let_def algebra_simps)
qed (simp add: inner_fold.simps)

lemma dims_prod_dim:
  assumes "reorder_layout md" "d < ndims md"
  shows "dims_prod (map entry_of (dim_entries md d)) = nat (padded_dims md d)"
    and "dims_prod (block_list md d) = nat (dim_blocks (inner_blocks md) d)"
    and "0 < dim_blocks (inner_blocks md) d"
proof -
  have ok: "blocks_ok (ndims md) (inner_blocks md)" using assms(1) by (simp add: reorder_layout_def)
  show B: "0 < dim_blocks (inner_blocks md) d" by (rule dim_blocks_pos [OF ok])
  show p: "dims_prod (block_list md d) = nat (dim_blocks (inner_blocks md) d)" by (rule dims_prod_pushes [OF ok])
  have "dims_prod (map entry_of (dim_entries md d)) = nat (outer_extent md d) * dims_prod (block_list md d)"
    by (simp add: dim_entries_def)
  also have "\<dots> = nat (outer_extent md d) * nat (dim_blocks (inner_blocks md) d)" by (simp only: p)
  also have "\<dots> = nat (padded_dims md d)"
    using B outer_extent_bounds(1) [OF assms] by (simp add: outer_extent_bounds(4) [OF assms] nat_mult_distrib mult.commute)
  finally show "dims_prod (map entry_of (dim_entries md d)) = nat (padded_dims md d)" .
qed

lemma lin_concat:
  "x < prod_list (map D ds) \<Longrightarrow> (\<And>d. d \<in> set ds \<Longrightarrow> dims_prod (E d) = D d) \<Longrightarrow>
    lin (concat (map E ds)) x = (\<Sum>(d, y)\<leftarrow>zip ds (radix_digits (map D ds) x). lin (E d) y)"
proof (induction ds arbitrary: x)
  case (Cons d ds)
  have c: "dims_prod (concat (map E ds)) = prod_list (map D ds)"
    using Cons.prems(2) by (induction ds) auto
  have p: "0 < prod_list (map D ds)" using Cons.prems(1) by (cases "prod_list (map D ds) = 0") auto
  have "lin (E d @ concat (map E ds)) x = lin (E d) (x div prod_list (map D ds)) + lin (concat (map E ds)) (x mod prod_list (map D ds))"
    using lin_append [of x "E d" "concat (map E ds)"] Cons.prems by (simp add: c)
  moreover have "lin (concat (map E ds)) (x mod prod_list (map D ds)) =
      (\<Sum>(d, y)\<leftarrow>zip ds (radix_digits (map D ds) (x mod prod_list (map D ds))). lin (E d) y)"
    by (rule Cons.IH) (use p Cons.prems(2) in simp_all)
  moreover have "x div prod_list (map D ds) mod D d = x div prod_list (map D ds)"
    using Cons.prems(1) p by (intro mod_less) (simp add: less_mult_imp_div_less)
  ultimately show ?case by (simp add: radix_digits_mod)
qed simp

lemma sum_zip_upt: "length ys = n \<Longrightarrow> (\<Sum>(d, y)\<leftarrow>zip [0..<n] ys. f d y) = (\<Sum>d<n. f d (ys ! d) :: int)"
  by (simp add: sum_list_sum_nth atLeast0LessThan split_beta)

lemma lin_dim:
  assumes "reorder_layout md" "d < ndims md"
  shows "lin (map entry_of (dim_entries md d)) y =
    int y div dim_blocks (inner_blocks md) d * blk_strides (blocking md) d +
    lin (block_list md d) (nat (int y mod dim_blocks (inner_blocks md) d))"
proof -
  let ?B = "dim_blocks (inner_blocks md) d"
  note B = dims_prod_dim(2,3) [OF assms]
  have "int (y div nat ?B) = int y div ?B" "nat (int y mod ?B) = y mod nat ?B"
    using B(2) by (simp_all add: zdiv_int nat_mod_distrib)
  then show ?thesis using B by (simp add: dim_entries_def del: of_nat_div)
qed

lemma addr_padded_lin:
  assumes md: "reorder_layout md" and e: "e < prod_list (extents md True)"
  shows "addr_padded md e = offset0 md + lin (map entry_of (concat (map (dim_entries md) [0..<ndims md]))) e"
proof -
  let ?L = "inner_blocks md" and ?Ds = "extents md True"
  have ok: "blocks_ok (ndims md) ?L" and pos: "\<And>d. d < ndims md \<Longrightarrow> 0 < padded_dims md d"
    using md by (auto simp: reorder_layout_def)
  define dg where "dg = radix_digits ?Ds e"
  have len: "length dg = ndims md" by (simp add: dg_def extents_def)
  have p: "pos_of dg d = int (dg ! d)" if "d < ndims md" for d using that len by (simp add: pos_of_def)
  have p0: "pos_of dg d = 0" if "\<not> d < ndims md" for d using that len by (simp add: pos_of_def arr_def)
  have nn: "0 \<le> pos_of dg d" for d by (simp add: pos_of_def)
  have "addr_padded md e = off_v md (pos_of dg) True"
    using pos by (simp add: addr_padded_def off_l_def off_l_pos_eq dg_def)
  also have "\<dots> = offset0 md + snd (inner_fold ?L (pos_of dg)) + (\<Sum>d<ndims md. fst (inner_fold ?L (pos_of dg)) d * blk_strides (blocking md) d)"
    by (rule off_v_eq [OF ok]) (simp_all add: p p0)
  also have "snd (inner_fold ?L (pos_of dg)) = (\<Sum>d<ndims md. lin (block_list md d) (nat (pos_of dg d mod dim_blocks ?L d)))"
    using inner_fold_lin [OF ok nn, of 1] by simp
  also have "offset0 md + (\<Sum>d<ndims md. lin (block_list md d) (nat (pos_of dg d mod dim_blocks ?L d))) +
      (\<Sum>d<ndims md. fst (inner_fold ?L (pos_of dg)) d * blk_strides (blocking md) d) =
      offset0 md + (\<Sum>d<ndims md. lin (map entry_of (dim_entries md d)) (dg ! d))"
    by (simp add: lin_dim [OF md] inner_fold_pos [OF ok] p sum.distrib)
  also have "(\<Sum>d<ndims md. lin (map entry_of (dim_entries md d)) (dg ! d)) =
      lin (concat (map (\<lambda>d. map entry_of (dim_entries md d)) [0..<ndims md])) e"
  proof -
    have "lin (concat (map (\<lambda>d. map entry_of (dim_entries md d)) [0..<ndims md])) e =
        (\<Sum>(d, y)\<leftarrow>zip [0..<ndims md] (radix_digits (map (\<lambda>d. nat (padded_dims md d)) [0..<ndims md]) e).
          lin (map entry_of (dim_entries md d)) y)"
    proof (rule lin_concat)
      show "e < prod_list (map (\<lambda>d. nat (padded_dims md d)) [0..<ndims md])" using e by (simp add: extents_def)
      show "dims_prod (map entry_of (dim_entries md d)) = nat (padded_dims md d)" if "d \<in> set [0..<ndims md]" for d
        by (rule dims_prod_dim(1) [OF md]) (use that in simp)
    qed
    then show ?thesis by (simp add: sum_zip_upt dg_def extents_def)
  qed
  finally show ?thesis by (simp add: map_concat comp_def)
qed

section \<open>The sizes divide each other\<close>

definition pow2 :: "nat \<Rightarrow> bool" where
  "pow2 n \<longleftrightarrow> (\<exists>k. n = 2 ^ k)"

lemma pow2_simps [simp]: "pow2 1" "pow2 (Suc 0)" "pow2 a \<Longrightarrow> pow2 b \<Longrightarrow> pow2 (a * b)"
  unfolding pow2_def by (metis power_0) (metis One_nat_def power_0, metis power_add)

lemma pow2_pos: "pow2 n \<Longrightarrow> 0 < n"
  by (auto simp: pow2_def)

lemma pow2_comparable: "pow2 a \<Longrightarrow> pow2 b \<Longrightarrow> a \<le> b \<Longrightarrow> a dvd b \<and> pow2 (b div a)"
proof -
  assume "pow2 a" "pow2 b" "a \<le> b"
  then obtain i j where ij: "a = 2 ^ i" "b = 2 ^ j" "i \<le> j" by (auto simp: pow2_def)
  then have "b = a * 2 ^ (j - i)" by (simp flip: power_add)
  then show ?thesis using ij by (auto simp: pow2_def)
qed

text \<open>Two ways of cutting one dimension into blocks.\<close>

definition comparable :: "nat \<Rightarrow> nat \<Rightarrow> bool" where
  "comparable x y \<longleftrightarrow> (x dvd y \<and> pow2 (y div x)) \<or> (y dvd x \<and> pow2 (x div y))"

lemma pow2_cmp: "pow2 x \<Longrightarrow> pow2 y \<Longrightarrow> comparable x y"
  using pow2_comparable [of x y] pow2_comparable [of y x] linear [of x y] by (auto simp: comparable_def)

definition pow2_list :: "nat list \<Rightarrow> bool" where
  "pow2_list xs \<longleftrightarrow> (\<forall>x\<in>set xs. pow2 x \<and> 1 < x)"

lemma pow2_list_prod: "pow2_list xs \<Longrightarrow> 0 < prod_list xs \<and> (prod_list xs = 1 \<longrightarrow> xs = [])"
  by (induction xs) (auto simp: pow2_list_def)

lemma chain_dim:
  "x * prod_list xs = y * prod_list ys \<Longrightarrow> 0 < x \<Longrightarrow> 0 < y \<Longrightarrow> pow2_list xs \<Longrightarrow> pow2_list ys \<Longrightarrow> comparable x y \<Longrightarrow>
    chain A B \<Longrightarrow> chain ((x # xs) @ A) ((y # ys) @ B)"
proof (induction "length xs + length ys" arbitrary: x xs y ys rule: less_induct)
  case less
  note pp = pow2_list_prod [OF less.prems(4)] pow2_list_prod [OF less.prems(5)]
  consider (same) "x = y" | (lt) "x < y" | (gt) "y < x" by linarith
  then show ?case
  proof cases
    case same
    then have eq: "prod_list xs = prod_list ys" using less.prems(1,2) by simp
    show ?thesis
    proof (cases xs)
      case Nil
      then show ?thesis using same eq pp less.prems(7) by simp
    next
      case (Cons x' xs')
      then have "ys \<noteq> []" using eq pp(1) by auto
      then obtain y' ys' where ys: "ys = y' # ys'" by (cases ys) auto
      have p: "pow2 x'" "pow2 y'" "pow2_list xs'" "pow2_list ys'" using less.prems(4,5) Cons ys by (auto simp: pow2_list_def)
      note pow2_cmp [OF p(1,2)]
      then have "chain ((x' # xs') @ A) ((y' # ys') @ B)"
        using less.hyps [of xs' ys' x' y'] Cons ys eq p pow2_pos less.prems(7) by simp
      then show ?thesis using same Cons ys by simp
    qed
  next
    case lt
    then have "\<not> y dvd x" using less.prems(2) by (auto dest: dvd_imp_le)
    then have xy: "x dvd y" "pow2 (y div x)" using less.prems(6) by (auto simp: comparable_def)
    let ?f = "y div x"
    have y: "y = x * ?f" using xy by simp
    have f1: "1 < ?f" using lt y by (metis mult_less_cancel1 mult.right_neutral)
    have eq: "prod_list xs = ?f * prod_list ys" using less.prems(1,2) y by (metis mult.assoc mult_left_cancel less_numeral_extra(3))
    then have "xs \<noteq> []" using f1 pp by auto
    then obtain x' xs' where xs: "xs = x' # xs'" by (cases xs) auto
    have p: "pow2 x'" "pow2_list xs'" using less.prems(4) xs by (auto simp: pow2_list_def)
    note pow2_cmp [OF p(1) xy(2)]
    then have "chain ((x' # xs') @ A) ((?f # ys) @ B)"
      using less.hyps [of xs' ys x' ?f] xs eq p pow2_pos xy(2) less.prems(5,7) by simp
    then show ?thesis using lt xy xs by simp
  next
    case gt
    then have "\<not> x dvd y" using less.prems(3) by (auto dest: dvd_imp_le)
    then have xy: "y dvd x" "pow2 (x div y)" using less.prems(6) by (auto simp: comparable_def)
    let ?f = "x div y"
    have x: "x = y * ?f" using xy by simp
    have f1: "1 < ?f" using gt x by (metis mult_less_cancel1 mult.right_neutral)
    have eq: "prod_list ys = ?f * prod_list xs" using less.prems(1,3) x by (metis mult.assoc mult_left_cancel less_numeral_extra(3))
    then have "ys \<noteq> []" using f1 pp by auto
    then obtain y' ys' where ys: "ys = y' # ys'" by (cases ys) auto
    have p: "pow2 y'" "pow2_list ys'" using less.prems(5) ys by (auto simp: pow2_list_def)
    note pow2_cmp [OF xy(2) p(1)]
    then have "chain ((?f # xs) @ A) ((y' # ys') @ B)"
      using less.hyps [of xs ys' ?f y'] ys eq p pow2_pos xy(2) less.prems(4,7) by simp
    then show ?thesis using gt xy ys by simp
  qed
qed

lemma comparable_quotients:
  assumes "x * P = y * Q" "pow2 P" "pow2 Q" "0 < x" "0 < y"
  shows "comparable x y"
proof (cases "P \<le> Q")
  case True
  then obtain k where "Q = P * 2 ^ k" using pow2_comparable [OF assms(2,3)] pow2_pos [OF assms(2)] by (auto simp: pow2_def elim!: dvdE)
  then have "x = y * 2 ^ k" using assms(1) pow2_pos [OF assms(2)] by simp
  then show ?thesis using assms(5) by (auto simp: comparable_def pow2_def)
next
  case False
  then obtain k where "P = Q * 2 ^ k" using pow2_comparable [OF assms(3,2)] pow2_pos [OF assms(3)] by (auto simp: pow2_def elim!: dvdE)
  then have "y = x * 2 ^ k" using assms(1) pow2_pos [OF assms(3)] by simp
  then show ?thesis using assms(4) by (auto simp: comparable_def pow2_def)
qed

abbreviation sizes :: "(nat \<times> nat \<times> 'a) list \<Rightarrow> nat list" where
  "sizes \<equiv> map (\<lambda>a. fst (snd a))"

lemma pushes_pow2: "\<forall>x\<in>set L. \<exists>k. snd x = 2 ^ Suc k \<Longrightarrow> pow2_list (sizes (rev (pushes L d s)))"
proof (induction L arbitrary: s)
  case (Cons x L)
  obtain e b where x: "x = (e, b)" by (cases x)
  obtain k where "b = 2 ^ Suc k" using Cons.prems by (auto simp: x)
  then have "nat b = 2 ^ Suc k" by (simp add: nat_mult_distrib nat_power_eq)
  then have "pow2 (nat b)" "1 < nat b" unfolding pow2_def by (blast, simp add: Suc_lessI)
  then show ?case using Cons by (auto simp: pow2_list_def x)
qed (simp add: pow2_list_def)

lemma pow2_list_pow2: "pow2_list xs \<Longrightarrow> pow2 (prod_list xs)"
  by (induction xs) (auto simp: pow2_list_def)

lemma chain_concat:
  assumes "\<And>d. d \<in> set ds \<Longrightarrow> f d * prod_list (F d) = g d * prod_list (G d) \<and> 0 < f d \<and> 0 < g d \<and> pow2_list (F d) \<and> pow2_list (G d)"
  shows "chain (concat (map (\<lambda>d. f d # F d) ds)) (concat (map (\<lambda>d. g d # G d) ds))"
  using assms
proof (induction ds)
  case (Cons d ds)
  then have "chain ((f d # F d) @ concat (map (\<lambda>d. f d # F d) ds)) ((g d # G d) @ concat (map (\<lambda>d. g d # G d) ds))"
    using comparable_quotients [of "f d" "prod_list (F d)" "g d" "prod_list (G d)"] pow2_list_pow2 [of "F d"] pow2_list_pow2 [of "G d"]
    by (intro chain_dim) auto
  then show ?case by simp
qed simp

lemma sizes_entries: "sizes E = map fst (map entry_of E)"
  by auto

lemma sizes_dim_entries:
  assumes "reorder_layout md" "d < ndims md"
  shows "sizes (dim_entries md d) = nat (outer_extent md d) # sizes (rev (pushes (inner_blocks md) d 1))"
    and "prod_list (sizes (dim_entries md d)) = nat (padded_dims md d)"
    and "0 < nat (outer_extent md d)" "pow2_list (sizes (rev (pushes (inner_blocks md) d 1)))"
proof -
  show "sizes (dim_entries md d) = nat (outer_extent md d) # sizes (rev (pushes (inner_blocks md) d 1))"
    by (simp add: dim_entries_def)
  show "prod_list (sizes (dim_entries md d)) = nat (padded_dims md d)"
    using dims_prod_dim(1) [OF assms] by (simp only: sizes_entries)
  show "0 < nat (outer_extent md d)" using outer_extent_bounds(1) [OF assms] by simp
  show "pow2_list (sizes (rev (pushes (inner_blocks md) d 1)))"
    by (rule pushes_pow2) (use assms(1) in \<open>simp add: reorder_layout_def pow2_blocks_def\<close>)
qed

lemma layouts_chain:
  assumes i: "reorder_layout a" and o: "reorder_layout b" and nd: "ndims a = ndims b"
    and pd: "\<And>d. d < ndims a \<Longrightarrow> padded_dims a d = padded_dims b d"
  shows "chain (sizes (concat (map (dim_entries a) [0..<ndims a]))) (sizes (concat (map (dim_entries b) [0..<ndims b])))"
proof -
  let ?t = "\<lambda>md d. sizes (rev (pushes (inner_blocks md) d 1))"
  have s: "sizes (concat (map (dim_entries md) [0..<ndims md])) = concat (map (\<lambda>d. nat (outer_extent md d) # ?t md d) [0..<ndims md])" for md
    by (simp add: map_concat comp_def dim_entries_def)
  have "chain (concat (map (\<lambda>d. nat (outer_extent a d) # ?t a d) [0..<ndims a])) (concat (map (\<lambda>d. nat (outer_extent b d) # ?t b d) [0..<ndims a]))"
  proof (rule chain_concat)
    fix d assume "d \<in> set [0..<ndims a]"
    then have d: "d < ndims a" "d < ndims b" by (simp_all add: nd)
    note A = sizes_dim_entries [OF i d(1)] and B = sizes_dim_entries [OF o d(2)]
    have "nat (outer_extent a d) * prod_list (?t a d) = nat (padded_dims a d)"
      "nat (outer_extent b d) * prod_list (?t b d) = nat (padded_dims b d)"
      using A(2) B(2) unfolding A(1) B(1) by (simp_all only: prod_list.Cons list.map)
    then show "nat (outer_extent a d) * prod_list (?t a d) = nat (outer_extent b d) * prod_list (?t b d) \<and>
        0 < nat (outer_extent a d) \<and> 0 < nat (outer_extent b d) \<and> pow2_list (?t a d) \<and> pow2_list (?t b d)"
      using A(3,4) B(3,4) pd [OF d(1)] by (simp only: simp_thms)
  qed
  then show ?thesis unfolding nd [symmetric] s [of a] s [of b, folded nd] .
qed

lemma layout_total:
  "reorder_layout md \<Longrightarrow> prod_list (sizes (concat (map (dim_entries md) [0..<ndims md]))) = prod_list (extents md True)"
proof -
  assume md: "reorder_layout md"
  have "prod_list (sizes (concat (map (dim_entries md) ds))) = prod_list (map (\<lambda>d. nat (padded_dims md d)) ds)"
    if "\<forall>d\<in>set ds. d < ndims md" for ds
    using that
  proof (induction ds)
    case (Cons d ds)
    then show ?case using sizes_dim_entries(2) [OF md, of d] by simp
  qed simp
  from this [of "[0..<ndims md]"] show ?thesis by (simp add: extents_def)
qed

section \<open>The strides of the scales\<close>

text \<open>The number of an element among the dimensions selected by the mask.\<close>

definition scale_number :: "int \<Rightarrow> nat list \<Rightarrow> nat \<Rightarrow> nat" where
  "scale_number msk Ds e =
     (let sel = \<lambda>xs. map snd (filter (\<lambda>(d, y). bit msk d) (zip [0..<length Ds] xs))
      in radix_val (sel Ds) (sel (radix_digits Ds e)))"

fun masked :: "int \<Rightarrow> (nat \<times> nat \<times> int) list \<Rightarrow> nat" where
  "masked msk [] = 1"
| "masked msk ((d, n, s) # A) = (if bit msk d then n else 1) * masked msk A"

fun scale_list :: "int \<Rightarrow> (nat \<times> nat \<times> int) list \<Rightarrow> (nat \<times> int) list" where
  "scale_list msk [] = []"
| "scale_list msk ((d, n, s) # A) = (n, if bit msk d then int (masked msk A) else 0) # scale_list msk A"

lemma dims_prod_scale_list [simp]: "map fst (scale_list msk A) = sizes A"
  by (induction A rule: scale_list.induct) auto

lemma masked_append: "masked msk (A @ B) = masked msk A * masked msk B"
  by (induction A rule: masked.induct) auto

lemma masked_same: "\<forall>a\<in>set A. fst a = d \<Longrightarrow> masked msk A = (if bit msk d then prod_list (sizes A) else 1)"
  by (induction A rule: masked.induct) auto

text \<open>The part of one dimension.\<close>

lemma lin_scale_append:
  "\<forall>a\<in>set A. fst a = d \<Longrightarrow> x < prod_list (sizes (A @ B)) \<Longrightarrow>
    lin (scale_list msk (A @ B)) x =
      (if bit msk d then int (x div prod_list (sizes B)) * int (masked msk B) else 0) +
      lin (scale_list msk B) (x mod prod_list (sizes B))"
proof (induction A arbitrary: x)
  case Nil
  then show ?case by simp
next
  case (Cons a A)
  obtain n s where a: "a = (d, n, s)" using Cons.prems(1) by (cases a) auto
  let ?A = "prod_list (sizes A)" and ?B = "prod_list (sizes B)"
  have pos: "0 < ?A * ?B" using Cons.prems(2) by (cases "?A * ?B = 0") (auto simp: a)
  have IH: "lin (scale_list msk (A @ B)) (x mod (?A * ?B)) =
      (if bit msk d then int (x mod (?A * ?B) div ?B) * int (masked msk B) else 0) +
      lin (scale_list msk B) (x mod (?A * ?B) mod ?B)"
    by (rule Cons.IH) (use Cons.prems(1) pos in simp_all)
  have m: "x mod (?A * ?B) div ?B = x div ?B mod ?A" "x mod (?A * ?B) mod ?B = x mod ?B"
    using pos by (simp_all add: mult.commute [of ?A] mod_mult2_eq)
  have q: "x div (?A * ?B) = x div ?B div ?A" by (simp only: mult.commute [of ?A ?B] div_mult2_eq)
  have msk: "masked msk A = ?A" if "bit msk d" using masked_same [of A d msk] Cons.prems(1) that by simp
  have d: "int (x div ?B div ?A) * int ?A + int (x div ?B mod ?A) = int (x div ?B)"
    using arg_cong [OF div_mult_mod_eq [of "x div ?B" ?A], of int] by (simp only: of_nat_add of_nat_mult)
  have "lin (scale_list msk ((a # A) @ B)) x =
      int (x div (?A * ?B)) * (if bit msk d then int (masked msk (A @ B)) else 0) + lin (scale_list msk (A @ B)) (x mod (?A * ?B))"
    by (simp add: a)
  also have "\<dots> = (if bit msk d then (int (x div ?B div ?A) * int ?A + int (x div ?B mod ?A)) * int (masked msk B) else 0) +
      lin (scale_list msk B) (x mod ?B)"
  proof (cases "bit msk d")
    case True
    show ?thesis unfolding IH q m masked_append msk [OF True] of_nat_mult by (simp only: True if_True distrib_right mult.assoc add.assoc)
  next
    case False
    then show ?thesis unfolding IH m by simp
  qed
  finally show ?case unfolding d .
qed

lemma masked_dims:
  "\<forall>d\<in>set ds. \<forall>a\<in>set (E d). fst a = d \<Longrightarrow>
    masked msk (concat (map E ds)) = prod_list (map (\<lambda>d. prod_list (sizes (E d))) (filter (bit msk) ds))"
proof (induction ds)
  case (Cons d ds)
  then show ?case using masked_same [of "E d" d msk] by (simp add: masked_append)
qed simp

lemma lin_scale_concat:
  "\<forall>d\<in>set ds. \<forall>a\<in>set (E d). fst a = d \<Longrightarrow> (\<And>d. d \<in> set ds \<Longrightarrow> prod_list (sizes (E d)) = D d) \<Longrightarrow>
    x < prod_list (map D ds) \<Longrightarrow>
    lin (scale_list msk (concat (map E ds))) x =
      int (radix_val (map D (filter (bit msk) ds))
        (map snd (filter (\<lambda>(d, y). bit msk d) (zip ds (radix_digits (map D ds) x)))))"
proof (induction ds arbitrary: x)
  case (Cons d ds)
  have c: "prod_list (sizes (concat (map E ds))) = prod_list (map D ds)"
    using Cons.prems(2) by (induction ds) auto
  have p: "0 < prod_list (map D ds)" using Cons.prems(3) by (cases "prod_list (map D ds) = 0") auto
  have m: "masked msk (concat (map E ds)) = prod_list (map D (filter (bit msk) ds))"
    using masked_dims [of ds E msk] Cons.prems(1,2) by (auto intro!: arg_cong [where f = prod_list])
  have IH: "lin (scale_list msk (concat (map E ds))) (x mod prod_list (map D ds)) =
      int (radix_val (map D (filter (bit msk) ds))
        (map snd (filter (\<lambda>(d, y). bit msk d) (zip ds (radix_digits (map D ds) (x mod prod_list (map D ds)))))))"
    by (rule Cons.IH) (use Cons.prems p in auto)
  have "lin (scale_list msk (E d @ concat (map E ds))) x =
      (if bit msk d then int (x div prod_list (map D ds)) * int (prod_list (map D (filter (bit msk) ds))) else 0) +
      lin (scale_list msk (concat (map E ds))) (x mod prod_list (map D ds))"
    using lin_scale_append [of "E d" d x "concat (map E ds)" msk] Cons.prems by (simp add: c m)
  moreover have "x div prod_list (map D ds) mod D d = x div prod_list (map D ds)"
    using Cons.prems(3) p by (intro mod_less) (simp add: less_mult_imp_div_less)
  ultimately show ?case unfolding IH by (simp add: radix_digits_mod)
qed simp

lemma scale_strides_loop:
  "\<forall>k<n. 0 \<le> ld_dims ld k \<Longrightarrow> i < n \<Longrightarrow>
    fst (for_down n (ss_step msk ld) (ss, l)) i =
      (if bit msk (ld_id ld i) then l * int (masked msk (drop (Suc i) (take n (map (\<lambda>k. (ld_id ld k, nat (ld_dims ld k), ld_strides ld k)) [0..<n])))) else ss i)"
proof (induction n arbitrary: ss l)
  case (Suc n)
  let ?e = "\<lambda>k. (ld_id ld k, nat (ld_dims ld k), ld_strides ld k)"
  let ?l = "if bit msk (ld_id ld n) then l * ld_dims ld n else l"
  let ?ss = "if bit msk (ld_id ld n) then ss(n := l) else ss"
  have step: "for_down (Suc n) (ss_step msk ld) (ss, l) = for_down n (ss_step msk ld) (?ss, ?l)"
    by (simp add: for_down_Suc ss_step_def)
  have keep: "fst (for_down m (ss_step msk ld) (f, c)) n = f n" if "m \<le> n" for m f c
    using that by (induction m arbitrary: f c) (simp_all add: for_down_Suc ss_step_def)
  show ?case
  proof (cases "i = n")
    case True
    then show ?thesis using keep [of n ?ss ?l] by (simp add: step)
  next
    case False
    then have i: "i < n" using Suc.prems by simp
    have "fst (for_down n (ss_step msk ld) (?ss, ?l)) i =
        (if bit msk (ld_id ld i) then ?l * int (masked msk (drop (Suc i) (map ?e [0..<n]))) else ?ss i)"
      using Suc.IH [of ?ss ?l] Suc.prems(1) i by simp
    moreover have "drop (Suc i) (map ?e [0..<Suc n]) = drop (Suc i) (map ?e [0..<n]) @ [?e n]" using i by simp
    moreover have "?ss i = ss i" using i by simp
    moreover have "0 \<le> ld_dims ld n" using Suc.prems(1) by simp
    ultimately show ?thesis unfolding step by (simp add: masked_append del: upt_Suc)
  qed
qed simp

lemma scale_list_nth:
  "i < length A \<Longrightarrow> scale_list msk A ! i =
    (fst (snd (A ! i)), if bit msk (fst (A ! i)) then int (masked msk (drop (Suc i) A)) else 0)"
proof (induction A arbitrary: i)
  case (Cons a A)
  then show ?case by (cases a; cases i) auto
qed simp

lemma length_scale_list [simp]: "length (scale_list msk A) = length A"
  by (induction A rule: scale_list.induct) auto

lemma scaled_entries_scale:
  assumes "int_dims ld"
  shows "map scale_entry (scaled_entries (scale_strides msk ld) ld) = scale_list msk (entries ld)"
proof (rule nth_equalityI)
  fix i assume "i < length (map scale_entry (scaled_entries (scale_strides msk ld) ld))"
  then have i: "i < ld_ndims ld" by (simp add: scaled_entries_def)
  have "\<forall>k<ld_ndims ld. 0 \<le> ld_dims ld k" using assms by (auto simp: int_dims_def less_imp_le)
  from scale_strides_loop [OF this i] i
  show "map scale_entry (scaled_entries (scale_strides msk ld) ld) ! i = scale_list msk (entries ld) ! i"
    by (simp add: scale_list_nth scale_strides_def) (simp add: entries_def scaled_entries_def)
qed (simp add: scaled_entries_def)

lemma scaled_entries_none: "lin (map scale_entry (scaled_entries (\<lambda>_. 0) ld)) x = 0"
proof -
  have "lin (map (\<lambda>n. (n, 0)) ns) x = 0" for ns by (induction ns arbitrary: x) simp_all
  moreover have "map scale_entry (scaled_entries (\<lambda>_. 0) ld) = map (\<lambda>n. (n, 0)) (map (\<lambda>k. nat (ld_dims ld k)) [0..<ld_ndims ld])"
    by (simp add: scaled_entries_def)
  ultimately show ?thesis by (simp only:)
qed

lemma scaled_entries_out: "map out_entry (scaled_entries ss ld) = map entry_of (entries ld)" "sizes (scaled_entries ss ld) = sizes (entries ld)"
  by (simp_all add: scaled_entries_def entries_def)

section \<open>What the initial problem visits\<close>

text \<open>The offset of the scale an element takes.\<close>

definition scale_offset :: "primitive_attr \<Rightarrow> memory_desc \<Rightarrow> nat \<Rightarrow> int" where
  "scale_offset attr omd e =
     (if scales_has_default_values (at_output_scales attr) = Some False \<and> sc_mask (at_output_scales attr) \<noteq> 0
      then int (scale_number (sc_mask (at_output_scales attr)) (extents omd True) e) else 0)"

lemma dim_entries_ids: "a \<in> set (dim_entries md d) \<Longrightarrow> fst a = d"
proof -
  have "fst a = d" if "a \<in> set (pushes L d s)" for L s
    using that by (induction L d s rule: pushes.induct) (auto split: if_splits)
  then show "a \<in> set (dim_entries md d) \<Longrightarrow> fst a = d" by (auto simp: dim_entries_def)
qed

lemma off_v_zero:
  assumes "reorder_layout md" "\<forall>d<ndims md. padded_offsets md d = 0" "0 < prod_list (extents md True)"
  shows "off_v md (\<lambda>_. 0) False = offset0 md"
proof -
  have pos: "\<And>d. d < ndims md \<Longrightarrow> 0 < padded_dims md d" using assms(1) by (auto simp: reorder_layout_def)
  have "radix_digits rs 0 = replicate (length rs) 0" for rs by (induction rs) auto
  then have z: "pos_of (radix_digits (extents md True) 0) = (\<lambda>_. 0)" by (auto simp: pos_of_def arr_def fun_eq_iff)
  have s: "shift_pos md (\<lambda>_. 0) = (\<lambda>_. 0)" using assms(2) by (auto simp: shift_pos_def fun_eq_iff)
  have "off_v md (\<lambda>_. 0) False = addr_padded md 0"
    using pos off_l_pos_eq [of md True 0] by (simp add: off_v_shift s addr_padded_def off_l_def z)
  then show ?thesis using addr_padded_lin [OF assms(1,3)] by simp
qed

lemma match_pos:
  "match A B = Some ns \<Longrightarrow> \<forall>n\<in>set (sizes A). 0 < n \<Longrightarrow> \<forall>n\<in>set (sizes B). 0 < n \<Longrightarrow> \<forall>x\<in>set ns. 0 < nd_n x"
proof (induction A B arbitrary: ns rule: match.induct)
  case (1 d n s A e m t u B)
  have pos: "0 < n" "0 < m" using "1.prems"(2,3) by simp_all
  consider (same) "n = m" | (less) "n < m" | (greater) "m < n" by linarith
  then show ?case
  proof cases
    case same
    then show ?thesis using 1 by (auto split: if_splits)
  next
    case less
    moreover have "0 < m div n" using less pos by (simp add: div_greater_zero_iff)
    ultimately show ?thesis using "1.IH"(2) [of "m div n"] "1.prems" pos by (auto simp: Let_def split: if_splits)
  next
    case greater
    moreover have "0 < n div m" using greater pos by (simp add: div_greater_zero_iff)
    ultimately show ?thesis using "1.IH"(3) [of "n div m"] "1.prems" pos by (auto simp: Let_def split: if_splits)
  qed
qed simp_all

lemma prb_init_success:
  assumes init: "prb_init p0 imd omd attr = Some (success, p)"
  shows "\<exists>ild old dflt nd nodes ss. padding_consistent imd omd \<and>
    cvt_mem_desc_to_layout_desc imd = Some (success, ild) \<and> cvt_mem_desc_to_layout_desc omd = Some (success, old) \<and>
    scales_has_default_values (at_output_scales attr) = Some dflt \<and>
    ss = (if \<not> dflt \<and> sc_mask (at_output_scales attr) \<noteq> 0 then scale_strides (sc_mask (at_output_scales attr)) old else (\<lambda>_. 0)) \<and>
    match_loop ss ild old 0 0 0 (prb_nodes p0) = Some (success, nd, nodes) \<and>
    prb_ndims p = nd \<and> prb_nodes p = nodes \<and> prb_ioff p = off_v imd (\<lambda>_. 0) False \<and> prb_ooff p = off_v omd (\<lambda>_. 0) False \<and>
    prb_itype p = ld_dt ild \<and> prb_otype p = ld_dt old \<and> prb_beta p = reorder_beta attr"
proof -
  have pc: "padding_consistent imd omd" using init by (auto simp: prb_init_def split: if_splits)
  obtain ild old dflt where c: "cvt_mem_desc_to_layout_desc imd = Some (success, ild)"
      "cvt_mem_desc_to_layout_desc omd = Some (success, old)" "scales_has_default_values (at_output_scales attr) = Some dflt"
    using init pc unfolding prb_init_def Let_def by (auto simp: bind_eq_Some_conv split: if_splits)
  define ss where "ss = (if \<not> dflt \<and> sc_mask (at_output_scales attr) \<noteq> 0 then scale_strides (sc_mask (at_output_scales attr)) old else (\<lambda>_. 0))"
  have ss: "(if (if dflt then Scale_none else if sc_mask (at_output_scales attr) = 0 then Scale_common else Scale_many) = Scale_many
      then scale_strides (sc_mask (at_output_scales attr)) old else (\<lambda>_. 0)) = ss"
    by (simp add: ss_def)
  obtain nd nodes where m: "match_loop ss ild old 0 0 0 (prb_nodes p0) = Some (success, nd, nodes)"
    using init pc c unfolding prb_init_def Let_def ss by (auto simp: bind_eq_Some_conv ss split: if_splits)
  have "prb_ndims p = nd \<and> prb_nodes p = nodes \<and> prb_ioff p = off_v imd (\<lambda>_. 0) False \<and> prb_ooff p = off_v omd (\<lambda>_. 0) False \<and>
      prb_itype p = ld_dt ild \<and> prb_otype p = ld_dt old \<and> prb_beta p = reorder_beta attr"
    using init pc c m unfolding prb_init_def Let_def ss by (auto simp: ss split: if_splits)
  then show ?thesis using pc c m ss_def by blast
qed

lemma prb_init_copies:
  assumes init: "prb_init p0 imd omd attr = Some (success, p)"
    and im: "reorder_layout imd" and om: "reorder_layout omd" and nd: "md_ndims imd = md_ndims omd"
    and po: "\<forall>d<ndims imd. padded_offsets imd d = 0" "\<forall>d<ndims omd. padded_offsets omd d = 0"
  shows "copies (node_list p) (prb_ioff p, prb_ooff p, 0) =
      (\<Sum>e<prod_list (extents imd True). {#(addr_padded imd e, addr_padded omd e, scale_offset attr omd e)#})"
    and "extents imd True = extents omd True" and "prb_itype p = md_data_type imd" and "prb_otype p = md_data_type omd"
    and "\<forall>x\<in>set (node_list p). 0 < nd_n x" and "prb_beta p = reorder_beta attr"
proof -
  obtain ild old dflt n nodes ss where r: "padding_consistent imd omd"
    "cvt_mem_desc_to_layout_desc imd = Some (success, ild)" "cvt_mem_desc_to_layout_desc omd = Some (success, old)"
    "scales_has_default_values (at_output_scales attr) = Some dflt"
    "ss = (if \<not> dflt \<and> sc_mask (at_output_scales attr) \<noteq> 0 then scale_strides (sc_mask (at_output_scales attr)) old else (\<lambda>_. 0))"
    "match_loop ss ild old 0 0 0 (prb_nodes p0) = Some (success, n, nodes)"
    "prb_ndims p = n" "prb_nodes p = nodes" "prb_ioff p = off_v imd (\<lambda>_. 0) False" "prb_ooff p = off_v omd (\<lambda>_. 0) False"
    "prb_itype p = ld_dt ild" "prb_otype p = ld_dt old" "prb_beta p = reorder_beta attr"
    using prb_init_success [OF init] by (elim exE conjE) (rule that)
  let ?N = "prod_list (extents imd True)"
  note ci = cvt_entries [OF r(2) im] and co = cvt_entries [OF r(3) om]
  have n: "ndims imd = ndims omd" using nd by (simp add: ndims_def)
  have pd: "padded_dims imd d = padded_dims omd d" if "d < ndims imd" for d
    using r(1) that by (simp add: padding_consistent_def Let_def)
  show ext: "extents imd True = extents omd True" using pd by (simp add: extents_def n)
  show "prb_itype p = md_data_type imd" "prb_otype p = md_data_type omd" "prb_beta p = reorder_beta attr"
    using r(11-13) ci(3) co(3) by simp_all
  have pos: "0 < ?N"
  proof -
    have "0 < prod_list (map (\<lambda>d. nat (padded_dims imd d)) ds)" if "\<forall>d\<in>set ds. d < ndims imd" for ds
      using that im by (induction ds) (auto simp: reorder_layout_def)
    then show ?thesis by (simp add: extents_def)
  qed
  obtain ns where m: "match (entries ild) (scaled_entries ss old) = Some ns" and nl: "map nodes [0..<n] = ns"
    using match_loop_match [OF r(6) ci(2) co(2)] by auto
  have nodes: "node_list p = ns" using nl by (simp add: node_list_def r(7,8))
  have sz: "\<forall>n\<in>set (sizes (entries ild)). 0 < n" "\<forall>n\<in>set (sizes (scaled_entries ss old)). 0 < n"
    using ci(2) co(2) by (auto simp: entries_def scaled_entries_def int_dims_def)
  show "\<forall>x\<in>set (node_list p). 0 < nd_n x" unfolding nodes by (rule match_pos [OF m sz])
  have tot: "prod_list (sizes (entries ild)) = ?N" using layout_total [OF im] ci(1) by simp
  have toto: "prod_list (sizes (scaled_entries ss old)) = ?N"
    using layout_total [OF om] co(1) by (simp add: scaled_entries_out ext)
  have ch: "chain (sizes (entries ild)) (sizes (scaled_entries ss old))"
    unfolding scaled_entries_out ci(1) co(1) by (rule layouts_chain [OF im om n pd])
  have off: "prb_ioff p = offset0 imd" "prb_ooff p = offset0 omd"
    using off_v_zero [OF im po(1) pos] off_v_zero [OF om po(2) pos [unfolded ext]] r(9,10) by simp_all
  have sc: "lin (map scale_entry (scaled_entries ss old)) e = scale_offset attr omd e" if e: "e < ?N" for e
  proof (cases "\<not> dflt \<and> sc_mask (at_output_scales attr) \<noteq> 0")
    case True
    let ?msk = "sc_mask (at_output_scales attr)" and ?D = "\<lambda>d. nat (padded_dims omd d)"
    have "lin (scale_list ?msk (concat (map (dim_entries omd) [0..<ndims omd]))) e =
        int (radix_val (map ?D (filter (bit ?msk) [0..<ndims omd]))
          (map snd (filter (\<lambda>(d, y). bit ?msk d) (zip [0..<ndims omd] (radix_digits (map ?D [0..<ndims omd]) e)))))"
      using dim_entries_ids [of _ omd] sizes_dim_entries(2) [OF om] e unfolding ext
      by (intro lin_scale_concat) (auto simp: extents_def)
    moreover have "zip [0..<k] (map ?D [0..<k]) = map (\<lambda>d. (d, ?D d)) [0..<k]" for k
      by (intro nth_equalityI) simp_all
    ultimately show ?thesis using True
      by (simp add: r(4,5) scaled_entries_scale [OF co(2)] co(1) scale_offset_def scale_number_def extents_def Let_def
          filter_map comp_def)
  qed (use r(4) in \<open>auto simp: r(5) scaled_entries_none scale_offset_def\<close>)
  have "copies ns (offset0 imd, offset0 omd, 0) =
      (\<Sum>e<?N. {#visits (entries ild) (scaled_entries ss old) e (offset0 imd, offset0 omd, 0)#})"
    using match_copies [OF m ch] tot toto pos by simp
  also have "\<dots> = (\<Sum>e<?N. {#(addr_padded imd e, addr_padded omd e, scale_offset attr omd e)#})"
  proof (rule sum.cong [OF refl])
    fix e assume "e \<in> {..<?N}"
    then have e: "e < ?N" by simp
    then show "{#visits (entries ild) (scaled_entries ss old) e (offset0 imd, offset0 omd, 0)#} =
        {#(addr_padded imd e, addr_padded omd e, scale_offset attr omd e)#}"
      using addr_padded_lin [OF im e] addr_padded_lin [OF om, of e] sc [OF e]
      by (simp add: visits_def scaled_entries_out ci(1) co(1) ext)
  qed
  finally show "copies (node_list p) (prb_ioff p, prb_ooff p, 0) =
      (\<Sum>e<?N. {#(addr_padded imd e, addr_padded omd e, scale_offset attr omd e)#})"
    by (simp add: nodes off)
qed

section \<open>The nodes of the initial problem\<close>

text \<open>The number of scales the mask asks for, over the padded dimensions; 0 if scales have no strides.\<close>

definition scale_count :: "primitive_attr \<Rightarrow> memory_desc \<Rightarrow> nat" where
  "scale_count attr omd =
     (if scales_has_default_values (at_output_scales attr) = Some False \<and> sc_mask (at_output_scales attr) \<noteq> 0
      then let Ds = extents omd True
           in prod_list (map snd (filter (\<lambda>(d, n). bit (sc_mask (at_output_scales attr)) d) (zip [0..<length Ds] Ds)))
      else 0)"

definition node_ok :: "nat \<Rightarrow> node \<Rightarrow> bool" where
  "node_ok N x \<longleftrightarrow> 0 < nd_n x \<and> 0 < nd_is x \<and> 0 < nd_os x \<and> 0 \<le> nd_ss x \<and> int (nd_n x) * nd_ss x \<le> int N"

lemma match_nodes_ok:
  "match A B = Some ns \<Longrightarrow> chain (sizes A) (sizes B) \<Longrightarrow> \<forall>(d, n, s)\<in>set A. 0 < n \<and> 0 < s \<Longrightarrow>
    \<forall>(d, m, t, u)\<in>set B. 0 < m \<and> 0 < t \<and> 0 \<le> u \<and> int m * u \<le> int N \<Longrightarrow> \<forall>x\<in>set ns. node_ok N x"
proof (induction A B arbitrary: ns rule: match.induct)
  case (1 d n s A e m t u B)
  have ok: "0 < n" "0 < s" "0 < m" "0 < t" "0 \<le> u" "int m * u \<le> int N" using "1.prems"(3,4) by auto
  consider (same) "n = m" | (less) "n < m" | (greater) "m < n" by linarith
  then show ?case
  proof cases
    case same
    then show ?thesis using 1 ok by (auto simp: node_ok_def split: if_splits)
  next
    case less
    have m: "m = n * (m div n)" using "1.prems"(2) less by simp
    have f: "0 < m div n" using less ok by (simp add: div_greater_zero_iff)
    have "int n * (u * int (m div n)) = int (n * (m div n)) * u" by (simp only: of_nat_mult ac_simps)
    then have fu: "int n * (u * int (m div n)) \<le> int N" using ok(6) by (simp only: m [symmetric])
    have "int (m div n) * u \<le> int m * u" using ok(5) by (intro mult_right_mono) simp_all
    then have "int (m div n) * u \<le> int N" using ok(6) by linarith
    then show ?thesis using "1.IH"(2) [of "m div n"] "1.prems" less ok f fu
      by (auto simp: Let_def node_ok_def split: if_splits simp del: of_nat_div)
  next
    case greater
    have f: "0 < n div m" using greater ok by (simp add: div_greater_zero_iff)
    then show ?thesis using "1.IH"(3) [of "n div m"] "1.prems" greater ok
      by (auto simp: Let_def node_ok_def split: if_splits simp del: of_nat_div)
  qed
qed simp_all

lemma masked_suffix:
  "\<forall>a\<in>set A. 0 < fst (snd a) \<Longrightarrow> (n, u) \<in> set (scale_list msk A) \<Longrightarrow> int n * u \<le> int (masked msk A)"
proof (induction A)
  case (Cons a A)
  obtain e k t where a: "a = (e, k, t)" by (cases a)
  have k: "0 < k" using Cons.prems(1) by (simp add: a)
  have "int n * u \<le> int (masked msk A)" if "(n, u) \<in> set (scale_list msk A)"
    using Cons.IH Cons.prems(1) that by simp
  moreover have "int (masked msk A) \<le> int (masked msk (a # A))"
    using mult_le_mono1 [of 1 k "masked msk A"] k by (simp add: a flip: of_nat_mult)
  ultimately show ?case using Cons.prems(2) k by (auto simp: a)
qed simp

lemma pushes_pos: "blocks_ok nd L \<Longrightarrow> 0 < s \<Longrightarrow> (e, n, t) \<in> set (pushes L d s) \<Longrightarrow> 0 < n \<and> 0 < t"
  by (induction L d s rule: pushes.induct) (auto split: if_splits)

lemma dim_entries_pos:
  assumes "reorder_layout md" "\<forall>d<ndims md. 0 < blk_strides (blocking md) d" "d < ndims md" "(e, n, t) \<in> set (dim_entries md d)"
  shows "0 < n \<and> 0 < t"
  using assms outer_extent_bounds(1) [OF assms(1,3)] pushes_pos [of "ndims md" "inner_blocks md" 1 e n t d]
  by (auto simp: dim_entries_def reorder_layout_def)

lemma layout_entries_pos:
  assumes "reorder_layout md" "\<forall>d<ndims md. 0 < blk_strides (blocking md) d"
    and "(e, n, t) \<in> set (concat (map (dim_entries md) [0..<ndims md]))"
  shows "0 < n \<and> 0 < t"
  using assms(3) dim_entries_pos [OF assms(1,2)] by auto

lemma prb_init_nodes_ok:
  assumes init: "prb_init p0 imd omd attr = Some (success, p)"
    and im: "reorder_layout imd" "\<forall>d<ndims imd. 0 < blk_strides (blocking imd) d"
    and om: "reorder_layout omd" "\<forall>d<ndims omd. 0 < blk_strides (blocking omd) d" and nd: "md_ndims imd = md_ndims omd"
  shows "\<forall>x\<in>set (node_list p). node_ok (scale_count attr omd) x"
proof -
  let ?msk = "sc_mask (at_output_scales attr)"
  obtain ild old dflt n nodes ss where r: "padding_consistent imd omd"
    "cvt_mem_desc_to_layout_desc imd = Some (success, ild)" "cvt_mem_desc_to_layout_desc omd = Some (success, old)"
    "scales_has_default_values (at_output_scales attr) = Some dflt"
    "ss = (if \<not> dflt \<and> ?msk \<noteq> 0 then scale_strides ?msk old else (\<lambda>_. 0))"
    "match_loop ss ild old 0 0 0 (prb_nodes p0) = Some (success, n, nodes)" "prb_ndims p = n" "prb_nodes p = nodes"
    using prb_init_success [OF init] by (elim exE conjE) (rule that)
  note ci = cvt_entries [OF r(2) im(1)] and co = cvt_entries [OF r(3) om(1)]
  have n: "ndims imd = ndims omd" using nd by (simp add: ndims_def)
  have pd: "padded_dims imd d = padded_dims omd d" if "d < ndims imd" for d
    using r(1) that by (simp add: padding_consistent_def Let_def)
  obtain ns where m: "match (entries ild) (scaled_entries ss old) = Some ns" and nl: "map nodes [0..<n] = ns"
    using match_loop_match [OF r(6) ci(2) co(2)] by auto
  have ch: "chain (sizes (entries ild)) (sizes (scaled_entries ss old))"
    unfolding scaled_entries_out ci(1) co(1) by (rule layouts_chain [OF im(1) om(1) n pd])
  have A: "\<forall>(d, n, s)\<in>set (entries ild). 0 < n \<and> 0 < s" using layout_entries_pos [OF im] by (auto simp: ci(1))
  have B: "0 < m \<and> 0 < t \<and> 0 \<le> u \<and> int m * u \<le> int (scale_count attr omd)" if x: "(d, m, t, u) \<in> set (scaled_entries ss old)" for d m t u
  proof -
    have e: "(d, m, t) \<in> set (entries old)" using x by (auto simp: scaled_entries_def entries_def)
    then have pos: "0 < m" "0 < t" using layout_entries_pos [OF om] by (auto simp: co(1))
    have "0 \<le> u \<and> int m * u \<le> int (scale_count attr omd)"
    proof (cases "\<not> dflt \<and> ?msk \<noteq> 0")
      case True
      have "(m, u) \<in> set (map scale_entry (scaled_entries ss old))" using x by force
      then have mu: "(m, u) \<in> set (scale_list ?msk (entries old))" using scaled_entries_scale [OF co(2)] r(5) True by simp
      have nn: "0 \<le> u" if "(m, u) \<in> set (scale_list ?msk A)" for A
        using that by (induction A rule: scale_list.induct) auto
      have "int m * u \<le> int (masked ?msk (entries old))"
      proof (rule masked_suffix [OF _ mu], rule ballI)
        fix a assume "a \<in> set (entries old)"
        then show "0 < fst (snd a)" using layout_entries_pos [OF om, of "fst a" "fst (snd a)" "snd (snd a)"] co(1) by simp
      qed
      moreover have "masked ?msk (entries old) = scale_count attr omd"
      proof -
        have z: "zip [0..<k] (map f [0..<k]) = map (\<lambda>d. (d, f d)) [0..<k]" for k and f :: "nat \<Rightarrow> nat"
          by (intro nth_equalityI) simp_all
        have "masked ?msk (entries old) = prod_list (map (\<lambda>d. prod_list (sizes (dim_entries omd d))) (filter (bit ?msk) [0..<ndims omd]))"
          unfolding co(1) by (rule masked_dims) (use dim_entries_ids in blast)
        also have "\<dots> = prod_list (map (\<lambda>d. nat (padded_dims omd d)) (filter (bit ?msk) [0..<ndims omd]))"
          using sizes_dim_entries(2) [OF om(1)] by (intro arg_cong [where f = prod_list] map_cong refl) simp
        finally show ?thesis using True r(4) by (simp add: scale_count_def extents_def Let_def z filter_map comp_def)
      qed
      ultimately show ?thesis using nn [OF mu] by simp
    next
      case False
      then have "u = 0" using x r(5) by (auto simp: scaled_entries_def)
      then show ?thesis by simp
    qed
    then show ?thesis using pos by simp
  qed
  have "\<forall>x\<in>set ns. node_ok (scale_count attr omd) x" by (rule match_nodes_ok [OF m ch A]) (use B in blast)
  then show ?thesis using nl by (simp add: node_list_def r(7,8))
qed

section \<open>Descriptors made from tags\<close>

lemma blocking_table_pow2: "list_all (\<lambda>(_, _, blks, _). list_all (\<lambda>b. b \<in> {2, 4, 8, 16, 32, 64}) blks) blocking_table"
  by (simp add: blocking_table_def)

lemma tag_block_pow2:
  assumes "map_of blocking_table name = Some (perm, blks, ixs)" "b \<in> set blks"
  shows "\<exists>k. int b = 2 ^ Suc k"
proof -
  have "b \<in> {2, 4, 8, 16, 32, 64}"
    using blocking_table_pow2 assms by (fastforce dest!: map_of_SomeD simp: list_all_iff)
  then have "int b = 2 ^ Suc 0 \<or> int b = 2 ^ Suc 1 \<or> int b = 2 ^ Suc 2 \<or> int b = 2 ^ Suc 3 \<or> int b = 2 ^ Suc 4 \<or> int b = 2 ^ Suc 5"
    by auto
  then show ?thesis by blast
qed

lemma init_by_tag_reorder_layout:
  assumes tag: "dnnl_memory_desc_init_by_tag nd (Some dims) dt (Tag name) = (success, Some md)" "nd \<noteq> 0"
    and pos: "\<And>d. d < nat nd \<Longrightarrow> 0 < dims d" and fit: "\<And>d. d < nat nd \<Longrightarrow> padded_dims md d \<le> INT32_MAX"
  shows "reorder_layout md" "\<forall>d<ndims md. padded_offsets md d = 0" "\<forall>d<ndims md. 0 < blk_strides (blocking md) d"
proof -
  obtain perm blks ixs ds where ds: "Some dims = Some ds"
    and t: "map_of blocking_table name = Some (perm, blks, ixs)"
    and f: "fill_blocked (fresh_md nd ds dt fk_blocked) perm blks ixs = (success, md)"
    and len: "nd = int (length perm)"
    by (rule init_by_tag_cases [OF tag])
  from ds have ds: "ds = dims" by simp
  have md0: "md_dims (fresh_md nd dims dt fk_blocked) d = dims d" if "d < nat nd" for d
    using that by (simp add: fresh_md_def array_copy_eq)
  note fb = fill_blocked_dense [OF tag_row [OF t] _ _ _ f [unfolded ds]]
  have dl: "dense_layout md perm" by (rule fb(2)) (use len md0 pos in \<open>auto simp: fresh_md_def\<close>)
  have il: "inner_blocks md = rev (zip ixs (map int blks))"
    by (rule fb(7)) (use len md0 pos in \<open>auto simp: fresh_md_def\<close>)
  have po: "padded_offsets md d = 0" if "d < length perm" for d
    by (rule fb(6) [OF _ _ _ that]) (use len md0 pos in \<open>auto simp: fresh_md_def\<close>)
  have n: "ndims md = length perm" using dl by (rule dense_layout_ndims)
  show "\<forall>d<ndims md. padded_offsets md d = 0" using po n by simp
  have "\<exists>k. snd x = 2 ^ Suc k" if "x \<in> set (inner_blocks md)" for x
  proof -
    have "snd x \<in> set (map int blks)" using that unfolding il by (metis prod.collapse set_rev set_zip_rightD)
    then obtain b where "b \<in> set blks" "snd x = int b" by auto
    then show ?thesis using tag_block_pow2 [OF t] by simp
  qed
  then have p2: "pow2_blocks md" by (auto simp: pow2_blocks_def)
  have ex: "extra_flags (extra md) = 0" using init_by_tag_dense(6) [OF tag pos] by simp
  show "reorder_layout md"
    using dl n p2 ex fit len by (auto simp: reorder_layout_def dense_layout_def is_blocking_desc_def)
  show "\<forall>d<ndims md. 0 < blk_strides (blocking md) d"
  proof (intro allI impI)
    fix d assume "d < ndims md"
    then have "d \<in> set perm" using dl n by (auto simp: dense_layout_def)
    then obtain xs ys where perm: "perm = xs @ d # ys" by (meson split_list)
    have "blk_strides (blocking md) d = block_size md * prod_list (map (outer_extent md) ys)"
      by (rule dense_stride_at [of _ _ _ xs]) (use dl perm in \<open>simp add: dense_layout_def\<close>)
    moreover have "0 < block_size md"
      unfolding block_size_def by (rule blocks_prod_pos [of "length perm"]) (use dl in \<open>simp add: dense_layout_def\<close>)
    moreover have "0 < outer_extent md e" if "e < length perm" for e
    proof -
      have "0 < dim_blocks (inner_blocks md) e" by (rule dim_blocks_pos [of "length perm"]) (use dl in \<open>simp add: dense_layout_def\<close>)
      then show ?thesis using dl that by (simp add: dense_layout_def outer_extent_def pos_imp_zdiv_pos_iff zdvd_imp_le)
    qed
    then have "0 < prod_list (map (outer_extent md) ys)"
      using dl perm by (intro outer_prod_pos [where q = "\<lambda>_. 0"]) (auto simp: dense_layout_def)
    ultimately show "0 < blk_strides (blocking md) d" by simp
  qed
qed

end
