(* ===== verification/Reorder_Plan.thy ===== *)
theory Reorder_Plan
  imports Reorder_Init
begin

text \<open>
  Planning of the optimised CPU reorder (\<open>src/src/cpu/jit_uni_reorder.cpp\<close>): the loop nest of a
  reorder problem is blocked for the cache, balanced between the threads of the driver and the
  generated kernel, and cut into a kernel nest and a driver nest of at most four loops. Whatever
  is decided, the nest visits the same positions. The search for a divisor, a loop without an
  obvious end in the code, is a partial function and is shown to return.

  The processor's features, the number of threads and the success of the allocation are
  parameters.
\<close>

section \<open>Blocking for the cache\<close>

definition cache_blocking_needed :: "prb \<Rightarrow> bool" where
  "cache_blocking_needed p \<longleftrightarrow>
     nd_is (prb_nodes p 0) smod 64 = 0 \<and> nd_n (prb_nodes p 0) > 16 \<or>
     prb_ndims p > 1 \<and> nd_is (prb_nodes p 1) smod 64 = 0 \<and> nd_n (prb_nodes p 1) > 16"

text \<open>The index \<open>-1\<close> of no node is \<open>None\<close>; the last node with unit stride wins.\<close>

definition unit_input_stride_idx :: "prb \<Rightarrow> nat option" where
  "unit_input_stride_idx p =
     for_upto (prb_ndims p) (\<lambda>idx u. if nd_is (prb_nodes p idx) = 1 then Some idx else u) None"

definition move_unit_input_stride :: "nat \<Rightarrow> prb \<Rightarrow> prb option" where
  "move_unit_input_stride idx p =
     (let output_stride = nd_os (prb_nodes p idx); num_elems = nd_n (prb_nodes p idx);
          split_needed = num_elems > 16 \<and> num_elems mod 16 = 0;
          move_location = (if output_stride smod 4 \<noteq> 0 then 0 else 1)
      in Option.bind (if split_needed then prb_node_split p idx 16 else Some p)
           (\<lambda>p. Some (prb_node_move p idx move_location)))"

definition split_unit_output_stride :: "prb \<Rightarrow> prb option" where
  "split_unit_output_stride p =
     (if prb_ndims p \<ge> 2 \<and> nd_os (prb_nodes p 0) = 1 \<and> nd_is (prb_nodes p 1) = 1 then
        let input_stride = nd_is (prb_nodes p 0); num_elems = nd_n (prb_nodes p 0);
            split_needed = num_elems > 16 \<and> num_elems mod 16 = 0 \<and> input_stride \<ge> 256 \<and> input_stride smod 64 = 0
        in if split_needed then map_option (\<lambda>p. prb_node_move p 1 2) (prb_node_split p 0 16) else Some p
      else Some p)"

definition prb_block_for_cache :: "prb \<Rightarrow> prb option" where
  "prb_block_for_cache p =
     (if \<not> cache_blocking_needed p then Some p
      else Option.bind
        (case unit_input_stride_idx p of None \<Rightarrow> Some p | Some idx \<Rightarrow> move_unit_input_stride idx p)
        split_unit_output_stride)"

section \<open>Balancing the kernel and the driver\<close>

definition ker_prb_size_min :: nat where
  "ker_prb_size_min = 64"

definition div_up_size :: "nat \<Rightarrow> nat \<Rightarrow> nat" where
  "div_up_size a b = (a + b - 1) div b"

definition nodes_size :: "prb \<Rightarrow> nat \<Rightarrow> nat" where
  "nodes_size p k = for_upto k (\<lambda>d sz. sz * nd_n (prb_nodes p d)) 1"

function kdims_loop :: "prb \<Rightarrow> nat \<Rightarrow> nat \<Rightarrow> nat \<Rightarrow> nat \<times> nat" where
  "kdims_loop p sz_drv_min kdims sz_drv_cur =
     (if kdims > 1 \<and> sz_drv_cur < sz_drv_min
      then kdims_loop p sz_drv_min (kdims - 1) (sz_drv_cur * nd_n (prb_nodes p (kdims - 1)))
      else (kdims, sz_drv_cur))"
  by pat_completeness auto
termination by (relation "measure (\<lambda>(p, m, kdims, c). kdims)") auto

declare kdims_loop.simps [simp del]

text \<open>
  \<open>for (; n % sz_want_borrow; ++sz_want_borrow)\<close>: \<open>None\<close> when the loop never ends (the code's
  counter would wrap around to a division by zero).
\<close>

partial_function (option) borrow_loop :: "nat \<Rightarrow> nat \<Rightarrow> nat option" where
  "borrow_loop n sz_want_borrow =
     (if n mod sz_want_borrow = 0 then Some sz_want_borrow else borrow_loop n (sz_want_borrow + 1))"

declare borrow_loop.simps [code]

definition borrow_ker_from_drv :: "nat \<Rightarrow> nat \<Rightarrow> prb \<Rightarrow> (prb \<times> nat) option" where
  "borrow_ker_from_drv kdims sz_ker_cur p =
     Option.bind (borrow_loop (nd_n (prb_nodes p kdims)) (div_up_size ker_prb_size_min sz_ker_cur))
       (\<lambda>sz_want_borrow.
          map_option (\<lambda>p. (p, kdims + 1))
            (if sz_want_borrow \<noteq> nd_n (prb_nodes p kdims) then prb_node_split p kdims sz_want_borrow else Some p))"

definition borrow_drv_from_ker :: "nat \<Rightarrow> nat \<Rightarrow> nat \<Rightarrow> prb \<Rightarrow> (prb \<times> nat) option" where
  "borrow_drv_from_ker kdims sz_drv_min sz_drv_cur p =
     Option.bind (borrow_loop (nd_n (prb_nodes p (kdims - 1))) (div_up_size sz_drv_min sz_drv_cur))
       (\<lambda>sz_want_borrow.
          map_option (\<lambda>p. (p, kdims))
            (if sz_want_borrow \<noteq> nd_n (prb_nodes p (kdims - 1))
             then prb_node_split p (kdims - 1) (nd_n (prb_nodes p (kdims - 1)) div sz_want_borrow) else Some p))"

text \<open>The two cases exclude each other; \<open>kdims\<close> is at least one in the second.\<close>

definition prb_thread_kernel_balance :: "nat \<Rightarrow> prb \<Rightarrow> (prb \<times> nat) option" where
  "prb_thread_kernel_balance max_threads p =
     (let sz_total = nodes_size p (prb_ndims p);
          sz_drv_min = min (16 * max_threads) (div_up_size sz_total 1024);
          (kdims, sz_drv_cur) = kdims_loop p sz_drv_min (prb_ndims p) 1;
          sz_ker_cur = nodes_size p kdims
      in if kdims < prb_ndims p \<and> sz_ker_cur < ker_prb_size_min \<and> sz_drv_cur > sz_drv_min
         then borrow_ker_from_drv kdims sz_ker_cur p
         else if sz_ker_cur > ker_prb_size_min \<and> sz_drv_cur < sz_drv_min
         then borrow_drv_from_ker kdims sz_drv_min sz_drv_cur p
         else Some (p, kdims))"

section \<open>The kernel's part\<close>

datatype cpu_isa = isa_any | sse41 | avx | avx2 | avx512_common | avx512_core | avx512_core_vnni | avx512_mic
  | avx512_mic_4ops | avx512_core_bf16

record simple_impl_desc =
  si_ndims_full_unroll :: nat
  si_len_last_dim_unroll :: nat
  si_len_unroll :: nat

definition len_unroll_max :: nat where
  "len_unroll_max = 256"

definition ndims_jit_loop_max :: nat where
  "ndims_jit_loop_max = 3"

fun last_dim_unroll :: "nat \<Rightarrow> nat \<Rightarrow> nat" where
  "last_dim_unroll n 0 = 0"
| "last_dim_unroll n (Suc l) = (if n mod Suc l \<noteq> 0 then last_dim_unroll n l else Suc l)"

function unroll_loop :: "prb \<Rightarrow> nat \<Rightarrow> nat \<Rightarrow> nat \<Rightarrow> simple_impl_desc" where
  "unroll_loop p d full len =
     (if d < prb_ndims p then
        if len * nd_n (prb_nodes p d) \<le> len_unroll_max
        then unroll_loop p (d + 1) (full + 1) (len * nd_n (prb_nodes p d))
        else
          let last = last_dim_unroll (nd_n (prb_nodes p d)) (len_unroll_max div len)
          in \<lparr>si_ndims_full_unroll = full, si_len_last_dim_unroll = last, si_len_unroll = len * last\<rparr>
      else \<lparr>si_ndims_full_unroll = full, si_len_last_dim_unroll = 1, si_len_unroll = len\<rparr>)"
  by pat_completeness auto
termination by (relation "measure (\<lambda>(p, d, full, len). prb_ndims p - d)") auto

declare unroll_loop.simps [simp del]

text \<open>The descriptor, or \<open>None\<close> for the result \<open>false\<close>.\<close>

definition simple_impl_desc_init :: "prb \<Rightarrow> simple_impl_desc option" where
  "simple_impl_desc_init p =
     (let desc = unroll_loop p 0 0 1
      in if prb_ndims p - si_ndims_full_unroll desc > ndims_jit_loop_max then None else Some desc)"

definition strides_fit :: "prb \<Rightarrow> bool" where
  "strides_fit p =
     all_upto (prb_ndims p) (\<lambda>d.
       let max_stride = 2 ^ 31 - 1; cms = max_stride div int (nd_n (prb_nodes p d))
       in nd_is (prb_nodes p d) < cms sdiv int (data_type_size (prb_itype p)) \<and>
          nd_os (prb_nodes p d) < cms sdiv int (data_type_size (prb_otype p)))"

definition ker_applicable :: "(cpu_isa \<Rightarrow> bool) \<Rightarrow> prb \<Rightarrow> bool" where
  "ker_applicable mayiuse p =
     (let ok = prb_ndims p > 0 \<and>
            prb_itype p \<in> {f32, bf16, s32, s8, u8} \<and> prb_otype p \<in> {f32, bf16, s32, s8, u8} \<and>
            (prb_itype p = bf16 \<longrightarrow> prb_otype p \<in> {f32, bf16}) \<and>
            (prb_otype p = bf16 \<longrightarrow> prb_itype p \<in> {f32, bf16}) \<and>
            prb_ioff p = 0 \<and> prb_ooff p = 0 \<and>
            (f32_eq (prb_beta p) 0 \<or> f32_eq (prb_beta p) f32_one) \<and>
            simple_impl_desc_init p \<noteq> None \<and> mayiuse sse41 \<and>
            (\<not> (prb_itype p = f32 \<and> prb_otype p = f32) \<longrightarrow> mayiuse avx) \<and>
            (prb_itype p = bf16 \<or> prb_otype p = bf16 \<longrightarrow> mayiuse avx512_core)
      in if \<not> ok then False else strides_fit p)"

record kernel_desc =
  kd_id :: int
  kd_prb :: prb

text \<open>\<open>ndims_ker_max_f\<close>\<close>

function ndims_ker_loop :: "prb \<Rightarrow> nat \<Rightarrow> nat \<Rightarrow> nat" where
  "ndims_ker_loop p d cur_size =
     (if d < prb_ndims p then
        if cur_size \<ge> ker_prb_size_min then d else ndims_ker_loop p (d + 1) (cur_size * nd_n (prb_nodes p d))
      else prb_ndims p)"
  by pat_completeness auto
termination by (relation "measure (\<lambda>(p, d, c). prb_ndims p - d)") auto

declare ndims_ker_loop.simps [simp del]

text \<open>The loop over the numbers of kernel dimensions, from \<open>ndims_ker_max\<close> down.\<close>

fun ker_search :: "(cpu_isa \<Rightarrow> bool) \<Rightarrow> kernel_desc \<Rightarrow> nat \<Rightarrow> status \<times> kernel_desc" where
  "ker_search mayiuse desc 0 = (unimplemented, desc)"
| "ker_search mayiuse desc (Suc k) =
     (let desc = desc\<lparr>kd_prb := kd_prb desc\<lparr>prb_ndims := Suc k\<rparr>\<rparr>
      in if ker_applicable mayiuse (kd_prb desc) then (success, desc) else ker_search mayiuse desc k)"

definition kernel_desc_init :: "(cpu_isa \<Rightarrow> bool) \<Rightarrow> prb \<Rightarrow> nat \<Rightarrow> status \<times> kernel_desc" where
  "kernel_desc_init mayiuse p ndims_ker_max =
     (let desc = \<lparr>kd_id = 0, kd_prb = p\<lparr>prb_ioff := 0, prb_ooff := 0\<rparr>\<rparr>
      in if ndims_ker_max > prb_ndims p then (invalid_arguments, desc)
         else ker_search mayiuse desc (if ndims_ker_max = 0 then ndims_ker_loop p 0 1 else ndims_ker_max))"

section \<open>Creation\<close>

definition ndims_driver_max :: nat where
  "ndims_driver_max = 4"

definition jit_uni_reorder_create :: "(cpu_isa \<Rightarrow> bool) \<Rightarrow> nat \<Rightarrow> bool \<Rightarrow> primitive_attr \<Rightarrow> memory_desc \<Rightarrow> memory_desc \<Rightarrow>
    (status \<times> (prb \<times> kernel_desc) option) option" where
  "jit_uni_reorder_create mayiuse max_threads allocated attr src_md dst_md =
     Option.bind (prb_init zero_prb src_md dst_md attr) (\<lambda>(st, p).
       if st \<noteq> success then Some (st, None)
       else Option.bind (prb_block_for_cache (prb_simplify (prb_normalize p))) (\<lambda>p.
         Option.bind (prb_thread_kernel_balance max_threads p) (\<lambda>(p, ndims_ker_max).
           let (st, ker_desc) = kernel_desc_init mayiuse p ndims_ker_max
           in if st \<noteq> success then Some (st, None)
              else if prb_ndims p - prb_ndims (kd_prb ker_desc) > ndims_driver_max then Some (unimplemented, None)
              else if \<not> allocated then Some (out_of_memory, None)
              else if cpu_reorder_pd_init attr \<noteq> success then Some (unimplemented, None)
              else Some (success, Some (p, ker_desc)))))"

section \<open>Planning keeps the work\<close>

text \<open>\<open>p'\<close> does the work of \<open>p\<close>: same positions, well-formed nodes if those of \<open>p\<close> are, same header.\<close>

definition same_work :: "nat \<Rightarrow> prb \<Rightarrow> prb \<Rightarrow> bool" where
  "same_work N p p' \<longleftrightarrow>
     (\<forall>q. copies (node_list p') q = copies (node_list p) q) \<and>
     (\<forall>x\<in>set (node_list p'). node_ok N x) \<and>
     p'\<lparr>prb_ndims := 0, prb_nodes := (\<lambda>_. zero_node)\<rparr> = p\<lparr>prb_ndims := 0, prb_nodes := (\<lambda>_. zero_node)\<rparr>"

lemma same_work_trans: "same_work N p q \<Longrightarrow> same_work N q r \<Longrightarrow> same_work N p r"
  by (simp add: same_work_def)

lemma same_work_ok: "same_work N p p' \<Longrightarrow> \<forall>x\<in>set (node_list p'). node_ok N x"
  by (simp add: same_work_def)

lemma same_work_refl: "\<forall>x\<in>set (node_list p). node_ok N x \<Longrightarrow> same_work N p p"
  by (simp add: same_work_def)

lemma same_work_nodes:
  assumes "mset (node_list (p\<lparr>prb_nodes := a\<rparr>)) = mset (node_list p)" "\<forall>x\<in>set (node_list p). node_ok N x"
  shows "same_work N p (p\<lparr>prb_nodes := a\<rparr>)"
  using assms copies_perm [OF assms(1)] by (auto simp: same_work_def dest: mset_eq_setD)

lemma node_ok_at: "\<forall>x\<in>set (node_list p). node_ok N x \<Longrightarrow> i < prb_ndims p \<Longrightarrow> node_ok N (prb_nodes p i)"
  by (simp add: node_list_def)

lemma same_work_move:
  assumes "\<forall>x\<in>set (node_list p). node_ok N x" "d0 < prb_ndims p" "d1 < prb_ndims p"
  shows "same_work N p (prb_node_move p d0 d1)"
proof -
  have "prb_node_move p d0 d1 = p\<lparr>prb_nodes := prb_nodes (prb_node_move p d0 d1)\<rparr>"
    by (simp add: prb_node_move_def Let_def)
  then show ?thesis using same_work_nodes node_move_perm [OF assms(2,3)] assms(1) by metis
qed

lemma same_work_normalize:
  assumes "\<forall>x\<in>set (node_list p). node_ok N x"
  shows "same_work N p (prb_normalize p)" "prb_ndims (prb_normalize p) = prb_ndims p"
proof -
  let ?z = "\<lambda>r. r\<lparr>prb_ndims := 0, prb_nodes := \<lambda>_. zero_node\<rparr>"
  have "?z (prb_normalize p) = ?z p" unfolding prb_normalize_def
    by (rule for_range_inv [where I = "\<lambda>_ r. ?z r = ?z p"]) (auto simp: Let_def)
  moreover have m: "mset (node_list (prb_normalize p)) = mset (node_list p)" using normalize_perm by blast
  ultimately show "same_work N p (prb_normalize p)"
    using assms copies_perm [OF m] mset_eq_setD [OF m] by (simp add: same_work_def)
  show "prb_ndims (prb_normalize p) = prb_ndims p" using normalize_perm by blast
qed

lemma node_ok_fold: "can_fold x y \<Longrightarrow> node_ok N x \<Longrightarrow> node_ok N y \<Longrightarrow> node_ok N (x\<lparr>nd_n := nd_n x * nd_n y\<rparr>)"
  by (auto simp: can_fold_def node_ok_def mult.assoc mult.left_commute)

lemma same_work_simplify_loop:
  "\<forall>x\<in>set (node_list p). node_ok N x \<Longrightarrow> same_work N p (prb_simplify_loop d p)"
proof (induction d p rule: prb_simplify_loop.induct)
  case (1 d p)
  show ?case
  proof (cases "d + 1 < prb_ndims p \<and> can_fold (prb_nodes p d) (prb_nodes p (d + 1))")
    case True
    let ?x = "prb_nodes p d" and ?y = "prb_nodes p (d + 1)"
    let ?p = "p\<lparr>prb_nodes := for_range (d + 2) (prb_ndims p) (\<lambda>j nodes. nodes(j - 1 := nodes j))
      ((prb_nodes p)(d := ?x\<lparr>nd_n := nd_n ?x * nd_n ?y\<rparr>)), prb_ndims := prb_ndims p - 1\<rparr>"
    have r: "prb_simplify_loop d p = prb_simplify_loop d ?p"
      using True by (subst prb_simplify_loop.simps) (simp only: Let_def simp_thms if_True)
    have l: "node_list ?p = take d (node_list p) @ ?x\<lparr>nd_n := nd_n ?x * nd_n ?y\<rparr> # drop (d + 2) (node_list p)"
      by (rule fold_step_list) (use True in simp)
    have "node_ok N ?x" "node_ok N ?y" using node_ok_at [OF "1.prems"] True by auto
    then have "node_ok N (?x\<lparr>nd_n := nd_n ?x * nd_n ?y\<rparr>)" using node_ok_fold True by blast
    then have ok: "\<forall>x\<in>set (node_list ?p). node_ok N x"
      using "1.prems" unfolding l by (auto dest: in_set_takeD in_set_dropD)
    have "same_work N ?p (prb_simplify_loop d ?p)" by (rule "1.IH"(1)) (use True ok in auto)
    then show ?thesis using simplify_loop_copies [of d p] by (simp add: same_work_def r)
  next
    case False
    then have r: "prb_simplify_loop d p = (if d + 1 < prb_ndims p then prb_simplify_loop (d + 1) p else p)"
      by (subst prb_simplify_loop.simps) auto
    show ?thesis
    proof (cases "d + 1 < prb_ndims p")
      case True
      then show ?thesis using "1.IH"(2) False "1.prems" unfolding r by simp
    next
      case False
      then show ?thesis using same_work_refl [OF "1.prems"] unfolding r by simp
    qed
  qed
qed

lemma same_work_split:
  assumes ok: "\<forall>x\<in>set (node_list p). node_ok N x" and split: "prb_node_split p dim n1 = Some p'"
    and dim: "dim < prb_ndims p" and n1: "n1 dvd nd_n (prb_nodes p dim)"
  shows "same_work N p p'"
proof -
  let ?x = "prb_nodes p dim" and ?L = "node_list p"
  have x: "node_ok N ?x" by (rule node_ok_at [OF ok dim])
  obtain k where k: "nd_n ?x = n1 * k" using n1 by (rule dvdE)
  then have pos: "0 < n1" "0 < k" using x by (auto simp: node_ok_def)
  have le: "int n1 * nd_ss ?x \<le> int (nd_n ?x) * nd_ss ?x"
    using x pos mult_le_mono2 [of 1 k n1] by (intro mult_right_mono) (auto simp: k node_ok_def simp flip: of_nat_mult)
  have "node_ok N (?x\<lparr>nd_n := n1\<rparr>)" using x pos le by (auto simp: node_ok_def)
  moreover have "node_ok N \<lparr>nd_n = nd_n ?x div n1, nd_is = nd_is ?x * int n1, nd_os = nd_os ?x * int n1, nd_ss = nd_ss ?x * int n1\<rparr>"
    using x pos by (auto simp: node_ok_def k algebra_simps)
  ultimately have "\<forall>x\<in>set (node_list p'). node_ok N x"
    using ok unfolding node_split_list [OF split dim] Let_def by (auto dest: in_set_takeD in_set_dropD)
  moreover have "p'\<lparr>prb_ndims := 0, prb_nodes := \<lambda>_. zero_node\<rparr> = p\<lparr>prb_ndims := 0, prb_nodes := \<lambda>_. zero_node\<rparr>"
    using split by (auto simp: prb_node_split_def Let_def split: if_splits)
  ultimately show ?thesis using node_split_copies [OF split dim n1] by (simp add: same_work_def)
qed

text \<open>Blocking for the cache.\<close>

lemma unit_stride_found:
  "unit_input_stride_idx p = Some idx \<Longrightarrow> idx < prb_ndims p \<and> nd_is (prb_nodes p idx) = 1"
proof -
  have "\<forall>idx. unit_input_stride_idx p = Some idx \<longrightarrow> idx < prb_ndims p \<and> nd_is (prb_nodes p idx) = 1"
    unfolding unit_input_stride_idx_def
    by (rule for_range_inv [where I = "\<lambda>k u. \<forall>idx. u = Some idx \<longrightarrow> idx < k \<and> nd_is (prb_nodes p idx) = 1"])
      (auto simp: less_Suc_eq)
  then show "unit_input_stride_idx p = Some idx \<Longrightarrow> idx < prb_ndims p \<and> nd_is (prb_nodes p idx) = 1" by blast
qed

lemma split_unit_work:
  assumes "\<forall>x\<in>set (node_list p). node_ok N x" "split_unit_output_stride p = Some p'"
  shows "same_work N p p' \<and> prb_ndims p' \<le> prb_ndims p + 1"
proof (cases "prb_ndims p \<ge> 2 \<and> nd_n (prb_nodes p 0) mod 16 = 0 \<and> split_unit_output_stride p \<noteq> Some p")
  case True
  then obtain r where r: "prb_node_split p 0 16 = Some r" "p' = prb_node_move r 1 2"
    using assms(2) by (auto simp: split_unit_output_stride_def Let_def split: if_splits)
  have "same_work N p r" by (rule same_work_split [OF assms(1) r(1)]) (use True in auto)
  moreover have "same_work N r p'" unfolding r(2)
    by (rule same_work_move [OF same_work_ok [OF \<open>same_work N p r\<close>]]) (use node_split_ndims [OF r(1)] True in auto)
  ultimately show ?thesis using node_split_ndims [OF r(1)] r(2) same_work_trans by auto
next
  case False
  then have "p' = p" using assms(2) by (auto simp: split_unit_output_stride_def Let_def split: if_splits)
  then show ?thesis using same_work_refl [OF assms(1)] by simp
qed

lemma move_unit_work:
  assumes ok: "\<forall>x\<in>set (node_list p). node_ok N x" and r: "move_unit_input_stride idx p = Some p'"
    and idx: "idx < prb_ndims p" and two: "1 < prb_ndims p"
  shows "same_work N p p' \<and> prb_ndims p' \<le> prb_ndims p + 1"
proof -
  let ?n = "nd_n (prb_nodes p idx)"
  obtain s loc where s: "(if ?n > 16 \<and> ?n mod 16 = 0 then prb_node_split p idx 16 else Some p) = Some s"
      "p' = prb_node_move s idx loc" "loc \<le> 1"
    using r unfolding move_unit_input_stride_def Let_def by (fastforce simp: bind_eq_Some_conv)
  have w: "same_work N p s \<and> prb_ndims p \<le> prb_ndims s \<and> prb_ndims s \<le> prb_ndims p + 1"
  proof (cases "?n > 16 \<and> ?n mod 16 = 0")
    case True
    then show ?thesis using s(1) same_work_split [OF ok _ idx, of 16 s] node_split_ndims [of p idx 16 s] by auto
  next
    case False
    then show ?thesis using s(1) same_work_refl [OF ok] by auto
  qed
  then have "same_work N s p'" unfolding s(2)
    by (intro same_work_move same_work_ok [of N p s]) (use idx two s(3) in auto)
  then show ?thesis using w same_work_trans s(2) by auto
qed

lemma block_for_cache_work:
  assumes ok: "\<forall>x\<in>set (node_list p). node_ok N x" and r: "prb_block_for_cache p = Some p'"
  shows "same_work N p p' \<and> prb_ndims p' \<le> prb_ndims p + 2"
proof (cases "cache_blocking_needed p")
  case True
  obtain s where s: "(case unit_input_stride_idx p of None \<Rightarrow> Some p | Some idx \<Rightarrow> move_unit_input_stride idx p) = Some s"
      "split_unit_output_stride s = Some p'"
    using r True by (auto simp: prb_block_for_cache_def bind_eq_Some_conv)
  have w: "same_work N p s \<and> prb_ndims s \<le> prb_ndims p + 1"
  proof (cases "unit_input_stride_idx p")
    case None
    then show ?thesis using s(1) same_work_refl [OF ok] by simp
  next
    case (Some idx)
    note u = unit_stride_found [OF Some]
    have "1 < prb_ndims p"
    proof (rule ccontr)
      assume "\<not> 1 < prb_ndims p"
      then have "nd_is (prb_nodes p 0) smod 64 = 0" "idx = 0" using True u by (auto simp: cache_blocking_needed_def)
      then show False using u by (simp add: cdiv_simps)
    qed
    then show ?thesis using move_unit_work [OF ok _ _ ] s(1) u Some by auto
  qed
  have "same_work N s p' \<and> prb_ndims p' \<le> prb_ndims s + 1"
    by (rule split_unit_work [OF _ s(2)]) (use w same_work_ok in blast)
  then show ?thesis using w same_work_trans [of N p s p'] by auto
next
  case False
  then show ?thesis using r same_work_refl [OF ok] by (auto simp: prb_block_for_cache_def)
qed

text \<open>The search for a divisor: what it finds, and that it ends.\<close>

lemma borrow_loop_sound: "borrow_loop n w = Some v \<Longrightarrow> v dvd n \<and> w \<le> v"
proof (rule borrow_loop.raw_induct [of "\<lambda>n w v. v dvd n \<and> w \<le> v"])
  fix borrow and n w v :: nat
  assume IH: "\<And>n w v. borrow n w = Some v \<Longrightarrow> v dvd n \<and> w \<le> v"
    and r: "(if n mod w = 0 then Some w else borrow n (w + 1)) = Some v"
  show "v dvd n \<and> w \<le> v"
  proof (cases "n mod w = 0")
    case True
    then show ?thesis using r by (auto simp: mod_eq_0_iff_dvd)
  next
    case False
    then show ?thesis using IH [of n "w + 1" v] r by simp
  qed
qed

lemma borrow_loop_ends: "0 < w \<Longrightarrow> w \<le> n \<Longrightarrow> \<exists>v. borrow_loop n w = Some v \<and> v \<le> n"
proof (induction "n - w" arbitrary: w)
  case 0
  then show ?case by (subst borrow_loop.simps) simp
next
  case (Suc k)
  then show ?case by (subst borrow_loop.simps) auto
qed

lemma nodes_size_eq: "nodes_size p k = prod_list (map (\<lambda>d. nd_n (prb_nodes p d)) [0..<k])"
  by (induction k) (simp_all add: nodes_size_def for_range_Suc)

lemma kdims_loop_spec:
  "kdims_loop p m k c = (k', c') \<Longrightarrow> k' \<le> k \<and> c' * nodes_size p k' = c * nodes_size p k \<and> (1 < k' \<longrightarrow> m \<le> c') \<and>
    (k' = k \<and> c' = c \<or> 0 < k' \<and> k' < k \<and> (\<exists>b. c' = b * nd_n (prb_nodes p k') \<and> b < m))"
proof (induction p m k c rule: kdims_loop.induct)
  case (1 p m k c)
  show ?case
  proof (cases "1 < k \<and> c < m")
    case True
    have s: "nodes_size p k = nodes_size p (k - 1) * nd_n (prb_nodes p (k - 1))"
      using True by (cases k) (simp_all add: nodes_size_eq)
    have "kdims_loop p m (k - 1) (c * nd_n (prb_nodes p (k - 1))) = (k', c')"
      using "1.prems" True by (subst (asm) kdims_loop.simps) simp
    note IH = "1.IH" [OF True this]
    then have "k' = k - 1 \<and> c' = c * nd_n (prb_nodes p k') \<or> 0 < k' \<and> k' < k \<and> (\<exists>b. c' = b * nd_n (prb_nodes p k') \<and> b < m)" by auto
    then show ?thesis using IH True s by auto
  next
    case False
    then show ?thesis using "1.prems" by (subst (asm) kdims_loop.simps) auto
  qed
qed

lemma div_up_size_le: "0 < b \<Longrightarrow> div_up_size a b \<le> n \<longleftrightarrow> a \<le> n * b"
proof -
  assume b: "0 < b"
  have "(a + b - 1) div b \<le> n \<longleftrightarrow> a + b - 1 < Suc n * b" using b by (simp add: less_Suc_eq_le [symmetric] div_less_iff_less_mult)
  then show ?thesis using b by (auto simp: div_up_size_def)
qed

lemma div_up_size_pos: "0 < a \<Longrightarrow> 0 < b \<Longrightarrow> 0 < div_up_size a b"
  using div_up_size_le [of b a 0] by (cases "div_up_size a b") auto

lemma nodes_size_pos: "\<forall>x\<in>set (node_list p). node_ok N x \<Longrightarrow> k \<le> prb_ndims p \<Longrightarrow> 0 < nodes_size p k"
proof (induction k)
  case (Suc k)
  then show ?case using node_ok_at [of p N k] by (simp add: nodes_size_eq node_ok_def)
qed (simp add: nodes_size_eq)

lemma nodes_size_part: "nodes_size p (k + 1) = nodes_size p k * nd_n (prb_nodes p k)"
  by (simp add: nodes_size_eq)

text \<open>
  When the kernel borrows from the driver, the two dimensions together have more than 1024
  elements, so the search is bounded; when the driver borrows, one node is the whole kernel.
\<close>

lemma kernel_borrow_bound:
  assumes "kdims_loop p (min m (div_up_size (nodes_size p nd) 1024)) nd 1 = (k, c)" "k < nd"
    and pos: "\<And>j. j \<le> nd \<Longrightarrow> 0 < nodes_size p j"
  shows "1024 < nd_n (prb_nodes p k) * nodes_size p k" "0 < k"
proof -
  let ?m = "min m (div_up_size (nodes_size p nd) 1024)"
  obtain b where b: "c = b * nd_n (prb_nodes p k)" "b < ?m" "0 < k" and t: "c * nodes_size p k = nodes_size p nd"
    using kdims_loop_spec [OF assms(1)] assms(2) by auto
  then have "\<not> nodes_size p nd \<le> b * 1024" using div_up_size_le [of 1024 "nodes_size p nd" b] by simp
  then have "b * 1024 < b * (nd_n (prb_nodes p k) * nodes_size p k)" using t b(1) by (simp add: mult.assoc)
  then show "1024 < nd_n (prb_nodes p k) * nodes_size p k" "0 < k" using b(3) by simp_all
qed

lemma driver_borrow_bound:
  assumes kd: "kdims_loop p (min m (div_up_size (nodes_size p nd) 1024)) nd 1 = (k, c)"
    and less: "c < min m (div_up_size (nodes_size p nd) 1024)" "ker_prb_size_min < nodes_size p k"
    and pos: "\<And>j. j \<le> nd \<Longrightarrow> 0 < nodes_size p j"
  shows "k = 1" "div_up_size (min m (div_up_size (nodes_size p nd) 1024)) c \<le> nd_n (prb_nodes p 0)" "0 < c" "k \<le> nd"
proof -
  let ?m = "min m (div_up_size (nodes_size p nd) 1024)"
  note s = kdims_loop_spec [OF kd]
  show "k \<le> nd" using s by simp
  have "\<not> 1 < k" using s less(1) by auto
  moreover have "k \<noteq> 0"
  proof
    assume "k = 0"
    then show False using less(2) by (simp add: nodes_size_eq ker_prb_size_min_def)
  qed
  ultimately show k: "k = 1" by simp
  then have n: "nodes_size p k = nd_n (prb_nodes p 0)" by (simp add: nodes_size_eq)
  have t: "c * nd_n (prb_nodes p 0) = nodes_size p nd" using s n by simp
  then show c: "0 < c" using pos [of nd] by (cases c) auto
  have "nodes_size p nd \<le> nodes_size p nd * 1024" by simp
  then have "div_up_size (nodes_size p nd) 1024 \<le> nodes_size p nd" by (simp add: div_up_size_le)
  then have "?m \<le> nd_n (prb_nodes p 0) * c" using t by (simp add: mult.commute min.coboundedI2)
  then show "div_up_size ?m c \<le> nd_n (prb_nodes p 0)" using c by (simp add: div_up_size_le)
qed

lemma balance_work:
  assumes ok: "\<forall>x\<in>set (node_list p). node_ok N x" and r: "prb_thread_kernel_balance max_threads p = Some (p', k)"
  shows "same_work N p p' \<and> prb_ndims p' \<le> prb_ndims p + 1"
proof -
  let ?nd = "prb_ndims p"
  let ?m = "min (16 * max_threads) (div_up_size (nodes_size p ?nd) 1024)"
  have pos: "0 < nodes_size p j" if "j \<le> ?nd" for j using nodes_size_pos [OF ok that] .
  obtain kd c where kd: "kdims_loop p ?m ?nd 1 = (kd, c)" by fastforce
  have kdle: "kd \<le> ?nd" using kdims_loop_spec [OF kd] by simp
  note r = r [unfolded prb_thread_kernel_balance_def Let_def kd split_conv]
  have split: "same_work N p q \<and> prb_ndims q = ?nd + 1" if "prb_node_split p d n = Some q" "d < ?nd" "n dvd nd_n (prb_nodes p d)" for d n q
    using same_work_split [OF ok that] node_split_ndims [OF that(1)] by simp
  consider (ker) "kd < ?nd \<and> nodes_size p kd < ker_prb_size_min \<and> c > ?m"
    | (drv) "\<not> (kd < ?nd \<and> nodes_size p kd < ker_prb_size_min \<and> c > ?m)" "nodes_size p kd > ker_prb_size_min \<and> c < ?m"
    | (none) "p' = p"
    using r by (auto split: if_splits)
  then show ?thesis
  proof cases
    case ker
    then have "borrow_ker_from_drv kd (nodes_size p kd) p = Some (p', k)" using r by simp
    then obtain w where "borrow_loop (nd_n (prb_nodes p kd)) (div_up_size ker_prb_size_min (nodes_size p kd)) = Some w"
      and "(if w \<noteq> nd_n (prb_nodes p kd) then prb_node_split p kd w else Some p) = Some p'"
      by (auto simp: borrow_ker_from_drv_def bind_eq_Some_conv)
    then show ?thesis using borrow_loop_sound split [of kd w p'] ker same_work_refl [OF ok] by (fastforce split: if_splits)
  next
    case drv
    have k: "kd = 1" using driver_borrow_bound(1) [OF kd _ _ pos] drv(2) by simp
    have "borrow_drv_from_ker kd ?m c p = Some (p', k)" using r drv by (simp split: if_splits)
    then obtain w where w: "borrow_loop (nd_n (prb_nodes p 0)) (div_up_size ?m c) = Some w"
      and q: "(if w \<noteq> nd_n (prb_nodes p 0) then prb_node_split p 0 (nd_n (prb_nodes p 0) div w) else Some p) = Some p'"
      unfolding borrow_drv_from_ker_def k diff_self_eq_0 by (auto simp: bind_eq_Some_conv)
    have d: "nd_n (prb_nodes p 0) div w dvd nd_n (prb_nodes p 0)"
      using dvd_triv_left [of "nd_n (prb_nodes p 0) div w" w] borrow_loop_sound [OF w] by (simp add: dvd_div_mult_self)
    show ?thesis
    proof (cases "w = nd_n (prb_nodes p 0)")
      case True
      then show ?thesis using q same_work_refl [OF ok] by simp
    next
      case False
      then have "prb_node_split p 0 (nd_n (prb_nodes p 0) div w) = Some p'" using q by simp
      then show ?thesis using split [OF _ _ d] kdle k by simp
    qed
  next
    case none
    then show ?thesis using same_work_refl [OF ok] by simp
  qed
qed

section \<open>Planning ends\<close>

lemma node_split_some: "prb_ndims p + 1 < max_ndims \<Longrightarrow> \<exists>q. prb_node_split p d n = Some q"
  by (auto simp: prb_node_split_def Let_def)

lemma block_for_cache_ends:
  assumes ok: "\<forall>x\<in>set (node_list p). node_ok N x" and nd: "prb_ndims p \<le> 9"
  shows "\<exists>q. prb_block_for_cache p = Some q"
proof (cases "cache_blocking_needed p")
  case True
  have mv: "\<exists>s. move_unit_input_stride idx p = Some s \<and> prb_ndims s \<le> 10" for idx
  proof -
    obtain q where q: "prb_node_split p idx 16 = Some q" using node_split_some [of p idx 16] nd by (auto simp: max_ndims_def)
    show ?thesis using node_split_ndims [OF q] nd by (auto simp: move_unit_input_stride_def Let_def q)
  qed
  obtain s where s: "(case unit_input_stride_idx p of None \<Rightarrow> Some p | Some idx \<Rightarrow> move_unit_input_stride idx p) = Some s" "prb_ndims s \<le> 10"
    using mv nd by (cases "unit_input_stride_idx p") auto
  then obtain q where q: "prb_node_split s 0 16 = Some q" using node_split_some [of s 0 16] by (auto simp: max_ndims_def)
  have "\<exists>q. split_unit_output_stride s = Some q" by (auto simp: split_unit_output_stride_def Let_def q)
  then show ?thesis using True s by (auto simp: prb_block_for_cache_def)
next
  case False
  then show ?thesis by (simp add: prb_block_for_cache_def)
qed

lemma balance_ends:
  assumes ok: "\<forall>x\<in>set (node_list p). node_ok N x" and nd: "prb_ndims p \<le> 10"
  shows "\<exists>q k. prb_thread_kernel_balance max_threads p = Some (q, k)"
proof -
  let ?nd = "prb_ndims p"
  let ?m = "min (16 * max_threads) (div_up_size (nodes_size p ?nd) 1024)"
  have pos: "0 < nodes_size p j" if "j \<le> ?nd" for j using nodes_size_pos [OF ok that] .
  obtain kd c where kd: "kdims_loop p ?m ?nd 1 = (kd, c)" by fastforce
  have kdle: "kd \<le> ?nd" using kdims_loop_spec [OF kd] by simp
  have sp: "\<exists>q. prb_node_split p d n = Some q" for d n using node_split_some [of p d n] nd by (simp add: max_ndims_def)
  have ker: "\<exists>q k. borrow_ker_from_drv kd (nodes_size p kd) p = Some (q, k)" if "kd < ?nd"
  proof -
    have "0 < div_up_size ker_prb_size_min (nodes_size p kd)"
      using pos [OF kdle] by (intro div_up_size_pos) (simp_all add: ker_prb_size_min_def)
    moreover have "div_up_size ker_prb_size_min (nodes_size p kd) \<le> nd_n (prb_nodes p kd)"
      using kernel_borrow_bound(1) [OF kd that pos] pos [OF kdle] by (simp add: div_up_size_le ker_prb_size_min_def)
    ultimately obtain w where w: "borrow_loop (nd_n (prb_nodes p kd)) (div_up_size ker_prb_size_min (nodes_size p kd)) = Some w"
      using borrow_loop_ends by blast
    obtain q where "prb_node_split p kd w = Some q" using sp by blast
    then show ?thesis by (simp add: borrow_ker_from_drv_def w)
  qed
  have drv: "\<exists>q k. borrow_drv_from_ker kd ?m c p = Some (q, k)" if "nodes_size p kd > ker_prb_size_min" "c < ?m"
  proof -
    note b = driver_borrow_bound [OF kd that(2,1) pos]
    have k: "kd = 1" using b(1) by simp
    have "0 < div_up_size ?m c" using that(2) b(3) by (intro div_up_size_pos) simp_all
    then obtain w where w: "borrow_loop (nd_n (prb_nodes p 0)) (div_up_size ?m c) = Some w"
      using borrow_loop_ends [OF _ b(2)] by blast
    obtain q where "prb_node_split p 0 (nd_n (prb_nodes p 0) div w) = Some q" using sp by blast
    then show ?thesis unfolding borrow_drv_from_ker_def k diff_self_eq_0 by (simp add: w)
  qed
  show ?thesis using ker drv unfolding prb_thread_kernel_balance_def Let_def kd split_conv by (auto split: if_splits)
qed

section \<open>The kernel's problem\<close>

lemma ker_search_success:
  "ker_search mayiuse desc K = (success, desc') \<Longrightarrow>
    \<exists>k. 0 < k \<and> k \<le> K \<and> kd_prb desc' = kd_prb desc\<lparr>prb_ndims := k\<rparr> \<and> ker_applicable mayiuse (kd_prb desc')"
proof (induction K arbitrary: desc)
  case (Suc K)
  let ?d = "desc\<lparr>kd_prb := kd_prb desc\<lparr>prb_ndims := Suc K\<rparr>\<rparr>"
  show ?case
  proof (cases "ker_applicable mayiuse (kd_prb ?d)")
    case True
    then have "desc' = ?d" using Suc.prems by (auto simp: Let_def)
    then show ?thesis using True by auto
  next
    case False
    then have "ker_search mayiuse ?d K = (success, desc')" using Suc.prems by (auto simp: Let_def)
    then obtain k where "0 < k" "k \<le> K" "kd_prb desc' = kd_prb ?d\<lparr>prb_ndims := k\<rparr>" "ker_applicable mayiuse (kd_prb desc')"
      using Suc.IH by blast
    then show ?thesis by auto
  qed
qed simp

lemma ndims_ker_loop_le: "ndims_ker_loop p d c \<le> prb_ndims p"
proof (induction p d c rule: ndims_ker_loop.induct)
  case (1 p d c)
  then show ?case by (subst ndims_ker_loop.simps) auto
qed

lemma kernel_desc_init_success:
  assumes "kernel_desc_init mayiuse p K = (success, desc)"
  obtains k where "0 < k" "k \<le> prb_ndims p" "kd_prb desc = p\<lparr>prb_ioff := 0, prb_ooff := 0, prb_ndims := k\<rparr>"
    "ker_applicable mayiuse (kd_prb desc)"
proof -
  define d0 where "d0 = \<lparr>kd_id = 0, kd_prb = p\<lparr>prb_ioff := 0, prb_ooff := 0\<rparr>\<rparr>"
  define K' where "K' = (if K = 0 then ndims_ker_loop p 0 1 else K)"
  have K: "K \<le> prb_ndims p" and s: "ker_search mayiuse d0 K' = (success, desc)"
    using assms by (auto simp: kernel_desc_init_def Let_def d0_def K'_def split: if_splits)
  have "K' \<le> prb_ndims p" using K ndims_ker_loop_le by (simp add: K'_def)
  then show thesis using ker_search_success [OF s] that by (auto simp: d0_def)
qed

lemma kernel_nodes:
  "k \<le> prb_ndims p \<Longrightarrow> node_list p = node_list (p\<lparr>prb_ndims := k\<rparr>) @ map (prb_nodes p) [k..<prb_ndims p]"
  by (simp add: node_list_def) (metis le_add_diff_inverse map_append plus_nat.add_0 upt_add_eq_append zero_le)

text \<open>What a successful creation has planned.\<close>

lemma create_success:
  assumes "jit_uni_reorder_create mayiuse max_threads allocated attr imd omd = Some (success, Some (p, desc))"
  obtains p0 p1 k where "prb_init zero_prb imd omd attr = Some (success, p0)"
    "prb_block_for_cache (prb_simplify (prb_normalize p0)) = Some p1"
    "prb_thread_kernel_balance max_threads p1 = Some (p, k)" "kernel_desc_init mayiuse p k = (success, desc)"
    "prb_ndims p - prb_ndims (kd_prb desc) \<le> ndims_driver_max" "cpu_reorder_pd_init attr = success"
proof -
  obtain st0 p0 where i: "prb_init zero_prb imd omd attr = Some (st0, p0)"
    using assms by (auto simp: jit_uni_reorder_create_def bind_eq_Some_conv)
  have st0: "st0 = success" using assms by (auto simp: jit_uni_reorder_create_def i split: if_splits)
  obtain p1 where b: "prb_block_for_cache (prb_simplify (prb_normalize p0)) = Some p1"
    using assms by (auto simp: jit_uni_reorder_create_def i st0 bind_eq_Some_conv)
  obtain q k where t: "prb_thread_kernel_balance max_threads p1 = Some (q, k)"
    using assms by (auto simp: jit_uni_reorder_create_def i st0 b bind_eq_Some_conv)
  obtain st1 d where d: "kernel_desc_init mayiuse q k = (st1, d)" by fastforce
  have "st1 = success \<and> q = p \<and> d = desc \<and> prb_ndims p - prb_ndims (kd_prb desc) \<le> ndims_driver_max \<and> cpu_reorder_pd_init attr = success"
    using assms by (auto simp: jit_uni_reorder_create_def i st0 b t d split: if_splits)
  then show thesis using that i st0 b t d by blast
qed

lemma planned_work:
  assumes ok: "\<forall>x\<in>set (node_list p0). node_ok N x"
    and b: "prb_block_for_cache (prb_simplify (prb_normalize p0)) = Some p1"
    and t: "prb_thread_kernel_balance max_threads p1 = Some (p, k)"
  shows "same_work N p0 p"
proof -
  note n = same_work_normalize(1) [OF ok]
  note s = same_work_simplify_loop [OF same_work_ok [OF n], of 0, folded prb_simplify_def]
  note c = block_for_cache_work [OF same_work_ok [OF s] b]
  note w = balance_work [OF same_work_ok [OF conjunct1 [OF c]] t]
  show ?thesis using n s c w same_work_trans by metis
qed

section \<open>An example\<close>

text \<open>The reorder of the witnesses: 2 x 32 x 3 elements, from plain to blocks of 16 channels.\<close>

definition example_md :: "string \<Rightarrow> memory_desc" where
  "example_md tag = the (snd (dnnl_memory_desc_init_by_tag 3 (Some (arr [2, 32, 3])) f32 (Tag tag)))"

abbreviation ncw_md :: memory_desc where
  "ncw_md \<equiv> example_md ''abc''"

abbreviation nCw16c_md :: memory_desc where
  "nCw16c_md \<equiv> example_md ''aBc16b''"

lemma example_md_layout:
  assumes "fst (dnnl_memory_desc_init_by_tag 3 (Some (arr [2, 32, 3])) f32 (Tag tag)) = success"
    and "list_all (\<lambda>d. padded_dims (example_md tag) d \<le> INT32_MAX) [0, 1, 2]"
  shows "reorder_layout (example_md tag)" "\<forall>d<ndims (example_md tag). padded_offsets (example_md tag) d = 0"
    "\<forall>d<ndims (example_md tag). 0 < blk_strides (blocking (example_md tag)) d" "md_ndims (example_md tag) = 3"
    "wf_padded (example_md tag)"
proof -
  obtain md where md: "dnnl_memory_desc_init_by_tag 3 (Some (arr [2, 32, 3])) f32 (Tag tag) = (success, Some md)"
    by (rule init_by_tag_some [OF _ assms(1)]) simp
  then have e: "example_md tag = md" by (simp add: example_md_def)
  have pos: "0 < arr [2, 32, 3::int] d" if "d < nat 3" for d using that by (auto simp: less_Suc_eq numeral_eq_Suc)
  have "d = 0 \<or> d = 1 \<or> d = 2" if "d < nat 3" for d using that by auto
  then have le: "padded_dims md d \<le> INT32_MAX" if "d < nat 3" for d using assms(2) that by (fastforce simp: e)
  note i = init_by_tag_reorder_layout [OF md _ pos le] and j = init_by_tag_dense(1,4) [OF md _ pos]
  show "reorder_layout (example_md tag)" "\<forall>d<ndims (example_md tag). padded_offsets (example_md tag) d = 0"
    "\<forall>d<ndims (example_md tag). 0 < blk_strides (blocking (example_md tag)) d" "md_ndims (example_md tag) = 3"
    "wf_padded (example_md tag)"
    using i j by (simp_all add: e)
qed

lemma ncw_fits: "fst (dnnl_memory_desc_init_by_tag 3 (Some (arr [2, 32, 3])) f32 (Tag ''abc'')) = success"
    "list_all (\<lambda>d. padded_dims ncw_md d \<le> INT32_MAX) [0, 1, 2]"
  by code_simp+

lemma nCw16c_fits: "fst (dnnl_memory_desc_init_by_tag 3 (Some (arr [2, 32, 3])) f32 (Tag ''aBc16b'')) = success"
    "list_all (\<lambda>d. padded_dims nCw16c_md d \<le> INT32_MAX) [0, 1, 2]"
  by code_simp+

lemmas ncw_layout = example_md_layout [OF ncw_fits]

lemmas nCw16c_layout = example_md_layout [OF nCw16c_fits]

lemma example_init:
  "map_option (\<lambda>(st, p). st = success \<and> prb_ndims (prb_simplify (prb_normalize p)) = 3)
     (prb_init zero_prb ncw_md nCw16c_md new_primitive_attr) = Some True"
  by code_simp

section \<open>Properties\<close>

text \<open>
  C12: the planning of a reorder ends. For blocked descriptors whose problem folds to at most
  eight loops, creation returns a status: the searches for a divisor that balance kernel and
  driver find one, and no split writes past the twelve nodes of a problem.
\<close>

theorem reorder_planning_ends:
  assumes "reorder_layout imd" "\<forall>d<ndims imd. 0 < blk_strides (blocking imd) d"
    and "reorder_layout omd" "\<forall>d<ndims omd. 0 < blk_strides (blocking omd) d" and "md_ndims imd = md_ndims omd"
    and init: "prb_init zero_prb imd omd attr = Some (success, p)"
    and few: "prb_ndims (prb_simplify (prb_normalize p)) \<le> 8"
  shows "\<exists>st plan. jit_uni_reorder_create mayiuse max_threads allocated attr imd omd = Some (st, plan)"
proof -
  have ok: "\<forall>x\<in>set (node_list p). node_ok (scale_count attr omd) x"
    by (rule prb_init_nodes_ok [OF init assms(1-5)])
  let ?s = "prb_simplify (prb_normalize p)"
  have oks: "\<forall>x\<in>set (node_list ?s). node_ok (scale_count attr omd) x"
    using same_work_simplify_loop [OF same_work_ok [OF same_work_normalize(1) [OF ok]]]
    by (simp add: prb_simplify_def same_work_def)
  obtain p1 where p1: "prb_block_for_cache ?s = Some p1" using block_for_cache_ends [OF oks] few by auto
  note w = block_for_cache_work [OF oks p1]
  obtain q k where t: "prb_thread_kernel_balance max_threads p1 = Some (q, k)"
    using balance_ends [OF same_work_ok [OF conjunct1 [OF w]], where max_threads = max_threads] w few by auto
  show ?thesis by (simp add: jit_uni_reorder_create_def init p1 t split: prod.splits)
qed

theorem reorder_planning_ends_witness:
  "\<exists>st plan. jit_uni_reorder_create (\<lambda>_. True) 4 True new_primitive_attr ncw_md nCw16c_md = Some (st, plan)"
proof -
  obtain p where p: "prb_init zero_prb ncw_md nCw16c_md new_primitive_attr = Some (success, p)"
      "prb_ndims (prb_simplify (prb_normalize p)) = 3"
    using example_init by auto
  show ?thesis
    by (rule reorder_planning_ends [OF ncw_layout(1,3) nCw16c_layout(1,3) _ p(1)])
      (simp_all add: p(2) ncw_layout(4) nCw16c_layout(4))
qed

end
