(* ===== verification/Reorder_Unroll.thy ===== *)
theory Reorder_Unroll
  imports Reorder_Plan
begin

text \<open>
  The unrolled part of the optimised CPU reorder's kernel (\<open>src/src/cpu/jit_uni_reorder.cpp\<close>):
  the offsets it reads and writes, computed one from the other while the code is emitted, and the
  special cases for direct copies and for the transposition of 8x8 blocks in vector registers.
  Whichever case applies, the part moves the first positions of the nest.
\<close>

section \<open>Offsets of the unrolled kernel\<close>

definition ker_n :: "prb \<Rightarrow> nat \<Rightarrow> int" where
  "ker_n p d = int32_cast (int (nd_n (prb_nodes p d)))"

definition ker_is :: "prb \<Rightarrow> nat \<Rightarrow> int" where
  "ker_is p d = int32_cast (nd_is (prb_nodes p d))"

definition ker_os :: "prb \<Rightarrow> nat \<Rightarrow> int" where
  "ker_os p d = int32_cast (nd_os (prb_nodes p d))"

definition ker_ss :: "prb \<Rightarrow> nat \<Rightarrow> int" where
  "ker_ss p d = int32_cast (nd_ss (prb_nodes p d))"

function start_dim :: "prb \<Rightarrow> nat \<Rightarrow> int \<Rightarrow> int \<Rightarrow> nat" where
  "start_dim p d acc step_size =
     (if d < prb_ndims p \<and> acc \<noteq> step_size then start_dim p (d + 1) (acc * ker_n p d) step_size else d)"
  by pat_completeness auto
termination by (relation "measure (\<lambda>(p, d, m, s). prb_ndims p - d)") auto

function step_loop :: "prb \<Rightarrow> nat \<Rightarrow> int \<Rightarrow> position \<Rightarrow> position" where
  "step_loop p d offset (i_off, o_off, s_off) =
     (if d < prb_ndims p then
        let i_off = i_off + ker_is p d; o_off = o_off + ker_os p d; s_off = s_off + ker_ss p d
        in if offset smod ker_n p d \<noteq> 0 then (i_off, o_off, s_off)
           else
             let i_off = i_off + - ker_n p d * ker_is p d;
                 o_off = o_off + - ker_n p d * ker_os p d;
                 s_off = s_off + - ker_n p d * ker_ss p d;
                 offset = offset sdiv ker_n p d
             in if offset = 0 then (i_off, o_off, s_off) else step_loop p (d + 1) offset (i_off, o_off, s_off)
      else (i_off, o_off, s_off))"
  by pat_completeness auto
termination by (relation "measure (\<lambda>(p, d, offset, q). prb_ndims p - d)") auto

declare start_dim.simps [simp del] step_loop.simps [simp del]

definition ker_step :: "prb \<Rightarrow> int \<Rightarrow> position \<Rightarrow> int \<Rightarrow> position" where
  "ker_step p offset prev step_size =
     (if offset = 0 then prev
      else step_loop p (start_dim p 0 1 step_size) (offset sdiv step_size) prev)"

text \<open>
  The offsets are computed in a ring of two blocks of eight; the result lists them in the order
  in which the steps use them.
\<close>

function generic_loop :: "prb \<Rightarrow> nat \<Rightarrow> nat \<Rightarrow> nat \<Rightarrow> (nat \<Rightarrow> position) \<Rightarrow> position list" where
  "generic_loop p len offset cur offs =
     (if offset < len then
        let reg_unroll = min (offset + 8) len - offset;
            offs = for_range (if offset \<noteq> 0 then 0 else 1) reg_unroll
              (\<lambda>ur offs.
                 let ur_c = cur * 8 + ur; ur_p = (ur_c + 2 * 8 - 1) mod (2 * 8)
                 in offs(ur_c := ker_step p (int (offset + ur)) (offs ur_p) 1)) offs
        in map (\<lambda>ur. offs (cur * 8 + ur)) [0..<reg_unroll] @ generic_loop p len (offset + 8) (1 - cur) offs
      else [])"
  by pat_completeness auto
termination by (relation "measure (\<lambda>(p, len, offset, c, offs). len - offset)") auto

declare generic_loop.simps [simp del]

definition process_unroll_generic :: "prb \<Rightarrow> nat \<Rightarrow> position list" where
  "process_unroll_generic p len = generic_loop p len 0 0 (\<lambda>_. (0, 0, 0))"

section \<open>Copies and transpositions by vector registers\<close>

text \<open>The bytes of a vector register; there is none for \<open>isa_any\<close>, nor traits for \<open>avx512_core_vnni\<close>.\<close>

fun vlen :: "cpu_isa \<Rightarrow> nat" where
  "vlen isa_any = 0"
| "vlen sse41 = 16"
| "vlen avx = 32"
| "vlen avx2 = 32"
| "vlen avx512_common = 64"
| "vlen avx512_core = 64"
| "vlen avx512_core_vnni = 0"
| "vlen avx512_mic = 64"
| "vlen avx512_mic_4ops = 64"
| "vlen avx512_core_bf16 = 64"

text \<open>
  Results are the moves in the order of the stores; \<open>None\<close> when a loop does not end,
  \<open>Some None\<close> when the case does not apply.
\<close>

partial_function (option) direct_copy_loop :: "nat \<Rightarrow> nat \<Rightarrow> nat \<Rightarrow> position list option" where
  "direct_copy_loop len simd_w offset =
     (if offset < len then
        let unroll = min 16 ((len - offset) div simd_w);
            moves = concat (map (\<lambda>ur. map (\<lambda>l. (int (offset + ur * simd_w + l), int (offset + ur * simd_w + l), 0))
              [0..<simd_w]) [0..<unroll])
        in Option.bind (direct_copy_loop len simd_w (offset + unroll * simd_w)) (\<lambda>rest. Some (moves @ rest))
      else Some [])"

declare direct_copy_loop.simps [code]

definition process_direct_copy :: "(cpu_isa \<Rightarrow> bool) \<Rightarrow> cpu_isa \<Rightarrow> prb \<Rightarrow> nat \<Rightarrow> position list option option" where
  "process_direct_copy mayiuse isa p len =
     (let simd_w = vlen isa div data_type_size (prb_itype p);
          can_do = mayiuse isa \<and> ker_os p 0 = 1 \<and> ker_is p 0 = 1 \<and>
            (prb_itype p = prb_otype p \<or> prb_itype p = s32 \<and> prb_otype p = f32 \<or> prb_itype p = f32 \<and> prb_otype p = s32) \<and>
            len mod simd_w = 0 \<and> ker_n p 0 smod int len = 0 \<and> prb_scale_type p = Scale_none \<and> f32_eq (prb_beta p) 0
      in if \<not> can_do then Some None else map_option Some (direct_copy_loop len simd_w 0))"

text \<open>The vector instructions of the transposition, on the eight lanes of a register.\<close>

definition vunpcklps :: "'a list \<Rightarrow> 'a list \<Rightarrow> 'a list" where
  "vunpcklps a b = [a ! 0, b ! 0, a ! 1, b ! 1, a ! 4, b ! 4, a ! 5, b ! 5]"

definition vunpckhps :: "'a list \<Rightarrow> 'a list \<Rightarrow> 'a list" where
  "vunpckhps a b = [a ! 2, b ! 2, a ! 3, b ! 3, a ! 6, b ! 6, a ! 7, b ! 7]"

definition vshufps :: "'a list \<Rightarrow> 'a list \<Rightarrow> nat \<Rightarrow> 'a list" where
  "vshufps a b imm =
     (let s = (\<lambda>j. imm div 4 ^ j mod 4); lane = (\<lambda>h. [a ! (h + s 0), a ! (h + s 1), b ! (h + s 2), b ! (h + s 3)])
      in lane 0 @ lane 4)"

definition vperm2f128 :: "'a list \<Rightarrow> 'a list \<Rightarrow> nat \<Rightarrow> 'a list" where
  "vperm2f128 a b imm =
     (let half = (\<lambda>c. let v = (if c < 2 then a else b) in if even c then take 4 v else drop 4 v)
      in half (imm mod 4) @ half (imm div 16 mod 4))"

definition tr8x8_regs :: "(nat \<Rightarrow> 'a list) \<Rightarrow> nat \<Rightarrow> 'a list" where
  "tr8x8_regs y =
     (let y = for_upto 4 (\<lambda>i y.
            let y = y(8 + i := vunpcklps (y (2 * i)) (y (2 * i + 1)))
            in y(i := vunpckhps (y (2 * i)) (y (2 * i + 1)))) y;
          y = for_upto 4 (\<lambda>i y.
            let j = (if i mod 2 = 0 then 8 + i else i - 1);
                y = y(4 + 2 * i := vshufps (y j) (y (j + 1)) 0x44)
            in y(4 + 2 * i + 1 := vshufps (y j) (y (j + 1)) 0xee)) y;
          y = for_upto 4 (\<lambda>i y. y(i := vperm2f128 (y (4 + i)) (y (8 + i)) 0x20)) y
      in for_range 4 8 (\<lambda>i y. y(i := vperm2f128 (y i) (y (4 + i)) 0x31)) y)"

definition tr8x8_avx2 :: "int \<Rightarrow> int \<Rightarrow> position list" where
  "tr8x8_avx2 i_off o_off =
     (let y = tr8x8_regs (\<lambda>i. map (\<lambda>l. i_off + int i * 8 + int l) [0..<8])
      in concat (map (\<lambda>i. map (\<lambda>l. (y i ! l, o_off + int i * 8 + int l, 0)) [0..<8]) [0..<8]))"

partial_function (option) tr8x8_loop :: "prb \<Rightarrow> nat \<Rightarrow> nat \<Rightarrow> nat \<Rightarrow> int \<Rightarrow> int \<Rightarrow> position list option" where
  "tr8x8_loop p len step_size offset i_off o_off =
     (if offset < len then
        let (i_off, o_off, _) = ker_step p (int offset) (i_off, o_off, 0) (int step_size)
        in Option.bind (tr8x8_loop p len step_size (offset + step_size) i_off o_off)
             (\<lambda>rest. Some (tr8x8_avx2 i_off o_off @ rest))
      else Some [])"

declare tr8x8_loop.simps [code]

definition process_unroll_tr8x8 :: "(cpu_isa \<Rightarrow> bool) \<Rightarrow> prb \<Rightarrow> nat \<Rightarrow> position list option option" where
  "process_unroll_tr8x8 mayiuse p len =
     (let can_do = mayiuse avx2 \<and> prb_ndims p \<ge> 2 \<and>
            data_type_size (prb_itype p) = 4 \<and> data_type_size (prb_otype p) = 4 \<and> ker_n p 0 = 8 \<and> ker_n p 1 = 8 \<and>
            ker_os p 0 = 1 \<and> ker_is p 1 = 1 \<and> ker_os p 1 = 8 \<and> ker_is p 0 = 8 \<and>
            prb_scale_type p = Scale_none \<and> f32_eq (prb_beta p) 0
      in if \<not> can_do then Some None
         else map_option Some (tr8x8_loop p len (nat (ker_n p 0 * ker_n p 1)) 0 0 0))"

text \<open>The chain of cases in \<open>simple_impl\<close>.\<close>

definition process_unroll :: "(cpu_isa \<Rightarrow> bool) \<Rightarrow> prb \<Rightarrow> nat \<Rightarrow> position list option" where
  "process_unroll mayiuse p len =
     (let or_else = (\<lambda>r other. Option.bind r (\<lambda>done. case done of Some moves \<Rightarrow> Some moves | None \<Rightarrow> other))
      in or_else (process_direct_copy mayiuse avx p len)
           (or_else (process_direct_copy mayiuse sse41 p len)
              (or_else (process_unroll_tr8x8 mayiuse p len)
                 (Some (process_unroll_generic p len)))))"

section \<open>Positions by number\<close>

text \<open>The position of iteration \<open>k\<close> of a nest whose first node runs fastest.\<close>

fun pos_at :: "node list \<Rightarrow> nat \<Rightarrow> position \<Rightarrow> position" where
  "pos_at [] k q = q"
| "pos_at (x # xs) k q = pos_at xs (k div nd_n x) (move_by x (k mod nd_n x) q)"

definition nest_size :: "node list \<Rightarrow> nat" where
  "nest_size xs = prod_list (map nd_n xs)"

lemma nest_size_simps [simp]: "nest_size [] = 1" "nest_size (x # xs) = nd_n x * nest_size xs"
  "nest_size (xs @ ys) = nest_size xs * nest_size ys"
  by (simp_all add: nest_size_def)

lemma pos_at_move: "pos_at xs k (move_by x j q) = move_by x j (pos_at xs k q)"
proof (induction xs arbitrary: k q)
  case (Cons y ys)
  show ?case by (simp only: pos_at.simps move_by_commute [of y _ x j] Cons.IH)
qed simp

lemma pos_at_0 [simp]: "pos_at xs 0 q = q"
  by (induction xs arbitrary: q) simp_all

lemma pos_at_append: "pos_at (xs @ ys) k q = pos_at ys (k div nest_size xs) (pos_at xs k q)"
  by (induction xs arbitrary: k q) (simp_all add: div_mult2_eq)

text \<open>Translation of a position.\<close>

definition add_pos :: "position \<Rightarrow> position \<Rightarrow> position" where
  "add_pos = (\<lambda>(i, w, s) (i', w', s'). (i + i', w + w', s + s'))"

lemma add_pos_move: "add_pos r (move_by x k q) = move_by x k (add_pos r q)"
  by (cases r) (simp add: add_pos_def move_by_def split_beta)

lemma pos_at_add: "add_pos r (pos_at xs k q) = pos_at xs k (add_pos r q)"
  by (induction xs arbitrary: k q) (simp_all add: add_pos_move)

lemma add_pos_0 [simp]: "add_pos r (0, 0, 0) = r"
  by (cases r) (simp add: add_pos_def)

lemma pos_at_copies: "(\<Sum>k<nest_size xs. {#pos_at xs k q#}) = copies xs q"
proof (induction xs arbitrary: q)
  case (Cons x xs)
  have "(\<Sum>k<nest_size (x # xs). {#pos_at (x # xs) k q#}) =
      (\<Sum>g<nest_size xs. \<Sum>k<nd_n x. {#pos_at (x # xs) (g * nd_n x + k) q#})"
    unfolding nest_size_simps(2) by (subst mult.commute) (rule sum_groups)
  also have "\<dots> = (\<Sum>g<nest_size xs. \<Sum>k<nd_n x. {#pos_at xs g (move_by x k q)#})"
    by (intro sum.cong refl) simp
  also have "\<dots> = (\<Sum>k<nd_n x. \<Sum>g<nest_size xs. {#pos_at xs g (move_by x k q)#})" by (rule sum.swap)
  finally show ?case by (simp add: Cons.IH)
qed (simp add: lessThan_Suc)

section \<open>The offsets are those positions\<close>

definition fits_int :: "prb \<Rightarrow> bool" where
  "fits_int p \<longleftrightarrow> (\<forall>d<prb_ndims p. let x = prb_nodes p d in
     0 < nd_n x \<and> int (nd_n x) \<le> INT32_MAX \<and> 0 \<le> nd_is x \<and> nd_is x \<le> INT32_MAX \<and>
     0 \<le> nd_os x \<and> nd_os x \<le> INT32_MAX \<and> 0 \<le> nd_ss x \<and> nd_ss x \<le> INT32_MAX)"

lemma fits_int_at:
  assumes "fits_int p" "d < prb_ndims p"
  shows "ker_n p d = int (nd_n (prb_nodes p d))" "ker_is p d = nd_is (prb_nodes p d)"
    "ker_os p d = nd_os (prb_nodes p d)" "ker_ss p d = nd_ss (prb_nodes p d)" "0 < nd_n (prb_nodes p d)"
  using assms by (auto simp: fits_int_def Let_def ker_n_def ker_is_def ker_os_def ker_ss_def int32_cast_id)

abbreviation nodes_from :: "prb \<Rightarrow> nat \<Rightarrow> node list" where
  "nodes_from p d \<equiv> map (prb_nodes p) [d..<prb_ndims p]"

lemma nodes_from_Cons: "d < prb_ndims p \<Longrightarrow> nodes_from p d = prb_nodes p d # nodes_from p (Suc d)"
  by (simp add: upt_conv_Cons)

lemma step_loop_pos:
  assumes "fits_int p"
  shows "0 < k \<Longrightarrow> k < nest_size (nodes_from p d) \<Longrightarrow>
    step_loop p d (int k) (pos_at (nodes_from p d) (k - 1) q) = pos_at (nodes_from p d) k q"
proof (induction "prb_ndims p - d" arbitrary: d k q)
  case 0
  then show ?case by simp
next
  case (Suc m)
  then have d: "d < prb_ndims p" by simp
  let ?x = "prb_nodes p d" and ?n = "nd_n (prb_nodes p d)" and ?r = "nodes_from p (Suc d)"
  note f = fits_int_at [OF assms d]
  have kn: "int k smod ker_n p d = int (k mod ?n)" "int k sdiv ker_n p d = int (k div ?n)"
    using f by (simp_all add: cdiv_simps zmod_int zdiv_int)
  show ?case
  proof (cases "k mod ?n = 0")
    case False
    then have k: "(k - 1) div ?n = k div ?n" "(k - 1) mod ?n = k mod ?n - 1"
      by (metis Suc_pred' Suc.prems(1) mod_Suc div_Suc gr0I nat.inject old.nat.distinct(2) diff_Suc_1)+
    let ?a = "pos_at ?r (k div ?n) (move_by ?x (k mod ?n - 1) q)"
    have "move_by ?x (k mod ?n) q = move_by ?x 1 (move_by ?x (k mod ?n - 1) q)"
      using False by (simp add: move_by_def split_beta of_nat_diff algebra_simps)
    then have t: "pos_at (nodes_from p d) k q = move_by ?x 1 ?a" by (simp add: nodes_from_Cons d pos_at_move)
    have "step_loop p d (int k) ?a = move_by ?x 1 ?a"
      using False by (cases ?a) (simp add: step_loop.simps [of p d] d kn f(2-4) move_by_def)
    then show ?thesis using t k by (simp add: nodes_from_Cons d)
  next
    case True
    define j where "j = k div ?n"
    have j: "k = j * ?n" using True div_mult_mod_eq [of k ?n] by (simp add: j_def)
    have jpos: "0 < j" using Suc.prems(1) j by (cases j) auto
    have k1: "(k - 1) div ?n = j - 1" "(k - 1) mod ?n = ?n - 1"
    proof -
      have "k - 1 = (j - 1) * ?n + (?n - 1)" using jpos f(5) by (cases j) (simp_all add: j)
      moreover have "(a * n + r) div n = a" "(a * n + r) mod n = r" if "r < n" for a n r :: nat using that by simp_all
      ultimately show "(k - 1) div ?n = j - 1" "(k - 1) mod ?n = ?n - 1" using f(5) by (metis diff_less less_numeral_extra(1))+
    qed
    have jlt: "j < nest_size ?r" using Suc.prems(2) by (simp add: nodes_from_Cons d j mult.commute)
    have IH: "step_loop p (Suc d) (int j) (pos_at ?r (j - 1) q) = pos_at ?r j q"
      by (rule Suc.hyps(1)) (use Suc.hyps(2) jpos jlt in auto)
    let ?q = "pos_at (nodes_from p d) (k - 1) q"
    have q: "?q = move_by ?x (?n - 1) (pos_at ?r (j - 1) q)" by (simp add: nodes_from_Cons d k1 [unfolded One_nat_def] pos_at_move)
    have kj: "int k smod ker_n p d = 0" "int k sdiv ker_n p d = int j" using True kn by (simp_all add: j_def)
    have "step_loop p d (int k) ?q = step_loop p (Suc d) (int j) (pos_at ?r (j - 1) q)"
      unfolding q using f(5) jpos
      by (cases "pos_at ?r (j - 1) q")
        (simp add: step_loop.simps [of p d] d kj [unfolded f(1)] f(1-4) move_by_def of_nat_diff Let_def algebra_simps)
    then show ?thesis using IH j f(5) by (simp add: nodes_from_Cons d)
  qed
qed

lemma ker_step_pos:
  assumes "fits_int p" "0 < k" "k < nest_size (node_list p)"
  shows "ker_step p (int k) (pos_at (node_list p) (k - 1) q) 1 = pos_at (node_list p) k q"
  using step_loop_pos [OF assms(1), of k 0 q] assms(2,3)
  by (simp add: ker_step_def start_dim.simps node_list_def cdiv_simps)

lemma ring_prev: "cur \<le> (1 :: nat) \<Longrightarrow> 0 < ur \<Longrightarrow> ur < 8 \<Longrightarrow> (cur * 8 + ur + 2 * 8 - 1) mod (2 * 8) = cur * 8 + (ur - 1)"
proof -
  assume "cur \<le> 1" "0 < ur" "ur < 8"
  then have e: "cur * 8 + ur + 2 * 8 - 1 = 16 + (cur * 8 + (ur - 1))" and l: "cur * 8 + (ur - 1) < 16" by auto
  show ?thesis unfolding e using l by simp
qed

lemma generic_block:
  assumes fit: "fits_int p" and len: "offset + reg \<le> nest_size (node_list p)" "0 < reg" "reg \<le> 8" and cur: "cur \<le> 1"
    and prev: "if offset = 0 then offs (cur * 8) = q else offs ((cur * 8 + 15) mod 16) = pos_at (node_list p) (offset - 1) q"
    and ur: "ur < reg"
  shows "for_range (if offset \<noteq> 0 then 0 else 1) reg
      (\<lambda>ur offs. let ur_c = cur * 8 + ur; ur_p = (ur_c + 2 * 8 - 1) mod (2 * 8)
        in offs(ur_c := ker_step p (int (offset + ur)) (offs ur_p) 1)) offs (cur * 8 + ur) =
    pos_at (node_list p) (offset + ur) q"
proof -
  let ?P = "\<lambda>k. pos_at (node_list p) k q" and ?prev = "(cur * 8 + 15) mod 16"
  let ?body = "\<lambda>ur offs. let ur_c = cur * 8 + ur; ur_p = (ur_c + 2 * 8 - 1) mod (2 * 8)
        in offs(ur_c := ker_step p (int (offset + ur)) (offs ur_p) 1)"
  let ?lo = "if offset \<noteq> 0 then 0 else 1 :: nat"
  let ?I = "\<lambda>u o'. (\<forall>ur<u. o' (cur * 8 + ur) = ?P (offset + ur)) \<and> (offset \<noteq> 0 \<longrightarrow> o' ?prev = ?P (offset - 1))"
  have "?I reg (for_range ?lo reg ?body offs)"
  proof (rule for_range_inv [where I = ?I])
    show "?I ?lo offs" using prev by (auto split: if_splits)
    show "?lo \<le> reg" using len(2) by simp
  next
    fix u o' assume u: "?lo \<le> u" "u < reg" and I: "?I u o'"
    have k: "offset + u < nest_size (node_list p)" "0 < offset + u" using u len by (auto split: if_splits)
    have "o' ((cur * 8 + u + 2 * 8 - 1) mod (2 * 8)) = ?P (offset + u - 1)"
    proof (cases "u = 0")
      case True
      then have "offset \<noteq> 0" using u(1) by (auto split: if_splits)
      then show ?thesis using I True by (simp add: add.commute)
    next
      case False
      then have "o' (cur * 8 + (u - 1)) = ?P (offset + (u - 1))" using conjunct1 [OF I, rule_format, of "u - 1"] by simp
      moreover have "offset + (u - 1) = offset + u - 1" using False by simp
      moreover have "(cur * 8 + u + 2 * 8 - 1) mod (2 * 8) = cur * 8 + (u - 1)"
        by (rule ring_prev [OF cur]) (use False u len(3) in simp_all)
      ultimately show ?thesis by (simp only:)
    qed
    then have step: "?body u o' = o'(cur * 8 + u := ?P (offset + u))"
      using ker_step_pos [OF fit k(2,1), of q] by (simp add: Let_def)
    have "cur * 8 + u \<noteq> ?prev"
    proof (cases "cur = 0")
      case False
      then have "cur = 1" using cur by simp
      then show ?thesis using u len(3) by simp
    qed (use u len(3) in simp)
    then show "?I (Suc u) (?body u o')" using I unfolding step by (auto simp: less_Suc_eq)
  qed
  then show ?thesis using ur by simp
qed

lemma generic_loop_pos:
  assumes fit: "fits_int p" and len: "len \<le> nest_size (node_list p)"
  shows "cur \<le> 1 \<Longrightarrow>
    (if offset = 0 then offs (cur * 8) = q else offs ((cur * 8 + 15) mod 16) = pos_at (node_list p) (offset - 1) q) \<Longrightarrow>
    generic_loop p len offset cur offs = map (\<lambda>k. pos_at (node_list p) k q) [offset..<len]"
proof (induction "len - offset" arbitrary: offset cur offs rule: less_induct)
  case less
  let ?P = "\<lambda>k. pos_at (node_list p) k q"
  show ?case
  proof (cases "offset < len")
    case True
    define reg where "reg = min (offset + 8) len - offset"
    have reg: "0 < reg" "reg \<le> 8" "offset + reg \<le> len" using True by (auto simp: reg_def)
    define offs' where "offs' = for_range (if offset \<noteq> 0 then 0 else 1) reg
      (\<lambda>ur offs. let ur_c = cur * 8 + ur; ur_p = (ur_c + 2 * 8 - 1) mod (2 * 8)
        in offs(ur_c := ker_step p (int (offset + ur)) (offs ur_p) 1)) offs"
    have b: "offs' (cur * 8 + ur) = ?P (offset + ur)" if "ur < reg" for ur
      unfolding offs'_def by (rule generic_block [OF fit _ reg(1,2) less.prems that]) (use reg(3) len in simp)
    have m: "map (\<lambda>ur. offs' (cur * 8 + ur)) [0..<reg] = map ?P [offset..<offset + reg]"
      by (rule nth_equalityI) (simp_all add: b)
    have r: "generic_loop p len offset cur offs = map ?P [offset..<offset + reg] @ generic_loop p len (offset + 8) (1 - cur) offs'"
      using True unfolding m [symmetric] by (subst generic_loop.simps) (simp only: Let_def reg_def offs'_def if_True)
    show ?thesis
    proof (cases "offset + 8 < len")
      case more: True
      then have "reg = 8" by (simp add: reg_def)
      moreover have "((1 - cur) * 8 + 15) mod 16 = cur * 8 + 7" using less.prems(1) by (cases cur) auto
      ultimately have "generic_loop p len (offset + 8) (1 - cur) offs' = map ?P [offset + 8..<len]"
        using b [of 7] by (intro less.hyps) (use True in \<open>auto simp: add.commute\<close>)
      then show ?thesis unfolding r using \<open>reg = 8\<close> more upt_add_eq_append [of offset "offset + 8" "len - (offset + 8)"]
        by simp
    next
      case False
      then have "reg = len - offset" using True by (simp add: reg_def)
      then show ?thesis unfolding r using False True by (simp add: generic_loop.simps)
    qed
  next
    case False
    then show ?thesis by (simp add: generic_loop.simps)
  qed
qed

lemma process_unroll_generic_pos:
  "fits_int p \<Longrightarrow> len \<le> nest_size (node_list p) \<Longrightarrow>
    process_unroll_generic p len = map (\<lambda>k. pos_at (node_list p) k (0, 0, 0)) [0..<len]"
  unfolding process_unroll_generic_def by (rule generic_loop_pos) simp_all

section \<open>All cases move the same elements\<close>

lemma tr8x8_transposes:
  assumes "\<And>i. i < 8 \<Longrightarrow> y i = map (f i) [0..<8]"
  shows "i < 8 \<Longrightarrow> tr8x8_regs y i = map (\<lambda>j. f j i) [0..<8]"
proof -
  have y: "y 0 = map (f 0) [0..<8]" "y 1 = map (f 1) [0..<8]" "y 2 = map (f 2) [0..<8]" "y 3 = map (f 3) [0..<8]"
    "y 4 = map (f 4) [0..<8]" "y 5 = map (f 5) [0..<8]" "y 6 = map (f 6) [0..<8]" "y 7 = map (f 7) [0..<8]"
    by (rule assms; simp)+
  have u: "[0..<8] = [0, 1, 2, 3, 4, 5, 6, 7::nat]" "[0..<4] = [0, 1, 2, 3::nat]" "[4..<8] = [4, 5, 6, 7::nat]"
    by (simp_all add: upt_rec)
  assume "i < 8"
  then have "i = 0 \<or> i = 1 \<or> i = 2 \<or> i = 3 \<or> i = 4 \<or> i = 5 \<or> i = 6 \<or> i = 7" by linarith
  then show ?thesis
    by (elim disjE) (simp_all add: tr8x8_regs_def for_range_def u y y(2) [unfolded One_nat_def] Let_def vunpcklps_def vunpckhps_def vshufps_def vperm2f128_def)
qed

lemma tr8x8_moves:
  "tr8x8_avx2 i_off o_off = map (\<lambda>k. (i_off + 8 * int (k mod 8) + int (k div 8), o_off + 8 * int (k div 8) + int (k mod 8), 0)) [0..<64]"
proof -
  let ?f = "\<lambda>i l. i_off + int i * 8 + int l"
  have t: "tr8x8_regs (\<lambda>i. map (?f i) [0..<8]) i = map (\<lambda>j. ?f j i) [0..<8]" if "i < 8" for i
    by (rule tr8x8_transposes [OF refl that])
  have g: "concat (map (\<lambda>i. map (\<lambda>l. g i l) [0..<8]) [0..<n]) = map (\<lambda>k. g (k div 8) (k mod 8)) [0..<n * 8]"
    for g :: "nat \<Rightarrow> nat \<Rightarrow> position" and n
  proof (induction n)
    case (Suc n)
    have u: "[0..<Suc n * 8] = [0..<n * 8] @ map (\<lambda>l. n * 8 + l) [0..<8]"
      using upt_add_eq_append [of 0 "n * 8" 8] map_add_upt [of "n * 8" 8] by (simp add: add.commute)
    show ?case unfolding u by (simp add: Suc.IH comp_def)
  qed simp
  have "tr8x8_avx2 i_off o_off = concat (map (\<lambda>i. map (\<lambda>l. (?f l i, o_off + int i * 8 + int l, 0)) [0..<8]) [0..<8])"
    unfolding tr8x8_avx2_def Let_def by (intro arg_cong [where f = concat] map_cong refl) (simp_all add: t)
  also have "\<dots> = map (\<lambda>k. (?f (k mod 8) (k div 8), o_off + int (k div 8) * 8 + int (k mod 8), 0)) [0..<8 * 8]" by (rule g)
  finally show ?thesis by (simp add: mult.commute)
qed

text \<open>Without scale strides, positions keep scale 0.\<close>

lemma pos_at_no_scale: "\<forall>x\<in>set xs. nd_ss x = 0 \<Longrightarrow> snd (snd (pos_at xs k q)) = snd (snd q)"
  by (induction xs arbitrary: k q) (simp_all add: move_by_def split_beta)

lemma direct_copy_loop_moves:
  assumes "0 < simd_w" "simd_w dvd len"
  shows "simd_w dvd offset \<Longrightarrow> offset \<le> len \<Longrightarrow>
    direct_copy_loop len simd_w offset = Some (map (\<lambda>k. (int k, int k, 0)) [offset..<len])"
proof (induction "len - offset" arbitrary: offset rule: less_induct)
  case less
  let ?u = "min 16 ((len - offset) div simd_w)" and ?m = "\<lambda>k. (int k, int k, 0 :: int)"
  show ?case
  proof (cases "offset < len")
    case True
    have dv: "simd_w dvd len - offset" using assms(2) less.prems(1) by (rule dvd_diff_nat)
    have "simd_w \<le> len - offset" using dv True by (intro dvd_imp_le) simp_all
    then have u: "0 < ?u" using assms(1) by (simp add: div_greater_zero_iff)
    have "?u * simd_w \<le> (len - offset) div simd_w * simd_w" by simp
    then have le: "offset + ?u * simd_w \<le> len" using True dv by simp
    have blocks: "concat (map (\<lambda>ur. map (\<lambda>l. g (offset + ur * simd_w + l)) [0..<simd_w]) [0..<n]) =
        map g [offset..<offset + n * simd_w]" for n and g :: "nat \<Rightarrow> position"
    proof (induction n)
      case (Suc n)
      have "[offset..<offset + Suc n * simd_w] = [offset..<offset + n * simd_w] @ map (\<lambda>l. offset + n * simd_w + l) [0..<simd_w]"
        using upt_add_eq_append [of offset "offset + n * simd_w" simd_w] map_add_upt [of "offset + n * simd_w" simd_w]
        by (simp add: ac_simps)
      then show ?case by (simp add: Suc.IH comp_def)
    qed simp
    have "direct_copy_loop len simd_w (offset + ?u * simd_w) = Some (map ?m [offset + ?u * simd_w..<len])"
    proof (rule less.hyps)
      have "0 < ?u * simd_w" using u assms(1) by (simp only: nat_0_less_mult_iff)
      then show "len - (offset + ?u * simd_w) < len - offset" using True by linarith
      show "simd_w dvd offset + ?u * simd_w" using less.prems(1) by simp
    qed (rule le)
    then have "direct_copy_loop len simd_w offset = Some (map ?m [offset..<offset + ?u * simd_w] @ map ?m [offset + ?u * simd_w..<len])"
      using True by (subst direct_copy_loop.simps) (simp add: Let_def blocks [of ?m, simplified])
    then show ?thesis using upt_add_eq_append [of offset "offset + ?u * simd_w" "len - (offset + ?u * simd_w)"] le
      by (simp flip: map_append)
  next
    case False
    then show ?thesis using less.prems by (subst direct_copy_loop.simps) simp
  qed
qed

lemma process_direct_copy_moves:
  assumes fit: "fits_int p" and nd: "0 < prb_ndims p" and len: "0 < len"
    and sz: "data_type_size (prb_itype p) \<in> {1, 2, 4}" and isa: "isa \<in> {sse41, avx}"
    and ss: "prb_scale_type p = Scale_none \<Longrightarrow> \<forall>x\<in>set (node_list p). nd_ss x = 0"
  shows "process_direct_copy mayiuse isa p len = Some None \<or>
    process_direct_copy mayiuse isa p len = Some (Some (map (\<lambda>k. pos_at (node_list p) k (0, 0, 0)) [0..<len]))"
proof (cases "process_direct_copy mayiuse isa p len = Some None")
  case False
  let ?w = "vlen isa div data_type_size (prb_itype p)" and ?x = "prb_nodes p 0"
  note f = fits_int_at [OF fit nd]
  have can: "ker_os p 0 = 1" "ker_is p 0 = 1" "len mod ?w = 0" "ker_n p 0 smod int len = 0" "prb_scale_type p = Scale_none"
    and r: "process_direct_copy mayiuse isa p len = map_option Some (direct_copy_loop len ?w 0)"
    using False by (auto simp: process_direct_copy_def Let_def split: if_splits)
  have w: "0 < ?w" using sz isa by auto
  have "int (nd_n ?x mod len) = 0" using can(4) by (simp add: f(1) cdiv_simps zmod_int)
  then have "len \<le> nd_n ?x" using f(5) by (intro dvd_imp_le) auto
  have L: "node_list p = ?x # map (prb_nodes p) [1..<prb_ndims p]" using nd by (simp add: node_list_def upt_conv_Cons)
  have "pos_at (node_list p) k (0, 0, 0) = (int k, int k, 0)" if "k < len" for k
  proof -
    have "nd_ss ?x = 0" using ss [OF can(5)] by (simp add: L)
    then show ?thesis using that \<open>len \<le> nd_n ?x\<close> can(1,2) by (simp add: L move_by_def f(2,3))
  qed
  then have "map (\<lambda>k. pos_at (node_list p) k (0, 0, 0)) [0..<len] = map (\<lambda>k. (int k, int k, 0)) [0..<len]" by simp
  then show ?thesis using direct_copy_loop_moves [OF w, of len 0] can(3) by (simp add: r mod_eq_0_iff_dvd)
qed simp

lemma tr8x8_step:
  assumes fit: "fits_int p" and nd: "2 \<le> prb_ndims p" and n: "nd_n (prb_nodes p 0) = 8" "nd_n (prb_nodes p 1) = 8"
    and b: "0 < b" "b < nest_size (nodes_from p 2)"
  shows "ker_step p (int (b * 64)) (pos_at (nodes_from p 2) (b - 1) q) 64 = pos_at (nodes_from p 2) b q"
proof -
  have "start_dim p 0 1 64 = 2"
    using nd n fits_int_at(1) [OF fit, of 0] fits_int_at(1) [OF fit, of 1]
    by (simp add: start_dim.simps [of p 0] start_dim.simps [of p "Suc 0"] start_dim.simps [of p "Suc (Suc 0)"] numeral_2_eq_2)
  moreover have "int (b * 64) sdiv 64 = int b" by (simp add: cdiv_simps)
  ultimately show ?thesis using step_loop_pos [OF fit b] b(1) by (simp add: ker_step_def)
qed

lemma tr8x8_loop_moves:
  assumes fit: "fits_int p" and nd: "2 \<le> prb_ndims p"
    and x: "prb_nodes p 0 = \<lparr>nd_n = 8, nd_is = 8, nd_os = 1, nd_ss = 0\<rparr>" "prb_nodes p 1 = \<lparr>nd_n = 8, nd_is = 1, nd_os = 8, nd_ss = 0\<rparr>"
    and ss: "\<forall>x\<in>set (node_list p). nd_ss x = 0" and nb: "nb \<le> nest_size (nodes_from p 2)"
  shows "b \<le> nb \<Longrightarrow> (i_off, o_off, 0) = pos_at (nodes_from p 2) (b - 1) (0, 0, 0) \<Longrightarrow>
    tr8x8_loop p (nb * 64) 64 (b * 64) i_off o_off = Some (map (\<lambda>k. pos_at (node_list p) k (0, 0, 0)) [b * 64..<nb * 64])"
proof (induction "nb - b" arbitrary: b i_off o_off)
  case 0
  then show ?case by (subst tr8x8_loop.simps) simp
next
  case (Suc m)
  let ?R = "nodes_from p 2" and ?q = "(0, 0, 0) :: position"
  have b: "b < nb" using Suc.hyps(2) by simp
  have L: "node_list p = prb_nodes p 0 # prb_nodes p 1 # ?R"
    using nd by (simp add: node_list_def upt_conv_Cons numeral_2_eq_2)
  obtain i w where p: "pos_at ?R b ?q = (i, w, 0)"
    using pos_at_no_scale [of ?R b ?q] ss by (metis L list.set_intros(2) prod.collapse snd_conv)
  have step: "ker_step p (int (b * 64)) (i_off, o_off, 0) 64 = (i, w, 0)"
  proof (cases "b = 0")
    case True
    then show ?thesis using Suc.prems(2) p by (simp add: ker_step_def)
  next
    case False
    then show ?thesis using tr8x8_step [OF fit nd, of b ?q] x b nb p Suc.prems(2) by simp
  qed
  have mv: "tr8x8_avx2 i w = map (\<lambda>k. pos_at (node_list p) k ?q) [b * 64..<(b + 1) * 64]"
  proof (rule nth_equalityI)
    fix k assume "k < length (tr8x8_avx2 i w)"
    then have k: "k < 64" by (simp add: tr8x8_moves)
    have d: "(b * 64 + k) mod 8 = k mod 8" "(b * 64 + k) div 8 mod 8 = k div 8" "(b * 64 + k) div 8 div 8 = b"
    proof -
      have e: "b * 64 + k = k + b * 8 * 8" and q: "k div 8 < 8" using k by auto
      show "(b * 64 + k) mod 8 = k mod 8" unfolding e by (rule mod_mult_self1)
      have "(b * 64 + k) div 8 = k div 8 + b * 8" unfolding e by simp
      then show "(b * 64 + k) div 8 mod 8 = k div 8" "(b * 64 + k) div 8 div 8 = b" using q by simp_all
    qed
    have "pos_at (node_list p) (b * 64 + k) ?q =
        move_by (prb_nodes p 0) (k mod 8) (move_by (prb_nodes p 1) (k div 8) (pos_at ?R b ?q))"
      using d by (simp only: L pos_at.simps x node.simps pos_at_move)
    then show "tr8x8_avx2 i w ! k = map (\<lambda>k. pos_at (node_list p) k ?q) [b * 64..<(b + 1) * 64] ! k"
      using k by (simp add: tr8x8_moves p x x(2) [unfolded One_nat_def] move_by_def)
  qed (simp add: tr8x8_moves)
  have "tr8x8_loop p (nb * 64) 64 ((b + 1) * 64) i w = Some (map (\<lambda>k. pos_at (node_list p) k ?q) [(b + 1) * 64..<nb * 64])"
    by (rule Suc.hyps(1)) (use Suc.hyps(2) b p in simp_all)
  then have "tr8x8_loop p (nb * 64) 64 (b * 64) i_off o_off =
      Some (tr8x8_avx2 i w @ map (\<lambda>k. pos_at (node_list p) k ?q) [(b + 1) * 64..<nb * 64])"
    using b step by (subst tr8x8_loop.simps) (simp add: add.commute)
  then show ?case using upt_add_eq_append [of "b * 64" "(b + 1) * 64" "nb * 64 - (b + 1) * 64"] b
    by (simp add: mv flip: map_append)
qed

lemma process_unroll_tr8x8_moves:
  assumes fit: "fits_int p" and len: "len \<le> nest_size (node_list p)"
    and blocks: "2 \<le> prb_ndims p \<Longrightarrow> nd_n (prb_nodes p 0) = 8 \<Longrightarrow> nd_n (prb_nodes p 1) = 8 \<Longrightarrow> 64 dvd len"
    and ss: "prb_scale_type p = Scale_none \<Longrightarrow> \<forall>x\<in>set (node_list p). nd_ss x = 0"
  shows "process_unroll_tr8x8 mayiuse p len = Some None \<or>
    process_unroll_tr8x8 mayiuse p len = Some (Some (map (\<lambda>k. pos_at (node_list p) k (0, 0, 0)) [0..<len]))"
proof (cases "process_unroll_tr8x8 mayiuse p len = Some None")
  case False
  then have nd: "2 \<le> prb_ndims p" and can: "ker_n p 0 = 8" "ker_n p 1 = 8" "ker_os p 0 = 1" "ker_is p 1 = 1" "ker_os p 1 = 8"
      "ker_is p 0 = 8" "prb_scale_type p = Scale_none"
    and r: "process_unroll_tr8x8 mayiuse p len = map_option Some (tr8x8_loop p len (nat (ker_n p 0 * ker_n p 1)) 0 0 0)"
    by (auto simp: process_unroll_tr8x8_def Let_def split: if_splits)
  have z: "0 < prb_ndims p" "1 < prb_ndims p" using nd by simp_all
  have z0: "nd_ss (prb_nodes p 0) = 0" "nd_ss (prb_nodes p 1) = 0" using ss [OF can(7)] z by (simp_all add: node_list_def)
  have x: "prb_nodes p 0 = \<lparr>nd_n = 8, nd_is = 8, nd_os = 1, nd_ss = 0\<rparr>" "prb_nodes p 1 = \<lparr>nd_n = 8, nd_is = 1, nd_os = 8, nd_ss = 0\<rparr>"
    using can fits_int_at [OF fit z(1)] fits_int_at [OF fit z(2)] z0 by (auto intro!: node.equality)
  obtain nb where nb: "len = nb * 64" using blocks [OF nd] x by (auto elim!: dvdE)
  have "node_list p = prb_nodes p 0 # prb_nodes p 1 # nodes_from p 2"
    using nd by (simp add: node_list_def upt_conv_Cons numeral_2_eq_2)
  then have "nest_size (node_list p) = nest_size (nodes_from p 2) * 64" by (simp only: nest_size_simps x node.simps)
  then have "nb \<le> nest_size (nodes_from p 2)" using len by (simp add: nb)
  from tr8x8_loop_moves [OF fit nd x ss [OF can(7)] this, of 0 0 0]
  have "tr8x8_loop p len 64 0 0 0 = Some (map (\<lambda>k. pos_at (node_list p) k (0, 0, 0)) [0..<len])" by (simp add: nb)
  then show ?thesis using can(1,2) by (simp add: r)
qed simp

lemma process_unroll_moves:
  assumes fit: "fits_int p" and nd: "0 < prb_ndims p" and len: "0 < len" "len \<le> nest_size (node_list p)"
    and sz: "data_type_size (prb_itype p) \<in> {1, 2, 4}"
    and blocks: "2 \<le> prb_ndims p \<Longrightarrow> nd_n (prb_nodes p 0) = 8 \<Longrightarrow> nd_n (prb_nodes p 1) = 8 \<Longrightarrow> 64 dvd len"
    and ss: "prb_scale_type p = Scale_none \<Longrightarrow> \<forall>x\<in>set (node_list p). nd_ss x = 0"
  shows "process_unroll mayiuse p len = Some (map (\<lambda>k. pos_at (node_list p) k (0, 0, 0)) [0..<len])"
proof -
  let ?ps = "map (\<lambda>k. pos_at (node_list p) k (0, 0, 0)) [0..<len]"
  have dc: "process_direct_copy mayiuse isa p len \<in> {Some None, Some (Some ?ps)}" if "isa \<in> {sse41, avx}" for isa
    using process_direct_copy_moves [OF fit nd len(1) sz that ss] by simp
  have tr: "process_unroll_tr8x8 mayiuse p len \<in> {Some None, Some (Some ?ps)}"
    using process_unroll_tr8x8_moves [OF fit len(2) blocks ss] by simp
  have or: "Option.bind r (\<lambda>done. case done of Some moves \<Rightarrow> Some moves | None \<Rightarrow> other) = Some ps"
    if "r \<in> {Some None, Some (Some ps)}" "other = Some ps" for r and other and ps :: "position list"
    using that by auto
  show ?thesis unfolding process_unroll_def Let_def
    by (intro or dc tr) (simp_all add: process_unroll_generic_pos [OF fit len(2)])
qed

end
