(* ===== verification/Reorder_Kernel.thy ===== *)
theory Reorder_Kernel
  imports Reorder_Unroll
begin

text \<open>
  Execution of the optimised CPU reorder (\<open>src/src/cpu/jit_uni_reorder.cpp\<close>): the loops the
  generator emits around the unrolled part, and the driver that runs the kernel over the
  remaining loops in parallel. The conversion of an element is a parameter, the same whichever
  instructions move it; the input buffer is not the output buffer.

  The kernel visits the positions of its nest, and the calls of the threads those of the rest.
\<close>

section \<open>The generated loops\<close>

text \<open>
  \<open>loop_begin\<close> and \<open>loop_end\<close>: the code between them runs \<open>len\<close> times, the offset registers
  move by the steps after each turn and back at the end.
\<close>

definition jit_loop :: "nat \<Rightarrow> int \<Rightarrow> int \<Rightarrow> int \<Rightarrow> (position \<Rightarrow> position list) \<Rightarrow> position \<Rightarrow> position list" where
  "jit_loop len i_step o_step s_step body = (\<lambda>(i, w, s).
     concat (map (\<lambda>k. body (i + int k * i_step, w + int k * o_step, s + int k * s_step)) [0..<len]))"

definition simple_impl :: "(cpu_isa \<Rightarrow> bool) \<Rightarrow> prb \<Rightarrow> position list option" where
  "simple_impl mayiuse p =
     Option.bind (simple_impl_desc_init p) (\<lambda>d. Option.bind (process_unroll mayiuse p (si_len_unroll d)) (\<lambda>moves.
          let nfu = si_ndims_full_unroll d; ldu = si_len_last_dim_unroll d; n_jit_loops = prb_ndims p - nfu;
              body = (\<lambda>(i, w, s). map (\<lambda>(i', w', s'). (i + i', w + w', s + s')) moves);
              body = (if n_jit_loops > 0
                then jit_loop (nat (ker_n p nfu sdiv int ldu)) (ker_is p nfu * int ldu) (ker_os p nfu * int ldu)
                       (ker_ss p nfu * int ldu) body
                else body);
              body = (if n_jit_loops > 1
                then jit_loop (nat (ker_n p (nfu + 1))) (ker_is p (nfu + 1)) (ker_os p (nfu + 1)) (ker_ss p (nfu + 1)) body
                else body);
              body = (if n_jit_loops > 2
                then jit_loop (nat (ker_n p (nfu + 2))) (ker_is p (nfu + 2)) (ker_os p (nfu + 2)) (ker_ss p (nfu + 2)) body
                else body)
          in Some (body (0, 0, 0))))"

section \<open>The driver\<close>

record call_param =
  cp_in :: int
  cp_out :: int
  cp_scale :: int

definition zero_call_param :: call_param where
  "zero_call_param = \<lparr>cp_in = 0, cp_out = 0, cp_scale = 0\<rparr>"

definition omp_driver_0d :: "(call_param \<Rightarrow> 's \<Rightarrow> 's) \<Rightarrow> int \<Rightarrow> int \<Rightarrow> int \<Rightarrow> 's \<Rightarrow> 's" where
  "omp_driver_0d ker inp out scale = ker \<lparr>cp_in = inp, cp_out = out, cp_scale = scale\<rparr>"

definition omp_driver_1d :: "(call_param \<Rightarrow> 's \<Rightarrow> 's) \<Rightarrow> prb \<Rightarrow> nat \<Rightarrow> nat \<Rightarrow> nat \<Rightarrow> int \<Rightarrow> int \<Rightarrow> int \<Rightarrow> 's \<Rightarrow> 's" where
  "omp_driver_1d ker p ithr nthr offset inp out scale =
     (let ns = from_index offset (prb_nodes p);
          isz = int (data_type_size (prb_itype p)); osz = int (data_type_size (prb_otype p))
      in for_nd ithr nthr [nd_n (ns 0)] (\<lambda>ix.
           let d0 = int (ix ! 0)
           in ker (zero_call_param\<lparr>cp_in := inp + d0 * nd_is (ns 0) * isz,
                cp_out := out + d0 * nd_os (ns 0) * osz, cp_scale := scale + d0 * nd_ss (ns 0)\<rparr>)))"

definition omp_driver_2d :: "(call_param \<Rightarrow> 's \<Rightarrow> 's) \<Rightarrow> prb \<Rightarrow> nat \<Rightarrow> nat \<Rightarrow> nat \<Rightarrow> int \<Rightarrow> int \<Rightarrow> int \<Rightarrow> 's \<Rightarrow> 's" where
  "omp_driver_2d ker p ithr nthr offset inp out scale =
     (let ns = from_index offset (prb_nodes p);
          isz = int (data_type_size (prb_itype p)); osz = int (data_type_size (prb_otype p))
      in for_nd ithr nthr [nd_n (ns 1), nd_n (ns 0)] (\<lambda>ix.
           let d1 = int (ix ! 0); d0 = int (ix ! 1)
           in ker (zero_call_param\<lparr>cp_in := inp + (d0 * nd_is (ns 0) + d1 * nd_is (ns 1)) * isz,
                cp_out := out + (d0 * nd_os (ns 0) + d1 * nd_os (ns 1)) * osz,
                cp_scale := scale + d0 * nd_ss (ns 0) + d1 * nd_ss (ns 1)\<rparr>)))"

definition omp_driver_3d :: "(call_param \<Rightarrow> 's \<Rightarrow> 's) \<Rightarrow> prb \<Rightarrow> nat \<Rightarrow> nat \<Rightarrow> nat \<Rightarrow> int \<Rightarrow> int \<Rightarrow> int \<Rightarrow> 's \<Rightarrow> 's" where
  "omp_driver_3d ker p ithr nthr offset inp out scale =
     (let ns = from_index offset (prb_nodes p);
          isz = int (data_type_size (prb_itype p)); osz = int (data_type_size (prb_otype p))
      in for_nd ithr nthr [nd_n (ns 2), nd_n (ns 1), nd_n (ns 0)] (\<lambda>ix.
           let d2 = int (ix ! 0); d1 = int (ix ! 1); d0 = int (ix ! 2)
           in ker (zero_call_param\<lparr>
                cp_in := inp + (d0 * nd_is (ns 0) + d1 * nd_is (ns 1) + d2 * nd_is (ns 2)) * isz,
                cp_out := out + (d0 * nd_os (ns 0) + d1 * nd_os (ns 1) + d2 * nd_os (ns 2)) * osz,
                cp_scale := scale + d0 * nd_ss (ns 0) + d1 * nd_ss (ns 1) + d2 * nd_ss (ns 2)\<rparr>)))"

definition omp_driver_4d :: "(call_param \<Rightarrow> 's \<Rightarrow> 's) \<Rightarrow> prb \<Rightarrow> nat \<Rightarrow> nat \<Rightarrow> nat \<Rightarrow> int \<Rightarrow> int \<Rightarrow> int \<Rightarrow> 's \<Rightarrow> 's" where
  "omp_driver_4d ker p ithr nthr offset inp out scale =
     (let ns = from_index offset (prb_nodes p);
          isz = int (data_type_size (prb_itype p)); osz = int (data_type_size (prb_otype p))
      in for_nd ithr nthr [nd_n (ns 3), nd_n (ns 2), nd_n (ns 1), nd_n (ns 0)] (\<lambda>ix.
           let d3 = int (ix ! 0); d2 = int (ix ! 1); d1 = int (ix ! 2); d0 = int (ix ! 3)
           in ker (zero_call_param\<lparr>
                cp_in := inp + (d0 * nd_is (ns 0) + d1 * nd_is (ns 1) + d2 * nd_is (ns 2) + d3 * nd_is (ns 3)) * isz,
                cp_out := out + (d0 * nd_os (ns 0) + d1 * nd_os (ns 1) + d2 * nd_os (ns 2) + d3 * nd_os (ns 3)) * osz,
                cp_scale := scale + d0 * nd_ss (ns 0) + d1 * nd_ss (ns 1) + d2 * nd_ss (ns 2) + d3 * nd_ss (ns 3)\<rparr>)))"

text \<open>What a thread of the parallel section runs; the assertion of the default case does nothing.\<close>

definition omp_driver_thread :: "(call_param \<Rightarrow> 's \<Rightarrow> 's) \<Rightarrow> prb \<Rightarrow> nat \<Rightarrow> nat \<Rightarrow> nat \<Rightarrow> int \<Rightarrow> int \<Rightarrow> int \<Rightarrow> 's \<Rightarrow> 's" where
  "omp_driver_thread ker p ndims_ker ithr nthr inp out scale =
     (let n = prb_ndims p - ndims_ker
      in if n = 1 then omp_driver_1d ker p ithr nthr ndims_ker inp out scale
         else if n = 2 then omp_driver_2d ker p ithr nthr ndims_ker inp out scale
         else if n = 3 then omp_driver_3d ker p ithr nthr ndims_ker inp out scale
         else if n = 4 then omp_driver_4d ker p ithr nthr ndims_ker inp out scale
         else id)"

text \<open>The kernel calls of every thread, in order, when the runtime grants \<open>nthr\<close> threads.\<close>

definition omp_driver_calls :: "prb \<Rightarrow> nat \<Rightarrow> nat \<Rightarrow> int \<Rightarrow> int \<Rightarrow> int \<Rightarrow> call_param list list" where
  "omp_driver_calls p ndims_ker nthr inp out scale =
     (let inp = inp + prb_ioff p * int (data_type_size (prb_itype p));
          out = out + prb_ooff p * int (data_type_size (prb_otype p))
      in if prb_ndims p - ndims_ker = 0 then [rev (omp_driver_0d (#) inp out scale [])]
         else map (\<lambda>ithr. rev (omp_driver_thread (#) p ndims_ker ithr nthr inp out scale [])) [0..<nthr])"

text \<open>A call of the kernel: every offset moves one element of the input to the output.\<close>

definition kernel_call :: "(cpu_isa \<Rightarrow> bool) \<Rightarrow> ('s \<Rightarrow> float_bits \<Rightarrow> 'i \<Rightarrow> 'o \<Rightarrow> 'o) \<Rightarrow> prb \<Rightarrow> (int \<Rightarrow> 's) \<Rightarrow> (int \<Rightarrow> 'i) \<Rightarrow>
    call_param \<Rightarrow> (int \<Rightarrow> 'o) \<Rightarrow> int \<Rightarrow> 'o" where
  "kernel_call mayiuse qz p scales inp c out =
     fold (\<lambda>(i_off, o_off, s_off) out.
         let i = cp_in c + i_off * int (data_type_size (prb_itype p));
             a = cp_out c + o_off * int (data_type_size (prb_otype p))
         in out(a := qz (scales (cp_scale c + s_off)) (prb_beta p) (inp i) (out a)))
       (the (simple_impl mayiuse p)) out"

section \<open>The loops around the unrolled part\<close>

lemma last_dim_unroll_divides: "0 < l \<Longrightarrow> last_dim_unroll n l dvd n \<and> 0 < last_dim_unroll n l \<and> last_dim_unroll n l \<le> l"
proof (induction n l rule: last_dim_unroll.induct)
  case (2 n l)
  show ?case
  proof (cases "n mod Suc l = 0")
    case True
    then show ?thesis by auto
  next
    case False
    then have "0 < l" by (cases l) auto
    then show ?thesis using 2 False by simp
  qed
qed simp

text \<open>The unrolled part covers the first nodes, and a divisor of the next one.\<close>

lemma unroll_loop_spec:
  assumes "\<And>i. i < prb_ndims p \<Longrightarrow> 0 < nd_n (prb_nodes p i)"
  shows "d \<le> prb_ndims p \<Longrightarrow> len = nest_size (map (prb_nodes p) [0..<d]) \<Longrightarrow> len \<le> len_unroll_max \<Longrightarrow> 0 < len \<Longrightarrow>
    (let r = unroll_loop p d d len; nfu = si_ndims_full_unroll r; ldu = si_len_last_dim_unroll r
     in nfu \<le> prb_ndims p \<and> si_len_unroll r = nest_size (map (prb_nodes p) [0..<nfu]) * ldu \<and> 0 < ldu \<and>
       (nfu < prb_ndims p \<longrightarrow> ldu dvd nd_n (prb_nodes p nfu)) \<and> (nfu = prb_ndims p \<longrightarrow> ldu = 1))"
proof (induction "prb_ndims p - d" arbitrary: d len)
  case 0
  then show ?case by (subst unroll_loop.simps) (simp add: Let_def)
next
  case (Suc m)
  have d: "d < prb_ndims p" using Suc.hyps(2) by simp
  let ?n = "nd_n (prb_nodes p d)"
  show ?case
  proof (cases "len * ?n \<le> len_unroll_max")
    case True
    have r: "unroll_loop p d d len = unroll_loop p (d + 1) (d + 1) (len * ?n)" using True d by (subst unroll_loop.simps) simp
    have len': "len * ?n = nest_size (map (prb_nodes p) [0..<d + 1])" using Suc.prems(2) by simp
    show ?thesis unfolding r
      by (rule Suc.hyps(1) [OF _ _ len' True]) (use Suc.hyps(2) d Suc.prems(4) assms [OF d] in simp_all)
  next
    case False
    have "0 < len_unroll_max div len" using Suc.prems(3,4) by (simp add: div_greater_zero_iff)
    note l = last_dim_unroll_divides [OF this, of ?n]
    have r: "unroll_loop p d d len = \<lparr>si_ndims_full_unroll = d, si_len_last_dim_unroll = last_dim_unroll ?n (len_unroll_max div len),
        si_len_unroll = len * last_dim_unroll ?n (len_unroll_max div len)\<rparr>"
      using False d by (subst unroll_loop.simps) (simp add: Let_def)
    show ?thesis unfolding r Let_def using d l Suc.prems(2) by simp
  qed
qed

lemma desc_init_spec:
  assumes pos: "\<forall>i<prb_ndims p. 0 < nd_n (prb_nodes p i)" and d: "simple_impl_desc_init p = Some d"
  shows "si_ndims_full_unroll d \<le> prb_ndims p" "prb_ndims p \<le> si_ndims_full_unroll d + 3"
    "si_len_unroll d = nest_size (map (prb_nodes p) [0..<si_ndims_full_unroll d]) * si_len_last_dim_unroll d"
    "0 < si_len_last_dim_unroll d"
    "si_ndims_full_unroll d < prb_ndims p \<Longrightarrow> si_len_last_dim_unroll d dvd nd_n (prb_nodes p (si_ndims_full_unroll d))"
    "si_ndims_full_unroll d = prb_ndims p \<Longrightarrow> si_len_last_dim_unroll d = 1"
  using unroll_loop_spec [of p 0 1] pos d
  by (auto simp: simple_impl_desc_init_def Let_def len_unroll_max_def ndims_jit_loop_max_def split: if_splits)

lemma jit_loop_copies:
  assumes "\<And>q. mset (body q) = copies xs q"
  shows "mset (jit_loop (nd_n x) (nd_is x) (nd_os x) (nd_ss x) body q) = copies (x # xs) q"
proof -
  have "mset (concat (map f [0..<n])) = (\<Sum>k<n. mset (f k))" for f :: "nat \<Rightarrow> position list" and n
    by (induction n) simp_all
  then show ?thesis by (simp add: jit_loop_def split_beta assms move_by_def)
qed

lemma nest_size_pos: "\<forall>x\<in>set xs. 0 < nd_n x \<Longrightarrow> 0 < nest_size xs"
  by (induction xs) simp_all

lemma unrolled_size:
  assumes fit: "fits_int p" and nfu: "nfu \<le> prb_ndims p" and ldu: "0 < ldu"
    "nfu < prb_ndims p \<Longrightarrow> ldu dvd nd_n (prb_nodes p nfu)" "nfu = prb_ndims p \<Longrightarrow> ldu = 1"
  shows "0 < nest_size (map (prb_nodes p) [0..<nfu]) * ldu"
    "nest_size (map (prb_nodes p) [0..<nfu]) * ldu \<le> nest_size (node_list p)"
proof -
  let ?xs = "map (prb_nodes p) [0..<nfu]"
  have pos: "0 < nd_n (prb_nodes p i)" if "i < prb_ndims p" for i using fits_int_at(5) [OF fit that] .
  have L: "node_list p = ?xs @ map (prb_nodes p) [nfu..<prb_ndims p]"
    using kernel_nodes [OF nfu] by (simp add: node_list_def)
  have "0 < nest_size ?xs" using nfu pos by (intro nest_size_pos) auto
  then show "0 < nest_size ?xs * ldu" using ldu(1) by simp
  show "nest_size ?xs * ldu \<le> nest_size (node_list p)"
  proof (cases "nfu < prb_ndims p")
    case True
    have "ldu \<le> nd_n (prb_nodes p nfu)" using ldu(2) [OF True] pos [OF True] by (rule dvd_imp_le)
    moreover have "0 < nest_size (map (prb_nodes p) [Suc nfu..<prb_ndims p])" using pos by (intro nest_size_pos) auto
    ultimately have "ldu \<le> nd_n (prb_nodes p nfu) * nest_size (map (prb_nodes p) [Suc nfu..<prb_ndims p])"
      by (metis le_trans mult.right_neutral mult_le_mono2 Suc_leI One_nat_def)
    then show ?thesis by (simp add: L upt_conv_Cons True)
  next
    case False
    then show ?thesis using ldu(3) nfu by (simp add: L)
  qed
qed

lemma unrolled_copies:
  assumes fit: "fits_int p" and nfu: "nfu \<le> prb_ndims p" and ldu: "0 < ldu"
    "nfu < prb_ndims p \<Longrightarrow> ldu dvd nd_n (prb_nodes p nfu)" "nfu = prb_ndims p \<Longrightarrow> ldu = 1"
  defines "xs \<equiv> map (prb_nodes p) [0..<nfu]"
  defines "U \<equiv> xs @ (if nfu < prb_ndims p then [prb_nodes p nfu\<lparr>nd_n := ldu\<rparr>] else [])"
  shows "mset (map (\<lambda>k. add_pos q (pos_at (node_list p) k (0, 0, 0))) [0..<nest_size xs * ldu]) = copies U q"
proof -
  let ?L = "node_list p" and ?len = "nest_size xs * ldu"
  have L: "?L = xs @ map (prb_nodes p) [nfu..<prb_ndims p]"
    using kernel_nodes [OF nfu] by (simp add: xs_def node_list_def)
  have len: "?len = nest_size U" using ldu(3) nfu by (auto simp: U_def)
  have at: "pos_at ?L k q = pos_at U k q" if k: "k < ?len" for k
  proof (cases "nfu < prb_ndims p")
    case True
    let ?j = "k div nest_size xs"
    have j: "?j < ldu" using k by (metis less_mult_imp_div_less mult.commute)
    moreover have "ldu \<le> nd_n (prb_nodes p nfu)" using ldu(2) [OF True] fits_int_at(5) [OF fit True] by (rule dvd_imp_le)
    ultimately have "?j < nd_n (prb_nodes p nfu)" by simp
    moreover have "move_by (prb_nodes p nfu\<lparr>nd_n := ldu\<rparr>) = move_by (prb_nodes p nfu)" by (simp add: move_by_def fun_eq_iff)
    ultimately show ?thesis using j True by (simp add: L U_def pos_at_append upt_conv_Cons)
  next
    case False
    then show ?thesis using nfu by (simp add: L U_def)
  qed
  then have "map (\<lambda>k. add_pos q (pos_at ?L k (0, 0, 0))) [0..<?len] = map (\<lambda>k. pos_at U k q) [0..<?len]"
    by (simp add: pos_at_add)
  moreover have "mset (map f [0..<n]) = (\<Sum>k<n. {#f k#})" for f :: "nat \<Rightarrow> position" and n by (induction n) simp_all
  ultimately show ?thesis by (simp only: len pos_at_copies)
qed

text \<open>When the first two nodes form an 8x8 block, the unrolled part consists of such blocks.\<close>

lemma unroll_loop_ge: "d \<le> si_ndims_full_unroll (unroll_loop p d d len)"
proof (induction "prb_ndims p - d" arbitrary: d len)
  case 0
  then show ?case by (subst unroll_loop.simps) simp
next
  case (Suc m)
  then have "m = prb_ndims p - (d + 1)" by simp
  from Suc.hyps(1) [OF this, of "len * nd_n (prb_nodes p d)"] show ?case
    by (subst unroll_loop.simps) (simp add: Let_def)
qed

lemma unrolled_blocks:
  assumes pos: "\<forall>i<prb_ndims p. 0 < nd_n (prb_nodes p i)" and d: "simple_impl_desc_init p = Some d"
    and nd: "2 \<le> prb_ndims p" and n: "nd_n (prb_nodes p 0) = 8" "nd_n (prb_nodes p 1) = 8"
  shows "64 dvd si_len_unroll d"
proof -
  have "d = unroll_loop p 0 0 1" using d by (simp add: simple_impl_desc_init_def Let_def split: if_splits)
  also have "\<dots> = unroll_loop p 1 1 8" using nd n by (subst unroll_loop.simps) (simp add: len_unroll_max_def)
  also have "\<dots> = unroll_loop p 2 2 64"
    using nd n by (subst unroll_loop.simps) (simp add: len_unroll_max_def numeral_2_eq_2)
  finally have "2 \<le> si_ndims_full_unroll d" by (simp add: unroll_loop_ge)
  then obtain k where "si_ndims_full_unroll d = k + 2" by (metis add.commute le_Suc_ex)
  then have "map (prb_nodes p) [0..<si_ndims_full_unroll d] = prb_nodes p 0 # prb_nodes p 1 # map (prb_nodes p) [2..<k + 2]"
    using upt_add_eq_append [of 0 2 k] by (simp add: add.commute upt_rec [of 0] upt_rec [of "Suc 0"])
  then show ?thesis by (simp only: desc_init_spec(3) [OF pos d] nest_size_simps n) simp
qed

lemma simple_impl_copies:
  assumes fit: "fits_int p" and d: "simple_impl_desc_init p = Some d"
    and nd: "0 < prb_ndims p" and sz: "data_type_size (prb_itype p) \<in> {1, 2, 4}"
    and ss: "prb_scale_type p = Scale_none \<Longrightarrow> \<forall>x\<in>set (node_list p). nd_ss x = 0"
  shows "\<exists>offs. simple_impl mayiuse p = Some offs \<and> mset offs = copies (node_list p) (0, 0, 0)"
proof -
  have pos: "\<forall>i<prb_ndims p. 0 < nd_n (prb_nodes p i)" using fits_int_at(5) [OF fit] by simp
  define nfu ldu where "nfu = si_ndims_full_unroll d" and "ldu = si_len_last_dim_unroll d"
  note s = desc_init_spec [OF pos d, folded nfu_def ldu_def]
  let ?xs = "map (prb_nodes p) [0..<nfu]" and ?x = "prb_nodes p nfu"
  let ?x2 = "\<lparr>nd_n = nd_n ?x div ldu, nd_is = nd_is ?x * int ldu, nd_os = nd_os ?x * int ldu, nd_ss = nd_ss ?x * int ldu\<rparr>"
  let ?x1 = "?x\<lparr>nd_n := ldu\<rparr>" and ?y = "prb_nodes p (nfu + 1)" and ?z = "prb_nodes p (nfu + 2)"
  define moves where "moves = map (\<lambda>k. pos_at (node_list p) k (0, 0, 0)) [0..<si_len_unroll d]"
  have moves: "process_unroll mayiuse p (si_len_unroll d) = Some moves"
    unfolding moves_def
    by (rule process_unroll_moves [OF fit nd unrolled_size [OF fit s(1,4,5,6), folded s(3)] sz unrolled_blocks [OF pos d] ss])
  define b0 where "b0 = (\<lambda>(i, w, s). map (\<lambda>(i', w', s'). (i + i', w + w', s + s')) moves)"
  have b0: "mset (b0 q) = copies (?xs @ (if nfu < prb_ndims p then [?x1] else [])) q" for q
    using unrolled_copies [OF fit s(1,4,5,6), of q] by (simp add: b0_def moves_def s(3) add_pos_def split_beta comp_def)
  have L: "node_list p = ?xs @ map (prb_nodes p) [nfu..<prb_ndims p]" using kernel_nodes [OF s(1)] by (simp add: node_list_def)
  have f: "ker_n p i = int (nd_n (prb_nodes p i))" "ker_is p i = nd_is (prb_nodes p i)"
    "ker_os p i = nd_os (prb_nodes p i)" "ker_ss p i = nd_ss (prb_nodes p i)" if "i < prb_ndims p" for i
    using fits_int_at [OF fit that] by auto
  have n2: "nat (ker_n p nfu sdiv int ldu) = nd_n ?x div ldu" if "nfu < prb_ndims p"
    using f(1) [OF that] by (simp add: cdiv_simps nat_div_distrib)
  have head: "copies (R @ ?x2 # ?xs @ [?x1]) q = copies (?xs @ ?x # rev R) q" if "nfu < prb_ndims p" for R q
  proof -
    have "copies (R @ ?x2 # ?xs @ [?x1]) q = copies (?xs @ ?x1 # ?x2 # rev R) q" by (rule copies_perm) simp
    also have "\<dots> = copies (?xs @ ?x # rev R) q" using s(5) [OF that] by (simp only: copies_append copies_split)
    finally show ?thesis .
  qed
  have r: "simple_impl mayiuse p = Some (
     let n = prb_ndims p - nfu;
       body = (if n > 0 then jit_loop (nat (ker_n p nfu sdiv int ldu)) (ker_is p nfu * int ldu) (ker_os p nfu * int ldu) (ker_ss p nfu * int ldu) b0 else b0);
       body = (if n > 1 then jit_loop (nat (ker_n p (nfu + 1))) (ker_is p (nfu + 1)) (ker_os p (nfu + 1)) (ker_ss p (nfu + 1)) body else body);
       body = (if n > 2 then jit_loop (nat (ker_n p (nfu + 2))) (ker_is p (nfu + 2)) (ker_os p (nfu + 2)) (ker_ss p (nfu + 2)) body else body)
     in body (0, 0, 0))"
    by (simp add: simple_impl_def d moves Let_def b0_def flip: nfu_def ldu_def)
  have j1: "mset (jit_loop (nat (ker_n p nfu sdiv int ldu)) (ker_is p nfu * int ldu) (ker_os p nfu * int ldu) (ker_ss p nfu * int ldu) b0 q) =
      copies (?x2 # ?xs @ [?x1]) q" if "nfu < prb_ndims p" for q
    using jit_loop_copies [of b0 "?xs @ [?x1]" ?x2 q] b0 that by (simp only: n2 [OF that] f(2-4) [OF that] if_True node.simps)
  have j2: "mset (jit_loop (nat (ker_n p i)) (ker_is p i) (ker_os p i) (ker_ss p i) body q) = copies (prb_nodes p i # ys) q"
    if "i < prb_ndims p" "\<And>q. mset (body q) = copies ys q" for i body ys q
    using jit_loop_copies [OF that(2), of "prb_nodes p i" q] f [OF that(1)] by simp
  have "prb_ndims p - nfu = 0 \<or> prb_ndims p - nfu = 1 \<or> prb_ndims p - nfu = 2 \<or> prb_ndims p - nfu = 3" using s(2) by linarith
  then show ?thesis
  proof (elim disjE)
    assume n: "prb_ndims p - nfu = 0"
    then show ?thesis using b0 s(1) by (simp add: r L)
  next
    assume n: "prb_ndims p - nfu = 1"
    then have lt: "nfu < prb_ndims p" and R: "map (prb_nodes p) [nfu..<prb_ndims p] = [?x]" by (simp_all add: upt_conv_Cons)
    show ?thesis using j1 [OF lt] head [OF lt, of "[]"] by (simp add: r n L R)
  next
    assume n: "prb_ndims p - nfu = 2"
    then have lt: "nfu < prb_ndims p" "nfu + 1 < prb_ndims p" and R: "map (prb_nodes p) [nfu..<prb_ndims p] = [?x, ?y]"
      by (simp_all add: upt_conv_Cons)
    show ?thesis using j2 [OF lt(2) j1 [OF lt(1)]] head [OF lt(1), of "[?y]"] by (simp add: r n L R)
  next
    assume n: "prb_ndims p - nfu = 3"
    then have lt: "nfu < prb_ndims p" "nfu + 1 < prb_ndims p" "nfu + 2 < prb_ndims p"
      and R: "map (prb_nodes p) [nfu..<prb_ndims p] = [?x, ?y, ?z]"
      by (simp_all add: upt_conv_Cons)
    show ?thesis using j2 [OF lt(3) j2 [OF lt(2) j1 [OF lt(1)]]] head [OF lt(1), of "[?z, ?y]"] by (simp add: r n L R)
  qed
qed

section \<open>The kernel that was chosen\<close>

lemma int_div_le: "0 \<le> a \<Longrightarrow> 1 \<le> z \<Longrightarrow> a div z \<le> (a :: int)"
  using zdiv_mono2 [of a 1 z] by simp

lemma applicable_fits:
  assumes app: "ker_applicable mayiuse p" and ok: "\<forall>x\<in>set (node_list p). node_ok N x" and N: "int N \<le> INT32_MAX"
  shows "fits_int p" "\<exists>d. simple_impl_desc_init p = Some d"
proof -
  have t: "prb_itype p \<in> {f32, bf16, s32, s8, u8}" "prb_otype p \<in> {f32, bf16, s32, s8, u8}" and fit: "strides_fit p"
    using app by (auto simp: ker_applicable_def Let_def split: if_splits)
  show "\<exists>d. simple_impl_desc_init p = Some d" using app by (auto simp: ker_applicable_def Let_def split: if_splits)
  have sz: "1 \<le> int (data_type_size (prb_itype p))" "1 \<le> int (data_type_size (prb_otype p))" using t by auto
  show "fits_int p" unfolding fits_int_def Let_def
  proof (intro allI impI)
    fix d assume d: "d < prb_ndims p"
    let ?x = "prb_nodes p d" and ?M = "2 ^ 31 - 1 :: int"
    have x: "node_ok N ?x" by (rule node_ok_at [OF ok d])
    let ?cms = "?M div int (nd_n ?x)"
    have cms: "0 \<le> ?cms" using x by (simp add: node_ok_def pos_imp_zdiv_nonneg_iff)
    have c: "nd_is ?x < ?cms div int (data_type_size (prb_itype p))" "nd_os ?x < ?cms div int (data_type_size (prb_otype p))"
    proof -
      have "nd_is ?x < ?cms sdiv int (data_type_size (prb_itype p)) \<and> nd_os ?x < ?cms sdiv int (data_type_size (prb_otype p))"
        using fit d unfolding strides_fit_def Let_def by simp
      then show "nd_is ?x < ?cms div int (data_type_size (prb_itype p))" "nd_os ?x < ?cms div int (data_type_size (prb_otype p))"
        using cms by (simp_all add: sdiv_nonneg)
    qed
    have lt: "nd_is ?x < ?cms" "nd_os ?x < ?cms"
      using less_le_trans [OF c(1) int_div_le [OF cms sz(1)]] less_le_trans [OF c(2) int_div_le [OF cms sz(2)]] by auto
    have pos: "0 < nd_n ?x" "0 < nd_is ?x" "0 < nd_os ?x" "0 \<le> nd_ss ?x" "int (nd_n ?x) * nd_ss ?x \<le> int N"
      using x by (auto simp: node_ok_def)
    have le: "?cms \<le> ?M" using pos(1) by (intro int_div_le) simp_all
    have "1 \<le> ?cms" using lt pos(2) by linarith
    then have n: "int (nd_n ?x) \<le> ?M"
      by (cases "?M < int (nd_n ?x)") (simp_all add: div_pos_pos_trivial)
    have "1 * nd_ss ?x \<le> int (nd_n ?x) * nd_ss ?x" using pos(1,4) by (intro mult_right_mono) simp_all
    then have "nd_ss ?x \<le> INT32_MAX" using pos(5) N by linarith
    then show "0 < nd_n ?x \<and> int (nd_n ?x) \<le> INT32_MAX \<and> 0 \<le> nd_is ?x \<and> nd_is ?x \<le> INT32_MAX \<and>
        0 \<le> nd_os ?x \<and> nd_os ?x \<le> INT32_MAX \<and> 0 \<le> nd_ss ?x \<and> nd_ss ?x \<le> INT32_MAX"
      using pos lt le n by auto
  qed
qed

section \<open>The calls of the driver\<close>

lemma for_nd_calls:
  fixes c :: "nat list \<Rightarrow> 'c"
  assumes "ithr < nthr"
  shows "rev (for_nd ithr nthr Ds (\<lambda>ix. (#) (c ix)) []) = map c (for_nd_trace ithr nthr Ds)"
proof -
  have "fold (\<lambda>ix. (#) (c ix)) xs ys = rev (map c xs) @ ys" for xs ys
    by (induction xs arbitrary: ys) simp_all
  then show ?thesis using assms by (simp add: for_nd_eq for_nd_trace_eq)
qed

lemma box_list_sum: "mset (map c (box_list Ds)) = (\<Sum>ix | in_box Ds ix. {#c ix#})"
proof -
  have d: "distinct (box_list Ds)" using nd_indices_all(1) [of Ds] by (simp add: box_list_def nd_indices_def)
  have "mset (map c xs) = (\<Sum>ix\<in>set xs. {#c ix#})" if "distinct xs" for xs
    using that by (induction xs) simp_all
  then show ?thesis using d by (simp add: set_box_list)
qed

lemma threads_calls:
  assumes "0 < nthr"
  shows "mset (concat (map (\<lambda>ithr. rev (for_nd ithr nthr Ds (\<lambda>ix. (#) (c ix)) [])) [0..<nthr])) = (\<Sum>ix | in_box Ds ix. {#c ix#})"
proof -
  have "concat (map (\<lambda>ithr. rev (for_nd ithr nthr Ds (\<lambda>ix. (#) (c ix)) [])) [0..<nthr]) =
      concat (map (\<lambda>ithr. map c (for_nd_trace ithr nthr Ds)) [0..<nthr])"
    by (intro arg_cong [where f = concat] map_cong refl) (simp add: for_nd_calls)
  also have "\<dots> = map c (concat (map (\<lambda>ithr. for_nd_trace ithr nthr Ds) [0..<nthr]))" by (simp add: map_concat comp_def)
  also have "\<dots> = map c (box_list Ds)" by (simp add: traces_cover [OF assms] box_list_def nd_indices_def)
  finally show ?thesis by (simp only: box_list_sum)
qed

text \<open>The call for a position of the driver's nest.\<close>

definition call_at :: "prb \<Rightarrow> int \<Rightarrow> int \<Rightarrow> int \<Rightarrow> position \<Rightarrow> call_param" where
  "call_at p inp out scale = (\<lambda>(i, w, s).
     \<lparr>cp_in = inp + i * int (data_type_size (prb_itype p)), cp_out = out + w * int (data_type_size (prb_otype p)), cp_scale = scale + s\<rparr>)"

lemma image_mset_sum: "image_mset f (\<Sum>k<n. g k) = (\<Sum>k<(n :: nat). image_mset f (g k))"
  by (induction n) simp_all

lemma copies_rev: "copies xs q = copies (rev xs) q"
  by (rule copies_perm) simp

lemma driver_calls:
  assumes nthr: "0 < nthr" and k: "k \<le> prb_ndims p" and few: "prb_ndims p - k \<le> 4"
  shows "mset (concat (omp_driver_calls p k nthr inp out scale)) =
    image_mset (call_at p inp out scale) (copies (map (prb_nodes p) [k..<prb_ndims p]) (prb_ioff p, prb_ooff p, 0))"
proof -
  have n: "prb_ndims p - k = 0 \<or> prb_ndims p - k = 1 \<or> prb_ndims p - k = 2 \<or> prb_ndims p - k = 3 \<or> prb_ndims p - k = 4"
    using few by linarith
  let ?x = "\<lambda>i. prb_nodes p (k + i)"
  note defs = omp_driver_calls_def omp_driver_thread_def omp_driver_0d_def omp_driver_1d_def omp_driver_2d_def omp_driver_3d_def
    omp_driver_4d_def Let_def from_index_def zero_call_param_def
  from n show ?thesis
  proof (elim disjE)
    assume n: "prb_ndims p - k = 0"
    then show ?thesis by (simp add: defs call_at_def)
  next
    assume n: "prb_ndims p - k = 1"
    then have "map (prb_nodes p) [k..<prb_ndims p] = [?x 0]" by (simp add: upt_conv_Cons)
    then show ?thesis using n
      by (simp add: defs threads_calls [OF nthr] sum_box image_mset_sum call_at_def move_by_def algebra_simps)
  next
    assume n: "prb_ndims p - k = 2"
    then have "map (prb_nodes p) [k..<prb_ndims p] = [?x 0, ?x 1]" by (simp add: upt_conv_Cons)
    then have c: "copies (map (prb_nodes p) [k..<prb_ndims p]) q = copies [?x 1, ?x 0] q" for q by (simp only: copies_rev [of "[?x 0, ?x 1]"] rev.simps append.simps)
    then show ?thesis using n
      by (simp add: defs threads_calls [OF nthr] sum_box image_mset_sum call_at_def move_by_def algebra_simps c)
  next
    assume n: "prb_ndims p - k = 3"
    then have "map (prb_nodes p) [k..<prb_ndims p] = [?x 0, ?x 1, ?x 2]" by (simp add: upt_conv_Cons)
    then have c: "copies (map (prb_nodes p) [k..<prb_ndims p]) q = copies [?x 2, ?x 1, ?x 0] q" for q by (simp only: copies_rev [of "[?x 0, ?x 1, ?x 2]"] rev.simps append.simps)
    then show ?thesis using n
      by (simp add: defs threads_calls [OF nthr] sum_box image_mset_sum call_at_def move_by_def algebra_simps c)
  next
    assume n: "prb_ndims p - k = 4"
    then have "map (prb_nodes p) [k..<prb_ndims p] = [?x 0, ?x 1, ?x 2, ?x 3]" by (simp add: upt_conv_Cons eval_nat_numeral)
    then have c: "copies (map (prb_nodes p) [k..<prb_ndims p]) q = copies [?x 3, ?x 2, ?x 1, ?x 0] q" for q by (simp only: copies_rev [of "[?x 0, ?x 1, ?x 2, ?x 3]"] rev.simps append.simps)
    then show ?thesis using n
      by (simp add: defs threads_calls [OF nthr] sum_box image_mset_sum call_at_def move_by_def eval_nat_numeral algebra_simps c)
  qed
qed

end
