(* ===== verification/Reorder_Correct.thy ===== *)
theory Reorder_Correct
  imports Reorder_Kernel
begin

text \<open>
  Correctness of the optimised CPU reorder: whatever was planned, the kernel calls of the threads
  move every padded element once, under every schedule; without padding the result is that of
  the reference reorder of \<open>cpu/simple_reorder.hpp\<close>.
\<close>

section \<open>Moves\<close>

text \<open>A move names a source address, a destination address and the place of a scale.\<close>

abbreviation move_to :: "position \<Rightarrow> int" where
  "move_to m \<equiv> fst (snd m)"

definition move_all :: "('s \<Rightarrow> float_bits \<Rightarrow> 'i \<Rightarrow> 'o \<Rightarrow> 'o) \<Rightarrow> float_bits \<Rightarrow> (int \<Rightarrow> 's) \<Rightarrow> (int \<Rightarrow> 'i) \<Rightarrow>
    position list \<Rightarrow> (int \<Rightarrow> 'o) \<Rightarrow> int \<Rightarrow> 'o" where
  "move_all qz beta scales inp ms = fold (\<lambda>(i, a, s) out. out(a := qz (scales s) beta (inp i) (out a))) ms"

lemma move_all_frame: "a \<notin> set (map move_to ms) \<Longrightarrow> move_all qz beta scales inp ms out a = out a"
  by (induction ms arbitrary: out) (auto simp: move_all_def)

lemma move_all_read:
  "distinct (map move_to ms) \<Longrightarrow> (i, a, s) \<in> set ms \<Longrightarrow>
    move_all qz beta scales inp ms out a = qz (scales s) beta (inp i) (out a)"
proof (induction ms arbitrary: out)
  case (Cons m ms)
  obtain i' a' s' where m: "m = (i', a', s')" by (cases m)
  let ?out = "out(a' := qz (scales s') beta (inp i') (out a'))"
  have step: "move_all qz beta scales inp (m # ms) out = move_all qz beta scales inp ms ?out"
    by (simp add: move_all_def m)
  show ?case
  proof (cases "(i, a, s) = m")
    case True
    then have "a \<notin> set (map move_to ms)" using Cons.prems(1) by (auto simp: m)
    then show ?thesis unfolding step using True by (simp add: move_all_frame m del: set_map)
  next
    case False
    then have i: "(i, a, s) \<in> set ms" using Cons.prems(2) by auto
    then have "move_to (i, a, s) \<in> move_to ` set ms" by (rule imageI)
    then have "a \<noteq> a'" using Cons.prems(1) by (auto simp: m)
    then show ?thesis unfolding step using Cons.IH [OF _ i] Cons.prems(1) by simp
  qed
qed simp

lemma move_all_concat: "fold (\<lambda>x. move_all qz beta scales inp (f x)) xs = move_all qz beta scales inp (concat (map f xs))"
  by (induction xs) (simp_all add: move_all_def)

section \<open>The moves of a kernel call\<close>

definition call_moves :: "(cpu_isa \<Rightarrow> bool) \<Rightarrow> prb \<Rightarrow> call_param \<Rightarrow> position list" where
  "call_moves mayiuse p c = map (\<lambda>(i, w, s). (cp_in c + i * int (data_type_size (prb_itype p)),
     cp_out c + w * int (data_type_size (prb_otype p)), cp_scale c + s)) (the (simple_impl mayiuse p))"

lemma kernel_call_moves: "kernel_call mayiuse qz p scales inp c = move_all qz (prb_beta p) scales inp (call_moves mayiuse p c)"
  by (rule ext) (simp add: kernel_call_def move_all_def call_moves_def fold_map comp_def case_prod_unfold Let_def)

text \<open>The addresses of a position, relative to the bases of the buffers.\<close>

definition address_of :: "prb \<Rightarrow> int \<Rightarrow> int \<Rightarrow> int \<Rightarrow> position \<Rightarrow> position" where
  "address_of p inp out scale = (\<lambda>(i, w, s). (inp + i * int (data_type_size (prb_itype p)),
     out + w * int (data_type_size (prb_otype p)), scale + s))"

lemma copies_add: "copies xs (add_pos r q) = image_mset (add_pos r) (copies xs q)"
  by (induction xs arbitrary: q) (simp_all add: image_mset_sum flip: add_pos_move)

lemma call_moves_copies:
  assumes impl: "simple_impl mayiuse p = Some offs" "mset offs = copies (node_list p) (0, 0, 0)"
    and same: "prb_itype p = prb_itype p'" "prb_otype p = prb_otype p'"
  shows "mset (call_moves mayiuse p (call_at p' inp out scale r)) = image_mset (address_of p' inp out scale) (copies (node_list p) r)"
proof -
  have "call_moves mayiuse p (call_at p' inp out scale r) = map (\<lambda>q. address_of p' inp out scale (add_pos r q)) offs"
    by (cases r) (simp add: call_moves_def call_at_def address_of_def add_pos_def impl(1) same split_beta distrib_right)
  then have "mset (call_moves mayiuse p (call_at p' inp out scale r)) =
      image_mset (address_of p' inp out scale) (image_mset (add_pos r) (mset offs))"
    by (simp add: multiset.map_comp comp_def)
  then show ?thesis using copies_add [of "node_list p" r "(0, 0, 0)"] by (simp add: impl(2))
qed

lemma mset_concat_map: "mset (concat (map f xs)) = (\<Sum>x\<in>#mset xs. mset (f x))"
  by (induction xs) simp_all

text \<open>All calls together: the positions of the whole nest.\<close>

lemma calls_moves:
  assumes impl: "simple_impl mayiuse p = Some offs" "mset offs = copies (node_list p) (0, 0, 0)"
    and p: "p = p'\<lparr>prb_ioff := 0, prb_ooff := 0, prb_ndims := k\<rparr>"
    and nthr: "0 < nthr" and k: "k \<le> prb_ndims p'" "prb_ndims p' - k \<le> 4"
  shows "mset (concat (map (call_moves mayiuse p) (concat (omp_driver_calls p' k nthr inp out scale)))) =
    image_mset (address_of p' inp out scale) (copies (node_list p') (prb_ioff p', prb_ooff p', 0))"
proof -
  let ?q = "(prb_ioff p', prb_ooff p', 0)" and ?rest = "map (prb_nodes p') [k..<prb_ndims p']"
  have kn: "node_list p = node_list (p'\<lparr>prb_ndims := k\<rparr>)" by (simp add: p node_list_def)
  have m: "mset (call_moves mayiuse p (call_at p' inp out scale r)) = image_mset (address_of p' inp out scale) (copies (node_list p) r)" for r
    by (rule call_moves_copies [OF impl]) (simp_all add: p)
  have "mset (concat (map (call_moves mayiuse p) (concat (omp_driver_calls p' k nthr inp out scale)))) =
      (\<Sum>r\<in>#copies ?rest ?q. image_mset (address_of p' inp out scale) (copies (node_list p) r))"
    by (simp add: mset_concat_map driver_calls [OF nthr k] multiset.map_comp comp_def m)
  also have "\<dots> = image_mset (address_of p' inp out scale) (\<Sum>r\<in>#copies ?rest ?q. copies (node_list p) r)"
  proof -
    have "(\<Sum>r\<in>#M. image_mset f (g r)) = image_mset f (\<Sum>r\<in>#M. g r)" for M f and g :: "position \<Rightarrow> position multiset"
      by (induction M) simp_all
    then show ?thesis .
  qed
  also have "(\<Sum>r\<in>#copies ?rest ?q. copies (node_list p) r) = copies (?rest @ node_list p) ?q" by (simp only: copies_append)
  also have "\<dots> = copies (node_list p') ?q" by (rule copies_perm) (simp add: kernel_nodes [OF k(1)] kn union_commute)
  finally show ?thesis .
qed

section \<open>Every schedule\<close>

lemma runs_order: "runs f ts s s' \<Longrightarrow> \<exists>xs. mset xs = mset (concat ts) \<and> s' = fold f xs s"
proof (induction rule: runs.induct)
  case (runs_done ts s)
  have "s = fold f [] s" by simp
  then show ?case using runs_done by metis
next
  case (runs_step t ts x xs s s')
  then obtain ys where "mset ys = mset (concat (ts[t := xs]))" "s' = fold f ys (f x s)" by blast
  then have "mset (x # ys) = mset (concat ts)" "s' = fold f (x # ys) s"
    using mset_concat_update [OF runs_step(1,2)] by simp_all
  then show ?case by blast
qed

lemma scheduled_moves:
  assumes run: "runs (\<lambda>c. move_all qz beta scales inp (moves c)) calls mem mem'"
    and all: "mset (concat (map moves (concat calls))) = mset ms" and once: "distinct (map move_to ms)"
  shows "(\<forall>(i, a, s)\<in>set ms. mem' a = qz (scales s) beta (inp i) (mem a)) \<and>
    (\<forall>a. a \<notin> move_to ` set ms \<longrightarrow> mem' a = mem a)"
proof -
  obtain xs where xs: "mset xs = mset (concat calls)" "mem' = fold (\<lambda>c. move_all qz beta scales inp (moves c)) xs mem"
    using runs_order [OF run] by blast
  let ?ys = "concat (map moves xs)"
  have eq: "mem' = move_all qz beta scales inp ?ys mem" by (simp only: xs(2) move_all_concat)
  have m: "mset ?ys = mset ms" using all xs(1) by (simp add: mset_concat_map)
  then have "mset (map move_to ?ys) = mset (map move_to ms)" by simp
  then have d: "distinct (map move_to ?ys)" using once by (rule mset_eq_imp_distinct_iff [THEN iffD2])
  have s: "set ?ys = set ms" using m by (rule mset_eq_setD)
  have r: "mem' a = qz (scales s) beta (inp i) (mem a)" if "(i, a, s) \<in> set ms" for i a s
    unfolding eq by (rule move_all_read [OF d]) (simp only: s that)
  have "mem' a = mem a" if "a \<notin> move_to ` set ms" for a
    unfolding eq by (rule move_all_frame) (use that in \<open>simp only: set_map s not_False_eq_True\<close>)
  then show ?thesis using r by auto
qed

section \<open>Scales of a contiguous mask\<close>

lemma radix_digits_append: "radix_digits (rs @ rs') n = radix_digits rs (n div prod_list rs') @ radix_digits rs' n"
  by (induction rs) (simp_all add: div_mult2_eq mult.commute [of "prod_list _" "prod_list rs'"])

lemma double_power: "Suc n \<le> k \<Longrightarrow> 2 * 2 ^ (k - Suc n) = (2 :: int) ^ (k - n)"
  by (metis Suc_diff_le diff_Suc_Suc power_Suc)

lemma skip_zeros_shift: "skip_zeros m n = (m', n') \<Longrightarrow> n \<le> n' \<and> m = m' * 2 ^ (n' - n)"
proof (induction m n arbitrary: m' n' rule: skip_zeros.induct)
  case (1 m n)
  show ?case
  proof (cases "0 < m \<and> even m")
    case True
    then have "skip_zeros (m div 2) (n + 1) = (m', n')" using "1.prems" by (simp add: skip_zeros.simps [of m n])
    from "1.IH" [OF True this] True show ?thesis by (auto simp: double_power mult.left_commute [of 2] elim!: evenE)
  next
    case False
    then show ?thesis using "1.prems" by (auto simp: skip_zeros.simps [of m n])
  qed
qed

lemma skip_ones_all: "skip_ones m n = (0, n') \<Longrightarrow> n \<le> n' \<and> m = 2 ^ (n' - n) - 1"
proof (induction m n arbitrary: n' rule: skip_ones.induct)
  case (1 m n)
  show ?case
  proof (cases "0 < m \<and> odd m")
    case True
    then have "skip_ones (m div 2) (n + 1) = (0, n')" using "1.prems" by (simp add: skip_ones.simps [of m n])
    from "1.IH" [OF True this] True show ?thesis by (auto simp: double_power elim!: oddE)
  next
    case False
    then show ?thesis using "1.prems" by (auto simp: skip_ones.simps [of m n])
  qed
qed

lemma contiguous_bits:
  assumes "fst (skip_ones (fst (skip_zeros msk 0)) 0) = 0"
  defines "a \<equiv> snd (skip_zeros msk 0)" and "b \<equiv> snd (skip_ones (fst (skip_zeros msk 0)) 0)"
  shows "bit msk d \<longleftrightarrow> a \<le> d \<and> d < a + b"
proof -
  obtain m where z: "skip_zeros msk 0 = (m, a)" by (metis a_def prod.collapse)
  then have o: "skip_ones m 0 = (0, b)" using assms(1) by (metis b_def fst_conv prod.collapse)
  have "msk = push_bit a (Bit_Operations.mask b)"
    using skip_zeros_shift [OF z] skip_ones_all [OF o] by (simp add: push_bit_eq_mult mask_eq_exp_minus_1)
  then show ?thesis by (auto simp: bit_push_bit_iff bit_mask_iff possible_bit_def)
qed

lemma selected_middle:
  assumes "length xs = a" "length ys = b" "\<And>d. P d \<longleftrightarrow> a \<le> d \<and> d < a + b"
  shows "map snd (filter (\<lambda>(d, y). P d) (zip [0..<a + b + length zs] (xs @ ys @ zs))) = ys"
proof -
  have u: "[0..<a + b + length zs] = [0..<a] @ [a..<a + b] @ [a + b..<a + b + length zs]"
    using upt_add_eq_append [of 0 a "b + length zs"] upt_add_eq_append [of a "a + b" "length zs"] by (simp add: add.assoc)
  have all: "filter (\<lambda>(d, y). P d) (zip [a..<a + b] ys) = zip [a..<a + b] ys"
    by (rule filter_True) (auto simp: assms(3) dest: set_zip_leftD)
  have none: "filter (\<lambda>(d, y). P d) (zip [0..<a] xs) = []"
      "filter (\<lambda>(d, y). P d) (zip [a + b..<a + b + length zs] zs) = []"
    by (auto simp: filter_empty_conv assms(3) dest: set_zip_leftD)
  show ?thesis unfolding u by (simp add: assms(1,2) all none)
qed

lemma scale_number_contiguous:
  assumes c: "fst (skip_ones (fst (skip_zeros msk 0)) 0) = 0"
    and len: "length A = snd (skip_zeros msk 0)" "length B = snd (skip_ones (fst (skip_zeros msk 0)) 0)"
  shows "scale_number msk (A @ B @ C) e = e div prod_list C mod prod_list B"
proof -
  note s = selected_middle [of _ "length A" _ "length B" "bit msk", OF _ _ contiguous_bits [OF c, folded len]]
  have "scale_number msk (A @ B @ C) e = radix_val B (radix_digits B (e div prod_list C))"
    using s [of A B C] s [of "radix_digits A (e div prod_list (B @ C))" "radix_digits B (e div prod_list C)" "radix_digits C e"]
    by (simp add: scale_number_def Let_def radix_digits_append add.assoc)
  then show ?thesis by (simp add: radix_val_digits)
qed

section \<open>Without padding\<close>

definition no_padding :: "memory_desc \<Rightarrow> bool" where
  "no_padding md \<longleftrightarrow> (\<forall>d<ndims md. padded_offsets md d = 0 \<and> md_dims md d = padded_dims md d)"

lemma no_padding_layout:
  assumes md: "reorder_layout md" and np: "no_padding md"
  shows "addr_logical md e = addr_padded md e" "nelems md False = nelems md True" "extents md False = extents md True"
    "nat (nelems md False) = prod_list (extents md False)"
proof -
  show ext: "extents md False = extents md True" using np by (simp add: extents_def no_padding_def)
  have pos: "\<And>d b. d < ndims md \<Longrightarrow> 0 < (if b then padded_dims md d else md_dims md d)" and nd: "0 < md_ndims md"
    using md np by (auto simp: reorder_layout_def no_padding_def)
  show "nelems md False = nelems md True"
    using np by (auto simp: nelems_def no_padding_def intro!: array_product_cong)
  show "nat (nelems md False) = prod_list (extents md False)" by (rule nelems_extents [OF nd pos])
  let ?pos = "pos_of (radix_digits (extents md True) e)"
  have "off_v md ?pos False = off_v md ?pos True"
  proof -
    have "shift_pos md ?pos = ?pos"
      using np by (auto simp: shift_pos_def no_padding_def pos_of_def fun_eq_iff extents_def arr_def)
    then show ?thesis by (simp add: off_v_shift)
  qed
  then show "addr_logical md e = addr_padded md e"
    by (simp add: addr_logical_def addr_padded_def off_l_def off_l_pos_eq [OF pos] ext)
qed

text \<open>The two reorders agree on which scale an element takes.\<close>

lemma scale_offset_index:
  assumes im: "reorder_layout imd" "no_padding imd" and ext: "extents imd True = extents omd True"
    and mode: "scales_has_default_values (at_output_scales attr) = Some False \<or> sc_mask (at_output_scales attr) = 0"
    and c: "fst (skip_ones (fst (skip_zeros (sc_mask (at_output_scales attr)) 0)) 0) = 0"
    and within: "snd (skip_zeros (sc_mask (at_output_scales attr)) 0) +
      snd (skip_ones (fst (skip_zeros (sc_mask (at_output_scales attr)) 0)) 0) \<le> ndims imd"
  shows "scale_offset attr omd e = int (scale_index imd (sc_mask (at_output_scales attr)) e)"
proof -
  let ?msk = "sc_mask (at_output_scales attr)"
  define a b where "a = snd (skip_zeros ?msk 0)" and "b = snd (skip_ones (fst (skip_zeros ?msk 0)) 0)"
  let ?Ds = "extents imd False"
  have dims: "\<And>d. d < ndims imd \<Longrightarrow> 0 < md_dims imd d" and nd: "md_ndims imd \<noteq> 0"
    using im by (auto simp: reorder_layout_def no_padding_def)
  have ab: "a + b \<le> ndims imd" using within by (simp add: a_def b_def)
  obtain D_start D_mask D_rest where sp: "simple_reorder_split imd ?msk = (D_start, D_mask, D_rest)"
    by (metis prod_cases3)
  note x = simple_reorder_split_exact [OF sp within dims nd]
  let ?A = "take a ?Ds" and ?B = "take b (drop a ?Ds)" and ?C = "drop (a + b) ?Ds"
  have split: "?Ds = ?A @ ?B @ ?C" by (metis append_take_drop_id drop_drop add.commute)
  have len: "length ?A = a" "length ?B = b" using ab by (simp_all add: extents_def)
  have prod: "nat (array_product f n) = prod_list (map (\<lambda>d. nat (f d)) [0..<n])" if "\<forall>d<n. 0 < f d" for f n
    using that by (induction n) (simp_all add: nat_mult_distrib array_product_pos less_imp_le)
  have "?A = map (\<lambda>d. nat (md_dims imd d)) [0..<a]" using ab by (simp add: extents_def take_map)
  then have sA: "nat D_start = prod_list ?A"
    using sp prod [of a "md_dims imd"] dims ab by (auto simp: simple_reorder_split_def split_beta Let_def a_def)
  have "?B = map (\<lambda>d. nat (from_index a (md_dims imd) d)) [0..<b]"
    using ab by (intro nth_equalityI) (simp_all add: extents_def from_index_def)
  then have sB: "nat D_mask = prod_list ?B"
    using sp prod [of b "from_index a (md_dims imd)"] dims ab
    by (auto simp: simple_reorder_split_def split_beta Let_def a_def b_def from_index_def)
  have "prod_list ?A * (prod_list ?B * prod_list ?C) = nat D_start * nat D_mask * nat D_rest"
    using x(4) no_padding_layout(4) [OF im] split by (metis prod_list.append)
  then have sC: "nat D_rest = prod_list ?C" using x(1-3) by (simp add: sA [symmetric] sB [symmetric])
  have "scale_number ?msk ?Ds e = e div prod_list ?C mod prod_list ?B"
    using scale_number_contiguous [OF c, of ?A ?B ?C e] len split by (simp only: a_def [symmetric] b_def [symmetric])
  then have i: "scale_index imd ?msk e = scale_number ?msk ?Ds e" by (simp add: scale_index_def sp sB sC)
  have e: "?Ds = extents omd True" using no_padding_layout(3) [OF im] ext by simp
  show ?thesis using mode unfolding scale_offset_def i e by (auto simp: scale_number_def)
qed

section \<open>The planned reorder\<close>

lemma sum_singletons: "(\<Sum>e<n. {#f e#}) = mset (map f [0..<n])"
  by (induction n) simp_all

lemma prb_init_scale_type:
  assumes init: "prb_init p0 imd omd attr = Some (success, p)" and none: "prb_scale_type p = Scale_none"
  shows "scales_has_default_values (at_output_scales attr) = Some True"
proof (rule ccontr)
  assume nd: "scales_has_default_values (at_output_scales attr) \<noteq> Some True"
  obtain ild old dflt nd nodes ss where r: "padding_consistent imd omd" "cvt_mem_desc_to_layout_desc imd = Some (success, ild)"
    "cvt_mem_desc_to_layout_desc omd = Some (success, old)" "scales_has_default_values (at_output_scales attr) = Some dflt"
    "ss = (if \<not> dflt \<and> sc_mask (at_output_scales attr) \<noteq> 0 then scale_strides (sc_mask (at_output_scales attr)) old else (\<lambda>_. 0))"
    "match_loop ss ild old 0 0 0 (prb_nodes p0) = Some (success, nd, nodes)"
    using prb_init_success [OF init] by (elim exE conjE) (rule that)
  have d: "\<not> dflt" using nd r(4) by simp
  have b: "is_blocking_desc imd \<and> is_blocking_desc omd \<and> \<not> has_zero_dim imd \<and> \<not> has_zero_dim omd"
    using init by (auto simp: prb_init_def split: if_splits)
  have "\<exists>q. prb_init p0 imd omd attr = Some (success, q) \<and> prb_scale_type q \<noteq> Scale_none"
    using b r(1-4) d r(6) unfolding r(5) by (auto simp: prb_init_def Let_def)
  then show False using init none by auto
qed

lemma planned_moves:
  assumes im: "reorder_layout imd" "\<forall>d<ndims imd. 0 < blk_strides (blocking imd) d" "\<forall>d<ndims imd. padded_offsets imd d = 0"
    and om: "reorder_layout omd" "\<forall>d<ndims omd. 0 < blk_strides (blocking omd) d" "\<forall>d<ndims omd. padded_offsets omd d = 0"
    and nd: "md_ndims imd = md_ndims omd" and N: "int (scale_count attr omd) \<le> INT32_MAX"
    and create: "jit_uni_reorder_create mayiuse max_threads allocated attr imd omd = Some (success, Some (p, desc))"
    and nthr: "0 < nthr"
  shows "mset (concat (map (call_moves mayiuse (kd_prb desc)) (concat (omp_driver_calls p (prb_ndims (kd_prb desc)) nthr src dst scl)))) =
      mset (map (\<lambda>e. (src + addr_padded imd e * int (data_type_size (md_data_type imd)),
        dst + addr_padded omd e * int (data_type_size (md_data_type omd)), scl + scale_offset attr omd e))
        [0..<prod_list (extents omd True)])"
    and "prb_beta (kd_prb desc) = reorder_beta attr" and "0 < data_type_size (md_data_type imd)"
    and "0 < data_type_size (md_data_type omd)" and "extents imd True = extents omd True"
proof -
  obtain p0 p1 k0 where c: "prb_init zero_prb imd omd attr = Some (success, p0)"
    "prb_block_for_cache (prb_simplify (prb_normalize p0)) = Some p1"
    "prb_thread_kernel_balance max_threads p1 = Some (p, k0)" "kernel_desc_init mayiuse p k0 = (success, desc)"
    "prb_ndims p - prb_ndims (kd_prb desc) \<le> ndims_driver_max"
    by (rule create_success [OF create])
  note i = prb_init_copies [OF c(1) im(1) om(1) nd im(3) om(3)]
  have w: "same_work (scale_count attr omd) p0 p"
    by (rule planned_work [OF prb_init_nodes_ok [OF c(1) im(1,2) om(1,2) nd] c(2,3)])
  then have cp: "\<forall>q. copies (node_list p) q = copies (node_list p0) q"
    and hd: "p\<lparr>prb_ndims := 0, prb_nodes := \<lambda>_. zero_node\<rparr> = p0\<lparr>prb_ndims := 0, prb_nodes := \<lambda>_. zero_node\<rparr>"
    by (simp_all add: same_work_def)
  from hd have h: "prb_itype p = prb_itype p0" "prb_otype p = prb_otype p0" "prb_ioff p = prb_ioff p0"
    "prb_ooff p = prb_ooff p0" "prb_beta p = prb_beta p0"
    "prb_scale_type p = prb_scale_type p0"
    by (cases p; cases p0; simp)+
  obtain k where k: "0 < k" "k \<le> prb_ndims p" "kd_prb desc = p\<lparr>prb_ioff := 0, prb_ooff := 0, prb_ndims := k\<rparr>"
    "ker_applicable mayiuse (kd_prb desc)"
    by (rule kernel_desc_init_success [OF c(4)])
  show "prb_beta (kd_prb desc) = reorder_beta attr" by (simp add: k(3) h i(6))
  show "extents imd True = extents omd True" by (rule i(2))
  have "prb_itype p \<in> {f32, bf16, s32, s8, u8} \<and> prb_otype p \<in> {f32, bf16, s32, s8, u8}"
    using k(4) by (auto simp: ker_applicable_def Let_def k(3) split: if_splits)
  then have sz: "data_type_size (prb_itype (kd_prb desc)) \<in> {1, 2, 4}" by (auto simp: k(3))
  have nd0: "0 < prb_ndims (kd_prb desc)" by (simp add: k(1,3))
  have "prb_itype p \<in> {f32, bf16, s32, s8, u8} \<and> prb_otype p \<in> {f32, bf16, s32, s8, u8}"
    using k(4) by (auto simp: ker_applicable_def Let_def k(3) split: if_splits)
  then show "0 < data_type_size (md_data_type imd)" "0 < data_type_size (md_data_type omd)" by (auto simp: h i(3,4))
  have "node_list (kd_prb desc) = node_list (p\<lparr>prb_ndims := k\<rparr>)" by (simp add: k(3) node_list_def)
  then have "set (node_list (kd_prb desc)) \<subseteq> set (node_list p)" by (simp add: kernel_nodes [OF k(2)])
  then have ok: "\<forall>x\<in>set (node_list (kd_prb desc)). node_ok (scale_count attr omd) x" using same_work_ok [OF w] by blast
  note a = applicable_fits [OF k(4) ok N]
  have ss: "\<forall>x\<in>set (node_list (kd_prb desc)). nd_ss x = 0" if "prb_scale_type (kd_prb desc) = Scale_none"
  proof
    fix x assume x: "x \<in> set (node_list (kd_prb desc))"
    have "prb_scale_type p0 = Scale_none" using that h(6) by (simp add: k(3))
    then have "scale_count attr omd = 0" using prb_init_scale_type [OF c(1)] by (simp add: scale_count_def)
    then have "node_ok 0 x" using ok x by simp
    then show "nd_ss x = 0" by (auto simp: node_ok_def mult_le_0_iff)
  qed
  obtain offs where offs: "simple_impl mayiuse (kd_prb desc) = Some offs" "mset offs = copies (node_list (kd_prb desc)) (0, 0, 0)"
    using simple_impl_copies [OF a(1) _ _ _ ss] a(2) nd0 sz by blast
  have few: "prb_ndims p - k \<le> 4" using c(5) by (simp add: k(3) ndims_driver_max_def)
  have kk: "prb_ndims (kd_prb desc) = k" by (simp add: k(3))
  show "mset (concat (map (call_moves mayiuse (kd_prb desc)) (concat (omp_driver_calls p (prb_ndims (kd_prb desc)) nthr src dst scl)))) =
      mset (map (\<lambda>e. (src + addr_padded imd e * int (data_type_size (md_data_type imd)),
        dst + addr_padded omd e * int (data_type_size (md_data_type omd)), scl + scale_offset attr omd e))
        [0..<prod_list (extents omd True)])"
    unfolding kk calls_moves [OF offs k(3) nthr k(2) few] cp [rule_format] h i(1,2) sum_singletons
    by (simp add: address_of_def h i(3,4) comp_def flip: mset_map)
qed

lemma jit_moves:
  assumes "reorder_layout imd" "\<forall>d<ndims imd. 0 < blk_strides (blocking imd) d" "\<forall>d<ndims imd. padded_offsets imd d = 0"
    and "reorder_layout omd" "\<forall>d<ndims omd. 0 < blk_strides (blocking omd) d" "\<forall>d<ndims omd. padded_offsets omd d = 0"
    and "md_ndims imd = md_ndims omd" "int (scale_count attr omd) \<le> INT32_MAX"
    and "jit_uni_reorder_create mayiuse max_threads allocated attr imd omd = Some (success, Some (p, desc))" "0 < nthr"
    and inj: "inj_on (addr_padded omd) {..<count_padded omd}"
    and run: "runs (kernel_call mayiuse qz (kd_prb desc) scales inp)
      (omp_driver_calls p (prb_ndims (kd_prb desc)) nthr src dst scl) mem mem'"
  shows "(\<forall>e<count_padded omd.
      mem' (dst + addr_padded omd e * int (data_type_size (md_data_type omd))) =
      qz (scales (scl + scale_offset attr omd e)) (reorder_beta attr)
        (inp (src + addr_padded imd e * int (data_type_size (md_data_type imd))))
        (mem (dst + addr_padded omd e * int (data_type_size (md_data_type omd))))) \<and>
    (\<forall>a. a \<notin> (\<lambda>e. dst + addr_padded omd e * int (data_type_size (md_data_type omd))) ` {..<count_padded omd} \<longrightarrow>
      mem' a = mem a)"
proof -
  note m = planned_moves(1) [OF assms(1-10), where src = src and dst = dst and scl = scl] planned_moves(2-5) [OF assms(1-10)]
  let ?osz = "int (data_type_size (md_data_type omd))"
  let ?ms = "map (\<lambda>e. (src + addr_padded imd e * int (data_type_size (md_data_type imd)), dst + addr_padded omd e * ?osz,
    scl + scale_offset attr omd e)) [0..<prod_list (extents omd True)]"
  have cnt: "count_padded omd = prod_list (extents omd True)"
    unfolding count_padded_def by (rule nelems_extents) (use assms(4) in \<open>auto simp: reorder_layout_def\<close>)
  have osz: "0 < ?osz" using m(4) by simp
  then have "inj_on (\<lambda>e. dst + addr_padded omd e * ?osz) {..<count_padded omd}" using inj by (auto simp: inj_on_def)
  then have d: "distinct (map move_to ?ms)" by (simp add: comp_def distinct_map cnt atLeast0LessThan)
  have "runs (\<lambda>c. move_all qz (reorder_beta attr) scales inp (call_moves mayiuse (kd_prb desc) c))
      (omp_driver_calls p (prb_ndims (kd_prb desc)) nthr src dst scl) mem mem'"
    using run by (simp add: kernel_call_moves [abs_def] m(2))
  from scheduled_moves [OF this m(1) d] show ?thesis by (auto simp: cnt image_image atLeast0LessThan)
qed

section \<open>Scales per channel of a padded tensor\<close>

text \<open>
  The scale strides come from the padded dimensions: of 2 x 17 channels padded to 32, the last
  one (number 33 of 34) takes scale 48, past the end of the array.
\<close>

lemma padded_channels_miss_scales:
  "let md = the (snd (dnnl_memory_desc_init_by_tag 3 (Some (arr [2, 17, 1])) f32 (Tag ''aBc16b'')));
       attr = new_primitive_attr\<lparr>at_output_scales := snd (scales_set True 34 3 (replicate 34 0) new_scales)\<rparr>
   in addr_padded md 48 = addr_logical md 33 \<and> sc_count (at_output_scales attr) = 34 \<and>
      scale_index md 3 33 = 33 \<and> scale_offset attr md 48 = 48"
  by code_simp

text \<open>The reorder of \<open>ncw_md\<close> to \<open>nCw16c_md\<close>, for the witnesses.\<close>

lemma example_plan:
  "\<exists>p desc. jit_uni_reorder_create (\<lambda>_. True) 4 True new_primitive_attr ncw_md nCw16c_md = Some (success, Some (p, desc))"
proof -
  have "map_option (\<lambda>(st, r). st = success \<and> r \<noteq> None)
      (jit_uni_reorder_create (\<lambda>_. True) 4 True new_primitive_attr ncw_md nCw16c_md) = Some True"
    by code_simp
  then show ?thesis by auto
qed

lemma example_attr: "int (scale_count new_primitive_attr nCw16c_md) \<le> INT32_MAX" "scale_offset new_primitive_attr nCw16c_md e = 0"
  "scale_offset new_primitive_attr ncw_md e = 0" "sc_mask (at_output_scales new_primitive_attr) = 0"
proof -
  have d: "scales_has_default_values (at_output_scales new_primitive_attr) = Some True" by code_simp
  show "int (scale_count new_primitive_attr nCw16c_md) \<le> INT32_MAX" "scale_offset new_primitive_attr nCw16c_md e = 0"
    "scale_offset new_primitive_attr ncw_md e = 0"
    by (simp_all add: scale_count_def scale_offset_def d)
  show "sc_mask (at_output_scales new_primitive_attr) = 0" by code_simp
qed

lemma example_addresses: "count_padded nCw16c_md = 192" "addr_padded ncw_md 50 = 50" "addr_padded nCw16c_md 50 = 80"
  "data_type_size (md_data_type ncw_md) = 4" "data_type_size (md_data_type nCw16c_md) = 4"
  "list_all (\<lambda>d. md_dims ncw_md d = padded_dims ncw_md d \<and> md_dims nCw16c_md d = padded_dims nCw16c_md d) [0, 1, 2]"
  "consistent_with ncw_md nCw16c_md" "nelems ncw_md False = 192"
  by code_simp+

lemma example_unpadded: "no_padding ncw_md" "no_padding nCw16c_md"
proof -
  have n: "ndims ncw_md = 3" "ndims nCw16c_md = 3" by (simp_all add: ndims_def ncw_layout(4) nCw16c_layout(4))
  have "d = 0 \<or> d = 1 \<or> d = 2" if "d < 3" for d :: nat using that by linarith
  then show "no_padding ncw_md" "no_padding nCw16c_md"
    using ncw_layout(2) nCw16c_layout(2) example_addresses(6) by (fastforce simp: no_padding_def n)+
qed

section \<open>Properties\<close>

text \<open>
  C3: the optimised reorder, whatever it planned, and under every schedule of the threads that
  run its kernel calls, converts every padded element of the source to the element's place in
  the destination, once, with the scale of the element's position, and writes nowhere else.
\<close>

theorem jit_reorder_moves_every_element:
  assumes "reorder_layout imd" "\<forall>d<ndims imd. 0 < blk_strides (blocking imd) d" "\<forall>d<ndims imd. padded_offsets imd d = 0"
    and "reorder_layout omd" "\<forall>d<ndims omd. 0 < blk_strides (blocking omd) d" "\<forall>d<ndims omd. padded_offsets omd d = 0"
    and "md_ndims imd = md_ndims omd" "int (scale_count attr omd) \<le> INT32_MAX"
    and "jit_uni_reorder_create mayiuse max_threads allocated attr imd omd = Some (success, Some (p, desc))" "0 < nthr"
    and inj: "inj_on (addr_padded omd) {..<count_padded omd}"
    and run: "runs (kernel_call mayiuse qz (kd_prb desc) scales inp)
      (omp_driver_calls p (prb_ndims (kd_prb desc)) nthr src dst scl) mem mem'"
  shows "(\<forall>e<count_padded omd.
      mem' (dst + addr_padded omd e * int (data_type_size (md_data_type omd))) =
      qz (scales (scl + scale_offset attr omd e)) (reorder_beta attr)
        (inp (src + addr_padded imd e * int (data_type_size (md_data_type imd))))
        (mem (dst + addr_padded omd e * int (data_type_size (md_data_type omd))))) \<and>
    (\<forall>a. a \<notin> (\<lambda>e. dst + addr_padded omd e * int (data_type_size (md_data_type omd))) ` {..<count_padded omd} \<longrightarrow>
      mem' a = mem a)"
  by (rule jit_moves [OF assms])

theorem jit_reorder_moves_every_element_witness:
  "\<exists>p desc mem'.
     jit_uni_reorder_create (\<lambda>_. True) 4 True new_primitive_attr ncw_md nCw16c_md = Some (success, Some (p, desc)) \<and>
     runs (kernel_call (\<lambda>_. True) (\<lambda>s _ i _. s * i) (kd_prb desc) (\<lambda>_. 1) (\<lambda>x. 3 * x))
       (omp_driver_calls p (prb_ndims (kd_prb desc)) 4 1000 5000 0) (\<lambda>_. 7) mem' \<and>
     mem' (5000 + 80 * 4) = (3 * (1000 + 50 * 4) :: int)"
proof -
  obtain p desc where c: "jit_uni_reorder_create (\<lambda>_. True) 4 True new_primitive_attr ncw_md nCw16c_md =
      Some (success, Some (p, desc))"
    using example_plan by auto
  let ?run = "runs (kernel_call (\<lambda>_. True) (\<lambda>s _ i _. s * i) (kd_prb desc) (\<lambda>_. 1) (\<lambda>x. 3 * x))
    (omp_driver_calls p (prb_ndims (kd_prb desc)) 4 1000 5000 0) (\<lambda>_. 7 :: int)"
  obtain mem' where r: "?run mem'" by (rule that [OF runs_sequential])
  have "inj_on (addr_padded nCw16c_md) {..<count_padded nCw16c_md}"
    using padded.addr_inj [OF nCw16c_layout(5)] by (auto simp: inj_on_def)
  then have "\<forall>e<192. mem' (5000 + addr_padded nCw16c_md e * 4) = 3 * (1000 + addr_padded ncw_md e * 4)"
    using jit_reorder_moves_every_element [OF ncw_layout(1,3,2) nCw16c_layout(1,3,2) _ example_attr(1) c _ _ r]
    by (simp add: ncw_layout(4) nCw16c_layout(4) example_addresses)
  then have "mem' (5000 + addr_padded nCw16c_md 50 * 4) = 3 * (1000 + addr_padded ncw_md 50 * 4)" by simp
  then have "mem' (5000 + 80 * 4) = 3 * (1000 + 50 * 4)" by (simp only: example_addresses)
  then show ?thesis using c r by blast
qed



end
