(* ===== verification/Spec2Isabelle.thy ===== *)
theory Spec2Isabelle
  imports Simple_Reorder Scratchpad Primitive_Cache Primitive_Hashing Ref_Deconvolution Ref_Shuffle Ref_Convolution
    Ref_Concat Primitive_Exec Primitive_Iterator Reorder_Correct
begin

text \<open>
  A verification development for the core of MKL-DNN: the code of \<open>src/src/common\<close> that every
  primitive rests on, and portable implementations of \<open>src/src/cpu\<close> on top of it. File names
  below are relative to \<open>src/src\<close>.

  \<^bold>\<open>How the program is put together.\<close> A client describes tensors by memory descriptors
  (\<open>include/dnnl_types.h\<close>, \<open>common/memory.cpp\<close>) and an operation by an operation descriptor
  (\<open>common/convolution.cpp\<close> and its siblings), which the library validates. An engine then looks
  for an implementation that accepts the descriptor, makes the primitive or takes it from the
  engine's cache (\<open>common/primitive_cache.hpp\<close>, \<open>common/primitive_hashing.hpp\<close>); while it is
  made, the primitive books the temporary memory it needs (\<open>common/memory_tracking.hpp\<close>), which a
  scratchpad provides when it runs (\<open>common/scratchpad.cpp\<close>). Running it means loop nests split
  over threads (\<open>common/dnnl_thread*.hpp\<close>) that read and write elements at the offsets which
  \<open>common/memory_desc_wrapper.hpp\<close> computes from a descriptor.

  \<^bold>\<open>The theories\<close>, in the order of their imports:

  \<^item> \<open>Prelude\<close>: C arrays as index functions (\<open>carray\<close>), counted loops as folds (\<open>for_upto\<close>,
    \<open>for_range\<close>), mixed-radix numerals, truncating division.
  \<^item> \<open>Utils\<close>: \<open>common/utils.hpp\<close>, \<open>common/math_utils.hpp\<close>: array helpers, rounding, the
    nd-iterators, \<open>simultaneous_sort\<close>, row-major offsets. The locale \<open>comparator\<close> holds what the
    sort needs of its comparison; it is interpreted at the order of strides.
  \<^item> \<open>Threading\<close>: \<open>balance211\<close>, \<open>balance2D\<close>, \<open>for_nd\<close>, \<open>parallel_nd\<close>. The locale
    \<open>work_split\<close> is the contract of a splitting; \<open>balance211\<close> is its interpretation. An
    interleaving of the threads' iterations is an inductive relation, and \<open>parallel_nd\<close> is shown
    to be independent of it when iterations commute. The other theories run parallel loops in
    row-major order (\<open>par_for\<close>) on this ground.
  \<^item> \<open>Types\<close>: the enumerations, the memory descriptor (one field per member of its union of
    formats), \<open>common/type_helpers.hpp\<close>, comparison of descriptors.
  \<^item> \<open>Memory_Desc\<close>: \<open>common/memory_desc_wrapper.{hpp,cpp}\<close>: \<open>off_v\<close>, \<open>off_l\<close>, sizes, queries,
    and \<open>compute_blocking\<close>, whose table of all format tags is \<open>blocking_table\<close>.
  \<^item> \<open>Layout\<close>: every tag gives a dense layout, a dense layout is a bijection between the padded
    positions and an interval of offsets. The locales \<open>tensor_layout\<close> and \<open>packed_layout\<close> are
    the interface of a layout to the code that moves data; they are interpreted at all padded and
    at all logical positions of a blocked descriptor.
  \<^item> \<open>Memory_Api\<close>: \<open>common/memory.cpp\<close> and the descriptor builders of \<open>type_helpers.hpp\<close>.
  \<^item> \<open>Zero_Pad\<close>: \<open>common/memory_zero_pad.cpp\<close>. \<open>Simple_Reorder\<close>: the reference reorder of
    \<open>cpu/simple_reorder.hpp\<close>.
  \<^item> \<open>Memory_Tracking\<close>, \<open>Scratchpad\<close>: booking of scratchpad memory, and the two kinds of
    scratchpads over an explicit heap, with the reachable states of one thread.
  \<^item> \<open>Primitive_Cache\<close>: the LRU list with its map of iterators, where an iterator is the
    identity of a list node, and \<open>engine_t::get_primitive\<close> with nested primitives. The locale
    \<open>primitive_cache\<close> is the contract the engine relies on; the LRU cache is its interpretation.
  \<^item> \<open>Op_Types\<close>, \<open>Primitive_Attr\<close>, \<open>Primitive_Hashing\<close>: operation descriptors and attributes
    with their comparisons, and the hash of a cache key over them.
  \<^item> \<open>Op_Desc\<close>, \<open>Op_Desc_More\<close>: the functions that validate and fill operation descriptors.
  \<^item> \<open>Ref_Deconvolution\<close>: the weights descriptor of the convolution a deconvolution runs.
    \<open>Ref_Shuffle\<close>: the channel shuffle with its loop nests.
  \<^item> \<open>Par_Loops\<close>: what nests of parallel loops write, sums over boxes of positions.
    \<open>Ref_Convolution\<close>: the reference convolution in its three directions, generic over the
    accumulator, so that the theorems are about exact arithmetic.
  \<^item> \<open>Ref_Concat\<close>: the concatenation over reorders. The locale \<open>reorder_impls\<close> is the contract
    of a list of reorders with the concatenation; it is interpreted at the reference reorder.
  \<^item> \<open>Ref_Sum\<close>: the weighted sum over reorders that accumulate. The locale \<open>scaled_reorders\<close> is
    the contract of the reorders with it; it is interpreted at the reference reorder.
  \<^item> \<open>Convolution_Pd\<close>, \<open>Primitive_Desc\<close>: the classes of \<open>common/*_pd.hpp\<close>: constructors, which
    arguments a primitive takes and what their descriptors are, queries. A class's virtual
    functions are a record that overrides fields of the base class's.
  \<^item> \<open>Primitive_Exec\<close>: \<open>common/primitive_exec_types.cpp\<close>, \<open>common/primitive.cpp\<close>: the arguments a client
    passes, a primitive's scratchpad, its execution. The locale \<open>argument_interface\<close> is what the
    conversion of arguments needs of a descriptor; all classes together are its interpretation.
  \<^item> \<open>Primitive_Iterator\<close>: the search for an implementation. The locale \<open>implementations\<close> is the
    contract of a list of implementations; lists of \<open>primitive_desc_t::create\<close> are its interpretation.
  \<^item> \<open>Reorder_Problem\<close>, \<open>Reorder_Init\<close>, \<open>Reorder_Plan\<close>, \<open>Reorder_Unroll\<close>,
    \<open>Reorder_Kernel\<close>, \<open>Reorder_Correct\<close>: the optimised reorder of \<open>cpu/jit_uni_reorder{.hpp,.cpp,_utils.cpp}\<close>. A reorder is a nest of
    loops with strides; its meaning is the multiset of the triples of offsets it visits
    (\<open>copies\<close>). \<open>Reorder_Problem\<close> builds the nest from two descriptors and transforms it,
    \<open>Reorder_Init\<close> shows that it visits every padded element once, \<open>Reorder_Plan\<close> plans kernel
    and driver, \<open>Reorder_Unroll\<close> has the offsets of the unrolled code and its direct copies and
    8x8 transpositions, \<open>Reorder_Kernel\<close> the loops around it and the kernel calls of the
    threads, \<open>Reorder_Correct\<close> puts them together.

  \<^bold>\<open>How code is represented.\<close> A struct is a record, an enumeration a datatype with the
  enumerators' names (the initials of the enumeration in front where the bare name clashes). A
  \<open>dim_t\<close> is an \<open>int\<close> with C's truncating division (\<open>sdiv\<close>, \<open>smod\<close>); a conversion to \<open>int\<close> is
  \<open>int32_cast\<close>; \<open>size_t\<close> and pointers are 64-bit words, or reduced modulo \<open>2 ^ 64\<close>, where the
  wrap-around shows; loop counters are \<open>nat\<close>. A \<open>float\<close> is its bit pattern with IEEE equality. A
  fixed-size array is an index function, so that an entry that is never written keeps its old
  value. A function with an output parameter returns the status and the new contents, if it writes
  any; a pointer the code tests for null is an option. Undefined behaviour is a value of its own
  (\<open>None\<close>, \<open>Undefined\<close>) where a caller can provoke it, so that its absence can be stated. Loops
  are folds over their ranges or structural recursion: no fuel is needed, and totality of the
  definitions is termination of the loops. The loops whose end depends on more than their
  bounds (the search for a divisor when a reorder is planned, the copies of its kernel) are
  partial functions that are shown to end.

  \<^bold>\<open>Parameters.\<close> What is not code of the library is an argument: the number of threads the
  runtime grants, the addresses \<open>malloc\<close> returns and whether it succeeds, \<open>std::hash\<close> on scalars,
  the conversion of one element, the list of implementations of an engine, the features of the
  CPU. The shuffles of vector registers in the optimised reorder are written out from the
  instructions' definition. The assumptions on them
  are hypotheses of the theorems: \<open>malloc\<close> returns a fresh block, equal floats hash alike.

  \<^bold>\<open>What is shown.\<close> Layouts: descriptors from tags address every element once, fill exactly
  their size, are accepted exactly for valid dimensions, match their tag, and submemory is a view.
  Data movement: reorder and zero padding change exactly the elements they should, a reorder to
  another layout and back is the identity, the shuffle's specialised loop nests agree with the
  transposition of the axis, deconvolution weights are the same data seen with swapped channels,
  the optimised reorder moves every element once whatever it plans and agrees with the reference,
  a concatenation puts every source in its place whatever layout it picks, and a sum accumulates
  the scaled sources. Convolution: the
  forward loops compute the strided, dilated, padded, grouped sum for every position, and the two
  backward directions are its adjoints.
  Threads: work splittings are partitions, and a parallel loop computes what the sequential loop
  does under any schedule. Memory: booked blocks are aligned, disjoint and inside the scratchpad,
  and scratchpads of a thread never dangle or leak. Primitives: the arguments a client passes are
  accepted exactly when they are the documented ones, every live primitive runs on an allocated
  scratchpad of the size it booked, and the iteration over implementations ends after visiting
  exactly those that accept. Cache: no operation follows a dangling
  iterator, requests get the implementation of their own key, and a primitive stays cached as long
  as the capacity promises. Descriptors: comparison is an equivalence, equal keys hash alike on
  the descriptors the library makes, initialisers accept exactly what their checks say and return
  a status on every input in range. Where the code does not do what it means to, a lemma shows an
  instance (for example \<open>lnorm_statistics_aliased\<close>, \<open>equal_wino_different_size\<close>).

  \<^bold>\<open>Not modelled.\<close> Code that emits machine code (the \<open>jit_*\<close> files, the kernels of
  \<open>cpu/gemm\<close>, xbyak) and the implementations that only call it, but for the logic of the
  optimised reorder around its instructions; OpenCL; floating-point formulas
  (normalisation, softmax, eltwise), whose rounding is the machine's; engines, streams and memory
  storage, which dispatch and allocate; verbose output and debug strings; the C++ wrappers.
\<close>

end
